(* ===== verification/Prelude.thy ===== *)
theory Prelude
  imports Main "HOL-Library.Word" "HOL-Library.Monad_Syntax"
begin

text \<open>
  Shared material of the development: names for the machine integer types of
  \<^verbatim>\<open>include/libs/std/stdint.h\<close>, the error numbers of
  \<^verbatim>\<open>include/kernel/errno.h\<close> as a datatype, the results of functions that return
  \<^verbatim>\<open>EOK\<close> or a negated error number, and the generic lemmas on words, natural-number
  bit operations and lists that the components use.
\<close>

unbundle bit_operations_syntax

type_synonym uint8_t = "8 word"
type_synonym uint16_t = "16 word"
type_synonym uint32_t = "32 word"
type_synonym uint64_t = "64 word"
type_synonym int32_t = "32 word"
type_synonym int64_t = "64 word"

text \<open>
  The error numbers the modelled functions return. A C function that returns 0 or
  \<^verbatim>\<open>-Exxx\<close> returns a \<open>status\<close> here; one that returns a value or \<^verbatim>\<open>-Exxx\<close>
  returns \<open>errno + 'a\<close>.
\<close>

datatype errno =
    EPERM | ENOENT | ESRCH | EINTR | EIO | EBADF | EAGAIN | ENOMEM | EACCES | EFAULT
  | EBUSY | EEXIST | EINVAL | ENOSPC | EPIPE | ERANGE | ENAMETOOLONG | ENOSYS
  | EOVERFLOW | EOPNOTSUPP | EMSGSIZE | ETIMEDOUT | EDEADLK

datatype status = EOK | ERR errno

named_theorems word_exact \<open>when the exact integer result of a word operation is representable\<close>

subsection \<open>Two's complement ranges\<close>

lemma two_power_len: "(2::int) ^ LENGTH('a::len) = 2 * 2 ^ (LENGTH('a) - 1)"
  by (metis One_nat_def Suc_pred len_gt_0 power_Suc)

lemma sint_word_of_int_range [word_exact]:
  "sint (word_of_int k :: 'a::len word) = k
   \<longleftrightarrow> - (2 ^ (LENGTH('a) - 1)) \<le> k \<and> k < 2 ^ (LENGTH('a) - 1)"
  by (simp add: signed_of_int signed_take_bit_int_eq_self_iff)

lemma uint_word_of_int_range [word_exact]:
  "uint (word_of_int k :: 'a::len word) = k \<longleftrightarrow> 0 \<le> k \<and> k < 2 ^ LENGTH('a)"
  by (simp add: unsigned_of_int take_bit_int_eq_self_iff)

lemma word_of_int_add_modulus:
  "(word_of_int (k + 2 ^ LENGTH('a)) :: 'a::len word) = word_of_int k"
  "(word_of_int (k - 2 ^ LENGTH('a)) :: 'a::len word) = word_of_int k"
  by simp_all

text \<open>
  A signed sum is exact, or wraps upwards past the largest or downwards past the smallest
  value of the type.
\<close>

lemma sint_add_cases:
  fixes a b :: "'a::len word"
  shows "sint (a + b) = sint a + sint b
    \<or> (sint (a + b) = sint a + sint b - 2 ^ LENGTH('a) \<and> 2 ^ (LENGTH('a) - 1) \<le> sint a + sint b)
    \<or> (sint (a + b) = sint a + sint b + 2 ^ LENGTH('a) \<and> sint a + sint b < - (2 ^ (LENGTH('a) - 1)))"
proof -
  let ?h = "(2::int) ^ (LENGTH('a) - 1)"
  let ?e = "sint a + sint b"
  have range: "- ?h \<le> sint a" "sint a < ?h" "- ?h \<le> sint b" "sint b < ?h"
    by (rule sint_ge sint_lt)+
  have sum: "word_of_int ?e = a + b" by simp
  consider "- ?h \<le> ?e \<and> ?e < ?h" | "?h \<le> ?e" | "?e < - ?h" by linarith
  then show ?thesis
  proof cases
    case 1
    then have "sint (word_of_int ?e :: 'a word) = ?e" by (simp only: word_exact)
    then show ?thesis by simp
  next
    case 2
    have "sint (word_of_int (?e - 2 ^ LENGTH('a)) :: 'a word) = ?e - 2 ^ LENGTH('a)"
      using 2 range by (simp only: word_exact two_power_len) linarith
    with sum have "sint (a + b) = ?e - 2 ^ LENGTH('a)" by (simp only: word_of_int_add_modulus)
    with 2 show ?thesis by blast
  next
    case 3
    have "sint (word_of_int (?e + 2 ^ LENGTH('a)) :: 'a word) = ?e + 2 ^ LENGTH('a)"
      using 3 range by (simp only: word_exact two_power_len) linarith
    with sum have "sint (a + b) = ?e + 2 ^ LENGTH('a)" by (simp only: word_of_int_add_modulus)
    with 3 show ?thesis by blast
  qed
qed

lemma sint_neg_and_iff: "sint (v AND w) < 0 \<longleftrightarrow> sint v < 0 \<and> sint w < 0"
  for v w :: "'a::len word"
  by (simp add: bit_last_iff [symmetric] bit_and_iff)

lemma sint_neg_xor_iff: "sint (v XOR w) < 0 \<longleftrightarrow> (sint v < 0) \<noteq> (sint w < 0)"
  for v w :: "'a::len word"
  by (simp add: bit_last_iff [symmetric] bit_xor_iff)

subsection \<open>Sizes\<close>

text \<open>
  A \<^verbatim>\<open>size_t\<close> that only indexes or counts is a natural number. Where the code adds or
  subtracts in place, the 64-bit wrap is written out, so that exactness is something to prove.
\<close>

definition size_add :: "nat \<Rightarrow> nat \<Rightarrow> nat" where
  "size_add a b = (a + b) mod 2 ^ 64"

definition size_sub :: "nat \<Rightarrow> nat \<Rightarrow> nat" where
  "size_sub a b = nat ((int a - int b) mod 2 ^ 64)"

text \<open>The conversion \<^verbatim>\<open>(int32_t)n\<close> of a \<^verbatim>\<open>size_t\<close>.\<close>

definition int32_of_size :: "nat \<Rightarrow> int" where
  "int32_of_size n = (int n + 2 ^ 31) mod 2 ^ 32 - 2 ^ 31"

named_theorems size_exact \<open>size arithmetic that does not wrap\<close>

lemma size_add_exact [size_exact]: "a + b < 2 ^ 64 \<Longrightarrow> size_add a b = a + b"
  by (simp add: size_add_def)

lemma size_add_code [code]: "size_add a b = nat ((int a + int b) mod 18446744073709551616)"
  by (simp add: size_add_def nat_mod_distrib nat_add_distrib)

lemma size_sub_exact [size_exact]: "b \<le> a \<Longrightarrow> a < 2 ^ 64 \<Longrightarrow> size_sub a b = a - b"
proof -
  assume a: "b \<le> a" "a < 2 ^ 64"
  then have "int a < int (2 ^ 64)" by (simp only: of_nat_less_iff)
  with a have "int a - int b < 2 ^ 64" "0 \<le> int a - int b" by auto
  then have "(int a - int b) mod 2 ^ 64 = int a - int b" by (intro mod_pos_pos_trivial)
  then show ?thesis by (simp only: size_sub_def nat_minus_as_int)
qed

lemma int32_of_size_exact [size_exact]: "n < 2 ^ 31 \<Longrightarrow> int32_of_size n = int n"
  by (simp add: int32_of_size_def)

text \<open>Checked execution: the rest of a computation runs only when the guard holds.\<close>

definition guard :: "bool \<Rightarrow> unit option" where
  "guard b = (if b then Some () else None)"

lemma guard_simps [simp]: "guard True = Some ()" "guard False = None" "guard b = Some u \<longleftrightarrow> b"
  by (simp_all add: guard_def)

text \<open>A loop that runs a fallible step on each element of a list.\<close>

fun fold_option :: "('s \<Rightarrow> 'a \<Rightarrow> 's option) \<Rightarrow> 's \<Rightarrow> 'a list \<Rightarrow> 's option" where
  "fold_option f s [] = Some s"
| "fold_option f s (x # xs) = do { s \<leftarrow> f s x; fold_option f s xs }"

lemma fold_option_append: "fold_option f s (xs @ ys) = do { t \<leftarrow> fold_option f s xs; fold_option f t ys }"
  by (induction xs arbitrary: s) (auto intro: Option.bind_cong)

subsection \<open>Powers of two as bit masks\<close>

lemma and_units_mod: "i AND (2 ^ n - 1) = i mod 2 ^ n" for i :: nat
  by (metis mask_eq_exp_minus_1 take_bit_eq_mask take_bit_eq_mod)

lemma and_units_iff: "i AND (2 ^ n - 1) = 0 \<longleftrightarrow> 2 ^ n dvd i" for i :: nat
  by (simp only: and_units_mod dvd_eq_mod_eq_0)

lemmas and_units_iff' [simp] = and_units_iff [unfolded One_nat_def]

lemma xor_unit: "(i XOR 2 ^ n) = (if bit i n then i - 2 ^ n else i + 2 ^ n)" for i :: nat
proof (cases "bit i n")
  case True
  then have "i = (i XOR 2 ^ n) + 2 ^ n"
    by (subst disjunctive_add) (auto simp: bit_simps intro!: bit_eqI)
  with True show ?thesis by simp
next
  case False
  then have "i + 2 ^ n = i OR 2 ^ n" by (intro disjunctive_add) (auto simp: bit_simps)
  also have "\<dots> = i XOR 2 ^ n" using False by (auto simp: bit_simps intro!: bit_eqI)
  finally show ?thesis using False by simp
qed

end
