(* ===== verification/Overflow.thy ===== *)
theory Overflow
  imports Prelude
begin

text \<open>
  \<^verbatim>\<open>src/libs/util/overflow.c\<close>: checked addition, subtraction and multiplication on the
  kernel's integer types. Every function has two bodies, selected by
  \<^verbatim>\<open>__has_builtin\<close>: the compiler builtin, and a portable fallback. The argument
  \<open>has_builtin\<close> of each definition selects the body as the preprocessor does; the pair
  returned is the boolean result and the value stored through \<^verbatim>\<open>res\<close>.
  Signed operands are words read with \<^const>\<open>sint\<close>.
\<close>

section \<open>The compiler builtins\<close>

text \<open>
  \<^verbatim>\<open>__builtin_add_overflow\<close> and its siblings compute the operation on mathematical
  integers, store the result converted to the result type, and report whether the stored
  value differs from the exact one.
\<close>

definition builtin_overflow_u :: "int \<Rightarrow> bool \<times> 'a::len word" where
  "builtin_overflow_u exact = (let res = word_of_int exact in (uint res \<noteq> exact, res))"

definition builtin_overflow_s :: "int \<Rightarrow> bool \<times> 'a::len word" where
  "builtin_overflow_s exact = (let res = word_of_int exact in (sint res \<noteq> exact, res))"

section \<open>Addition\<close>

definition add_overflow_u32 :: "bool \<Rightarrow> uint32_t \<Rightarrow> uint32_t \<Rightarrow> bool \<times> uint32_t" where
  "add_overflow_u32 has_builtin left right =
     (if has_builtin then builtin_overflow_u (uint left + uint right)
      else let sum = left + right in (sum < left, sum))"

definition add_overflow_u64 :: "bool \<Rightarrow> uint64_t \<Rightarrow> uint64_t \<Rightarrow> bool \<times> uint64_t" where
  "add_overflow_u64 has_builtin left right =
     (if has_builtin then builtin_overflow_u (uint left + uint right)
      else let sum = left + right in (sum < left, sum))"

text \<open>\<^verbatim>\<open>unsigned long\<close> and \<^verbatim>\<open>long\<close> have 64 bits on x86-64.\<close>

definition add_overflow_ul :: "bool \<Rightarrow> uint64_t \<Rightarrow> uint64_t \<Rightarrow> bool \<times> uint64_t" where
  "add_overflow_ul has_builtin left right =
     (if has_builtin then builtin_overflow_u (uint left + uint right)
      else let sum = left + right in (sum < left, sum))"

definition add_overflow_s32 :: "bool \<Rightarrow> int32_t \<Rightarrow> int32_t \<Rightarrow> bool \<times> int32_t" where
  "add_overflow_s32 has_builtin left right =
     (if has_builtin then builtin_overflow_s (sint left + sint right)
      else let sum = left + right in (sint ((left XOR sum) AND (right XOR sum)) < 0, sum))"

definition add_overflow_s64 :: "bool \<Rightarrow> int64_t \<Rightarrow> int64_t \<Rightarrow> bool \<times> int64_t" where
  "add_overflow_s64 has_builtin left right =
     (if has_builtin then builtin_overflow_s (sint left + sint right)
      else let sum = left + right in (sint ((left XOR sum) AND (right XOR sum)) < 0, sum))"

definition add_overflow_sl :: "bool \<Rightarrow> int64_t \<Rightarrow> int64_t \<Rightarrow> bool \<times> int64_t" where
  "add_overflow_sl has_builtin left right =
     (if has_builtin then builtin_overflow_s (sint left + sint right)
      else let sum = left + right in (sint ((left XOR sum) AND (right XOR sum)) < 0, sum))"

section \<open>Subtraction\<close>

definition sub_overflow_u32 :: "bool \<Rightarrow> uint32_t \<Rightarrow> uint32_t \<Rightarrow> bool \<times> uint32_t" where
  "sub_overflow_u32 has_builtin left right =
     (if has_builtin then builtin_overflow_u (uint left - uint right)
      else let difference = left - right in (left < right, difference))"

definition sub_overflow_u64 :: "bool \<Rightarrow> uint64_t \<Rightarrow> uint64_t \<Rightarrow> bool \<times> uint64_t" where
  "sub_overflow_u64 has_builtin left right =
     (if has_builtin then builtin_overflow_u (uint left - uint right)
      else let difference = left - right in (left < right, difference))"

definition sub_overflow_ul :: "bool \<Rightarrow> uint64_t \<Rightarrow> uint64_t \<Rightarrow> bool \<times> uint64_t" where
  "sub_overflow_ul has_builtin left right =
     (if has_builtin then builtin_overflow_u (uint left - uint right)
      else let difference = left - right in (left < right, difference))"

definition sub_overflow_s32 :: "bool \<Rightarrow> int32_t \<Rightarrow> int32_t \<Rightarrow> bool \<times> int32_t" where
  "sub_overflow_s32 has_builtin left right =
     (if has_builtin then builtin_overflow_s (sint left - sint right)
      else let difference = left - right
        in (sint ((left XOR right) AND (left XOR difference)) < 0, difference))"

definition sub_overflow_s64 :: "bool \<Rightarrow> int64_t \<Rightarrow> int64_t \<Rightarrow> bool \<times> int64_t" where
  "sub_overflow_s64 has_builtin left right =
     (if has_builtin then builtin_overflow_s (sint left - sint right)
      else let difference = left - right
        in (sint ((left XOR right) AND (left XOR difference)) < 0, difference))"

definition sub_overflow_sl :: "bool \<Rightarrow> int64_t \<Rightarrow> int64_t \<Rightarrow> bool \<times> int64_t" where
  "sub_overflow_sl has_builtin left right =
     (if has_builtin then builtin_overflow_s (sint left - sint right)
      else let difference = left - right
        in (sint ((left XOR right) AND (left XOR difference)) < 0, difference))"

section \<open>Multiplication\<close>

definition mul_overflow_u32 :: "bool \<Rightarrow> uint32_t \<Rightarrow> uint32_t \<Rightarrow> bool \<times> uint32_t" where
  "mul_overflow_u32 has_builtin left right =
     (if has_builtin then builtin_overflow_u (uint left * uint right)
      else let product = left * right in (left \<noteq> 0 \<and> product div left \<noteq> right, product))"

definition mul_overflow_u64 :: "bool \<Rightarrow> uint64_t \<Rightarrow> uint64_t \<Rightarrow> bool \<times> uint64_t" where
  "mul_overflow_u64 has_builtin left right =
     (if has_builtin then builtin_overflow_u (uint left * uint right)
      else let product = left * right in (left \<noteq> 0 \<and> product div left \<noteq> right, product))"

definition mul_overflow_ul :: "bool \<Rightarrow> uint64_t \<Rightarrow> uint64_t \<Rightarrow> bool \<times> uint64_t" where
  "mul_overflow_ul has_builtin left right =
     (if has_builtin then builtin_overflow_u (uint left * uint right)
      else let product = left * right in (left \<noteq> 0 \<and> product div left \<noteq> right, product))"

text \<open>The signed products are taken in a type of twice the width, as the casts do.\<close>

definition mul_overflow_s32 :: "bool \<Rightarrow> int32_t \<Rightarrow> int32_t \<Rightarrow> bool \<times> int32_t" where
  "mul_overflow_s32 has_builtin left right =
     (if has_builtin then builtin_overflow_s (sint left * sint right)
      else let product = (scast left :: 64 word) * scast right
        in (sint product < - (2 ^ 31) \<or> sint product > 2 ^ 31 - 1, scast product))"

definition mul_overflow_s64 :: "bool \<Rightarrow> int64_t \<Rightarrow> int64_t \<Rightarrow> bool \<times> int64_t" where
  "mul_overflow_s64 has_builtin left right =
     (if has_builtin then builtin_overflow_s (sint left * sint right)
      else let product = (scast left :: 128 word) * scast right
        in (sint product < - (2 ^ 63) \<or> sint product > 2 ^ 63 - 1, scast product))"

definition mul_overflow_sl :: "bool \<Rightarrow> int64_t \<Rightarrow> int64_t \<Rightarrow> bool \<times> int64_t" where
  "mul_overflow_sl has_builtin left right =
     (if has_builtin then builtin_overflow_s (sint left * sint right)
      else let product = (scast left :: 128 word) * scast right
        in (sint product < - (2 ^ 63) \<or> sint product > 2 ^ 63 - 1, scast product))"

section \<open>The fallbacks compute what the builtins compute\<close>

lemma add_fallback_u:
  "(left + right < left) = (uint (left + right) \<noteq> uint left + uint right)"
  for left right :: "'a::len word"
  by (simp add: word_less_def uint_plus_if')

lemma sub_fallback_u:
  "(left < right) = (uint (left - right) \<noteq> uint left - uint right)"
  for left right :: "'a::len word"
  by (auto simp: word_less_def uint_sub_if')

lemma mul_fallback_u:
  fixes left right :: "'a::len word"
  shows "(left \<noteq> 0 \<and> left * right div left \<noteq> right) = (uint (left * right) \<noteq> uint left * uint right)"
proof (cases "left = 0")
  case False
  then have pos: "0 < uint left"
    using uint_ge_0 [of left] by (metis order_le_less uint_0_iff)
  have div: "uint (left * right div left) = uint (left * right) div uint left"
    by (simp add: uint_div_distrib)
  have "uint (left * right) = uint left * uint right" if eq: "left * right div left = right"
  proof -
    from eq div have "uint left * uint right = uint left * (uint (left * right) div uint left)"
      by simp
    also have "\<dots> \<le> uint (left * right)"
      using pos by (metis mult.commute pos_mod_sign zle_iff_zadd div_mult_mod_eq
          le_add_same_cancel1)
    also have "\<dots> < 2 ^ LENGTH('a)" by (rule uint_lt2p)
    finally show ?thesis by (simp add: uint_word_ariths)
  qed
  moreover have "left * right div left = right" if "uint (left * right) = uint left * uint right"
    using that div pos by (simp add: word_uint_eq_iff)
  ultimately show ?thesis using False by blast
qed simp

text \<open>The sign tests of the signed fallbacks, as a fact of integer arithmetic.\<close>

lemma sign_test_add:
  fixes a b s h :: int
  assumes "- h \<le> a" "a < h" "- h \<le> b" "b < h" "- h \<le> s" "s < h"
    and "s = a + b \<or> s = a + b - 2 * h \<or> s = a + b + 2 * h"
  shows "((a < 0) \<noteq> (s < 0) \<and> (b < 0) \<noteq> (s < 0)) = (s \<noteq> a + b)"
  using assms by auto

lemma sign_test_sub:
  fixes a b d h :: int
  assumes "- h \<le> a" "a < h" "- h \<le> b" "b < h" "- h \<le> d" "d < h"
    and "a = d + b \<or> a = d + b - 2 * h \<or> a = d + b + 2 * h"
  shows "((a < 0) \<noteq> (b < 0) \<and> (a < 0) \<noteq> (d < 0)) = (d \<noteq> a - b)"
  using assms by auto

lemma sint_add_cases_half:
  "sint (v + w) = sint v + sint w
   \<or> sint (v + w) = sint v + sint w - 2 * 2 ^ (LENGTH('a) - 1)
   \<or> sint (v + w) = sint v + sint w + 2 * 2 ^ (LENGTH('a) - 1)"
  for v w :: "'a::len word"
  using sint_add_cases [of v w] unfolding two_power_len by blast

lemma add_fallback_s:
  "(sint ((left XOR (left + right)) AND (right XOR (left + right))) < 0)
   = (sint (left + right) \<noteq> sint left + sint right)"
  for left right :: "'a::len word"
  unfolding sint_neg_and_iff sint_neg_xor_iff
  by (rule sign_test_add [OF sint_ge sint_lt sint_ge sint_lt sint_ge sint_lt sint_add_cases_half])

lemma sub_fallback_s:
  "(sint ((left XOR right) AND (left XOR (left - right))) < 0)
   = (sint (left - right) \<noteq> sint left - sint right)"
  for left right :: "'a::len word"
  unfolding sint_neg_and_iff sint_neg_xor_iff
  by (rule sign_test_sub [OF sint_ge sint_lt sint_ge sint_lt sint_ge sint_lt])
    (use sint_add_cases_half [of "left - right" right] in simp)

text \<open>A product of two values of half the width is exact.\<close>

lemma sint_scast_mult:
  fixes left right :: "'a::len word"
  assumes "LENGTH('b::len) = 2 * LENGTH('a)"
  shows "sint ((scast left :: 'b word) * scast right) = sint left * sint right"
proof -
  let ?h = "(2::int) ^ (LENGTH('a) - 1)"
  have abs: "\<bar>sint left\<bar> \<le> ?h" "\<bar>sint right\<bar> \<le> ?h"
    using sint_ge [of left] sint_lt [of left] sint_ge [of right] sint_lt [of right] by auto
  then have "\<bar>sint left * sint right\<bar> \<le> ?h * ?h"
    unfolding abs_mult by (rule mult_mono) auto
  moreover have "?h * ?h < 2 ^ (LENGTH('b) - 1)"
    unfolding power_add [symmetric] using assms
    by (intro power_strict_increasing) (use len_gt_0 [where 'a = 'a] in linarith)+
  ultimately have "- (2 ^ (LENGTH('b) - 1)) \<le> sint left * sint right
      \<and> sint left * sint right < 2 ^ (LENGTH('b) - 1)"
    by linarith
  moreover have "(word_of_int (sint left * sint right) :: 'b word) = scast left * scast right"
    by simp
  ultimately show ?thesis by (metis sint_word_of_int_range)
qed

section \<open>Exactness\<close>

lemma builtin_overflow_u_eq:
  "builtin_overflow_u k = (\<not> (0 \<le> k \<and> k < 2 ^ LENGTH('a)), word_of_int k :: 'a::len word)"
  by (simp add: builtin_overflow_u_def word_exact)

lemma builtin_overflow_s_eq:
  "builtin_overflow_s k =
     (\<not> (- (2 ^ (LENGTH('a) - 1)) \<le> k \<and> k < 2 ^ (LENGTH('a) - 1)), word_of_int k :: 'a::len word)"
  by (simp add: builtin_overflow_s_def word_exact)

text \<open>The fallback bodies, in the shape of the builtins.\<close>

lemma fallback_u_eq:
  fixes left right :: "'a::len word"
  shows "(left + right < left, left + right) = builtin_overflow_u (uint left + uint right)"
    and "(left < right, left - right) = builtin_overflow_u (uint left - uint right)"
    and "(left \<noteq> 0 \<and> left * right div left \<noteq> right, left * right)
         = builtin_overflow_u (uint left * uint right)"
  unfolding builtin_overflow_u_def Let_def add_fallback_u sub_fallback_u mul_fallback_u
  by auto

lemma fallback_s_eq:
  fixes left right :: "'a::len word"
  shows "(sint ((left XOR (left + right)) AND (right XOR (left + right))) < 0, left + right)
         = builtin_overflow_s (sint left + sint right)"
    and "(sint ((left XOR right) AND (left XOR (left - right))) < 0, left - right)
         = builtin_overflow_s (sint left - sint right)"
  unfolding builtin_overflow_s_def Let_def add_fallback_s sub_fallback_s
  by simp_all

lemma fallback_mul_s_eq:
  fixes left right :: "'a::len word"
  assumes "LENGTH('b::len) = 2 * LENGTH('a)"
  shows "(sint ((scast left :: 'b word) * scast right) < - (2 ^ (LENGTH('a) - 1))
            \<or> sint ((scast left :: 'b word) * scast right) > 2 ^ (LENGTH('a) - 1) - 1,
          scast ((scast left :: 'b word) * scast right))
         = (builtin_overflow_s (sint left * sint right) :: bool \<times> 'a word)"
proof -
  have "scast ((scast left :: 'b word) * scast right)
      = (word_of_int (sint ((scast left :: 'b word) * scast right)) :: 'a word)"
    by simp
  also have "\<dots> = word_of_int (sint left * sint right)"
    unfolding sint_scast_mult [OF assms] ..
  finally show ?thesis
    unfolding builtin_overflow_s_eq sint_scast_mult [OF assms] by auto
qed

lemma mul_s32_fallback:
  "(let product = (scast left :: 64 word) * scast right
    in (sint product < - (2 ^ 31) \<or> sint product > 2 ^ 31 - 1, scast product))
   = (builtin_overflow_s (sint left * sint right) :: bool \<times> 32 word)" for left right :: "32 word"
  using fallback_mul_s_eq [where 'b = 64, of left right] by (simp add: Let_def)

lemma mul_s64_fallback:
  "(let product = (scast left :: 128 word) * scast right
    in (sint product < - (2 ^ 63) \<or> sint product > 2 ^ 63 - 1, scast product))
   = (builtin_overflow_s (sint left * sint right) :: bool \<times> 64 word)" for left right :: "64 word"
  using fallback_mul_s_eq [where 'b = 128, of left right] by (simp add: Let_def)

lemmas overflow_bodies =
  add_overflow_u32_def add_overflow_u64_def add_overflow_ul_def
  add_overflow_s32_def add_overflow_s64_def add_overflow_sl_def
  sub_overflow_u32_def sub_overflow_u64_def sub_overflow_ul_def
  sub_overflow_s32_def sub_overflow_s64_def sub_overflow_sl_def
  mul_overflow_u32_def mul_overflow_u64_def mul_overflow_ul_def
  mul_overflow_s32_def mul_overflow_s64_def mul_overflow_sl_def

definition fits_u :: "nat \<Rightarrow> int \<Rightarrow> bool" where
  "fits_u width k \<longleftrightarrow> 0 \<le> k \<and> k < 2 ^ width"

definition fits_s :: "nat \<Rightarrow> int \<Rightarrow> bool" where
  "fits_s width k \<longleftrightarrow> - (2 ^ (width - 1)) \<le> k \<and> k < 2 ^ (width - 1)"

text \<open>
  Each of the eighteen checked operations, whichever of its two bodies the compiler
  selects, reports overflow exactly when the mathematical result is outside the range of
  the type, and stores the mathematical result reduced to the width of the type.
\<close>

lemma checked_arithmetic_exact:
  "add_overflow_u32 hb a b = (\<not> fits_u 32 (uint a + uint b), word_of_int (uint a + uint b))
   \<and> add_overflow_u64 hb c d = (\<not> fits_u 64 (uint c + uint d), word_of_int (uint c + uint d))
   \<and> add_overflow_ul hb c d = (\<not> fits_u 64 (uint c + uint d), word_of_int (uint c + uint d))
   \<and> add_overflow_s32 hb a b = (\<not> fits_s 32 (sint a + sint b), word_of_int (sint a + sint b))
   \<and> add_overflow_s64 hb c d = (\<not> fits_s 64 (sint c + sint d), word_of_int (sint c + sint d))
   \<and> add_overflow_sl hb c d = (\<not> fits_s 64 (sint c + sint d), word_of_int (sint c + sint d))
   \<and> sub_overflow_u32 hb a b = (\<not> fits_u 32 (uint a - uint b), word_of_int (uint a - uint b))
   \<and> sub_overflow_u64 hb c d = (\<not> fits_u 64 (uint c - uint d), word_of_int (uint c - uint d))
   \<and> sub_overflow_ul hb c d = (\<not> fits_u 64 (uint c - uint d), word_of_int (uint c - uint d))
   \<and> sub_overflow_s32 hb a b = (\<not> fits_s 32 (sint a - sint b), word_of_int (sint a - sint b))
   \<and> sub_overflow_s64 hb c d = (\<not> fits_s 64 (sint c - sint d), word_of_int (sint c - sint d))
   \<and> sub_overflow_sl hb c d = (\<not> fits_s 64 (sint c - sint d), word_of_int (sint c - sint d))
   \<and> mul_overflow_u32 hb a b = (\<not> fits_u 32 (uint a * uint b), word_of_int (uint a * uint b))
   \<and> mul_overflow_u64 hb c d = (\<not> fits_u 64 (uint c * uint d), word_of_int (uint c * uint d))
   \<and> mul_overflow_ul hb c d = (\<not> fits_u 64 (uint c * uint d), word_of_int (uint c * uint d))
   \<and> mul_overflow_s32 hb a b = (\<not> fits_s 32 (sint a * sint b), word_of_int (sint a * sint b))
   \<and> mul_overflow_s64 hb c d = (\<not> fits_s 64 (sint c * sint d), word_of_int (sint c * sint d))
   \<and> mul_overflow_sl hb c d = (\<not> fits_s 64 (sint c * sint d), word_of_int (sint c * sint d))"
  unfolding overflow_bodies mul_s32_fallback mul_s64_fallback
  unfolding Let_def fallback_u_eq fallback_s_eq
  by (simp add: builtin_overflow_u_eq builtin_overflow_s_eq fits_u_def fits_s_def)

end
