(* ===== verification/Byteorder.thy ===== *)
theory Byteorder
  imports Prelude "HOL-Library.Monad_Syntax"
begin

text \<open>
  \<^verbatim>\<open>src/libs/util/byteorder.c\<close>: unaligned little-endian and big-endian loads and
  stores, and byte swaps. A pointer argument is the list of the bytes from that address
  on; a load or store past the end of the buffer is \<open>None\<close>. The byte swaps have a
  builtin and a portable body, selected by \<open>has_builtin\<close> as \<^verbatim>\<open>__has_builtin\<close> does.
\<close>

section \<open>Bytes of a word\<close>

definition byte :: "nat \<Rightarrow> 'a::len word \<Rightarrow> uint8_t" where
  "byte i v = ucast (drop_bit (8 * i) v)"

named_theorems byte_simps \<open>bytes of compound words\<close>

lemma bit_byte_iff: "bit (byte i v) n \<longleftrightarrow> n < 8 \<and> bit v (8 * i + n)"
  by (auto simp: byte_def bit_simps)

text \<open>Words with equal bytes are equal.\<close>

lemma byte_eqI:
  fixes v w :: "'a::len word"
  assumes "\<And>i. 8 * i < LENGTH('a) \<Longrightarrow> byte i v = byte i w"
  shows "v = w"
proof (rule bit_word_eqI)
  fix n assume n: "n < LENGTH('a)"
  then have "byte (n div 8) v = byte (n div 8) w" by (intro assms) linarith
  then have "bit (byte (n div 8) v) (n mod 8) = bit (byte (n div 8) w) (n mod 8)" by simp
  then show "bit v n = bit w n" by (simp add: bit_byte_iff)
qed

lemma byte_or [byte_simps]: "byte i (v OR w) = byte i v OR byte i w"
  by (rule bit_word_eqI) (simp add: bit_byte_iff bit_or_iff)

lemma byte_and [byte_simps]: "byte i (v AND w) = byte i v AND byte i w"
  by (rule bit_word_eqI) (simp add: bit_byte_iff bit_and_iff)

lemma byte_zero [byte_simps]: "byte i 0 = 0"
  by (rule bit_word_eqI) (simp add: bit_byte_iff)

lemma byte_of_byte [byte_simps]: "byte i b = (if i = 0 then b else 0)" for b :: "8 word"
  by (rule bit_word_eqI) (auto simp: bit_byte_iff dest: bit_imp_le_length)

lemma byte_ucast [byte_simps]:
  "8 * i < LENGTH('a) \<Longrightarrow> 8 dvd LENGTH('a) \<Longrightarrow> byte i (ucast v :: 'a::len word) = byte i v"
  by (rule bit_word_eqI) (auto simp: bit_byte_iff bit_simps)

lemma byte_drop_bit [byte_simps]: "8 dvd n \<Longrightarrow> byte i (drop_bit n v) = byte (i + n div 8) v"
  by (rule bit_word_eqI) (auto simp: bit_byte_iff bit_simps algebra_simps)

lemma byte_push_bit [byte_simps]:
  "8 dvd n \<Longrightarrow> 8 dvd LENGTH('a) \<Longrightarrow> 8 * i < LENGTH('a)
   \<Longrightarrow> byte i (push_bit n v :: 'a::len word) = (if 8 * i < n then 0 else byte (i - n div 8) v)"
  by (rule bit_word_eqI) (auto simp: bit_byte_iff bit_simps algebra_simps)

lemma byte_beyond [byte_simps]: "LENGTH('a) \<le> 8 * i \<Longrightarrow> byte i v = 0" for v :: "'a::len word"
  by (rule bit_word_eqI) (auto simp: bit_byte_iff dest: bit_imp_le_length)

lemma ucast_byte_conv:
  "(ucast v :: 8 word) = byte 0 v" "(ucast (drop_bit n v) :: 8 word) = byte 0 (drop_bit n v)"
  by (simp_all add: byte_def)

text \<open>The byte indices of the three widths.\<close>

lemma byte_index_2: "8 * i < 16 \<Longrightarrow> i = 0 \<or> i = Suc 0" for i :: nat
  by linarith

lemma byte_index_4: "8 * i < 32 \<Longrightarrow> i = 0 \<or> i = Suc 0 \<or> i = 2 \<or> i = 3" for i :: nat
  by linarith

lemma byte_index_8:
  "8 * i < 64 \<Longrightarrow> i = 0 \<or> i = Suc 0 \<or> i = 2 \<or> i = 3 \<or> i = 4 \<or> i = 5 \<or> i = 6 \<or> i = 7" for i :: nat
  by linarith

lemma byte_eqI16:
  fixes v w :: "16 word"
  assumes "byte 0 v = byte 0 w" "byte (Suc 0) v = byte (Suc 0) w"
  shows "v = w"
  by (rule byte_eqI) (use assms byte_index_2 in auto)

lemma byte_eqI32:
  fixes v w :: "32 word"
  assumes "byte 0 v = byte 0 w" "byte (Suc 0) v = byte (Suc 0) w" "byte 2 v = byte 2 w" "byte 3 v = byte 3 w"
  shows "v = w"
  by (rule byte_eqI) (use assms byte_index_4 in auto)

lemma byte_eqI64:
  fixes v w :: "64 word"
  assumes "byte 0 v = byte 0 w" "byte (Suc 0) v = byte (Suc 0) w" "byte 2 v = byte 2 w" "byte 3 v = byte 3 w"
    "byte 4 v = byte 4 w" "byte 5 v = byte 5 w" "byte 6 v = byte 6 w" "byte 7 v = byte 7 w"
  shows "v = w"
  by (rule byte_eqI) (use assms byte_index_8 in auto)

section \<open>Loads and stores\<close>

definition load_le16 :: "uint8_t list \<Rightarrow> uint16_t option" where
  "load_le16 p = (case p of p0 # p1 # _ \<Rightarrow> Some (ucast p0 OR push_bit 8 (ucast p1)) | _ \<Rightarrow> None)"

definition load_le32 :: "uint8_t list \<Rightarrow> uint32_t option" where
  "load_le32 p = (case p of p0 # p1 # p2 # p3 # _ \<Rightarrow>
       Some (ucast p0 OR push_bit 8 (ucast p1) OR push_bit 16 (ucast p2) OR push_bit 24 (ucast p3))
     | _ \<Rightarrow> None)"

definition load_le64 :: "uint8_t list \<Rightarrow> uint64_t option" where
  "load_le64 p = (case p of p0 # p1 # p2 # p3 # p4 # p5 # p6 # p7 # _ \<Rightarrow>
       Some (ucast p0 OR push_bit 8 (ucast p1) OR push_bit 16 (ucast p2) OR push_bit 24 (ucast p3)
         OR push_bit 32 (ucast p4) OR push_bit 40 (ucast p5) OR push_bit 48 (ucast p6)
         OR push_bit 56 (ucast p7))
     | _ \<Rightarrow> None)"

definition store_le16 :: "uint8_t list \<Rightarrow> uint16_t \<Rightarrow> uint8_t list option" where
  "store_le16 p value = (case p of _ # _ # rest \<Rightarrow>
       Some (ucast value # ucast (drop_bit 8 value) # rest)
     | _ \<Rightarrow> None)"

definition store_le32 :: "uint8_t list \<Rightarrow> uint32_t \<Rightarrow> uint8_t list option" where
  "store_le32 p value = (case p of _ # _ # _ # _ # rest \<Rightarrow>
       Some (ucast value # ucast (drop_bit 8 value) # ucast (drop_bit 16 value)
         # ucast (drop_bit 24 value) # rest)
     | _ \<Rightarrow> None)"

definition store_le64 :: "uint8_t list \<Rightarrow> uint64_t \<Rightarrow> uint8_t list option" where
  "store_le64 p value = do {
     p' \<leftarrow> store_le32 p (ucast value);
     q \<leftarrow> store_le32 (drop 4 p') (ucast (drop_bit 32 value));
     Some (take 4 p' @ q)
   }"

definition load_be16 :: "uint8_t list \<Rightarrow> uint16_t option" where
  "load_be16 p = (case p of p0 # p1 # _ \<Rightarrow> Some (push_bit 8 (ucast p0) OR ucast p1) | _ \<Rightarrow> None)"

definition load_be32 :: "uint8_t list \<Rightarrow> uint32_t option" where
  "load_be32 p = (case p of p0 # p1 # p2 # p3 # _ \<Rightarrow>
       Some (push_bit 24 (ucast p0) OR push_bit 16 (ucast p1) OR push_bit 8 (ucast p2) OR ucast p3)
     | _ \<Rightarrow> None)"

definition load_be64 :: "uint8_t list \<Rightarrow> uint64_t option" where
  "load_be64 p = do {
     hi \<leftarrow> load_be32 p;
     lo \<leftarrow> load_be32 (drop 4 p);
     Some (push_bit 32 (ucast hi) OR ucast lo)
   }"

definition store_be16 :: "uint8_t list \<Rightarrow> uint16_t \<Rightarrow> uint8_t list option" where
  "store_be16 p value = (case p of _ # _ # rest \<Rightarrow>
       Some (ucast (drop_bit 8 value) # ucast value # rest)
     | _ \<Rightarrow> None)"

definition store_be32 :: "uint8_t list \<Rightarrow> uint32_t \<Rightarrow> uint8_t list option" where
  "store_be32 p value = (case p of _ # _ # _ # _ # rest \<Rightarrow>
       Some (ucast (drop_bit 24 value) # ucast (drop_bit 16 value) # ucast (drop_bit 8 value)
         # ucast value # rest)
     | _ \<Rightarrow> None)"

definition store_be64 :: "uint8_t list \<Rightarrow> uint64_t \<Rightarrow> uint8_t list option" where
  "store_be64 p value = do {
     p' \<leftarrow> store_be32 p (ucast (drop_bit 32 value));
     q \<leftarrow> store_be32 (drop 4 p') (ucast value);
     Some (take 4 p' @ q)
   }"

section \<open>Byte swaps\<close>

text \<open>\<^verbatim>\<open>__builtin_bswapN\<close> reverses the order of the bytes of its operand.\<close>

definition builtin_bswap16 :: "uint16_t \<Rightarrow> uint16_t" where
  "builtin_bswap16 v = push_bit 8 (ucast (byte 0 v)) OR ucast (byte 1 v)"

definition builtin_bswap32 :: "uint32_t \<Rightarrow> uint32_t" where
  "builtin_bswap32 v = push_bit 24 (ucast (byte 0 v)) OR push_bit 16 (ucast (byte 1 v))
     OR push_bit 8 (ucast (byte 2 v)) OR ucast (byte 3 v)"

definition builtin_bswap64 :: "uint64_t \<Rightarrow> uint64_t" where
  "builtin_bswap64 v = push_bit 56 (ucast (byte 0 v)) OR push_bit 48 (ucast (byte 1 v))
     OR push_bit 40 (ucast (byte 2 v)) OR push_bit 32 (ucast (byte 3 v))
     OR push_bit 24 (ucast (byte 4 v)) OR push_bit 16 (ucast (byte 5 v))
     OR push_bit 8 (ucast (byte 6 v)) OR ucast (byte 7 v)"

definition bswap16 :: "bool \<Rightarrow> uint16_t \<Rightarrow> uint16_t" where
  "bswap16 has_builtin value =
     (if has_builtin then builtin_bswap16 value else drop_bit 8 value OR push_bit 8 value)"

definition bswap32 :: "bool \<Rightarrow> uint32_t \<Rightarrow> uint32_t" where
  "bswap32 has_builtin value =
     (if has_builtin then builtin_bswap32 value
      else drop_bit 24 value OR push_bit 8 (value AND 0x0000FF00)
        OR drop_bit 8 (value AND 0x00FF0000) OR push_bit 24 value)"

definition bswap64 :: "bool \<Rightarrow> uint64_t \<Rightarrow> uint64_t" where
  "bswap64 has_builtin value =
     (if has_builtin then builtin_bswap64 value
      else push_bit 32 (ucast (bswap32 has_builtin (ucast value)))
        OR ucast (bswap32 has_builtin (ucast (drop_bit 32 value))))"

lemmas load_defs = load_le16_def load_le32_def load_le64_def load_be16_def load_be32_def load_be64_def
lemmas store_defs =
  store_le16_def store_le32_def store_le64_def store_be16_def store_be32_def store_be64_def

section \<open>Correctness\<close>

lemma byte_mask_numerals [byte_simps]:
  "byte 0 (0x0000FF00 :: 32 word) = 0" "byte (Suc 0) (0x0000FF00 :: 32 word) = 0xFF"
  "byte 2 (0x0000FF00 :: 32 word) = 0" "byte 3 (0x0000FF00 :: 32 word) = 0"
  "byte 0 (0x00FF0000 :: 32 word) = 0" "byte (Suc 0) (0x00FF0000 :: 32 word) = 0"
  "byte 2 (0x00FF0000 :: 32 word) = 0xFF" "byte 3 (0x00FF0000 :: 32 word) = 0"
  by (simp_all add: byte_def)

lemma and_mask8 [byte_simps]: "v AND 0xFF = v" for v :: "8 word"
proof -
  have "(0xFF :: 8 word) = - 1" by simp
  then show ?thesis by (simp only: and.right_neutral)
qed

lemma byte_bswap16: "8 * i < 16 \<Longrightarrow> byte i (bswap16 hb v) = byte (1 - i) v"
  by (drule byte_index_2) (auto simp: bswap16_def builtin_bswap16_def byte_simps)

lemma byte_bswap32: "8 * i < 32 \<Longrightarrow> byte i (bswap32 hb v) = byte (3 - i) v"
  by (drule byte_index_4) (auto simp: bswap32_def builtin_bswap32_def byte_simps numeral_2_eq_2 [symmetric])

lemma byte_bswap64: "8 * i < 64 \<Longrightarrow> byte i (bswap64 hb v) = byte (7 - i) v"
  by (drule byte_index_8) (auto simp: bswap64_def builtin_bswap64_def byte_bswap32 byte_simps)

text \<open>A word is put together again from its bytes, in either order.\<close>

lemma join16:
  "ucast (byte 0 v) OR push_bit 8 (ucast (byte (Suc 0) v)) = v"
  "push_bit 8 (ucast (byte (Suc 0) v)) OR ucast (byte 0 v) = v" for v :: "16 word"
  by (rule byte_eqI16; simp add: byte_simps)+

lemma join32:
  "ucast (byte 0 v) OR push_bit 8 (ucast (byte (Suc 0) v)) OR push_bit 16 (ucast (byte 2 v))
     OR push_bit 24 (ucast (byte 3 v)) = v"
  "push_bit 24 (ucast (byte 3 v)) OR push_bit 16 (ucast (byte 2 v))
     OR push_bit 8 (ucast (byte (Suc 0) v)) OR ucast (byte 0 v) = v" for v :: "32 word"
  by (rule byte_eqI32; simp add: byte_simps)+

lemma join64:
  "ucast (byte 0 v) OR push_bit 8 (ucast (byte (Suc 0) v)) OR push_bit 16 (ucast (byte 2 v))
     OR push_bit 24 (ucast (byte 3 v)) OR push_bit 32 (ucast (byte 4 v)) OR push_bit 40 (ucast (byte 5 v))
     OR push_bit 48 (ucast (byte 6 v)) OR push_bit 56 (ucast (byte 7 v)) = v" for v :: "64 word"
  by (rule byte_eqI64; simp add: byte_simps)

lemma join64_halves: "push_bit 32 (ucast (ucast (drop_bit 32 v) :: 32 word)) OR ucast (ucast v :: 32 word) = v"
  for v :: "64 word"
  by (rule byte_eqI64; simp add: byte_simps)

text \<open>Every store writes the bytes of its operand and nothing else; every load reads them.\<close>

lemma length_ge_2: "2 \<le> length p \<Longrightarrow> \<exists>a b rest. p = a # b # rest"
  by (auto simp: numeral_eq_Suc Suc_le_length_iff)

lemma length_ge_4: "4 \<le> length p \<Longrightarrow> \<exists>a b c d rest. p = a # b # c # d # rest"
  by (auto simp: numeral_eq_Suc Suc_le_length_iff)

lemma length_ge_8: "8 \<le> length p \<Longrightarrow> \<exists>a b c d e f g h rest. p = a # b # c # d # e # f # g # h # rest"
  by (auto simp: numeral_eq_Suc Suc_le_length_iff)

lemma store_eqs:
  "store_le16 (a # b # rest) v = Some (byte 0 v # byte 1 v # rest)"
  "store_be16 (a # b # rest) v = Some (byte 1 v # byte 0 v # rest)"
  "store_le32 (a # b # c # d # rest) w = Some (byte 0 w # byte 1 w # byte 2 w # byte 3 w # rest)"
  "store_be32 (a # b # c # d # rest) w = Some (byte 3 w # byte 2 w # byte 1 w # byte 0 w # rest)"
  by (simp_all add: store_defs byte_def)

lemma store64_eqs:
  "store_le64 (a # b # c # d # e # f # g # h # rest) v =
     Some (byte 0 v # byte 1 v # byte 2 v # byte 3 v # byte 4 v # byte 5 v # byte 6 v # byte 7 v # rest)"
  "store_be64 (a # b # c # d # e # f # g # h # rest) v =
     Some (byte 7 v # byte 6 v # byte 5 v # byte 4 v # byte 3 v # byte 2 v # byte 1 v # byte 0 v # rest)"
  by (simp_all add: store_le64_def store_be64_def store_eqs byte_simps numeral_2_eq_2 [symmetric])

lemma store_None:
  "length p < 2 \<Longrightarrow> store_le16 p v = None" "length p < 2 \<Longrightarrow> store_be16 p v = None"
  "length p < 4 \<Longrightarrow> store_le32 p w = None" "length p < 4 \<Longrightarrow> store_be32 p w = None"
  by (auto simp: store_defs split: list.splits)

lemma store64_None:
  assumes "length p < 8"
  shows "store_le64 p v = None" "store_be64 p v = None"
proof -
  have "4 \<le> length p \<Longrightarrow> \<exists>a b c d rest. p = a # b # c # d # rest \<and> length rest < 4"
    using assms length_ge_4 [of p] by force
  then show "store_le64 p v = None" "store_be64 p v = None"
    by (cases "4 \<le> length p"; force simp: store_le64_def store_be64_def store_eqs store_None)+
qed

lemma load_joins:
  "load_le16 (byte 0 v # byte 1 v # rest) = Some v"
  "load_be16 (byte 1 v # byte 0 v # rest) = Some v"
  "load_le32 (byte 0 w # byte 1 w # byte 2 w # byte 3 w # rest) = Some w"
  "load_be32 (byte 3 w # byte 2 w # byte 1 w # byte 0 w # rest) = Some w"
  by (simp_all add: load_defs join16 join32)

lemma load64_joins:
  "load_le64 (byte 0 v # byte 1 v # byte 2 v # byte 3 v # byte 4 v # byte 5 v # byte 6 v # byte 7 v # rest)
     = Some v"
  "load_be64 (byte 7 v # byte 6 v # byte 5 v # byte 4 v # byte 3 v # byte 2 v # byte 1 v # byte 0 v # rest)
     = Some v"
proof -
  let ?lo = "ucast v :: 32 word" and ?hi = "ucast (drop_bit 32 v) :: 32 word"
  have "load_be32 (byte 7 v # byte 6 v # byte 5 v # byte 4 v # xs) = Some ?hi" for xs
    using load_joins(4) [of ?hi xs] by (simp add: byte_simps)
  moreover have "load_be32 (byte 3 v # byte 2 v # byte 1 v # byte 0 v # xs) = Some ?lo" for xs
    using load_joins(4) [of ?lo xs] by (simp add: byte_simps)
  ultimately show "load_be64 (byte 7 v # byte 6 v # byte 5 v # byte 4 v
      # byte 3 v # byte 2 v # byte 1 v # byte 0 v # rest) = Some v"
    by (simp add: load_be64_def join64_halves)
qed (simp add: load_le64_def join64)

lemma load_swapped:
  "load_be16 (byte 0 v # byte 1 v # rest) = Some (bswap16 hb v)"
  "load_be32 (byte 0 w # byte 1 w # byte 2 w # byte 3 w # rest) = Some (bswap32 hb w)"
  "load_be64 (byte 0 x # byte 1 x # byte 2 x # byte 3 x # byte 4 x # byte 5 x # byte 6 x # byte 7 x # rest)
     = Some (bswap64 hb x)"
  using load_joins(2) [of "bswap16 hb v" rest] load_joins(4) [of "bswap32 hb w" rest]
    load64_joins(2) [of "bswap64 hb x" rest]
  by (simp_all add: byte_bswap16 byte_bswap32 byte_bswap64)

text \<open>
  A store of each width and byte order fails exactly when the buffer is too short;
  otherwise it leaves the length and the bytes behind the field as they were, a load of
  the same kind returns the stored value, and a big-endian load of a little-endian field
  returns the byte-swapped value, for both bodies of the byte swaps.
\<close>

lemma byteorder_roundtrip:
  "(case store_le16 p v of None \<Rightarrow> length p < 2
     | Some q \<Rightarrow> 2 \<le> length p \<and> length q = length p \<and> drop 2 q = drop 2 p
         \<and> load_le16 q = Some v \<and> load_be16 q = Some (bswap16 hb v))
   \<and> (case store_le32 p w of None \<Rightarrow> length p < 4
     | Some q \<Rightarrow> 4 \<le> length p \<and> length q = length p \<and> drop 4 q = drop 4 p
         \<and> load_le32 q = Some w \<and> load_be32 q = Some (bswap32 hb w))
   \<and> (case store_le64 p x of None \<Rightarrow> length p < 8
     | Some q \<Rightarrow> 8 \<le> length p \<and> length q = length p \<and> drop 8 q = drop 8 p
         \<and> load_le64 q = Some x \<and> load_be64 q = Some (bswap64 hb x))
   \<and> (case store_be16 p v of None \<Rightarrow> length p < 2
     | Some q \<Rightarrow> 2 \<le> length p \<and> length q = length p \<and> drop 2 q = drop 2 p \<and> load_be16 q = Some v)
   \<and> (case store_be32 p w of None \<Rightarrow> length p < 4
     | Some q \<Rightarrow> 4 \<le> length p \<and> length q = length p \<and> drop 4 q = drop 4 p \<and> load_be32 q = Some w)
   \<and> (case store_be64 p x of None \<Rightarrow> length p < 8
     | Some q \<Rightarrow> 8 \<le> length p \<and> length q = length p \<and> drop 8 q = drop 8 p \<and> load_be64 q = Some x)"
proof -
  note eqs = store_eqs store64_eqs load_joins load64_joins load_swapped [where hb = hb]
  consider "length p < 2" | "2 \<le> length p" "length p < 4" | "4 \<le> length p" "length p < 8" | "8 \<le> length p"
    by linarith
  then show ?thesis
  proof cases
    case 1
    then show ?thesis by (simp add: store_None store64_None)
  next
    case 2
    then show ?thesis using length_ge_2 [of p] by (auto simp: eqs store_None store64_None simp del: One_nat_def)
  next
    case 3
    then show ?thesis using length_ge_4 [of p] by (auto simp: eqs store64_None simp del: One_nat_def)
  next
    case 4
    then show ?thesis using length_ge_8 [of p] by (auto simp: eqs simp del: One_nat_def)
  qed
qed

end
