(* ===== verification/Bpf.thy ===== *)
theory Bpf
  imports Byteorder
begin

text \<open>
  \<^verbatim>\<open>src/security/seccomp_bpf.c\<close>: the classic BPF verifier and interpreter that
  seccomp filters run on. A program is the list of its instructions (pointer and length of
  the C functions). The interpreter's registers and scratch memory are a record; an access
  outside \<^verbatim>\<open>memory\<close>, \<^verbatim>\<open>struct seccomp_data\<close> or the verifier's tables is made
  explicit (\<open>Bpf_oob\<close>, and \<open>None\<close> for the verifier), so that memory safety is a
  statement about the model.
\<close>

section \<open>Instruction encoding\<close>

text \<open>The macros of \<^verbatim>\<open>include/security/seccomp.h\<close>.\<close>

definition BPF_CLASS :: "uint16_t \<Rightarrow> uint16_t" where "BPF_CLASS code = code AND 0x07"
definition BPF_OP :: "uint16_t \<Rightarrow> uint16_t" where "BPF_OP code = code AND 0xf0"
definition BPF_SRC :: "uint16_t \<Rightarrow> uint16_t" where "BPF_SRC code = code AND 0x08"
definition BPF_RVAL :: "uint16_t \<Rightarrow> uint16_t" where "BPF_RVAL code = code AND 0x18"
definition BPF_MISCOP :: "uint16_t \<Rightarrow> uint16_t" where "BPF_MISCOP code = code AND 0xf8"

abbreviation (input) BPF_LD :: uint16_t where "BPF_LD \<equiv> 0x00"
abbreviation (input) BPF_LDX :: uint16_t where "BPF_LDX \<equiv> 0x01"
abbreviation (input) BPF_ST :: uint16_t where "BPF_ST \<equiv> 0x02"
abbreviation (input) BPF_STX :: uint16_t where "BPF_STX \<equiv> 0x03"
abbreviation (input) BPF_ALU :: uint16_t where "BPF_ALU \<equiv> 0x04"
abbreviation (input) BPF_JMP :: uint16_t where "BPF_JMP \<equiv> 0x05"
abbreviation (input) BPF_RET :: uint16_t where "BPF_RET \<equiv> 0x06"
abbreviation (input) BPF_MISC :: uint16_t where "BPF_MISC \<equiv> 0x07"
abbreviation (input) BPF_W :: uint16_t where "BPF_W \<equiv> 0x00"
abbreviation (input) BPF_IMM :: uint16_t where "BPF_IMM \<equiv> 0x00"
abbreviation (input) BPF_ABS :: uint16_t where "BPF_ABS \<equiv> 0x20"
abbreviation (input) BPF_MEM :: uint16_t where "BPF_MEM \<equiv> 0x60"
abbreviation (input) BPF_LEN :: uint16_t where "BPF_LEN \<equiv> 0x80"
abbreviation (input) BPF_ADD :: uint16_t where "BPF_ADD \<equiv> 0x00"
abbreviation (input) BPF_SUB :: uint16_t where "BPF_SUB \<equiv> 0x10"
abbreviation (input) BPF_MUL :: uint16_t where "BPF_MUL \<equiv> 0x20"
abbreviation (input) BPF_DIV :: uint16_t where "BPF_DIV \<equiv> 0x30"
abbreviation (input) BPF_OR :: uint16_t where "BPF_OR \<equiv> 0x40"
abbreviation (input) BPF_AND :: uint16_t where "BPF_AND \<equiv> 0x50"
abbreviation (input) BPF_LSH :: uint16_t where "BPF_LSH \<equiv> 0x60"
abbreviation (input) BPF_RSH :: uint16_t where "BPF_RSH \<equiv> 0x70"
abbreviation (input) BPF_NEG :: uint16_t where "BPF_NEG \<equiv> 0x80"
abbreviation (input) BPF_MOD :: uint16_t where "BPF_MOD \<equiv> 0x90"
abbreviation (input) BPF_XOR :: uint16_t where "BPF_XOR \<equiv> 0xa0"
abbreviation (input) BPF_JA :: uint16_t where "BPF_JA \<equiv> 0x00"
abbreviation (input) BPF_JEQ :: uint16_t where "BPF_JEQ \<equiv> 0x10"
abbreviation (input) BPF_JGT :: uint16_t where "BPF_JGT \<equiv> 0x20"
abbreviation (input) BPF_JGE :: uint16_t where "BPF_JGE \<equiv> 0x30"
abbreviation (input) BPF_JSET :: uint16_t where "BPF_JSET \<equiv> 0x40"
abbreviation (input) BPF_K :: uint16_t where "BPF_K \<equiv> 0x00"
abbreviation (input) BPF_X :: uint16_t where "BPF_X \<equiv> 0x08"
abbreviation (input) BPF_A :: uint16_t where "BPF_A \<equiv> 0x10"
abbreviation (input) BPF_TAX :: uint16_t where "BPF_TAX \<equiv> 0x00"
abbreviation (input) BPF_TXA :: uint16_t where "BPF_TXA \<equiv> 0x80"

abbreviation (input) BPF_MEMWORDS :: nat where "BPF_MEMWORDS \<equiv> 16"
abbreviation (input) CONFIG_SECCOMP_MAX_INSNS_PER_FILTER :: nat
  where "CONFIG_SECCOMP_MAX_INSNS_PER_FILTER \<equiv> 4096"
abbreviation (input) SECCOMP_RET_KILL_THREAD :: uint32_t where "SECCOMP_RET_KILL_THREAD \<equiv> 0"

record sock_filter =
  code :: uint16_t
  jt :: uint8_t
  jf :: uint8_t
  k :: uint32_t

record seccomp_data =
  nr :: int32_t
  arch :: uint32_t
  instruction_pointer :: uint64_t
  args :: "uint64_t \<times> uint64_t \<times> uint64_t \<times> uint64_t \<times> uint64_t \<times> uint64_t"

text \<open>
  The bytes of \<^verbatim>\<open>struct seccomp_data\<close> in memory, little-endian and without padding;
  \<^verbatim>\<open>sizeof(struct seccomp_data)\<close> is 64.
\<close>

definition le32_image :: "uint32_t \<Rightarrow> uint8_t list" where
  "le32_image v = [byte 0 v, byte 1 v, byte 2 v, byte 3 v]"

definition le64_image :: "uint64_t \<Rightarrow> uint8_t list" where
  "le64_image v = [byte 0 v, byte 1 v, byte 2 v, byte 3 v, byte 4 v, byte 5 v, byte 6 v, byte 7 v]"

definition seccomp_data_image :: "seccomp_data \<Rightarrow> uint8_t list" where
  "seccomp_data_image d = (case args d of (a0, a1, a2, a3, a4, a5) \<Rightarrow>
     le32_image (nr d) @ le32_image (arch d) @ le64_image (instruction_pointer d)
     @ le64_image a0 @ le64_image a1 @ le64_image a2 @ le64_image a3 @ le64_image a4 @ le64_image a5)"

abbreviation (input) sizeof_seccomp_data :: nat where "sizeof_seccomp_data \<equiv> 64"

lemma length_seccomp_data_image [simp]: "length (seccomp_data_image d) = sizeof_seccomp_data"
  by (auto simp: seccomp_data_image_def le32_image_def le64_image_def split: prod.splits)

section \<open>Verifier\<close>

definition seccomp_bpf_valid_load :: "uint16_t \<Rightarrow> uint32_t \<Rightarrow> bool" where
  "seccomp_bpf_valid_load cd offset =
     (if cd \<noteq> BPF_LD OR BPF_W OR BPF_ABS then False
      else if offset AND 3 \<noteq> 0 then False
      else unat offset \<le> sizeof_seccomp_data - 4)"

definition seccomp_bpf_valid_alu :: "uint16_t \<Rightarrow> uint32_t \<Rightarrow> bool" where
  "seccomp_bpf_valid_alu cd kv =
     (let oper = BPF_OP cd; src = BPF_SRC cd in
      if cd = BPF_ALU OR BPF_NEG then True
      else if src \<noteq> BPF_K \<and> src \<noteq> BPF_X then False
      else if oper = BPF_ADD \<or> oper = BPF_SUB \<or> oper = BPF_MUL \<or> oper = BPF_OR \<or> oper = BPF_AND
           \<or> oper = BPF_LSH \<or> oper = BPF_RSH \<or> oper = BPF_XOR
        then src = BPF_X \<or> (oper \<noteq> BPF_LSH \<and> oper \<noteq> BPF_RSH) \<or> kv < 32
      else if oper = BPF_DIV then src = BPF_X \<or> kv \<noteq> 0
      else False)"

definition seccomp_bpf_valid_jump :: "sock_filter \<Rightarrow> nat \<Rightarrow> nat \<Rightarrow> bool" where
  "seccomp_bpf_valid_jump instruction index len =
     (let oper = BPF_OP (code instruction); remaining = len - index - 1 in
      if code instruction = BPF_JMP OR BPF_JA then unat (k instruction) < remaining
      else if BPF_SRC (code instruction) \<noteq> BPF_K \<and> BPF_SRC (code instruction) \<noteq> BPF_X then False
      else if oper \<noteq> BPF_JEQ \<and> oper \<noteq> BPF_JGT \<and> oper \<noteq> BPF_JGE \<and> oper \<noteq> BPF_JSET then False
      else unat (jt instruction) < remaining \<and> unat (jf instruction) < remaining)"

text \<open>The first loop of \<^verbatim>\<open>seccomp_bpf_validate\<close>: the \<^verbatim>\<open>switch\<close> on one instruction.\<close>

definition seccomp_bpf_valid_insn :: "sock_filter \<Rightarrow> nat \<Rightarrow> nat \<Rightarrow> bool" where
  "seccomp_bpf_valid_insn instruction i len =
     (let cd = code instruction; kv = k instruction; cls = BPF_CLASS cd in
      if cls = BPF_LD then
        seccomp_bpf_valid_load cd kv
        \<or> (cd = BPF_LD OR BPF_W OR BPF_LEN \<or> cd = BPF_LD OR BPF_IMM)
        \<or> (cd = BPF_LD OR BPF_MEM \<and> unat kv < BPF_MEMWORDS)
      else if cls = BPF_LDX then
        (cd = BPF_LDX OR BPF_W OR BPF_LEN \<or> cd = BPF_LDX OR BPF_IMM)
        \<or> (cd = BPF_LDX OR BPF_MEM \<and> unat kv < BPF_MEMWORDS)
      else if cls = BPF_ST \<or> cls = BPF_STX then \<not> (cd \<noteq> BPF_CLASS cd \<or> unat kv \<ge> BPF_MEMWORDS)
      else if cls = BPF_ALU then seccomp_bpf_valid_alu cd kv
      else if cls = BPF_JMP then seccomp_bpf_valid_jump instruction i len
      else if cls = BPF_RET then \<not> (cd \<noteq> BPF_RET OR BPF_K \<and> cd \<noteq> BPF_RET OR BPF_A)
      else if cls = BPF_MISC then \<not> (cd \<noteq> BPF_MISC OR BPF_TAX \<and> cd \<noteq> BPF_MISC OR BPF_TXA)
      else False)"

text \<open>
  The second loop, a data-flow pass over the scratch-memory words initialised on every
  path. The tables \<^verbatim>\<open>memory_masks\<close> and \<^verbatim>\<open>reachable\<close> have
  \<^verbatim>\<open>CONFIG_SECCOMP_MAX_INSNS_PER_FILTER\<close> entries; \<open>bpf_flow_merge\<close> is the loop
  over the successors and is \<open>None\<close> on a store outside them.
\<close>

definition bpf_successors :: "sock_filter \<Rightarrow> nat \<Rightarrow> nat list" where
  "bpf_successors instruction i =
     (if code instruction = BPF_JMP OR BPF_JA then [i + 1 + unat (k instruction)]
      else if BPF_CLASS (code instruction) = BPF_JMP
        then [i + 1 + unat (jt instruction), i + 1 + unat (jf instruction)]
      else [i + 1])"

fun bpf_flow_merge ::
  "nat list \<Rightarrow> uint16_t \<Rightarrow> (nat \<Rightarrow> uint16_t) \<Rightarrow> (nat \<Rightarrow> bool)
   \<Rightarrow> ((nat \<Rightarrow> uint16_t) \<times> (nat \<Rightarrow> bool)) option"
where
  "bpf_flow_merge [] msk masks reachable = Some (masks, reachable)"
| "bpf_flow_merge (target # ts) msk masks reachable =
     (if target \<ge> CONFIG_SECCOMP_MAX_INSNS_PER_FILTER then None
      else if \<not> reachable target
        then bpf_flow_merge ts msk (masks(target := msk)) (reachable(target := True))
      else bpf_flow_merge ts msk (masks(target := masks target AND msk)) reachable)"

definition bpf_slot_bit :: "uint32_t \<Rightarrow> uint16_t" where
  "bpf_slot_bit kv = ucast (push_bit (unat kv) (1 :: uint32_t))"

function bpf_flow ::
  "sock_filter list \<Rightarrow> nat \<Rightarrow> (nat \<Rightarrow> uint16_t) \<Rightarrow> (nat \<Rightarrow> bool) \<Rightarrow> status option"
where
  "bpf_flow program i masks reachable =
     (if i < length program then
        if \<not> reachable i then bpf_flow program (i + 1) masks reachable
        else
          let instruction = program ! i; cd = code instruction; msk = masks i in
          if (cd = BPF_LD OR BPF_MEM \<or> cd = BPF_LDX OR BPF_MEM)
              \<and> msk AND bpf_slot_bit (k instruction) = 0
            then Some (ERR EINVAL)
          else
            let msk = (if cd = BPF_ST \<or> cd = BPF_STX then msk OR bpf_slot_bit (k instruction)
                        else msk)
            in if BPF_CLASS cd = BPF_RET then bpf_flow program (i + 1) masks reachable
               else (case bpf_flow_merge (bpf_successors instruction i) msk masks reachable of
                   None \<Rightarrow> None
                 | Some (masks', reachable') \<Rightarrow> bpf_flow program (i + 1) masks' reachable')
      else Some EOK)"
  by pat_completeness auto
termination
  by (relation "measure (\<lambda>(program, i, _). length program - i)") auto

declare bpf_flow.simps [simp del]

definition seccomp_bpf_validate :: "sock_filter list option \<Rightarrow> status option" where
  "seccomp_bpf_validate prog =
     (case prog of
        None \<Rightarrow> Some (ERR EINVAL)
      | Some program \<Rightarrow>
          let len = length program in
          if len = 0 \<or> len > CONFIG_SECCOMP_MAX_INSNS_PER_FILTER then Some (ERR EINVAL)
          else if \<not> list_all (\<lambda>i. seccomp_bpf_valid_insn (program ! i) i len) [0..<len]
            then Some (ERR EINVAL)
          else if BPF_CLASS (code (program ! (len - 1))) \<noteq> BPF_RET then Some (ERR EINVAL)
          else bpf_flow program 0 (\<lambda>_. 0) ((\<lambda>_. False)(0 := True)))"

section \<open>Interpreter\<close>

definition seccomp_bpf_load_word :: "seccomp_data \<Rightarrow> uint32_t \<Rightarrow> uint32_t option" where
  "seccomp_bpf_load_word d offset = load_le32 (drop (unat offset) (seccomp_data_image d))"

record bpf_regs =
  accumulator :: uint32_t
  index :: uint32_t
  memory :: "uint32_t list"

text \<open>
  How a run ends: a \<^verbatim>\<open>BPF_RET\<close>, one of the three places that return
  \<^verbatim>\<open>SECCOMP_RET_KILL_THREAD\<close>, or an access out of bounds.
\<close>

datatype bpf_outcome =
    Bpf_ret uint32_t
  | Bpf_kill_div
  | Bpf_kill_opcode
  | Bpf_kill_end
  | Bpf_oob

datatype bpf_step = Bpf_next nat bpf_regs | Bpf_stop bpf_outcome

definition bpf_memory_read :: "bpf_regs \<Rightarrow> uint32_t \<Rightarrow> uint32_t option" where
  "bpf_memory_read s kv = (if unat kv < length (memory s) then Some (memory s ! unat kv) else None)"

definition bpf_memory_write :: "bpf_regs \<Rightarrow> uint32_t \<Rightarrow> uint32_t \<Rightarrow> bpf_step" where
  "bpf_memory_write s kv v =
     (if unat kv < length (memory s) then Bpf_next 0 (s\<lparr>memory := (memory s)[unat kv := v]\<rparr>)
      else Bpf_stop Bpf_oob)"

definition bpf_set_acc :: "bpf_regs \<Rightarrow> uint32_t option \<Rightarrow> bpf_step" where
  "bpf_set_acc s v = (case v of None \<Rightarrow> Bpf_stop Bpf_oob | Some a \<Rightarrow> Bpf_next 0 (s\<lparr>accumulator := a\<rparr>))"

definition bpf_set_index :: "bpf_regs \<Rightarrow> uint32_t option \<Rightarrow> bpf_step" where
  "bpf_set_index s v = (case v of None \<Rightarrow> Bpf_stop Bpf_oob | Some x \<Rightarrow> Bpf_next 0 (s\<lparr>index := x\<rparr>))"

text \<open>The inner \<^verbatim>\<open>switch\<close> of \<^verbatim>\<open>case BPF_ALU\<close>.\<close>

definition bpf_alu :: "uint16_t \<Rightarrow> uint32_t \<Rightarrow> uint32_t \<Rightarrow> bpf_outcome + uint32_t" where
  "bpf_alu oper a operand =
     (if oper = BPF_ADD then Inr (a + operand)
      else if oper = BPF_SUB then Inr (a - operand)
      else if oper = BPF_MUL then Inr (a * operand)
      else if oper = BPF_DIV then (if operand = 0 then Inl Bpf_kill_div else Inr (a div operand))
      else if oper = BPF_OR then Inr (a OR operand)
      else if oper = BPF_AND then Inr (a AND operand)
      else if oper = BPF_LSH then Inr (if operand < 32 then push_bit (unat operand) a else 0)
      else if oper = BPF_RSH then Inr (if operand < 32 then drop_bit (unat operand) a else 0)
      else if oper = BPF_NEG then Inr (- a)
      else if oper = BPF_MOD then (if operand = 0 then Inl Bpf_kill_div else Inr (a mod operand))
      else if oper = BPF_XOR then Inr (a XOR operand)
      else Inl Bpf_kill_opcode)"

text \<open>The inner \<^verbatim>\<open>switch\<close> of \<^verbatim>\<open>case BPF_JMP\<close>.\<close>

definition bpf_taken :: "uint16_t \<Rightarrow> uint32_t \<Rightarrow> uint32_t \<Rightarrow> bool option" where
  "bpf_taken oper a operand =
     (if oper = BPF_JEQ then Some (a = operand)
      else if oper = BPF_JGT then Some (a > operand)
      else if oper = BPF_JGE then Some (a \<ge> operand)
      else if oper = BPF_JSET then Some (a AND operand \<noteq> 0)
      else None)"

text \<open>The body of the interpreter's loop; \<open>Bpf_next n s\<close> is \<^verbatim>\<open>pc += n; break\<close>.\<close>

definition bpf_exec :: "sock_filter \<Rightarrow> seccomp_data \<Rightarrow> bpf_regs \<Rightarrow> bpf_step" where
  "bpf_exec instruction d s =
     (let cd = code instruction; kv = k instruction; cls = BPF_CLASS cd;
          operand = (if BPF_SRC cd = BPF_X then index s else kv) in
      if cls = BPF_LD then
        bpf_set_acc s
          (if cd = BPF_LD OR BPF_W OR BPF_ABS then seccomp_bpf_load_word d kv
           else if cd = BPF_LD OR BPF_W OR BPF_LEN then Some (of_nat sizeof_seccomp_data)
           else if cd = BPF_LD OR BPF_IMM then Some kv
           else bpf_memory_read s kv)
      else if cls = BPF_LDX then
        bpf_set_index s
          (if cd = BPF_LDX OR BPF_W OR BPF_LEN then Some (of_nat sizeof_seccomp_data)
           else if cd = BPF_LDX OR BPF_IMM then Some kv
           else bpf_memory_read s kv)
      else if cls = BPF_ST then bpf_memory_write s kv (accumulator s)
      else if cls = BPF_STX then bpf_memory_write s kv (index s)
      else if cls = BPF_ALU then
        (case bpf_alu (BPF_OP cd) (accumulator s) operand of
           Inl out \<Rightarrow> Bpf_stop out
         | Inr a \<Rightarrow> Bpf_next 0 (s\<lparr>accumulator := a\<rparr>))
      else if cls = BPF_JMP then
        (if cd = BPF_JMP OR BPF_JA then Bpf_next (unat kv) s
         else case bpf_taken (BPF_OP cd) (accumulator s) operand of
             None \<Rightarrow> Bpf_stop Bpf_kill_opcode
           | Some taken \<Rightarrow> Bpf_next (if taken then unat (jt instruction) else unat (jf instruction)) s)
      else if cls = BPF_RET then
        Bpf_stop (Bpf_ret (if BPF_RVAL cd = BPF_A then accumulator s else kv))
      else if cls = BPF_MISC then
        (if BPF_MISCOP cd = BPF_TAX then Bpf_next 0 (s\<lparr>index := accumulator s\<rparr>)
         else Bpf_next 0 (s\<lparr>accumulator := index s\<rparr>))
      else Bpf_stop Bpf_kill_opcode)"

function bpf_loop :: "sock_filter list \<Rightarrow> seccomp_data \<Rightarrow> nat \<Rightarrow> bpf_regs \<Rightarrow> bpf_outcome" where
  "bpf_loop program d pc s =
     (if pc < length program then
        (case bpf_exec (program ! pc) d s of
           Bpf_stop out \<Rightarrow> out
         | Bpf_next n s' \<Rightarrow> bpf_loop program d (pc + n + 1) s')
      else Bpf_kill_end)"
  by pat_completeness auto
termination
  by (relation "measure (\<lambda>(program, d, pc, s). length program - pc)") auto

declare bpf_loop.simps [simp del]

definition bpf_init_regs :: "uint32_t list \<Rightarrow> bpf_regs" where
  "bpf_init_regs m = \<lparr>accumulator = 0, index = 0, memory = m\<rparr>"

text \<open>The value returned, or \<open>None\<close> when the run leaves the bounds of an object.\<close>

definition seccomp_bpf_run :: "sock_filter list \<Rightarrow> seccomp_data \<Rightarrow> uint32_t option" where
  "seccomp_bpf_run program d =
     (case bpf_loop program d 0 (bpf_init_regs (replicate BPF_MEMWORDS 0)) of
        Bpf_ret v \<Rightarrow> Some v
      | Bpf_oob \<Rightarrow> None
      | _ \<Rightarrow> Some SECCOMP_RET_KILL_THREAD)"

end
