(* ===== verification/Bpf_Safety.thy ===== *)
theory Bpf_Safety
  imports Bpf
begin

text \<open>
  What acceptance by \<^verbatim>\<open>seccomp_bpf_validate\<close> guarantees about
  \<^verbatim>\<open>seccomp_bpf_run\<close>: no access out of bounds, no run past the last instruction,
  no dependence on uninitialised scratch memory; and that the verifier itself stays inside
  its tables.
\<close>

section \<open>Accepted instructions\<close>

lemma bpf_class_cases:
  "BPF_CLASS cd = BPF_LD \<or> BPF_CLASS cd = BPF_LDX \<or> BPF_CLASS cd = BPF_ST \<or> BPF_CLASS cd = BPF_STX
   \<or> BPF_CLASS cd = BPF_ALU \<or> BPF_CLASS cd = BPF_JMP \<or> BPF_CLASS cd = BPF_RET \<or> BPF_CLASS cd = BPF_MISC"
proof -
  have "unat (cd AND 0x07) \<le> unat (7 :: 16 word)"
    by (rule word_and_le1 [THEN word_le_nat_alt [THEN iffD1]])
  then have "unat (cd AND 0x07) \<in> {0,1,2,3,4,5,6,7}" by auto
  then show ?thesis unfolding BPF_CLASS_def
    by (auto simp: word_unat_eq_iff)
qed

lemma valid_LD_cases:
  assumes "seccomp_bpf_valid_insn insn i len" "BPF_CLASS (code insn) = BPF_LD"
  obtains "code insn = BPF_ABS" "unat (k insn) \<le> 60" | "code insn = BPF_LEN" | "code insn = BPF_IMM"
    | "code insn = BPF_MEM" "unat (k insn) < BPF_MEMWORDS"
  using assms
  by (auto simp: seccomp_bpf_valid_insn_def Let_def seccomp_bpf_valid_load_def split: if_splits)

lemma valid_LDX_cases:
  assumes "seccomp_bpf_valid_insn insn i len" "BPF_CLASS (code insn) = BPF_LDX"
  obtains "code insn = BPF_LDX OR BPF_LEN" | "code insn = BPF_LDX OR BPF_IMM"
    | "code insn = BPF_LDX OR BPF_MEM" "unat (k insn) < BPF_MEMWORDS"
  using assms by (auto simp: seccomp_bpf_valid_insn_def Let_def)

lemma valid_store:
  assumes "seccomp_bpf_valid_insn insn i len"
    and "BPF_CLASS (code insn) = BPF_ST \<or> BPF_CLASS (code insn) = BPF_STX"
  shows "code insn = BPF_CLASS (code insn) \<and> unat (k insn) < BPF_MEMWORDS"
  using assms by (auto simp: seccomp_bpf_valid_insn_def Let_def)

lemma bpf_taken_Some:
  "oper = BPF_JEQ \<or> oper = BPF_JGT \<or> oper = BPF_JGE \<or> oper = BPF_JSET
   \<Longrightarrow> \<exists>taken. bpf_taken oper a operand = Some taken"
  by (auto simp: bpf_taken_def)

lemma valid_JMP_cases:
  assumes "seccomp_bpf_valid_insn insn i len" "BPF_CLASS (code insn) = BPF_JMP"
  obtains "code insn = BPF_JMP OR BPF_JA" "unat (k insn) < len - i - 1"
    | "code insn \<noteq> BPF_JMP OR BPF_JA" "unat (jt insn) < len - i - 1" "unat (jf insn) < len - i - 1"
      "\<And>a operand. \<exists>taken. bpf_taken (BPF_OP (code insn)) a operand = Some taken"
proof -
  from assms have j: "seccomp_bpf_valid_jump insn i len"
    by (simp add: seccomp_bpf_valid_insn_def Let_def)
  show thesis
  proof (cases "code insn = BPF_JMP OR BPF_JA")
    case True
    with j that(1) show ?thesis by (simp add: seccomp_bpf_valid_jump_def Let_def)
  next
    case False
    with j have "BPF_OP (code insn) = BPF_JEQ \<or> BPF_OP (code insn) = BPF_JGT
        \<or> BPF_OP (code insn) = BPF_JGE \<or> BPF_OP (code insn) = BPF_JSET"
      and "unat (jt insn) < len - i - 1" "unat (jf insn) < len - i - 1"
      by (simp_all only: seccomp_bpf_valid_jump_def Let_def split: if_splits) blast+
    with False that(2) bpf_taken_Some show ?thesis by blast
  qed
qed

lemma load_word_Some: "unat offset \<le> 60 \<Longrightarrow> \<exists>v. seccomp_bpf_load_word d offset = Some v"
proof -
  assume "unat offset \<le> 60"
  then have "4 \<le> length (drop (unat offset) (seccomp_data_image d))" by simp
  from length_ge_4 [OF this] show ?thesis by (auto simp: seccomp_bpf_load_word_def load_le32_def)
qed

definition mem_ok :: "bpf_regs \<Rightarrow> bool" where
  "mem_ok s \<longleftrightarrow> length (memory s) = BPF_MEMWORDS"

text \<open>
  A safe step ends the run at a \<^verbatim>\<open>BPF_RET\<close> or a division by zero, or moves to one of
  the successors the verifier computes, inside the program.
\<close>

definition step_safe :: "sock_filter \<Rightarrow> nat \<Rightarrow> nat \<Rightarrow> bpf_step \<Rightarrow> bool" where
  "step_safe insn i len st \<longleftrightarrow> (case st of
       Bpf_stop out \<Rightarrow> (\<exists>v. out = Bpf_ret v) \<or> out = Bpf_kill_div
     | Bpf_next n s' \<Rightarrow> mem_ok s' \<and> i + n + 1 < len \<and> i + n + 1 \<in> set (bpf_successors insn i))"

lemma step_safe_next0: "BPF_CLASS (code insn) \<noteq> BPF_JMP \<Longrightarrow> i + 1 < len \<Longrightarrow> mem_ok s' \<Longrightarrow> step_safe insn i len (Bpf_next 0 s')"
  by (auto simp: step_safe_def bpf_successors_def BPF_CLASS_def)

lemma alu_safe: "seccomp_bpf_valid_alu cd kv \<Longrightarrow> bpf_alu (BPF_OP cd) a operand = Inl out \<Longrightarrow> out = Bpf_kill_div"
  by (cases "cd = BPF_ALU OR BPF_NEG")
    (auto simp: bpf_alu_def BPF_OP_def seccomp_bpf_valid_alu_def Let_def split: if_splits)

lemma exec_safe_JMP:
  assumes v: "seccomp_bpf_valid_insn insn i len" and m: "mem_ok s" and c: "BPF_CLASS (code insn) = BPF_JMP"
  shows "step_safe insn i len (bpf_exec insn d s)"
proof (rule valid_JMP_cases [OF v c])
  assume h: "code insn = BPF_JMP OR BPF_JA" "unat (k insn) < len - i - 1"
  then have "bpf_exec insn d s = Bpf_next (unat (k insn)) s"
    by (simp add: bpf_exec_def Let_def BPF_CLASS_def)
  with h m show ?thesis by (simp add: step_safe_def bpf_successors_def)
next
  assume h: "code insn \<noteq> BPF_JMP OR BPF_JA" "unat (jt insn) < len - i - 1" "unat (jf insn) < len - i - 1"
    "\<And>a operand. \<exists>taken. bpf_taken (BPF_OP (code insn)) a operand = Some taken"
  from h(4) obtain taken where
    "bpf_taken (BPF_OP (code insn)) (accumulator s)
       (if BPF_SRC (code insn) = BPF_X then index s else k insn) = Some taken"
    by blast
  with h(1) c have "bpf_exec insn d s = Bpf_next (if taken then unat (jt insn) else unat (jf insn)) s"
    by (simp only: bpf_exec_def Let_def) simp
  with h c m show ?thesis by (cases taken) (simp_all add: step_safe_def bpf_successors_def)
qed

lemma exec_safe:
  assumes v: "seccomp_bpf_valid_insn insn i len" and m: "mem_ok s" 
    and nx: "BPF_CLASS (code insn) \<noteq> BPF_RET \<Longrightarrow> i + 1 < len"
  shows "step_safe insn i len (bpf_exec insn d s)"
proof -
  note d = seccomp_bpf_valid_insn_def bpf_exec_def Let_def
  consider "BPF_CLASS (code insn) = BPF_LD" | "BPF_CLASS (code insn) = BPF_LDX"
    | "BPF_CLASS (code insn) = BPF_ST" | "BPF_CLASS (code insn) = BPF_STX" | "BPF_CLASS (code insn) = BPF_ALU"
    | "BPF_CLASS (code insn) = BPF_JMP" | "BPF_CLASS (code insn) = BPF_RET" | "BPF_CLASS (code insn) = BPF_MISC"
    using bpf_class_cases by blast
  then show ?thesis
  proof cases
    case 1
    with v m nx show ?thesis
      using load_word_Some [of "k insn" d]
      by (auto simp: d bpf_set_acc_def bpf_memory_read_def mem_ok_def seccomp_bpf_valid_load_def split: if_splits intro!: step_safe_next0)
  next
    case 2
    with v m nx show ?thesis
      by (auto simp: d bpf_set_index_def bpf_memory_read_def mem_ok_def intro!: step_safe_next0)
  next
    case 3
    with v m nx show ?thesis
      by (auto simp: d bpf_memory_write_def mem_ok_def intro!: step_safe_next0)
  next
    case 4
    with v m nx show ?thesis
      by (auto simp: d bpf_memory_write_def mem_ok_def intro!: step_safe_next0)
  next
    case 5
    with v m nx show ?thesis
      by (auto simp: d mem_ok_def intro!: step_safe_next0 split: sum.splits) (auto simp: step_safe_def dest: alu_safe)
  next
    case 6
    then show ?thesis by (rule exec_safe_JMP [OF v m])
  next
    case 7
    with v m show ?thesis
      by (auto simp: d step_safe_def)
  next
    case 8
    with v m nx show ?thesis
      by (auto simp: d mem_ok_def intro!: step_safe_next0)
  qed
qed

section \<open>Accepted programs\<close>

definition valid_program :: "sock_filter list \<Rightarrow> bool" where
  "valid_program p \<longleftrightarrow> 0 < length p \<and> length p \<le> CONFIG_SECCOMP_MAX_INSNS_PER_FILTER
     \<and> (\<forall>i < length p. seccomp_bpf_valid_insn (p ! i) i (length p))
     \<and> BPF_CLASS (code (p ! (length p - 1))) = BPF_RET"

lemma validate_iff:
  "seccomp_bpf_validate (Some p) = Some EOK \<longleftrightarrow>
   valid_program p \<and> bpf_flow p 0 (\<lambda>_. 0) ((\<lambda>_. False)(0 := True)) = Some EOK"
  by (auto simp: seccomp_bpf_validate_def valid_program_def Let_def list_all_iff)

lemma valid_program_next:
  "valid_program p \<Longrightarrow> i < length p \<Longrightarrow> BPF_CLASS (code (p ! i)) \<noteq> BPF_RET \<Longrightarrow> i + 1 < length p"
  by (cases "i = length p - 1") (auto simp: valid_program_def)

lemma loop_safe:
  assumes "valid_program p" "pc < length p" "mem_ok s"
  shows "(\<exists>v. bpf_loop p d pc s = Bpf_ret v) \<or> bpf_loop p d pc s = Bpf_kill_div"
  using assms
proof (induction p d pc s rule: bpf_loop.induct)
  case (1 p d pc s)
  have v: "seccomp_bpf_valid_insn (p ! pc) pc (length p)" using 1 by (simp add: valid_program_def)
  have safe: "step_safe (p ! pc) pc (length p) (bpf_exec (p ! pc) d s)"
    by (rule exec_safe [OF v \<open>mem_ok s\<close>]) (use 1 valid_program_next in blast)
  show ?case
  proof (cases "bpf_exec (p ! pc) d s")
    case (Bpf_next n s')
    with safe 1 show ?thesis by (simp add: bpf_loop.simps [of p d pc s] step_safe_def)
  next
    case (Bpf_stop out)
    with safe 1 show ?thesis by (simp add: bpf_loop.simps [of p d pc s] step_safe_def)
  qed
qed

lemma successors_bounds:
  assumes "seccomp_bpf_valid_insn insn i len" "i + 1 < len" "t \<in> set (bpf_successors insn i)"
  shows "i < t \<and> t < len"
proof (cases "BPF_CLASS (code insn) = BPF_JMP")
  case True
  with assms show ?thesis
    by (auto simp: seccomp_bpf_valid_insn_def Let_def seccomp_bpf_valid_jump_def bpf_successors_def split: if_splits)
next
  case False
  with assms show ?thesis by (auto simp: bpf_successors_def BPF_CLASS_def split: if_splits)
qed

section \<open>The data-flow pass\<close>

lemma bit_slot_bit: "unat kv < 16 \<Longrightarrow> bit (bpf_slot_bit kv) n \<longleftrightarrow> n = unat kv"
  by (auto simp: bpf_slot_bit_def bit_simps)

lemma and_slot_bit: "unat kv < 16 \<Longrightarrow> msk AND bpf_slot_bit kv = 0 \<longleftrightarrow> \<not> bit msk (unat kv)"
  unfolding bit_eq_iff [of "msk AND bpf_slot_bit kv"] by (auto simp: bit_and_iff bit_slot_bit)

definition mask_le :: "uint16_t \<Rightarrow> uint16_t \<Rightarrow> bool" where
  "mask_le m m' \<longleftrightarrow> (\<forall>n. bit m n \<longrightarrow> bit m' n)"

lemma mask_le_refl [simp]: "mask_le m m" by (simp add: mask_le_def)
lemma mask_le_trans: "mask_le a b \<Longrightarrow> mask_le b c \<Longrightarrow> mask_le a c" by (simp add: mask_le_def)
lemma mask_le_and: "mask_le (a AND b) a" "mask_le (a AND b) b" by (simp_all add: mask_le_def bit_and_iff)

lemma flow_merge_mono:
  "bpf_flow_merge ts msk masks reach = Some (masks', reach') \<Longrightarrow>
   (\<forall>x. reach x \<longrightarrow> reach' x \<and> mask_le (masks' x) (masks x))
   \<and> (\<forall>t \<in> set ts. reach' t \<and> mask_le (masks' t) msk)"
proof (induction ts arbitrary: masks reach)
  case (Cons t ts)
  define masks1 where "masks1 = masks(t := if reach t then masks t AND msk else msk)"
  define reach1 where "reach1 = reach(t := True)"
  have "bpf_flow_merge ts msk masks1 reach1 = Some (masks', reach')"
    using Cons.prems by (auto simp: masks1_def reach1_def fun_upd_idem split: if_splits)
  note IH = Cons.IH [OF this]
  have le: "reach x \<Longrightarrow> mask_le (masks1 x) (masks x)" "mask_le (masks1 t) msk" for x
    by (auto simp: masks1_def mask_le_and)
  have r: "reach1 t" "reach x \<Longrightarrow> reach1 x" for x by (simp_all add: reach1_def)
  show ?case
  proof (intro conjI allI impI ballI)
    fix x assume x: "reach x"
    show "reach' x" using IH r(2) [OF x] by blast
    show "mask_le (masks' x) (masks x)" using IH r(2) [OF x] le(1) [OF x] mask_le_trans by blast
  next
    fix u assume u: "u \<in> set (t # ts)"
    show "reach' u" using IH r(1) u by auto
    show "mask_le (masks' u) msk" using IH r(1) le(2) mask_le_trans u by auto
  qed
qed simp
lemma flow_merge_None: "bpf_flow_merge ts msk masks reach = None \<Longrightarrow> \<exists>t\<in>set ts. CONFIG_SECCOMP_MAX_INSNS_PER_FILTER \<le> t"
  by (induction ts msk masks reach rule: bpf_flow_merge.induct) (auto split: if_splits)

definition out_mask :: "uint16_t \<Rightarrow> sock_filter \<Rightarrow> uint16_t" where
  "out_mask m insn = (if code insn = BPF_ST \<or> code insn = BPF_STX then m OR bpf_slot_bit (k insn) else m)"

definition reads_slot :: "sock_filter \<Rightarrow> bool" where
  "reads_slot insn \<longleftrightarrow> code insn = BPF_LD OR BPF_MEM \<or> code insn = BPF_LDX OR BPF_MEM"

lemma bpf_flow_end: "length p \<le> i \<Longrightarrow> bpf_flow p i masks reach = Some EOK"
  by (simp add: bpf_flow.simps)

lemma bpf_flow_skip: "i < length p \<Longrightarrow> \<not> reach i \<Longrightarrow> bpf_flow p i masks reach = bpf_flow p (Suc i) masks reach"
  by (simp add: bpf_flow.simps [of p i])

lemma bpf_flow_reached:
  "i < length p \<Longrightarrow> reach i \<Longrightarrow> bpf_flow p i masks reach =
   (if reads_slot (p ! i) \<and> masks i AND bpf_slot_bit (k (p ! i)) = 0 then Some (ERR EINVAL)
    else if BPF_CLASS (code (p ! i)) = BPF_RET then bpf_flow p (Suc i) masks reach
    else case bpf_flow_merge (bpf_successors (p ! i) i) (out_mask (masks i) (p ! i)) masks reach of
        None \<Rightarrow> None
      | Some (masks', reach') \<Rightarrow> bpf_flow p (i + 1) masks' reach')"
  by (simp add: bpf_flow.simps [of p i] reads_slot_def out_mask_def Let_def)

lemma bpf_flow_status:
  assumes p: "valid_program p"
  shows "bpf_flow p i masks reach = Some EOK \<or> bpf_flow p i masks reach = Some (ERR EINVAL)"
proof (induction "length p - i" arbitrary: i masks reach rule: less_induct)
  case less
  have IH: "i < length p \<Longrightarrow> bpf_flow p (Suc i) masks' reach' = Some EOK
      \<or> bpf_flow p (Suc i) masks' reach' = Some (ERR EINVAL)" for masks' reach'
    by (rule less) simp
  consider "length p \<le> i" | "i < length p" "\<not> reach i" | "i < length p" "reach i" by fastforce
  then show ?case
  proof cases
    case 3
    have "t < CONFIG_SECCOMP_MAX_INSNS_PER_FILTER"
      if "BPF_CLASS (code (p ! i)) \<noteq> BPF_RET" "t \<in> set (bpf_successors (p ! i) i)" for t
      using successors_bounds [OF _ _ that(2), of "length p"] valid_program_next [of p i] 3 p that(1)
      by (auto simp: valid_program_def)
    then have "BPF_CLASS (code (p ! i)) \<noteq> BPF_RET \<Longrightarrow> 
        bpf_flow_merge (bpf_successors (p ! i) i) (out_mask (masks i) (p ! i)) masks reach \<noteq> None"
      using flow_merge_None by fastforce
    with 3 IH show ?thesis by (auto simp: bpf_flow_reached split: option.splits)
  qed (use IH in \<open>auto simp: bpf_flow_end bpf_flow_skip\<close>)
qed

section \<open>Scratch memory\<close>

text \<open>
  Two register files that agree on the scratch words of a mask. An accepted step from
  agreeing files ends in the same outcome or in files that agree on the outgoing mask.
\<close>

definition agree :: "uint16_t \<Rightarrow> bpf_regs \<Rightarrow> bpf_regs \<Rightarrow> bool" where
  "agree m s s' \<longleftrightarrow> accumulator s = accumulator s' \<and> index s = index s' \<and> mem_ok s \<and> mem_ok s'
     \<and> (\<forall>n < BPF_MEMWORDS. bit m n \<longrightarrow> memory s ! n = memory s' ! n)"

fun step_agree :: "uint16_t \<Rightarrow> bpf_step \<Rightarrow> bpf_step \<Rightarrow> bool" where
  "step_agree m (Bpf_stop a) (Bpf_stop b) = (a = b)"
| "step_agree m (Bpf_next n s) (Bpf_next n' s') = (n = n' \<and> agree m s s')"
| "step_agree m _ _ = False"

lemma set_acc_agree: "agree m s s' \<Longrightarrow> step_agree m (bpf_set_acc s v) (bpf_set_acc s' v)"
  by (cases v) (simp_all add: bpf_set_acc_def agree_def mem_ok_def)

lemma set_index_agree: "agree m s s' \<Longrightarrow> step_agree m (bpf_set_index s v) (bpf_set_index s' v)"
  by (cases v) (simp_all add: bpf_set_index_def agree_def mem_ok_def)

lemma memory_read_agree:
  "agree m s s' \<Longrightarrow> unat kv < BPF_MEMWORDS \<Longrightarrow> m AND bpf_slot_bit kv \<noteq> 0
   \<Longrightarrow> bpf_memory_read s' kv = bpf_memory_read s kv"
  by (simp add: bpf_memory_read_def agree_def mem_ok_def and_slot_bit)

lemma memory_write_agree:
  "agree m s s' \<Longrightarrow> unat kv < BPF_MEMWORDS
   \<Longrightarrow> step_agree (m OR bpf_slot_bit kv) (bpf_memory_write s kv v) (bpf_memory_write s' kv v)"
  by (simp add: bpf_memory_write_def agree_def mem_ok_def bit_or_iff bit_slot_bit nth_list_update)

lemma agree_regs: "agree m s s' \<Longrightarrow> accumulator s' = accumulator s \<and> index s' = index s"
  by (simp add: agree_def)

lemma agree_set_acc: "agree m s s' \<Longrightarrow> agree m (s\<lparr>accumulator := a\<rparr>) (s'\<lparr>accumulator := a\<rparr>)"
  by (simp add: agree_def mem_ok_def)

lemma agree_set_index: "agree m s s' \<Longrightarrow> agree m (s\<lparr>index := a\<rparr>) (s'\<lparr>index := a\<rparr>)"
  by (simp add: agree_def mem_ok_def)

lemma out_mask_same: "BPF_CLASS (code insn) \<noteq> BPF_ST \<Longrightarrow> BPF_CLASS (code insn) \<noteq> BPF_STX \<Longrightarrow> out_mask m insn = m"
  by (auto simp: out_mask_def BPF_CLASS_def)

lemma exec_agree_LD:
  assumes a: "agree m s s'" and v: "seccomp_bpf_valid_insn insn i len" "BPF_CLASS (code insn) = BPF_LD"
    and r: "reads_slot insn \<Longrightarrow> m AND bpf_slot_bit (k insn) \<noteq> 0"
  shows "step_agree m (bpf_exec insn d s) (bpf_exec insn d s')"
proof (rule valid_LD_cases [OF v])
  assume h: "code insn = BPF_MEM" "unat (k insn) < BPF_MEMWORDS"
  then have "m AND bpf_slot_bit (k insn) \<noteq> 0" using r by (simp add: reads_slot_def)
  with h a show ?thesis
    using set_acc_agree [OF a] by (simp add: bpf_exec_def BPF_CLASS_def Let_def memory_read_agree)
qed (use set_acc_agree [OF a] in \<open>simp_all add: bpf_exec_def BPF_CLASS_def Let_def\<close>)

lemma exec_agree_LDX:
  assumes a: "agree m s s'" and v: "seccomp_bpf_valid_insn insn i len" "BPF_CLASS (code insn) = BPF_LDX"
    and r: "reads_slot insn \<Longrightarrow> m AND bpf_slot_bit (k insn) \<noteq> 0"
  shows "step_agree m (bpf_exec insn d s) (bpf_exec insn d s')"
proof (rule valid_LDX_cases [OF v])
  assume h: "code insn = BPF_LDX OR BPF_MEM" "unat (k insn) < BPF_MEMWORDS"
  then have "m AND bpf_slot_bit (k insn) \<noteq> 0" using r by (simp add: reads_slot_def)
  with h a show ?thesis
    using set_index_agree [OF a] by (simp add: bpf_exec_def BPF_CLASS_def Let_def memory_read_agree)
qed (use set_index_agree [OF a] in \<open>simp_all add: bpf_exec_def BPF_CLASS_def Let_def\<close>)

lemma exec_store:
  "BPF_CLASS (code insn) = BPF_ST \<Longrightarrow> bpf_exec insn d s = bpf_memory_write s (k insn) (accumulator s)"
  "BPF_CLASS (code insn) = BPF_STX \<Longrightarrow> bpf_exec insn d s = bpf_memory_write s (k insn) (index s)"
  by (simp_all add: bpf_exec_def Let_def)

lemma exec_agree_store:
  assumes a: "agree m s s'" and v: "seccomp_bpf_valid_insn insn i len"
    and c: "BPF_CLASS (code insn) = BPF_ST \<or> BPF_CLASS (code insn) = BPF_STX"
  shows "step_agree (out_mask m insn) (bpf_exec insn d s) (bpf_exec insn d s')"
proof -
  from valid_store [OF v c] have o: "out_mask m insn = m OR bpf_slot_bit (k insn)"
    and kb: "unat (k insn) < BPF_MEMWORDS"
    using c by (auto simp: out_mask_def)
  note w = memory_write_agree [OF a kb]
  from c show ?thesis
  proof
    assume "BPF_CLASS (code insn) = BPF_ST"
    then show ?thesis using w [of "accumulator s"] agree_regs [OF a] by (simp only: exec_store o)
  next
    assume "BPF_CLASS (code insn) = BPF_STX"
    then show ?thesis using w [of "index s"] agree_regs [OF a] by (simp only: exec_store o)
  qed
qed

lemma exec_agree_regs:
  assumes a: "agree m s s'"
    and c: "BPF_CLASS (code insn) = BPF_ALU \<or> BPF_CLASS (code insn) = BPF_JMP
      \<or> BPF_CLASS (code insn) = BPF_RET \<or> BPF_CLASS (code insn) = BPF_MISC"
  shows "step_agree m (bpf_exec insn d s) (bpf_exec insn d s')"
  using c
proof (elim disjE)
  assume "BPF_CLASS (code insn) = BPF_ALU"
  then show ?thesis using a by (simp add: bpf_exec_def Let_def agree_regs agree_set_acc split: sum.split)
next
  assume "BPF_CLASS (code insn) = BPF_JMP"
  then show ?thesis using a by (simp add: bpf_exec_def Let_def agree_regs split: option.split)
next
  assume "BPF_CLASS (code insn) = BPF_RET"
  then show ?thesis using a by (simp add: bpf_exec_def Let_def agree_regs)
next
  assume "BPF_CLASS (code insn) = BPF_MISC"
  then show ?thesis using a by (simp add: bpf_exec_def Let_def agree_regs agree_set_acc agree_set_index)
qed

lemma exec_agree:
  assumes v: "seccomp_bpf_valid_insn insn i len" and a: "agree m s s'"
    and r: "reads_slot insn \<Longrightarrow> m AND bpf_slot_bit (k insn) \<noteq> 0"
  shows "step_agree (out_mask m insn) (bpf_exec insn d s) (bpf_exec insn d s')"
proof -
  consider "BPF_CLASS (code insn) = BPF_LD" | "BPF_CLASS (code insn) = BPF_LDX"
    | "BPF_CLASS (code insn) = BPF_ST \<or> BPF_CLASS (code insn) = BPF_STX"
    | "BPF_CLASS (code insn) = BPF_ALU \<or> BPF_CLASS (code insn) = BPF_JMP
      \<or> BPF_CLASS (code insn) = BPF_RET \<or> BPF_CLASS (code insn) = BPF_MISC"
    using bpf_class_cases by blast
  then show ?thesis
  proof cases
    case 1
    with exec_agree_LD [OF a v 1 r] show ?thesis by (simp add: out_mask_same)
  next
    case 2
    with exec_agree_LDX [OF a v 2 r] show ?thesis by (simp add: out_mask_same)
  next
    case 3
    then show ?thesis by (rule exec_agree_store [OF a v])
  next
    case 4
    with exec_agree_regs [OF a 4] show ?thesis by (auto simp: out_mask_same)
  qed
qed

lemma agree_mono: "agree m s s' \<Longrightarrow> mask_le m' m \<Longrightarrow> agree m' s s'"
  by (auto simp: agree_def mask_le_def)

lemma loop_agree:
  assumes p: "valid_program p"
  shows "bpf_flow p i masks reach = Some EOK \<Longrightarrow> i \<le> pc \<Longrightarrow> pc < length p \<Longrightarrow> reach pc
    \<Longrightarrow> agree (masks pc) s s' \<Longrightarrow> bpf_loop p d pc s = bpf_loop p d pc s'"
proof (induction "length p - i" arbitrary: i masks reach pc s s' rule: less_induct)
  case less
  note i = le_less_trans [OF less.prems(2,3)]
  note IH = less.hyps [of "Suc i", OF diff_less_mono2 [OF lessI i]]
  show ?case
  proof (cases "reach i")
    case False
    then have "bpf_flow p (Suc i) masks reach = Some EOK" "Suc i \<le> pc"
      using less.prems i by (auto simp: bpf_flow_skip le_less)
    then show ?thesis using IH less.prems by blast
  next
    case True
    define insn where "insn = p ! i"
    have v: "seccomp_bpf_valid_insn insn i (length p)" using p i by (simp add: valid_program_def insn_def)
    note eq = bpf_flow_reached [of i p reach masks, OF i True, folded insn_def]
    have rd: "reads_slot insn \<Longrightarrow> masks i AND bpf_slot_bit (k insn) \<noteq> 0"
      using less.prems(1) unfolding eq by (auto split: if_splits)
    show ?thesis
    proof (cases "pc = i")
      case pc: True
      have st: "step_agree (out_mask (masks i) insn) (bpf_exec insn d s) (bpf_exec insn d s')"
        using exec_agree [OF v _ rd] less.prems(5) pc by blast
      have safe: "step_safe insn i (length p) (bpf_exec insn d s)"
        by (rule exec_safe [OF v]) (use less.prems(5) valid_program_next [OF p i] in \<open>auto simp: agree_def insn_def\<close>)
      show ?thesis
      proof (cases "bpf_exec insn d s")
        case (Bpf_stop out)
        with st have "bpf_exec insn d s' = Bpf_stop out" by (cases "bpf_exec insn d s'") auto
        with Bpf_stop pc show ?thesis by (simp add: bpf_loop.simps [of p d i] insn_def)
      next
        case (Bpf_next n t)
        with st obtain t' where t': "bpf_exec insn d s' = Bpf_next n t'" "agree (out_mask (masks i) insn) t t'"
          by (cases "bpf_exec insn d s'") auto
        have nret: "BPF_CLASS (code insn) \<noteq> BPF_RET"
          using Bpf_next by (auto simp: bpf_exec_def Let_def)
        obtain masks' reach' where mg: "bpf_flow_merge (bpf_successors insn i) (out_mask (masks i) insn) masks reach = Some (masks', reach')"
          and fl: "bpf_flow p (Suc i) masks' reach' = Some EOK"
          using less.prems(1) nret unfolding eq by (auto split: if_splits option.splits)
        have "i + n + 1 \<in> set (bpf_successors insn i)" "i + n + 1 < length p"
          using safe Bpf_next by (auto simp: step_safe_def)
        moreover from this have "reach' (i + n + 1)" "mask_le (masks' (i + n + 1)) (out_mask (masks i) insn)"
          using flow_merge_mono [OF mg] by auto
        ultimately have "bpf_loop p d (i + n + 1) t = bpf_loop p d (i + n + 1) t'"
          using IH [OF fl, of "i + n + 1"] agree_mono [OF t'(2)] by simp
        with Bpf_next t' pc i show ?thesis by (simp add: bpf_loop.simps [of p d i] insn_def)
      qed
    next
      case False
      then have pc: "Suc i \<le> pc" using less.prems by simp
      show ?thesis
      proof (cases "BPF_CLASS (code insn) = BPF_RET")
        case True
        then have "bpf_flow p (Suc i) masks reach = Some EOK"
          using less.prems(1) unfolding eq by (auto split: if_splits)
        then show ?thesis using IH less.prems pc by blast
      next
        case False
        then obtain masks' reach' where mg: "bpf_flow_merge (bpf_successors insn i) (out_mask (masks i) insn) masks reach = Some (masks', reach')"
          and fl: "bpf_flow p (Suc i) masks' reach' = Some EOK"
          using less.prems(1) unfolding eq by (auto split: if_splits option.splits)
        have "reach' pc" "mask_le (masks' pc) (masks pc)"
          using flow_merge_mono [OF mg] less.prems(4) by auto
        then show ?thesis using IH [OF fl pc less.prems(3)] agree_mono less.prems(5) by blast
      qed
    qed
  qed
qed
section \<open>What an accepted filter guarantees\<close>

text \<open>
  C24: a filter that \<^verbatim>\<open>seccomp_bpf_validate\<close> accepts always runs to a verdict: on every
  \<^verbatim>\<open>seccomp_data\<close> the interpreter reads and writes only inside the program, the scratch
  memory and the data, never meets an unknown opcode and never runs off the end of the
  program. It stops at a \<^verbatim>\<open>BPF_RET\<close>, or kills the thread on a division by zero.
\<close>

theorem accepted_filter_runs:
  assumes "seccomp_bpf_validate (Some p) = Some EOK"
  shows "(\<exists>v. bpf_loop p d 0 (bpf_init_regs (replicate BPF_MEMWORDS 0)) = Bpf_ret v
              \<and> seccomp_bpf_run p d = Some v)
    \<or> (bpf_loop p d 0 (bpf_init_regs (replicate BPF_MEMWORDS 0)) = Bpf_kill_div
              \<and> seccomp_bpf_run p d = Some SECCOMP_RET_KILL_THREAD)"
proof -
  from assms have "valid_program p" "0 < length p" by (simp_all add: validate_iff valid_program_def)
  then have "(\<exists>v. bpf_loop p d 0 (bpf_init_regs (replicate BPF_MEMWORDS 0)) = Bpf_ret v)
    \<or> bpf_loop p d 0 (bpf_init_regs (replicate BPF_MEMWORDS 0)) = Bpf_kill_div"
    by (rule loop_safe) (simp add: mem_ok_def bpf_init_regs_def)
  then show ?thesis by (auto simp: seccomp_bpf_run_def)
qed

definition demo_filter :: "sock_filter list" where
  "demo_filter =
     [\<lparr>code = 0x20, jt = 0, jf = 0, k = 0\<rparr>, \<lparr>code = 0x02, jt = 0, jf = 0, k = 3\<rparr>,
      \<lparr>code = 0x60, jt = 0, jf = 0, k = 3\<rparr>, \<lparr>code = 0x15, jt = 0, jf = 1, k = 59\<rparr>,
      \<lparr>code = 0x06, jt = 0, jf = 0, k = 0x50001\<rparr>, \<lparr>code = 0x06, jt = 0, jf = 0, k = 0x7fff0000\<rparr>]"

definition demo_data :: seccomp_data where
  "demo_data = \<lparr>nr = 59, arch = 0xc000003e, instruction_pointer = 0x401000, args = (1, 2, 3, 4, 5, 6)\<rparr>"

lemma demo_filter_accepted: "seccomp_bpf_validate (Some demo_filter) = Some EOK"
  by code_simp

lemma demo_filter_runs: "seccomp_bpf_run demo_filter demo_data = Some 0x50001"
  by code_simp

theorem accepted_filter_runs_witness:
  "seccomp_bpf_validate (Some demo_filter) = Some EOK \<and> seccomp_bpf_run demo_filter demo_data = Some 0x50001
   \<and> bpf_loop demo_filter demo_data 0 (bpf_init_regs (replicate BPF_MEMWORDS 0)) = Bpf_ret 0x50001"
  using accepted_filter_runs [OF demo_filter_accepted, of demo_data] demo_filter_accepted demo_filter_runs
  by auto

text \<open>
  C25: the verdict of an accepted filter never depends on scratch memory it did not write
  itself: replacing the sixteen zeroed words by arbitrary contents gives the same outcome.
  This is the purpose of the data-flow pass of \<^verbatim>\<open>seccomp_bpf_validate\<close>.
\<close>

theorem accepted_filter_ignores_scratch:
  assumes "seccomp_bpf_validate (Some p) = Some EOK" "length m = BPF_MEMWORDS" "length m' = BPF_MEMWORDS"
  shows "bpf_loop p d 0 (bpf_init_regs m) = bpf_loop p d 0 (bpf_init_regs m')"
proof (rule loop_agree)
  show "valid_program p" "bpf_flow p 0 (\<lambda>_. 0) ((\<lambda>_. False)(0 := True)) = Some EOK"
    using assms by (simp_all add: validate_iff)
  then show "0 < length p" by (simp add: valid_program_def)
  show "agree 0 (bpf_init_regs m) (bpf_init_regs m')"
    using assms by (simp add: agree_def mem_ok_def bpf_init_regs_def)
qed simp_all

theorem accepted_filter_ignores_scratch_witness:
  "bpf_loop demo_filter demo_data 0 (bpf_init_regs (replicate BPF_MEMWORDS 0xdeadbeef))
   = bpf_loop demo_filter demo_data 0 (bpf_init_regs (replicate BPF_MEMWORDS 0))"
  by (rule accepted_filter_ignores_scratch [OF demo_filter_accepted]) simp_all

text \<open>
  The verifier itself is memory safe. On every program, accepted or not, its data-flow pass
  indexes the two tables of \<^verbatim>\<open>CONFIG_SECCOMP_MAX_INSNS_PER_FILTER\<close> entries in bounds, and a
  null or empty program, and one longer than the tables, is refused with
  \<^verbatim>\<open>EINVAL\<close>.
\<close>

lemma validate_total:
  "seccomp_bpf_validate prog = Some EOK \<or> seccomp_bpf_validate prog = Some (ERR EINVAL)"
proof (cases prog)
  case (Some p)
  show ?thesis
  proof (cases "valid_program p")
    case True
    then have "seccomp_bpf_validate prog = bpf_flow p 0 (\<lambda>_. 0) ((\<lambda>_. False)(0 := True))"
      by (auto simp: Some seccomp_bpf_validate_def valid_program_def Let_def list_all_iff)
    with bpf_flow_status [OF True] show ?thesis by simp
  next
    case False
    then show ?thesis by (auto simp: Some seccomp_bpf_validate_def valid_program_def Let_def list_all_iff)
  qed
qed (simp add: seccomp_bpf_validate_def)

end
