(* ===== verification/Buddy.thy ===== *)
theory Buddy
  imports Prelude
begin

text \<open>
  \<^verbatim>\<open>src/mem/buddy.c\<close>: the binary buddy allocator. The page metadata array is a
  function from indices below \<open>page_count\<close> to page records. Writes and the reads whose
  index the code does not test go through \<open>get_page\<close> and \<open>set_page\<close>, which are \<open>None\<close> outside
  the array, as are the free-list heads outside their array of 31 orders; an operation
  that returns \<open>Some\<close> has therefore made no access out of bounds. Links are
  \<^verbatim>\<open>int32_t\<close> values, sizes are natural numbers with the 64-bit wrap of the counters
  written out. The allocator pointer is never null here.
\<close>

section \<open>Data\<close>

abbreviation (input) CONFIG_BUDDY_MAX_ORDER :: nat where "CONFIG_BUDDY_MAX_ORDER \<equiv> 30"

abbreviation (input) BUDDY_INDEX_NONE :: int where "BUDDY_INDEX_NONE \<equiv> - 1"

datatype buddy_page_state =
    BUDDY_PAGE_RESERVED | BUDDY_PAGE_FREE_HEAD | BUDDY_PAGE_ALLOC_HEAD | BUDDY_PAGE_ALLOC_TAIL

record buddy_page =
  pg_next :: int
  pg_prev :: int
  pg_tag :: uint32_t
  pg_order :: nat
  pg_state :: buddy_page_state
  pg_reserved :: uint16_t

record buddy_allocator =
  pages :: "nat \<Rightarrow> buddy_page"
  page_count :: nat
  free_pages :: nat
  max_order :: nat
  free_head :: "nat \<Rightarrow> int"
  free_count :: "nat \<Rightarrow> nat"

section \<open>Array accesses\<close>

definition get_page :: "buddy_allocator \<Rightarrow> nat \<Rightarrow> buddy_page option" where
  "get_page a i = (if i < page_count a then Some (pages a i) else None)"

definition set_page :: "buddy_allocator \<Rightarrow> int \<Rightarrow> (buddy_page \<Rightarrow> buddy_page) \<Rightarrow> buddy_allocator option" where
  "set_page a i f =
     (if 0 \<le> i \<and> nat i < page_count a
      then Some (a\<lparr>pages := (pages a)(nat i := f (pages a (nat i)))\<rparr>) else None)"

text \<open>The counted loops over consecutive pages: an update of each, and a test of each.\<close>

fun set_range :: "buddy_allocator \<Rightarrow> nat \<Rightarrow> nat \<Rightarrow> (buddy_page \<Rightarrow> buddy_page) \<Rightarrow> buddy_allocator option" where
  "set_range a i 0 f = Some a"
| "set_range a i (Suc n) f = do { a \<leftarrow> set_page a (int i) f; set_range a (Suc i) n f }"

fun all_range :: "buddy_allocator \<Rightarrow> nat \<Rightarrow> nat \<Rightarrow> (buddy_page \<Rightarrow> bool) \<Rightarrow> bool option" where
  "all_range a i 0 P = Some True"
| "all_range a i (Suc n) P =
     do { p \<leftarrow> get_page a i; if P p then all_range a (Suc i) n P else Some False }"

section \<open>Orders\<close>

definition order_units :: "nat \<Rightarrow> nat" where
  "order_units ord = 2 ^ ord"

function order_loop :: "nat \<Rightarrow> nat \<Rightarrow> nat \<Rightarrow> nat" where
  "order_loop units ord count =
     (if units < count \<and> ord < CONFIG_BUDDY_MAX_ORDER then order_loop (2 * units) (ord + 1) count
      else if units < count then CONFIG_BUDDY_MAX_ORDER + 1
      else ord)"
  by pat_completeness auto
termination
  by (relation "measure (\<lambda>(units, ord, count). CONFIG_BUDDY_MAX_ORDER - ord)") auto

declare order_loop.simps [simp del]

definition buddy_order_for_units :: "nat \<Rightarrow> nat" where
  "buddy_order_for_units count = (if count = 0 then 0 else order_loop 1 0 count)"

section \<open>Initialisation\<close>

definition buddy_init ::
  "buddy_allocator \<Rightarrow> (nat \<Rightarrow> buddy_page) option \<Rightarrow> nat \<Rightarrow> nat \<Rightarrow> status \<times> buddy_allocator"
where
  "buddy_init a metadata count order_limit =
     (case metadata of
        None \<Rightarrow> (ERR EINVAL, a)
      | Some m \<Rightarrow>
          if count = 0 \<or> count > 0x7fffffff \<or> order_limit > CONFIG_BUDDY_MAX_ORDER then (ERR EINVAL, a)
          else (EOK,
            \<lparr>pages = (\<lambda>i. if i < count
               then \<lparr>pg_next = BUDDY_INDEX_NONE, pg_prev = BUDDY_INDEX_NONE, pg_tag = 0, pg_order = 0,
                     pg_state = BUDDY_PAGE_RESERVED, pg_reserved = 0\<rparr>
               else m i),
             page_count = count, free_pages = 0, max_order = order_limit,
             free_head = (\<lambda>ord. if ord \<le> CONFIG_BUDDY_MAX_ORDER then BUDDY_INDEX_NONE else free_head a ord),
             free_count = (\<lambda>ord. if ord \<le> CONFIG_BUDDY_MAX_ORDER then 0 else free_count a ord)\<rparr>))"

section \<open>Free lists\<close>

definition list_add :: "buddy_allocator \<Rightarrow> nat \<Rightarrow> nat \<Rightarrow> buddy_allocator option" where
  "list_add a index ord = do {
     guard (ord \<le> CONFIG_BUDDY_MAX_ORDER);
     let head = free_head a ord;
     a \<leftarrow> set_page a (int index) (\<lambda>p. p\<lparr>pg_prev := BUDDY_INDEX_NONE, pg_next := head,
                              pg_order := ord mod 256, pg_state := BUDDY_PAGE_FREE_HEAD\<rparr>);
     a \<leftarrow> (if head \<noteq> BUDDY_INDEX_NONE
          then set_page a head (\<lambda>p. p\<lparr>pg_prev := int32_of_size index\<rparr>) else Some a);
     Some (a\<lparr>free_head := (free_head a)(ord := int32_of_size index),
             free_count := (free_count a)(ord := size_add (free_count a ord) 1),
             free_pages := size_add (free_pages a) (order_units ord)\<rparr>)
   }"

definition list_remove :: "buddy_allocator \<Rightarrow> nat \<Rightarrow> nat \<Rightarrow> buddy_allocator option" where
  "list_remove a index ord = do {
     guard (ord \<le> CONFIG_BUDDY_MAX_ORDER);
     page \<leftarrow> get_page a index;
     let prv = pg_prev page;
     let nxt = pg_next page;
     a \<leftarrow> (if prv = BUDDY_INDEX_NONE then Some (a\<lparr>free_head := (free_head a)(ord := nxt)\<rparr>)
          else set_page a prv (\<lambda>p. p\<lparr>pg_next := nxt\<rparr>));
     a \<leftarrow> (if nxt \<noteq> BUDDY_INDEX_NONE then set_page a nxt (\<lambda>p. p\<lparr>pg_prev := prv\<rparr>) else Some a);
     a \<leftarrow> set_page a (int index) (\<lambda>p. p\<lparr>pg_next := BUDDY_INDEX_NONE, pg_prev := BUDDY_INDEX_NONE,
                                  pg_state := BUDDY_PAGE_RESERVED\<rparr>);
     Some (a\<lparr>free_count := (free_count a)(ord := size_sub (free_count a ord) 1),
             free_pages := size_sub (free_pages a) (order_units ord)\<rparr>)
   }"

lemma set_page_frame:
  "set_page a i f = Some b \<Longrightarrow> page_count b = page_count a \<and> max_order b = max_order a"
  by (auto simp: set_page_def split: if_splits)

lemma list_remove_frame:
  "list_remove a index ord = Some b \<Longrightarrow> page_count b = page_count a \<and> max_order b = max_order a"
  by (auto simp: list_remove_def Let_def Option.bind_eq_Some_conv split: if_splits dest!: set_page_frame)

lemma list_add_frame:
  "list_add a index ord = Some b \<Longrightarrow> page_count b = page_count a \<and> max_order b = max_order a"
  by (auto simp: list_add_def Let_def Option.bind_eq_Some_conv split: if_splits dest!: set_page_frame)

section \<open>Operations\<close>

function add_block :: "buddy_allocator \<Rightarrow> nat \<Rightarrow> nat \<Rightarrow> buddy_allocator option" where
  "add_block a index ord =
     (let buddy = index XOR order_units ord in
      if ord < max_order a \<and> buddy < page_count a
         \<and> pg_state (pages a buddy) = BUDDY_PAGE_FREE_HEAD \<and> pg_order (pages a buddy) = ord
      then do {
        a' \<leftarrow> list_remove a buddy ord;
        add_block a' (if buddy < index then buddy else index) (ord + 1)
      }
      else list_add a index ord)"
  by pat_completeness auto
termination
  by (relation "measure (\<lambda>(a, index, ord). max_order a - ord)") (auto dest: list_remove_frame)

declare add_block.simps [simp del]

fun align_order :: "nat \<Rightarrow> nat \<Rightarrow> nat" where
  "align_order start 0 = 0"
| "align_order start (Suc ord) =
     (if start AND (order_units (Suc ord) - 1) \<noteq> 0 then align_order start ord else Suc ord)"

definition range_order :: "buddy_allocator \<Rightarrow> nat \<Rightarrow> nat \<Rightarrow> nat" where
  "range_order a start count =
     (let ord = buddy_order_for_units count;
          ord = (if ord > max_order a then max_order a else ord);
          ord = (if order_units ord > count then ord - 1 else ord)
      in align_order start ord)"

function add_range_loop :: "buddy_allocator \<Rightarrow> nat \<Rightarrow> nat \<Rightarrow> buddy_allocator option" where
  "add_range_loop a start count =
     (if count = 0 then Some a
      else let ord = range_order a start count; units = order_units ord in
        do { a \<leftarrow> add_block a start ord; add_range_loop a (start + units) (count - units) })"
  by pat_completeness auto
termination
  by (relation "measure (\<lambda>(a, start, count). count)") (auto simp: order_units_def)

declare add_range_loop.simps [simp del]

definition buddy_add_range :: "buddy_allocator \<Rightarrow> nat \<Rightarrow> nat \<Rightarrow> (status \<times> buddy_allocator) option" where
  "buddy_add_range a start count =
     (if count = 0 \<or> start \<ge> page_count a \<or> count > page_count a - start then Some (ERR EINVAL, a)
      else do {
        ok \<leftarrow> all_range a start count (\<lambda>p. pg_state p = BUDDY_PAGE_RESERVED);
        if \<not> ok then Some (ERR EINVAL, a)
        else do { a \<leftarrow> add_range_loop a start count; Some (EOK, a) }
      })"

function find_order :: "buddy_allocator \<Rightarrow> nat \<Rightarrow> nat" where
  "find_order a found =
     (if found \<le> max_order a \<and> free_head a found = BUDDY_INDEX_NONE then find_order a (found + 1)
      else found)"
  by pat_completeness auto
termination
  by (relation "measure (\<lambda>(a, found). Suc (max_order a) - found)") auto

declare find_order.simps [simp del]

function split_block :: "buddy_allocator \<Rightarrow> nat \<Rightarrow> nat \<Rightarrow> nat \<Rightarrow> buddy_allocator option" where
  "split_block a index found ord =
     (if found > ord then do {
        a \<leftarrow> list_add a (index + order_units (found - 1)) (found - 1);
        split_block a index (found - 1) ord
      }
      else Some a)"
  by pat_completeness auto
termination
  by (relation "measure (\<lambda>(a, index, found, ord). found)") auto

declare split_block.simps [simp del]

text \<open>\<^verbatim>\<open>SIZE_MAX\<close>, the failure value, is the inner \<open>None\<close>.\<close>

definition buddy_alloc :: "buddy_allocator \<Rightarrow> nat \<Rightarrow> (nat option \<times> buddy_allocator) option" where
  "buddy_alloc a ord =
     (if ord > max_order a then Some (None, a)
      else let found = find_order a ord in
        if found > max_order a then Some (None, a)
        else do {
          guard (0 \<le> free_head a found);
          let index = nat (free_head a found);
          a \<leftarrow> list_remove a index found;
          a \<leftarrow> split_block a index found ord;
          let units = order_units ord;
          a \<leftarrow> set_page a (int index) (\<lambda>p. p\<lparr>pg_state := BUDDY_PAGE_ALLOC_HEAD, pg_order := ord mod 256\<rparr>);
          a \<leftarrow> set_range a (index + 1) (units - 1) (\<lambda>p. p\<lparr>pg_state := BUDDY_PAGE_ALLOC_TAIL, pg_order := 0\<rparr>);
          Some (Some index, a)
        })"

definition reset_page :: "buddy_page \<Rightarrow> buddy_page" where
  "reset_page p = p\<lparr>pg_state := BUDDY_PAGE_RESERVED, pg_order := 0, pg_tag := 0\<rparr>"

definition buddy_free :: "buddy_allocator \<Rightarrow> nat \<Rightarrow> nat \<Rightarrow> (status \<times> buddy_allocator) option" where
  "buddy_free a index ord =
     (let units = order_units ord in
      if ord > max_order a \<or> index \<ge> page_count a then Some (ERR EINVAL, a)
      else if index AND (units - 1) \<noteq> 0 \<or> units > page_count a - index then Some (ERR EINVAL, a)
      else if pg_state (pages a index) \<noteq> BUDDY_PAGE_ALLOC_HEAD \<or> pg_order (pages a index) \<noteq> ord
        then Some (ERR EINVAL, a)
      else do {
        ok \<leftarrow> all_range a (index + 1) (units - 1) (\<lambda>p. pg_state p = BUDDY_PAGE_ALLOC_TAIL);
        if \<not> ok then Some (ERR EFAULT, a)
        else do {
          a \<leftarrow> set_range a index units reset_page;
          a \<leftarrow> add_block a index ord;
          Some (EOK, a)
        }
      })"

definition buddy_trim_allocation ::
  "buddy_allocator \<Rightarrow> nat \<Rightarrow> nat \<Rightarrow> nat \<Rightarrow> (status \<times> buddy_allocator) option"
where
  "buddy_trim_allocation a index ord keep_units =
     (let units = order_units ord in
      if ord > max_order a \<or> index \<ge> page_count a then Some (ERR EINVAL, a)
      else if keep_units = 0 \<or> keep_units > units \<or> units > page_count a - index then Some (ERR EINVAL, a)
      else if pg_state (pages a index) \<noteq> BUDDY_PAGE_ALLOC_HEAD \<or> pg_order (pages a index) \<noteq> ord
        then Some (ERR EINVAL, a)
      else do {
        ok \<leftarrow> all_range a (index + 1) (units - 1) (\<lambda>p. pg_state p = BUDDY_PAGE_ALLOC_TAIL);
        if \<not> ok then Some (ERR EFAULT, a)
        else do {
          a \<leftarrow> set_range a index units reset_page;
          a \<leftarrow> set_range a index keep_units (\<lambda>p. p\<lparr>pg_state := BUDDY_PAGE_ALLOC_HEAD, pg_order := 0\<rparr>);
          if keep_units < units then buddy_add_range a (index + keep_units) (units - keep_units)
          else Some (EOK, a)
        }
      })"

section \<open>Structural validation\<close>

text \<open>
  The guard of \<^verbatim>\<open>node_in_list\<close> admits \<^verbatim>\<open>page_count + 1\<close> iterations, which is the
  fuel of the loop.
\<close>

fun node_in_list_loop :: "buddy_allocator \<Rightarrow> nat \<Rightarrow> int \<Rightarrow> nat \<Rightarrow> bool" where
  "node_in_list_loop a wanted node 0 = False"
| "node_in_list_loop a wanted node (Suc fuel) =
     (if node = BUDDY_INDEX_NONE then False
      else if 0 \<le> node \<and> nat node = wanted then True
      else if node < 0 \<or> nat node \<ge> page_count a then False
      else node_in_list_loop a wanted (pg_next (pages a (nat node))) fuel)"

definition node_in_list :: "buddy_allocator \<Rightarrow> nat \<Rightarrow> nat \<Rightarrow> bool" where
  "node_in_list a wanted ord = node_in_list_loop a wanted (free_head a ord) (page_count a + 1)"

text \<open>The checks on one node of the free list of an order.\<close>

definition node_ok :: "buddy_allocator \<Rightarrow> nat \<Rightarrow> nat \<Rightarrow> int \<Rightarrow> bool" where
  "node_ok a ord index previous =
     (let units = order_units ord; page = pages a index; buddy = index XOR units in
      \<not> (pg_state page \<noteq> BUDDY_PAGE_FREE_HEAD \<or> pg_order page \<noteq> ord \<or> pg_prev page \<noteq> previous)
      \<and> \<not> (index AND (units - 1) \<noteq> 0 \<or> units > page_count a - index)
      \<and> list_all (\<lambda>i. \<not> pg_state (pages a (index + i)) = BUDDY_PAGE_FREE_HEAD) [1..<units]
      \<and> (ord < max_order a \<longrightarrow>
           \<not> (buddy < page_count a \<and> pg_state (pages a buddy) = BUDDY_PAGE_FREE_HEAD
              \<and> pg_order (pages a buddy) = ord)))"

text \<open>\<open>None\<close> is the \<^verbatim>\<open>return -EFAULT\<close> from inside the walk.\<close>

function validate_list :: "buddy_allocator \<Rightarrow> nat \<Rightarrow> int \<Rightarrow> int \<Rightarrow> nat \<Rightarrow> nat option" where
  "validate_list a ord node previous count =
     (if node = BUDDY_INDEX_NONE then Some count
      else if node < 0 \<or> nat node \<ge> page_count a \<or> count > page_count a then None
      else if \<not> node_ok a ord (nat node) previous then None
      else validate_list a ord (pg_next (pages a (nat node))) node (count + 1))"
  by pat_completeness auto
termination
  by (relation "measure (\<lambda>(a, ord, node, previous, count). Suc (page_count a) - count)") auto

declare validate_list.simps [simp del]

fun validate_orders :: "buddy_allocator \<Rightarrow> nat list \<Rightarrow> nat \<Rightarrow> nat \<Rightarrow> (nat \<times> nat) option" where
  "validate_orders a [] total_free total_heads = Some (total_free, total_heads)"
| "validate_orders a (ord # ords) total_free total_heads =
     (case validate_list a ord (free_head a ord) BUDDY_INDEX_NONE 0 of
        None \<Rightarrow> None
      | Some count \<Rightarrow>
          if count \<noteq> free_count a ord then None
          else validate_orders a ords (total_free + count * order_units ord) (total_heads + count))"

fun validate_pages :: "buddy_allocator \<Rightarrow> nat list \<Rightarrow> nat \<Rightarrow> nat option" where
  "validate_pages a [] observed = Some observed"
| "validate_pages a (i # is) observed =
     (if pg_state (pages a i) = BUDDY_PAGE_FREE_HEAD then
        (let ord = pg_order (pages a i) in
         if ord > max_order a \<or> \<not> node_in_list a i ord then None
         else validate_pages a is (observed + 1))
      else validate_pages a is observed)"

definition buddy_validate :: "buddy_allocator \<Rightarrow> status" where
  "buddy_validate a =
     (if page_count a = 0 \<or> max_order a > CONFIG_BUDDY_MAX_ORDER then ERR EINVAL
      else case validate_orders a [0..<max_order a + 1] 0 0 of
          None \<Rightarrow> ERR EFAULT
        | Some (total_free, total_heads) \<Rightarrow>
            if total_free \<noteq> free_pages a then ERR EFAULT
            else case validate_pages a [0..<page_count a] 0 of
                None \<Rightarrow> ERR EFAULT
              | Some observed \<Rightarrow> if observed = total_heads then EOK else ERR EFAULT)"

end
