(* ===== verification/Buddy_Inv.thy ===== *)
theory Buddy_Inv
  imports Buddy
begin

text \<open>
  The invariant of the buddy allocator: the free lists are well-linked doubly linked lists
  \<open>fl n\<close>, one per order; every listed block is aligned, in bounds and otherwise unused; blocks
  are disjoint; no two buddies of one order are both free; the counters agree with the lists.
  \<open>list_add\<close> and \<open>list_remove\<close> keep it.
\<close>

section \<open>Doubly linked segments\<close>

fun dseg :: "(nat \<Rightarrow> int) \<Rightarrow> (nat \<Rightarrow> int) \<Rightarrow> int \<Rightarrow> int \<Rightarrow> nat list \<Rightarrow> bool" where
  "dseg nx pv p h [] = (h = BUDDY_INDEX_NONE)"
| "dseg nx pv p h (x # xs) = (h = int x \<and> pv x = p \<and> dseg nx pv (int x) (nx x) xs)"

lemma dseg_cong:
  "dseg nx pv p h xs \<Longrightarrow> (\<And>y. y \<in> set xs \<Longrightarrow> nx' y = nx y \<and> pv' y = pv y) \<Longrightarrow> dseg nx' pv' p h xs"
  by (induction xs arbitrary: p h) auto

lemma dseg_links:
  "dseg nx pv p h (xs @ x # ys) \<Longrightarrow>
   pv x = (if xs = [] then p else int (last xs)) \<and> nx x = (if ys = [] then BUDDY_INDEX_NONE else int (hd ys))"
  by (induction xs arbitrary: p h) (auto simp: neq_Nil_conv)

lemma dseg_head: "dseg nx pv p h xs \<Longrightarrow> h = (if xs = [] then BUDDY_INDEX_NONE else int (hd xs))"
  by (cases xs) auto

lemma dseg_push:
  assumes "dseg nx pv BUDDY_INDEX_NONE h xs" "distinct (x # xs)"
  shows "dseg (nx(x := h)) (if xs = [] then pv(x := BUDDY_INDEX_NONE)
    else (pv(x := BUDDY_INDEX_NONE))(hd xs := int x)) BUDDY_INDEX_NONE (int x) (x # xs)"
  using assms by (cases xs) (auto elim!: dseg_cong)

lemma dseg_remove:
  "dseg nx pv p h (xs @ x # ys) \<Longrightarrow> distinct (xs @ x # ys) \<Longrightarrow>
   dseg (if xs = [] then nx else nx(last xs := nx x)) (if ys = [] then pv else pv(hd ys := pv x))
     p (if xs = [] then nx x else h) (xs @ ys)"
proof (induction xs arbitrary: p h)
  case Nil
  then show ?case by (cases ys) (auto elim!: dseg_cong)
next
  case (Cons z zs)
  then have IH: "dseg (if zs = [] then nx else nx(last zs := nx x)) (if ys = [] then pv else pv(hd ys := pv x))
     (int z) (if zs = [] then nx x else nx z) (zs @ ys)" by simp
  show ?case
  proof (cases "zs = []")
    case True
    with IH Cons.prems show ?thesis by (auto elim!: dseg_cong)
  next
    case False
    then have "last zs \<in> set zs" "ys \<noteq> [] \<Longrightarrow> hd ys \<in> set ys" by simp_all
    with IH Cons.prems False show ?thesis by (auto elim!: dseg_cong)
  qed
qed

section \<open>Invariant\<close>

definition free_block :: "buddy_allocator \<Rightarrow> nat \<Rightarrow> nat \<Rightarrow> bool" where
  "free_block a i n \<longleftrightarrow> n \<le> max_order a \<and> 2 ^ n dvd i \<and> i + 2 ^ n \<le> page_count a
     \<and> pg_state (pages a i) = BUDDY_PAGE_FREE_HEAD \<and> pg_order (pages a i) = n
     \<and> (\<forall>j. i < j \<and> j < i + 2 ^ n \<longrightarrow> pg_state (pages a j) = BUDDY_PAGE_RESERVED)"

definition alloc_block :: "buddy_allocator \<Rightarrow> nat \<Rightarrow> nat \<Rightarrow> bool" where
  "alloc_block a i n \<longleftrightarrow> n \<le> max_order a \<and> 2 ^ n dvd i \<and> i + 2 ^ n \<le> page_count a
     \<and> pg_state (pages a i) = BUDDY_PAGE_ALLOC_HEAD \<and> pg_order (pages a i) = n
     \<and> (\<forall>j. i < j \<and> j < i + 2 ^ n \<longrightarrow> pg_state (pages a j) = BUDDY_PAGE_ALLOC_TAIL)"

definition free_lists_ok :: "buddy_allocator \<Rightarrow> (nat \<Rightarrow> nat list) \<Rightarrow> bool" where
  "free_lists_ok a fl \<longleftrightarrow>
     (\<forall>n \<le> max_order a. dseg (\<lambda>i. pg_next (pages a i)) (\<lambda>i. pg_prev (pages a i)) BUDDY_INDEX_NONE (free_head a n) (fl n)
        \<and> distinct (fl n) \<and> free_count a n = length (fl n))
     \<and> (\<forall>n > max_order a. fl n = [])"

definition blocks_ok :: "buddy_allocator \<Rightarrow> (nat \<Rightarrow> nat list) \<Rightarrow> bool" where
  "blocks_ok a fl \<longleftrightarrow>
     (\<forall>i < page_count a. pg_state (pages a i) = BUDDY_PAGE_FREE_HEAD \<longrightarrow> i \<in> set (fl (pg_order (pages a i))))
     \<and> (\<forall>n i. i \<in> set (fl n) \<longrightarrow> free_block a i n)
     \<and> (\<forall>i < page_count a. pg_state (pages a i) = BUDDY_PAGE_ALLOC_HEAD \<longrightarrow> alloc_block a i (pg_order (pages a i)))"

definition coalesced :: "nat \<Rightarrow> (nat \<Rightarrow> nat list) \<Rightarrow> bool" where
  "coalesced m fl \<longleftrightarrow> (\<forall>n < m. \<forall>i \<in> set (fl n). i XOR 2 ^ n \<notin> set (fl n))"

definition buddy_inv :: "buddy_allocator \<Rightarrow> (nat \<Rightarrow> nat list) \<Rightarrow> bool" where
  "buddy_inv a fl \<longleftrightarrow> 0 < page_count a \<and> page_count a \<le> 0x7fffffff \<and> max_order a \<le> CONFIG_BUDDY_MAX_ORDER
     \<and> free_lists_ok a fl \<and> blocks_ok a fl \<and> coalesced (max_order a) fl
     \<and> free_pages a = (\<Sum>n \<le> max_order a. 2 ^ n * length (fl n))"

text \<open>The pages of the free blocks.\<close>

definition free_set :: "(nat \<Rightarrow> nat list) \<Rightarrow> nat set" where
  "free_set fl = {j. \<exists>n. \<exists>i \<in> set (fl n). i \<le> j \<and> j < i + 2 ^ n}"

lemma free_listD: "buddy_inv a fl \<Longrightarrow> i \<in> set (fl n) \<Longrightarrow> free_block a i n"
  by (simp add: buddy_inv_def blocks_ok_def)

lemma free_set_state:
  assumes "buddy_inv a fl" "j \<in> free_set fl"
  shows "j < page_count a" "pg_state (pages a j) = BUDDY_PAGE_FREE_HEAD \<or> pg_state (pages a j) = BUDDY_PAGE_RESERVED"
proof -
  from assms(2) obtain n i where "i \<in> set (fl n)" and j: "i \<le> j" "j < i + 2 ^ n" by (auto simp: free_set_def)
  then have fb: "free_block a i n" using assms(1) free_listD by blast
  then show "j < page_count a" using j by (simp add: free_block_def)
  show "pg_state (pages a j) = BUDDY_PAGE_FREE_HEAD \<or> pg_state (pages a j) = BUDDY_PAGE_RESERVED"
    using fb j by (cases "j = i") (auto simp: free_block_def)
qed

text \<open>Free blocks are disjoint.\<close>

lemma free_blocks_disjoint:
  assumes inv: "buddy_inv a fl" and i: "i \<in> set (fl n)" and i': "i' \<in> set (fl n')"
    and j: "i \<le> j" "j < i + 2 ^ n" "i' \<le> j" "j < i' + 2 ^ n'"
  shows "i = i' \<and> n = n'"
proof -
  have b: "free_block a i n" "free_block a i' n'" using inv i i' free_listD by blast+
  have "\<not> i < i'" "\<not> i' < i" using b j by (auto simp: free_block_def)
  then show ?thesis using b by (auto simp: free_block_def)
qed

lemma free_set_UN:
  "buddy_inv a fl \<Longrightarrow> free_set fl = (\<Union>(n, i) \<in> (SIGMA n : {..max_order a}. set (fl n)). {i ..< i + 2 ^ n})"
  unfolding free_set_def using free_listD [of a fl] by (fastforce simp: free_block_def)

lemma card_free_set:
  assumes inv: "buddy_inv a fl"
  shows "card (free_set fl) = free_pages a"
proof -
  let ?B = "SIGMA n : {..max_order a}. set (fl n)"
  have "{i ..< i + 2 ^ n} \<inter> {i' ..< i' + 2 ^ n'} = {}"
    if "i \<in> set (fl n)" "i' \<in> set (fl n')" "(n, i) \<noteq> (n', i')" for n i n' i'
    using free_blocks_disjoint [OF inv that(1,2)] that(3) by fastforce
  then have "\<forall>p \<in> ?B. \<forall>q \<in> ?B. p \<noteq> q \<longrightarrow>
      (case p of (n, i) \<Rightarrow> {i ..< i + 2 ^ n}) \<inter> (case q of (n, i) \<Rightarrow> {i ..< i + 2 ^ n}) = {}" by fastforce
  then have "card (free_set fl) = (\<Sum>(n, i) \<in> (SIGMA n : {..max_order a}. set (fl n)). card {i ..< i + 2 ^ n})"
    unfolding free_set_UN [OF inv] by (subst card_UN_disjoint) (auto simp: case_prod_unfold)
  also have "\<dots> = (\<Sum>n \<le> max_order a. \<Sum>i \<in> set (fl n). 2 ^ n)"
    by (subst sum.Sigma) (simp_all add: case_prod_unfold)
  also have "\<dots> = free_pages a"
    using inv by (simp add: buddy_inv_def free_lists_ok_def distinct_card mult.commute)
  finally show ?thesis .
qed

lemma free_pages_bound:
  assumes "buddy_inv a fl"
  shows "free_pages a \<le> page_count a"
proof -
  have "free_set fl \<subseteq> {..< page_count a}" using free_set_state(1) [OF assms] by blast
  then have "card (free_set fl) \<le> page_count a" using card_mono [of "{..< page_count a}"] by simp
  then show ?thesis using card_free_set [OF assms] by simp
qed

section \<open>Free-list operations\<close>

text \<open>
  What an operation leaves alone: the size of the array, the tags, the handoff flags, and the
  state and order of the pages outside \<open>S\<close>.
\<close>

definition page_frame :: "nat set \<Rightarrow> buddy_allocator \<Rightarrow> buddy_allocator \<Rightarrow> bool" where
  "page_frame S a b \<longleftrightarrow> page_count b = page_count a \<and> max_order b = max_order a
     \<and> (\<forall>j. pg_tag (pages b j) = pg_tag (pages a j) \<and> pg_reserved (pages b j) = pg_reserved (pages a j)
          \<and> (j \<notin> S \<longrightarrow> pg_state (pages b j) = pg_state (pages a j) \<and> pg_order (pages b j) = pg_order (pages a j)))"

lemma page_frame_trans:
  "page_frame S a b \<Longrightarrow> page_frame T b c \<Longrightarrow> S \<subseteq> U \<Longrightarrow> T \<subseteq> U \<Longrightarrow> page_frame U a c"
  unfolding page_frame_def by (metis subsetD)

lemma page_frame_refl [simp]: "page_frame S a a"
  by (simp add: page_frame_def)

lemma page_frame_mono: "page_frame S a b \<Longrightarrow> S \<subseteq> T \<Longrightarrow> page_frame T a b"
  unfolding page_frame_def by blast

definition fresh_block :: "buddy_allocator \<Rightarrow> (nat \<Rightarrow> nat list) \<Rightarrow> nat \<Rightarrow> nat \<Rightarrow> bool" where
  "fresh_block a fl i n \<longleftrightarrow> n \<le> max_order a \<and> 2 ^ n dvd i \<and> i + 2 ^ n \<le> page_count a
     \<and> (\<forall>j. i \<le> j \<and> j < i + 2 ^ n \<longrightarrow> pg_state (pages a j) = BUDDY_PAGE_RESERVED \<and> j \<notin> free_set fl)"

lemma fresh_notin: "fresh_block a fl i n \<Longrightarrow> i \<notin> set (fl m)"
  by (force simp: fresh_block_def free_set_def)

lemma blocks_ok_add:
  assumes ok: "blocks_ok a fl" and fr: "fresh_block a fl i n"
    and b: "page_count b = page_count a" "max_order b = max_order a"
    "\<And>j. pg_state (pages b j) = (if j = i then BUDDY_PAGE_FREE_HEAD else pg_state (pages a j))"
    "\<And>j. pg_order (pages b j) = (if j = i then n else pg_order (pages a j))"
  shows "blocks_ok b (fl(n := i # fl n))"
proof -
  have new: "free_block b i n" using fr by (auto simp: free_block_def fresh_block_def b)
  have old: "free_block b x m" if x: "x \<in> set (fl m)" for x m
  proof -
    have "free_block a x m" using ok x by (simp add: blocks_ok_def)
    moreover have "x \<noteq> i" "\<not> (x < i \<and> i < x + 2 ^ m)"
      using fr x by (force simp: fresh_block_def free_set_def)+
    ultimately show ?thesis by (auto simp: free_block_def b)
  qed
  have alloc: "alloc_block b x (pg_order (pages b x))"
    if "x < page_count b" "pg_state (pages b x) = BUDDY_PAGE_ALLOC_HEAD" for x
  proof -
    have "x \<noteq> i" using that by (auto simp: b)
    with that ok have al: "alloc_block a x (pg_order (pages a x))" by (simp add: b blocks_ok_def)
    moreover have "pg_state (pages a i) = BUDDY_PAGE_RESERVED" using fr by (simp add: fresh_block_def)
    ultimately show ?thesis using \<open>x \<noteq> i\<close> by (auto simp: alloc_block_def b)
  qed
  show ?thesis unfolding blocks_ok_def using new old alloc ok
    by (auto simp: blocks_ok_def b)
qed

lemma blocks_ok_remove:
  assumes ok: "blocks_ok a fl" and i: "i \<in> set (fl n)" and d: "distinct (fl n)"
    and b: "page_count b = page_count a" "max_order b = max_order a"
    "\<And>j. pg_state (pages b j) = (if j = i then BUDDY_PAGE_RESERVED else pg_state (pages a j))"
    "\<And>j. pg_order (pages b j) = pg_order (pages a j)"
  shows "blocks_ok b (fl(n := remove1 i (fl n)))"
proof -
  have fb: "free_block a i n" using ok i by (simp add: blocks_ok_def)
  have free: "free_block b x m" if x: "x \<in> set ((fl(n := remove1 i (fl n))) m)" for x m
  proof -
    have a: "free_block a x m" using ok x set_remove1_subset by (fastforce simp: blocks_ok_def split: if_splits)
    have "x \<noteq> i" using x d a fb by (auto simp: free_block_def split: if_splits)
    with a show ?thesis by (auto simp: free_block_def b)
  qed
  have alloc: "alloc_block b x (pg_order (pages b x))"
    if "x < page_count b" "pg_state (pages b x) = BUDDY_PAGE_ALLOC_HEAD" for x
  proof -
    have "x \<noteq> i" using that by (auto simp: b)
    with that ok have "alloc_block a x (pg_order (pages a x))" by (simp add: b blocks_ok_def)
    with fb \<open>x \<noteq> i\<close> show ?thesis by (auto simp: alloc_block_def free_block_def b)
  qed
  show ?thesis unfolding blocks_ok_def using free alloc ok d by (auto simp: blocks_ok_def b)
qed

lemma free_sum_upd:
  assumes "n \<le> m"
  shows "(\<Sum>k \<le> m. 2 ^ k * length ((fl(n := xs)) k)) + 2 ^ n * length (fl n)
    = (\<Sum>k \<le> m. 2 ^ k * length (fl k)) + (2 :: nat) ^ n * length xs"
proof -
  have "(\<Sum>k \<in> {..m} - {n}. 2 ^ k * length ((fl(n := xs)) k)) = (\<Sum>k \<in> {..m} - {n}. (2 :: nat) ^ k * length (fl k))"
    by (rule sum.cong) auto
  then show ?thesis using assms by (simp add: sum.remove [of "{..m}" n])
qed

lemma xor_unit_twice [simp]: "(i XOR 2 ^ n) XOR 2 ^ n = i" for i :: nat
  by (simp add: xor.assoc)

lemma xor_unit_neq [simp]: "i XOR 2 ^ n \<noteq> i" "i \<noteq> i XOR 2 ^ n" for i :: nat
  by (metis power_eq_0_iff xor.left_commute xor.right_neutral xor_self_eq zero_neq_numeral)+

lemma coalesced_add:
  assumes "coalesced m fl" "n < m \<Longrightarrow> i XOR 2 ^ n \<notin> set (fl n)"
  shows "coalesced m (fl(n := i # fl n))"
  unfolding coalesced_def
proof (intro allI impI ballI)
  fix k x assume k: "k < m" and x: "x \<in> set ((fl(n := i # fl n)) k)"
  show "x XOR 2 ^ k \<notin> set ((fl(n := i # fl n)) k)"
  proof (cases "k = n")
    case True
    have "x = i \<or> x \<in> set (fl n)" using x True by auto
    moreover from this have "x XOR 2 ^ n \<noteq> i" using assms(2) k True xor_unit_neq by auto
    ultimately show ?thesis using assms k True by (auto simp: coalesced_def)
  qed (use assms k x in \<open>auto simp: coalesced_def\<close>)
qed

lemma coalesced_remove: "coalesced m fl \<Longrightarrow> coalesced m (fl(n := remove1 i (fl n)))"
  by (auto simp: coalesced_def dest: notin_set_remove1 set_remove1_subset [THEN subsetD])

lemma free_set_add: "free_set (fl(n := i # fl n)) = free_set fl \<union> {i ..< i + 2 ^ n}"
  by (auto simp: free_set_def split: if_splits)

lemma free_set_remove:
  assumes inv: "buddy_inv a fl" and i: "i \<in> set (fl n)"
  shows "free_set (fl(n := remove1 i (fl n))) = free_set fl - {i ..< i + 2 ^ n}"
proof -
  have d: "distinct (fl n)" using inv i
    by (metis buddy_inv_def free_lists_ok_def empty_iff linorder_not_le list.set(1))
  have "j \<in> free_set (fl(n := remove1 i (fl n))) \<longleftrightarrow> j \<in> free_set fl \<and> j \<notin> {i ..< i + 2 ^ n}" for j
  proof
    assume "j \<in> free_set (fl(n := remove1 i (fl n)))"
    then obtain m x where x: "x \<in> set ((fl(n := remove1 i (fl n))) m)" "x \<le> j" "j < x + 2 ^ m"
      by (auto simp: free_set_def)
    then have x': "x \<in> set (fl m)" "\<not> (x = i \<and> m = n)"
      using d set_remove1_subset by (fastforce split: if_splits)+
    then show "j \<in> free_set fl \<and> j \<notin> {i ..< i + 2 ^ n}"
      using x free_blocks_disjoint [OF inv x'(1) i, of j] by (auto simp: free_set_def)
  next
    assume j: "j \<in> free_set fl \<and> j \<notin> {i ..< i + 2 ^ n}"
    then obtain m x where "x \<in> set (fl m)" "x \<le> j" "j < x + 2 ^ m" by (auto simp: free_set_def)
    with j d have "x \<in> set ((fl(n := remove1 i (fl n))) m)" by auto
    with \<open>x \<le> j\<close> \<open>j < x + 2 ^ m\<close> show "j \<in> free_set (fl(n := remove1 i (fl n)))"
      by (auto simp: free_set_def simp del: fun_upd_apply)
  qed
  then show ?thesis by blast
qed

lemma inv_lists:
  assumes "buddy_inv a fl" "n \<le> max_order a"
  shows "dseg (\<lambda>i. pg_next (pages a i)) (\<lambda>i. pg_prev (pages a i)) BUDDY_INDEX_NONE (free_head a n) (fl n)"
    "distinct (fl n)" "free_count a n = length (fl n)"
  using assms by (simp_all add: buddy_inv_def free_lists_ok_def)

lemma inv_sizes:
  assumes "buddy_inv a fl"
  shows "page_count a \<le> 0x7fffffff" "max_order a \<le> CONFIG_BUDDY_MAX_ORDER" "0 < page_count a"
  using assms by (simp_all add: buddy_inv_def)

lemma free_list_distinct_orders:
  "buddy_inv a fl \<Longrightarrow> y \<in> set (fl m) \<Longrightarrow> y \<in> set (fl n) \<Longrightarrow> m = n"
  by (metis free_listD free_block_def)

lemma free_list_bound: "buddy_inv a fl \<Longrightarrow> i \<in> set (fl n) \<Longrightarrow> i < page_count a \<and> n \<le> max_order a"
  using free_listD [of a fl i n] by (auto simp: free_block_def intro: less_le_trans [of i "i + 2 ^ n"])

lemma free_list_length: "buddy_inv a fl \<Longrightarrow> length (fl n) \<le> page_count a"
proof (cases "n \<le> max_order a")
  case True
  assume inv: "buddy_inv a fl"
  have "set (fl n) \<subseteq> {..< page_count a}" using free_list_bound [OF inv] by blast
  then have "card (set (fl n)) \<le> page_count a" using card_mono [of "{..< page_count a}"] by simp
  then show ?thesis using inv_lists(2) [OF inv True] by (simp add: distinct_card)
qed (simp add: buddy_inv_def free_lists_ok_def)

lemma list_add_spec:
  assumes inv: "buddy_inv a fl" and fr: "fresh_block a fl i n"
    and co: "n < max_order a \<Longrightarrow> i XOR 2 ^ n \<notin> set (fl n)"
  shows "\<exists>b. list_add a i n = Some b \<and> buddy_inv b (fl(n := i # fl n)) \<and> page_frame {i} a b"
proof -
  note L = inv_lists [OF inv]
  have n: "n \<le> max_order a" "n \<le> CONFIG_BUDDY_MAX_ORDER" "i < page_count a"
    using fr inv_sizes [OF inv] by (auto simp: fresh_block_def intro: less_le_trans [of i "i + 2 ^ n"])
  have nin: "i \<notin> set (fl m)" for m using fresh_notin [OF fr] .
  have hd: "hd (fl n) < page_count a" "hd (fl n) \<noteq> i" "hd (fl n) \<in> set (fl n)" if "fl n \<noteq> []"
    using that nin [of n] free_list_bound [OF inv, of "hd (fl n)" n] by (metis hd_in_set)+
  have h: "free_head a n = (if fl n = [] then BUDDY_INDEX_NONE else int (hd (fl n)))"
    using dseg_head [OF L(1) [OF n(1)]] .
  define q where "q = (pages a i)\<lparr>pg_prev := BUDDY_INDEX_NONE, pg_next := free_head a n, pg_order := n,
      pg_state := BUDDY_PAGE_FREE_HEAD\<rparr>"
  define P where "P = (if fl n = [] then (pages a)(i := q)
      else (pages a)(i := q, hd (fl n) := (pages a (hd (fl n)))\<lparr>pg_prev := int i\<rparr>))"
  define b where "b = a\<lparr>pages := P, free_head := (free_head a)(n := int i),
      free_count := (free_count a)(n := length (fl n) + 1), free_pages := free_pages a + 2 ^ n\<rparr>"
  have i31: "int32_of_size i = int i" "n mod 256 = n"
    using n inv_sizes [OF inv] by (simp_all add: size_exact)
  have units: "free_pages a + 2 ^ n < 2 ^ 64" "length (fl n) + 1 < 2 ^ 64"
    using free_pages_bound [OF inv] inv_sizes [OF inv] free_list_length [OF inv, of n]
      power_increasing [OF n(2), of "2 :: nat"] by simp_all
  note sz = size_add_exact [OF units(1)] size_add_exact [OF units(2), unfolded One_nat_def]
  have run: "list_add a i n = Some b"
    using n hd(1,2) sz by (cases "fl n = []")
      (simp_all add: list_add_def Let_def b_def P_def q_def set_page_def h i31 L(3) [OF n(1)] order_units_def)
  have S: "pg_state (P j) = (if j = i then BUDDY_PAGE_FREE_HEAD else pg_state (pages a j))"
      "pg_order (P j) = (if j = i then n else pg_order (pages a j))" for j
    using hd(2) by (simp_all add: P_def q_def)
  have "dseg (\<lambda>j. pg_next (P j)) (\<lambda>j. pg_prev (P j)) BUDDY_INDEX_NONE (int i) (i # fl n)"
    by (rule dseg_cong [OF dseg_push [OF L(1) [OF n(1)], of i]]) (use nin L(2) [OF n(1)] hd in \<open>auto simp: P_def q_def\<close>)
  moreover have "dseg (\<lambda>j. pg_next (P j)) (\<lambda>j. pg_prev (P j)) BUDDY_INDEX_NONE (free_head a m) (fl m)"
    if "m \<le> max_order a" "m \<noteq> n" for m
  proof (rule dseg_cong [OF L(1) [OF that(1)]])
    fix y assume "y \<in> set (fl m)"
    then have "y \<noteq> i" "fl n \<noteq> [] \<Longrightarrow> y \<noteq> hd (fl n)"
      using nin hd(3) free_list_distinct_orders [OF inv] that(2) by blast+
    then show "pg_next (P y) = pg_next (pages a y) \<and> pg_prev (P y) = pg_prev (pages a y)"
      by (simp add: P_def)
  qed
  moreover have "\<forall>m > max_order a. fl m = []" using inv by (simp add: buddy_inv_def free_lists_ok_def)
  ultimately have "free_lists_ok b (fl(n := i # fl n))"
    using L(2,3) nin n by (simp add: free_lists_ok_def b_def)
  moreover have "blocks_ok b (fl(n := i # fl n))"
    using inv by (intro blocks_ok_add [OF _ fr]) (simp_all add: buddy_inv_def b_def S)
  moreover have "coalesced (max_order b) (fl(n := i # fl n))"
    using coalesced_add [of "max_order a" fl n i] co inv by (simp add: buddy_inv_def b_def)
  moreover have "free_pages b = (\<Sum>k \<le> max_order b. 2 ^ k * length ((fl(n := i # fl n)) k))"
    using free_sum_upd [OF n(1), of fl "i # fl n"] inv by (simp add: buddy_inv_def b_def)
  moreover have "page_frame {i} a b" by (simp add: page_frame_def b_def P_def q_def)
  ultimately show ?thesis using run inv by (auto simp: buddy_inv_def b_def)
qed

lemma list_remove_spec:
  assumes inv: "buddy_inv a fl" and i: "i \<in> set (fl n)"
  shows "\<exists>b. list_remove a i n = Some b \<and> buddy_inv b (fl(n := remove1 i (fl n))) \<and> page_frame {i} a b
    \<and> pg_state (pages b i) = BUDDY_PAGE_RESERVED"
proof -
  note L = inv_lists [OF inv]
  have n: "n \<le> max_order a" "n \<le> CONFIG_BUDDY_MAX_ORDER" "i < page_count a"
    using free_list_bound [OF inv i] inv_sizes [OF inv] by auto
  from i obtain xs ys where fl: "fl n = xs @ i # ys" "i \<notin> set xs" by (metis split_list_first)
  have d: "distinct (xs @ i # ys)" using L(2) [OF n(1)] fl by simp
  have rem: "remove1 i (fl n) = xs @ ys" using fl by (simp add: remove1_append)
  have lk: "pg_prev (pages a i) = (if xs = [] then BUDDY_INDEX_NONE else int (last xs))"
      "pg_next (pages a i) = (if ys = [] then BUDDY_INDEX_NONE else int (hd ys))"
    using dseg_links [OF L(1) [OF n(1), unfolded fl]] by auto
  have mem: "xs \<noteq> [] \<Longrightarrow> last xs \<in> set (fl n)" "ys \<noteq> [] \<Longrightarrow> hd ys \<in> set (fl n)" by (auto simp: fl)
  then have bnd: "xs \<noteq> [] \<Longrightarrow> last xs < page_count a" "ys \<noteq> [] \<Longrightarrow> hd ys < page_count a"
    using free_list_bound [OF inv] by blast+
  have ne: "xs \<noteq> [] \<Longrightarrow> last xs \<noteq> i" "ys \<noteq> [] \<Longrightarrow> hd ys \<noteq> i" "xs \<noteq> [] \<Longrightarrow> ys \<noteq> [] \<Longrightarrow> last xs \<noteq> hd ys"
    using d by (auto dest: last_in_set hd_in_set)
  define q where "q = (pages a i)\<lparr>pg_next := BUDDY_INDEX_NONE, pg_prev := BUDDY_INDEX_NONE,
      pg_state := BUDDY_PAGE_RESERVED\<rparr>"
  define P1 where "P1 = (if xs = [] then pages a
      else (pages a)(last xs := (pages a (last xs))\<lparr>pg_next := pg_next (pages a i)\<rparr>))"
  define P2 where "P2 = (if ys = [] then P1
      else P1(hd ys := (pages a (hd ys))\<lparr>pg_prev := pg_prev (pages a i)\<rparr>))"
  define P where "P = P2(i := q)"
  note P = P_def P1_def P2_def q_def
  define hd' where "hd' = (if xs = [] then pg_next (pages a i) else free_head a n)"
  define b where "b = a\<lparr>pages := P, free_head := (free_head a)(n := hd'),
      free_count := (free_count a)(n := length (fl n) - 1), free_pages := free_pages a - 2 ^ n\<rparr>"
  have sum: "free_pages a = (\<Sum>k \<le> max_order a. 2 ^ k * length ((fl(n := xs @ ys)) k)) + 2 ^ n"
    using free_sum_upd [OF n(1), of fl "xs @ ys"] inv by (simp add: buddy_inv_def fl)
  have units: "2 ^ n \<le> free_pages a" "free_pages a < 2 ^ 64" "1 \<le> length (fl n)" "length (fl n) < 2 ^ 64"
    using sum free_pages_bound [OF inv] inv_sizes [OF inv] free_list_length [OF inv, of n] by (simp_all add: fl)
  note sz = size_sub_exact [OF units(1,2)] size_sub_exact [OF units(3,4), unfolded One_nat_def]
  have run: "list_remove a i n = Some b"
    using n bnd ne sz by (cases "xs = []"; cases "ys = []")
      (simp_all add: list_remove_def Let_def b_def P hd'_def get_page_def set_page_def lk L(3) [OF n(1)]
        order_units_def fun_upd_twist)
  have S: "pg_state (P j) = (if j = i then BUDDY_PAGE_RESERVED else pg_state (pages a j))"
      "pg_order (P j) = pg_order (pages a j)" for j using ne by (simp_all add: P)
  have "dseg (\<lambda>j. pg_next (P j)) (\<lambda>j. pg_prev (P j)) BUDDY_INDEX_NONE hd' (xs @ ys)"
    unfolding hd'_def
  proof (rule dseg_cong [OF dseg_remove [OF L(1) [OF n(1), unfolded fl] d]], goal_cases)
    case (1 y)
    then have "y \<noteq> i" using d by auto
    then show ?case using ne by (cases "xs = []"; cases "ys = []") (simp_all add: P)
  qed
  moreover have "dseg (\<lambda>j. pg_next (P j)) (\<lambda>j. pg_prev (P j)) BUDDY_INDEX_NONE (free_head a m) (fl m)"
    if "m \<le> max_order a" "m \<noteq> n" for m
  proof (rule dseg_cong [OF L(1) [OF that(1)]])
    fix y assume "y \<in> set (fl m)"
    then have "y \<noteq> i" "xs \<noteq> [] \<Longrightarrow> y \<noteq> last xs" "ys \<noteq> [] \<Longrightarrow> y \<noteq> hd ys"
      using mem i free_list_distinct_orders [OF inv] that(2) by blast+
    then show "pg_next (P y) = pg_next (pages a y) \<and> pg_prev (P y) = pg_prev (pages a y)"
      by (simp add: P)
  qed
  moreover have "\<forall>m > max_order a. fl m = []" using inv by (simp add: buddy_inv_def free_lists_ok_def)
  ultimately have "free_lists_ok b (fl(n := xs @ ys))"
    using L(2,3) n d by (simp add: free_lists_ok_def b_def fl)
  moreover have "blocks_ok b (fl(n := remove1 i (fl n)))"
    using inv i L(2) [OF n(1)] by (intro blocks_ok_remove [of a fl i n b]) (simp_all add: buddy_inv_def b_def S)
  moreover have "coalesced (max_order b) (fl(n := remove1 i (fl n)))"
    using coalesced_remove inv by (simp add: buddy_inv_def b_def)
  moreover have "page_frame {i} a b" by (simp add: page_frame_def b_def P)
  ultimately show ?thesis using run inv sum by (auto simp: buddy_inv_def b_def rem P)
qed

end
