(* ===== verification/Buddy_Ops.thy ===== *)
theory Buddy_Ops
  imports Buddy_Inv
begin

text \<open>
  The allocator's operations keep the invariant and never leave the metadata array:
  coalescing (\<open>add_block\<close>), adding ranges, allocation with splitting, release, trimming.
  Each lemma also gives the pages that become free and the pages left alone.
\<close>

section \<open>Coalescing\<close>

lemma buddy_merge:
  fixes i :: nat
  assumes "2 ^ n dvd i" "m = (if i XOR 2 ^ n < i then i XOR 2 ^ n else i)"
  shows "2 ^ (n + 1) dvd m \<and> {m ..< m + 2 ^ (n + 1)} = {i ..< i + 2 ^ n} \<union> {i XOR 2 ^ n ..< (i XOR 2 ^ n) + 2 ^ n}"
proof -
  from assms(1) obtain q where q: "i = 2 ^ n * q" ..
  then have bit: "bit i n \<longleftrightarrow> odd q" by (simp add: bit_iff_odd)
  show ?thesis
  proof (cases "odd q")
    case True
    then obtain r where "q = 2 * r + 1" by (blast elim: oddE)
    then have m: "m = 2 ^ (n + 1) * r" "i = m + 2 ^ n" "i XOR 2 ^ n = m"
      using assms(2) bit True by (simp_all add: xor_unit q algebra_simps)
    then show ?thesis by auto
  next
    case False
    then obtain r where "q = 2 * r" by (blast elim: evenE)
    then have m: "m = 2 ^ (n + 1) * r" "i = m" "i XOR 2 ^ n = m + 2 ^ n"
      using assms(2) bit False by (simp_all add: xor_unit q algebra_simps)
    then show ?thesis by auto
  qed
qed

lemma free_head_iff:
  assumes "buddy_inv a fl"
  shows "j < page_count a \<and> pg_state (pages a j) = BUDDY_PAGE_FREE_HEAD \<and> pg_order (pages a j) = n
    \<longleftrightarrow> j \<in> set (fl n)"
  using free_listD [OF assms, of j n] free_list_bound [OF assms, of j n] assms
  by (auto simp: free_block_def buddy_inv_def blocks_ok_def)

lemma free_set_block: "i \<in> set (fl n) \<Longrightarrow> {i ..< i + 2 ^ n} \<subseteq> free_set fl"
  by (auto simp: free_set_def) blast

lemma fresh_merge:
  assumes inv: "buddy_inv a fl" and fr: "fresh_block a fl i n" and n: "n < max_order a"
    and bu: "i XOR 2 ^ n \<in> set (fl n)" and b: "page_frame {i XOR 2 ^ n} a b"
    "pg_state (pages b (i XOR 2 ^ n)) = BUDDY_PAGE_RESERVED"
  shows "fresh_block b (fl(n := remove1 (i XOR 2 ^ n) (fl n))) (if i XOR 2 ^ n < i then i XOR 2 ^ n else i) (n + 1)"
proof -
  let ?b = "i XOR 2 ^ n" and ?m = "if i XOR 2 ^ n < i then i XOR 2 ^ n else i"
  have "2 ^ n dvd i" using fr by (simp add: fresh_block_def)
  from buddy_merge [OF this refl] have mg: "2 ^ (n + 1) dvd ?m"
    "{?m ..< ?m + 2 ^ (n + 1)} = {i ..< i + 2 ^ n} \<union> {?b ..< ?b + 2 ^ n}" by blast+
  have fb: "free_block a ?b n" using free_listD [OF inv bu] .
  have bs: "{?b ..< ?b + 2 ^ n} \<subseteq> free_set fl" using bu by (rule free_set_block)
  have "(1 :: nat) \<le> 2 ^ (n + 1)" by simp
  then have "?m + 2 ^ (n + 1) - 1 \<in> {?m ..< ?m + 2 ^ (n + 1)}" unfolding atLeastLessThan_iff by linarith
  then have top: "?m + 2 ^ (n + 1) \<le> page_count a"
    unfolding mg(2) using fr fb by (auto simp: fresh_block_def free_block_def)
  have "pg_state (pages b j) = BUDDY_PAGE_RESERVED \<and> j \<notin> free_set (fl(n := remove1 ?b (fl n)))"
    if "j \<in> {?m ..< ?m + 2 ^ (n + 1)}" for j
  proof -
    from that consider "j \<in> {i ..< i + 2 ^ n}" | "j \<in> {?b ..< ?b + 2 ^ n}" unfolding mg(2) by blast
    then show ?thesis
    proof cases
      case 1
      then have "pg_state (pages a j) = BUDDY_PAGE_RESERVED" "j \<notin> free_set fl"
        using fr by (auto simp: fresh_block_def)
      with b show ?thesis by (cases "j = ?b") (auto simp: free_set_remove [OF inv bu] page_frame_def)
    next
      case 2
      with fb b show ?thesis
        by (cases "j = ?b") (auto simp: free_set_remove [OF inv bu] page_frame_def free_block_def)
    qed
  qed
  then show ?thesis using mg(1) top n b(1) by (simp add: fresh_block_def page_frame_def)
qed

lemma add_block_spec:
  assumes "buddy_inv a fl" "fresh_block a fl i n"
  shows "\<exists>b fl'. add_block a i n = Some b \<and> buddy_inv b fl'
    \<and> free_set fl' = free_set fl \<union> {i ..< i + 2 ^ n} \<and> page_frame (free_set fl \<union> {i ..< i + 2 ^ n}) a b"
  using assms
proof (induction "max_order a - n" arbitrary: a fl i n rule: less_induct)
  case less
  note inv = less.prems(1) and fr = less.prems(2)
  let ?b = "i XOR 2 ^ n" and ?m = "if i XOR 2 ^ n < i then i XOR 2 ^ n else i"
  have cond: "n < max_order a \<and> ?b < page_count a \<and> pg_state (pages a ?b) = BUDDY_PAGE_FREE_HEAD
      \<and> pg_order (pages a ?b) = n \<longleftrightarrow> n < max_order a \<and> ?b \<in> set (fl n)"
    using free_head_iff [OF inv, of ?b n] by blast
  note unf = add_block.simps [of a i n, unfolded Let_def order_units_def cond]
  show ?case
  proof (cases "n < max_order a \<and> ?b \<in> set (fl n)")
    case False
    then have "add_block a i n = list_add a i n"
      unfolding unf by (simp only: if_False)
    moreover obtain b where "list_add a i n = Some b" "buddy_inv b (fl(n := i # fl n))" "page_frame {i} a b"
      using list_add_spec [OF inv fr] False by blast
    moreover have "page_frame (free_set fl \<union> {i ..< i + 2 ^ n}) a b"
      using calculation(4) by (rule page_frame_mono) auto
    ultimately show ?thesis by (metis free_set_add)
  next
    case True
    then obtain c where c: "list_remove a ?b n = Some c" "buddy_inv c (fl(n := remove1 ?b (fl n)))"
        "page_frame {?b} a c" "pg_state (pages c ?b) = BUDDY_PAGE_RESERVED"
      using list_remove_spec [OF inv] by blast
    have eqn: "add_block a i n = add_block c ?m (n + 1)"
      unfolding unf by (simp only: True c(1) simp_thms if_True Option.bind.bind_lunit)
    have fr': "fresh_block c (fl(n := remove1 ?b (fl n))) ?m (n + 1)"
      using fresh_merge [OF inv fr _ _ c(3,4)] True by blast
    have lt: "max_order c - (n + 1) < max_order a - n" using c(3) True by (auto simp: page_frame_def)
    from less.hyps [OF lt c(2) fr'] obtain b fl' where b: "add_block a i n = Some b" "buddy_inv b fl'"
        "free_set fl' = free_set (fl(n := remove1 ?b (fl n))) \<union> {?m ..< ?m + 2 ^ (n + 1)}"
        "page_frame (free_set (fl(n := remove1 ?b (fl n))) \<union> {?m ..< ?m + 2 ^ (n + 1)}) c b"
      unfolding eqn by blast
    have bs: "{?b ..< ?b + 2 ^ n} \<subseteq> free_set fl" using True free_set_block by blast
    have eq: "free_set (fl(n := remove1 ?b (fl n))) \<union> {?m ..< ?m + 2 ^ (n + 1)} = free_set fl \<union> {i ..< i + 2 ^ n}"
      using free_set_remove [OF inv] True buddy_merge [of n i ?m] fr bs by (auto simp: fresh_block_def)
    have bf: "?b \<in> free_set fl" using bs by auto
    have "page_frame (free_set fl \<union> {i ..< i + 2 ^ n}) a b"
      by (rule page_frame_trans [OF c(3) b(4) [unfolded eq]]) (use bf in auto)
    with b eq show ?thesis by auto
  qed
qed

section \<open>Orders and ranges\<close>

lemma order_loop_bound:
  assumes "units = 2 ^ n" "n \<le> CONFIG_BUDDY_MAX_ORDER" "\<forall>m < n. 2 ^ m < count"
  shows "(\<forall>m < order_loop units n count. 2 ^ m < count)
    \<and> (order_loop units n count = CONFIG_BUDDY_MAX_ORDER + 1 \<or>
       order_loop units n count \<le> CONFIG_BUDDY_MAX_ORDER \<and> count \<le> 2 ^ order_loop units n count)"
  using assms
proof (induction units n count rule: order_loop.induct)
  case (1 units n count)
  consider "units < count \<and> n < CONFIG_BUDDY_MAX_ORDER" | "units < count" "n = CONFIG_BUDDY_MAX_ORDER" | "count \<le> units"
    using 1 by linarith
  then show ?case
  proof cases
    case 1
    have "order_loop units n count = order_loop (2 * units) (n + 1) count"
      by (subst order_loop.simps) (simp only: 1 simp_thms if_True)
    moreover have "\<forall>m < n + 1. 2 ^ m < count" using "1.prems" 1 by (auto simp: less_Suc_eq)
    ultimately show ?thesis using "1.IH" [OF 1] "1.prems" 1 by simp
  next
    case 2
    then have "order_loop units n count = CONFIG_BUDDY_MAX_ORDER + 1" by (subst order_loop.simps) simp
    moreover have "\<forall>m < n + 1. 2 ^ m < count" using "1.prems" 2(1) by (auto simp: less_Suc_eq)
    ultimately show ?thesis using 2(2) by simp
  next
    case 3
    then have "order_loop units n count = n" by (subst order_loop.simps) simp
    then show ?thesis using "1.prems" 3 by simp
  qed
qed

lemma order_for_units:
  assumes "0 < count"
  shows "\<forall>m < buddy_order_for_units count. 2 ^ m < count"
    "buddy_order_for_units count = CONFIG_BUDDY_MAX_ORDER + 1 \<or>
     buddy_order_for_units count \<le> CONFIG_BUDDY_MAX_ORDER \<and> count \<le> 2 ^ buddy_order_for_units count"
  using order_loop_bound [of 1 0 count] assms by (simp_all add: buddy_order_for_units_def)

lemma align_order: "align_order start n \<le> n \<and> 2 ^ align_order start n dvd start"
  by (induction n) (auto simp: order_units_def simp del: power_Suc)

lemma range_order:
  assumes "0 < count"
  shows "range_order a start count \<le> max_order a" "2 ^ range_order a start count \<le> count"
    "2 ^ range_order a start count dvd start"
proof -
  define n where "n = min (buddy_order_for_units count) (max_order a)"
  define n' where "n' = (if 2 ^ n > count then n - 1 else n)"
  have eq: "range_order a start count = align_order start n'"
    by (simp add: range_order_def n'_def n_def order_units_def Let_def min_def)
  have "n' \<le> n" "2 ^ n' \<le> count"
  proof -
    have "n \<noteq> 0" if "2 ^ n > count" using that assms by (cases n) auto
    then have "n - 1 < buddy_order_for_units count" if "2 ^ n > count" using that by (auto simp: n_def)
    then have "2 ^ (n - 1) < count" if "2 ^ n > count" using order_for_units(1) [OF assms] that by blast
    then show "n' \<le> n" "2 ^ n' \<le> count" by (auto simp: n'_def)
  qed
  moreover have "align_order start n' \<le> n'" "2 ^ align_order start n' dvd start" using align_order by blast+
  ultimately show "range_order a start count \<le> max_order a" "2 ^ range_order a start count dvd start"
    "2 ^ range_order a start count \<le> count"
    unfolding eq by (auto simp: n_def intro: le_trans [of _ "2 ^ n'"] power_increasing)
qed

lemma set_range_eq:
  "i + n \<le> page_count a \<Longrightarrow>
   set_range a i n f = Some (a\<lparr>pages := \<lambda>j. if i \<le> j \<and> j < i + n then f (pages a j) else pages a j\<rparr>)"
proof (induction n arbitrary: a i)
  case 0
  have "(\<lambda>j. if i \<le> j \<and> j < i + 0 then f (pages a j) else pages a j) = pages a" by (auto simp: fun_eq_iff)
  then show ?case by (simp only: set_range.simps) simp
next
  case (Suc n)
  then show ?case by (auto simp: set_page_def fun_eq_iff intro!: arg_cong [of _ _ "\<lambda>p. a\<lparr>pages := p\<rparr>"])
qed

lemma all_range_eq:
  "i + n \<le> page_count a \<Longrightarrow> all_range a i n P = Some (\<forall>j. i \<le> j \<and> j < i + n \<longrightarrow> P (pages a j))"
proof (induction n arbitrary: i)
  case (Suc n)
  then have "all_range a (Suc i) n P = Some (\<forall>j. Suc i \<le> j \<and> j < Suc i + n \<longrightarrow> P (pages a j))" by simp
  with Suc.prems show ?case by (auto simp: get_page_def) (metis Suc_leI le_neq_implies_less)+
qed auto

lemma add_range_loop_spec:
  assumes "buddy_inv a fl" "start + count \<le> page_count a"
    "\<forall>j. start \<le> j \<and> j < start + count \<longrightarrow> pg_state (pages a j) = BUDDY_PAGE_RESERVED \<and> j \<notin> free_set fl"
  shows "\<exists>b fl'. add_range_loop a start count = Some b \<and> buddy_inv b fl'
    \<and> free_set fl' = free_set fl \<union> {start ..< start + count} \<and> page_frame (free_set fl \<union> {start ..< start + count}) a b"
  using assms
proof (induction count arbitrary: a fl start rule: less_induct)
  case (less count)
  note inv = less.prems(1)
  show ?case
  proof (cases "count = 0")
    case True
    with inv show ?thesis by (auto simp: add_range_loop.simps [of a start 0])
  next
    case False
    define n where "n = range_order a start count"
    have n: "n \<le> max_order a" "2 ^ n \<le> count" "2 ^ n dvd start" using range_order False by (auto simp: n_def)
    have split: "{start ..< start + count} = {start ..< start + 2 ^ n} \<union> {start + 2 ^ n ..< start + count}"
      using n(2) by auto
    have "fresh_block a fl start n" using less.prems n by (simp add: fresh_block_def)
    from add_block_spec [OF inv this] obtain c fl1 where c: "add_block a start n = Some c" "buddy_inv c fl1"
      "free_set fl1 = free_set fl \<union> {start ..< start + 2 ^ n}" "page_frame (free_set fl \<union> {start ..< start + 2 ^ n}) a c"
      by blast
    have eqn: "add_range_loop a start count = add_range_loop c (start + 2 ^ n) (count - 2 ^ n)"
      using False c(1) by (simp add: add_range_loop.simps [of a start count] n_def [symmetric] order_units_def Let_def)
    have rest: "start + 2 ^ n + (count - 2 ^ n) = start + count" using n(2) by simp
    have "\<exists>b fl'. add_range_loop c (start + 2 ^ n) (count - 2 ^ n) = Some b \<and> buddy_inv b fl'
        \<and> free_set fl' = free_set fl1 \<union> {start + 2 ^ n ..< start + count}
        \<and> page_frame (free_set fl1 \<union> {start + 2 ^ n ..< start + count}) c b"
      using less.IH [of "count - 2 ^ n" c fl1 "start + 2 ^ n"] False less.prems c n(2) unfolding rest
      by (simp add: page_frame_def)
    then obtain b fl' where b: "add_range_loop a start count = Some b" "buddy_inv b fl'"
        "free_set fl' = free_set fl \<union> {start ..< start + count}" "page_frame (free_set fl \<union> {start ..< start + count}) c b"
      unfolding eqn c(3) split by (auto simp: Un_assoc)
    moreover have "page_frame (free_set fl \<union> {start ..< start + count}) a b"
      by (rule page_frame_trans [OF c(4) b(4)]) (auto simp: split)
    ultimately show ?thesis by blast
  qed
qed

lemma add_range_spec:
  assumes inv: "buddy_inv a fl" and r: "0 < count" "start + count \<le> page_count a"
    "\<forall>j. start \<le> j \<and> j < start + count \<longrightarrow> pg_state (pages a j) = BUDDY_PAGE_RESERVED \<and> j \<notin> free_set fl"
  shows "\<exists>b fl'. buddy_add_range a start count = Some (EOK, b) \<and> buddy_inv b fl'
    \<and> free_set fl' = free_set fl \<union> {start ..< start + count} \<and> page_frame (free_set fl \<union> {start ..< start + count}) a b"
proof -
  from add_range_loop_spec [OF inv r(2,3)] obtain b fl' where
    "add_range_loop a start count = Some b" "buddy_inv b fl'"
    "free_set fl' = free_set fl \<union> {start ..< start + count}" "page_frame (free_set fl \<union> {start ..< start + count}) a b"
    by blast
  moreover have "all_range a start count (\<lambda>p. pg_state p = BUDDY_PAGE_RESERVED) = Some True"
    using all_range_eq [OF r(2)] r(3) by simp
  ultimately show ?thesis using r(1,2) by (auto simp: buddy_add_range_def)
qed

section \<open>Changes outside the free blocks\<close>

lemma buddy_inv_outside:
  assumes inv: "buddy_inv a fl"
    and b: "b = a\<lparr>pages := P\<rparr>"
    and links: "\<And>j. pg_next (P j) = pg_next (pages a j) \<and> pg_prev (P j) = pg_prev (pages a j)"
    and free: "\<And>j. j \<in> free_set fl \<Longrightarrow> pg_state (P j) = pg_state (pages a j) \<and> pg_order (P j) = pg_order (pages a j)"
    and nofree: "\<And>j. j < page_count a \<Longrightarrow> j \<notin> free_set fl \<Longrightarrow> pg_state (P j) \<noteq> BUDDY_PAGE_FREE_HEAD"
    and alloc: "\<And>j. j < page_count a \<Longrightarrow> pg_state (P j) = BUDDY_PAGE_ALLOC_HEAD \<Longrightarrow> alloc_block b j (pg_order (P j))"
  shows "buddy_inv b fl"
proof -
  have "free_lists_ok b fl" using inv links by (simp add: buddy_inv_def free_lists_ok_def b)
  moreover have "free_block b i n" if i: "i \<in> set (fl n)" for i n
  proof -
    have s: "{i ..< i + 2 ^ n} \<subseteq> free_set fl" using i by (rule free_set_block)
    have "pg_state (P j) = pg_state (pages a j) \<and> pg_order (P j) = pg_order (pages a j)"
      if "i \<le> j" "j < i + 2 ^ n" for j
      by (rule free) (use s that in auto)
    then show ?thesis using free_listD [OF inv i] by (simp add: free_block_def b)
  qed
  moreover have "i \<in> set (fl (pg_order (P i)))" if "i < page_count a" "pg_state (P i) = BUDDY_PAGE_FREE_HEAD" for i
  proof -
    have "i \<in> free_set fl" using nofree [of i] that by blast
    then show ?thesis using free [of i] free_head_iff [OF inv, of i "pg_order (pages a i)"] that by metis
  qed
  ultimately show ?thesis using inv alloc by (simp add: buddy_inv_def blocks_ok_def b)
qed

lemma alloc_blockD:
  "buddy_inv a fl \<Longrightarrow> i < page_count a \<Longrightarrow> pg_state (pages a i) = BUDDY_PAGE_ALLOC_HEAD
   \<Longrightarrow> alloc_block a i (pg_order (pages a i))"
  by (simp add: buddy_inv_def blocks_ok_def)

lemma alloc_blocks_disjoint:
  assumes "alloc_block a i n" "alloc_block a i' n'" "i \<le> j" "j < i + 2 ^ n" "i' \<le> j" "j < i' + 2 ^ n'"
  shows "i = i' \<and> n = n'"
proof -
  have "\<not> i < i'" "\<not> i' < i" using assms by (auto simp: alloc_block_def)
  then show ?thesis using assms by (auto simp: alloc_block_def)
qed

lemma alloc_block_pages:
  assumes "alloc_block a i n" "i \<le> j" "j < i + 2 ^ n"
  shows "pg_state (pages a j) = BUDDY_PAGE_ALLOC_HEAD \<or> pg_state (pages a j) = BUDDY_PAGE_ALLOC_TAIL"
  using assms by (cases "j = i") (auto simp: alloc_block_def)

lemma alloc_block_cong:
  assumes "alloc_block a i n" "page_count b = page_count a" "max_order b = max_order a"
    "\<And>j. i \<le> j \<Longrightarrow> j < i + 2 ^ n \<Longrightarrow> pg_state (pages b j) = pg_state (pages a j) \<and> pg_order (pages b j) = pg_order (pages a j)"
  shows "alloc_block b i n"
  using assms by (simp add: alloc_block_def)

lemma alloc_not_free:
  assumes "buddy_inv a fl" "alloc_block a i n" "i \<le> j" "j < i + 2 ^ n"
  shows "j \<notin> free_set fl"
  using free_set_state(2) [OF assms(1), of j] alloc_block_pages [OF assms(2-4)] by auto

section \<open>Allocation\<close>

lemma find_order_spec:
  "find_order a n \<ge> n \<and> (\<forall>m. n \<le> m \<and> m < find_order a n \<longrightarrow> free_head a m = BUDDY_INDEX_NONE)
   \<and> (find_order a n \<le> max_order a \<longrightarrow> free_head a (find_order a n) \<noteq> BUDDY_INDEX_NONE)"
proof (induction a n rule: find_order.induct)
  case (1 a n)
  show ?case
  proof (cases "n \<le> max_order a \<and> free_head a n = BUDDY_INDEX_NONE")
    case True
    then have "find_order a n = find_order a (n + 1)" by (simp add: find_order.simps [of a n])
    moreover have "n \<le> m \<longleftrightarrow> m = n \<or> n + 1 \<le> m" for m by linarith
    ultimately show ?thesis using 1 [OF True] True by auto
  next
    case False
    then have "find_order a n = n" by (subst find_order.simps) auto
    with False show ?thesis by auto
  qed
qed

lemma split_block_stop [simp]: "split_block a i n n = Some a"
  by (simp add: split_block.simps)

lemma split_block_spec:
  assumes "buddy_inv a fl" "fresh_block a fl i f" "n \<le> f"
  shows "\<exists>b fl'. split_block a i f n = Some b \<and> buddy_inv b fl' \<and> fresh_block b fl' i n
    \<and> free_set fl' = free_set fl \<union> {i + 2 ^ n ..< i + 2 ^ f} \<and> page_frame {i + 2 ^ n ..< i + 2 ^ f} a b"
  using assms
proof (induction f arbitrary: a fl)
  case 0
  then show ?case by auto
next
  case (Suc g)
  note inv = Suc.prems(1) and fr = Suc.prems(2)
  show ?case
  proof (cases "n = Suc g")
    case True
    with Suc.prems show ?thesis by auto
  next
    case False
    with Suc.prems have n: "n \<le> g" by simp
    have dv: "2 ^ g dvd i" "2 ^ Suc g dvd i" "\<not> bit i g" using fr
      by (auto simp: fresh_block_def bit_iff_odd elim!: dvdE dest: dvd_mult_right)
    have half: "fresh_block a fl (i + 2 ^ g) g" using fr dv by (auto simp: fresh_block_def)
    have "(i + 2 ^ g) XOR 2 ^ g = i" using xor_unit_twice [of i g] dv(3) by (simp add: xor_unit)
    then have "(i + 2 ^ g) XOR 2 ^ g \<notin> set (fl g)" using fresh_notin [OF fr] by simp
    with list_add_spec [OF inv half] obtain c where c: "list_add a (i + 2 ^ g) g = Some c"
      "buddy_inv c (fl(g := (i + 2 ^ g) # fl g))" "page_frame {i + 2 ^ g} a c" by blast
    have fr': "fresh_block c (fl(g := (i + 2 ^ g) # fl g)) i g"
      using fr dv(1) c(3) unfolding fresh_block_def free_set_add page_frame_def by auto
    have eqn: "split_block a i (Suc g) n = split_block c i g n"
      using n c(1) by (simp add: split_block.simps [of a i "Suc g" n] order_units_def)
    from Suc.IH [OF c(2) fr' n] obtain b fl' where b: "split_block a i (Suc g) n = Some b" "buddy_inv b fl'"
        "fresh_block b fl' i n" "free_set fl' = free_set fl \<union> {i + 2 ^ g ..< i + 2 ^ g + 2 ^ g} \<union> {i + 2 ^ n ..< i + 2 ^ g}"
        "page_frame {i + 2 ^ n ..< i + 2 ^ g} c b"
      unfolding eqn free_set_add by blast
    have iv: "{i + 2 ^ n ..< i + 2 ^ g} \<union> {i + 2 ^ g ..< i + 2 ^ Suc g} = {i + 2 ^ n ..< i + 2 ^ Suc g}"
      using n by (intro ivl_disj_un_two(3)) auto
    have "i + 2 ^ g \<in> {i + 2 ^ g ..< i + 2 ^ Suc g}" by simp
    then have sub: "{i + 2 ^ g} \<subseteq> {i + 2 ^ n ..< i + 2 ^ Suc g}" using iv by blast
    have "free_set fl' = free_set fl \<union> {i + 2 ^ n ..< i + 2 ^ Suc g}" unfolding b(4) iv [symmetric] by auto
    moreover have "page_frame {i + 2 ^ n ..< i + 2 ^ Suc g} a b"
      by (rule page_frame_trans [OF c(3) b(5) sub]) (use iv in blast)
    ultimately show ?thesis using b by blast
  qed
qed

definition mark_block :: "nat \<Rightarrow> nat \<Rightarrow> buddy_allocator \<Rightarrow> buddy_allocator" where
  "mark_block i n a = a\<lparr>pages := \<lambda>j.
     if j = i then (pages a j)\<lparr>pg_state := BUDDY_PAGE_ALLOC_HEAD, pg_order := n\<rparr>
     else if i < j \<and> j < i + 2 ^ n then (pages a j)\<lparr>pg_state := BUDDY_PAGE_ALLOC_TAIL, pg_order := 0\<rparr>
     else pages a j\<rparr>"

lemma mark_block_sizes [simp]:
  "page_count (mark_block i n a) = page_count a" "max_order (mark_block i n a) = max_order a"
  by (simp_all add: mark_block_def)

lemma mark_block_other: "j \<notin> {i ..< i + 2 ^ n} \<Longrightarrow> pages (mark_block i n a) j = pages a j"
  by (auto simp: mark_block_def)

lemma mark_block_spec:
  assumes inv: "buddy_inv a fl" and fr: "fresh_block a fl i n"
  shows "buddy_inv (mark_block i n a) fl" "alloc_block (mark_block i n a) i n"
    "page_frame {i ..< i + 2 ^ n} a (mark_block i n a)"
proof -
  show new: "alloc_block (mark_block i n a) i n" using fr by (auto simp: fresh_block_def alloc_block_def mark_block_def)
  have out: "j \<notin> {i ..< i + 2 ^ n}" if "j \<in> free_set fl" for j using fr that by (auto simp: fresh_block_def)
  have old: "alloc_block (mark_block i n a) x (pg_order (pages a x))"
    if "x < page_count a" "x \<notin> {i ..< i + 2 ^ n}" "pg_state (pages a x) = BUDDY_PAGE_ALLOC_HEAD" for x
  proof -
    have al: "alloc_block a x (pg_order (pages a x))" using alloc_blockD [OF inv that(1,3)] .
    have "j \<notin> {i ..< i + 2 ^ n}" if "x \<le> j" "j < x + 2 ^ pg_order (pages a x)" for j
      using alloc_block_pages [OF al that] fr by (auto simp: fresh_block_def)
    then show ?thesis by (intro alloc_block_cong [OF al]) (simp_all add: mark_block_other)
  qed
  show "buddy_inv (mark_block i n a) fl"
  proof (rule buddy_inv_outside [OF inv mark_block_def], goal_cases)
    case (4 j)
    then show ?case using new old [of j] by (auto split: if_splits)
  next
    case (3 j)
    then show ?case using inv free_set_block [of j fl "pg_order (pages a j)"]
      by (fastforce simp: buddy_inv_def blocks_ok_def split: if_splits)
  next
    case (2 j)
    then show ?case using out [of j] out [of i] by auto
  qed auto
  show "page_frame {i ..< i + 2 ^ n} a (mark_block i n a)" by (auto simp: page_frame_def mark_block_def)
qed

lemma fresh_removed:
  assumes inv: "buddy_inv a fl" and i: "i \<in> set (fl n)" and fr: "page_frame {i} a b"
    and st: "pg_state (pages b i) = BUDDY_PAGE_RESERVED"
  shows "fresh_block b (fl(n := remove1 i (fl n))) i n"
proof -
  have fb: "free_block a i n" using free_listD [OF inv i] .
  have "pg_state (pages b j) = BUDDY_PAGE_RESERVED" if "i \<le> j" "j < i + 2 ^ n" for j
    using that fb fr st by (cases "j = i") (auto simp: free_block_def page_frame_def)
  then show ?thesis using fb fr by (simp add: fresh_block_def free_block_def page_frame_def free_set_remove [OF inv i])
qed

lemma mark_block_eq:
  assumes "fresh_block a fl i n" "n \<le> CONFIG_BUDDY_MAX_ORDER"
  shows "do {
      a \<leftarrow> set_page a (int i) (\<lambda>p. p\<lparr>pg_state := BUDDY_PAGE_ALLOC_HEAD, pg_order := n mod 256\<rparr>);
      a \<leftarrow> set_range a (i + 1) (order_units n - 1) (\<lambda>p. p\<lparr>pg_state := BUDDY_PAGE_ALLOC_TAIL, pg_order := 0\<rparr>);
      Some (Some i, a) } = Some (Some i, mark_block i n a)"
proof -
  define c where "c = a\<lparr>pages := (pages a)(i := (pages a i)\<lparr>pg_state := BUDDY_PAGE_ALLOC_HEAD, pg_order := n\<rparr>)\<rparr>"
  have one: "(1 :: nat) \<le> 2 ^ n" by simp
  have bnd: "i + 2 ^ n \<le> page_count a" using assms by (simp add: fresh_block_def)
  then have "i < page_count a" by (rule less_le_trans [rotated]) simp
  then have "set_page a (int i) (\<lambda>p. p\<lparr>pg_state := BUDDY_PAGE_ALLOC_HEAD, pg_order := n mod 256\<rparr>) = Some c"
    using assms(2) by (simp add: set_page_def c_def)
  moreover have "set_range c (i + 1) (order_units n - 1) (\<lambda>p. p\<lparr>pg_state := BUDDY_PAGE_ALLOC_TAIL, pg_order := 0\<rparr>)
      = Some (mark_block i n a)"
    using bnd one unfolding order_units_def
    by (subst set_range_eq) (auto simp: c_def mark_block_def fun_eq_iff intro!: arg_cong [of _ _ "\<lambda>p. a\<lparr>pages := p\<rparr>"])
  ultimately show ?thesis by simp
qed

lemma buddy_alloc_spec:
  assumes inv: "buddy_inv a fl"
  shows "(buddy_alloc a n = Some (None, a) \<and> (\<forall>m. n \<le> m \<longrightarrow> fl m = []))
    \<or> (\<exists>i b fl'. buddy_alloc a n = Some (Some i, b) \<and> buddy_inv b fl' \<and> alloc_block b i n
         \<and> {i ..< i + 2 ^ n} \<subseteq> free_set fl \<and> free_set fl' = free_set fl - {i ..< i + 2 ^ n}
         \<and> page_frame (free_set fl) a b)"
proof -
  define f where "f = find_order a n"
  have f: "n \<le> f" "\<And>m. n \<le> m \<Longrightarrow> m < f \<Longrightarrow> free_head a m = BUDDY_INDEX_NONE"
    "f \<le> max_order a \<Longrightarrow> free_head a f \<noteq> BUDDY_INDEX_NONE"
    using find_order_spec [of n a] by (auto simp: f_def)
  have hd: "free_head a m = (if fl m = [] then BUDDY_INDEX_NONE else int (hd (fl m)))" if "m \<le> max_order a" for m
    using dseg_head [OF inv_lists(1) [OF inv that]] .
  show ?thesis
  proof (cases "f \<le> max_order a")
    case False
    then have "fl m = []" if "n \<le> m" for m
      using f(2) [OF that] hd [of m] inv by (cases "m \<le> max_order a") (auto simp: buddy_inv_def free_lists_ok_def split: if_splits)
    moreover have "buddy_alloc a n = Some (None, a)" using False by (auto simp: buddy_alloc_def f_def [symmetric] Let_def)
    ultimately show ?thesis by blast
  next
    case True
    define i where "i = hd (fl f)"
    have h: "free_head a f = int i" "fl f \<noteq> []" using f(3) [OF True] hd [OF True] by (auto simp: i_def split: if_splits)
    then have i: "i \<in> set (fl f)" by (simp add: i_def)
    from list_remove_spec [OF inv i] obtain c where c: "list_remove a i f = Some c"
      "buddy_inv c (fl(f := remove1 i (fl f)))" "page_frame {i} a c" "pg_state (pages c i) = BUDDY_PAGE_RESERVED" by blast
    note fr = fresh_removed [OF inv i c(3,4)]
    from split_block_spec [OF c(2) fr f(1)] obtain d fl' where d: "split_block c i f n = Some d" "buddy_inv d fl'"
      "fresh_block d fl' i n" "free_set fl' = (free_set fl - {i ..< i + 2 ^ f}) \<union> {i + 2 ^ n ..< i + 2 ^ f}"
      "page_frame {i + 2 ^ n ..< i + 2 ^ f} c d"
      unfolding free_set_remove [OF inv i] by blast
    have sub: "{i ..< i + 2 ^ f} \<subseteq> free_set fl" using i by (rule free_set_block)
    have "(2 :: nat) ^ n \<le> 2 ^ f" using f(1) by (rule power_increasing) simp
    then have iv: "{i ..< i + 2 ^ n} \<union> {i + 2 ^ n ..< i + 2 ^ f} = {i ..< i + 2 ^ f}"
      "{i ..< i + 2 ^ n} \<inter> {i + 2 ^ n ..< i + 2 ^ f} = {}"
      by (intro ivl_disj_un_two(3)) auto
    have "buddy_alloc a n = do { a \<leftarrow> set_page d (int i) (\<lambda>p. p\<lparr>pg_state := BUDDY_PAGE_ALLOC_HEAD, pg_order := n mod 256\<rparr>);
        a \<leftarrow> set_range a (i + 1) (order_units n - 1) (\<lambda>p. p\<lparr>pg_state := BUDDY_PAGE_ALLOC_TAIL, pg_order := 0\<rparr>);
        Some (Some i, a) }"
      using True f(1) c(1) d(1) by (simp add: buddy_alloc_def f_def [symmetric] h Let_def)
    also have "\<dots> = Some (Some i, mark_block i n d)"
      by (rule mark_block_eq [OF d(3)]) (use f(1) True inv_sizes [OF inv] in linarith)
    finally have run: "buddy_alloc a n = Some (Some i, mark_block i n d)" .
    have "free_set fl' = free_set fl - {i ..< i + 2 ^ n}" "{i ..< i + 2 ^ n} \<subseteq> free_set fl"
      using d(4) iv sub by blast+
    moreover have "{i} \<subseteq> free_set fl" using sub by auto
    then have "page_frame (free_set fl) a d"
      by (rule page_frame_trans [OF c(3) d(5)]) (use sub iv in blast)
    then have "page_frame (free_set fl) a (mark_block i n d)"
      by (rule page_frame_trans [OF _ mark_block_spec(3) [OF d(2,3)]]) (use sub iv in auto)
    ultimately show ?thesis using run mark_block_spec(1,2) [OF d(2,3)] by blast
  qed
qed

section \<open>Release\<close>

definition owner_frame :: "nat set \<Rightarrow> buddy_allocator \<Rightarrow> buddy_allocator \<Rightarrow> bool" where
  "owner_frame S a b \<longleftrightarrow> page_count b = page_count a \<and> max_order b = max_order a
     \<and> (\<forall>j. pg_reserved (pages b j) = pg_reserved (pages a j)
          \<and> (j \<notin> S \<longrightarrow> pg_tag (pages b j) = pg_tag (pages a j)
               \<and> pg_state (pages b j) = pg_state (pages a j) \<and> pg_order (pages b j) = pg_order (pages a j)))"

lemma page_frame_owner: "page_frame S a b \<Longrightarrow> owner_frame S a b"
  by (simp add: page_frame_def owner_frame_def)

lemma owner_frame_trans:
  "owner_frame S a b \<Longrightarrow> owner_frame T b c \<Longrightarrow> S \<subseteq> U \<Longrightarrow> T \<subseteq> U \<Longrightarrow> owner_frame U a c"
  unfolding owner_frame_def by (metis subsetD)

lemma owner_frame_mono: "owner_frame S a b \<Longrightarrow> S \<subseteq> T \<Longrightarrow> owner_frame T a b"
  unfolding owner_frame_def by blast

definition on_range :: "nat \<Rightarrow> nat \<Rightarrow> (buddy_page \<Rightarrow> buddy_page) \<Rightarrow> buddy_allocator \<Rightarrow> buddy_allocator" where
  "on_range i len f a = a\<lparr>pages := \<lambda>j. if i \<le> j \<and> j < i + len then f (pages a j) else pages a j\<rparr>"

lemma on_range_sizes [simp]:
  "page_count (on_range i len f a) = page_count a" "max_order (on_range i len f a) = max_order a"
  by (simp_all add: on_range_def)

lemma on_range_pages:
  "pages (on_range i len f a) j = (if i \<le> j \<and> j < i + len then f (pages a j) else pages a j)"
  by (simp add: on_range_def)

lemma on_range_frame:
  "(\<And>p. pg_reserved (f p) = pg_reserved p) \<Longrightarrow> owner_frame {i ..< i + len} a (on_range i len f a)"
  by (auto simp: owner_frame_def on_range_pages)

lemma reset_page_simps [simp]:
  "pg_state (reset_page p) = BUDDY_PAGE_RESERVED" "pg_order (reset_page p) = 0" "pg_tag (reset_page p) = 0"
  "pg_next (reset_page p) = pg_next p" "pg_prev (reset_page p) = pg_prev p" "pg_reserved (reset_page p) = pg_reserved p"
  by (simp_all add: reset_page_def)

lemma other_alloc_block:
  assumes inv: "buddy_inv a fl" and al: "alloc_block a i n" and x: "x < page_count a" "x \<notin> {i ..< i + 2 ^ n}"
    "pg_state (pages a x) = BUDDY_PAGE_ALLOC_HEAD"
    and b: "page_count b = page_count a" "max_order b = max_order a"
    "\<And>j. j \<notin> {i ..< i + 2 ^ n} \<Longrightarrow> pg_state (pages b j) = pg_state (pages a j) \<and> pg_order (pages b j) = pg_order (pages a j)"
  shows "alloc_block b x (pg_order (pages a x))"
proof (rule alloc_block_cong [OF alloc_blockD [OF inv x(1,3)] b(1,2)])
  fix j assume j: "x \<le> j" "j < x + 2 ^ pg_order (pages a x)"
  show "pg_state (pages b j) = pg_state (pages a j) \<and> pg_order (pages b j) = pg_order (pages a j)"
    using alloc_blocks_disjoint [OF al alloc_blockD [OF inv x(1,3)], of j] j x(2) by (intro b(3)) auto
qed

lemma reset_spec:
  assumes inv: "buddy_inv a fl" and al: "alloc_block a i n"
  shows "buddy_inv (on_range i (2 ^ n) reset_page a) fl" "fresh_block (on_range i (2 ^ n) reset_page a) fl i n"
proof -
  let ?b = "on_range i (2 ^ n) reset_page a"
  have out: "j \<notin> {i ..< i + 2 ^ n}" if "j \<in> free_set fl" for j
    using alloc_not_free [OF inv al, of j] that by auto
  show "buddy_inv ?b fl"
  proof (rule buddy_inv_outside [OF inv on_range_def], goal_cases)
    case (3 j)
    then show ?case using free_head_iff [OF inv, of j "pg_order (pages a j)"] free_set_block [of j fl "pg_order (pages a j)"]
      by (fastforce split: if_splits)
  next
    case (4 j)
    then have "j \<notin> {i ..< i + 2 ^ n}" "pg_state (pages a j) = BUDDY_PAGE_ALLOC_HEAD" by (auto split: if_splits)
    then have "alloc_block ?b j (pg_order (pages a j))"
      using 4(1) by (intro other_alloc_block [OF inv al]) (auto simp: on_range_pages)
    then show ?case using \<open>j \<notin> {i ..< i + 2 ^ n}\<close> by auto
  qed (use out in auto)
  show "fresh_block ?b fl i n"
    using al alloc_not_free [OF inv al] by (simp add: fresh_block_def alloc_block_def on_range_pages)
qed

lemma alloc_checks:
  assumes inv: "buddy_inv a fl" and i: "i < page_count a"
    "pg_state (pages a i) = BUDDY_PAGE_ALLOC_HEAD" "pg_order (pages a i) = n"
  shows "alloc_block a i n" "n \<le> max_order a" "2 ^ n dvd i" "i + 2 ^ n \<le> page_count a"
    "all_range a (i + 1) (order_units n - 1) (\<lambda>p. pg_state p = BUDDY_PAGE_ALLOC_TAIL) = Some True"
proof -
  show al: "alloc_block a i n" using alloc_blockD [OF inv i(1,2)] i(3) by simp
  then show b: "n \<le> max_order a" "2 ^ n dvd i" "i + 2 ^ n \<le> page_count a" by (simp_all add: alloc_block_def)
  have "(1 :: nat) \<le> 2 ^ n" by simp
  with b(3) have e: "i + 1 + (2 ^ n - 1) = i + 2 ^ n" by linarith
  show "all_range a (i + 1) (order_units n - 1) (\<lambda>p. pg_state p = BUDDY_PAGE_ALLOC_TAIL) = Some True"
    using al b(3) all_range_eq [of "i + 1" "2 ^ n - 1" a] unfolding e order_units_def by (auto simp: alloc_block_def)
qed

lemma buddy_free_spec:
  assumes inv: "buddy_inv a fl"
  shows "if i < page_count a \<and> pg_state (pages a i) = BUDDY_PAGE_ALLOC_HEAD \<and> pg_order (pages a i) = n
    then alloc_block a i n \<and> (\<exists>b fl'. buddy_free a i n = Some (EOK, b) \<and> buddy_inv b fl'
      \<and> free_set fl' = free_set fl \<union> {i ..< i + 2 ^ n} \<and> owner_frame (free_set fl \<union> {i ..< i + 2 ^ n}) a b)
    else buddy_free a i n = Some (ERR EINVAL, a)"
proof (cases "i < page_count a \<and> pg_state (pages a i) = BUDDY_PAGE_ALLOC_HEAD \<and> pg_order (pages a i) = n")
  case True
  then have i: "i < page_count a" "pg_state (pages a i) = BUDDY_PAGE_ALLOC_HEAD" "pg_order (pages a i) = n" by auto
  note ch = alloc_checks [OF inv i]
  let ?c = "on_range i (2 ^ n) reset_page a"
  have "set_range a i (order_units n) reset_page = Some ?c"
    using set_range_eq [OF ch(4)] by (simp add: on_range_def order_units_def)
  moreover from add_block_spec [OF reset_spec [OF inv ch(1)]] obtain b fl' where b: "add_block ?c i n = Some b"
    "buddy_inv b fl'" "free_set fl' = free_set fl \<union> {i ..< i + 2 ^ n}" "page_frame (free_set fl \<union> {i ..< i + 2 ^ n}) ?c b" by blast
  ultimately have "buddy_free a i n = Some (EOK, b)"
    using i ch(2-5) by (simp add: buddy_free_def Let_def) (simp add: order_units_def)
  moreover have "owner_frame (free_set fl \<union> {i ..< i + 2 ^ n}) a b"
    by (rule owner_frame_trans [OF on_range_frame page_frame_owner [OF b(4)]]) auto
  ultimately show ?thesis using True ch(1) b(2,3) by auto
next
  case False
  then have "buddy_free a i n = Some (ERR EINVAL, a)" by (auto simp: buddy_free_def Let_def)
  with False show ?thesis by simp
qed

definition keep_page :: "buddy_page \<Rightarrow> buddy_page" where
  "keep_page p = p\<lparr>pg_state := BUDDY_PAGE_ALLOC_HEAD, pg_order := 0\<rparr>"

lemma keep_page_simps [simp]:
  "pg_state (keep_page p) = BUDDY_PAGE_ALLOC_HEAD" "pg_order (keep_page p) = 0" "pg_tag (keep_page p) = pg_tag p"
  "pg_next (keep_page p) = pg_next p" "pg_prev (keep_page p) = pg_prev p" "pg_reserved (keep_page p) = pg_reserved p"
  by (simp_all add: keep_page_def)

lemma keep_page_abs: "(\<lambda>p. p\<lparr>pg_state := BUDDY_PAGE_ALLOC_HEAD, pg_order := 0\<rparr>) = keep_page"
  by (simp add: fun_eq_iff keep_page_def)

lemma keep_spec:
  assumes inv: "buddy_inv a fl" and fr: "fresh_block a fl i n" and k: "keep \<le> 2 ^ n"
  shows "buddy_inv (on_range i keep keep_page a) fl"
proof -
  let ?b = "on_range i keep keep_page a"
  have fr': "j < page_count a \<and> pg_state (pages a j) = BUDDY_PAGE_RESERVED \<and> j \<notin> free_set fl" if "i \<le> j" "j < i + 2 ^ n" for j
    using fr that by (auto simp: fresh_block_def)
  have inb: "j < page_count a \<and> pg_state (pages a j) = BUDDY_PAGE_RESERVED \<and> j \<notin> free_set fl" if "i \<le> j" "j < i + keep" for j
    using fr' [of j] that k by simp
  show ?thesis
  proof (rule buddy_inv_outside [OF inv on_range_def], goal_cases)
    case (2 j)
    then show ?case using inb [of j] by auto
  next
    case (3 j)
    then show ?case using free_head_iff [OF inv, of j "pg_order (pages a j)"] free_set_block [of j fl "pg_order (pages a j)"]
      by (fastforce split: if_splits)
  next
    case (4 j)
    show ?case
    proof (cases "i \<le> j \<and> j < i + keep")
      case True
      with 4(1) show ?thesis by (auto simp: alloc_block_def on_range_pages)
    next
      case False
      with 4 have al: "alloc_block a j (pg_order (pages a j))" using alloc_blockD [OF inv] by auto
      have "alloc_block ?b j (pg_order (pages a j))"
      proof (rule alloc_block_cong [OF al])
        fix x assume "j \<le> x" "x < j + 2 ^ pg_order (pages a j)"
        then have "\<not> (i \<le> x \<and> x < i + keep)" using alloc_block_pages [OF al, of x] inb [of x] by auto
        then show "pg_state (pages ?b x) = pg_state (pages a x) \<and> pg_order (pages ?b x) = pg_order (pages a x)"
          by (auto simp: on_range_pages)
      qed simp_all
      then show ?thesis using False by auto
    qed
  qed auto
qed

lemma buddy_trim_spec:
  assumes inv: "buddy_inv a fl"
  shows "if i < page_count a \<and> pg_state (pages a i) = BUDDY_PAGE_ALLOC_HEAD \<and> pg_order (pages a i) = n
      \<and> 0 < keep \<and> keep \<le> 2 ^ n
    then \<exists>b fl'. buddy_trim_allocation a i n keep = Some (EOK, b) \<and> buddy_inv b fl'
      \<and> free_set fl' = free_set fl \<union> {i + keep ..< i + 2 ^ n}
      \<and> (\<forall>j. i \<le> j \<and> j < i + keep \<longrightarrow> alloc_block b j 0 \<and> pg_tag (pages b j) = 0 \<and> pg_reserved (pages b j) = pg_reserved (pages a j))
      \<and> owner_frame (free_set fl \<union> {i ..< i + 2 ^ n}) a b
    else buddy_trim_allocation a i n keep = Some (ERR EINVAL, a)"
proof (cases "i < page_count a \<and> pg_state (pages a i) = BUDDY_PAGE_ALLOC_HEAD \<and> pg_order (pages a i) = n
      \<and> 0 < keep \<and> keep \<le> 2 ^ n")
  case True
  then have i: "i < page_count a" "pg_state (pages a i) = BUDDY_PAGE_ALLOC_HEAD" "pg_order (pages a i) = n"
    and k: "0 < keep" "keep \<le> 2 ^ n" by auto
  note ch = alloc_checks [OF inv i]
  define c where "c = on_range i (2 ^ n) reset_page a"
  define d where "d = on_range i keep keep_page c"
  have c: "set_range a i (order_units n) reset_page = Some c" "buddy_inv c fl" "fresh_block c fl i n"
    using set_range_eq [OF ch(4)] reset_spec [OF inv ch(1)] by (simp_all add: on_range_def order_units_def c_def)
  have pc: "page_count c = page_count a" by (simp add: c_def)
  have d: "set_range c i keep (\<lambda>p. p\<lparr>pg_state := BUDDY_PAGE_ALLOC_HEAD, pg_order := 0\<rparr>) = Some d" "buddy_inv d fl"
    using set_range_eq [of i keep c keep_page] pc ch(4) k(2) keep_spec [OF c(2,3) k(2)]
    unfolding keep_page_abs by (simp_all add: on_range_def d_def)
  have run: "buddy_trim_allocation a i n keep
      = (if keep < 2 ^ n then buddy_add_range d (i + keep) (2 ^ n - keep) else Some (EOK, d))"
    using i k ch(2-5) c(1) d(1) by (simp add: buddy_trim_allocation_def Let_def) (auto simp: order_units_def)
  have rest: "i + keep + (2 ^ n - keep) = i + 2 ^ n" using k(2) by simp
  have "\<exists>b fl'. buddy_trim_allocation a i n keep = Some (EOK, b) \<and> buddy_inv b fl'
      \<and> free_set fl' = free_set fl \<union> {i + keep ..< i + 2 ^ n} \<and> page_frame (free_set fl \<union> {i + keep ..< i + 2 ^ n}) d b"
  proof (cases "keep < 2 ^ n")
    case True
    have "pg_state (pages d j) = BUDDY_PAGE_RESERVED \<and> j \<notin> free_set fl" if "i + keep \<le> j" "j < i + 2 ^ n" for j
      using c(3) that by (auto simp: fresh_block_def d_def on_range_pages)
    then show ?thesis using add_range_spec [OF d(2), of "2 ^ n - keep" "i + keep"] True ch(4) unfolding run rest
      by (simp add: c_def d_def)
  qed (use d(2) run in auto)
  then obtain b fl' where b: "buddy_trim_allocation a i n keep = Some (EOK, b)" "buddy_inv b fl'"
    "free_set fl' = free_set fl \<union> {i + keep ..< i + 2 ^ n}" "page_frame (free_set fl \<union> {i + keep ..< i + 2 ^ n}) d b" by blast
  have "owner_frame {i ..< i + 2 ^ n} a d" unfolding d_def c_def
    by (rule owner_frame_trans [OF on_range_frame on_range_frame]) (use k(2) in auto)
  then have "owner_frame (free_set fl \<union> {i ..< i + 2 ^ n}) a b"
    by (rule owner_frame_trans [OF _ page_frame_owner [OF b(4)]]) auto
  moreover have "alloc_block b j 0 \<and> pg_tag (pages b j) = 0 \<and> pg_reserved (pages b j) = pg_reserved (pages a j)" if j: "i \<le> j" "j < i + keep" for j
  proof -
    have "j < page_count a" "j \<notin> free_set fl"
      using j k ch(4) alloc_not_free [OF inv ch(1), of j] by auto
    then have "pg_state (pages b j) = BUDDY_PAGE_ALLOC_HEAD" "pg_order (pages b j) = 0" "pg_tag (pages b j) = 0"
        "pg_reserved (pages b j) = pg_reserved (pages a j)" "page_count b = page_count a"
      using b(4) j k(2) by (auto simp: page_frame_def d_def c_def on_range_pages)
    then show ?thesis using \<open>j < page_count a\<close> by (auto simp: alloc_block_def)
  qed
  ultimately show ?thesis using True b by auto
next
  case False
  then have "buddy_trim_allocation a i n keep = Some (ERR EINVAL, a)"
    by (auto simp: buddy_trim_allocation_def Let_def order_units_def)
  with False show ?thesis by (simp only: if_False)
qed

end
