(* ===== verification/Buddy_Validate.thy ===== *)
theory Buddy_Validate
  imports Buddy_Ops
begin

text \<open>
  \<^verbatim>\<open>buddy_validate\<close> decides exactly whether the free lists are well formed: it is
  sound and complete for \<open>lists_valid\<close>, which every allocator with the invariant satisfies.
\<close>

section \<open>The walks on well-formed lists\<close>

lemma node_ok_inv:
  assumes inv: "buddy_inv a fl" and x: "x \<in> set (fl n)" and p: "pg_prev (pages a x) = previous"
  shows "node_ok a n x previous"
proof -
  have fb: "free_block a x n" using free_listD [OF inv x] .
  have "x XOR 2 ^ n \<notin> set (fl n)" if "n < max_order a"
    using inv x that by (simp add: buddy_inv_def coalesced_def)
  then have "\<not> (x XOR 2 ^ n < page_count a \<and> pg_state (pages a (x XOR 2 ^ n)) = BUDDY_PAGE_FREE_HEAD
      \<and> pg_order (pages a (x XOR 2 ^ n)) = n)" if "n < max_order a"
    using free_head_iff [OF inv] that by blast
  moreover have "pg_state (pages a (x + i)) \<noteq> BUDDY_PAGE_FREE_HEAD" if "i \<in> set [1..<2 ^ n]" for i
    using fb that by (auto simp: free_block_def)
  ultimately show ?thesis using fb p unfolding node_ok_def Let_def order_units_def list_all_iff free_block_def
    by (auto simp: and_units_iff)
qed

lemma node_in_list_inv:
  "dseg (\<lambda>i. pg_next (pages a i)) pv previous node xs \<Longrightarrow> wanted \<in> set xs \<Longrightarrow> set xs \<subseteq> {..< page_count a}
   \<Longrightarrow> length xs \<le> fuel \<Longrightarrow> node_in_list_loop a wanted node fuel"
proof (induction xs arbitrary: previous node fuel)
  case (Cons x xs)
  then obtain f where "fuel = Suc f" "length xs \<le> f" by (cases fuel) auto
  with Cons show ?case by auto
qed simp

lemma orders_sum: "sum_list (map f [0..<m + 1]) = (\<Sum>n \<le> m. f n)" for f :: "nat \<Rightarrow> nat"
  by (simp add: sum_list_distinct_conv_sum_set atLeast0_lessThan_Suc atMost_Suc [symmetric] lessThan_Suc_atMost [symmetric]
      atLeast0LessThan)

section \<open>What the validation decides\<close>

text \<open>
  The property \<^verbatim>\<open>buddy_validate\<close> checks, without the walk: there are lists, one per order,
  linked both ways, whose nodes are aligned blocks inside the array with no other free block
  inside and with a buddy that is not free at the same order; every page marked as a free head
  is on the list of its order, and the counters agree.
\<close>

definition head_ok :: "buddy_allocator \<Rightarrow> nat \<Rightarrow> nat \<Rightarrow> bool" where
  "head_ok a n x \<longleftrightarrow> x < page_count a \<and> pg_state (pages a x) = BUDDY_PAGE_FREE_HEAD \<and> pg_order (pages a x) = n
     \<and> 2 ^ n dvd x \<and> x + 2 ^ n \<le> page_count a
     \<and> (\<forall>j. x < j \<and> j < x + 2 ^ n \<longrightarrow> pg_state (pages a j) \<noteq> BUDDY_PAGE_FREE_HEAD)
     \<and> (n < max_order a \<longrightarrow> \<not> (x XOR 2 ^ n < page_count a \<and> pg_state (pages a (x XOR 2 ^ n)) = BUDDY_PAGE_FREE_HEAD
          \<and> pg_order (pages a (x XOR 2 ^ n)) = n))"

definition lists_valid :: "buddy_allocator \<Rightarrow> (nat \<Rightarrow> nat list) \<Rightarrow> bool" where
  "lists_valid a fl \<longleftrightarrow> 0 < page_count a \<and> max_order a \<le> CONFIG_BUDDY_MAX_ORDER
     \<and> (\<forall>n \<le> max_order a. dseg (\<lambda>i. pg_next (pages a i)) (\<lambda>i. pg_prev (pages a i)) BUDDY_INDEX_NONE (free_head a n) (fl n)
          \<and> distinct (fl n) \<and> free_count a n = length (fl n) \<and> (\<forall>x \<in> set (fl n). head_ok a n x))
     \<and> (\<forall>i < page_count a. pg_state (pages a i) = BUDDY_PAGE_FREE_HEAD
          \<longrightarrow> pg_order (pages a i) \<le> max_order a \<and> i \<in> set (fl (pg_order (pages a i))))
     \<and> free_pages a = (\<Sum>n \<le> max_order a. 2 ^ n * length (fl n))"

lemma node_ok_iff:
  assumes "x < page_count a"
  shows "node_ok a n x previous \<longleftrightarrow> head_ok a n x \<and> pg_prev (pages a x) = previous"
proof -
  have "list_all (\<lambda>i. \<not> pg_state (pages a (x + i)) = BUDDY_PAGE_FREE_HEAD) [1..<2 ^ n]
    \<longleftrightarrow> (\<forall>j. x < j \<and> j < x + 2 ^ n \<longrightarrow> pg_state (pages a j) \<noteq> BUDDY_PAGE_FREE_HEAD)"
    unfolding list_all_iff
  proof (intro iffI allI impI ballI)
    fix j assume a: "\<forall>i \<in> set [1..<2 ^ n]. \<not> pg_state (pages a (x + i)) = BUDDY_PAGE_FREE_HEAD" and j: "x < j \<and> j < x + 2 ^ n"
    then have "j - x \<in> set [1..<2 ^ n]" by auto
    with a j show "pg_state (pages a j) \<noteq> BUDDY_PAGE_FREE_HEAD" by fastforce
  qed auto
  moreover have "\<not> (x AND (2 ^ n - 1) \<noteq> 0 \<or> 2 ^ n > page_count a - x) \<longleftrightarrow> 2 ^ n dvd x \<and> x + 2 ^ n \<le> page_count a"
    using assms by (auto simp: and_units_iff)
  ultimately show ?thesis using assms unfolding node_ok_def head_ok_def Let_def order_units_def by blast
qed

lemma dseg_nth_prev:
  "dseg nx pv p h xs \<Longrightarrow> j < length xs \<Longrightarrow> pv (xs ! j) = (if j = 0 then p else int (xs ! (j - 1)))"
  by (induction xs arbitrary: p h j) (auto simp: nth_Cons split: nat.splits)

lemma dseg_prev_inj:
  assumes "dseg nx pv BUDDY_INDEX_NONE h xs"
  shows "i < j \<Longrightarrow> j < length xs \<Longrightarrow> xs ! i \<noteq> xs ! j"
proof (induction i arbitrary: j)
  case 0
  then have "pv (xs ! 0) = BUDDY_INDEX_NONE" "pv (xs ! j) = int (xs ! (j - 1))"
    using dseg_nth_prev [OF assms] by force+
  then show ?case by auto
next
  case (Suc i)
  from Suc.prems obtain k where k: "j = Suc k" "i < k" by (cases j) auto
  with Suc have "xs ! i \<noteq> xs ! k" by simp
  with k Suc.prems dseg_nth_prev [OF assms, of "Suc i"] dseg_nth_prev [OF assms, of j] show ?case by auto
qed

lemma dseg_distinct: "dseg nx pv BUDDY_INDEX_NONE h xs \<Longrightarrow> distinct xs"
  by (metis dseg_prev_inj distinct_conv_nth linorder_neqE_nat)

lemma validate_list_sound:
  "validate_list a n node previous count = Some c \<Longrightarrow>
   \<exists>xs. dseg (\<lambda>i. pg_next (pages a i)) (\<lambda>i. pg_prev (pages a i)) previous node xs \<and> c = count + length xs
     \<and> (\<forall>x \<in> set xs. head_ok a n x)"
proof (induction a n node previous count rule: validate_list.induct)
  case (1 a n node previous count)
  show ?case
  proof (cases "node = BUDDY_INDEX_NONE")
    case True
    with 1 show ?thesis by (intro exI [of _ "[]"]) (simp add: validate_list.simps)
  next
    case False
    with "1.prems" have s: "\<not> (node < 0 \<or> nat node \<ge> page_count a \<or> count > page_count a)"
      "\<not> \<not> node_ok a n (nat node) previous"
      "validate_list a n (pg_next (pages a (nat node))) node (count + 1) = Some c"
      by (simp_all add: validate_list.simps [of a n node previous count] split: if_splits)
    from "1.IH" [OF False s] obtain xs where
      "dseg (\<lambda>i. pg_next (pages a i)) (\<lambda>i. pg_prev (pages a i)) node (pg_next (pages a (nat node))) xs"
      "c = count + 1 + length xs" "\<forall>x \<in> set xs. head_ok a n x" by blast
    then show ?thesis using s node_ok_iff [of "nat node" a n previous] by (intro exI [of _ "nat node # xs"]) auto
  qed
qed

lemma validate_list_complete:
  "dseg (\<lambda>i. pg_next (pages a i)) (\<lambda>i. pg_prev (pages a i)) previous node xs \<Longrightarrow> \<forall>x \<in> set xs. head_ok a n x
    \<Longrightarrow> count + length xs \<le> page_count a + 1 \<Longrightarrow> validate_list a n node previous count = Some (count + length xs)"
proof (induction xs arbitrary: previous node count)
  case Nil
  then show ?case by (simp add: validate_list.simps)
next
  case (Cons x xs)
  then have x: "head_ok a n x" "pg_prev (pages a x) = previous" "node = int x" by simp_all
  then have "x < page_count a" by (simp add: head_ok_def)
  moreover from this have "node_ok a n x previous" using x by (simp add: node_ok_iff)
  ultimately have "validate_list a n node previous count = validate_list a n (pg_next (pages a x)) (int x) (count + 1)"
    using Cons.prems(3) x(3) by (subst validate_list.simps) simp
  also have "\<dots> = Some (count + 1 + length xs)" using Cons by (intro Cons.IH) auto
  finally show ?case by simp
qed

lemma node_in_list_sound:
  "dseg (\<lambda>i. pg_next (pages a i)) pv previous node xs \<Longrightarrow> node_in_list_loop a wanted node fuel \<Longrightarrow> wanted \<in> set xs"
proof (induction fuel arbitrary: previous node xs)
  case (Suc fuel)
  then show ?case by (cases xs) (auto split: if_splits)
qed simp

definition order_valid :: "buddy_allocator \<Rightarrow> nat \<Rightarrow> nat list \<Rightarrow> bool" where
  "order_valid a n xs \<longleftrightarrow>
     dseg (\<lambda>i. pg_next (pages a i)) (\<lambda>i. pg_prev (pages a i)) BUDDY_INDEX_NONE (free_head a n) xs
     \<and> distinct xs \<and> free_count a n = length xs \<and> (\<forall>x \<in> set xs. head_ok a n x)"

lemma order_valid_length: "order_valid a n xs \<Longrightarrow> length xs \<le> page_count a"
  using card_mono [of "{..< page_count a}" "set xs"] by (fastforce simp: order_valid_def head_ok_def distinct_card)

lemma validate_orders_iff:
  "validate_orders a ords tot heads = Some r \<longleftrightarrow>
   (\<exists>fl. (\<forall>n \<in> set ords. order_valid a n (fl n))
     \<and> r = (tot + sum_list (map (\<lambda>n. 2 ^ n * length (fl n)) ords), heads + sum_list (map (\<lambda>n. length (fl n)) ords)))"
  if "distinct ords"
  using that
proof (induction ords arbitrary: tot heads)
  case (Cons n ords)
  show ?case
  proof
    assume "validate_orders a (n # ords) tot heads = Some r"
    then obtain c where c: "validate_list a n (free_head a n) BUDDY_INDEX_NONE 0 = Some c" "c = free_count a n"
      "validate_orders a ords (tot + c * 2 ^ n) (heads + c) = Some r"
      by (auto simp: order_units_def split: option.splits if_splits)
    from validate_list_sound [OF c(1)] obtain xs where xs: "order_valid a n xs" "c = length xs"
      using c(2) dseg_distinct unfolding order_valid_def by (metis add_0)
    from c(3) Cons obtain fl where fl: "\<forall>n \<in> set ords. order_valid a n (fl n)"
      "r = (tot + c * 2 ^ n + sum_list (map (\<lambda>n. 2 ^ n * length (fl n)) ords), heads + c + sum_list (map (\<lambda>n. length (fl n)) ords))"
      by auto
    have "map (\<lambda>m. 2 ^ m * length ((fl(n := xs)) m)) ords = map (\<lambda>m. 2 ^ m * length (fl m)) ords"
      "map (\<lambda>m. length ((fl(n := xs)) m)) ords = map (\<lambda>m. length (fl m)) ords" using Cons.prems by auto
    then show "\<exists>fl. (\<forall>n \<in> set (n # ords). order_valid a n (fl n)) \<and> r = (tot + sum_list (map (\<lambda>n. 2 ^ n * length (fl n)) (n # ords)),
        heads + sum_list (map (\<lambda>n. length (fl n)) (n # ords)))"
      using fl xs Cons.prems by (intro exI [of _ "fl(n := xs)"]) (auto simp del: map_eq_conv)
  next
    assume "\<exists>fl. (\<forall>n \<in> set (n # ords). order_valid a n (fl n)) \<and> r = (tot + sum_list (map (\<lambda>n. 2 ^ n * length (fl n)) (n # ords)),
        heads + sum_list (map (\<lambda>n. length (fl n)) (n # ords)))"
    then obtain fl where fl: "order_valid a n (fl n)" "\<forall>n \<in> set ords. order_valid a n (fl n)"
      "r = (tot + 2 ^ n * length (fl n) + sum_list (map (\<lambda>n. 2 ^ n * length (fl n)) ords),
        heads + length (fl n) + sum_list (map (\<lambda>n. length (fl n)) ords))" by (auto simp: add.assoc)
    have "validate_list a n (free_head a n) BUDDY_INDEX_NONE 0 = Some (0 + length (fl n))"
      using fl(1) order_valid_length [OF fl(1)] by (intro validate_list_complete) (auto simp: order_valid_def)
    moreover have "validate_orders a ords (tot + length (fl n) * 2 ^ n) (heads + length (fl n)) = Some r"
      using Cons fl by (auto simp: mult.commute)
    ultimately show "validate_orders a (n # ords) tot heads = Some r"
      using fl(1) by (simp add: order_valid_def order_units_def)
  qed
qed auto

lemma validate_pages_iff:
  assumes fl: "\<And>n. n \<le> max_order a \<Longrightarrow> order_valid a n (fl n)" and "is": "set is \<subseteq> {..< page_count a}"
  shows "validate_pages a is observed = Some r \<longleftrightarrow>
    (\<forall>i \<in> set is. pg_state (pages a i) = BUDDY_PAGE_FREE_HEAD
       \<longrightarrow> pg_order (pages a i) \<le> max_order a \<and> i \<in> set (fl (pg_order (pages a i))))
    \<and> r = observed + length (filter (\<lambda>i. pg_state (pages a i) = BUDDY_PAGE_FREE_HEAD) is)"
  using "is"
proof (induction "is" arbitrary: observed)
  case (Cons i "is")
  define n where "n = pg_order (pages a i)"
  have "node_in_list a i n \<longleftrightarrow> i \<in> set (fl n)" if "n \<le> max_order a"
  proof -
    note v = fl [OF that]
    have "set (fl n) \<subseteq> {..< page_count a}" using v by (auto simp: order_valid_def head_ok_def)
    then show ?thesis
      using node_in_list_sound [of a "\<lambda>i. pg_prev (pages a i)" BUDDY_INDEX_NONE "free_head a n" "fl n" i]
        node_in_list_inv [of a "\<lambda>i. pg_prev (pages a i)" BUDDY_INDEX_NONE "free_head a n" "fl n" i "page_count a + 1"]
        v order_valid_length [OF v] unfolding node_in_list_def order_valid_def by (metis le_SucI Suc_eq_plus1)
  qed
  with Cons show ?case by (auto simp: n_def [symmetric] Let_def)
qed auto

lemma listed_heads_card:
  assumes fl: "\<And>n. n \<le> max_order a \<Longrightarrow> order_valid a n (fl n)"
    and on: "\<forall>i < page_count a. pg_state (pages a i) = BUDDY_PAGE_FREE_HEAD
      \<longrightarrow> pg_order (pages a i) \<le> max_order a \<and> i \<in> set (fl (pg_order (pages a i)))"
  shows "length (filter (\<lambda>i. pg_state (pages a i) = BUDDY_PAGE_FREE_HEAD) [0..<page_count a])
    = (\<Sum>n \<le> max_order a. length (fl n))"
proof -
  let ?S = "{i. i < page_count a \<and> pg_state (pages a i) = BUDDY_PAGE_FREE_HEAD}"
  have hd: "x < page_count a \<and> pg_state (pages a x) = BUDDY_PAGE_FREE_HEAD \<and> pg_order (pages a x) = n"
    if "n \<le> max_order a" "x \<in> set (fl n)" for n x
    using fl [OF that(1)] that(2) by (auto simp: order_valid_def head_ok_def)
  have "length (filter (\<lambda>i. pg_state (pages a i) = BUDDY_PAGE_FREE_HEAD) [0..<page_count a]) = card ?S"
    by (subst distinct_card [symmetric]) (auto intro!: arg_cong [of _ _ card])
  also have "?S = (\<Union>n \<le> max_order a. set (fl n))" using hd on by blast
  also have "card \<dots> = (\<Sum>n \<le> max_order a. card (set (fl n)))"
  proof (intro card_UN_disjoint)
    show "\<forall>n \<in> {..max_order a}. \<forall>m \<in> {..max_order a}. n \<noteq> m \<longrightarrow> set (fl n) \<inter> set (fl m) = {}"
      using hd by (metis atMost_iff disjoint_iff)
  qed auto
  also have "\<dots> = (\<Sum>n \<le> max_order a. length (fl n))"
    using fl by (intro sum.cong) (auto simp: order_valid_def distinct_card)
  finally show ?thesis .
qed

lemma lists_valid_alt:
  "lists_valid a fl \<longleftrightarrow> 0 < page_count a \<and> max_order a \<le> CONFIG_BUDDY_MAX_ORDER
     \<and> (\<forall>n \<le> max_order a. order_valid a n (fl n))
     \<and> (\<forall>i < page_count a. pg_state (pages a i) = BUDDY_PAGE_FREE_HEAD
          \<longrightarrow> pg_order (pages a i) \<le> max_order a \<and> i \<in> set (fl (pg_order (pages a i))))
     \<and> free_pages a = (\<Sum>n \<le> max_order a. 2 ^ n * length (fl n))"
  by (simp only: lists_valid_def order_valid_def)

lemma validate_orders_all:
  "validate_orders a [0..<max_order a + 1] 0 0 = Some (t, h) \<longleftrightarrow>
   (\<exists>fl. (\<forall>n \<le> max_order a. order_valid a n (fl n)) \<and> t = (\<Sum>n \<le> max_order a. 2 ^ n * length (fl n))
     \<and> h = (\<Sum>n \<le> max_order a. length (fl n)))"
proof -
  have "set [0..<max_order a + 1] = {..max_order a}" by auto
  then show ?thesis
    using validate_orders_iff [of "[0..<max_order a + 1]" a 0 0 "(t, h)"]
    by (simp only: orders_sum add_0 prod.inject Ball_def atMost_iff) simp
qed

lemma validate_iff_lists: "buddy_validate a = EOK \<longleftrightarrow> (\<exists>fl. lists_valid a fl)"
proof
  assume "buddy_validate a = EOK"
  then obtain t h where v: "0 < page_count a" "max_order a \<le> CONFIG_BUDDY_MAX_ORDER"
    "validate_orders a [0..<max_order a + 1] 0 0 = Some (t, h)" "t = free_pages a"
    "validate_pages a [0..<page_count a] 0 = Some h"
    by (auto simp: buddy_validate_def split: if_splits option.splits simp del: upt_Suc)
  from v(3) obtain fl where fl: "\<forall>n \<le> max_order a. order_valid a n (fl n)" "t = (\<Sum>n \<le> max_order a. 2 ^ n * length (fl n))"
    unfolding validate_orders_all by blast
  then have "lists_valid a fl" unfolding lists_valid_alt
    using v validate_pages_iff [of a fl "[0..<page_count a]" 0 h] by (auto simp: atLeast0LessThan)
  then show "\<exists>fl. lists_valid a fl" by blast
next
  assume "\<exists>fl. lists_valid a fl"
  then obtain fl where fl: "lists_valid a fl" ..
  let ?h = "\<Sum>n \<le> max_order a. length (fl n)"
  have "validate_orders a [0..<max_order a + 1] 0 0 = Some (free_pages a, ?h)"
    unfolding validate_orders_all using fl by (intro exI [of _ fl]) (simp add: lists_valid_alt)
  moreover have "validate_pages a [0..<page_count a] 0 = Some ?h"
    using validate_pages_iff [of a fl "[0..<page_count a]" 0 ?h] listed_heads_card [of a fl] fl
    by (auto simp: lists_valid_alt atLeast0LessThan)
  ultimately show "buddy_validate a = EOK" using fl by (simp add: buddy_validate_def lists_valid_def del: upt_Suc)
qed

lemma buddy_inv_lists_valid:
  assumes inv: "buddy_inv a fl"
  shows "lists_valid a fl"
proof -
  have "head_ok a n x" if "x \<in> set (fl n)" for n x
    using node_ok_inv [OF inv that refl] node_ok_iff [of x a n] free_list_bound [OF inv that] by blast
  then show ?thesis using inv free_list_bound [OF inv] free_head_iff [OF inv]
    unfolding lists_valid_def buddy_inv_def free_lists_ok_def by blast
qed

end
