(* ===== verification/Buddy_Correct.thy ===== *)
theory Buddy_Correct
  imports Buddy_Validate
begin

text \<open>
  The buddy allocator against a specification: a pool of free pages and of allocated blocks.
  Every operation on a reachable allocator is the corresponding step of the pool, allocation
  fails only when no aligned run of free pages exists, and every reachable allocator passes the
  structural validation.
\<close>

section \<open>The allocator as a pool of blocks\<close>

text \<open>
  The specification state: the free pages, and the orders of the allocated blocks by their
  first page. Both are read off the page metadata.
\<close>

record pool =
  pool_free :: "nat set"
  pool_used :: "nat \<Rightarrow> nat option"

definition pool_of :: "buddy_allocator \<Rightarrow> pool" where
  "pool_of a = \<lparr>
     pool_free = {j. \<exists>i < page_count a. pg_state (pages a i) = BUDDY_PAGE_FREE_HEAD
                   \<and> i \<le> j \<and> j < i + 2 ^ pg_order (pages a i)},
     pool_used = (\<lambda>i. if i < page_count a \<and> pg_state (pages a i) = BUDDY_PAGE_ALLOC_HEAD
                   then Some (pg_order (pages a i)) else None)\<rparr>"

lemma pool_free_eq:
  assumes "buddy_inv a fl"
  shows "pool_free (pool_of a) = free_set fl"
proof -
  have "(\<exists>i < page_count a. pg_state (pages a i) = BUDDY_PAGE_FREE_HEAD \<and> i \<le> j \<and> j < i + 2 ^ pg_order (pages a i))
    \<longleftrightarrow> (\<exists>n. \<exists>i \<in> set (fl n). i \<le> j \<and> j < i + 2 ^ n)" for j
    using free_head_iff [OF assms] by metis
  then show ?thesis by (simp add: pool_of_def free_set_def)
qed

lemma used_iff:
  "pool_used (pool_of a) i = Some n \<longleftrightarrow>
   i < page_count a \<and> pg_state (pages a i) = BUDDY_PAGE_ALLOC_HEAD \<and> pg_order (pages a i) = n"
  by (auto simp: pool_of_def)

lemma used_none:
  "pool_used (pool_of a) i = None \<longleftrightarrow> \<not> (i < page_count a \<and> pg_state (pages a i) = BUDDY_PAGE_ALLOC_HEAD)"
  by (auto simp: pool_of_def)

inductive pool_take :: "pool \<Rightarrow> nat \<Rightarrow> nat \<Rightarrow> pool \<Rightarrow> bool" where
  take_block: "2 ^ n dvd i \<Longrightarrow> {i ..< i + 2 ^ n} \<subseteq> pool_free P \<Longrightarrow>
    pool_take P n i \<lparr>pool_free = pool_free P - {i ..< i + 2 ^ n}, pool_used = (pool_used P)(i := Some n)\<rparr>"

inductive pool_give :: "pool \<Rightarrow> nat \<Rightarrow> nat \<Rightarrow> pool \<Rightarrow> bool" where
  give_block: "pool_used P i = Some n \<Longrightarrow> {i ..< i + 2 ^ n} \<inter> pool_free P = {} \<Longrightarrow>
    pool_give P n i \<lparr>pool_free = pool_free P \<union> {i ..< i + 2 ^ n}, pool_used = (pool_used P)(i := None)\<rparr>"

inductive pool_trim :: "pool \<Rightarrow> nat \<Rightarrow> nat \<Rightarrow> nat \<Rightarrow> pool \<Rightarrow> bool" where
  trim_block: "pool_used P i = Some n \<Longrightarrow> 0 < keep \<Longrightarrow> keep \<le> 2 ^ n \<Longrightarrow>
    pool_trim P n i keep \<lparr>pool_free = pool_free P \<union> {i + keep ..< i + 2 ^ n},
      pool_used = (\<lambda>j. if i \<le> j \<and> j < i + keep then Some 0 else if i \<le> j \<and> j < i + 2 ^ n then None else pool_used P j)\<rparr>"

lemma pool_eqI:
  "buddy_inv b fl \<Longrightarrow> F = free_set fl \<Longrightarrow> (\<And>i. pool_used (pool_of b) i = U i) \<Longrightarrow> pool_of b = \<lparr>pool_free = F, pool_used = U\<rparr>"
  using pool_free_eq [of b fl] by (cases "pool_of b") (auto simp: fun_eq_iff)

lemma used_free_none:
  "buddy_inv a fl \<Longrightarrow> j \<in> free_set fl \<Longrightarrow> pool_used (pool_of a) j = None"
  using free_set_state(2) [of a fl j] by (auto simp: used_none)

lemma used_block_tail:
  "alloc_block a i n \<Longrightarrow> i < j \<Longrightarrow> j < i + 2 ^ n \<Longrightarrow> pool_used (pool_of a) j = None"
  by (simp add: used_none alloc_block_def)

lemma used_frame: "owner_frame S a b \<Longrightarrow> j \<notin> S \<Longrightarrow> pool_used (pool_of b) j = pool_used (pool_of a) j"
  by (simp add: owner_frame_def pool_of_def)

lemma used_alloc: "alloc_block a i n \<Longrightarrow> pool_used (pool_of a) i = Some n"
  by (auto simp: used_iff alloc_block_def intro: less_le_trans [of i "i + 2 ^ n"])

lemma alloc_refines:
  assumes inv: "buddy_inv a fl"
  shows "(buddy_alloc a n = Some (None, a) \<and> (\<forall>m i. n \<le> m \<longrightarrow> i \<notin> set (fl m)))
    \<or> (\<exists>i b fl'. buddy_alloc a n = Some (Some i, b) \<and> buddy_inv b fl' \<and> pool_take (pool_of a) n i (pool_of b)
        \<and> page_frame (free_set fl) a b)"
  using buddy_alloc_spec [OF inv, of n]
proof (elim disjE exE conjE)
  fix i b fl' assume b: "buddy_alloc a n = Some (Some i, b)" "buddy_inv b fl'" "alloc_block b i n"
    "{i ..< i + 2 ^ n} \<subseteq> free_set fl" "free_set fl' = free_set fl - {i ..< i + 2 ^ n}" "page_frame (free_set fl) a b"
  have "pool_used (pool_of b) j = ((pool_used (pool_of a))(i := Some n)) j" for j
  proof -
    consider "j = i" | "i < j" "j < i + 2 ^ n" | "j \<in> free_set fl'" | "j \<notin> free_set fl" "j \<noteq> i" using b(5) by fastforce
    then show ?thesis
    proof cases
      case 2
      then have "j \<in> free_set fl" using b(4) by auto
      with 2 show ?thesis using used_block_tail [OF b(3)] used_free_none [OF inv] by simp
    next
      case 3
      then have "j \<in> free_set fl" "j \<noteq> i" using b(5) by auto
      with 3 show ?thesis using used_free_none [OF b(2)] used_free_none [OF inv] by simp
    next
      case 4
      then show ?thesis using used_frame [OF page_frame_owner [OF b(6)]] by simp
    qed (use used_alloc [OF b(3)] in simp)
  qed
  then have eq: "pool_of b = \<lparr>pool_free = pool_free (pool_of a) - {i ..< i + 2 ^ n}, pool_used = (pool_used (pool_of a))(i := Some n)\<rparr>"
    by (intro pool_eqI [OF b(2)]) (simp_all add: b(5) pool_free_eq [OF inv])
  have "pool_take (pool_of a) n i (pool_of b)"
    unfolding eq by (rule pool_take.take_block) (use b(3,4) in \<open>simp_all add: pool_free_eq [OF inv] alloc_block_def\<close>)
  with b show ?thesis by blast
qed simp

lemma free_refines:
  assumes inv: "buddy_inv a fl"
  shows "(pool_used (pool_of a) i \<noteq> Some n \<and> buddy_free a i n = Some (ERR EINVAL, a))
    \<or> (\<exists>b fl'. buddy_free a i n = Some (EOK, b) \<and> buddy_inv b fl' \<and> pool_give (pool_of a) n i (pool_of b)
        \<and> owner_frame (free_set fl \<union> {i ..< i + 2 ^ n}) a b)"
proof (cases "pool_used (pool_of a) i = Some n")
  case True
  with buddy_free_spec [OF inv, of i n] obtain b fl' where b: "alloc_block a i n" "buddy_free a i n = Some (EOK, b)"
    "buddy_inv b fl'" "free_set fl' = free_set fl \<union> {i ..< i + 2 ^ n}" "owner_frame (free_set fl \<union> {i ..< i + 2 ^ n}) a b"
    by (auto simp: used_iff)
  have "pool_used (pool_of b) j = ((pool_used (pool_of a))(i := None)) j" for j
  proof (cases "j \<in> free_set fl'")
    case True
    then have "pool_used (pool_of a) j = None \<or> j = i"
      using b(4) used_free_none [OF inv, of j] used_block_tail [OF b(1), of j] by fastforce
    with True show ?thesis using used_free_none [OF b(3)] by auto
  next
    case False
    then show ?thesis using used_frame [OF b(5)] b(4) by auto
  qed
  then have eq: "pool_of b = \<lparr>pool_free = pool_free (pool_of a) \<union> {i ..< i + 2 ^ n}, pool_used = (pool_used (pool_of a))(i := None)\<rparr>"
    by (intro pool_eqI [OF b(3)]) (simp_all add: b(4) pool_free_eq [OF inv])
  have "{i ..< i + 2 ^ n} \<inter> pool_free (pool_of a) = {}"
    using alloc_not_free [OF inv b(1)] by (auto simp: pool_free_eq [OF inv])
  then have "pool_give (pool_of a) n i (pool_of b)" unfolding eq using True by (intro pool_give.give_block)
  with b show ?thesis by blast
next
  case False
  with buddy_free_spec [OF inv, of i n] show ?thesis by (auto simp: used_iff split: if_splits)
qed

lemma trim_refines:
  assumes inv: "buddy_inv a fl"
  shows "(\<not> (pool_used (pool_of a) i = Some n \<and> 0 < keep \<and> keep \<le> 2 ^ n)
      \<and> buddy_trim_allocation a i n keep = Some (ERR EINVAL, a))
    \<or> (\<exists>b fl'. buddy_trim_allocation a i n keep = Some (EOK, b) \<and> buddy_inv b fl'
        \<and> pool_trim (pool_of a) n i keep (pool_of b) \<and> owner_frame (free_set fl \<union> {i ..< i + 2 ^ n}) a b
        \<and> (\<forall>j. i \<le> j \<and> j < i + keep \<longrightarrow> pg_tag (pages b j) = 0 \<and> pg_reserved (pages b j) = pg_reserved (pages a j)))"
proof (cases "pool_used (pool_of a) i = Some n \<and> 0 < keep \<and> keep \<le> 2 ^ n")
  case True
  then have u: "i < page_count a \<and> pg_state (pages a i) = BUDDY_PAGE_ALLOC_HEAD \<and> pg_order (pages a i) = n \<and> 0 < keep \<and> keep \<le> 2 ^ n"
    by (simp add: used_iff)
  from buddy_trim_spec [OF inv, of i n keep] u obtain b fl' where b: "buddy_trim_allocation a i n keep = Some (EOK, b)"
    "buddy_inv b fl'" "free_set fl' = free_set fl \<union> {i + keep ..< i + 2 ^ n}"
    "\<forall>j. i \<le> j \<and> j < i + keep \<longrightarrow> alloc_block b j 0 \<and> pg_tag (pages b j) = 0 \<and> pg_reserved (pages b j) = pg_reserved (pages a j)"
    "owner_frame (free_set fl \<union> {i ..< i + 2 ^ n}) a b"
    by auto
  have "pool_used (pool_of b) j = (if i \<le> j \<and> j < i + keep then Some 0
      else if i \<le> j \<and> j < i + 2 ^ n then None else pool_used (pool_of a) j)" for j
  proof (cases "j \<in> free_set fl'")
    case True
    then have "pool_used (pool_of b) j = None" "j \<in> free_set fl \<or> i + keep \<le> j \<and> j < i + 2 ^ n"
      using used_free_none [OF b(2)] b(3) by auto
    moreover have "\<not> (i \<le> j \<and> j < i + keep)" using b(4) used_alloc calculation(1) by fastforce
    ultimately show ?thesis using used_free_none [OF inv] by auto
  next
    case False
    then show ?thesis using used_frame [OF b(5), of j] b(3,4) used_alloc [of b j 0] u by auto
  qed
  then have "pool_of b = \<lparr>pool_free = pool_free (pool_of a) \<union> {i + keep ..< i + 2 ^ n},
      pool_used = (\<lambda>j. if i \<le> j \<and> j < i + keep then Some 0 else if i \<le> j \<and> j < i + 2 ^ n then None else pool_used (pool_of a) j)\<rparr>"
    by (intro pool_eqI [OF b(2)]) (simp_all add: b(3) pool_free_eq [OF inv])
  then have "pool_trim (pool_of a) n i keep (pool_of b)" using True pool_trim.trim_block [of "pool_of a" i n keep] by simp
  with b show ?thesis by blast
next
  case False
  with buddy_trim_spec [OF inv, of i n keep] show ?thesis by (auto simp: used_iff split: if_splits)
qed

section \<open>Reachable allocators\<close>

text \<open>
  The states a client can bring the allocator to. The one obligation is that a range handed to
  \<^verbatim>\<open>buddy_add_range\<close> holds no page that is already free; the tag and the handoff flag of a
  page belong to the client.
\<close>

inductive buddy_reach :: "buddy_allocator \<Rightarrow> bool" where
  init: "buddy_init a0 (Some m) count limit = (EOK, a) \<Longrightarrow> buddy_reach a"
| add_range: "buddy_reach a \<Longrightarrow> {start ..< start + count} \<inter> pool_free (pool_of a) = {}
    \<Longrightarrow> buddy_add_range a start count = Some (st, b) \<Longrightarrow> buddy_reach b"
| alloc: "buddy_reach a \<Longrightarrow> buddy_alloc a n = Some (r, b) \<Longrightarrow> buddy_reach b"
| free: "buddy_reach a \<Longrightarrow> buddy_free a i n = Some (st, b) \<Longrightarrow> buddy_reach b"
| trim: "buddy_reach a \<Longrightarrow> buddy_trim_allocation a i n keep = Some (st, b) \<Longrightarrow> buddy_reach b"
| tags: "buddy_reach a \<Longrightarrow> buddy_reach (a\<lparr>pages := \<lambda>j. (pages a j)\<lparr>pg_tag := t j, pg_reserved := h j\<rparr>\<rparr>)"

lemma init_inv: "buddy_init a0 m count limit = (EOK, a) \<Longrightarrow> buddy_inv a (\<lambda>_. [])"
  by (auto simp: buddy_init_def buddy_inv_def free_lists_ok_def blocks_ok_def coalesced_def
      split: option.splits if_splits)

lemma init_free: "buddy_init a0 m count limit = (EOK, a) \<Longrightarrow> pool_free (pool_of a) = {}"
  by (simp add: pool_free_eq [OF init_inv] free_set_def)

lemma tags_inv:
  assumes inv: "buddy_inv a fl"
  shows "buddy_inv (a\<lparr>pages := \<lambda>j. (pages a j)\<lparr>pg_tag := t j, pg_reserved := h j\<rparr>\<rparr>) fl" (is "buddy_inv ?b fl")
proof (rule buddy_inv_outside [OF inv refl], goal_cases)
  case (3 j)
  then show ?case using free_head_iff [OF inv, of j "pg_order (pages a j)"] free_set_block [of j fl "pg_order (pages a j)"] by force
next
  case (4 j)
  then have al: "alloc_block a j (pg_order (pages a j))" using alloc_blockD [OF inv] by simp
  have "alloc_block ?b j (pg_order (pages a j))" by (rule alloc_block_cong [OF al]) simp_all
  then show ?case by simp
qed simp_all

text \<open>A range that is refused, or one of reserved pages outside the free blocks.\<close>

lemma add_range_cases:
  assumes inv: "buddy_inv a fl" and dis: "{start ..< start + count} \<inter> free_set fl = {}"
  shows "(buddy_add_range a start count = Some (ERR EINVAL, a)
      \<and> \<not> (0 < count \<and> start + count \<le> page_count a
           \<and> (\<forall>j. start \<le> j \<and> j < start + count \<longrightarrow> pg_state (pages a j) = BUDDY_PAGE_RESERVED)))
    \<or> (\<exists>b fl'. buddy_add_range a start count = Some (EOK, b) \<and> buddy_inv b fl'
        \<and> free_set fl' = free_set fl \<union> {start ..< start + count}
        \<and> page_frame (free_set fl \<union> {start ..< start + count}) a b)"
proof (cases "0 < count \<and> start + count \<le> page_count a
    \<and> (\<forall>j. start \<le> j \<and> j < start + count \<longrightarrow> pg_state (pages a j) = BUDDY_PAGE_RESERVED)")
  case True
  then have "j \<notin> free_set fl" if "start \<le> j" "j < start + count" for j using dis that by auto
  with add_range_spec [OF inv, of count start] True show ?thesis by blast
next
  case False
  have "buddy_add_range a start count = Some (ERR EINVAL, a)"
  proof (cases "count = 0 \<or> start \<ge> page_count a \<or> count > page_count a - start")
    case True
    then show ?thesis by (auto simp: buddy_add_range_def)
  next
    case b: False
    then have "start + count \<le> page_count a" by linarith
    with False b all_range_eq [of start count a "\<lambda>p. pg_state p = BUDDY_PAGE_RESERVED"]
    have "all_range a start count (\<lambda>p. pg_state p = BUDDY_PAGE_RESERVED) = Some False" by auto
    with b show ?thesis by (auto simp: buddy_add_range_def)
  qed
  with False show ?thesis by blast
qed

lemma reach_inv: "buddy_reach a \<Longrightarrow> \<exists>fl. buddy_inv a fl"
proof (induction rule: buddy_reach.induct)
  case (init a0 m count limit a)
  then show ?case using init_inv by blast
next
  case (add_range a start count st b)
  then obtain fl where "buddy_inv a fl" by blast
  with add_range add_range_cases [of a fl start count] show ?case by (auto simp: pool_free_eq)
next
  case (alloc a n r b)
  then obtain fl where "buddy_inv a fl" by blast
  with alloc alloc_refines [of a fl n] show ?case by auto
next
  case (free a i n st b)
  then obtain fl where "buddy_inv a fl" by blast
  with free free_refines [of a fl i n] show ?case by auto
next
  case (trim a i n keep st b)
  then obtain fl where "buddy_inv a fl" by blast
  with trim trim_refines [of a fl i n keep] show ?case by auto
next
  case (tags a t h)
  then show ?case using tags_inv by blast
qed

section \<open>Allocation is complete\<close>

text \<open>Because buddies are merged eagerly, every aligned run of free pages lies in one block.\<close>

lemma multiple_below: "d dvd y \<Longrightarrow> d dvd i \<Longrightarrow> y < i + d \<Longrightarrow> y \<le> i" for y i d :: nat
proof (elim dvdE)
  fix q r assume "y < i + d" "y = d * q" "i = d * r"
  then have "d * q < d * (r + 1)" by simp
  then have "q \<le> r" by (simp only: mult_less_cancel1) simp
  then show "y \<le> i" using \<open>y = d * q\<close> \<open>i = d * r\<close> by simp
qed

lemma multiple_above: "d dvd y \<Longrightarrow> d dvd i \<Longrightarrow> i < y \<Longrightarrow> i + d \<le> y" for y i d :: nat
proof (elim dvdE)
  fix q r assume "i < y" "y = d * q" "i = d * r"
  then have "d * r < d * q" by simp
  then have "r + 1 \<le> q" by (simp only: mult_less_cancel1) simp
  then have "d * (r + 1) \<le> d * q" by (rule mult_le_mono2)
  then show "i + d \<le> y" using \<open>y = d * q\<close> \<open>i = d * r\<close> by simp
qed

lemma aligned_run_in_block:
  assumes inv: "buddy_inv a fl"
  shows "n \<le> max_order a \<Longrightarrow> 2 ^ n dvd i \<Longrightarrow> {i ..< i + 2 ^ n} \<subseteq> free_set fl \<Longrightarrow>
    \<exists>m x. n \<le> m \<and> x \<in> set (fl m) \<and> x \<le> i \<and> i + 2 ^ n \<le> x + 2 ^ m"
proof (induction n arbitrary: i)
  case 0
  then have "i \<in> free_set fl" by simp
  then obtain m x where "x \<in> set (fl m)" "x \<le> i" "i < x + 2 ^ m" by (auto simp: free_set_def)
  then show ?case by (intro exI [of _ m] exI [of _ x]) simp
next
  case (Suc n)
  have half: "\<exists>m x. n \<le> m \<and> x \<in> set (fl m) \<and> x \<le> j \<and> j + 2 ^ n \<le> x + 2 ^ m" if "j = i \<or> j = i + 2 ^ n" for j
    using Suc.prems that by (intro Suc.IH) (auto dest: dvd_mult_right)
  obtain m x where m: "n \<le> m" "x \<in> set (fl m)" "x \<le> i" "i + 2 ^ n \<le> x + 2 ^ m" using half [of i] by blast
  obtain m' x' where m': "n \<le> m'" "x' \<in> set (fl m')" "x' \<le> i + 2 ^ n" "i + 2 ^ n + 2 ^ n \<le> x' + 2 ^ m'"
    using half [of "i + 2 ^ n"] by blast
  have dv: "2 ^ m dvd x" "2 ^ m' dvd x'" using free_listD [OF inv] m(2) m'(2) by (auto simp: free_block_def)
  show ?case
  proof (cases "m = n \<and> m' = n")
    case True
    then have "x = i" "x' = i + 2 ^ n" using m m' by auto
    moreover have "\<not> bit i n" using Suc.prems(2) by (auto simp: bit_iff_odd elim!: dvdE)
    ultimately have "x XOR 2 ^ n \<in> set (fl n)" "x \<in> set (fl n)" using m m' True by (auto simp: xor_unit)
    moreover have "n < max_order a" using Suc.prems(1) by simp
    ultimately show ?thesis using inv by (auto simp: buddy_inv_def coalesced_def)
  next
    case False
    have up: "y \<le> i \<and> i + 2 ^ Suc n \<le> y + 2 ^ k"
      if h: "Suc n \<le> k" "2 ^ k dvd y" "y \<le> j" "j + 2 ^ n \<le> y + 2 ^ k" "j = i \<or> j = i + 2 ^ n" for y k j
    proof -
      have p: "(2 :: nat) ^ Suc n dvd 2 ^ k" using h(1) by (rule le_imp_power_dvd)
      then have d: "2 ^ Suc n dvd y" "2 ^ Suc n dvd y + 2 ^ k"
        using h(2) dvd_trans dvd_add by blast+
      have z: "(0 :: nat) < 2 ^ n" by simp
      from h(5) have "j < i + 2 ^ Suc n" "i < y + 2 ^ k"
        using z h(3,4) unfolding power_Suc by (elim disjE; linarith)+
      then show ?thesis using multiple_below [OF d(1) Suc.prems(2)] multiple_above [OF d(2) Suc.prems(2)] h(3) by auto
    qed
    from False consider "Suc n \<le> m" | "Suc n \<le> m'" using m(1) m'(1) by linarith
    then show ?thesis
    proof cases
      case 1
      with up [OF 1 dv(1) m(3,4)] m(2) show ?thesis by blast
    next
      case 2
      with up [OF 2 dv(2) m'(3,4)] m'(2) show ?thesis by blast
    qed
  qed
qed

section \<open>Demonstration states\<close>

definition demo_page :: buddy_page where
  "demo_page = \<lparr>pg_next = 7, pg_prev = 7, pg_tag = 7, pg_order = 7, pg_state = BUDDY_PAGE_ALLOC_TAIL, pg_reserved = 7\<rparr>"

definition demo_raw :: buddy_allocator where
  "demo_raw = \<lparr>pages = (\<lambda>_. demo_page), page_count = 0, free_pages = 0, max_order = 0, free_head = (\<lambda>_. 0), free_count = (\<lambda>_. 0)\<rparr>"

definition demo_empty :: buddy_allocator where
  "demo_empty = \<lparr>pages = (\<lambda>i. if i < 8 then \<lparr>pg_next = BUDDY_INDEX_NONE, pg_prev = BUDDY_INDEX_NONE, pg_tag = 0,
       pg_order = 0, pg_state = BUDDY_PAGE_RESERVED, pg_reserved = 0\<rparr> else demo_page),
     page_count = 8, free_pages = 0, max_order = 3,
     free_head = (\<lambda>n. if n \<le> 30 then BUDDY_INDEX_NONE else 0), free_count = (\<lambda>n. 0)\<rparr>"

definition demo_full :: buddy_allocator where
  "demo_full = snd (the (buddy_add_range demo_empty 1 7))"

definition demo_used :: buddy_allocator where
  "demo_used = snd (the (buddy_alloc demo_full 1))"

lemma demo_empty_run: "buddy_init demo_raw (Some (\<lambda>_. demo_page)) 8 3 = (EOK, demo_empty)"
  by (simp add: demo_empty_def demo_raw_def buddy_init_def fun_eq_iff)

lemmas demo_empty_reach = buddy_reach.init [OF demo_empty_run]
lemmas demo_empty_free = init_free [OF demo_empty_run]

lemma snd_the_Some: "map_option fst r = Some x \<Longrightarrow> r = Some (x, snd (the r))"
  by (cases r) (auto simp: prod_eq_iff)

lemma demo_full_run: "buddy_add_range demo_empty 1 7 = Some (EOK, demo_full)"
  unfolding demo_full_def by (rule snd_the_Some) code_simp

lemma demo_used_run: "buddy_alloc demo_full 1 = Some (Some 2, demo_used)"
  unfolding demo_used_def by (rule snd_the_Some) code_simp

lemma demo_full_reach: "buddy_reach demo_full"
  by (rule buddy_reach.add_range [OF demo_empty_reach _ demo_full_run]) (simp add: demo_empty_free)

lemma demo_used_reach: "buddy_reach demo_used"
  by (rule buddy_reach.alloc [OF demo_full_reach demo_used_run])

lemma demo_used_block: "pool_used (pool_of demo_used) 2 = Some 1"
  unfolding used_iff by code_simp

section \<open>Correctness\<close>

inductive_cases pool_takeE: "pool_take P n i Q"
inductive_cases pool_giveE: "pool_give P n i Q"
inductive_cases pool_trimE: "pool_trim P n i keep Q"

lemma pool_stepD:
  "pool_take P n i Q \<Longrightarrow> 2 ^ n dvd i \<and> {i ..< i + 2 ^ n} \<subseteq> pool_free P"
  "pool_give P n i Q \<Longrightarrow> pool_used P i = Some n"
  "pool_trim P n i keep Q \<Longrightarrow> pool_used P i = Some n \<and> 0 < keep \<and> keep \<le> 2 ^ n"
  by (blast elim: pool_takeE pool_giveE pool_trimE)+

lemma reach_alloc_cases:
  assumes "buddy_reach a"
  shows "(\<exists>i b. buddy_alloc a n = Some (Some i, b) \<and> buddy_reach b \<and> pool_take (pool_of a) n i (pool_of b))
    \<or> (buddy_alloc a n = Some (None, a)
       \<and> \<not> (n \<le> max_order a \<and> (\<exists>i. 2 ^ n dvd i \<and> {i ..< i + 2 ^ n} \<subseteq> pool_free (pool_of a))))"
proof -
  obtain fl where inv: "buddy_inv a fl" using reach_inv [OF assms] by blast
  from alloc_refines [OF inv, of n] show ?thesis
  proof (elim disjE conjE exE)
    assume no: "buddy_alloc a n = Some (None, a)" "\<forall>m i. n \<le> m \<longrightarrow> i \<notin> set (fl m)"
    then have "\<not> (n \<le> max_order a \<and> (\<exists>i. 2 ^ n dvd i \<and> {i ..< i + 2 ^ n} \<subseteq> free_set fl))"
      using aligned_run_in_block [OF inv] by blast
    with no show ?thesis by (simp add: pool_free_eq [OF inv])
  next
    fix i b fl' assume "buddy_alloc a n = Some (Some i, b)" "pool_take (pool_of a) n i (pool_of b)"
    with assms show ?thesis using buddy_reach.alloc by blast
  qed
qed

text \<open>
  C1: allocation. From every reachable allocator \<^verbatim>\<open>buddy_alloc\<close> returns without an access
  out of bounds, either an aligned block of exactly the requested order taken out of the free
  pages, with every other page and block as before, or \<^verbatim>\<open>SIZE_MAX\<close>; and it fails only when
  the order exceeds the maximum or no aligned run of that many free pages exists.
\<close>

theorem buddy_alloc_correct:
  assumes "buddy_reach a"
  shows "if n \<le> max_order a \<and> (\<exists>i. 2 ^ n dvd i \<and> {i ..< i + 2 ^ n} \<subseteq> pool_free (pool_of a))
    then \<exists>i b. buddy_alloc a n = Some (Some i, b) \<and> buddy_reach b \<and> pool_take (pool_of a) n i (pool_of b)
    else buddy_alloc a n = Some (None, a)"
proof (cases "n \<le> max_order a")
  case True
  from reach_alloc_cases [OF assms, of n] show ?thesis
  proof (elim disjE exE conjE)
    fix i b assume "buddy_alloc a n = Some (Some i, b)" "buddy_reach b" "pool_take (pool_of a) n i (pool_of b)"
    with True pool_stepD(1) [of "pool_of a" n i "pool_of b"] show ?thesis by auto
  qed auto
next
  case False
  then show ?thesis by (simp add: buddy_alloc_def)
qed

theorem buddy_alloc_correct_witness:
  "\<exists>i b. buddy_alloc demo_full 1 = Some (Some i, b) \<and> buddy_reach b \<and> pool_take (pool_of demo_full) 1 i (pool_of b)"
  using buddy_alloc_correct [OF demo_full_reach, of 1] demo_used_run by (auto split: if_splits)

text \<open>
  C2: release. \<^verbatim>\<open>buddy_free\<close> accepts exactly the allocated blocks with their own order and
  makes their pages free again, merging buddies; any other index or order is refused with
  \<^verbatim>\<open>EINVAL\<close> and changes nothing, so a double free or a free of a block's interior is caught.
\<close>

theorem buddy_free_correct:
  assumes "buddy_reach a"
  shows "if pool_used (pool_of a) i = Some n
    then \<exists>b. buddy_free a i n = Some (EOK, b) \<and> buddy_reach b \<and> pool_give (pool_of a) n i (pool_of b)
    else buddy_free a i n = Some (ERR EINVAL, a)"
proof -
  obtain fl where inv: "buddy_inv a fl" using reach_inv [OF assms] by blast
  from free_refines [OF inv, of i n] show ?thesis
    using buddy_reach.free [OF assms] pool_stepD(2) by auto
qed

theorem buddy_free_correct_witness:
  "(\<exists>b. buddy_free demo_used 2 1 = Some (EOK, b) \<and> buddy_reach b \<and> pool_give (pool_of demo_used) 1 2 (pool_of b))
   \<and> buddy_free demo_used 2 0 = Some (ERR EINVAL, demo_used)"
  using buddy_free_correct [OF demo_used_reach, of 2 1] buddy_free_correct [OF demo_used_reach, of 2 0] demo_used_block
  by simp

text \<open>
  C4: trimming. \<^verbatim>\<open>buddy_trim_allocation\<close> turns an allocated block into individually owned
  pages, keeps the first \<^verbatim>\<open>keep_units\<close> of them and returns exactly the rest to the free
  pages, so rounding an allocation up to a power of two leaks nothing.
\<close>

theorem buddy_trim_correct:
  assumes "buddy_reach a"
  shows "if pool_used (pool_of a) i = Some n \<and> 0 < keep \<and> keep \<le> 2 ^ n
    then \<exists>b. buddy_trim_allocation a i n keep = Some (EOK, b) \<and> buddy_reach b \<and> pool_trim (pool_of a) n i keep (pool_of b)
    else buddy_trim_allocation a i n keep = Some (ERR EINVAL, a)"
proof -
  obtain fl where inv: "buddy_inv a fl" using reach_inv [OF assms] by blast
  from trim_refines [OF inv, of i n keep] show ?thesis
    using buddy_reach.trim [OF assms] pool_stepD(3) [of "pool_of a" n i keep] by (elim disjE exE conjE) auto
qed

theorem buddy_trim_correct_witness:
  "\<exists>b. buddy_trim_allocation demo_used 2 1 1 = Some (EOK, b) \<and> buddy_reach b
     \<and> pool_trim (pool_of demo_used) 1 2 1 (pool_of b)"
  using buddy_trim_correct [OF demo_used_reach, of 2 1 1] demo_used_block by simp

lemma add_range_free:
  assumes "buddy_reach a" "{start ..< start + count} \<inter> pool_free (pool_of a) = {}"
  shows "if 0 < count \<and> start + count \<le> page_count a
        \<and> (\<forall>j. start \<le> j \<and> j < start + count \<longrightarrow> pg_state (pages a j) = BUDDY_PAGE_RESERVED)
    then \<exists>b. buddy_add_range a start count = Some (EOK, b) \<and> buddy_reach b
        \<and> pool_of b = (pool_of a)\<lparr>pool_free := pool_free (pool_of a) \<union> {start ..< start + count}\<rparr>
    else buddy_add_range a start count = Some (ERR EINVAL, a)"
proof -
  obtain fl where inv: "buddy_inv a fl" using reach_inv [OF assms(1)] by blast
  have dis: "{start ..< start + count} \<inter> free_set fl = {}" using assms(2) by (simp add: pool_free_eq [OF inv])
  from add_range_cases [OF inv dis] show ?thesis
  proof (elim disjE exE conjE)
    fix b fl' assume b: "buddy_add_range a start count = Some (EOK, b)" "buddy_inv b fl'"
      "free_set fl' = free_set fl \<union> {start ..< start + count}" "page_frame (free_set fl \<union> {start ..< start + count}) a b"
    have ok: "0 < count \<and> start + count \<le> page_count a
        \<and> (\<forall>j. start \<le> j \<and> j < start + count \<longrightarrow> pg_state (pages a j) = BUDDY_PAGE_RESERVED)"
      using b(1) all_range_eq [of start count a "\<lambda>p. pg_state p = BUDDY_PAGE_RESERVED"]
      by (auto simp: buddy_add_range_def split: if_splits)
    have "pool_used (pool_of b) j = pool_used (pool_of a) j" for j
    proof (cases "j \<in> free_set fl'")
      case True
      then have "pool_used (pool_of a) j = None" using b(3) ok used_free_none [OF inv] by (auto simp: used_none)
      with True show ?thesis using used_free_none [OF b(2)] by simp
    next
      case False
      then show ?thesis using used_frame [OF page_frame_owner [OF b(4)]] b(3) by simp
    qed
    then have "pool_of b = (pool_of a)\<lparr>pool_free := pool_free (pool_of a) \<union> {start ..< start + count}\<rparr>"
      using pool_free_eq [OF b(2)] pool_free_eq [OF inv] b(3) by (cases "pool_of a"; cases "pool_of b") (auto simp: fun_eq_iff)
    moreover have "buddy_reach b" using buddy_reach.add_range [OF assms b(1)] .
    ultimately show ?thesis using ok b(1) by simp
  qed auto
qed

text \<open>
  C5: adding memory. In every reachable allocator a range that is empty, out of bounds or holds a
  page that is not marked reserved is refused and changes nothing. A range of reserved pages inside
  the array, none of which lies in a free block, is added whole to the free pages, for any start
  and length. The pages inside a free block are marked reserved as well; nothing is claimed for a
  range that overlaps one and still passes the test, and \<open>add_range_inside_free_block\<close> below shows that
  the code accepts such a range.
\<close>

theorem buddy_add_range_correct:
  assumes "buddy_reach a"
  shows "if 0 < count \<and> start + count \<le> page_count a
        \<and> (\<forall>j. start \<le> j \<and> j < start + count \<longrightarrow> pg_state (pages a j) = BUDDY_PAGE_RESERVED)
    then {start ..< start + count} \<inter> pool_free (pool_of a) = {} \<longrightarrow>
      (\<exists>b. buddy_add_range a start count = Some (EOK, b) \<and> buddy_reach b
        \<and> pool_of b = (pool_of a)\<lparr>pool_free := pool_free (pool_of a) \<union> {start ..< start + count}\<rparr>)
    else buddy_add_range a start count = Some (ERR EINVAL, a)"
proof (cases "{start ..< start + count} \<inter> pool_free (pool_of a) = {}")
  case True
  then show ?thesis using add_range_free [OF assms, of start count] by auto
next
  case False
  have "buddy_add_range a start count = Some (ERR EINVAL, a)"
    if "\<not> (0 < count \<and> start + count \<le> page_count a \<and> (\<forall>j. start \<le> j \<and> j < start + count \<longrightarrow> pg_state (pages a j) = BUDDY_PAGE_RESERVED))"
    using that all_range_eq [of start count a "\<lambda>p. pg_state p = BUDDY_PAGE_RESERVED"] by (auto simp: buddy_add_range_def)
  then show ?thesis using False by auto
qed

theorem buddy_add_range_correct_witness:
  "\<exists>b. buddy_add_range demo_empty 1 7 = Some (EOK, b) \<and> buddy_reach b
     \<and> pool_of b = (pool_of demo_empty)\<lparr>pool_free := pool_free (pool_of demo_empty) \<union> {1 ..< 1 + 7}\<rparr>"
  using buddy_add_range_correct [OF demo_empty_reach, of 7 1] demo_full_run
  by (auto simp: demo_empty_free split: if_splits)

text \<open>
  C3: safety of every reachable allocator. The free-page counter is the number of free pages,
  allocated blocks are aligned, in bounds, disjoint from the free pages and from each other, and
  the boot-time check \<^verbatim>\<open>buddy_validate\<close> succeeds.
\<close>

theorem buddy_reachable_safe:
  assumes "buddy_reach a"
  shows "free_pages a = card (pool_free (pool_of a)) \<and> pool_free (pool_of a) \<subseteq> {..< page_count a}
    \<and> buddy_validate a = EOK
    \<and> (\<forall>i n. pool_used (pool_of a) i = Some n \<longrightarrow>
         2 ^ n dvd i \<and> i + 2 ^ n \<le> page_count a \<and> {i ..< i + 2 ^ n} \<inter> pool_free (pool_of a) = {})
    \<and> (\<forall>i n j m. pool_used (pool_of a) i = Some n \<longrightarrow> pool_used (pool_of a) j = Some m \<longrightarrow> i \<noteq> j
         \<longrightarrow> {i ..< i + 2 ^ n} \<inter> {j ..< j + 2 ^ m} = {})"
proof -
  obtain fl where inv: "buddy_inv a fl" using reach_inv [OF assms] by blast
  have used: "alloc_block a i n" if "pool_used (pool_of a) i = Some n" for i n
    using alloc_blockD [OF inv, of i] that by (auto simp: used_iff)
  have "{i ..< i + 2 ^ n} \<inter> {j ..< j + 2 ^ m} = {}"
    if "pool_used (pool_of a) i = Some n" "pool_used (pool_of a) j = Some m" "i \<noteq> j" for i n j m
    using alloc_blocks_disjoint [OF used [OF that(1)] used [OF that(2)]] that(3)
    by (metis IntE atLeastLessThan_iff equals0I)
  moreover have "{i ..< i + 2 ^ n} \<inter> free_set fl = {}" if "pool_used (pool_of a) i = Some n" for i n
    using alloc_not_free [OF inv used [OF that]] by auto
  moreover have "buddy_validate a = EOK" using buddy_inv_lists_valid [OF inv] validate_iff_lists by blast
  ultimately show ?thesis
    using card_free_set [OF inv] free_set_state(1) [OF inv] used unfolding pool_free_eq [OF inv] alloc_block_def
    by (intro conjI allI impI) auto
qed

theorem buddy_reachable_safe_witness:
  "free_pages demo_used = card (pool_free (pool_of demo_used)) \<and> free_pages demo_used = 5 \<and> buddy_validate demo_used = EOK"
proof -
  have "free_pages demo_used = 5" by code_simp
  then show ?thesis using buddy_reachable_safe [OF demo_used_reach] by simp
qed

text \<open>
  C6: \<^verbatim>\<open>buddy_validate\<close> is exact. It returns 0 if and only if the free lists are well formed:
  linked both ways, holding aligned blocks in bounds that contain no other free block and whose
  buddies are not free, complete for the pages marked free, with matching counters.
\<close>

theorem buddy_validate_exact: "buddy_validate a = EOK \<longleftrightarrow> (\<exists>fl. lists_valid a fl)"
  by (rule validate_iff_lists)

text \<open>
  \<^verbatim>\<open>buddy_order_for_units\<close> is the least order whose block holds the requested
  number of pages, and one more than the largest order when there is none.
\<close>

lemma buddy_order_least:
  "buddy_order_for_units count =
     (if count \<le> 2 ^ CONFIG_BUDDY_MAX_ORDER then LEAST n. count \<le> 2 ^ n else CONFIG_BUDDY_MAX_ORDER + 1)"
proof (cases "count = 0")
  case True
  then show ?thesis by (simp add: buddy_order_for_units_def Least_eq_0)
next
  case False
  let ?n = "buddy_order_for_units count"
  have n: "\<forall>m < ?n. 2 ^ m < count" "?n = CONFIG_BUDDY_MAX_ORDER + 1 \<or> ?n \<le> CONFIG_BUDDY_MAX_ORDER \<and> count \<le> 2 ^ ?n"
    using order_for_units False by auto
  show ?thesis
  proof (cases "count \<le> 2 ^ CONFIG_BUDDY_MAX_ORDER")
    case True
    then have "count \<le> 2 ^ ?n" using n by auto
    then have "(LEAST n. count \<le> 2 ^ n) = ?n" using n(1) by (intro Least_equality) (auto simp: not_le [symmetric])
    with True show ?thesis by simp
  next
    case False
    moreover have "count \<le> 2 ^ CONFIG_BUDDY_MAX_ORDER" if "?n \<le> CONFIG_BUDDY_MAX_ORDER" "count \<le> 2 ^ ?n"
      using that power_increasing [of ?n CONFIG_BUDDY_MAX_ORDER "2 :: nat"] by linarith
    ultimately show ?thesis using n(2) by auto
  qed
qed

text \<open>
  The obligation on \<^verbatim>\<open>buddy_add_range\<close> is real: the pages inside a free block are marked
  reserved, so a range inside one passes the test on the page states, is added a second time,
  and leaves an allocator that \<^verbatim>\<open>buddy_validate\<close> rejects.
\<close>

lemma add_range_inside_free_block:
  "map_option fst (buddy_add_range demo_full 3 1) = Some EOK
   \<and> buddy_validate (snd (the (buddy_add_range demo_full 3 1))) = ERR EFAULT"
  by code_simp

end
