(* ===== verification/Frame.thy ===== *)
theory Frame
  imports Buddy_Correct
begin

text \<open>
  \<^verbatim>\<open>src/mem/frame.c\<close>: the physical frame allocator, a buddy allocator with
  reference counts in the page tags and a cache of single pages per CPU. The model is
  sequential: each operation runs as a whole, as it does under its locks, on the CPU the state
  names. A cache is the list of its first \<^verbatim>\<open>count\<close> entries, the last one on top.
  As in the buddy allocator, \<open>None\<close> stands for an access out of bounds; addresses and sizes are
  natural numbers, and \<^verbatim>\<open>SIZE_MAX\<close> as a frame index is the inner \<open>None\<close>.
\<close>

section \<open>State\<close>

abbreviation (input) CONFIG_FRAME_PCP_BATCH :: nat where "CONFIG_FRAME_PCP_BATCH \<equiv> 16"
abbreviation (input) CONFIG_FRAME_PCP_HIGH :: nat where "CONFIG_FRAME_PCP_HIGH \<equiv> 64"
abbreviation (input) CONFIG_FRAME_PCP_MAX_CPUS :: nat where "CONFIG_FRAME_PCP_MAX_CPUS \<equiv> 256"
abbreviation (input) PAGE_4K_SIZE :: nat where "PAGE_4K_SIZE \<equiv> 4096"

record frame_allocator =
  buddy :: buddy_allocator
  frame_count :: nat
  origin_frames :: nat
  usable_frames :: nat
  metadata_frames :: nat
  frame_pcp :: "nat \<Rightarrow> nat list"
  sched_started :: bool
  current_cpu :: nat

record frame_stats =
  st_total_frames :: nat
  st_free_frames :: nat
  st_metadata_frames :: nat
  st_free_blocks :: "nat list"
  st_max_order :: nat

section \<open>Per-CPU page caches\<close>

definition frame_pcp_cpu :: "frame_allocator \<Rightarrow> nat" where
  "frame_pcp_cpu s =
     (if \<not> sched_started s then 0
      else if current_cpu s < CONFIG_FRAME_PCP_MAX_CPUS then current_cpu s else CONFIG_FRAME_PCP_MAX_CPUS)"

text \<open>A failed \<^verbatim>\<open>buddy_free\<close> is only logged.\<close>

definition frame_pcp_return_to_buddy :: "frame_allocator \<Rightarrow> nat list \<Rightarrow> frame_allocator option" where
  "frame_pcp_return_to_buddy s frames =
     (case fold_option (\<lambda>b f. map_option snd (buddy_free b f 0)) (buddy s) frames of
        None \<Rightarrow> None
      | Some b \<Rightarrow> Some (s\<lparr>buddy := b\<rparr>))"

definition frame_pcp_drain_cpu :: "frame_allocator \<Rightarrow> nat \<Rightarrow> frame_allocator option" where
  "frame_pcp_drain_cpu s cpu =
     (let frames = frame_pcp s cpu in
      frame_pcp_return_to_buddy (s\<lparr>frame_pcp := (frame_pcp s)(cpu := [])\<rparr>) frames)"

definition frame_pcp_drain_all :: "frame_allocator \<Rightarrow> frame_allocator option" where
  "frame_pcp_drain_all s = fold_option frame_pcp_drain_cpu s [0..<CONFIG_FRAME_PCP_MAX_CPUS]"

definition frame_pcp_put :: "frame_allocator \<Rightarrow> nat \<Rightarrow> frame_allocator option" where
  "frame_pcp_put s frame =
     (let cpu = frame_pcp_cpu s in
      if cpu \<ge> CONFIG_FRAME_PCP_MAX_CPUS then frame_pcp_return_to_buddy s [frame]
      else
        let frames = frame_pcp s cpu;
            full = (length frames = CONFIG_FRAME_PCP_HIGH);
            kept = (if full then take (CONFIG_FRAME_PCP_HIGH - CONFIG_FRAME_PCP_BATCH) frames else frames);
            drain = (if full then rev (drop (CONFIG_FRAME_PCP_HIGH - CONFIG_FRAME_PCP_BATCH) frames) else [])
        in do {
          guard (length kept < CONFIG_FRAME_PCP_HIGH);
          frame_pcp_return_to_buddy (s\<lparr>frame_pcp := (frame_pcp s)(cpu := kept @ [frame])\<rparr>) drain
        })"

definition frame_pcp_pop :: "frame_allocator \<Rightarrow> (nat option \<times> frame_allocator) option" where
  "frame_pcp_pop s =
     (let cpu = frame_pcp_cpu s in
      if cpu \<ge> CONFIG_FRAME_PCP_MAX_CPUS then Some (None, s)
      else if frame_pcp s cpu = [] then Some (None, s)
      else do {
        let frame = last (frame_pcp s cpu);
        b \<leftarrow> set_page (buddy s) (int frame) (\<lambda>p. p\<lparr>pg_tag := 1\<rparr>);
        Some (Some frame, s\<lparr>buddy := b, frame_pcp := (frame_pcp s)(cpu := butlast (frame_pcp s cpu)),
                             usable_frames := size_sub (usable_frames s) 1\<rparr>)
      })"

text \<open>The loop that tries smaller and smaller blocks, with the order it ended at.\<close>

fun refill_alloc :: "buddy_allocator \<Rightarrow> nat \<Rightarrow> (nat option \<times> nat \<times> buddy_allocator) option" where
  "refill_alloc b ord =
     (case buddy_alloc b ord of
        None \<Rightarrow> None
      | Some (Some first, b') \<Rightarrow> Some (Some first, ord, b')
      | Some (None, b') \<Rightarrow> (case ord of 0 \<Rightarrow> Some (None, 0, b') | Suc m \<Rightarrow> refill_alloc b' m))"

definition frame_pcp_refill :: "frame_allocator \<Rightarrow> (nat option \<times> frame_allocator) option" where
  "frame_pcp_refill s = do {
     (first, ord, b) \<leftarrow> refill_alloc (buddy s) 4;
     (case first of
        None \<Rightarrow> Some (None, s\<lparr>buddy := b\<rparr>)
      | Some frame \<Rightarrow>
          let units = 2 ^ ord in
          do {
            (st, b) \<leftarrow> buddy_trim_allocation b frame ord units;
            if st \<noteq> EOK then do {
              (st, b) \<leftarrow> buddy_free b frame ord;
              Some (None, s\<lparr>buddy := b\<rparr>)
            }
            else do {
              b \<leftarrow> set_range b frame units (\<lambda>p. p\<lparr>pg_tag := 0\<rparr>);
              b \<leftarrow> set_page b (int frame) (\<lambda>p. p\<lparr>pg_tag := 1\<rparr>);
              s \<leftarrow> fold_option frame_pcp_put (s\<lparr>buddy := b, usable_frames := size_sub (usable_frames s) 1\<rparr>)
                    [frame + 1..<frame + units];
              Some (Some frame, s)
            }
          })
   }"

section \<open>Allocation\<close>

definition alloc_single :: "frame_allocator \<Rightarrow> (nat option \<times> frame_allocator) option" where
  "alloc_single s = do {
     (frame, s) \<leftarrow> frame_pcp_pop s;
     (frame, s) \<leftarrow> (if frame = None then frame_pcp_refill s else Some (frame, s));
     (if frame = None then do { s \<leftarrow> frame_pcp_drain_all s; frame_pcp_refill s } else Some (frame, s))
   }"

text \<open>
  \<^verbatim>\<open>alloc_frames_aligned\<close> returns a physical address, 0 on failure. Its multi-page branch
  allocates a block, drains every cache and tries again when that fails, and trims the block.
\<close>

definition alloc_multi :: "frame_allocator \<Rightarrow> nat \<Rightarrow> nat \<Rightarrow> (nat \<times> frame_allocator) option" where
  "alloc_multi s ord count = do {
     (index, b) \<leftarrow> buddy_alloc (buddy s) ord;
     (index, s) \<leftarrow> (case index of
         Some i \<Rightarrow> Some (Some i, s\<lparr>buddy := b\<rparr>)
       | None \<Rightarrow> do {
           s \<leftarrow> frame_pcp_drain_all (s\<lparr>buddy := b\<rparr>);
           (index, b) \<leftarrow> buddy_alloc (buddy s) ord;
           Some (index, s\<lparr>buddy := b\<rparr>)
         });
     (case index of
        None \<Rightarrow> Some (0, s)
      | Some frame_index \<Rightarrow> do {
          (st, b) \<leftarrow> buddy_trim_allocation (buddy s) frame_index ord count;
          if st \<noteq> EOK then do {
            (st, b) \<leftarrow> buddy_free b frame_index ord;
            Some (0, s\<lparr>buddy := b\<rparr>)
          }
          else do {
            b \<leftarrow> set_range b frame_index count (\<lambda>p. p\<lparr>pg_tag := 1\<rparr>);
            Some (frame_index * PAGE_4K_SIZE,
                  s\<lparr>buddy := b, usable_frames := size_sub (usable_frames s) count\<rparr>)
          }
        })
   }"

definition alloc_frames_aligned :: "frame_allocator \<Rightarrow> nat \<Rightarrow> nat \<Rightarrow> (nat \<times> frame_allocator) option" where
  "alloc_frames_aligned s count alignment_order =
     (if count = 0 then Some (0, s)
      else let ord = buddy_order_for_units count in
        if ord > CONFIG_BUDDY_MAX_ORDER then Some (0, s)
        else let ord = (if alignment_order > ord then alignment_order else ord) in
          if count = 1 \<and> alignment_order = 0 then do {
            (frame, s) \<leftarrow> alloc_single s;
            Some (case frame of None \<Rightarrow> 0 | Some f \<Rightarrow> f * PAGE_4K_SIZE, s)
          }
          else alloc_multi s ord count)"

definition alloc_frames :: "frame_allocator \<Rightarrow> nat \<Rightarrow> (nat \<times> frame_allocator) option" where
  "alloc_frames s count = alloc_frames_aligned s count 0"

definition alloc_frames_2M :: "frame_allocator \<Rightarrow> nat \<Rightarrow> (nat \<times> frame_allocator) option" where
  "alloc_frames_2M s count =
     (if count = 0 \<or> count > (2 ^ 64 - 1) div 512 then Some (0, s)
      else alloc_frames_aligned s (count * 512) 9)"

definition alloc_frames_1G :: "frame_allocator \<Rightarrow> nat \<Rightarrow> (nat \<times> frame_allocator) option" where
  "alloc_frames_1G s count =
     (if count = 0 \<or> count > (2 ^ 64 - 1) div 262144 then Some (0, s)
      else alloc_frames_aligned s (count * 262144) 18)"

section \<open>Reference counts\<close>

text \<open>The argument checks that retain and release share.\<close>

definition range_args_ok :: "frame_allocator \<Rightarrow> nat \<Rightarrow> nat \<Rightarrow> bool" where
  "range_args_ok s addr count \<longleftrightarrow>
     \<not> (addr = 0 \<or> count = 0 \<or> addr AND (PAGE_4K_SIZE - 1) \<noteq> 0)
     \<and> \<not> (addr div PAGE_4K_SIZE \<ge> frame_count s \<or> count > frame_count s - addr div PAGE_4K_SIZE)"

fun retain_check :: "buddy_allocator \<Rightarrow> nat \<Rightarrow> nat \<Rightarrow> status option" where
  "retain_check b i 0 = Some EOK"
| "retain_check b i (Suc n) = do {
     p \<leftarrow> get_page b i;
     if pg_state p \<noteq> BUDDY_PAGE_ALLOC_HEAD \<or> pg_order p \<noteq> 0 then Some (ERR EFAULT)
     else if pg_tag p = 0 \<or> pg_tag p = 0xffffffff then Some (ERR EOVERFLOW)
     else retain_check b (Suc i) n
   }"

definition frame_retain_range :: "frame_allocator \<Rightarrow> nat \<Rightarrow> nat \<Rightarrow> (status \<times> frame_allocator) option" where
  "frame_retain_range s addr count =
     (if \<not> range_args_ok s addr count then Some (ERR EINVAL, s)
      else let frame_index = addr div PAGE_4K_SIZE in do {
        st \<leftarrow> retain_check (buddy s) frame_index count;
        if st \<noteq> EOK then Some (st, s)
        else do {
          b \<leftarrow> set_range (buddy s) frame_index count (\<lambda>p. p\<lparr>pg_tag := pg_tag p + 1\<rparr>);
          Some (EOK, s\<lparr>buddy := b\<rparr>)
        }
      })"

text \<open>
  The release drops one reference of every page; a page that reaches zero is marked for the
  handoff, and the second loop moves the marked pages to the cache. \<open>released\<close> counts them.
\<close>

definition release_page :: "buddy_page \<Rightarrow> buddy_page" where
  "release_page p =
     (let t = pg_tag p - 1 in if t = 0 then p\<lparr>pg_tag := t, pg_reserved := 1\<rparr> else p\<lparr>pg_tag := t\<rparr>)"

fun release_loop :: "buddy_allocator \<Rightarrow> nat \<Rightarrow> nat \<Rightarrow> nat \<Rightarrow> (nat \<times> buddy_allocator) option" where
  "release_loop b i 0 released = Some (released, b)"
| "release_loop b i (Suc n) released = do {
     p \<leftarrow> get_page b i;
     b \<leftarrow> set_page b (int i) release_page;
     release_loop b (Suc i) n (if pg_tag p - 1 = 0 then released + 1 else released)
   }"

definition handoff :: "frame_allocator \<Rightarrow> nat \<Rightarrow> frame_allocator option" where
  "handoff s i = do {
     p \<leftarrow> get_page (buddy s) i;
     b \<leftarrow> set_page (buddy s) (int i) (\<lambda>p. p\<lparr>pg_reserved := 0\<rparr>);
     if pg_reserved p \<noteq> 0 then frame_pcp_put (s\<lparr>buddy := b\<rparr>) i else Some (s\<lparr>buddy := b\<rparr>)
   }"

definition frame_release_range :: "frame_allocator \<Rightarrow> nat \<Rightarrow> nat \<Rightarrow> (status \<times> frame_allocator) option" where
  "frame_release_range s addr count =
     (if \<not> range_args_ok s addr count then Some (ERR EINVAL, s)
      else let frame_index = addr div PAGE_4K_SIZE in do {
        ok \<leftarrow> all_range (buddy s) frame_index count
              (\<lambda>p. \<not> (pg_state p \<noteq> BUDDY_PAGE_ALLOC_HEAD \<or> pg_order p \<noteq> 0 \<or> pg_tag p = 0));
        if \<not> ok then Some (ERR EFAULT, s)
        else do {
          (released, b) \<leftarrow> release_loop (buddy s) frame_index count 0;
          let s = s\<lparr>buddy := b, usable_frames := size_add (usable_frames s) released\<rparr>;
          s \<leftarrow> (if released \<noteq> 0 then fold_option handoff s [frame_index..<frame_index + count] else Some s);
          Some (EOK, s)
        }
      })"

definition frame_refcount :: "frame_allocator \<Rightarrow> nat \<Rightarrow> uint32_t option" where
  "frame_refcount s addr =
     (if addr = 0 \<or> addr AND (PAGE_4K_SIZE - 1) \<noteq> 0 then Some 0
      else let frame_index = addr div PAGE_4K_SIZE in
        if frame_index \<ge> frame_count s then Some 0
        else do {
          p \<leftarrow> get_page (buddy s) frame_index;
          if pg_state p \<noteq> BUDDY_PAGE_ALLOC_HEAD \<or> pg_order p \<noteq> 0 then Some 0 else Some (pg_tag p)
        })"

definition free_frame :: "frame_allocator \<Rightarrow> nat \<Rightarrow> frame_allocator option" where
  "free_frame s addr = map_option snd (frame_release_range s addr 1)"

definition free_frames :: "frame_allocator \<Rightarrow> nat \<Rightarrow> nat \<Rightarrow> frame_allocator option" where
  "free_frames s addr count = map_option snd (frame_release_range s addr count)"

definition free_frames_2M :: "frame_allocator \<Rightarrow> nat \<Rightarrow> frame_allocator option" where
  "free_frames_2M s addr = map_option snd (frame_release_range s addr (0x200000 div PAGE_4K_SIZE))"

definition free_frames_1G :: "frame_allocator \<Rightarrow> nat \<Rightarrow> frame_allocator option" where
  "free_frames_1G s addr = map_option snd (frame_release_range s addr (0x40000000 div PAGE_4K_SIZE))"

section \<open>Statistics and validation\<close>

definition frame_get_stats :: "frame_allocator \<Rightarrow> frame_stats" where
  "frame_get_stats s = \<lparr>st_total_frames = origin_frames s, st_free_frames = usable_frames s,
     st_metadata_frames = metadata_frames s,
     st_free_blocks = map (free_count (buddy s)) [0..<CONFIG_BUDDY_MAX_ORDER + 1], st_max_order = max_order (buddy s)\<rparr>"

definition frame_validate :: "frame_allocator \<Rightarrow> (status \<times> frame_allocator) option" where
  "frame_validate s = do {
     s \<leftarrow> frame_pcp_drain_all s;
     let result = buddy_validate (buddy s);
     Some (if result = EOK \<and> usable_frames s \<noteq> free_pages (buddy s) then ERR EFAULT else result, s)
   }"

section \<open>Initialisation\<close>

text \<open>
  \<^verbatim>\<open>init_frame\<close> reads the memory map of the boot loader. The page array lives in physical
  memory; its contents before the initialisation are the argument \<open>mem\<close>.
\<close>

record limine_memmap_entry =
  mm_base :: nat
  mm_length :: nat
  mm_usable :: bool

definition ALIGN_UP :: "nat \<Rightarrow> nat" where
  "ALIGN_UP a = size_add a (PAGE_4K_SIZE - 1) div PAGE_4K_SIZE * PAGE_4K_SIZE"

definition ALIGN_DOWN :: "nat \<Rightarrow> nat" where
  "ALIGN_DOWN a = a div PAGE_4K_SIZE * PAGE_4K_SIZE"

definition region_end :: "limine_memmap_entry \<Rightarrow> nat" where
  "region_end r = size_add (mm_base r) (mm_length r)"

fun find_memory_size :: "nat \<Rightarrow> limine_memmap_entry list \<Rightarrow> nat" where
  "find_memory_size memory_size [] = memory_size"
| "find_memory_size memory_size (r # rs) =
     find_memory_size (if mm_usable r \<and> region_end r > memory_size then region_end r else memory_size) rs"

fun place_metadata :: "nat \<Rightarrow> limine_memmap_entry list \<Rightarrow> nat" where
  "place_metadata metadata_size [] = 0"
| "place_metadata metadata_size (r # rs) =
     (let rstart = ALIGN_UP (max (mm_base r) 0x100000); rend = ALIGN_DOWN (region_end r) in
      if \<not> mm_usable r then place_metadata metadata_size rs
      else if rstart \<ge> rend \<or> rend - rstart < metadata_size then place_metadata metadata_size rs
      else ALIGN_DOWN (rend - metadata_size))"

definition add_unless_empty :: "buddy_allocator \<Rightarrow> nat \<Rightarrow> nat \<Rightarrow> buddy_allocator option" where
  "add_unless_empty b lo hi =
     (if lo < hi then map_option snd (buddy_add_range b lo (hi - lo)) else Some b)"

definition add_region ::
  "nat \<Rightarrow> nat \<Rightarrow> buddy_allocator \<times> nat \<Rightarrow> limine_memmap_entry \<Rightarrow> (buddy_allocator \<times> nat) option"
where
  "add_region metadata_start metadata_count st r =
     (let (b, origin) = st; start = ALIGN_UP (mm_base r); rend = ALIGN_DOWN (region_end r) in
      if \<not> mm_usable r \<or> start \<ge> rend then Some (b, origin)
      else
        let start_frame = start div PAGE_4K_SIZE;
            count = (rend - start) div PAGE_4K_SIZE;
            origin = size_add origin count;
            (start_frame, count) = (if start_frame = 0 then (1, count - 1) else (start_frame, count))
        in
          if count = 0 then Some (b, origin)
          else
            let range_end = start_frame + count in
            if metadata_start \<ge> range_end \<or> metadata_start + metadata_count \<le> start_frame
            then map_option (\<lambda>(st, b). (b, origin)) (buddy_add_range b start_frame count)
            else do {
              b \<leftarrow> add_unless_empty b start_frame metadata_start;
              b \<leftarrow> add_unless_empty b (metadata_start + metadata_count) range_end;
              Some (b, origin)
            })"

definition init_max_order :: "nat \<Rightarrow> nat" where
  "init_max_order count =
     (let n = buddy_order_for_units count in if n > CONFIG_BUDDY_MAX_ORDER \<or> 2 ^ n > count then n - 1 else n)"

definition init_frame ::
  "(nat \<Rightarrow> nat \<Rightarrow> buddy_page) \<Rightarrow> limine_memmap_entry list \<Rightarrow> frame_allocator \<Rightarrow> frame_allocator option"
where
  "init_frame mem memory_map s =
     (let memory_size = find_memory_size 0 memory_map;
          count = ALIGN_UP memory_size div PAGE_4K_SIZE;
          metadata_size = ALIGN_UP (count * 16);
          metadata_address = place_metadata metadata_size memory_map
      in
        if metadata_address = 0 then Some s
        else case buddy_init (buddy s) (Some (mem metadata_address)) count (init_max_order count) of
            (ERR e, b) \<Rightarrow> Some (s\<lparr>buddy := b\<rparr>)
          | (EOK, b) \<Rightarrow> do {
              (b, origin) \<leftarrow> fold_option (add_region (metadata_address div PAGE_4K_SIZE) (metadata_size div PAGE_4K_SIZE))
                  (b, 0) memory_map;
              Some (s\<lparr>buddy := b, frame_count := count, origin_frames := origin,
                      usable_frames := free_pages b, metadata_frames := metadata_size div PAGE_4K_SIZE\<rparr>)
            })"

end
