(* ===== verification/Frame_Inv.thy ===== *)
theory Frame_Inv
  imports Frame "HOL-Library.Multiset"
begin

text \<open>
  The invariant of the frame allocator of \<^verbatim>\<open>src/mem/frame.c\<close>, the interface through which it
  uses the buddy allocator (a locale interpreted on the model of \<^verbatim>\<open>src/mem/buddy.c\<close>), and the
  per-CPU caches: putting, draining and returning frames is invisible to the holders of frames.
\<close>

section \<open>The interface of a block pool\<close>

text \<open>
  What the frame allocator relies on when it returns pages: giving back a used block succeeds,
  moves exactly its pages to the available ones and leaves every other page alone.
\<close>

locale block_pool =
  fixes ok :: "'s \<Rightarrow> bool"
    and avail :: "'s \<Rightarrow> nat set"
    and used :: "'s \<Rightarrow> nat \<Rightarrow> nat option"
    and keeps :: "nat set \<Rightarrow> 's \<Rightarrow> 's \<Rightarrow> bool"
    and give :: "'s \<Rightarrow> nat \<Rightarrow> nat \<Rightarrow> (status \<times> 's) option"
  assumes give_used: "ok s \<Longrightarrow> used s i = Some n \<Longrightarrow>
      \<exists>t. give s i n = Some (EOK, t) \<and> ok t \<and> avail t = avail s \<union> {i ..< i + 2 ^ n}
        \<and> used t = (used s)(i := None) \<and> keeps (avail t) s t"
    and keeps_refl: "keeps S s s"
    and keeps_trans: "keeps S s t \<Longrightarrow> keeps T t u \<Longrightarrow> S \<subseteq> T \<Longrightarrow> keeps T s u"
begin

lemma give_all:
  "ok s \<Longrightarrow> distinct xs \<Longrightarrow> \<forall>x \<in> set xs. used s x = Some 0 \<Longrightarrow>
   \<exists>t. fold_option (\<lambda>s i. map_option snd (give s i 0)) s xs = Some t \<and> ok t \<and> avail t = avail s \<union> set xs
     \<and> used t = (\<lambda>i. if i \<in> set xs then None else used s i) \<and> keeps (avail t) s t"
proof (induction xs arbitrary: s)
  case Nil
  then show ?case by (simp add: keeps_refl)
next
  case (Cons x xs)
  from give_used [OF Cons.prems(1), of x 0] Cons.prems(3) obtain t where
    t: "give s x 0 = Some (EOK, t)" "ok t" "avail t = avail s \<union> {x}" "used t = (used s)(x := None)" "keeps (avail t) s t"
    by auto
  have "\<forall>y \<in> set xs. used t y = Some 0" using Cons.prems t(4) by auto
  from Cons.IH [OF t(2) _ this] Cons.prems(2) obtain u where
    u: "fold_option (\<lambda>s i. map_option snd (give s i 0)) t xs = Some u" "ok u" "avail u = avail t \<union> set xs"
      "used u = (\<lambda>i. if i \<in> set xs then None else used t i)" "keeps (avail u) t u" by auto
  have "keeps (avail u) s u" using keeps_trans [OF t(5) u(5)] u(3) by auto
  then show ?case using t u by (auto simp: fun_eq_iff)
qed

end

definition buddy_ok :: "buddy_allocator \<Rightarrow> bool" where
  "buddy_ok b \<longleftrightarrow> (\<exists>fl. buddy_inv b fl)"

abbreviation (input) bavail :: "buddy_allocator \<Rightarrow> nat set" where
  "bavail b \<equiv> pool_free (pool_of b)"

abbreviation (input) bused :: "buddy_allocator \<Rightarrow> nat \<Rightarrow> nat option" where
  "bused b \<equiv> pool_used (pool_of b)"

lemma ok_free:
  assumes "buddy_ok b" "bused b i = Some n"
  shows "\<exists>c. buddy_free b i n = Some (EOK, c) \<and> buddy_ok c \<and> bavail c = bavail b \<union> {i ..< i + 2 ^ n}
    \<and> bused c = (bused b)(i := None) \<and> owner_frame (bavail c) b c"
proof -
  obtain fl where inv: "buddy_inv b fl" using assms(1) by (auto simp: buddy_ok_def)
  from free_refines [OF inv, of i n] assms(2) obtain c fl' where
    c: "buddy_free b i n = Some (EOK, c)" "buddy_inv c fl'" "pool_give (pool_of b) n i (pool_of c)"
      "owner_frame (free_set fl \<union> {i ..< i + 2 ^ n}) b c" by auto
  from c(3) have "bavail c = bavail b \<union> {i ..< i + 2 ^ n}" "bused c = (bused b)(i := None)"
    by (auto elim!: pool_giveE)
  with c show ?thesis using pool_free_eq [OF inv] by (auto simp: buddy_ok_def)
qed

interpretation bp: block_pool buddy_ok bavail bused owner_frame buddy_free
proof
  show "owner_frame S s s" for S s by (simp add: owner_frame_def)
  show "owner_frame S s t \<Longrightarrow> owner_frame T t u \<Longrightarrow> S \<subseteq> T \<Longrightarrow> owner_frame T s u" for S s t T u
    using owner_frame_trans by blast
qed (rule ok_free)

lemma ok_alloc:
  assumes "buddy_ok b"
  shows "buddy_alloc b n = Some (None, b)
    \<or> (\<exists>i c. buddy_alloc b n = Some (Some i, c) \<and> buddy_ok c \<and> 2 ^ n dvd i \<and> {i ..< i + 2 ^ n} \<subseteq> bavail b
        \<and> bavail c = bavail b - {i ..< i + 2 ^ n} \<and> bused c = (bused b)(i := Some n) \<and> page_frame (bavail b) b c)"
proof -
  obtain fl where inv: "buddy_inv b fl" using assms by (auto simp: buddy_ok_def)
  from alloc_refines [OF inv, of n] show ?thesis
  proof (elim disjE exE conjE)
    fix i c fl' assume c: "buddy_alloc b n = Some (Some i, c)" "buddy_inv c fl'"
      "pool_take (pool_of b) n i (pool_of c)" "page_frame (free_set fl) b c"
    from c(3) have "2 ^ n dvd i" "{i ..< i + 2 ^ n} \<subseteq> bavail b" "bavail c = bavail b - {i ..< i + 2 ^ n}"
      "bused c = (bused b)(i := Some n)" by (auto elim!: pool_takeE)
    with c show ?thesis using pool_free_eq [OF inv] by (auto simp: buddy_ok_def)
  qed simp
qed

lemma ok_trim:
  assumes "buddy_ok b" "bused b i = Some n" "0 < keep" "keep \<le> 2 ^ n"
  shows "\<exists>c. buddy_trim_allocation b i n keep = Some (EOK, c) \<and> buddy_ok c
    \<and> bavail c = bavail b \<union> {i + keep ..< i + 2 ^ n}
    \<and> bused c = (\<lambda>j. if i \<le> j \<and> j < i + keep then Some 0 else if i \<le> j \<and> j < i + 2 ^ n then None else bused b j)
    \<and> owner_frame (bavail b \<union> {i ..< i + 2 ^ n}) b c \<and> (\<forall>j. i \<le> j \<and> j < i + keep \<longrightarrow> pg_tag (pages c j) = 0)"
proof -
  obtain fl where inv: "buddy_inv b fl" using assms(1) by (auto simp: buddy_ok_def)
  from trim_refines [OF inv, of i n keep] assms(2-4) obtain c fl' where
    c: "buddy_trim_allocation b i n keep = Some (EOK, c)" "buddy_inv c fl'" "pool_trim (pool_of b) n i keep (pool_of c)"
      "owner_frame (free_set fl \<union> {i ..< i + 2 ^ n}) b c" "\<forall>j. i \<le> j \<and> j < i + keep \<longrightarrow> pg_tag (pages c j) = 0" by auto
  from c(3) have "bavail c = bavail b \<union> {i + keep ..< i + 2 ^ n}"
    "bused c = (\<lambda>j. if i \<le> j \<and> j < i + keep then Some 0 else if i \<le> j \<and> j < i + 2 ^ n then None else bused b j)"
    by (auto elim!: pool_trimE)
  with c show ?thesis using pool_free_eq [OF inv] by (auto simp: buddy_ok_def)
qed

lemma ok_bounds:
  assumes "buddy_ok b"
  shows "bavail b \<subseteq> {..< page_count b}" "bused b i = Some n \<Longrightarrow> i + 2 ^ n \<le> page_count b"
    "bused b i = Some n \<Longrightarrow> {i ..< i + 2 ^ n} \<inter> bavail b = {}" "page_count b \<le> 0x7fffffff" "0 < page_count b"
    "max_order b \<le> CONFIG_BUDDY_MAX_ORDER"
proof -
  obtain fl where inv: "buddy_inv b fl" using assms by (auto simp: buddy_ok_def)
  show "bavail b \<subseteq> {..< page_count b}" using free_set_state(1) [OF inv] pool_free_eq [OF inv] by auto
  show "page_count b \<le> 0x7fffffff" "max_order b \<le> CONFIG_BUDDY_MAX_ORDER" "0 < page_count b" using inv_sizes [OF inv] by auto
  have al: "alloc_block b i n" if "bused b i = Some n"
    using alloc_blockD [OF inv, of i] that by (auto simp: used_iff)
  show "i + 2 ^ n \<le> page_count b" if "bused b i = Some n" using al [OF that] by (simp add: alloc_block_def)
  show "{i ..< i + 2 ^ n} \<inter> bavail b = {}" if "bused b i = Some n"
    using alloc_not_free [OF inv al [OF that]] pool_free_eq [OF inv] by auto
qed

lemma ok_meta:
  assumes "buddy_ok b" "c = b\<lparr>pages := P\<rparr>"
    "\<And>j. pg_next (P j) = pg_next (pages b j) \<and> pg_prev (P j) = pg_prev (pages b j)
      \<and> pg_state (P j) = pg_state (pages b j) \<and> pg_order (P j) = pg_order (pages b j)"
  shows "buddy_ok c" "pool_of c = pool_of b" "page_count c = page_count b" "free_pages c = free_pages b"
proof -
  obtain fl where inv: "buddy_inv b fl" using assms(1) by (auto simp: buddy_ok_def)
  have "buddy_inv c fl"
  proof (rule buddy_inv_outside [OF inv assms(2)], goal_cases)
    case (3 j)
    then show ?case using free_head_iff [OF inv, of j "pg_order (pages b j)"] free_set_block [of j fl "pg_order (pages b j)"] assms(3)
      by force
  next
    case (4 j)
    then have al: "alloc_block b j (pg_order (pages b j))" using alloc_blockD [OF inv] assms(3) by simp
    have "alloc_block c j (pg_order (pages b j))" by (rule alloc_block_cong [OF al]) (simp_all add: assms)
    then show ?case by (simp add: assms(3))
  qed (simp_all add: assms(3))
  then show "buddy_ok c" by (auto simp: buddy_ok_def)
qed (simp_all add: assms pool_of_def fun_eq_iff cong: if_cong)

section \<open>Reference counts and idle pages\<close>

text \<open>
  The two views a client has: the reference count of a frame, and the frames no one holds,
  which are free in the buddy allocator or parked in a cache with a zero count.
\<close>

definition refs :: "frame_allocator \<Rightarrow> nat \<Rightarrow> uint32_t" where
  "refs s i = (if bused (buddy s) i = None then 0 else pg_tag (pages (buddy s) i))"

definition parked :: "buddy_allocator \<Rightarrow> nat set" where
  "parked b = {i. bused b i \<noteq> None \<and> pg_tag (pages b i) = 0}"

definition idle :: "frame_allocator \<Rightarrow> nat set" where
  "idle s = bavail (buddy s) \<union> parked (buddy s)"

definition cache_list :: "frame_allocator \<Rightarrow> nat list" where
  "cache_list s = concat (map (frame_pcp s) [0..<CONFIG_FRAME_PCP_MAX_CPUS])"

text \<open>
  The invariant, relative to the set \<open>W\<close> of frames on their way to a cache: every block is a
  single frame, the frames with a zero count are exactly those in the caches and in \<open>W\<close>, each
  once, the caches are within their bound, and the counter of usable frames counts the idle ones.
\<close>

definition frame_inv :: "frame_allocator \<Rightarrow> nat set \<Rightarrow> bool" where
  "frame_inv s W \<longleftrightarrow> buddy_ok (buddy s) \<and> frame_count s = page_count (buddy s)
     \<and> (\<forall>i n. bused (buddy s) i = Some n \<longrightarrow> n = 0)
     \<and> distinct (cache_list s) \<and> set (cache_list s) \<inter> W = {} \<and> set (cache_list s) \<union> W = parked (buddy s)
     \<and> (\<forall>cpu < CONFIG_FRAME_PCP_MAX_CPUS. length (frame_pcp s cpu) \<le> CONFIG_FRAME_PCP_HIGH)
     \<and> usable_frames s = card (idle s) \<and> 0 \<notin> bavail (buddy s) \<and> bused (buddy s) 0 = None"

text \<open>Steps that move frames between the caches and the buddy allocator are invisible.\<close>

definition quiet :: "frame_allocator \<Rightarrow> frame_allocator \<Rightarrow> bool" where
  "quiet s t \<longleftrightarrow> refs t = refs s \<and> idle t = idle s \<and> usable_frames t = usable_frames s
     \<and> frame_count t = frame_count s \<and> origin_frames t = origin_frames s \<and> metadata_frames t = metadata_frames s
     \<and> sched_started t = sched_started s \<and> current_cpu t = current_cpu s \<and> max_order (buddy t) = max_order (buddy s)
     \<and> (\<forall>i. pg_reserved (pages (buddy t) i) = pg_reserved (pages (buddy s) i))"

lemma quiet_refl [simp]: "quiet s s" by (simp add: quiet_def)

lemma quiet_trans [trans]: "quiet s t \<Longrightarrow> quiet t u \<Longrightarrow> quiet s u"
  by (simp add: quiet_def)

lemma parked_not_avail: "buddy_ok b \<Longrightarrow> parked b \<inter> bavail b = {}"
  using ok_bounds(3) [of b] by (fastforce simp: parked_def)

lemma idle_finite: "buddy_ok (buddy s) \<Longrightarrow> finite (idle s)"
proof -
  assume ok: "buddy_ok (buddy s)"
  have "idle s \<subseteq> {..< page_count (buddy s)}"
    using ok_bounds(1) [OF ok] by (auto simp: idle_def parked_def used_none)
  then show ?thesis by (rule finite_subset) simp
qed

lemma cache_list_split:
  assumes "cpu < CONFIG_FRAME_PCP_MAX_CPUS"
  shows "mset (cache_list (s\<lparr>frame_pcp := (frame_pcp s)(cpu := xs)\<rparr>)) + mset (frame_pcp s cpu) = mset (cache_list s) + mset xs"
proof -
  have "[0..<CONFIG_FRAME_PCP_MAX_CPUS] = [0..<cpu] @ cpu # [Suc cpu..<CONFIG_FRAME_PCP_MAX_CPUS]"
    using assms upt_add_eq_append [of 0 cpu "CONFIG_FRAME_PCP_MAX_CPUS - cpu"] upt_conv_Cons [of cpu CONFIG_FRAME_PCP_MAX_CPUS] by simp
  moreover have "map ((frame_pcp s)(cpu := xs)) [0..<cpu] = map (frame_pcp s) [0..<cpu]"
    "map ((frame_pcp s)(cpu := xs)) [Suc cpu..<CONFIG_FRAME_PCP_MAX_CPUS] = map (frame_pcp s) [Suc cpu..<CONFIG_FRAME_PCP_MAX_CPUS]"
    by auto
  ultimately show ?thesis by (simp add: cache_list_def)
qed

text \<open>Returning parked frames to the buddy allocator.\<close>

lemma return_spec:
  assumes ok: "buddy_ok (buddy s)" and u: "\<forall>i n. bused (buddy s) i = Some n \<longrightarrow> n = 0"
    and xs: "distinct xs" "set xs \<subseteq> parked (buddy s)"
  shows "\<exists>b. frame_pcp_return_to_buddy s xs = Some (s\<lparr>buddy := b\<rparr>) \<and> buddy_ok b \<and> parked b = parked (buddy s) - set xs
    \<and> bavail b = bavail (buddy s) \<union> set xs \<and> bused b = (\<lambda>i. if i \<in> set xs then None else bused (buddy s) i)
    \<and> page_count b = page_count (buddy s) \<and> quiet s (s\<lparr>buddy := b\<rparr>)"
proof -
  have "\<forall>x \<in> set xs. bused (buddy s) x = Some 0" using xs(2) u by (fastforce simp: parked_def)
  from bp.give_all [OF ok xs(1) this] obtain b where
    b: "fold_option (\<lambda>b i. map_option snd (buddy_free b i 0)) (buddy s) xs = Some b" "buddy_ok b"
      "bavail b = bavail (buddy s) \<union> set xs" "bused b = (\<lambda>i. if i \<in> set xs then None else bused (buddy s) i)"
      "owner_frame (bavail b) (buddy s) b" by blast
  have tag: "pg_tag (pages b i) = pg_tag (pages (buddy s) i)" if h: "bused b i \<noteq> None" for i
  proof -
    from h obtain n where "bused b i = Some n" by blast
    from ok_bounds(3) [OF b(2) this] have "i \<notin> bavail b" by fastforce
    with b(5) show ?thesis by (simp add: owner_frame_def)
  qed
  then have "parked b = parked (buddy s) - set xs" by (auto simp: parked_def b(4))
  moreover have "refs (s\<lparr>buddy := b\<rparr>) = refs s" using tag xs(2) by (auto simp: refs_def fun_eq_iff b(4) parked_def)
  moreover have "idle (s\<lparr>buddy := b\<rparr>) = idle s" using calculation(1) xs(2) by (auto simp: idle_def b(3))
  moreover have "frame_pcp_return_to_buddy s xs = Some (s\<lparr>buddy := b\<rparr>)" using b(1) by (simp add: frame_pcp_return_to_buddy_def)
  ultimately show ?thesis using b by (auto simp: quiet_def owner_frame_def)
qed

section \<open>The per-CPU caches\<close>

lemma settle:
  assumes inv: "frame_inv s W" and c: "c = s\<lparr>frame_pcp := fp\<rparr>"
    and ms: "mset (cache_list c) + mset ys = mset (cache_list s) + mset ws" and ws: "distinct ws" "set ws \<subseteq> W"
    and len: "\<And>cpu. cpu < CONFIG_FRAME_PCP_MAX_CPUS \<Longrightarrow> length (fp cpu) \<le> CONFIG_FRAME_PCP_HIGH"
  shows "\<exists>t. frame_pcp_return_to_buddy c ys = Some t \<and> frame_inv t (W - set ws) \<and> quiet s t \<and> frame_pcp t = fp"
proof -
  have d: "distinct (cache_list s @ ws)" using inv ws by (auto simp: frame_inv_def)
  have "mset (cache_list c @ ys) = mset (cache_list s @ ws)" using ms by simp
  then have d': "distinct (cache_list c @ ys)" "set (cache_list c) \<union> set ys = set (cache_list s) \<union> set ws"
    using d mset_eq_imp_distinct_iff mset_eq_setD set_append by metis+
  have pk: "set (cache_list s) \<union> W = parked (buddy s)" "set (cache_list s) \<inter> W = {}" using inv by (auto simp: frame_inv_def)
  have qc: "quiet s c" by (simp add: c quiet_def refs_def idle_def fun_eq_iff)
  have bc: "buddy c = buddy s" by (simp add: c)
  have "set ys \<subseteq> parked (buddy s)" using d'(2) pk ws by blast
  from return_spec [of c ys, unfolded bc] this obtain b where b: "frame_pcp_return_to_buddy c ys = Some (c\<lparr>buddy := b\<rparr>)" "buddy_ok b"
      "parked b = parked (buddy s) - set ys" "bavail b = bavail (buddy s) \<union> set ys"
      "bused b = (\<lambda>i. if i \<in> set ys then None else bused (buddy s) i)" "page_count b = page_count (buddy s)" "quiet c (c\<lparr>buddy := b\<rparr>)"
    using inv d'(1) unfolding frame_inv_def distinct_append by blast
  let ?t = "c\<lparr>buddy := b\<rparr>"
  have q: "quiet s ?t" using quiet_trans [OF qc b(7)] .
  have cl: "cache_list ?t = cache_list c" by (simp add: cache_list_def)
  have "set (cache_list c) \<inter> (W - set ws) = {}" "set (cache_list c) \<union> (W - set ws) = parked b"
    using d' pk ws unfolding b(3) by auto
  moreover have "0 \<notin> set ys" using \<open>set ys \<subseteq> parked (buddy s)\<close> inv by (auto simp: parked_def frame_inv_def)
  ultimately have "frame_inv ?t (W - set ws)"
    using inv q b(2,4,5,6) d'(1) len unfolding frame_inv_def cl quiet_def by (auto simp: c split: if_splits)
  with b(1) q show ?thesis by (auto simp: c)
qed

lemma pcp_cpu_cases: "frame_pcp_cpu s \<le> CONFIG_FRAME_PCP_MAX_CPUS"
  by (simp add: frame_pcp_cpu_def)

lemma put_spec:
  assumes inv: "frame_inv s W" and f: "f \<in> W"
  shows "\<exists>t. frame_pcp_put s f = Some t \<and> frame_inv t (W - {f}) \<and> quiet s t"
proof (cases "frame_pcp_cpu s \<ge> CONFIG_FRAME_PCP_MAX_CPUS")
  case True
  have "s\<lparr>frame_pcp := frame_pcp s\<rparr> = s" by simp
  then show ?thesis using settle [OF inv, of s "frame_pcp s" "[f]" "[f]"] f inv True
    by (auto simp: frame_pcp_put_def Let_def frame_inv_def)
next
  case False
  define cpu where "cpu = frame_pcp_cpu s"
  define xs where "xs = frame_pcp s cpu"
  define full where "full = (length xs = CONFIG_FRAME_PCP_HIGH)"
  define kept where "kept = (if full then take 48 xs else xs)"
  define drain where "drain = (if full then rev (drop 48 xs) else [])"
  have cpu: "cpu < CONFIG_FRAME_PCP_MAX_CPUS" using False by (simp add: cpu_def)
  have len: "length (frame_pcp s c) \<le> CONFIG_FRAME_PCP_HIGH" if "c < CONFIG_FRAME_PCP_MAX_CPUS" for c
    using inv that by (simp add: frame_inv_def)
  then have kl: "length kept < CONFIG_FRAME_PCP_HIGH" using len [OF cpu] by (auto simp: kept_def full_def xs_def)
  have "mset (take 48 xs) + mset (drop 48 xs) = mset xs" by (metis append_take_drop_id mset_append)
  then have m: "mset kept + mset drain = mset xs" by (simp add: kept_def drain_def)
  define c where "c = s\<lparr>frame_pcp := (frame_pcp s)(cpu := kept @ [f])\<rparr>"
  have "mset (cache_list c) + mset xs = mset (cache_list s) + mset (kept @ [f])"
    unfolding c_def xs_def by (rule cache_list_split [OF cpu])
  then have "mset (cache_list c) + mset drain + mset kept = mset (cache_list s) + mset [f] + mset kept"
    unfolding m [symmetric] by (simp add: ac_simps)
  then have ms: "mset (cache_list c) + mset drain = mset (cache_list s) + mset [f]" by simp
  have "length (((frame_pcp s)(cpu := kept @ [f])) p) \<le> CONFIG_FRAME_PCP_HIGH" if "p < CONFIG_FRAME_PCP_MAX_CPUS" for p
    using kl len [OF that] by auto
  from settle [OF inv c_def ms _ _ this] f obtain t where
    "frame_pcp_return_to_buddy c drain = Some t" "frame_inv t (W - {f})" "quiet s t" by auto
  moreover have "frame_pcp_put s f = frame_pcp_return_to_buddy c drain"
    using False kl by (cases full) (simp_all add: frame_pcp_put_def Let_def cpu_def [symmetric] xs_def [symmetric]
        full_def [symmetric] kept_def drain_def c_def)
  ultimately show ?thesis by metis
qed

lemma put_all_spec:
  "frame_inv s W \<Longrightarrow> distinct xs \<Longrightarrow> set xs \<subseteq> W \<Longrightarrow>
   \<exists>t. fold_option frame_pcp_put s xs = Some t \<and> frame_inv t (W - set xs) \<and> quiet s t"
proof (induction xs arbitrary: s W)
  case (Cons x xs)
  from put_spec [OF Cons.prems(1)] Cons.prems(3) obtain t where
    t: "frame_pcp_put s x = Some t" "frame_inv t (W - {x})" "quiet s t" by auto
  from Cons.IH [OF t(2)] Cons.prems obtain u where
    "fold_option frame_pcp_put t xs = Some u" "frame_inv u (W - {x} - set xs)" "quiet t u" by auto
  moreover have "W - {x} - set xs = W - set (x # xs)" by auto
  ultimately show ?case using t quiet_trans by auto
qed simp

lemma drain_cpu_spec:
  assumes inv: "frame_inv s W" and cpu: "cpu < CONFIG_FRAME_PCP_MAX_CPUS"
  shows "\<exists>t. frame_pcp_drain_cpu s cpu = Some t \<and> frame_inv t W \<and> quiet s t \<and> frame_pcp t = (frame_pcp s)(cpu := [])"
proof -
  have "mset (cache_list (s\<lparr>frame_pcp := (frame_pcp s)(cpu := [])\<rparr>)) + mset (frame_pcp s cpu) = mset (cache_list s) + mset []"
    by (rule cache_list_split [OF cpu])
  from settle [OF inv refl this] inv show ?thesis by (auto simp: frame_pcp_drain_cpu_def Let_def frame_inv_def)
qed

lemma drain_list_spec:
  "frame_inv s W \<Longrightarrow> set cpus \<subseteq> {..< CONFIG_FRAME_PCP_MAX_CPUS} \<Longrightarrow>
   \<exists>t. fold_option frame_pcp_drain_cpu s cpus = Some t \<and> frame_inv t W \<and> quiet s t
     \<and> frame_pcp t = (\<lambda>c. if c \<in> set cpus then [] else frame_pcp s c)"
proof (induction cpus arbitrary: s)
  case (Cons c cpus)
  from drain_cpu_spec [OF Cons.prems(1), of c] Cons.prems(2) obtain t where
    t: "frame_pcp_drain_cpu s c = Some t" "frame_inv t W" "quiet s t" "frame_pcp t = (frame_pcp s)(c := [])" by auto
  from Cons.IH [OF t(2)] Cons.prems(2) obtain u where
    "fold_option frame_pcp_drain_cpu t cpus = Some u" "frame_inv u W" "quiet t u"
    "frame_pcp u = (\<lambda>c. if c \<in> set cpus then [] else frame_pcp t c)" by auto
  with t quiet_trans show ?case by (auto simp: fun_eq_iff)
qed simp

lemma drain_all_spec:
  assumes inv: "frame_inv s W"
  shows "\<exists>t. frame_pcp_drain_all s = Some t \<and> frame_inv t W \<and> quiet s t \<and> cache_list t = []"
proof -
  from drain_list_spec [OF inv, of "[0..<CONFIG_FRAME_PCP_MAX_CPUS]"] obtain t where
    "frame_pcp_drain_all s = Some t" "frame_inv t W" "quiet s t" "\<forall>c < CONFIG_FRAME_PCP_MAX_CPUS. frame_pcp t c = []"
    unfolding frame_pcp_drain_all_def by (auto simp: atLeast0LessThan simp del: upt_rec_numeral)
  then show ?thesis by (auto simp: cache_list_def simp del: upt_rec_numeral)
qed

end
