(* ===== verification/Frame_Ops.thy ===== *)
theory Frame_Ops
  imports Frame_Inv
begin

text \<open>
  The operations of \<^verbatim>\<open>src/mem/frame.c\<close> against the invariant: what an allocation takes from the
  idle frames, and what retaining and releasing do to the reference counts.
\<close>

section \<open>Allocation\<close>

lemma avail_unused: "buddy_ok b \<Longrightarrow> j \<in> bavail b \<Longrightarrow> bused b j = None"
  using ok_bounds(3) [of b j] by (cases "bused b j") fastforce+

lemma carve:
  assumes ok: "buddy_ok b" and keep: "0 < keep" "keep \<le> 2 ^ n"
  shows "buddy_alloc b n = Some (None, b)
    \<or> (\<exists>f c1 c. buddy_alloc b n = Some (Some f, c1) \<and> buddy_trim_allocation c1 f n keep = Some (EOK, c) \<and> buddy_ok c
        \<and> 2 ^ n dvd f \<and> {f ..< f + keep} \<subseteq> bavail b \<and> bavail c = bavail b - {f ..< f + keep}
        \<and> bused c = (\<lambda>j. if f \<le> j \<and> j < f + keep then Some 0 else bused b j)
        \<and> (\<forall>j. bused b j \<noteq> None \<longrightarrow> pg_tag (pages c j) = pg_tag (pages b j))
        \<and> (\<forall>j. f \<le> j \<and> j < f + keep \<longrightarrow> pg_tag (pages c j) = 0)
        \<and> (\<forall>j. pg_reserved (pages c j) = pg_reserved (pages b j)) \<and> page_count c = page_count b \<and> max_order c = max_order b)"
  using ok_alloc [OF ok, of n]
proof (elim disjE exE conjE)
  fix f c1 assume a: "buddy_alloc b n = Some (Some f, c1)" "buddy_ok c1" "2 ^ n dvd f" "{f ..< f + 2 ^ n} \<subseteq> bavail b"
    "bavail c1 = bavail b - {f ..< f + 2 ^ n}" "bused c1 = (bused b)(f := Some n)" "page_frame (bavail b) b c1"
  from a(6) have u: "bused c1 f = Some n" by simp
  from ok_trim [OF a(2) u keep] obtain c where c: "buddy_trim_allocation c1 f n keep = Some (EOK, c)" "buddy_ok c"
    "bavail c = bavail c1 \<union> {f + keep ..< f + 2 ^ n}"
    "bused c = (\<lambda>j. if f \<le> j \<and> j < f + keep then Some 0 else if f \<le> j \<and> j < f + 2 ^ n then None else bused c1 j)"
    "owner_frame (bavail c1 \<union> {f ..< f + 2 ^ n}) c1 c" "\<forall>j. f \<le> j \<and> j < f + keep \<longrightarrow> pg_tag (pages c j) = 0" by blast
  have iv: "{f ..< f + 2 ^ n} = {f ..< f + keep} \<union> {f + keep ..< f + 2 ^ n}"
    using keep by (simp add: ivl_disj_un_two(3))
  have av: "bavail c = bavail b - {f ..< f + keep}" unfolding c(3) a(5) using a(4) iv by auto
  have un: "bused b j = None" if "f \<le> j" "j < f + 2 ^ n" for j
    using avail_unused [OF ok, of j] a(4) that by auto
  then have us: "bused c = (\<lambda>j. if f \<le> j \<and> j < f + keep then Some 0 else bused b j)"
    unfolding c(4) a(6) using keep by (auto simp: fun_eq_iff)
  have own: "owner_frame (bavail b) b c"
    by (rule owner_frame_trans [OF page_frame_owner [OF a(7)] c(5)]) (use a(4,5) in auto)
  have "pg_tag (pages c j) = pg_tag (pages b j)" if "bused b j \<noteq> None" for j
    using own avail_unused [OF ok, of j] that by (auto simp: owner_frame_def)
  moreover have "{f ..< f + keep} \<subseteq> bavail b" using a(4) iv by auto
  ultimately show ?thesis using a c av us own unfolding owner_frame_def by blast
qed simp

definition took :: "nat set \<Rightarrow> frame_allocator \<Rightarrow> frame_allocator \<Rightarrow> bool" where
  "took F s t \<longleftrightarrow> F \<subseteq> idle s \<and> idle t = idle s - F \<and> refs t = (\<lambda>i. if i \<in> F then 1 else refs s i)
     \<and> usable_frames t = usable_frames s - card F \<and> frame_count t = frame_count s
     \<and> origin_frames t = origin_frames s \<and> metadata_frames t = metadata_frames s \<and> max_order (buddy t) = max_order (buddy s)
     \<and> (\<forall>i. pg_reserved (pages (buddy t) i) = pg_reserved (pages (buddy s) i))"

lemma quiet_took: "quiet s t \<Longrightarrow> took F t u \<Longrightarrow> took F s u"
  by (simp add: quiet_def took_def cong: if_cong)

lemma took_quiet: "took F s t \<Longrightarrow> quiet t u \<Longrightarrow> took F s u"
  by (simp add: quiet_def took_def cong: if_cong)

lemma usable_bound: "frame_inv s W \<Longrightarrow> usable_frames s < 2 ^ 64"
proof -
  assume inv: "frame_inv s W"
  then have ok: "buddy_ok (buddy s)" by (simp add: frame_inv_def)
  have "idle s \<subseteq> {..< page_count (buddy s)}" using ok_bounds(1) [OF ok] by (auto simp: idle_def parked_def used_none)
  then have "card (idle s) \<le> page_count (buddy s)" using card_mono [of "{..< page_count (buddy s)}"] by simp
  then show ?thesis using ok_bounds(4) [OF ok] inv by (simp add: frame_inv_def)
qed

text \<open>Handing out frames: the pages of \<open>F\<close> get one reference, those of \<open>W\<close> wait for a cache.\<close>

lemma hand_out:
  assumes inv: "frame_inv s {}" and ok: "buddy_ok c" and F: "F \<subseteq> K" "F \<noteq> {}" and K: "K \<subseteq> bavail (buddy s)"
    and av: "bavail c = bavail (buddy s) - K" and us: "bused c = (\<lambda>j. if j \<in> K then Some 0 else bused (buddy s) j)"
    and tag: "\<And>j. bused (buddy s) j \<noteq> None \<Longrightarrow> pg_tag (pages c j) = pg_tag (pages (buddy s) j)"
    and one: "\<And>j. j \<in> F \<Longrightarrow> pg_tag (pages c j) = 1" and zero: "\<And>j. j \<in> K - F \<Longrightarrow> pg_tag (pages c j) = 0"
    and rs: "\<And>j. pg_reserved (pages c j) = pg_reserved (pages (buddy s) j)" and pc: "page_count c = page_count (buddy s)" "max_order c = max_order (buddy s)"
  shows "frame_inv (s\<lparr>buddy := c, usable_frames := size_sub (usable_frames s) (card F)\<rparr>) (K - F)
    \<and> took F s (s\<lparr>buddy := c, usable_frames := size_sub (usable_frames s) (card F)\<rparr>)"
proof -
  let ?t = "s\<lparr>buddy := c, usable_frames := size_sub (usable_frames s) (card F)\<rparr>"
  have sok: "buddy_ok (buddy s)" and un: "usable_frames s = card (idle s)" using inv by (simp_all add: frame_inv_def)
  have fin: "finite (idle s)" "F \<subseteq> idle s" using idle_finite [OF sok] F K by (auto simp: idle_def)
  then have us': "size_sub (usable_frames s) (card F) = usable_frames s - card F"
    using usable_bound [OF inv] card_mono [OF fin] un by (intro size_sub_exact) auto
  have kn: "bused (buddy s) j = None" if "j \<in> K" for j using avail_unused [OF sok] K that by blast
  have pk: "parked c = parked (buddy s) \<union> (K - F)"
  proof (rule set_eqI)
    fix j
    consider "j \<in> F" | "j \<in> K - F" | "j \<notin> K" "bused (buddy s) j = None" | "j \<notin> K" "bused (buddy s) j \<noteq> None" by blast
    then show "j \<in> parked c \<longleftrightarrow> j \<in> parked (buddy s) \<union> (K - F)"
      by cases (use F kn us tag one zero in \<open>auto simp: parked_def\<close>)
  qed
  have fp: "F \<inter> parked (buddy s) = {}" using F kn by (auto simp: parked_def)
  have id: "idle ?t = idle s - F"
    using F K fp by (auto simp: idle_def pk av)
  have "card (idle ?t) = card (idle s) - card F" unfolding id using fin by (intro card_Diff_subset finite_subset [OF fin(2)])
  moreover have "cache_list ?t = cache_list s" by (simp add: cache_list_def)
  moreover have "set (cache_list s) \<inter> (K - F) = {}" using inv kn by (fastforce simp: frame_inv_def parked_def)
  moreover have "bused c 0 = None" "0 \<notin> bavail c" using inv K by (auto simp: frame_inv_def us av)
  ultimately have "frame_inv ?t (K - F)"
    using inv ok pk us' un pc by (auto simp: frame_inv_def us split: if_splits)
  moreover have "refs ?t = (\<lambda>i. if i \<in> F then 1 else refs s i)"
    using F kn tag one zero by (auto simp: refs_def fun_eq_iff us)
  ultimately show ?thesis using fin id us' rs pc by (simp add: took_def)
qed

definition retag :: "(nat \<Rightarrow> uint32_t) \<Rightarrow> buddy_allocator \<Rightarrow> buddy_allocator" where
  "retag T b = b\<lparr>pages := \<lambda>j. (pages b j)\<lparr>pg_tag := T j\<rparr>\<rparr>"

lemma retag_simps [simp]:
  "pg_tag (pages (retag T b) j) = T j" "pg_reserved (pages (retag T b) j) = pg_reserved (pages b j)"
  "page_count (retag T b) = page_count b" "max_order (retag T b) = max_order b" "pool_of (retag T b) = pool_of b" "retag U (retag T b) = retag U b"
  by (simp_all add: retag_def pool_of_def cong: if_cong)

lemma ok_retag [simp]: "buddy_ok b \<Longrightarrow> buddy_ok (retag T b)"
  by (rule ok_meta(1) [of b _ "\<lambda>j. (pages b j)\<lparr>pg_tag := T j\<rparr>"]) (simp_all add: retag_def)

lemma set_page_tag:
  "i < page_count b \<Longrightarrow> set_page b (int i) (\<lambda>p. p\<lparr>pg_tag := v\<rparr>) = Some (retag ((\<lambda>j. pg_tag (pages b j))(i := v)) b)"
  by (auto simp: set_page_def retag_def fun_eq_iff intro!: buddy_allocator.fold_congs)

lemma set_range_tag:
  "i + n \<le> page_count b \<Longrightarrow> set_range b i n (\<lambda>p. p\<lparr>pg_tag := v\<rparr>)
     = Some (retag (\<lambda>j. if i \<le> j \<and> j < i + n then v else pg_tag (pages b j)) b)"
  by (auto simp: set_range_eq retag_def fun_eq_iff intro!: buddy_allocator.fold_congs)

definition handed :: "nat \<Rightarrow> nat \<Rightarrow> nat \<Rightarrow> buddy_allocator \<Rightarrow> buddy_allocator" where
  "handed f held keep c = retag (\<lambda>j. if f \<le> j \<and> j < f + held then 1 else if f \<le> j \<and> j < f + keep then 0 else pg_tag (pages c j)) c"

lemma carve_out:
  assumes inv: "frame_inv s {}" and held: "0 < held" "held \<le> keep" "keep \<le> 2 ^ n"
  shows "buddy_alloc (buddy s) n = Some (None, buddy s)
    \<or> (\<exists>f c1 c. buddy_alloc (buddy s) n = Some (Some f, c1) \<and> buddy_trim_allocation c1 f n keep = Some (EOK, c)
        \<and> 2 ^ n dvd f \<and> f \<noteq> 0 \<and> f + keep \<le> page_count c
        \<and> frame_inv (s\<lparr>buddy := handed f held keep c, usable_frames := size_sub (usable_frames s) held\<rparr>) {f + held ..< f + keep}
        \<and> took {f ..< f + held} s (s\<lparr>buddy := handed f held keep c, usable_frames := size_sub (usable_frames s) held\<rparr>))"
proof -
  have ok: "buddy_ok (buddy s)" using inv by (simp add: frame_inv_def)
  have "0 < keep" using held by simp
  from carve [OF ok this held(3)] show ?thesis
  proof (elim disjE exE conjE, goal_cases)
    case (2 f c1 c)
    let ?c = "handed f held keep c" and ?K = "{f ..< f + keep}" and ?F = "{f ..< f + held}"
    have "?K - ?F = {f + held ..< f + keep}" using held by auto
    moreover have out: "\<not> (f \<le> j \<and> j < f + keep)" if "bused (buddy s) j \<noteq> None" for j
      using avail_unused [OF ok, of j] 2(5) that by auto
    have tag: "pg_tag (pages ?c j) = pg_tag (pages (buddy s) j)" if "bused (buddy s) j \<noteq> None" for j
      using 2(8) held out [OF that] that by (auto simp: handed_def)
    have "frame_inv (s\<lparr>buddy := ?c, usable_frames := size_sub (usable_frames s) (card ?F)\<rparr>) (?K - ?F)
      \<and> took ?F s (s\<lparr>buddy := ?c, usable_frames := size_sub (usable_frames s) (card ?F)\<rparr>)"
      by (rule hand_out [OF inv _ _ _ 2(5) _ _ tag]) (use 2 held in \<open>auto simp: handed_def fun_eq_iff\<close>)
    moreover have fi: "f \<in> bavail (buddy s)" "f + keep - 1 \<in> bavail (buddy s)" using 2(5) held by auto
    then have "f \<noteq> 0" using inv by (metis frame_inv_def)
    moreover have "f + keep \<le> page_count c" using ok_bounds(1) [OF ok] fi(2) held 2(11) by fastforce
    moreover have "card ?F = held" by simp
    ultimately show ?case using 2(1,2,4) by metis
  qed auto
qed

lemma pop_spec:
  assumes inv: "frame_inv s {}"
  shows "frame_pcp_pop s = Some (None, s)
    \<or> (\<exists>f t. frame_pcp_pop s = Some (Some f, t) \<and> f \<noteq> 0 \<and> frame_inv t {} \<and> took {f} s t)"
proof (cases "frame_pcp_cpu s \<ge> CONFIG_FRAME_PCP_MAX_CPUS \<or> frame_pcp s (frame_pcp_cpu s) = []")
  case False
  define cpu xs where "cpu = frame_pcp_cpu s" and "xs = frame_pcp s (frame_pcp_cpu s)"
  define f where "f = last xs"
  define b where "b = retag ((\<lambda>j. pg_tag (pages (buddy s) j))(f := 1)) (buddy s)"
  define t where "t = s\<lparr>buddy := b, frame_pcp := (frame_pcp s)(cpu := butlast xs), usable_frames := size_sub (usable_frames s) 1\<rparr>"
  have cpu: "cpu < CONFIG_FRAME_PCP_MAX_CPUS" and xs: "xs = butlast xs @ [f]" using False by (simp_all add: cpu_def xs_def f_def)
  have ok: "buddy_ok (buddy s)" using inv by (simp add: frame_inv_def)
  have "mset (cache_list (s\<lparr>frame_pcp := (frame_pcp s)(cpu := butlast xs)\<rparr>)) + mset xs = mset (cache_list s) + mset (butlast xs)"
    using cache_list_split [OF cpu, of s "butlast xs"] by (simp add: xs_def cpu_def)
  moreover have "mset xs = mset (butlast xs) + {#f#}" by (subst xs) simp
  ultimately have ms: "mset (cache_list s) = mset (f # cache_list t)" by (simp add: t_def cache_list_def)
  then have cl: "distinct (f # cache_list t)" "set (cache_list s) = insert f (set (cache_list t))"
    using inv mset_eq_setD [OF ms] mset_eq_imp_distinct_iff [OF ms] by (simp_all add: frame_inv_def)
  have pk: "parked (buddy s) = insert f (set (cache_list t))" using inv cl(2) by (simp add: frame_inv_def)
  then have fp: "f \<in> parked (buddy s)" by simp
  then have fu: "bused (buddy s) f = Some 0" "f \<noteq> 0" using inv by (auto simp: parked_def frame_inv_def intro!: gr0I)
  then have fb: "f < page_count (buddy s)" using ok_bounds(2) [OF ok] by fastforce
  have "parked b = parked (buddy s) - {f}" by (auto simp: parked_def b_def)
  then have pk': "parked b = set (cache_list t)" using pk cl(1) by auto
  have id: "idle t = idle s - {f}" using cl pk pk' parked_not_avail [OF ok] by (auto simp: idle_def t_def b_def)
  have fi: "f \<in> idle s" using fp by (simp add: idle_def)
  have un: "size_sub (usable_frames s) 1 = usable_frames s - 1"
    using usable_bound [OF inv] inv fi idle_finite [OF ok] by (intro size_sub_exact) (auto simp: frame_inv_def card_gt_0_iff Suc_le_eq)
  have "length xs \<le> CONFIG_FRAME_PCP_HIGH" using inv cpu by (simp add: frame_inv_def xs_def cpu_def)
  then have "length (butlast xs) \<le> CONFIG_FRAME_PCP_HIGH" by simp
  then have "frame_inv t {}" using inv ok cl pk' id un fi idle_finite [OF ok]
    by (simp add: frame_inv_def t_def b_def)
  moreover have "took {f} s t" using fi id un fu by (auto simp: took_def t_def refs_def b_def fun_eq_iff)
  moreover have "frame_pcp_pop s = Some (Some f, t)"
    using False fb by (simp add: frame_pcp_pop_def Let_def set_page_tag t_def b_def f_def xs_def cpu_def)
  ultimately show ?thesis using fu by auto
qed (auto simp: frame_pcp_pop_def Let_def)

lemma refill_alloc_cases:
  assumes "frame_inv s {}"
  shows "refill_alloc (buddy s) ord = Some (None, 0, buddy s)
    \<or> (\<exists>f n c1. refill_alloc (buddy s) ord = Some (Some f, n, c1) \<and> buddy_alloc (buddy s) n = Some (Some f, c1))"
proof (induction ord)
  case 0
  then show ?case using carve_out [OF assms, of 1 1 0] by auto
next
  case (Suc m)
  have "1 \<le> (2 :: nat) ^ Suc m" by simp
  from carve_out [OF assms, of 1 1 "Suc m"] this Suc show ?case by (auto split: option.splits)
qed

lemma refill_spec:
  assumes inv: "frame_inv s {}"
  shows "frame_pcp_refill s = Some (None, s)
    \<or> (\<exists>f t. frame_pcp_refill s = Some (Some f, t) \<and> f \<noteq> 0 \<and> frame_inv t {} \<and> took {f} s t)"
  using refill_alloc_cases [OF inv, of 4]
proof (elim disjE exE conjE)
  fix f n c1 assume r: "refill_alloc (buddy s) 4 = Some (Some f, n, c1)" and a: "buddy_alloc (buddy s) n = Some (Some f, c1)"
  from carve_out [OF inv, of 1 "2 ^ n" n] a obtain c where
    c: "buddy_trim_allocation c1 f n (2 ^ n) = Some (EOK, c)" "f \<noteq> 0" "f + 2 ^ n \<le> page_count c"
      "frame_inv (s\<lparr>buddy := handed f 1 (2 ^ n) c, usable_frames := size_sub (usable_frames s) 1\<rparr>) {f + 1 ..< f + 2 ^ n}"
      "took {f ..< f + 1} s (s\<lparr>buddy := handed f 1 (2 ^ n) c, usable_frames := size_sub (usable_frames s) 1\<rparr>)" by auto
  from put_all_spec [OF c(4), of "[f + 1..<f + 2 ^ n]"] obtain t where
    t: "fold_option frame_pcp_put (s\<lparr>buddy := handed f 1 (2 ^ n) c, usable_frames := size_sub (usable_frames s) 1\<rparr>) [f + 1..<f + 2 ^ n] = Some t"
      "frame_inv t {}" "quiet (s\<lparr>buddy := handed f 1 (2 ^ n) c, usable_frames := size_sub (usable_frames s) 1\<rparr>) t" by auto
  have one: "1 \<le> (2::nat) ^ n" by simp
  then have lt: "f < page_count c" using c(3) by linarith
  have h: "retag ((\<lambda>j. if f \<le> j \<and> j < f + 2 ^ n then 0 else pg_tag (pages c j))(f := 1)) c = handed f 1 (2 ^ n) c"
    unfolding handed_def by (rule arg_cong [where f = "\<lambda>T. retag T c"]) (use one in \<open>auto simp: fun_eq_iff\<close>)
  have "frame_pcp_refill s = Some (Some f, t)"
    unfolding frame_pcp_refill_def using r c(1,3) t(1) lt h by (simp add: Let_def set_range_tag set_page_tag)
  moreover have "took {f} s t" using took_quiet [OF c(5) t(3)] by simp
  ultimately show ?thesis using c(2) t(2) by blast
qed (simp add: frame_pcp_refill_def)

lemma ok_alloc_none:
  assumes "buddy_ok b" "buddy_alloc b n = Some (None, c)" "n \<le> max_order b" "2 ^ n dvd i"
  shows "\<not> {i ..< i + 2 ^ n} \<subseteq> bavail b"
proof -
  obtain fl where inv: "buddy_inv b fl" using assms(1) by (auto simp: buddy_ok_def)
  from alloc_refines [OF inv, of n] assms(2) have "\<forall>m i. n \<le> m \<longrightarrow> i \<notin> set (fl m)" by auto
  then show ?thesis using aligned_run_in_block [OF inv assms(3,4)] pool_free_eq [OF inv] by auto
qed

lemma drained_avail:
  assumes "frame_inv t {}" "cache_list t = []"
  shows "bavail (buddy t) = idle t"
  using assms by (auto simp: frame_inv_def idle_def)

lemma refill_none:
  assumes inv: "frame_inv s {}" and none: "frame_pcp_refill s = Some (None, t)"
  shows "bavail (buddy s) = {}"
proof -
  have ok: "buddy_ok (buddy s)" using inv by (simp add: frame_inv_def)
  have "refill_alloc (buddy s) m = Some (None, k, c) \<Longrightarrow> \<exists>d. buddy_alloc (buddy s) 0 = Some (None, d)" for m k c
  proof (induction m)
    case (Suc m)
    then show ?case using carve_out [OF inv, of 1 1 "Suc m"] by (auto split: option.splits)
  qed (auto split: option.splits)
  moreover have "\<exists>k c. refill_alloc (buddy s) 4 = Some (None, k, c)"
    using refill_alloc_cases [OF inv, of 4]
  proof (elim disjE exE conjE)
    fix f n c1 assume r: "refill_alloc (buddy s) 4 = Some (Some f, n, c1)" "buddy_alloc (buddy s) n = Some (Some f, c1)"
    from carve_out [OF inv, of 1 "2 ^ n" n] r(2) obtain c where "buddy_trim_allocation c1 f n (2 ^ n) = Some (EOK, c)" by auto
    then show ?thesis using none r(1) by (auto simp: frame_pcp_refill_def Let_def bind_eq_Some_conv)
  qed blast
  ultimately obtain d where "buddy_alloc (buddy s) 0 = Some (None, d)" by blast
  from ok_alloc_none [OF ok this] show ?thesis by auto
qed

lemma alloc_single_spec:
  assumes inv: "frame_inv s {}"
  shows "\<exists>r t. alloc_single s = Some (r, t) \<and> frame_inv t {}
    \<and> (case r of None \<Rightarrow> idle s = {} \<and> quiet s t | Some f \<Rightarrow> f \<noteq> 0 \<and> took {f} s t)"
proof -
  consider (pop) f t where "frame_pcp_pop s = Some (Some f, t)" "f \<noteq> 0" "frame_inv t {}" "took {f} s t"
    | (refill) f t where "frame_pcp_pop s = Some (None, s)" "frame_pcp_refill s = Some (Some f, t)" "f \<noteq> 0" "frame_inv t {}" "took {f} s t"
    | (none) "frame_pcp_pop s = Some (None, s)" "frame_pcp_refill s = Some (None, s)"
    using pop_spec [OF inv] refill_spec [OF inv] by blast
  then show ?thesis
  proof cases
    case none
    from drain_all_spec [OF inv] obtain t where
      t: "frame_pcp_drain_all s = Some t" "frame_inv t {}" "quiet s t" "cache_list t = []" by blast
    have eq: "alloc_single s = frame_pcp_refill t" using none t(1) by (simp add: alloc_single_def)
    from refill_spec [OF t(2)] show ?thesis
    proof (elim disjE exE conjE)
      assume r: "frame_pcp_refill t = Some (None, t)"
      then have "idle s = {}" using refill_none [OF t(2) r] drained_avail [OF t(2,4)] t(3) by (simp add: quiet_def)
      then show ?thesis using eq r t by auto
    next
      fix f u assume "frame_pcp_refill t = Some (Some f, u)" "f \<noteq> 0" "frame_inv u {}" "took {f} t u"
      then show ?thesis using eq quiet_took [OF t(3)] by auto
    qed
  qed (auto simp: alloc_single_def)
qed

lemma alloc_multi_spec:
  assumes inv: "frame_inv s {}" and n: "0 < cnt" "cnt \<le> 2 ^ n"
  shows "\<exists>a t. alloc_multi s n cnt = Some (a, t) \<and> frame_inv t {}
    \<and> (if a = 0 then quiet s t \<and> (n \<le> max_order (buddy s) \<longrightarrow> \<not> (\<exists>i. 2 ^ n dvd i \<and> {i ..< i + 2 ^ n} \<subseteq> idle s))
       else \<exists>f. a = f * PAGE_4K_SIZE \<and> 2 ^ n dvd f \<and> took {f ..< f + cnt} s t)"
proof -
  have fin: "\<exists>t. do {
          (st, b) \<leftarrow> buddy_trim_allocation c1 f n cnt;
          if st \<noteq> EOK then do { (st, b) \<leftarrow> buddy_free b f n; Some (0, u\<lparr>buddy := b\<rparr>) }
          else do {
            b \<leftarrow> set_range b f cnt (\<lambda>p. p\<lparr>pg_tag := 1\<rparr>);
            Some (f * PAGE_4K_SIZE, u\<lparr>buddy := b, usable_frames := size_sub (usable_frames u) cnt\<rparr>)
          }
        } = Some (f * PAGE_4K_SIZE, t) \<and> frame_inv t {} \<and> f \<noteq> 0 \<and> 2 ^ n dvd f \<and> took {f ..< f + cnt} u t"
    if h: "frame_inv u {}" "buddy_alloc (buddy u) n = Some (Some f, c1)" for u f c1
  proof -
    from carve_out [OF h(1) n(1) order_refl n(2)] h(2) obtain c where
      c: "buddy_trim_allocation c1 f n cnt = Some (EOK, c)" "f \<noteq> 0" "2 ^ n dvd f" "f + cnt \<le> page_count c"
      "frame_inv (u\<lparr>buddy := handed f cnt cnt c, usable_frames := size_sub (usable_frames u) cnt\<rparr>) {}"
      "took {f ..< f + cnt} u (u\<lparr>buddy := handed f cnt cnt c, usable_frames := size_sub (usable_frames u) cnt\<rparr>)" by auto
    have "handed f cnt cnt c = retag (\<lambda>j. if f \<le> j \<and> j < f + cnt then 1 else pg_tag (pages c j)) c"
      by (simp add: handed_def cong: if_cong)
    then show ?thesis using c by (simp add: set_range_tag)
  qed
  from drain_all_spec [OF inv] obtain d where
    d: "frame_pcp_drain_all s = Some d" "frame_inv d {}" "quiet s d" "cache_list d = []" by blast
  have one: "1 \<le> (2::nat) ^ n" using n by simp
  consider (direct) f c1 where "buddy_alloc (buddy s) n = Some (Some f, c1)"
    | (retry) f c1 where "buddy_alloc (buddy s) n = Some (None, buddy s)" "buddy_alloc (buddy d) n = Some (Some f, c1)"
    | (fail) "buddy_alloc (buddy s) n = Some (None, buddy s)" "buddy_alloc (buddy d) n = Some (None, buddy d)"
    using carve_out [OF inv n(1) order_refl n(2)] carve_out [OF d(2) n(1) order_refl n(2)] by blast
  then show ?thesis
  proof cases
    case direct
    from fin [OF inv direct] obtain t where "alloc_multi s n cnt = Some (f * PAGE_4K_SIZE, t)"
      "frame_inv t {}" "f \<noteq> 0" "2 ^ n dvd f" "took {f ..< f + cnt} s t"
      by (auto simp: alloc_multi_def direct cong: if_cong)
    then show ?thesis by auto
  next
    case retry
    from fin [OF d(2) retry(2)] obtain t where "alloc_multi s n cnt = Some (f * PAGE_4K_SIZE, t)"
      "frame_inv t {}" "f \<noteq> 0" "2 ^ n dvd f" "took {f ..< f + cnt} d t"
      using d(1) by (auto simp: alloc_multi_def retry cong: if_cong)
    then show ?thesis using quiet_took [OF d(3)] by auto
  next
    case fail
    have "buddy_ok (buddy d)" using d(2) by (simp add: frame_inv_def)
    from ok_alloc_none [OF this fail(2)] have "\<not> (\<exists>i. 2 ^ n dvd i \<and> {i ..< i + 2 ^ n} \<subseteq> idle s)" if "n \<le> max_order (buddy s)"
      using that drained_avail [OF d(2,4)] d(3) by (auto simp: quiet_def)
    moreover have "alloc_multi s n cnt = Some (0, d)" using fail d(1) by (simp add: alloc_multi_def)
    ultimately show ?thesis using d by auto
  qed
qed

section \<open>Reference counts\<close>

lemma page_mask: "(a::nat) AND 4095 = a mod 4096"
  using take_bit_eq_mask [of 12 a] by (simp add: take_bit_eq_mod mask_eq_exp_minus_1)

lemma range_args:
  "frame_inv s W \<Longrightarrow> range_args_ok s a n \<longleftrightarrow>
     a \<noteq> 0 \<and> 0 < n \<and> PAGE_4K_SIZE dvd a \<and> a div PAGE_4K_SIZE + n \<le> page_count (buddy s)"
  by (auto simp: range_args_ok_def page_mask frame_inv_def)

lemma held_iff:
  assumes "frame_inv s W" "j < page_count (buddy s)"
  shows "pg_state (pages (buddy s) j) \<noteq> BUDDY_PAGE_ALLOC_HEAD \<or> pg_order (pages (buddy s) j) \<noteq> 0 \<longleftrightarrow> bused (buddy s) j = None"
proof -
  have "bused (buddy s) j = Some n \<Longrightarrow> n = 0" for n using assms by (simp add: frame_inv_def)
  then show ?thesis using used_iff [of "buddy s" j] used_none [of "buddy s" j] assms(2) by (cases "bused (buddy s) j") auto
qed

lemma refs_out: "\<not> j < page_count (buddy s) \<Longrightarrow> refs s j = 0"
  by (simp add: refs_def used_none)

lemma refcount_spec:
  assumes inv: "frame_inv s W"
  shows "frame_refcount s a = Some (if PAGE_4K_SIZE dvd a then refs s (a div PAGE_4K_SIZE) else 0)"
proof -
  have "refs s 0 = 0" using inv by (simp add: refs_def frame_inv_def)
  moreover have "frame_count s = page_count (buddy s)" using inv by (simp add: frame_inv_def)
  ultimately show ?thesis
    using refs_out [of "a div PAGE_4K_SIZE" s] held_iff [OF inv, of "a div PAGE_4K_SIZE"]
    by (auto simp: frame_refcount_def Let_def page_mask get_page_def refs_def dvd_eq_mod_eq_0)
qed

text \<open>Retaining.\<close>

lemma retain_check_spec:
  assumes inv: "frame_inv s W"
  shows "i + n \<le> page_count (buddy s) \<Longrightarrow>
    if \<forall>j. i \<le> j \<and> j < i + n \<longrightarrow> refs s j \<noteq> 0 \<and> refs s j \<noteq> 0xffffffff then retain_check (buddy s) i n = Some EOK
    else retain_check (buddy s) i n \<in> {Some (ERR EFAULT), Some (ERR EOVERFLOW)}"
proof (induction n arbitrary: i)
  case (Suc n)
  have IH: "if \<forall>j. Suc i \<le> j \<and> j < Suc i + n \<longrightarrow> refs s j \<noteq> 0 \<and> refs s j \<noteq> 0xffffffff
    then retain_check (buddy s) (Suc i) n = Some EOK
    else retain_check (buddy s) (Suc i) n \<in> {Some (ERR EFAULT), Some (ERR EOVERFLOW)}"
    using Suc.prems by (intro Suc.IH) simp
  have split: "(\<forall>j. i \<le> j \<and> j < i + Suc n \<longrightarrow> P j) \<longleftrightarrow> P i \<and> (\<forall>j. Suc i \<le> j \<and> j < Suc i + n \<longrightarrow> P j)" for P
    by (metis Suc_leD Suc_leI add_Suc_right add_Suc_shift le_add1 le_imp_less_Suc order_le_less)
  have r: "refs s i = (if bused (buddy s) i = None then 0 else pg_tag (pages (buddy s) i))" by (simp add: refs_def)
  show ?case
  proof (cases "bused (buddy s) i = None")
    case True
    then have "retain_check (buddy s) i (Suc n) = Some (ERR EFAULT)"
      using held_iff [OF inv, of i] Suc.prems by (simp add: get_page_def)
    then show ?thesis using split [of "\<lambda>j. refs s j \<noteq> 0 \<and> refs s j \<noteq> 0xffffffff"] r True by simp
  next
    case False
    then have "retain_check (buddy s) i (Suc n) =
      (if refs s i = 0 \<or> refs s i = 0xffffffff then Some (ERR EOVERFLOW) else retain_check (buddy s) (Suc i) n)"
      using held_iff [OF inv, of i] Suc.prems r by (auto simp: get_page_def)
    then show ?thesis using IH split [of "\<lambda>j. refs s j \<noteq> 0 \<and> refs s j \<noteq> 0xffffffff"] by (simp split: if_splits)
  qed
qed simp

lemma word_inc_nonzero: "(x::uint32_t) \<noteq> 0xffffffff \<Longrightarrow> x + 1 \<noteq> 0"
proof
  assume "x \<noteq> 0xffffffff" "x + 1 = 0"
  moreover from this(2) have "x = - 1" by (simp add: eq_neg_iff_add_eq_0)
  ultimately show False by simp
qed

lemma retain_spec:
  assumes inv: "frame_inv s W" and args: "range_args_ok s a n"
  shows "if \<forall>j. a div PAGE_4K_SIZE \<le> j \<and> j < a div PAGE_4K_SIZE + n \<longrightarrow> refs s j \<noteq> 0 \<and> refs s j \<noteq> 0xffffffff
    then \<exists>t. frame_retain_range s a n = Some (EOK, t) \<and> frame_inv t W \<and> idle t = idle s
      \<and> refs t = (\<lambda>j. if a div PAGE_4K_SIZE \<le> j \<and> j < a div PAGE_4K_SIZE + n then refs s j + 1 else refs s j)
      \<and> (\<forall>i. pg_reserved (pages (buddy t) i) = pg_reserved (pages (buddy s) i))
    else frame_retain_range s a n \<in> {Some (ERR EFAULT, s), Some (ERR EOVERFLOW, s)}"
proof -
  define f where "f = a div PAGE_4K_SIZE"
  have fb: "f + n \<le> page_count (buddy s)" using range_args [OF inv] args by (simp add: f_def)
  note chk = retain_check_spec [OF inv fb]
  show ?thesis
  proof (cases "\<forall>j. f \<le> j \<and> j < f + n \<longrightarrow> refs s j \<noteq> 0 \<and> refs s j \<noteq> 0xffffffff")
    case True
    define T where "T = (\<lambda>j. if f \<le> j \<and> j < f + n then pg_tag (pages (buddy s) j) + 1 else pg_tag (pages (buddy s) j))"
    define b where "b = retag T (buddy s)"
    have ok: "buddy_ok (buddy s)" using inv by (simp add: frame_inv_def)
    have "set_range (buddy s) f n (\<lambda>p. p\<lparr>pg_tag := pg_tag p + 1\<rparr>) = Some b"
      using fb by (auto simp: set_range_eq b_def T_def retag_def fun_eq_iff intro!: buddy_allocator.fold_congs)
    then have eq: "frame_retain_range s a n = Some (EOK, s\<lparr>buddy := b\<rparr>)"
      using args chk True by (simp add: frame_retain_range_def f_def [symmetric] Let_def)
    have used: "bused (buddy s) j \<noteq> None \<and> pg_tag (pages (buddy s) j) \<noteq> 0 \<and> T j \<noteq> 0" if "f \<le> j" "j < f + n" for j
      using True that word_inc_nonzero by (auto simp: refs_def T_def split: if_splits)
    then have "j \<in> parked b \<longleftrightarrow> j \<in> parked (buddy s)" for j
      by (cases "f \<le> j \<and> j < f + n") (auto simp: parked_def b_def T_def)
    then have pk: "parked b = parked (buddy s)" by blast
    then have id: "idle (s\<lparr>buddy := b\<rparr>) = idle s" by (simp add: idle_def b_def)
    have "cache_list (s\<lparr>buddy := b\<rparr>) = cache_list s" by (simp add: cache_list_def)
    then have "frame_inv (s\<lparr>buddy := b\<rparr>) W" using inv ok id pk by (simp add: frame_inv_def b_def)
    moreover have "refs (s\<lparr>buddy := b\<rparr>) = (\<lambda>j. if f \<le> j \<and> j < f + n then refs s j + 1 else refs s j)"
      using used by (auto simp: refs_def b_def T_def fun_eq_iff)
    ultimately show ?thesis using eq id True unfolding f_def [symmetric] by (auto simp: b_def)
  next
    case False
    with chk consider "retain_check (buddy s) f n = Some (ERR EFAULT)" | "retain_check (buddy s) f n = Some (ERR EOVERFLOW)"
      by (auto split: if_splits)
    then have "frame_retain_range s a n \<in> {Some (ERR EFAULT, s), Some (ERR EOVERFLOW, s)}"
      using args by cases (simp_all add: frame_retain_range_def f_def [symmetric] Let_def)
    with False show ?thesis unfolding f_def [symmetric] by (simp only: if_False)
  qed
qed

text \<open>Releasing: what is preserved apart from the handoff marks.\<close>

abbreviation (input) flags :: "frame_allocator \<Rightarrow> nat \<Rightarrow> uint16_t" where
  "flags s \<equiv> \<lambda>i. pg_reserved (pages (buddy s) i)"

definition still :: "frame_allocator \<Rightarrow> frame_allocator \<Rightarrow> bool" where
  "still s t \<longleftrightarrow> refs t = refs s \<and> idle t = idle s \<and> usable_frames t = usable_frames s
     \<and> frame_count t = frame_count s \<and> origin_frames t = origin_frames s \<and> metadata_frames t = metadata_frames s
     \<and> max_order (buddy t) = max_order (buddy s)"

lemma quiet_still: "quiet s t \<Longrightarrow> still s t \<and> flags t = flags s"
  by (simp add: quiet_def still_def)

lemma unmark:
  assumes inv: "frame_inv s W" and i: "i < page_count (buddy s)"
  shows "\<exists>b. set_page (buddy s) (int i) (\<lambda>p. p\<lparr>pg_reserved := 0\<rparr>) = Some b \<and> frame_inv (s\<lparr>buddy := b\<rparr>) W
    \<and> still s (s\<lparr>buddy := b\<rparr>) \<and> flags (s\<lparr>buddy := b\<rparr>) = (flags s)(i := 0) \<and> page_count b = page_count (buddy s)"
proof -
  define P where "P = (pages (buddy s))(i := (pages (buddy s) i)\<lparr>pg_reserved := 0\<rparr>)"
  define b where "b = (buddy s)\<lparr>pages := P\<rparr>"
  have ok: "buddy_ok (buddy s)" using inv by (simp add: frame_inv_def)
  note m = ok_meta [OF ok b_def]
  have b: "buddy_ok b" "pool_of b = pool_of (buddy s)" "page_count b = page_count (buddy s)"
    by (rule m; simp add: P_def)+
  have tag: "pg_tag (pages b j) = pg_tag (pages (buddy s) j)" for j by (simp add: b_def P_def)
  have pk: "parked b = parked (buddy s)" by (simp add: parked_def b tag)
  moreover have "cache_list (s\<lparr>buddy := b\<rparr>) = cache_list s" by (simp add: cache_list_def)
  ultimately have "frame_inv (s\<lparr>buddy := b\<rparr>) W" using inv b by (simp add: frame_inv_def idle_def)
  moreover have "set_page (buddy s) (int i) (\<lambda>p. p\<lparr>pg_reserved := 0\<rparr>) = Some b" using i by (simp add: set_page_def b_def P_def)
  ultimately show ?thesis using b pk tag by (auto simp: still_def refs_def idle_def b_def P_def fun_eq_iff)
qed

lemma handoff_spec:
  assumes inv: "frame_inv s W" and fl: "\<And>j. j < page_count (buddy s) \<Longrightarrow> flags s j \<noteq> 0 \<longleftrightarrow> j \<in> W" and i: "i < page_count (buddy s)"
  shows "\<exists>t. handoff s i = Some t \<and> frame_inv t (W - {i}) \<and> still s t \<and> flags t = (flags s)(i := 0)"
proof -
  from unmark [OF inv i] obtain b where
    b: "set_page (buddy s) (int i) (\<lambda>p. p\<lparr>pg_reserved := 0\<rparr>) = Some b" "frame_inv (s\<lparr>buddy := b\<rparr>) W"
      "still s (s\<lparr>buddy := b\<rparr>)" "flags (s\<lparr>buddy := b\<rparr>) = (flags s)(i := 0)" by blast
  show ?thesis
  proof (cases "i \<in> W")
    case True
    from put_spec [OF b(2) True] obtain t where
      t: "frame_pcp_put (s\<lparr>buddy := b\<rparr>) i = Some t" "frame_inv t (W - {i})" "quiet (s\<lparr>buddy := b\<rparr>) t" by blast
    moreover have "handoff s i = Some t" using i b(1) t(1) True fl [OF i] by (simp add: handoff_def get_page_def)
    moreover have "still s t" "flags t = (flags s)(i := 0)" using quiet_still [OF t(3)] b(3,4) by (simp_all add: still_def)
    ultimately show ?thesis by blast
  next
    case False
    then have "handoff s i = Some (s\<lparr>buddy := b\<rparr>)" using i b(1) fl [OF i] by (simp add: handoff_def get_page_def)
    then show ?thesis using b(2-4) False by auto
  qed
qed

lemma handoff_all:
  "frame_inv s W \<Longrightarrow> (\<And>j. j < page_count (buddy s) \<Longrightarrow> flags s j \<noteq> 0 \<longleftrightarrow> j \<in> W) \<Longrightarrow> set xs \<subseteq> {..< page_count (buddy s)} \<Longrightarrow>
   \<exists>t. fold_option handoff s xs = Some t \<and> frame_inv t (W - set xs) \<and> still s t
     \<and> flags t = (\<lambda>j. if j \<in> set xs then 0 else flags s j)"
proof (induction xs arbitrary: s W)
  case Nil
  then show ?case by (simp add: still_def)
next
  case (Cons x xs)
  from handoff_spec [OF Cons.prems(1,2)] Cons.prems(3) obtain t where
    t: "handoff s x = Some t" "frame_inv t (W - {x})" "still s t" "flags t = (flags s)(x := 0)" by auto
  have pc: "page_count (buddy t) = page_count (buddy s)"
    using t(2,3) Cons.prems(1) by (simp add: still_def frame_inv_def)
  have "flags t j \<noteq> 0 \<longleftrightarrow> j \<in> W - {x}" if "j < page_count (buddy t)" for j
    using Cons.prems(2) [of j] fun_cong [OF t(4), of j] that pc by auto
  from Cons.IH [OF t(2) this] Cons.prems(3) pc obtain u where
    "fold_option handoff t xs = Some u" "frame_inv u (W - {x} - set xs)" "still t u"
    "flags u = (\<lambda>j. if j \<in> set xs then 0 else flags t j)" by auto
  moreover have "W - {x} - set xs = W - set (x # xs)" by auto
  moreover have "(\<lambda>j. if j \<in> set xs then 0 else flags t j) = (\<lambda>j. if j \<in> set (x # xs) then 0 else flags s j)"
    using t(4) by (auto simp: fun_eq_iff)
  ultimately show ?case using t by (auto simp: still_def)
qed

lemma release_loop_spec:
  "i + n \<le> page_count b \<Longrightarrow> release_loop b i n r =
     Some (r + card {j. i \<le> j \<and> j < i + n \<and> pg_tag (pages b j) = 1},
           b\<lparr>pages := \<lambda>j. if i \<le> j \<and> j < i + n then release_page (pages b j) else pages b j\<rparr>)"
proof (induction n arbitrary: b i r)
  case 0
  have "(\<lambda>j. if i \<le> j \<and> j < i + 0 then release_page (pages b j) else pages b j) = pages b" by (auto simp: fun_eq_iff)
  then show ?case by simp
next
  case (Suc n)
  define c where "c = b\<lparr>pages := (pages b)(i := release_page (pages b i))\<rparr>"
  have "set_page b (int i) release_page = Some c" using Suc.prems by (simp add: set_page_def c_def)
  then have "release_loop b i (Suc n) r = release_loop c (Suc i) n (if pg_tag (pages b i) = 1 then r + 1 else r)"
    using Suc.prems by (simp add: get_page_def eq_diff_eq)
  also have "\<dots> = Some ((if pg_tag (pages b i) = 1 then r + 1 else r) + card {j. Suc i \<le> j \<and> j < Suc i + n \<and> pg_tag (pages c j) = 1},
      c\<lparr>pages := \<lambda>j. if Suc i \<le> j \<and> j < Suc i + n then release_page (pages c j) else pages c j\<rparr>)"
    using Suc.prems by (intro Suc.IH) (simp add: c_def)
  also have "{j. Suc i \<le> j \<and> j < Suc i + n \<and> pg_tag (pages c j) = 1} = {j. i \<le> j \<and> j < i + Suc n \<and> pg_tag (pages b j) = 1} - {i}"
    by (auto simp: c_def split: if_splits)
  also have "(if pg_tag (pages b i) = 1 then r + 1 else r) + card ({j. i \<le> j \<and> j < i + Suc n \<and> pg_tag (pages b j) = 1} - {i})
    = r + card {j. i \<le> j \<and> j < i + Suc n \<and> pg_tag (pages b j) = 1}"
  proof (cases "pg_tag (pages b i) = 1")
    case True
    define G where "G = {j. i \<le> j \<and> j < i + Suc n \<and> pg_tag (pages b j) = 1}"
    have "i \<in> G" using True by (simp add: G_def)
    moreover have "finite G" by (rule finite_subset [of _ "{i ..< i + Suc n}"]) (auto simp: G_def)
    ultimately have "card G = Suc (card (G - {i}))" by (simp only: card.remove)
    then show ?thesis using True by (simp add: G_def)
  qed simp
  also have "c\<lparr>pages := \<lambda>j. if Suc i \<le> j \<and> j < Suc i + n then release_page (pages c j) else pages c j\<rparr>
    = b\<lparr>pages := \<lambda>j. if i \<le> j \<and> j < i + Suc n then release_page (pages b j) else pages b j\<rparr>"
    by (auto simp: c_def fun_eq_iff intro!: buddy_allocator.fold_congs)
  finally show ?case .
qed

lemma release_page_simps [simp]:
  "pg_next (release_page p) = pg_next p" "pg_prev (release_page p) = pg_prev p" "pg_state (release_page p) = pg_state p"
  "pg_order (release_page p) = pg_order p" "pg_tag (release_page p) = pg_tag p - 1"
  "pg_reserved (release_page p) = (if pg_tag p = 1 then 1 else pg_reserved p)"
  by (simp_all add: release_page_def Let_def eq_diff_eq)

definition frame_ok :: "frame_allocator \<Rightarrow> bool" where
  "frame_ok s \<longleftrightarrow> frame_inv s {} \<and> (\<forall>i < page_count (buddy s). pg_reserved (pages (buddy s) i) = 0)"

lemma release_marks:
  assumes ok: "frame_ok s" and b: "f + n \<le> page_count (buddy s)"
    and held: "\<And>j. f \<le> j \<Longrightarrow> j < f + n \<Longrightarrow> refs s j \<noteq> 0"
  defines "F \<equiv> {j. f \<le> j \<and> j < f + n \<and> refs s j = 1}"
  shows "\<exists>c. release_loop (buddy s) f n 0 = Some (card F, c)
    \<and> frame_inv (s\<lparr>buddy := c, usable_frames := size_add (usable_frames s) (card F)\<rparr>) F
    \<and> idle (s\<lparr>buddy := c, usable_frames := size_add (usable_frames s) (card F)\<rparr>) = idle s \<union> F
    \<and> refs (s\<lparr>buddy := c, usable_frames := size_add (usable_frames s) (card F)\<rparr>)
        = (\<lambda>j. if f \<le> j \<and> j < f + n then refs s j - 1 else refs s j)
    \<and> (\<forall>j < page_count c. pg_reserved (pages c j) \<noteq> 0 \<longleftrightarrow> j \<in> F) \<and> page_count c = page_count (buddy s) \<and> max_order c = max_order (buddy s)"
proof -
  define P where "P = (\<lambda>j. if f \<le> j \<and> j < f + n then release_page (pages (buddy s) j) else pages (buddy s) j)"
  define c where "c = (buddy s)\<lparr>pages := P\<rparr>"
  have inv: "frame_inv s {}" and bok: "buddy_ok (buddy s)" using ok by (simp_all add: frame_ok_def frame_inv_def)
  have c: "buddy_ok c" "pool_of c = pool_of (buddy s)" "page_count c = page_count (buddy s)"
    by (rule ok_meta [OF bok c_def]; simp add: P_def)+
  have pgs: "pages c j = (if f \<le> j \<and> j < f + n then release_page (pages (buddy s) j) else pages (buddy s) j)" for j
    by (simp add: c_def P_def)
  have used: "bused (buddy s) j \<noteq> None \<and> refs s j = pg_tag (pages (buddy s) j)" if "f \<le> j" "j < f + n" for j
    using held [OF that] by (simp add: refs_def split: if_splits)
  have F: "F = {j. f \<le> j \<and> j < f + n \<and> pg_tag (pages (buddy s) j) = 1}" using used by (auto simp: F_def)
  have loop: "release_loop (buddy s) f n 0 = Some (card F, c)"
    using release_loop_spec [OF b, of 0] by (simp add: F c_def P_def)
  have pk: "parked c = parked (buddy s) \<union> F" "F \<inter> idle s = {}"
  proof -
    have "j \<in> parked c \<longleftrightarrow> j \<in> parked (buddy s) \<union> F" for j
      using used [of j] held [of j] by (cases "f \<le> j \<and> j < f + n") (auto simp: parked_def F c(2) pgs eq_diff_eq)
    then show "parked c = parked (buddy s) \<union> F" by blast
    show "F \<inter> idle s = {}" using used avail_unused [OF bok] by (fastforce simp: F idle_def parked_def)
  qed
  define t where "t = s\<lparr>buddy := c, usable_frames := size_add (usable_frames s) (card F)\<rparr>"
  have id: "idle t = idle s \<union> F" by (auto simp: idle_def t_def pk c(2))
  have fin: "finite F" by (rule finite_subset [of _ "{f ..< f + n}"]) (auto simp: F_def)
  have "card (idle s \<union> F) = card (idle s) + card F" using card_Un_disjoint [OF idle_finite [OF bok] fin] pk(2) by (simp add: Int_commute)
  moreover have "card (idle s \<union> F) \<le> page_count (buddy s)"
  proof -
    have "idle s \<union> F \<subseteq> {..< page_count (buddy s)}"
      using ok_bounds(1) [OF bok] b by (auto simp: idle_def parked_def used_none F_def)
    then show ?thesis using card_mono [of "{..< page_count (buddy s)}"] by simp
  qed
  moreover have us: "usable_frames s = card (idle s)" using inv by (simp add: frame_inv_def)
  ultimately have "size_add (usable_frames s) (card F) = card (idle s \<union> F)"
    using ok_bounds(4) [OF bok] by (simp add: size_add_exact)
  then have un: "usable_frames t = card (idle t)" by (simp only: id) (simp add: t_def)
  have "cache_list t = cache_list s" by (simp add: cache_list_def t_def)
  moreover have "set (cache_list s) \<inter> F = {}" using inv pk(2) by (auto simp: frame_inv_def idle_def)
  ultimately have "frame_inv t F" using inv un c pk unfolding frame_inv_def by (simp add: t_def)
  moreover have "refs t = (\<lambda>j. if f \<le> j \<and> j < f + n then refs s j - 1 else refs s j)"
    using used by (fastforce simp: refs_def t_def c(2) fun_eq_iff pgs)
  moreover have "pg_reserved (pages c j) \<noteq> 0 \<longleftrightarrow> j \<in> F" if "j < page_count c" for j
    using ok that c(3) by (auto simp: frame_ok_def pgs F)
  ultimately show ?thesis using loop c(3) id unfolding t_def by (simp add: c_def)
qed

lemma release_spec:
  assumes ok: "frame_ok s" and args: "range_args_ok s a n"
  shows "if \<forall>j. a div PAGE_4K_SIZE \<le> j \<and> j < a div PAGE_4K_SIZE + n \<longrightarrow> refs s j \<noteq> 0
    then \<exists>t. frame_release_range s a n = Some (EOK, t) \<and> frame_ok t
      \<and> idle t = idle s \<union> {j. a div PAGE_4K_SIZE \<le> j \<and> j < a div PAGE_4K_SIZE + n \<and> refs s j = 1}
      \<and> refs t = (\<lambda>j. if a div PAGE_4K_SIZE \<le> j \<and> j < a div PAGE_4K_SIZE + n then refs s j - 1 else refs s j)
    else frame_release_range s a n = Some (ERR EFAULT, s)"
proof -
  define f where "f = a div PAGE_4K_SIZE"
  have inv: "frame_inv s {}" using ok by (simp add: frame_ok_def)
  have fb: "f + n \<le> page_count (buddy s)" using range_args [OF inv] args by (simp add: f_def)
  have "all_range (buddy s) f n (\<lambda>p. \<not> (pg_state p \<noteq> BUDDY_PAGE_ALLOC_HEAD \<or> pg_order p \<noteq> 0 \<or> pg_tag p = 0))
    = Some (\<forall>j. f \<le> j \<and> j < f + n \<longrightarrow> refs s j \<noteq> 0)"
  proof -
    have "\<not> (pg_state (pages (buddy s) j) \<noteq> BUDDY_PAGE_ALLOC_HEAD \<or> pg_order (pages (buddy s) j) \<noteq> 0 \<or> pg_tag (pages (buddy s) j) = 0)
      \<longleftrightarrow> refs s j \<noteq> 0" if "j < f + n" for j
      using held_iff [OF inv, of j] that fb by (auto simp: refs_def)
    then show ?thesis unfolding all_range_eq [OF fb] by (intro arg_cong [where f = Some]) blast
  qed
  note eq = frame_release_range_def [of s a n, unfolded Let_def f_def [symmetric] this]
  show ?thesis
  proof (cases "\<forall>j. f \<le> j \<and> j < f + n \<longrightarrow> refs s j \<noteq> 0")
    case True
    define F where "F = {j. f \<le> j \<and> j < f + n \<and> refs s j = 1}"
    from release_marks [OF ok fb] True obtain c where
      c: "release_loop (buddy s) f n 0 = Some (card F, c)"
        "frame_inv (s\<lparr>buddy := c, usable_frames := size_add (usable_frames s) (card F)\<rparr>) F"
        "idle (s\<lparr>buddy := c, usable_frames := size_add (usable_frames s) (card F)\<rparr>) = idle s \<union> F"
        "refs (s\<lparr>buddy := c, usable_frames := size_add (usable_frames s) (card F)\<rparr>)
          = (\<lambda>j. if f \<le> j \<and> j < f + n then refs s j - 1 else refs s j)"
        "\<forall>j < page_count c. pg_reserved (pages c j) \<noteq> 0 \<longleftrightarrow> j \<in> F" "page_count c = page_count (buddy s)" unfolding F_def by blast
    define u where "u = s\<lparr>buddy := c, usable_frames := size_add (usable_frames s) (card F)\<rparr>"
    have Fsub: "F \<subseteq> set [f..<f + n]" and finF: "finite F" by (auto simp: F_def)
    have "\<exists>t. fold_option handoff u [f..<f + n] = Some t \<and> frame_inv t (F - set [f..<f + n]) \<and> still u t
        \<and> flags t = (\<lambda>j. if j \<in> set [f..<f + n] then 0 else flags u j)"
      by (rule handoff_all) (use c fb in \<open>auto simp: u_def\<close>)
    then obtain t where t: "fold_option handoff u [f..<f + n] = Some t" "frame_inv t (F - set [f..<f + n])" "still u t"
        "flags t = (\<lambda>j. if j \<in> set [f..<f + n] then 0 else flags u j)" by blast
    have F0: "F - set [f..<f + n] = {}" using Fsub by blast
    have pc: "page_count (buddy t) = page_count c"
      using t(2,3) c(2) by (simp add: still_def frame_inv_def u_def)
    have zero: "flags t j = 0" if "j < page_count (buddy t)" for j
      using fun_cong [OF t(4), of j] c(5) Fsub that pc by (auto simp: u_def)
    have tok: "frame_ok t" using t(2) zero unfolding F0 by (simp add: frame_ok_def)
    have uok: "frame_ok u" if "F = {}" using c(2,5) that by (simp add: frame_ok_def u_def)
    have eq': "frame_release_range s a n = Some (EOK, if F = {} then u else t)"
      unfolding eq using args True c(1) t(1) finF
      by (simp add: u_def [symmetric]) (auto simp: u_def)
    show ?thesis unfolding f_def [symmetric] F_def [symmetric]
      using eq' tok uok t(3) c(3,4) True by (auto simp: still_def u_def [symmetric])
  next
    case False
    then have "frame_release_range s a n = Some (ERR EFAULT, s)"
      unfolding eq using args by (simp only: not_True_eq_False if_False bind.bind_lunit if_True not_False_eq_True)
    with False show ?thesis unfolding f_def [symmetric] by (simp only: if_False)
  qed
qed

end
