(* ===== verification/Frame_Correct.thy ===== *)
theory Frame_Correct
  imports Frame_Ops
begin

text \<open>
  Correctness of the frame allocator of \<^verbatim>\<open>src/mem/frame.c\<close>: the state that
  \<^verbatim>\<open>init_frame\<close> builds from a memory map, the states reachable from it, and the properties
  of allocation, retaining, releasing and validation in all of them.
\<close>

section \<open>Initialisation\<close>

text \<open>During the initialisation every page is free or still reserved.\<close>

definition booting :: "buddy_allocator \<Rightarrow> nat set \<Rightarrow> bool" where
  "booting b S \<longleftrightarrow> buddy_ok b \<and> bavail b = S
     \<and> (\<forall>j < page_count b. pg_reserved (pages b j) = 0 \<and> (j \<notin> S \<longrightarrow> pg_state (pages b j) = BUDDY_PAGE_RESERVED))"

lemma booting_unused: "booting b S \<Longrightarrow> bused b j = None"
  using avail_unused [of b j] by (cases "j \<in> S") (auto simp: booting_def used_none)

lemma booting_init:
  "buddy_init a (Some m) n k = (EOK, b) \<Longrightarrow> booting b {} \<and> page_count b = n"
  using init_inv [of a "Some m" n k b] init_free [of a "Some m" n k b]
  by (auto simp: booting_def buddy_ok_def buddy_init_def split: if_splits)

lemma booting_add:
  assumes b: "booting b S" and r: "0 < n" "i + n \<le> page_count b" "{i ..< i + n} \<inter> S = {}"
  shows "\<exists>c. buddy_add_range b i n = Some (EOK, c) \<and> booting c (S \<union> {i ..< i + n}) \<and> page_count c = page_count b"
proof -
  obtain fl where inv: "buddy_inv b fl" using b by (auto simp: booting_def buddy_ok_def)
  have S: "free_set fl = S" using b pool_free_eq [OF inv] by (simp add: booting_def)
  have "\<forall>j. i \<le> j \<and> j < i + n \<longrightarrow> pg_state (pages b j) = BUDDY_PAGE_RESERVED \<and> j \<notin> free_set fl"
  proof (intro allI impI)
    fix j assume "i \<le> j \<and> j < i + n"
    then have "j < page_count b" "j \<notin> S" using r by auto
    then show "pg_state (pages b j) = BUDDY_PAGE_RESERVED \<and> j \<notin> free_set fl" using b S by (simp add: booting_def)
  qed
  from add_range_spec [OF inv r(1,2) this] obtain c fl' where
    c: "buddy_add_range b i n = Some (EOK, c)" "buddy_inv c fl'" "free_set fl' = S \<union> {i ..< i + n}"
      "page_frame (S \<union> {i ..< i + n}) b c" unfolding S by blast
  then have "booting c (S \<union> {i ..< i + n})"
    using b pool_free_eq [OF c(2)] by (auto simp: booting_def buddy_ok_def page_frame_def)
  then show ?thesis using c by (auto simp: page_frame_def)
qed

lemma booting_add_unless:
  assumes b: "booting b S" and r: "v \<le> page_count b" "{u ..< v} \<inter> S = {}"
  shows "\<exists>c. add_unless_empty b u v = Some c \<and> booting c (S \<union> {u ..< v}) \<and> page_count c = page_count b"
proof (cases "u < v")
  case True
  then have "u + (v - u) = v" by simp
  then show ?thesis using booting_add [OF b, of "v - u" u] r True by (auto simp: add_unless_empty_def)
qed (use b in \<open>simp add: add_unless_empty_def\<close>)

text \<open>The whole frames of a region, for a map without wrap-around.\<close>

definition region_frames :: "limine_memmap_entry \<Rightarrow> nat set" where
  "region_frames r = (if mm_usable r
     then {(mm_base r + 4095) div PAGE_4K_SIZE ..< (mm_base r + mm_length r) div PAGE_4K_SIZE} else {})"

fun map_ok :: "limine_memmap_entry list \<Rightarrow> bool" where
  "map_ok [] \<longleftrightarrow> True"
| "map_ok (r # rs) \<longleftrightarrow> (mm_usable r \<longrightarrow> mm_base r + mm_length r + 4096 < 2 ^ 64)
     \<and> (\<forall>q \<in> set rs. region_frames r \<inter> region_frames q = {}) \<and> map_ok rs"

lemma region_bounds:
  assumes "mm_usable r" "mm_base r + mm_length r + 4096 < 2 ^ 64"
  shows "ALIGN_UP (mm_base r) = (mm_base r + 4095) div PAGE_4K_SIZE * PAGE_4K_SIZE"
    "region_end r = mm_base r + mm_length r"
  using assms by (simp_all add: ALIGN_UP_def region_end_def size_add_exact)

lemma add_region_spec:
  assumes b: "booting b S" and nw: "mm_usable r \<longrightarrow> mm_base r + mm_length r + 4096 < 2 ^ 64"
    and fit: "region_frames r \<subseteq> {..< page_count b}" and dj: "region_frames r \<inter> S = {}"
  shows "\<exists>c o'. add_region ms mc (b, org) r = Some (c, o')
    \<and> booting c (S \<union> (region_frames r - {0} - {ms ..< ms + mc})) \<and> page_count c = page_count b"
proof (cases "mm_usable r \<and> (mm_base r + 4095) div PAGE_4K_SIZE < (mm_base r + mm_length r) div PAGE_4K_SIZE")
  case False
  then have "add_region ms mc (b, org) r = Some (b, org)" "region_frames r = {}"
    using nw region_bounds [of r] by (auto simp: add_region_def ALIGN_DOWN_def region_frames_def)
  then show ?thesis using b by auto
next
  case True
  define u v where "u = (mm_base r + 4095) div PAGE_4K_SIZE" and "v = (mm_base r + mm_length r) div PAGE_4K_SIZE"
  define f where "f = (if u = 0 then 1 else u)"
  have uv: "u < v" and R: "region_frames r = {u ..< v}" using True by (simp_all add: u_def v_def region_frames_def)
  have up: "ALIGN_UP (mm_base r) = u * PAGE_4K_SIZE" "ALIGN_DOWN (region_end r) = v * PAGE_4K_SIZE"
    using True nw region_bounds [of r] by (simp_all add: ALIGN_DOWN_def u_def v_def)
  have vb: "v \<le> page_count b" using fit uv unfolding R by (metis atLeastLessThan_subset_iff lessThan_atLeast0 not_le)
  have R': "region_frames r - {0} = {f ..< v}" using uv unfolding R f_def by auto
  have dj': "{f ..< v} \<inter> S = {}" using dj R' by auto
  have cnt: "(v * PAGE_4K_SIZE - u * PAGE_4K_SIZE) div PAGE_4K_SIZE = v - u"
    by (simp add: diff_mult_distrib [symmetric])
  define org' where "org' = size_add org (v - u)"
  have eq: "add_region ms mc (b, org) r = (if v - f = 0 then Some (b, org')
     else if ms \<ge> v \<or> ms + mc \<le> f then map_option (\<lambda>(st, b). (b, org')) (buddy_add_range b f (v - f))
     else do { b \<leftarrow> add_unless_empty b f ms; b \<leftarrow> add_unless_empty b (ms + mc) v; Some (b, org') })"
    unfolding add_region_def up using True uv by (simp add: cnt f_def org'_def Let_def)
  have fle: "f \<le> v" using uv by (simp add: f_def)
  consider "f = v" | "f < v" "ms \<ge> v \<or> ms + mc \<le> f" | "f < v" "ms < v" "f < ms + mc"
    using fle by linarith
  then show ?thesis
  proof cases
    case 1
    then show ?thesis unfolding R' using eq b by simp
  next
    case 2
    then have fv: "f + (v - f) = v" by simp
    from booting_add [OF b, of "v - f" f] 2 vb dj' obtain c where
      c: "buddy_add_range b f (v - f) = Some (EOK, c)" "booting c (S \<union> {f ..< v})" "page_count c = page_count b"
      unfolding fv by auto
    moreover have "{f ..< v} - {ms ..< ms + mc} = {f ..< v}" using 2 by auto
    ultimately show ?thesis unfolding eq R' using 2 by (auto simp del: atLeastLessThan_iff)
  next
    case 3
    from booting_add_unless [OF b, of ms f] 3 vb dj' obtain c where
      c: "add_unless_empty b f ms = Some c" "booting c (S \<union> {f ..< ms})" "page_count c = page_count b" by fastforce
    have "{ms + mc ..< v} \<subseteq> {f ..< v}" "{ms + mc ..< v} \<inter> {f ..< ms} = {}" using 3 by auto
    with dj' have "{ms + mc ..< v} \<inter> (S \<union> {f ..< ms}) = {}" by blast
    from booting_add_unless [OF c(2) _ this] vb c(3) obtain d where
      d: "add_unless_empty c (ms + mc) v = Some d" "booting d (S \<union> {f ..< ms} \<union> {ms + mc ..< v})" "page_count d = page_count b" by auto
    have "S \<union> {f ..< ms} \<union> {ms + mc ..< v} = S \<union> ({f ..< v} - {ms ..< ms + mc})" using 3 by auto
    then show ?thesis unfolding eq R' using 3 c(1) d by auto
  qed
qed

lemma add_regions_spec:
  "booting b S \<Longrightarrow> map_ok rs \<Longrightarrow> \<forall>r \<in> set rs. region_frames r \<subseteq> {..< page_count b} \<and> region_frames r \<inter> S = {} \<Longrightarrow>
   \<exists>c o'. fold_option (add_region ms mc) (b, org) rs = Some (c, o') \<and> page_count c = page_count b
     \<and> booting c (S \<union> ((\<Union>r \<in> set rs. region_frames r) - {0} - {ms ..< ms + mc}))"
proof (induction rs arbitrary: b S org)
  case (Cons r rs)
  let ?A = "region_frames r - {0} - {ms ..< ms + mc}"
  from add_region_spec [OF Cons.prems(1), of r ms mc org] Cons.prems(2,3) obtain c p where
    c: "add_region ms mc (b, org) r = Some (c, p)" "booting c (S \<union> ?A)" "page_count c = page_count b" by auto
  have "\<forall>q \<in> set rs. region_frames q \<subseteq> {..< page_count c} \<and> region_frames q \<inter> (S \<union> ?A) = {}"
    using Cons.prems(2,3) c(3) by fastforce
  from Cons.IH [OF c(2) _ this, of p] Cons.prems(2) obtain d q where
    d: "fold_option (add_region ms mc) (c, p) rs = Some (d, q)" "page_count d = page_count c"
      "booting d (S \<union> ?A \<union> ((\<Union>r \<in> set rs. region_frames r) - {0} - {ms ..< ms + mc}))" by auto
  moreover have "S \<union> ?A \<union> ((\<Union>r \<in> set rs. region_frames r) - {0} - {ms ..< ms + mc})
    = S \<union> ((\<Union>r \<in> set (r # rs). region_frames r) - {0} - {ms ..< ms + mc})" by auto
  ultimately show ?case using c by auto
qed auto

lemma memory_size_mono: "m \<le> find_memory_size m rs"
proof (induction rs arbitrary: m)
  case (Cons r rs)
  then show ?case using order_trans [OF _ Cons.IH] by fastforce
qed simp

lemma memory_size_covers:
  "r \<in> set rs \<Longrightarrow> mm_usable r \<Longrightarrow> region_end r \<le> find_memory_size m rs"
proof (induction rs arbitrary: m)
  case (Cons q rs)
  then show ?case using memory_size_mono [of _ rs] by (auto intro: order_trans [OF _ memory_size_mono])
qed simp

lemma map_okD: "map_ok rs \<Longrightarrow> r \<in> set rs \<Longrightarrow> mm_usable r \<Longrightarrow> mm_base r + mm_length r + 4096 < 2 ^ 64"
  by (induction rs) auto

lemma memory_size_bound: "map_ok rs \<Longrightarrow> m + 4096 < 2 ^ 64 \<Longrightarrow> find_memory_size m rs + 4096 < 2 ^ 64"
  by (induction rs arbitrary: m) (auto simp: region_bounds)

definition boot_frames :: "limine_memmap_entry list \<Rightarrow> nat" where
  "boot_frames rs = (find_memory_size 0 rs + 4095) div PAGE_4K_SIZE"

definition boot_metadata :: "limine_memmap_entry list \<Rightarrow> nat set" where
  "boot_metadata rs = (let size = (boot_frames rs * 16 + 4095) div PAGE_4K_SIZE * PAGE_4K_SIZE;
     first = place_metadata size rs div PAGE_4K_SIZE in {first ..< first + size div PAGE_4K_SIZE})"

lemma place_spec:
  "map_ok rs \<Longrightarrow> place_metadata (k * PAGE_4K_SIZE) rs \<noteq> 0 \<Longrightarrow>
   \<exists>r \<in> set rs. mm_usable r \<and> 0 < mm_base r + mm_length r
     \<and> {place_metadata (k * PAGE_4K_SIZE) rs div PAGE_4K_SIZE ..< place_metadata (k * PAGE_4K_SIZE) rs div PAGE_4K_SIZE + k} \<subseteq> region_frames r"
proof (induction rs)
  case (Cons r rs)
  define u v where "u = ALIGN_UP (max (mm_base r) 0x100000) div PAGE_4K_SIZE" and "v = (mm_base r + mm_length r) div PAGE_4K_SIZE"
  show ?case
  proof (cases "mm_usable r \<and> u < v \<and> k \<le> v - u")
    case True
    have e: "region_end r = mm_base r + mm_length r" "mm_base r + mm_length r + 4096 < 2 ^ 64"
      using Cons.prems(1) True region_bounds(2) by auto
    have up: "ALIGN_UP (max (mm_base r) 0x100000) = u * PAGE_4K_SIZE" "ALIGN_DOWN (region_end r) = v * PAGE_4K_SIZE"
      by (simp_all add: u_def v_def ALIGN_UP_def ALIGN_DOWN_def e)
    have "v * PAGE_4K_SIZE - k * PAGE_4K_SIZE = (v - k) * PAGE_4K_SIZE" by (simp add: diff_mult_distrib)
    then have pl: "place_metadata (k * PAGE_4K_SIZE) (r # rs) = (v - k) * PAGE_4K_SIZE"
      using True by (simp add: up Let_def) (auto simp: ALIGN_DOWN_def diff_mult_distrib [symmetric])
    have "max (mm_base r) 0x100000 + 4095 < 2 ^ 64" using e(2) by simp
    then have "(mm_base r + 4095) div PAGE_4K_SIZE \<le> u"
      unfolding u_def ALIGN_UP_def by (simp add: size_add_exact div_le_mono)
    then have "{v - k ..< v - k + k} \<subseteq> region_frames r" using True by (auto simp: region_frames_def v_def)
    moreover have "0 < mm_base r + mm_length r" using True by (auto simp: v_def intro: gr0I)
    ultimately show ?thesis using True pl by auto
  next
    case False
    have "ALIGN_UP (max (mm_base r) 0x100000) = u * PAGE_4K_SIZE" by (simp add: u_def ALIGN_UP_def)
    moreover have "ALIGN_DOWN (region_end r) = v * PAGE_4K_SIZE" if "mm_usable r"
      using Cons.prems(1) that region_bounds(2) by (auto simp: ALIGN_DOWN_def v_def)
    ultimately have "place_metadata (k * PAGE_4K_SIZE) (r # rs) = place_metadata (k * PAGE_4K_SIZE) rs"
      using False by (auto simp: Let_def diff_mult_distrib [symmetric])
    with Cons show ?thesis by auto
  qed
qed simp

lemma init_order: "init_max_order n \<le> CONFIG_BUDDY_MAX_ORDER"
proof (cases "n = 0")
  case False
  then show ?thesis using order_for_units(2) [of n] by (auto simp: init_max_order_def Let_def)
qed (simp add: init_max_order_def buddy_order_for_units_def)

lemma boot_ok:
  assumes b: "booting b S" and z: "0 \<notin> S" and s: "s = t\<lparr>buddy := b, frame_count := page_count b, origin_frames := x,
      usable_frames := free_pages b, metadata_frames := y\<rparr>" and empty: "\<And>c. frame_pcp t c = []"
  shows "frame_ok s \<and> idle s = S \<and> refs s = (\<lambda>_. 0)"
proof -
  have ok: "buddy_ok b" "bavail b = S" using b by (simp_all add: booting_def)
  then obtain fl where inv: "buddy_inv b fl" by (auto simp: buddy_ok_def)
  have pk: "parked b = {}" using booting_unused [OF b] by (simp add: parked_def)
  have cl: "cache_list s = []" using empty by (simp add: cache_list_def s)
  have id: "idle s = S" by (simp add: idle_def s ok pk)
  have "free_pages b = card S" using card_free_set [OF inv] pool_free_eq [OF inv] ok by simp
  then have "frame_inv s {}" using ok z pk cl id empty booting_unused [OF b] by (simp add: frame_inv_def s)
  then show ?thesis using b id booting_unused [OF b] by (simp add: frame_ok_def booting_def s refs_def fun_eq_iff)
qed

lemma init_spec:
  assumes map: "map_ok rs" and size: "boot_frames rs \<le> 0x7fffffff"
    and meta: "place_metadata ((boot_frames rs * 16 + 4095) div PAGE_4K_SIZE * PAGE_4K_SIZE) rs \<noteq> 0"
    and empty: "\<And>c. frame_pcp s c = []"
  shows "\<exists>t. init_frame mem rs s = Some t \<and> frame_ok t \<and> boot_metadata rs \<subseteq> (\<Union>r \<in> set rs. region_frames r)
    \<and> idle t = (\<Union>r \<in> set rs. region_frames r) - {0} - boot_metadata rs \<and> refs t = (\<lambda>_. 0)"
proof -
  define n k where "n = boot_frames rs" and "k = (n * 16 + 4095) div PAGE_4K_SIZE"
  define a where "a = place_metadata (k * PAGE_4K_SIZE) rs"
  let ?R = "\<Union>r \<in> set rs. region_frames r"
  have mb: "boot_metadata rs = {a div PAGE_4K_SIZE ..< a div PAGE_4K_SIZE + k}"
    by (simp add: boot_metadata_def Let_def a_def k_def n_def)
  have msz: "find_memory_size 0 rs + 4096 < 2 ^ 64" by (rule memory_size_bound [OF map]) simp
  have cnt: "ALIGN_UP (find_memory_size 0 rs) div PAGE_4K_SIZE = n"
    using msz by (simp add: ALIGN_UP_def n_def boot_frames_def size_add_exact)
  have sz: "ALIGN_UP (n * 16) = k * PAGE_4K_SIZE" using size by (simp add: ALIGN_UP_def k_def n_def size_add_exact)
  have a0: "a \<noteq> 0" using meta by (simp add: a_def k_def n_def)
  from place_spec [OF map a0 [unfolded a_def]] obtain r where r: "r \<in> set rs" "mm_usable r" "0 < mm_base r + mm_length r"
    "{a div PAGE_4K_SIZE ..< a div PAGE_4K_SIZE + k} \<subseteq> region_frames r" unfolding a_def by metis
  have top: "mm_base q + mm_length q \<le> find_memory_size 0 rs" if "q \<in> set rs" "mm_usable q" for q
    using memory_size_covers [OF that] region_bounds(2) [OF that(2) map_okD [OF map that]] by simp
  have "1 \<le> find_memory_size 0 rs" using top [OF r(1,2)] r(3) by linarith
  then have n0: "0 < n" by (simp add: n_def boot_frames_def div_greater_zero_iff)
  have fit: "region_frames q \<subseteq> {..< n}" if "q \<in> set rs" for q
  proof (cases "mm_usable q")
    case True
    have "(mm_base q + mm_length q) div PAGE_4K_SIZE \<le> n"
      unfolding n_def boot_frames_def using top [OF that True] by (intro div_le_mono) simp
    then show ?thesis by (auto simp: region_frames_def)
  qed (simp add: region_frames_def)
  obtain b where b: "buddy_init (buddy s) (Some (mem a)) n (init_max_order n) = (EOK, b)"
    using n0 size init_order [of n] by (simp add: buddy_init_def n_def)
  note bb = booting_init [OF b]
  have "\<exists>c o'. fold_option (add_region (a div PAGE_4K_SIZE) k) (b, 0) rs = Some (c, o') \<and> page_count c = page_count b
     \<and> booting c ({} \<union> (?R - {0} - {a div PAGE_4K_SIZE ..< a div PAGE_4K_SIZE + k}))"
    by (rule add_regions_spec [OF _ map]) (use bb fit in auto)
  then obtain c x where c: "fold_option (add_region (a div PAGE_4K_SIZE) k) (b, 0) rs = Some (c, x)" "page_count c = n"
    "booting c (?R - {0} - boot_metadata rs)" using bb by (auto simp: mb)
  have eq: "init_frame mem rs s = Some (s\<lparr>buddy := c, frame_count := n, origin_frames := x, usable_frames := free_pages c, metadata_frames := k\<rparr>)"
    unfolding init_frame_def Let_def cnt sz a_def [symmetric] using a0 b c(1) by simp
  have "boot_metadata rs \<subseteq> ?R" using r(1,4) mb by blast
  with eq boot_ok [OF c(3) _ refl, where t = s and x = x and y = k] empty c(2) show ?thesis by auto
qed

section \<open>Allocation as a whole\<close>

definition block_order :: "nat \<Rightarrow> nat \<Rightarrow> nat" where
  "block_order cnt k = max (buddy_order_for_units cnt) k"

text \<open>The contract of an allocation of \<open>cnt\<close> frames aligned to \<open>2 ^ k\<close> frames.\<close>

definition alloc_contract :: "frame_allocator \<Rightarrow> nat \<Rightarrow> nat \<Rightarrow> nat \<Rightarrow> frame_allocator \<Rightarrow> bool" where
  "alloc_contract s cnt k a t \<longleftrightarrow>
     (if a = 0 then quiet s t \<and> (0 < cnt \<and> block_order cnt k \<le> max_order (buddy s) \<longrightarrow>
          \<not> (\<exists>i. 2 ^ block_order cnt k dvd i \<and> {i ..< i + 2 ^ block_order cnt k} \<subseteq> idle s))
      else PAGE_4K_SIZE * 2 ^ k dvd a \<and> took {a div PAGE_4K_SIZE ..< a div PAGE_4K_SIZE + cnt} s t)"

lemma frame_okI: "frame_ok s \<Longrightarrow> frame_inv t {} \<Longrightarrow> page_count (buddy t) = page_count (buddy s) \<Longrightarrow>
    (\<forall>i. pg_reserved (pages (buddy t) i) = pg_reserved (pages (buddy s) i)) \<Longrightarrow> frame_ok t"
  by (simp add: frame_ok_def)

lemma quiet_ok: "frame_ok s \<Longrightarrow> frame_inv t {} \<Longrightarrow> quiet s t \<Longrightarrow> frame_ok t"
  by (rule frame_okI) (auto simp: quiet_def frame_ok_def frame_inv_def)

lemma took_ok: "frame_ok s \<Longrightarrow> frame_inv t {} \<Longrightarrow> took F s t \<Longrightarrow> frame_ok t"
  by (rule frame_okI) (auto simp: took_def frame_ok_def frame_inv_def)

lemma order_holds: "0 < cnt \<Longrightarrow> buddy_order_for_units cnt \<le> CONFIG_BUDDY_MAX_ORDER \<Longrightarrow> cnt \<le> 2 ^ block_order cnt k"
proof -
  assume a: "0 < cnt" "buddy_order_for_units cnt \<le> CONFIG_BUDDY_MAX_ORDER"
  then have "cnt \<le> 2 ^ buddy_order_for_units cnt" using order_for_units(2) [of cnt] by auto
  also have "\<dots> \<le> (2::nat) ^ block_order cnt k" by (rule power_increasing) (simp_all add: block_order_def)
  finally show ?thesis .
qed

lemma alloc_aligned_spec:
  assumes ok: "frame_ok s"
  shows "\<exists>a t. alloc_frames_aligned s cnt k = Some (a, t) \<and> frame_ok t \<and> alloc_contract s cnt k a t"
proof -
  have inv: "frame_inv s {}" using ok by (simp add: frame_ok_def)
  have mo: "max_order (buddy s) \<le> CONFIG_BUDDY_MAX_ORDER" using inv ok_bounds(6) by (simp add: frame_inv_def)
  consider (none) "cnt = 0 \<or> buddy_order_for_units cnt > CONFIG_BUDDY_MAX_ORDER"
    | (single) "cnt = 1" "k = 0" | (multi) "0 < cnt" "buddy_order_for_units cnt \<le> CONFIG_BUDDY_MAX_ORDER" "\<not> (cnt = 1 \<and> k = 0)"
    by fastforce
  then show ?thesis
  proof cases
    case none
    then have "alloc_frames_aligned s cnt k = Some (0, s)" by (auto simp: alloc_frames_aligned_def)
    moreover have "alloc_contract s cnt k 0 s" using none mo by (auto simp: alloc_contract_def block_order_def)
    ultimately show ?thesis using ok by blast
  next
    case single
    have o1: "buddy_order_for_units 1 = 0" by code_simp
    from alloc_single_spec [OF inv] obtain r t where
      r: "alloc_single s = Some (r, t)" "frame_inv t {}"
        "case r of None \<Rightarrow> idle s = {} \<and> quiet s t | Some f \<Rightarrow> f \<noteq> 0 \<and> took {f} s t" by blast
    have eq: "alloc_frames_aligned s cnt k = Some (case r of None \<Rightarrow> 0 | Some f \<Rightarrow> f * PAGE_4K_SIZE, t)"
      using single o1 r(1) by (simp add: alloc_frames_aligned_def Let_def)
    show ?thesis
    proof (cases r)
      case None
      then show ?thesis using eq r quiet_ok [OF ok r(2)] single by (auto simp: alloc_contract_def)
    next
      case (Some f)
      then show ?thesis using eq r took_ok [OF ok r(2)] single by (auto simp: alloc_contract_def)
    qed
  next
    case multi
    from alloc_multi_spec [OF inv multi(1) order_holds [OF multi(1,2), of k]] obtain a t where
      a: "alloc_multi s (block_order cnt k) cnt = Some (a, t)" "frame_inv t {}"
        "if a = 0 then quiet s t \<and> (block_order cnt k \<le> max_order (buddy s) \<longrightarrow>
           \<not> (\<exists>i. 2 ^ block_order cnt k dvd i \<and> {i ..< i + 2 ^ block_order cnt k} \<subseteq> idle s))
         else \<exists>f. a = f * PAGE_4K_SIZE \<and> 2 ^ block_order cnt k dvd f \<and> took {f ..< f + cnt} s t" by blast
    have eq: "alloc_frames_aligned s cnt k = Some (a, t)"
      using multi a(1) by (auto simp: alloc_frames_aligned_def Let_def block_order_def max_def not_less split: if_splits)
    show ?thesis
    proof (cases "a = 0")
      case True
      then show ?thesis using eq a(2,3) quiet_ok [OF ok a(2)] by (auto simp: alloc_contract_def)
    next
      case False
      then obtain f where f: "a = f * PAGE_4K_SIZE" "2 ^ block_order cnt k dvd f" "took {f ..< f + cnt} s t" using a(3) by auto
      have "(2::nat) ^ k dvd 2 ^ block_order cnt k" by (rule le_imp_power_dvd) (simp add: block_order_def)
      then have "2 ^ k dvd f" using f(2) dvd_trans by blast
      then have "PAGE_4K_SIZE * 2 ^ k dvd a" unfolding f(1) by (metis mult.commute mult_dvd_mono dvd_refl)
      moreover have "a div PAGE_4K_SIZE = f" by (simp add: f(1))
      ultimately have "alloc_contract s cnt k a t" using False f(3) by (simp add: alloc_contract_def)
      then show ?thesis using eq took_ok [OF ok a(2) f(3)] by blast
    qed
  qed
qed

lemma validate_spec:
  assumes ok: "frame_ok s"
  shows "\<exists>t. frame_validate s = Some (EOK, t) \<and> frame_ok t \<and> quiet s t"
proof -
  have inv: "frame_inv s {}" using ok by (simp add: frame_ok_def)
  from drain_all_spec [OF inv] obtain t where
    t: "frame_pcp_drain_all s = Some t" "frame_inv t {}" "quiet s t" "cache_list t = []" by blast
  then have "buddy_ok (buddy t)" by (simp add: frame_inv_def)
  then obtain fl where fl: "buddy_inv (buddy t) fl" by (auto simp: buddy_ok_def)
  have "buddy_validate (buddy t) = EOK" using validate_iff_lists buddy_inv_lists_valid [OF fl] by blast
  moreover have "usable_frames t = free_pages (buddy t)"
    using t(2) drained_avail [OF t(2,4)] card_free_set [OF fl] pool_free_eq [OF fl] by (simp add: frame_inv_def)
  ultimately show ?thesis using t quiet_ok [OF ok t(2,3)] by (simp add: frame_validate_def)
qed

lemma retain_ok:
  assumes ok: "frame_ok s" and r: "frame_retain_range s a n = Some (st, t)"
  shows "frame_ok t"
proof (cases "range_args_ok s a n")
  case True
  have inv: "frame_inv s {}" using ok by (simp add: frame_ok_def)
  have "frame_count t = frame_count s" using r by (auto simp: frame_retain_range_def Let_def bind_eq_Some_conv split: if_splits)
  then have "page_count (buddy t) = page_count (buddy s)" if "frame_inv t {}" using that inv by (simp add: frame_inv_def)
  then show ?thesis using retain_spec [OF inv True] r ok frame_okI [OF ok, of t] by (auto split: if_splits)
qed (use ok r in \<open>simp add: frame_retain_range_def\<close>)

lemma release_ok:
  assumes ok: "frame_ok s" and r: "frame_release_range s a n = Some (st, t)"
  shows "frame_ok t"
proof (cases "range_args_ok s a n")
  case True
  show ?thesis using release_spec [OF ok True] r ok by (auto split: if_splits)
qed (use ok r in \<open>simp add: frame_release_range_def\<close>)

section \<open>Reachable allocators\<close>

text \<open>
  The states of a running kernel: booted from a sound memory map, then any sequence of the
  public operations, on any CPU.
\<close>

inductive frame_reach :: "frame_allocator \<Rightarrow> bool" where
  boot: "map_ok rs \<Longrightarrow> boot_frames rs \<le> 0x7fffffff \<Longrightarrow>
     place_metadata ((boot_frames rs * 16 + 4095) div PAGE_4K_SIZE * PAGE_4K_SIZE) rs \<noteq> 0 \<Longrightarrow>
     (\<And>c. frame_pcp s c = []) \<Longrightarrow> init_frame mem rs s = Some t \<Longrightarrow> frame_reach t"
| alloc: "frame_reach s \<Longrightarrow> alloc_frames_aligned s cnt k = Some (a, t) \<Longrightarrow> frame_reach t"
| retain: "frame_reach s \<Longrightarrow> frame_retain_range s a n = Some (st, t) \<Longrightarrow> frame_reach t"
| release: "frame_reach s \<Longrightarrow> frame_release_range s a n = Some (st, t) \<Longrightarrow> frame_reach t"
| validate: "frame_reach s \<Longrightarrow> frame_validate s = Some (st, t) \<Longrightarrow> frame_reach t"
| migrate: "frame_reach s \<Longrightarrow> frame_reach (s\<lparr>sched_started := b, current_cpu := cpu\<rparr>)"

lemma cpu_ok: "frame_ok s \<Longrightarrow> frame_ok (s\<lparr>sched_started := b, current_cpu := cpu\<rparr>)"
  by (simp add: frame_ok_def frame_inv_def cache_list_def idle_def)

lemma reach_frame_ok: "frame_reach s \<Longrightarrow> frame_ok s"
proof (induction rule: frame_reach.induct)
  case (boot rs s mem t)
  then show ?case using init_spec [of rs s mem] by auto
next
  case (alloc s cnt k a t)
  then show ?case using alloc_aligned_spec [of s cnt k] by auto
next
  case (validate s st t)
  then show ?case using validate_spec [of s] by auto
qed (blast intro: retain_ok release_ok cpu_ok)+

section \<open>A booted machine\<close>

definition demo_map :: "limine_memmap_entry list" where
  "demo_map = [\<lparr>mm_base = 0x9000, mm_length = 0x1000, mm_usable = False\<rparr>,
               \<lparr>mm_base = 0x100000, mm_length = 0x20000, mm_usable = True\<rparr>]"

definition demo_off :: frame_allocator where
  "demo_off = \<lparr>buddy = demo_raw, frame_count = 0, origin_frames = 0, usable_frames = 0, metadata_frames = 0,
     frame_pcp = (\<lambda>_. []), sched_started = False, current_cpu = 0\<rparr>"

definition demo_boot :: frame_allocator where
  "demo_boot = the (init_frame (\<lambda>_ _. demo_page) demo_map demo_off)"

lemma demo_map_ok: "map_ok demo_map" "boot_frames demo_map = 288" "place_metadata 8192 demo_map = 1171456"
  by (simp_all add: boot_frames_def demo_map_def region_end_def size_add_exact region_frames_def ALIGN_UP_def ALIGN_DOWN_def)

lemma demo_boot_run:
  "init_frame (\<lambda>_ _. demo_page) demo_map demo_off = Some demo_boot" "frame_ok demo_boot" "idle demo_boot = {256 ..< 286}"
proof -
  have "\<exists>t. init_frame (\<lambda>_ _. demo_page) demo_map demo_off = Some t \<and> frame_ok t
      \<and> boot_metadata demo_map \<subseteq> (\<Union>r \<in> set demo_map. region_frames r)
      \<and> idle t = (\<Union>r \<in> set demo_map. region_frames r) - {0} - boot_metadata demo_map \<and> refs t = (\<lambda>_. 0)"
    by (rule init_spec) (simp_all add: demo_map_ok demo_off_def)
  moreover have "(\<Union>r \<in> set demo_map. region_frames r) = {256 ..< 288}" by (simp add: demo_map_def region_frames_def)
  moreover have "boot_metadata demo_map = {286 ..< 288}"
    by (simp add: boot_metadata_def Let_def demo_map_ok)
  moreover have "{256 ..< 288} - {0} - {286 ..< 288} = {256 ..< (286::nat)}" by auto
  ultimately show "init_frame (\<lambda>_ _. demo_page) demo_map demo_off = Some demo_boot" "frame_ok demo_boot" "idle demo_boot = {256 ..< 286}"
    by (auto simp: demo_boot_def)
qed

lemma demo_boot_reach: "frame_reach demo_boot"
  by (rule frame_reach.boot [OF demo_map_ok(1) _ _ _ demo_boot_run(1)]) (simp_all add: demo_map_ok demo_off_def)

definition demo_addr :: nat where "demo_addr = fst (the (alloc_frames_aligned demo_boot 1 0))"
definition demo_held :: frame_allocator where "demo_held = snd (the (alloc_frames_aligned demo_boot 1 0))"

lemma order_one: "buddy_order_for_units 1 = 0" "block_order 1 0 = 0"
proof -
  show "buddy_order_for_units 1 = 0" by code_simp
  then show "block_order 1 0 = 0" by (simp add: block_order_def)
qed

lemma demo_held_run:
  "alloc_frames_aligned demo_boot 1 0 = Some (demo_addr, demo_held)" "frame_reach demo_held" "demo_addr \<noteq> 0"
  "PAGE_4K_SIZE dvd demo_addr" "took {demo_addr div PAGE_4K_SIZE} demo_boot demo_held"
  "refs demo_held (demo_addr div PAGE_4K_SIZE) = 1"
proof -
  from alloc_aligned_spec [OF demo_boot_run(2), of 1 0] obtain a t where
    a: "alloc_frames_aligned demo_boot 1 0 = Some (a, t)" "alloc_contract demo_boot 1 0 a t" by blast
  have at: "a = demo_addr" "t = demo_held" using a(1) by (simp_all add: demo_addr_def demo_held_def)
  show run: "alloc_frames_aligned demo_boot 1 0 = Some (demo_addr, demo_held)" using a(1) at by simp
  then show "frame_reach demo_held" by (rule frame_reach.alloc [OF demo_boot_reach])
  have "{256 ..< 256 + 2 ^ 0} \<subseteq> idle demo_boot" by (auto simp: demo_boot_run)
  then show nz: "demo_addr \<noteq> 0" using a(2) at unfolding alloc_contract_def order_one by (auto split: if_splits)
  then show "PAGE_4K_SIZE dvd demo_addr" "took {demo_addr div PAGE_4K_SIZE} demo_boot demo_held"
    using a(2) at by (simp_all add: alloc_contract_def)
  then show "refs demo_held (demo_addr div PAGE_4K_SIZE) = 1" by (simp add: took_def)
qed

lemma args_refused:
  "\<not> range_args_ok s a n \<Longrightarrow> frame_release_range s a n = Some (ERR EINVAL, s)"
  "\<not> range_args_ok s a n \<Longrightarrow> frame_retain_range s a n = Some (ERR EINVAL, s)"
  by (simp_all add: frame_release_range_def frame_retain_range_def)

lemma reach_args:
  "frame_reach s \<Longrightarrow> range_args_ok s a n \<longleftrightarrow> a \<noteq> 0 \<and> 0 < n \<and> PAGE_4K_SIZE dvd a \<and> a div PAGE_4K_SIZE + n \<le> frame_count s"
  using range_args [of s "{}" a n] reach_frame_ok [of s] by (simp add: frame_ok_def frame_inv_def)

lemma held_bound: "frame_ok s \<Longrightarrow> refs s j \<noteq> 0 \<Longrightarrow> j < frame_count s"
  using refs_out [of j s] by (auto simp: frame_ok_def frame_inv_def)

definition all_held :: "frame_allocator \<Rightarrow> nat \<Rightarrow> nat \<Rightarrow> bool" where
  "all_held s f n \<longleftrightarrow> (\<forall>j. f \<le> j \<and> j < f + n \<longrightarrow> refs s j \<noteq> 0)"

definition no_overflow :: "frame_allocator \<Rightarrow> nat \<Rightarrow> nat \<Rightarrow> bool" where
  "no_overflow s f n \<longleftrightarrow> (\<forall>j. f \<le> j \<and> j < f + n \<longrightarrow> refs s j \<noteq> 0xffffffff)"

section \<open>Correctness\<close>

text \<open>
  C7: allocation. In every reachable state \<^verbatim>\<open>alloc_frames_aligned\<close> terminates without an
  access out of bounds. A nonzero result is the address of the requested number of frames, aligned
  as requested; these frames were idle, now have exactly one reference, and every other count and
  the rest of the idle frames are as before. A zero result changes nothing a holder can see, and
  means that no aligned run of idle frames of the block order exists, the per-CPU caches of every
  CPU included.
\<close>

theorem alloc_frames_aligned_correct:
  assumes "frame_reach s"
  shows "\<exists>a t. alloc_frames_aligned s cnt k = Some (a, t) \<and>
    (if a = 0 then quiet s t \<and> (0 < cnt \<and> block_order cnt k \<le> max_order (buddy s) \<longrightarrow>
          \<not> (\<exists>i. 2 ^ block_order cnt k dvd i \<and> {i ..< i + 2 ^ block_order cnt k} \<subseteq> idle s))
     else PAGE_4K_SIZE * 2 ^ k dvd a \<and> took {a div PAGE_4K_SIZE ..< a div PAGE_4K_SIZE + cnt} s t)"
  using alloc_aligned_spec [OF reach_frame_ok [OF assms], of cnt k] unfolding alloc_contract_def by blast

theorem alloc_frames_aligned_correct_witness:
  "\<exists>a t. alloc_frames_aligned demo_boot 1 0 = Some (a, t) \<and> took {a div PAGE_4K_SIZE ..< a div PAGE_4K_SIZE + 1} demo_boot t"
  using alloc_frames_aligned_correct [OF demo_boot_reach, of 1 0] demo_held_run(1,3) by auto

text \<open>
  C8: release. \<^verbatim>\<open>frame_release_range\<close> refuses a range that is empty, unaligned, at address
  zero or outside memory with \<^verbatim>\<open>EINVAL\<close>, and a range with a frame nobody holds with
  \<^verbatim>\<open>EFAULT\<close>, both without any change; otherwise every count drops by one and exactly the
  frames whose last reference this was become idle.
\<close>

theorem frame_release_range_correct:
  assumes "frame_reach s"
  shows "if a \<noteq> 0 \<and> 0 < n \<and> PAGE_4K_SIZE dvd a \<and> a div PAGE_4K_SIZE + n \<le> frame_count s
    then if all_held s (a div PAGE_4K_SIZE) n
      then \<exists>t. frame_release_range s a n = Some (EOK, t) \<and> frame_reach t
        \<and> idle t = idle s \<union> {j. a div PAGE_4K_SIZE \<le> j \<and> j < a div PAGE_4K_SIZE + n \<and> refs s j = 1}
        \<and> refs t = (\<lambda>j. if a div PAGE_4K_SIZE \<le> j \<and> j < a div PAGE_4K_SIZE + n then refs s j - 1 else refs s j)
      else frame_release_range s a n = Some (ERR EFAULT, s)
    else frame_release_range s a n = Some (ERR EINVAL, s)"
  using release_spec [OF reach_frame_ok [OF assms], of a n, folded all_held_def] frame_reach.release [OF assms, of a n]
    args_refused(1) [of s a n] reach_args [OF assms, of a n] by (auto split: if_splits)

theorem frame_release_range_correct_witness:
  "\<exists>t. frame_release_range demo_held demo_addr 1 = Some (EOK, t) \<and> refs t (demo_addr div PAGE_4K_SIZE) = 0
     \<and> idle t = {256 ..< 286} \<and> frame_release_range demo_held (demo_addr + 1) 1 = Some (ERR EINVAL, demo_held)"
proof -
  have "demo_addr div PAGE_4K_SIZE + 1 \<le> frame_count demo_held"
    using held_bound [OF reach_frame_ok [OF demo_held_run(2)]] demo_held_run(6) by (simp add: Suc_le_eq)
  moreover have "\<not> PAGE_4K_SIZE dvd demo_addr + 1" using demo_held_run(4) dvd_add_right_iff [of PAGE_4K_SIZE demo_addr 1] by simp
  moreover have "all_held demo_held (demo_addr div PAGE_4K_SIZE) 1" using demo_held_run(6)
    unfolding all_held_def by (metis Suc_eq_plus1 less_Suc_eq_le order_antisym zero_neq_one)
  moreover have "{j. demo_addr div PAGE_4K_SIZE \<le> j \<and> j < demo_addr div PAGE_4K_SIZE + 1 \<and> refs demo_held j = 1} = {demo_addr div PAGE_4K_SIZE}"
    using demo_held_run(6) by (auto simp: less_Suc_eq_le intro: order_antisym)
  moreover have "idle demo_held \<union> {demo_addr div PAGE_4K_SIZE} = {256 ..< 286}"
    using demo_held_run(5) demo_boot_run(3) by (auto simp: took_def)
  ultimately show ?thesis
    using frame_release_range_correct [OF demo_held_run(2), of demo_addr 1]
      frame_release_range_correct [OF demo_held_run(2), of "demo_addr + 1" 1] demo_held_run(3,4,6) by auto
qed

text \<open>
  C9: retaining. \<^verbatim>\<open>frame_retain_range\<close> adds one reference to every frame of a range whose
  frames are all held and below the largest count; any other request is refused with an error and
  leaves the allocator as it was, so no count ever wraps to zero.
\<close>

theorem frame_retain_range_correct:
  assumes "frame_reach s"
  shows "if a \<noteq> 0 \<and> 0 < n \<and> PAGE_4K_SIZE dvd a \<and> a div PAGE_4K_SIZE + n \<le> frame_count s
    then if all_held s (a div PAGE_4K_SIZE) n \<and> no_overflow s (a div PAGE_4K_SIZE) n
      then \<exists>t. frame_retain_range s a n = Some (EOK, t) \<and> frame_reach t \<and> idle t = idle s
        \<and> refs t = (\<lambda>j. if a div PAGE_4K_SIZE \<le> j \<and> j < a div PAGE_4K_SIZE + n then refs s j + 1 else refs s j)
      else frame_retain_range s a n \<in> {Some (ERR EFAULT, s), Some (ERR EOVERFLOW, s)}
    else frame_retain_range s a n = Some (ERR EINVAL, s)"
proof -
  have inv: "frame_inv s {}" using reach_frame_ok [OF assms] by (simp add: frame_ok_def)
  have h: "(\<forall>j. a div PAGE_4K_SIZE \<le> j \<and> j < a div PAGE_4K_SIZE + n \<longrightarrow> refs s j \<noteq> 0 \<and> refs s j \<noteq> 0xffffffff)
    \<longleftrightarrow> all_held s (a div PAGE_4K_SIZE) n \<and> no_overflow s (a div PAGE_4K_SIZE) n"
    unfolding all_held_def no_overflow_def by blast
  show ?thesis using retain_spec [OF inv, of a n, unfolded h] frame_reach.retain [OF assms, of a n]
    args_refused(2) [of s a n] reach_args [OF assms, of a n] by (auto split: if_splits)
qed

theorem frame_retain_range_correct_witness:
  "\<exists>t. frame_retain_range demo_held demo_addr 1 = Some (EOK, t) \<and> refs t (demo_addr div PAGE_4K_SIZE) = 2"
proof -
  have "demo_addr div PAGE_4K_SIZE + 1 \<le> frame_count demo_held"
    using held_bound [OF reach_frame_ok [OF demo_held_run(2)]] demo_held_run(6) by (simp add: Suc_le_eq)
  moreover have "j = demo_addr div PAGE_4K_SIZE" if "demo_addr div PAGE_4K_SIZE \<le> j" "j < demo_addr div PAGE_4K_SIZE + 1" for j
    using that by simp
  then have "all_held demo_held (demo_addr div PAGE_4K_SIZE) 1 \<and> no_overflow demo_held (demo_addr div PAGE_4K_SIZE) 1"
    using demo_held_run(6) unfolding all_held_def no_overflow_def by fastforce
  ultimately show ?thesis
    using frame_retain_range_correct [OF demo_held_run(2), of demo_addr 1] demo_held_run(3,4,6) by auto
qed

text \<open>
  C10: initialisation. For a memory map without wrap-around whose usable regions are disjoint and
  which has room for the page array, \<^verbatim>\<open>init_frame\<close> places the array inside usable memory and
  makes idle exactly the whole frames of the usable regions, without frame zero and the array; no
  frame has a reference.
\<close>

theorem init_frame_correct:
  assumes "map_ok rs" "boot_frames rs \<le> 0x7fffffff"
    "place_metadata ((boot_frames rs * 16 + 4095) div PAGE_4K_SIZE * PAGE_4K_SIZE) rs \<noteq> 0" "\<forall>c. frame_pcp s c = []"
  shows "\<exists>t. init_frame mem rs s = Some t \<and> boot_metadata rs \<subseteq> (\<Union>r \<in> set rs. region_frames r)
    \<and> idle t = (\<Union>r \<in> set rs. region_frames r) - {0} - boot_metadata rs \<and> refs t = (\<lambda>_. 0) \<and> usable_frames t = card (idle t)"
  using init_spec [OF assms(1-3), of s mem] assms(4) by (auto simp: frame_ok_def frame_inv_def)

theorem init_frame_correct_witness:
  "\<exists>t. init_frame (\<lambda>_ _. demo_page) demo_map demo_off = Some t \<and> idle t = {256 ..< 286} \<and> usable_frames t = 30"
proof -
  have "\<exists>t. init_frame (\<lambda>_ _. demo_page) demo_map demo_off = Some t
    \<and> boot_metadata demo_map \<subseteq> (\<Union>r \<in> set demo_map. region_frames r)
    \<and> idle t = (\<Union>r \<in> set demo_map. region_frames r) - {0} - boot_metadata demo_map \<and> refs t = (\<lambda>_. 0) \<and> usable_frames t = card (idle t)"
    by (rule init_frame_correct) (simp_all add: demo_map_ok demo_off_def)
  then show ?thesis using demo_boot_run(1,3) by auto
qed

text \<open>
  C11: consistency. In every reachable state the counter of usable frames is the number of idle
  frames, idle frames are frames of the machine other than frame zero that nobody holds,
  \<^verbatim>\<open>frame_refcount\<close> reports the reference counts, and \<^verbatim>\<open>frame_validate\<close>
  succeeds with no visible effect.
\<close>

theorem frame_reachable_consistent:
  assumes "frame_reach s"
  shows "usable_frames s = card (idle s) \<and> (\<forall>i \<in> idle s. 0 < i \<and> i < frame_count s \<and> refs s i = 0)
    \<and> (\<forall>a. frame_refcount s a = Some (if PAGE_4K_SIZE dvd a then refs s (a div PAGE_4K_SIZE) else 0))
    \<and> (\<exists>t. frame_validate s = Some (EOK, t) \<and> quiet s t)"
proof -
  note ok = reach_frame_ok [OF assms]
  have inv: "frame_inv s {}" and bok: "buddy_ok (buddy s)" using ok by (simp_all add: frame_ok_def frame_inv_def)
  have "0 < i \<and> i < frame_count s \<and> refs s i = 0" if "i \<in> idle s" for i
  proof -
    have "0 \<notin> idle s" using inv by (simp add: idle_def parked_def frame_inv_def)
    then have "i \<noteq> 0" using that by metis
    moreover have "i < page_count (buddy s)"
      using that ok_bounds(1) [OF bok] by (auto simp: idle_def parked_def used_none)
    moreover have "refs s i = 0" using that avail_unused [OF bok, of i] by (auto simp: idle_def parked_def refs_def)
    ultimately show ?thesis using inv by (simp add: frame_inv_def)
  qed
  then show ?thesis using inv validate_spec [OF ok] refcount_spec [OF inv] by (auto simp: frame_inv_def)
qed

theorem frame_reachable_consistent_witness:
  "usable_frames demo_boot = 30 \<and> (\<exists>t. frame_validate demo_boot = Some (EOK, t) \<and> quiet demo_boot t)
   \<and> frame_refcount demo_held demo_addr = Some 1"
  using frame_reachable_consistent [OF demo_boot_reach] frame_reachable_consistent [OF demo_held_run(2)]
    demo_boot_run(3) demo_held_run(4,6) by auto

text \<open>
  C12: an allocation followed by the release of the same range restores every reference count and
  the set of idle frames.
\<close>

theorem alloc_free_roundtrip:
  assumes "frame_reach s" "alloc_frames s cnt = Some (a, t)" "a \<noteq> 0"
  shows "\<exists>u. free_frames t a cnt = Some u \<and> idle u = idle s \<and> refs u = refs s"
proof -
  note ok = reach_frame_ok [OF assms(1)]
  have r: "alloc_frames_aligned s cnt 0 = Some (a, t)" using assms(2) by (simp add: alloc_frames_def)
  then have al: "PAGE_4K_SIZE dvd a" and tk: "took {a div PAGE_4K_SIZE ..< a div PAGE_4K_SIZE + cnt} s t" and tok: "frame_ok t"
    using alloc_aligned_spec [OF ok, of cnt 0] assms(3) by (auto simp: alloc_contract_def)
  let ?f = "a div PAGE_4K_SIZE"
  have cnt: "0 < cnt" using r assms(3) by (auto simp: alloc_frames_aligned_def split: if_splits)
  have one: "refs t j = 1" if "?f \<le> j" "j < ?f + cnt" for j using tk that by (simp add: took_def)
  have zero: "refs s j = 0" if "?f \<le> j" "j < ?f + cnt" for j
  proof -
    have "j \<in> idle s" using tk that by (auto simp: took_def)
    then show ?thesis using avail_unused [of "buddy s" j] ok by (auto simp: idle_def parked_def refs_def frame_ok_def frame_inv_def)
  qed
  have "?f + cnt - 1 < frame_count t" by (rule held_bound [OF tok]) (use one [of "?f + cnt - 1"] cnt in auto)
  then have args: "range_args_ok t a cnt"
    using reach_args [OF frame_reach.alloc [OF assms(1) r]] al assms(3) cnt by auto
  from release_spec [OF tok args] one obtain u where
    u: "frame_release_range t a cnt = Some (EOK, u)" "idle u = idle t \<union> {j. ?f \<le> j \<and> j < ?f + cnt \<and> refs t j = 1}"
      "refs u = (\<lambda>j. if ?f \<le> j \<and> j < ?f + cnt then refs t j - 1 else refs t j)" by (auto split: if_splits)
  have "{j. ?f \<le> j \<and> j < ?f + cnt \<and> refs t j = 1} = {?f ..< ?f + cnt}" using one by auto
  then have "idle u = idle s" using u(2) tk by (auto simp: took_def)
  moreover have "refs u = refs s" using u(3) one zero tk by (auto simp: fun_eq_iff took_def)
  ultimately show ?thesis using u(1) by (simp add: free_frames_def)
qed

theorem alloc_free_roundtrip_witness:
  "\<exists>u. free_frames demo_held demo_addr 1 = Some u \<and> idle u = idle demo_boot \<and> refs u = refs demo_boot"
  by (rule alloc_free_roundtrip [OF demo_boot_reach _ demo_held_run(3)]) (use demo_held_run(1) in \<open>simp add: alloc_frames_def\<close>)

end
