(* ===== verification/Membytes.thy ===== *)
theory Membytes
  imports Prelude
begin

text \<open>
  The memory block functions of \<^verbatim>\<open>src/libs/std/string.c\<close>. Memory is the list of its bytes and
  a pointer an index into it, so that the two arguments of a copy may overlap; an access outside
  the list is \<open>None\<close>. The string instructions \<^verbatim>\<open>rep movsq\<close>, \<^verbatim>\<open>rep movsb\<close> and
  \<^verbatim>\<open>rep stosq\<close> are loops over units of eight or one bytes, ascending, or descending after
  \<^verbatim>\<open>std\<close>.
\<close>

type_synonym bytes = "uint8_t list"

definition load :: "bytes \<Rightarrow> nat \<Rightarrow> nat \<Rightarrow> bytes option" where
  "load m p w = (if p + w \<le> length m then Some (take w (drop p m)) else None)"

definition store :: "bytes \<Rightarrow> nat \<Rightarrow> bytes \<Rightarrow> bytes option" where
  "store m p bs = (if p + length bs \<le> length m then Some (take p m @ bs @ drop (p + length bs) m) else None)"

fun rep_movs :: "nat \<Rightarrow> bytes \<Rightarrow> nat \<Rightarrow> nat \<Rightarrow> nat \<Rightarrow> bytes option" where
  "rep_movs w m d s 0 = Some m"
| "rep_movs w m d s (Suc k) = do { bs \<leftarrow> load m s w; m \<leftarrow> store m d bs; rep_movs w m (d + w) (s + w) k }"

text \<open>The descending copy; the index after the last step is not used any more.\<close>

fun rep_movsb_down :: "bytes \<Rightarrow> nat \<Rightarrow> nat \<Rightarrow> nat \<Rightarrow> bytes option" where
  "rep_movsb_down m d s 0 = Some m"
| "rep_movsb_down m d s (Suc k) = do { bs \<leftarrow> load m s 1; m \<leftarrow> store m d bs; rep_movsb_down m (d - 1) (s - 1) k }"

fun rep_stos :: "bytes \<Rightarrow> bytes \<Rightarrow> nat \<Rightarrow> nat \<Rightarrow> bytes option" where
  "rep_stos bs m d 0 = Some m"
| "rep_stos bs m d (Suc k) = do { m \<leftarrow> store m d bs; rep_stos bs m (d + length bs) k }"

section \<open>The functions\<close>

definition memcpy :: "bytes \<Rightarrow> nat \<Rightarrow> nat \<Rightarrow> nat \<Rightarrow> bytes option" where
  "memcpy m str1 str2 n =
     (if str1 = str2 \<or> n = 0 then Some m
      else let words = n div 8; tail = n mod 8 in
        do { m \<leftarrow> rep_movs 8 m str1 str2 words; rep_movs 1 m (str1 + 8 * words) (str2 + 8 * words) tail })"

text \<open>The stored word is the byte times \<^verbatim>\<open>0x0101010101010101\<close>, in memory least significant byte first.\<close>

definition word_bytes :: "uint64_t \<Rightarrow> bytes" where
  "word_bytes v = map (\<lambda>i. ucast (drop_bit (8 * i) v)) [0..<8]"

definition memset :: "bytes \<Rightarrow> nat \<Rightarrow> int32_t \<Rightarrow> nat \<Rightarrow> bytes option" where
  "memset m str c n =
     (let words = n div 8; tail = n mod 8; byte = (ucast (ucast c :: uint8_t) :: uint64_t);
          val = byte * 0x0101010101010101
      in do { m \<leftarrow> rep_stos (word_bytes val) m str words; rep_stos [ucast c] m (str + 8 * words) tail })"

definition memmove :: "bytes \<Rightarrow> nat \<Rightarrow> nat \<Rightarrow> nat \<Rightarrow> bytes option" where
  "memmove m str1 str2 n =
     (if str1 = str2 \<or> n = 0 then Some m
      else if str1 < str2 \<or> str1 \<ge> str2 + n then
        let words = n div 8; tail = n mod 8 in
        do { m \<leftarrow> rep_movs 8 m str1 str2 words; rep_movs 1 m (str1 + 8 * words) (str2 + 8 * words) tail }
      else rep_movsb_down m (str1 + n) (str2 + n) n)"

fun memcmp :: "bytes \<Rightarrow> bytes \<Rightarrow> nat \<Rightarrow> int option" where
  "memcmp a b 0 = Some 0"
| "memcmp (x # xs) (y # ys) (Suc n) = (if x < y then Some (- 1) else if x > y then Some 1 else memcmp xs ys n)"
| "memcmp _ _ (Suc n) = None"

text \<open>\<open>Some None\<close> is the null pointer; a hit is the offset from \<^verbatim>\<open>str\<close>.\<close>

fun memchr_from :: "nat \<Rightarrow> bytes \<Rightarrow> uint8_t \<Rightarrow> nat \<Rightarrow> nat option option" where
  "memchr_from i bs v 0 = Some None"
| "memchr_from i [] v (Suc n) = None"
| "memchr_from i (b # bs) v (Suc n) = (if b = v then Some (Some i) else memchr_from (Suc i) bs v n)"

definition memchr :: "bytes \<Rightarrow> int32_t \<Rightarrow> nat \<Rightarrow> nat option option" where
  "memchr bs c n = memchr_from 0 bs (ucast c) n"

section \<open>Loads and stores\<close>

lemma load_eq: "p + w \<le> length m \<Longrightarrow> load m p w = Some (take w (drop p m))"
  by (simp add: load_def)

lemma store_eq: "p + length bs \<le> length m \<Longrightarrow> store m p bs = Some (take p m @ bs @ drop (p + length bs) m)"
  by (simp add: store_def)

text \<open>The memory after a block has been written at \<open>d\<close>.\<close>

definition patch :: "bytes \<Rightarrow> nat \<Rightarrow> bytes \<Rightarrow> bytes" where
  "patch m d bs = take d m @ bs @ drop (d + length bs) m"

lemma length_patch [simp]: "d + length bs \<le> length m \<Longrightarrow> length (patch m d bs) = length m"
  by (simp add: patch_def)

lemma nth_patch:
  "d + length bs \<le> length m \<Longrightarrow> j < length m \<Longrightarrow>
   patch m d bs ! j = (if d \<le> j \<and> j < d + length bs then bs ! (j - d) else m ! j)"
  by (auto simp: patch_def nth_append)

lemma patch_nil [simp]: "patch m d [] = m"
  by (simp add: patch_def)

lemma patch_patch: "d + length bs + length cs \<le> length m \<Longrightarrow> patch (patch m d bs) (d + length bs) cs = patch m d (bs @ cs)"
  by (simp add: patch_def ac_simps)

lemma take_drop_patch_after:
  "d + length bs \<le> length m \<Longrightarrow> d + length bs \<le> p \<Longrightarrow> take w (drop p (patch m d bs)) = take w (drop p m)"
  by (simp add: patch_def)

lemma take_drop_patch_before:
  "d + length bs \<le> length m \<Longrightarrow> p + w \<le> d \<Longrightarrow> take w (drop p (patch m d bs)) = take w (drop p m)"
  by (rule nth_equalityI) (auto simp: nth_patch)

text \<open>
  The ascending copy moves the original bytes whenever no unit is overwritten before it is read:
  when the target starts below the source, or behind its end.
\<close>

lemma rep_movs_spec:
  assumes "d < s \<or> s + k * w \<le> d" "d + k * w \<le> length m" "s + k * w \<le> length m"
  shows "rep_movs w m d s k = Some (patch m d (take (k * w) (drop s m)))"
  using assms
proof (induction k arbitrary: m d s)
  case (Suc k)
  let ?b = "take w (drop s m)"
  have lb: "length ?b = w" using Suc.prems by simp
  have st: "store m d ?b = Some (patch m d ?b)" using Suc.prems lb by (simp add: store_def patch_def)
  have "d + w < s + w \<or> (s + w) + k * w \<le> d + w" "d + w + k * w \<le> length (patch m d ?b)" "s + w + k * w \<le> length (patch m d ?b)"
    using Suc.prems lb by auto
  from Suc.IH [OF this] have ih: "rep_movs w (patch m d ?b) (d + w) (s + w) k
    = Some (patch (patch m d ?b) (d + w) (take (k * w) (drop (s + w) (patch m d ?b))))" .
  have "take (k * w) (drop (s + w) (patch m d ?b)) = take (k * w) (drop (s + w) m)"
  proof (cases "d < s")
    case True
    then show ?thesis using Suc.prems lb by (intro take_drop_patch_after) auto
  next
    case False
    then show ?thesis using Suc.prems lb by (intro take_drop_patch_before) auto
  qed
  moreover have "patch (patch m d ?b) (d + w) (take (k * w) (drop (s + w) m))
    = patch m d (?b @ take (k * w) (drop (s + w) m))"
    using patch_patch [of d ?b "take (k * w) (drop (s + w) m)" m] Suc.prems lb by simp
  moreover have "?b @ take (k * w) (drop (s + w) m) = take (w + k * w) (drop s m)"
    by (simp add: take_add add.commute)
  ultimately show ?case using ih st Suc.prems by (simp add: load_eq)
qed simp

lemma copy_up:
  assumes "d < s \<or> s + n \<le> d" "d + n \<le> length m" "s + n \<le> length m"
  shows "do { m \<leftarrow> rep_movs 8 m d s (n div 8); rep_movs 1 m (d + 8 * (n div 8)) (s + 8 * (n div 8)) (n mod 8) }
    = Some (patch m d (take n (drop s m)))"
proof -
  let ?w = "n div 8 * 8"
  have n: "?w + n mod 8 = n" by simp
  let ?a = "take ?w (drop s m)"
  have la: "length ?a = ?w" using assms(3) n by simp
  have 1: "rep_movs 8 m d s (n div 8) = Some (patch m d ?a)"
    by (rule rep_movs_spec) (use assms n in linarith)+
  have "rep_movs 1 (patch m d ?a) (d + ?w) (s + ?w) (n mod 8)
    = Some (patch (patch m d ?a) (d + ?w) (take (n mod 8 * 1) (drop (s + ?w) (patch m d ?a))))"
    by (rule rep_movs_spec) (use assms n la in auto)
  also have "take (n mod 8 * 1) (drop (s + ?w) (patch m d ?a)) = take (n mod 8) (drop (s + ?w) m)"
  proof (cases "d < s")
    case True
    then show ?thesis using assms la n by (simp, intro take_drop_patch_after) auto
  next
    case False
    then have "s + ?w + n mod 8 \<le> d" "d + length ?a \<le> length m" using assms la n by linarith+
    then show ?thesis by (simp add: take_drop_patch_before)
  qed
  also have "patch (patch m d ?a) (d + ?w) (take (n mod 8) (drop (s + ?w) m)) = patch m d (?a @ take (n mod 8) (drop (s + ?w) m))"
    using patch_patch [of d ?a "take (n mod 8) (drop (s + ?w) m)" m] assms la n by simp
  also have "?a @ take (n mod 8) (drop (s + ?w) m) = take n (drop s m)"
    using take_add [of ?w "n mod 8" "drop s m"] n by (simp add: add.commute)
  finally show ?thesis using 1 by (simp add: mult.commute)
qed

text \<open>The descending copy, when the target is above the source.\<close>

lemma patch_below:
  "length bs \<le> d \<Longrightarrow> d + length cs \<le> length m \<Longrightarrow> patch (patch m d cs) (d - length bs) bs = patch m (d - length bs) (bs @ cs)"
  by (rule nth_equalityI) (auto simp: nth_patch nth_append less_diff_conv)

lemma rep_movsb_down_spec:
  assumes "s < d" "k \<le> s" "d < length m"
  shows "rep_movsb_down m d s k = Some (patch m (d + 1 - k) (take k (drop (s + 1 - k) m)))"
  using assms
proof (induction k arbitrary: m d s)
  case (Suc k)
  have b: "load m s 1 = Some [m ! s]" using Suc.prems by (simp add: load_def take_Suc hd_drop_conv_nth)
  have st: "store m d [m ! s] = Some (patch m d [m ! s])" using Suc.prems by (simp add: store_def patch_def)
  from Suc.IH [of "s - 1" "d - 1" "patch m d [m ! s]"] Suc.prems
  have ih: "rep_movsb_down (patch m d [m ! s]) (d - 1) (s - 1) k
    = Some (patch (patch m d [m ! s]) (d - k) (take k (drop (s - k) (patch m d [m ! s]))))" by auto
  have lk: "length (take k (drop (s - k) m)) = k" using Suc.prems by simp
  have "take k (drop (s - k) (patch m d [m ! s])) = take k (drop (s - k) m)"
    using Suc.prems by (intro take_drop_patch_before) auto
  moreover have "patch (patch m d [m ! s]) (d - k) (take k (drop (s - k) m)) = patch m (d - k) (take k (drop (s - k) m) @ [m ! s])"
    using patch_below [of "take k (drop (s - k) m)" d "[m ! s]" m] Suc.prems unfolding lk by simp
  moreover have "take k (drop (s - k) m) @ [m ! s] = take (Suc k) (drop (s - k) m)"
    using Suc.prems by (subst take_Suc_conv_app_nth) auto
  ultimately show ?case using ih b st by simp
qed simp

text \<open>The replicated byte.\<close>

fun ones :: "nat \<Rightarrow> nat" where
  "ones 0 = 0"
| "ones (Suc j) = 1 + 256 * ones j"

lemma ones_digit: "x < 256 \<Longrightarrow> i < j \<Longrightarrow> x * ones j div 256 ^ i mod 256 = x"
proof (induction i arbitrary: j)
  case 0
  then obtain k where k: "j = Suc k" by (cases j) auto
  have "x * ones j = x + 256 * (x * ones k)" unfolding k by (simp add: algebra_simps)
  then show ?case using 0(1) by (simp del: ones.simps)
next
  case (Suc i)
  then obtain k where k: "j = Suc k" "i < k" by (cases j) auto
  have "x * ones j = x + 256 * (x * ones k)" unfolding k(1) by (simp add: algebra_simps)
  then have "x * ones j div 256 = x * ones k" using Suc.prems(1) by simp
  then show ?case using Suc.IH [OF Suc.prems(1) k(2)] by (simp add: div_mult2_eq)
qed

lemma ones_8: "ones 8 = 0x0101010101010101"
proof -
  have "ones 8 = ones (Suc (Suc (Suc (Suc (Suc (Suc (Suc (Suc 0))))))))" by (rule arg_cong [where f = ones]) simp
  then show ?thesis by simp
qed

lemma word_bytes_repeat: "word_bytes (ucast (b::uint8_t) * 0x0101010101010101) = replicate 8 b"
proof -
  have lt: "unat b < 256" using unsigned_less [of b, where ?'a = nat] by simp
  have v: "unat (ucast b * 0x0101010101010101 :: uint64_t) = unat b * 0x0101010101010101"
  proof -
    have "take_bit 64 (unat b) = unat b" using lt by (simp add: take_bit_nat_eq_self_iff)
    then show ?thesis using lt by (subst unat_word_ariths) (simp add: unsigned_ucast_eq)
  qed
  have d: "unat b * 0x0101010101010101 div 256 ^ i mod 256 = unat b" if "i < 8" for i
    using ones_digit [OF lt that] by (simp only: ones_8)
  have "(ucast (drop_bit (8 * i) (ucast b * 0x0101010101010101 :: uint64_t)) :: uint8_t) = b" if "i < 8" for i
  proof (rule unsigned_word_eqI [where ?'a = nat])
    have "unat (ucast (drop_bit (8 * i) (ucast b * 0x0101010101010101 :: uint64_t)) :: uint8_t)
      = unat (ucast b * 0x0101010101010101 :: uint64_t) div 2 ^ (8 * i) mod 256"
      using unsigned_less [of "ucast b * 0x0101010101010101 :: uint64_t", where ?'a = nat]
      by (simp only: unsigned_ucast_eq unsigned_drop_bit_eq) (simp add: drop_bit_eq_div take_bit_eq_mod)
    then show "unat (ucast (drop_bit (8 * i) (ucast b * 0x0101010101010101 :: uint64_t)) :: uint8_t) = unat b"
      using d [OF that] by (simp add: v power_mult)
  qed
  then show ?thesis unfolding word_bytes_def by (intro nth_equalityI) auto
qed

lemma rep_stos_spec:
  "d + k * length bs \<le> length m \<Longrightarrow> rep_stos bs m d k = Some (patch m d (concat (replicate k bs)))"
proof (induction k arbitrary: m d)
  case (Suc k)
  then have "store m d bs = Some (patch m d bs)" by (simp add: store_def patch_def)
  moreover have "length (concat (replicate k bs)) = k * length bs" by (simp add: length_concat sum_list_replicate)
  ultimately show ?case using Suc.IH [of "d + length bs" "patch m d bs"] Suc.prems patch_patch [of d bs "concat (replicate k bs)" m]
    by simp
qed simp

section \<open>Correctness\<close>

lemma concat_replicate_bytes: "concat (replicate k (replicate j b)) = replicate (k * j) b"
  by (induction k) (simp_all add: replicate_add)

text \<open>
  C27: copying and filling. \<^verbatim>\<open>memcpy\<close> of disjoint blocks, and \<^verbatim>\<open>memmove\<close> whenever the
  target starts below the source or behind its end, leave the original source bytes at the target
  and every other byte as it was, although they move eight bytes at a time; \<^verbatim>\<open>memset\<close> fills
  exactly its block with the low byte of its argument.
\<close>

theorem block_copy_correct:
  assumes "d + n \<le> length m" "s + n \<le> length m"
  shows "(d + n \<le> s \<or> s + n \<le> d \<or> d = s \<longrightarrow> memcpy m d s n = Some (patch m d (take n (drop s m))))
    \<and> (d \<le> s \<or> s + n \<le> d \<longrightarrow> memmove m d s n = Some (patch m d (take n (drop s m))))
    \<and> memset m d c n = Some (patch m d (replicate n (ucast c)))"
proof -
  have same: "patch m s (take n (drop s m)) = m" using assms(2) by (auto simp: nth_patch intro!: nth_equalityI)
  have up: "do { m \<leftarrow> rep_movs 8 m d s (n div 8); rep_movs 1 m (d + 8 * (n div 8)) (s + 8 * (n div 8)) (n mod 8) }
    = Some (patch m d (take n (drop s m)))" if "d < s \<or> s + n \<le> d" using copy_up [OF that assms] .
  have "memcpy m d s n = Some (patch m d (take n (drop s m)))" if "d + n \<le> s \<or> s + n \<le> d \<or> d = s"
    using that up same by (cases "d = s \<or> n = 0") (auto simp: memcpy_def Let_def)
  moreover have "memmove m d s n = Some (patch m d (take n (drop s m)))" if "d \<le> s \<or> s + n \<le> d"
    using that up same by (cases "d = s \<or> n = 0") (auto simp: memmove_def Let_def)
  moreover have "memset m d c n = Some (patch m d (replicate n (ucast c)))"
  proof -
    have n: "n div 8 * 8 + n mod 8 = n" by simp
    let ?b = "ucast c :: uint8_t"
    have 1: "rep_stos (replicate 8 ?b) m d (n div 8) = Some (patch m d (replicate (n div 8 * 8) ?b))"
      using rep_stos_spec [of d "n div 8" "replicate 8 ?b" m] assms(1) n by (simp add: concat_replicate_bytes)
    have "rep_stos [?b] (patch m d (replicate (n div 8 * 8) ?b)) (d + n div 8 * 8) (n mod 8)
      = Some (patch (patch m d (replicate (n div 8 * 8) ?b)) (d + n div 8 * 8) (replicate (n mod 8) ?b))"
      using rep_stos_spec [of "d + n div 8 * 8" "n mod 8" "[?b]" "patch m d (replicate (n div 8 * 8) ?b)"] assms(1) n
      by (simp add: concat_replicate_bytes [of _ 1, simplified])
    also have "\<dots> = Some (patch m d (replicate n ?b))"
      using patch_patch [of d "replicate (n div 8 * 8) ?b" "replicate (n mod 8) ?b" m] assms(1) n
      by (simp add: replicate_add [symmetric])
    finally show ?thesis using 1 by (simp add: memset_def Let_def word_bytes_repeat mult.commute)
  qed
  ultimately show ?thesis by blast
qed

theorem block_copy_correct_witness:
  "memcpy [1, 2, 3, 4] 0 2 2 = Some [3, 4, 3, 4] \<and> memmove [1, 2, 3, 4] 0 1 3 = Some [2, 3, 4, 4]
   \<and> memset [1, 2, 3, 4] 1 9 2 = Some [1, 9, 9, 4]"
proof -
  let ?m = "[1, 2, 3, 4] :: bytes"
  have "memcpy ?m 0 2 2 = Some (patch ?m 0 (take 2 (drop 2 ?m)))" using block_copy_correct [of 0 2 ?m 2] by simp
  moreover have "memmove ?m 0 1 3 = Some (patch ?m 0 (take 3 (drop 1 ?m)))" using block_copy_correct [of 0 3 ?m 1] by simp
  moreover have "memset ?m 1 9 2 = Some (patch ?m 1 (replicate 2 (ucast (9 :: int32_t))))" using block_copy_correct [of 1 2 ?m 1] by simp
  moreover have "patch ?m 0 (take 2 (drop 2 ?m)) = [3, 4, 3, 4]" "patch ?m 0 (take 3 (drop 1 ?m)) = [2, 3, 4, 4]"
    "patch ?m 1 (replicate 2 (ucast (9 :: int32_t))) = [1, 9, 9, 4]" by code_simp+
  ultimately show ?thesis by (simp only:)
qed

text \<open>
  C28: the backward branch of \<^verbatim>\<open>memmove\<close> is shifted by one. When the target starts inside
  the source block, the copy runs over the offsets \<open>1..n\<close> instead of \<open>0..n-1\<close>: the
  first byte of the target is not written and the byte behind the target is.
\<close>

theorem memmove_backward_shifted:
  assumes "s < d" "d < s + n" "d + n < length m"
  shows "memmove m d s n = Some (patch m (d + 1) (take n (drop (s + 1) m)))"
  using rep_movsb_down_spec [of "s + n" "d + n" n m] assms by (simp add: memmove_def)

theorem memmove_backward_shifted_witness:
  "memmove [1, 2, 3, 4, 5, 6] 1 0 3 = Some [1, 2, 2, 3, 4, 6]"
proof -
  let ?m = "[1, 2, 3, 4, 5, 6] :: bytes"
  have "memmove ?m 1 0 3 = Some (patch ?m (1 + 1) (take 3 (drop (0 + 1) ?m)))" using memmove_backward_shifted [of 0 1 3 ?m] by simp
  moreover have "patch ?m (1 + 1) (take 3 (drop (0 + 1) ?m)) = [1, 2, 2, 3, 4, 6]" by code_simp
  ultimately show ?thesis by (simp only:)
qed

end
