(* ===== verification/Cstring.thy ===== *)
theory Cstring
  imports Membytes
begin

text \<open>
  The string functions of \<^verbatim>\<open>src/libs/std/string.c\<close>. A read-only pointer is the list of bytes
  from it to the end of its buffer, and reading past the end is \<open>None\<close>; a written buffer is
  returned changed. A result pointer is an offset, with \<open>Some None\<close> for the null pointer.
  A byte is promoted to \<^verbatim>\<open>int\<close> as a signed \<^verbatim>\<open>char\<close>, except where the code casts to
  \<^verbatim>\<open>uint8_t\<close>.
\<close>

section \<open>Length, copying and comparison\<close>

fun strlen :: "bytes \<Rightarrow> nat option" where
  "strlen [] = None"
| "strlen (c # cs) = (if c = 0 then Some 0 else map_option Suc (strlen cs))"

fun strcpy :: "bytes \<Rightarrow> bytes \<Rightarrow> bytes option" where
  "strcpy (d # ds) (c # cs) = (if c = 0 then Some (0 # ds) else map_option ((#) c) (strcpy ds cs))"
| "strcpy _ _ = None"

fun zero_fill :: "bytes \<Rightarrow> nat \<Rightarrow> bytes option" where
  "zero_fill ds 0 = Some ds"
| "zero_fill [] (Suc n) = None"
| "zero_fill (d # ds) (Suc n) = map_option ((#) 0) (zero_fill ds n)"

fun strncpy :: "bytes \<Rightarrow> bytes \<Rightarrow> nat \<Rightarrow> bytes option" where
  "strncpy ds cs 0 = Some ds"
| "strncpy ds [] (Suc n) = None"
| "strncpy ds (c # cs) (Suc n) =
     (if c = 0 then zero_fill ds (Suc n)
      else case ds of [] \<Rightarrow> None | d # ds \<Rightarrow> map_option ((#) c) (strncpy ds cs n))"

fun strcmp :: "bytes \<Rightarrow> bytes \<Rightarrow> int option" where
  "strcmp (x # xs) (y # ys) =
     (if x = 0 then Some (uint x - uint y) else if x = y then strcmp xs ys else Some (uint x - uint y))"
| "strcmp _ _ = None"

fun strncmp :: "bytes \<Rightarrow> bytes \<Rightarrow> nat \<Rightarrow> int option" where
  "strncmp xs ys 0 = Some 0"
| "strncmp (x # xs) (y # ys) (Suc n) =
     (if x = 0 then Some (uint x - uint y) else if x \<noteq> y then Some (uint x - uint y) else strncmp xs ys n)"
| "strncmp _ _ (Suc n) = None"

fun strcat :: "bytes \<Rightarrow> bytes \<Rightarrow> bytes option" where
  "strcat [] src = None"
| "strcat (d # ds) src = (if d \<noteq> 0 then map_option ((#) d) (strcat ds src) else strcpy (d # ds) src)"

section \<open>Searching\<close>

fun strchr_from :: "nat \<Rightarrow> bytes \<Rightarrow> int \<Rightarrow> nat option option" where
  "strchr_from i [] c = None"
| "strchr_from i (x # xs) c = (if x = 0 then Some None else if sint x = c then Some (Some i) else strchr_from (Suc i) xs c)"

definition strchr :: "bytes \<Rightarrow> int \<Rightarrow> nat option option" where
  "strchr str c = strchr_from 0 str c"

fun strrchr_from :: "nat \<Rightarrow> nat option \<Rightarrow> bytes \<Rightarrow> int \<Rightarrow> nat option option" where
  "strrchr_from i finded [] c = None"
| "strrchr_from i finded (x # xs) c =
     (if x = 0 then Some finded else strrchr_from (Suc i) (if sint x = c then Some i else finded) xs c)"

definition strrchr :: "bytes \<Rightarrow> int \<Rightarrow> nat option option" where
  "strrchr str c = strrchr_from 0 None str c"

fun strstr_loop :: "nat \<Rightarrow> bytes \<Rightarrow> bytes \<Rightarrow> nat \<Rightarrow> nat \<Rightarrow> nat option option" where
  "strstr_loop i s t tn 0 = Some None"
| "strstr_loop i s t tn (Suc k) = do {
     r \<leftarrow> strncmp s t tn;
     if r = 0 then Some (Some i) else strstr_loop (Suc i) (tl s) t tn k
   }"

definition strstr :: "bytes \<Rightarrow> bytes \<Rightarrow> nat option option" where
  "strstr haystack needle = do {
     sn \<leftarrow> strlen haystack;
     tn \<leftarrow> strlen needle;
     if tn = 0 then Some (Some 0) else if sn < tn then Some None
     else strstr_loop 0 haystack needle tn (Suc (sn - tn))
   }"

section \<open>Copies and equality\<close>

text \<open>\<^verbatim>\<open>malloc\<close> gives a block of the requested size with arbitrary contents, or null.\<close>

definition strdup :: "(nat \<Rightarrow> bytes option) \<Rightarrow> bytes \<Rightarrow> bytes option option" where
  "strdup malloc s = do {
     n \<leftarrow> strlen s;
     (case malloc (n + 1) of
        None \<Rightarrow> Some None
      | Some p \<Rightarrow> do {
          m \<leftarrow> memcpy (p @ s) 0 (length p) (n + 1);
          Some (Some (take (length p) m))
        })
   }"

definition streq :: "bytes \<Rightarrow> bytes \<Rightarrow> bool option" where
  "streq s1 s2 = map_option (\<lambda>r. r = 0) (strcmp s1 s2)"

fun trim_count :: "bytes \<Rightarrow> nat \<Rightarrow> nat option" where
  "trim_count buf 0 = Some 0"
| "trim_count buf (Suc n) =
     (if n < length buf then
        (if buf ! n = 10 \<or> buf ! n = 13 \<or> buf ! n = 32 \<or> buf ! n = 9 then trim_count buf n else Some (Suc n))
      else None)"

definition streq_trimmed :: "bytes option \<Rightarrow> nat \<Rightarrow> bytes option \<Rightarrow> bool option" where
  "streq_trimmed buf n token =
     (case (buf, token) of
        (Some buf, Some token) \<Rightarrow> do {
          n \<leftarrow> trim_count buf n;
          token_len \<leftarrow> strlen token;
          if n = token_len then map_option (\<lambda>r. r = 0) (memcmp buf token token_len) else Some False
        }
      | _ \<Rightarrow> Some False)"

section \<open>Tokens\<close>

text \<open>
  \<^verbatim>\<open>strtok\<close> keeps the position behind the last token in a static variable. The state is the
  buffer and this position; the result is the offset of the token.
\<close>

fun span_delims :: "bytes \<Rightarrow> bytes \<Rightarrow> nat option" where
  "span_delims delim [] = None"
| "span_delims delim (c # cs) =
     (if c = 0 then Some 0
      else do { r \<leftarrow> strchr delim (sint c); if r \<noteq> None then map_option Suc (span_delims delim cs) else Some 0 })"

fun span_token :: "bytes \<Rightarrow> bytes \<Rightarrow> nat option" where
  "span_token delim [] = None"
| "span_token delim (c # cs) =
     (if c = 0 then Some 0
      else do { r \<leftarrow> strchr delim (sint c); if r = None then map_option Suc (span_token delim cs) else Some 0 })"

definition strtok :: "bytes \<Rightarrow> nat option \<Rightarrow> nat option \<Rightarrow> bytes \<Rightarrow> (nat option \<times> bytes \<times> nat option) option" where
  "strtok buf last_pos str delim =
     (let last_pos = (if str \<noteq> None then str else last_pos) in
      case last_pos of
        None \<Rightarrow> Some (None, buf, None)
      | Some p \<Rightarrow> do {
          k \<leftarrow> span_delims delim (drop p buf);
          let start = p + k;
          if buf ! start = 0 then Some (None, buf, None)
          else do {
            n \<leftarrow> span_token delim (drop start buf);
            let fin = start + n;
            if buf ! fin \<noteq> 0 then Some (Some start, buf[fin := 0], Some (fin + 1))
            else Some (Some start, buf, None)
          }
        })"

section \<open>Numbers\<close>

definition IS_SPACE :: "uint8_t \<Rightarrow> bool" where
  "IS_SPACE c \<longleftrightarrow> c = 32 \<or> c = 9 \<or> c = 10 \<or> c = 13 \<or> c = 12 \<or> c = 11"

text \<open>A cursor is the character just read, the offset behind it and the bytes that follow.\<close>

fun getc :: "nat \<Rightarrow> bytes \<Rightarrow> (uint8_t \<times> nat \<times> bytes) option" where
  "getc i [] = None"
| "getc i (c # cs) = Some (c, Suc i, cs)"

fun skip_spaces :: "nat \<Rightarrow> bytes \<Rightarrow> (uint8_t \<times> nat \<times> bytes) option" where
  "skip_spaces i [] = None"
| "skip_spaces i (c # cs) = (if IS_SPACE c then skip_spaces (Suc i) cs else Some (c, Suc i, cs))"

definition is_hex :: "uint8_t \<Rightarrow> bool" where
  "is_hex c \<longleftrightarrow> 48 \<le> c \<and> c \<le> 57 \<or> 65 \<le> c \<and> c \<le> 70 \<or> 97 \<le> c \<and> c \<le> 102"

definition hex_prefix :: "uint8_t \<Rightarrow> bytes \<Rightarrow> bool option" where
  "hex_prefix c rest =
     (if c \<noteq> 48 then Some False
      else case rest of
          [] \<Rightarrow> None
        | x # rest \<Rightarrow> if \<not> (x = 120 \<or> x = 88) then Some False
                    else (case rest of [] \<Rightarrow> None | h # _ \<Rightarrow> Some (is_hex h)))"

definition digit_value :: "uint8_t \<Rightarrow> uint8_t option" where
  "digit_value c =
     (if 48 \<le> c \<and> c \<le> 57 then Some (c - 48)
      else if 65 \<le> c \<and> c \<le> 90 then Some (c - 55)
      else if 97 \<le> c \<and> c \<le> 122 then Some (c - 87) else None)"

fun strtol_loop ::
  "int \<Rightarrow> uint64_t \<Rightarrow> uint64_t \<Rightarrow> uint8_t \<Rightarrow> nat \<Rightarrow> bytes \<Rightarrow> uint64_t \<Rightarrow> int \<Rightarrow> (uint64_t \<times> int \<times> nat) option"
where
  "strtol_loop base cutoff cutlim c i rest acc any =
     (case digit_value c of
        None \<Rightarrow> Some (acc, any, i)
      | Some v \<Rightarrow>
          if uint v \<ge> base then Some (acc, any, i)
          else
            let over = (acc > cutoff \<or> acc = cutoff \<and> ucast v > cutlim);
                any = (if over then - 1 else 1);
                acc = (if over then acc else acc * of_int base + ucast v)
            in (case rest of [] \<Rightarrow> None | d # rest \<Rightarrow> strtol_loop base cutoff cutlim d (Suc i) rest acc any))"

definition strtol :: "bytes \<Rightarrow> int \<Rightarrow> (int64_t \<times> nat) option" where
  "strtol str base = do {
     (c, i, s) \<leftarrow> skip_spaces 0 str;
     let neg = (c = 45);
     (c, i, s) \<leftarrow> (if c = 45 \<or> c = 43 then getc i s else Some (c, i, s));
     hex \<leftarrow> (if base = 0 \<or> base = 16 then hex_prefix c s else Some False);
     let (c, i, s, base) = (if hex then (s ! 1, i + 2, drop 2 s, 16) else (c, i, s, base));
     let base = (if base = 0 then (if c = 48 then 8 else 10) else base);
     (if base < 2 \<or> base > 36 then Some (0, 0)
      else do {
        let cutoff = ((if neg then 0x8000000000000000 else 0x7fffffffffffffff) :: uint64_t);
        (acc, any, i) \<leftarrow> strtol_loop base (cutoff div of_int base) (cutoff mod of_int base) c i s 0 0;
        Some (if any \<noteq> 0 \<and> neg then - acc else acc, if any \<noteq> 0 then i - 1 else 0)
      })
   }"

end
