(* ===== verification/Cstring_Correct.thy ===== *)
theory Cstring_Correct
  imports Cstring
begin

text \<open>
  Properties of the string functions of \<^verbatim>\<open>src/libs/std/string.c\<close>: what tokens \<^verbatim>\<open>strtok\<close>
  returns, that \<^verbatim>\<open>strcmp\<close> is the lexicographic order and that \<^verbatim>\<open>strstr\<close> finds the
  first occurrence.
\<close>

section \<open>C strings\<close>

text \<open>A C string in a buffer is a list without zero bytes, followed by a zero byte.\<close>

lemma strlen_cstr [simp]: "0 \<notin> set s \<Longrightarrow> strlen (s @ 0 # r) = Some (length s)"
  by (induction s) auto

lemma strdup_cstr:
  assumes "0 \<notin> set p" "malloc (length p + 1) = Some b" "length b = length p + 1"
  shows "strdup malloc (p @ 0 # q) = Some (Some (p @ [0]))"
proof -
  have "memcpy (b @ p @ 0 # q) 0 (length b) (length p + 1) = Some (patch (b @ p @ 0 # q) 0 (take (length p + 1) (drop (length b) (b @ p @ 0 # q))))"
    using copy_up [of 0 "length b" "length p + 1" "b @ p @ 0 # q"] assms(3) by (simp add: memcpy_def Let_def)
  then show ?thesis using assms by (simp add: strdup_def patch_def)
qed

lemma strchr_from_cstr:
  "0 \<notin> set s \<Longrightarrow> strchr_from i (s @ 0 # r) (sint c) =
     Some (if c \<in> set s then Some (i + length (takeWhile ((\<noteq>) c) s)) else None)"
proof (induction s arbitrary: i)
  case (Cons x s)
  have "sint x = sint c \<longleftrightarrow> x = c" using signed_word_eqI by blast
  with Cons show ?case by auto
qed simp

lemma strchr_cstr:
  "0 \<notin> set s \<Longrightarrow> strchr (s @ 0 # r) (sint c) = Some (if c \<in> set s then Some (length (takeWhile ((\<noteq>) c) s)) else None)"
  by (simp add: strchr_def strchr_from_cstr)

lemma span_cstr:
  assumes "0 \<notin> set s" "0 \<notin> set ds"
  shows "span_delims (ds @ 0 # q) (s @ 0 # r) = Some (length (takeWhile (\<lambda>c. c \<in> set ds) s))"
    "span_token (ds @ 0 # q) (s @ 0 # r) = Some (length (takeWhile (\<lambda>c. c \<notin> set ds) s))"
  using assms by (induction s) (auto simp: strchr_cstr)

section \<open>Tokens\<close>

text \<open>What the tokens of a string are: the maximal runs of bytes that are not delimiters.\<close>

function tokens :: "bytes \<Rightarrow> bytes \<Rightarrow> bytes list" where
  "tokens ds s =
     (let s = dropWhile (\<lambda>c. c \<in> set ds) s in
      if s = [] then [] else takeWhile (\<lambda>c. c \<notin> set ds) s # tokens ds (dropWhile (\<lambda>c. c \<notin> set ds) s))"
  by pat_completeness auto
termination
proof (relation "measure (\<lambda>(ds, s). length s)", goal_cases)
  case (2 ds s x)
  obtain c cs where x: "x = c # cs" using 2(2) by (metis list.exhaust)
  have "c \<notin> set ds" using 2 x hd_dropWhile [of "\<lambda>c. c \<in> set ds" s] by (metis list.sel(1))
  then have "length (dropWhile (\<lambda>c. c \<notin> set ds) x) < length x"
    using x length_dropWhile_le [of "\<lambda>c. c \<notin> set ds" cs] by simp
  moreover have "length x \<le> length s" using 2(1) by (simp add: length_dropWhile_le)
  ultimately show ?case by simp
qed simp

declare tokens.simps [simp del]

definition cstr_at :: "bytes \<Rightarrow> nat \<Rightarrow> bytes" where
  "cstr_at buf p = takeWhile (\<lambda>c. c \<noteq> 0) (drop p buf)"

text \<open>A caller that asks for tokens until there are none, reading each one when it gets it.\<close>

fun strtok_all :: "nat \<Rightarrow> bytes \<Rightarrow> nat option \<Rightarrow> nat option \<Rightarrow> bytes \<Rightarrow> bytes list option" where
  "strtok_all 0 buf last_pos str delim = None"
| "strtok_all (Suc n) buf last_pos str delim = do {
     (r, buf, last_pos) \<leftarrow> strtok buf last_pos str delim;
     (case r of
        None \<Rightarrow> Some []
      | Some p \<Rightarrow> map_option ((#) (cstr_at buf p)) (strtok_all n buf last_pos None delim))
   }"

lemma takeWhile_zero: "0 \<notin> set (t :: bytes) \<Longrightarrow> takeWhile (\<lambda>c. c \<noteq> 0) (t @ 0 # r) = t"
  by (induction t) auto

lemma strtok_step:
  fixes pre s r ds q :: bytes
  assumes z: "0 \<notin> set s" "0 \<notin> set ds" and str: "(if str \<noteq> None then str else lp) = Some (length pre)"
  defines "u \<equiv> takeWhile (\<lambda>c. c \<in> set ds) s" and "v \<equiv> dropWhile (\<lambda>c. c \<in> set ds) s"
  defines "t \<equiv> takeWhile (\<lambda>c. c \<notin> set ds) v" and "w \<equiv> dropWhile (\<lambda>c. c \<notin> set ds) v"
  shows "strtok (pre @ s @ 0 # r) lp str (ds @ 0 # q) =
    (if v = [] then Some (None, pre @ s @ 0 # r, None)
     else if w = [] then Some (Some (length (pre @ u)), pre @ u @ t @ 0 # r, None)
     else Some (Some (length (pre @ u)), pre @ u @ t @ 0 # tl w @ 0 # r, Some (length (pre @ u @ t @ [0]))))"
proof -
  have s: "s = u @ v" "v = t @ w" by (simp_all add: u_def v_def t_def w_def)
  have zv: "0 \<notin> set v" "0 \<notin> set w" "0 \<notin> set t" using z(1) s by auto
  have k: "span_delims (ds @ 0 # q) (drop (length pre) (pre @ s @ 0 # r)) = Some (length u)"
    using span_cstr(1) [OF z] by (simp add: u_def)
  have start: "(pre @ s @ 0 # r) ! (length pre + length u) = (if v = [] then 0 else hd v)"
    unfolding s(1) by (cases v) (auto simp: nth_append)
  have n: "span_token (ds @ 0 # q) (drop (length pre + length u) (pre @ s @ 0 # r)) = Some (length t)"
    using span_cstr(2) [OF zv(1) z(2)] unfolding s(1) by (simp add: t_def)
  have fin: "(pre @ s @ 0 # r) ! (length pre + length u + length t) = (if w = [] then 0 else hd w)"
    unfolding s by (cases w) (auto simp: nth_append)
  have upd: "(pre @ s @ 0 # r)[length pre + length u + length t := 0] = pre @ u @ t @ 0 # tl w @ 0 # r" if "w \<noteq> []"
    unfolding s using that by (cases w) (auto simp: list_update_append)
  have nz: "v \<noteq> [] \<Longrightarrow> hd v \<noteq> 0" "w \<noteq> [] \<Longrightarrow> hd w \<noteq> 0" using zv by (metis hd_in_set)+
  show ?thesis
  proof (cases "v = []")
    case True
    then show ?thesis using str k start by (simp add: strtok_def Let_def)
  next
    case False
    then show ?thesis using str k start n fin upd nz s by (auto simp: strtok_def Let_def)
  qed
qed

lemma strtok_all_none: "strtok_all (Suc n) buf None None delim = Some []"
  by (simp add: strtok_def)

lemma strtok_all_tokens:
  fixes pre s r ds q :: bytes
  assumes "0 \<notin> set s" "0 \<notin> set ds" "(if str \<noteq> None then str else lp) = Some (length pre)" "Suc (length s) < n"
  shows "strtok_all n (pre @ s @ 0 # r) lp str (ds @ 0 # q) = Some (tokens ds s)"
  using assms
proof (induction n arbitrary: pre s lp str)
  case (Suc n)
  define u v where "u = takeWhile (\<lambda>c. c \<in> set ds) s" and "v = dropWhile (\<lambda>c. c \<in> set ds) s"
  define t w where "t = takeWhile (\<lambda>c. c \<notin> set ds) v" and "w = dropWhile (\<lambda>c. c \<notin> set ds) v"
  note step = strtok_step [OF Suc.prems(1-3), of r q, folded u_def v_def, folded t_def w_def]
  have s: "s = u @ v" "v = t @ w" by (simp_all add: u_def v_def t_def w_def)
  have z: "0 \<notin> set t" "0 \<notin> set w" using Suc.prems(1) s by auto
  have tok: "tokens ds s = (if v = [] then [] else t # tokens ds w)"
    by (subst tokens.simps) (simp add: v_def [symmetric] t_def [symmetric] w_def [symmetric] Let_def)
  have nil: "tokens ds [] = []" by (subst tokens.simps) simp
  show ?case
  proof (cases "v = []")
    case True
    then show ?thesis using step tok by simp
  next
    case v: False
    have tne: "t \<noteq> []" using v hd_dropWhile [of "\<lambda>c. c \<in> set ds" s] by (cases v) (auto simp: t_def v_def)
    obtain m where m: "n = Suc m" using Suc.prems(4) by (cases n) auto
    show ?thesis
    proof (cases "w = []")
      case True
      have "cstr_at (pre @ u @ t @ 0 # r) (length (pre @ u)) = t" using takeWhile_zero [OF z(1)] by (simp add: cstr_at_def)
      then show ?thesis using step tok True v nil strtok_all_none [of m] by (simp add: m del: strtok_all.simps(2)) (simp add: m strtok_def)
    next
      case False
      then obtain c cs where w: "w = c # cs" by (cases w) auto
      have "c \<in> set ds" using hd_dropWhile [of "\<lambda>c. c \<notin> set ds" v] w by (metis list.distinct(1) list.sel(1) w_def)
      then have tw: "tokens ds w = tokens ds cs" unfolding w by (subst (1 2) tokens.simps) simp
      have buf: "pre @ u @ t @ 0 # tl w @ 0 # r = (pre @ u @ t @ [0]) @ cs @ 0 # r" by (simp add: w)
      have "cstr_at (pre @ u @ t @ 0 # tl w @ 0 # r) (length (pre @ u)) = t"
        using takeWhile_zero [OF z(1), of "tl w @ 0 # r"] by (simp add: cstr_at_def)
      moreover have "strtok_all n ((pre @ u @ t @ [0]) @ cs @ 0 # r) (Some (length (pre @ u @ t @ [0]))) None (ds @ 0 # q) = Some (tokens ds cs)"
        by (rule Suc.IH) (use Suc.prems s w z in auto)
      ultimately show ?thesis using step tok False v tw unfolding buf by simp
    qed
  qed
qed simp

section \<open>Comparison and search\<close>

lemma strcmp_cstr:
  "0 \<notin> set a \<Longrightarrow> 0 \<notin> set b \<Longrightarrow>
   \<exists>d. strcmp (a @ 0 # x) (b @ 0 # y) = Some d \<and> (d = 0 \<longleftrightarrow> a = b) \<and> (d < 0 \<longleftrightarrow> ord_class.lexordp a b)"
proof (induction a arbitrary: b)
  case Nil
  have "uint c \<noteq> 0 \<and> 0 \<le> uint c" if "c \<noteq> 0" for c :: uint8_t using that by (simp add: uint_0_iff)
  then show ?case using Nil by (cases b) (auto simp: order_less_le)
next
  case (Cons c a)
  have lt: "uint x < uint y \<longleftrightarrow> x < y" "uint x = uint y \<longleftrightarrow> x = y" for x y :: uint8_t
    by (simp_all add: word_less_def word_uint_eq_iff)
  show ?case
  proof (cases b)
    case Nil
    have "0 < uint c" using Cons.prems(1) by (simp add: word_neq_0_conv [symmetric] uint_0_iff order_less_le)
    then show ?thesis using Cons.prems Nil by auto
  next
    case (Cons d b')
    with Cons.IH [of b'] Cons.prems show ?thesis
      by (cases "c = d") (auto simp: lt)
  qed
qed

lemma strncmp_cstr:
  "0 \<notin> set t \<Longrightarrow> 0 \<notin> set s \<Longrightarrow> \<exists>d. strncmp (s @ 0 # r) (t @ q) (length t) = Some d \<and> (d = 0 \<longleftrightarrow> take (length t) s = t)"
proof (induction t arbitrary: s)
  case (Cons c t)
  have ne: "uint x - uint y = 0 \<longleftrightarrow> x = y" for x y :: uint8_t by (simp add: word_uint_eq_iff)
  show ?case
  proof (cases s)
    case Nil
    have "uint c \<noteq> 0" using Cons.prems(1) by (simp add: uint_0_iff)
    then show ?thesis using Nil by simp
  next
    case s: (Cons x s')
    with Cons.IH [of s'] Cons.prems ne show ?thesis by (cases "x = c") auto
  qed
qed simp

text \<open>The first offset at which a list occurs in another.\<close>

definition occurs_at :: "bytes \<Rightarrow> bytes \<Rightarrow> nat \<Rightarrow> bool" where
  "occurs_at t s i \<longleftrightarrow> i + length t \<le> length s \<and> take (length t) (drop i s) = t"

lemma strstr_loop_spec:
  assumes "0 \<notin> set t" "t \<noteq> []"
  shows "0 \<notin> set s \<Longrightarrow> k \<le> Suc (length s) \<Longrightarrow>
    \<exists>o'. strstr_loop i (s @ 0 # r) (t @ q) (length t) k = Some o' \<and>
      (case o' of None \<Rightarrow> \<forall>j < k. take (length t) (drop j s) \<noteq> t
       | Some p \<Rightarrow> i \<le> p \<and> p < i + k \<and> take (length t) (drop (p - i) s) = t \<and> (\<forall>j < p - i. take (length t) (drop j s) \<noteq> t))"
proof (induction k arbitrary: i s)
  case (Suc k)
  from strncmp_cstr [OF assms(1) Suc.prems(1), of r q] obtain d where
    d: "strncmp (s @ 0 # r) (t @ q) (length t) = Some d" "d = 0 \<longleftrightarrow> take (length t) s = t" by blast
  show ?case
  proof (cases "d = 0")
    case True
    then show ?thesis using d by simp
  next
    case False
    show ?thesis
    proof (cases s)
      case Nil
      then have "k = 0" using Suc.prems by simp
      then show ?thesis using d False Nil assms(2) by simp
    next
      case (Cons x s')
      from Suc.IH [of s' "Suc i"] Suc.prems Cons obtain p where
        p: "strstr_loop (Suc i) (s' @ 0 # r) (t @ q) (length t) k = Some p"
          "case p of None \<Rightarrow> \<forall>j < k. take (length t) (drop j s') \<noteq> t
           | Some p \<Rightarrow> Suc i \<le> p \<and> p < Suc i + k \<and> take (length t) (drop (p - Suc i) s') = t
               \<and> (\<forall>j < p - Suc i. take (length t) (drop j s') \<noteq> t)" by auto
      have head: "take (length t) (drop 0 s) \<noteq> t" using d(2) False by simp
      have all: "(\<forall>j < Suc n. take (length t) (drop j s) \<noteq> t) \<longleftrightarrow> (\<forall>j < n. take (length t) (drop j s') \<noteq> t)" for n
        using head Cons by (auto simp: less_Suc_eq_0_disj)
      show ?thesis
      proof (cases p)
        case None
        then show ?thesis using p d(1) False Cons all [of k] by simp
      next
        case (Some n)
        then have "Suc i \<le> n" using p(2) by simp
        then have n: "n - i = Suc (n - Suc i)" by simp
        show ?thesis using p d(1) False Cons Some all [of "n - Suc i"] by (simp add: n)
      qed
    qed
  qed
qed simp

lemma occurs_bound: "take (length t) (drop i s) = t \<Longrightarrow> t \<noteq> [] \<Longrightarrow> occurs_at t s i"
proof -
  assume a: "take (length t) (drop i s) = t" "t \<noteq> []"
  then have "length (take (length t) (drop i s)) = length t" by simp
  then have "length t \<le> length s - i" by simp
  moreover have "0 < length t" using a(2) by simp
  ultimately show ?thesis using a(1) unfolding occurs_at_def by linarith
qed

section \<open>Correctness\<close>

text \<open>
  C29: tokenising. Repeated calls of \<^verbatim>\<open>strtok\<close> on a C string return exactly its maximal runs of
  bytes that are not delimiters, in order, and then null; no call reads outside the string.
\<close>

theorem strtok_returns_tokens:
  assumes "0 \<notin> set s" "0 \<notin> set ds" "length s + 2 \<le> n"
  shows "strtok_all n (s @ 0 # r) lp (Some 0) (ds @ 0 # q) = Some (tokens ds s)"
  using strtok_all_tokens [of s ds "Some 0" lp "[]" n r q] assms by simp

theorem strtok_returns_tokens_witness:
  "strtok_all 9 [47, 97, 98, 47, 47, 99, 0, 5] None (Some 0) [47, 0] = Some [[97, 98], [99]]"
proof -
  have "tokens [47] [47, 97, 98, 47, 47, 99] = [[97, 98], [99]]" by code_simp
  then show ?thesis using strtok_returns_tokens [of "[47, 97, 98, 47, 47, 99]" "[47]" 9 "[5]" None "[]"] by simp
qed

text \<open>
  C30: comparing and searching. For C strings \<^verbatim>\<open>strcmp\<close> is zero exactly for equal strings
  and negative exactly when the first is smaller in the lexicographic order of unsigned bytes, and
  \<^verbatim>\<open>strstr\<close> returns the first offset at which the needle occurs, or null when it does not
  occur; neither reads outside the strings.
\<close>

theorem string_order_and_search:
  assumes "0 \<notin> set a" "0 \<notin> set b"
  shows "(\<exists>d. strcmp (a @ 0 # x) (b @ 0 # y) = Some d \<and> (d = 0 \<longleftrightarrow> a = b) \<and> (d < 0 \<longleftrightarrow> ord_class.lexordp a b))
    \<and> (\<exists>p. strstr (a @ 0 # x) (b @ 0 # y) = Some p \<and>
         (case p of None \<Rightarrow> \<not> (\<exists>i. occurs_at b a i) | Some i \<Rightarrow> occurs_at b a i \<and> (\<forall>j < i. \<not> occurs_at b a j)))"
proof (rule conjI [OF strcmp_cstr [OF assms]], cases "b = [] \<or> length a < length b")
  case True
  then show "\<exists>p. strstr (a @ 0 # x) (b @ 0 # y) = Some p \<and>
      (case p of None \<Rightarrow> \<not> (\<exists>i. occurs_at b a i) | Some i \<Rightarrow> occurs_at b a i \<and> (\<forall>j < i. \<not> occurs_at b a j))"
    using assms by (auto simp: strstr_def occurs_at_def)
next
  case False
  then have ne: "b \<noteq> []" by simp
  let ?k = "Suc (length a - length b)"
  have kle: "?k \<le> Suc (length a)" by simp
  from strstr_loop_spec [OF assms(2) ne assms(1) kle, of 0 x "0 # y"] obtain p where
    p: "strstr_loop 0 (a @ 0 # x) (b @ 0 # y) (length b) ?k = Some p"
      "case p of None \<Rightarrow> \<forall>j < ?k. take (length b) (drop j a) \<noteq> b
       | Some i \<Rightarrow> 0 \<le> i \<and> i < 0 + ?k \<and> take (length b) (drop (i - 0) a) = b \<and> (\<forall>j < i - 0. take (length b) (drop j a) \<noteq> b)"
    by blast
  have "strstr (a @ 0 # x) (b @ 0 # y) = Some p" using assms False p(1) by (simp add: strstr_def del: strstr_loop.simps)
  moreover have "\<not> occurs_at b a j" if "\<forall>j < ?k. take (length b) (drop j a) \<noteq> b" for j
    using that [rule_format, of j] False by (auto simp: occurs_at_def)
  moreover have "\<not> occurs_at b a j" if "take (length b) (drop j a) \<noteq> b" for j
    using that by (simp add: occurs_at_def)
  ultimately show "\<exists>p. strstr (a @ 0 # x) (b @ 0 # y) = Some p \<and>
      (case p of None \<Rightarrow> \<not> (\<exists>i. occurs_at b a i) | Some i \<Rightarrow> occurs_at b a i \<and> (\<forall>j < i. \<not> occurs_at b a j))"
    using p(2) occurs_bound [OF _ ne] by (cases p) auto
qed

theorem string_order_and_search_witness:
  "(\<exists>d. strcmp [97, 98, 0] [97, 200, 0] = Some d \<and> d < 0) \<and> strstr [97, 98, 97, 99, 0] [97, 99, 0] = Some (Some 2)"
proof -
  have o1: "ord_class.lexordp [97, 98 :: uint8_t] [97, 200]" by simp
  have run: "strstr [97, 98, 97, 99, 0] [97, 99, 0] = Some (Some 2)" by code_simp
  show ?thesis using string_order_and_search [of "[97, 98]" "[97, 200]" "[]" "[]"] o1 run by auto
qed
end
