(* ===== verification/Stdlib.thy ===== *)
theory Stdlib
  imports Cstring_Correct
begin

text \<open>
  \<^verbatim>\<open>src/libs/std/stdlib.c\<close>: path normalisation and the conversions between numbers and text.
  The conventions are those of the string functions; \<^verbatim>\<open>normalize_path\<close> works on the blocks
  that \<^verbatim>\<open>malloc\<close> returns, and a write behind the end of one of them is \<open>None\<close>.
\<close>

section \<open>Paths\<close>

text \<open>One token is merged into the result; the null pointer dereference is \<open>None\<close> as well.\<close>

definition path_token :: "bytes \<Rightarrow> bytes \<Rightarrow> bytes option" where
  "path_token result token = do {
     dot \<leftarrow> strcmp token [46, 0];
     dotdot \<leftarrow> (if dot = 0 then Some 1 else strcmp token [46, 46, 0]);
     if dot = 0 then Some result
     else if dotdot = 0 then do {
       last_slash \<leftarrow> strrchr result 47;
       (case last_slash of
          None \<Rightarrow> None
        | Some k \<Rightarrow> if k \<noteq> 0 then store result k [0] else store result 1 [0])
     }
     else do {
       n \<leftarrow> strlen result;
       result \<leftarrow> (if n = 0 then None else if result ! (n - 1) \<noteq> 47 then strcat result [47, 0] else Some result);
       strcat result token
     }
   }"

function path_loop :: "bytes \<Rightarrow> bytes \<Rightarrow> bytes option" where
  "path_loop result [] = None"
| "path_loop result (c # cs) =
     (if c = 0 then Some result
      else case strchr (c # cs) 47 of
          None \<Rightarrow> None
        | Some (Some k) \<Rightarrow>
            let token = (c # cs)[k := 0]; cursor = drop (Suc k) (c # cs) in
            if hd token = 0 then path_loop result cursor
            else (case path_token result token of None \<Rightarrow> None | Some result \<Rightarrow> path_loop result cursor)
        | Some None \<Rightarrow>
            (case strlen (c # cs) of
               None \<Rightarrow> None
             | Some n \<Rightarrow>
                 if n = 0 then None
                 else (case path_token result (c # cs) of
                     None \<Rightarrow> None
                   | Some result \<Rightarrow> path_loop result (drop n (c # cs)))))"
  by pat_completeness auto
termination
  by (relation "measure (\<lambda>(result, cursor). length cursor)") auto

definition normalize_path :: "(nat \<Rightarrow> bytes option) \<Rightarrow> bytes option \<Rightarrow> bytes option option" where
  "normalize_path malloc path =
     (case path of
        None \<Rightarrow> Some None
      | Some path \<Rightarrow> do {
          len \<leftarrow> strlen path;
          (case malloc (len + 2) of
             None \<Rightarrow> Some None
           | Some result \<Rightarrow> do {
               dup \<leftarrow> strdup malloc path;
               (case dup of
                  None \<Rightarrow> Some None
                | Some dup \<Rightarrow> do {
                    result \<leftarrow> strcpy result [47, 0];
                    root \<leftarrow> strcmp path [47, 0];
                    if root = 0 then Some (Some result)
                    else do {
                      (c, i, rest) \<leftarrow> getc 0 dup;
                      result \<leftarrow> path_loop result (if c = 47 then rest else dup);
                      Some (Some result)
                    }
                  })
             })
        })"

section \<open>Formatting numbers\<close>

definition ZEROPAD :: int32_t where "ZEROPAD = 1"
definition SIGN :: int32_t where "SIGN = 2"
definition PLUS :: int32_t where "PLUS = 4"
definition SPACE :: int32_t where "SPACE = 8"
definition LEFT :: int32_t where "LEFT = 16"
definition SPECIAL :: int32_t where "SPECIAL = 32"
definition SMALL :: int32_t where "SMALL = 64"

definition upper_digits :: bytes where
  "upper_digits = [48, 49, 50, 51, 52, 53, 54, 55, 56, 57, 65, 66, 67, 68, 69, 70, 71, 72, 73, 74, 75, 76, 77, 78, 79,
     80, 81, 82, 83, 84, 85, 86, 87, 88, 89, 90]"

definition lower_digits :: bytes where
  "lower_digits = [48, 49, 50, 51, 52, 53, 54, 55, 56, 57, 97, 98, 99, 100, 101, 102, 103, 104, 105, 106, 107, 108, 109,
     110, 111, 112, 113, 114, 115, 116, 117, 118, 119, 120, 121, 122]"

text \<open>The digits in \<^verbatim>\<open>tmp\<close>, least significant first. The callers have checked the base.\<close>

function tmp_digits :: "bytes \<Rightarrow> uint64_t \<Rightarrow> uint64_t \<Rightarrow> bytes" where
  "tmp_digits digits num base =
     (if num = 0 \<or> base < 2 then []
      else digits ! unat (num mod base) # tmp_digits digits (num div base) base)"
  by pat_completeness auto
termination
proof (relation "measure (\<lambda>(digits, num, base). unat num)", goal_cases)
  case (2 digits num base)
  then have "0 < unat num" "2 \<le> unat base"
    by (auto simp: word_less_nat_alt unat_gt_0 not_less)
  then have "unat num div unat base < unat num" by (intro div_less_dividend) auto
  then show ?case by (simp add: unat_div_distrib)
qed simp

declare tmp_digits.simps [simp del]

text \<open>
  Width and precision are integers, which agree with the \<^verbatim>\<open>int64_t\<close> of the source as long as no
  signed operation overflows; an overflow, which needs a width or precision near \<open>2 ^ 63\<close>, is undefined
  behaviour in C.
\<close>

text \<open>The loop \<^verbatim>\<open>while (size-- > 0)\<close>: what it writes and the value it leaves in \<^verbatim>\<open>size\<close>.\<close>

definition pad_loop :: "int \<Rightarrow> uint8_t \<Rightarrow> bytes \<times> int" where
  "pad_loop width c = (replicate (nat width) c, if width > 0 then - 1 else width - 1)"

definition number ::
  "uint64_t \<Rightarrow> uint64_t \<Rightarrow> uint64_t \<Rightarrow> uint64_t \<Rightarrow> int32_t \<Rightarrow> bytes option"
where
  "number num base width precision type =
     (let digits = (if type AND SMALL \<noteq> 0 then lower_digits else upper_digits);
          type = (if type AND LEFT \<noteq> 0 then type AND NOT ZEROPAD else type)
      in
        if base < 2 \<or> base > 36 then None
        else
          let c = (if type AND ZEROPAD \<noteq> 0 then 48 else 32);
              negative = (type AND SIGN \<noteq> 0 \<and> sint num < 0);
              sign = (if negative then 45 else if type AND PLUS \<noteq> 0 then 43 else if type AND SPACE \<noteq> 0 then 32 else 0);
              num = (if negative then - num else num);
              width = (if sign \<noteq> 0 then sint width - 1 else sint width);
              width = (if type AND SPECIAL \<noteq> 0 then (if base = 16 then width - 2 else if base = 8 then width - 1 else width) else width);
              tmp = (if num = 0 then [48] else tmp_digits digits num base);
              i = int (length tmp);
              precision = (if i > sint precision then i else sint precision);
              width = width - precision;
              (pad1, width) = (if type AND (ZEROPAD + LEFT) = 0 then pad_loop width 32 else ([], width));
              prefix = (if type AND SPECIAL \<noteq> 0 then (if base = 8 then [48] else if base = 16 then [48, digits ! 33] else []) else []);
              (pad2, width) = (if type AND LEFT = 0 then pad_loop width c else ([], width));
              zeros = replicate (nat (precision - i)) 48;
              (pad3, width) = pad_loop width 32
          in Some (pad1 @ (if sign \<noteq> 0 then [sign] else []) @ prefix @ pad2 @ zeros @ rev tmp @ pad3))"

record num_fmt_type =
  zeropad :: bool
  sign :: bool
  plus :: bool
  space :: bool
  left :: bool
  special :: bool
  small :: bool

record num_formatter =
  fmt_num :: uint64_t
  fmt_base :: uint64_t
  fmt_size :: uint64_t
  fmt_precision :: uint64_t

text \<open>
  \<^verbatim>\<open>wnumber\<close> hands each byte to the writer and counts it in \<^verbatim>\<open>result\<close>. The state of its loops is what the
  writer has received and the counter, a \<^verbatim>\<open>size_t\<close>.
\<close>

type_synonym written = "bytes \<times> uint64_t"

definition wput :: "uint8_t \<Rightarrow> written \<Rightarrow> written" where
  "wput c w = (fst w @ [c], snd w + 1)"

function wpad :: "int \<Rightarrow> uint8_t \<Rightarrow> written \<Rightarrow> written \<times> int" where
  "wpad width c w = (if width > 0 then wpad (width - 1) c (wput c w) else (w, width - 1))"
  by pat_completeness auto
termination
  by (relation "measure (\<lambda>(width, c, w). nat width)") auto

function wzeros :: "int \<Rightarrow> int \<Rightarrow> written \<Rightarrow> written" where
  "wzeros i precision w = (if i < precision then wzeros i (precision - 1) (wput 48 w) else w)"
  by pat_completeness auto
termination
  by (relation "measure (\<lambda>(i, precision, w). nat (precision - i))") auto

fun wdigits :: "bytes \<Rightarrow> nat \<Rightarrow> written \<Rightarrow> written" where
  "wdigits tmp 0 w = w"
| "wdigits tmp (Suc i) w = wdigits tmp i (wput (tmp ! i) w)"

declare wpad.simps [simp del] wzeros.simps [simp del]

definition wnumber :: "num_formatter \<Rightarrow> num_fmt_type \<Rightarrow> written" where
  "wnumber fmter type =
     (let width = sint (fmt_size fmter); precision = sint (fmt_precision fmter); base = fmt_base fmter;
          digits = (if small type then lower_digits else upper_digits);
          type = (if left type then type\<lparr>zeropad := False\<rparr> else type)
      in
        if base < 2 \<or> base > 36 then ([], 0)
        else
          let c = (if zeropad type then 48 else 32);
              negative = (sign type \<and> sint (fmt_num fmter) < 0);
              sgn = (if negative then 45 else if plus type then 43 else if space type then 32 else 0);
              num = (if negative then - fmt_num fmter else fmt_num fmter);
              width = (if sgn \<noteq> 0 then width - 1 else width);
              width = (if special type then (if base = 16 then width - 2 else if base = 8 then width - 1 else width) else width);
              tmp = (if num = 0 then [48] else tmp_digits digits num base);
              i = int (length tmp);
              precision = (if i > precision then i else precision);
              width = width - precision;
              (w, width) = (if \<not> (zeropad type \<or> left type) then wpad width 32 ([], 0) else (([], 0), width));
              w = (if sgn \<noteq> 0 then wput sgn w else w);
              w = (if special type
                   then (if base = 8 then wput 48 w else if base = 16 then wput (digits ! 33) (wput 48 w) else w) else w);
              (w, width) = (if \<not> left type then wpad width c w else (w, width));
              w = wzeros i precision w;
              w = wdigits tmp (length tmp) w;
              (w, width) = wpad width 32 w
          in w)"

function count_digits :: "uint64_t \<Rightarrow> uint64_t \<Rightarrow> nat" where
  "count_digits num base = (if num = 0 \<or> base < 2 then 0 else Suc (count_digits (num div base) base))"
  by pat_completeness auto
termination
proof (relation "measure (\<lambda>(num, base). unat num)", goal_cases)
  case (2 num base)
  then have "0 < unat num" "2 \<le> unat base"
    by (auto simp: word_less_nat_alt unat_gt_0 not_less)
  then have "unat num div unat base < unat num" by (intro div_less_dividend) auto
  then show ?case by (simp add: unat_div_distrib)
qed simp

declare count_digits.simps [simp del]

definition number_length :: "uint64_t \<Rightarrow> uint64_t \<Rightarrow> nat \<Rightarrow> nat \<Rightarrow> int32_t \<Rightarrow> nat" where
  "number_length num base width precision type =
     (let negative = (type AND SIGN \<noteq> 0 \<and> sint num < 0);
          num = (if negative then - num else num);
          sgn = (if negative \<or> type AND PLUS \<noteq> 0 \<or> type AND SPACE \<noteq> 0 then 1 else 0);
          number_digits = (if num = 0 then 1 else count_digits num base);
          res = (if type AND SPECIAL \<noteq> 0 then (if base = 16 then 2 else if base = 8 then 1 else 0) else 0);
          width = (if precision > width then precision else width)
      in if number_digits + sgn < width then res + width else res + (number_digits + sgn))"

section \<open>Reading numbers\<close>

definition IS_DIGIT :: "uint8_t \<Rightarrow> bool" where
  "IS_DIGIT c \<longleftrightarrow> 48 \<le> c \<and> c \<le> 57"

text \<open>The accumulator and the rest of the text behind the digits.\<close>

fun atoi_loop :: "int32_t \<Rightarrow> bytes \<Rightarrow> (int32_t \<times> bytes) option" where
  "atoi_loop acc [] = None"
| "atoi_loop acc (c # cs) = (if IS_DIGIT c then atoi_loop (acc * 10 + ucast c - 48) cs else Some (acc, c # cs))"

definition atoi :: "bytes \<Rightarrow> int32_t option" where
  "atoi pstr = do {
     (c, i, rest) \<leftarrow> getc 0 pstr;
     let integer_sign = (if c = 45 then - 1 else 1);
     (acc, s) \<leftarrow> atoi_loop 0 (if c = 45 \<or> c = 43 then rest else pstr);
     Some (integer_sign * acc)
   }"

definition skip_atoi :: "bytes \<Rightarrow> (int32_t \<times> bytes) option" where
  "skip_atoi s = atoi_loop 0 s"

end
