(* ===== verification/Path_Correct.thy ===== *)
theory Path_Correct
  imports Stdlib
begin

text \<open>
  Correctness of \<^verbatim>\<open>normalize_path\<close> of \<^verbatim>\<open>src/libs/std/stdlib.c\<close> against the list of the
  components of a path.
\<close>

section \<open>Paths\<close>

text \<open>The components of a path, and the path a list of components denotes.\<close>

function path_fields :: "bytes \<Rightarrow> bytes list" where
  "path_fields s = takeWhile (\<lambda>c. c \<noteq> 47) s #
     (case dropWhile (\<lambda>c. c \<noteq> 47) s of [] \<Rightarrow> [] | x # r \<Rightarrow> path_fields r)"
  by pat_completeness auto
termination
proof (relation "measure length", goal_cases)
  case (2 s x r)
  then show ?case using length_dropWhile_le [of "\<lambda>c. c \<noteq> 47" s] by simp
qed simp

declare path_fields.simps [simp del]

definition push_comp :: "bytes list \<Rightarrow> bytes \<Rightarrow> bytes list" where
  "push_comp cs t = (if t = [] \<or> t = [46] then cs else if t = [46, 46] then butlast cs else cs @ [t])"

definition canon :: "bytes \<Rightarrow> bytes list" where
  "canon p = foldl push_comp [] (path_fields p)"

definition slashed :: "bytes list \<Rightarrow> bytes" where
  "slashed cs = concat (map ((#) 47) cs)"

definition render :: "bytes list \<Rightarrow> bytes" where
  "render cs = (if cs = [] then [47] else slashed cs)"

definition comp_ok :: "bytes \<Rightarrow> bool" where
  "comp_ok t \<longleftrightarrow> t \<noteq> [] \<and> t \<noteq> [46] \<and> t \<noteq> [46, 46] \<and> 47 \<notin> set t \<and> 0 \<notin> set t"

lemma slashed_simps [simp]: "slashed [] = []" "slashed (cs @ [t]) = slashed cs @ 47 # t" "slashed (t # cs) = 47 # t @ slashed cs"
  by (simp_all add: slashed_def)

lemma slashed_zero: "\<forall>t \<in> set cs. comp_ok t \<Longrightarrow> 0 \<notin> set (slashed cs)"
  by (auto simp: slashed_def comp_ok_def)

lemma render_zero: "\<forall>t \<in> set cs. comp_ok t \<Longrightarrow> 0 \<notin> set (render cs)"
  using slashed_zero [of cs] by (simp add: render_def)

section \<open>String operations on a buffer\<close>

lemma strcpy_cstr: "0 \<notin> set b \<Longrightarrow> length b < length d \<Longrightarrow> strcpy d (b @ 0 # q) = Some (b @ 0 # drop (Suc (length b)) d)"
proof (induction b arbitrary: d)
  case Nil
  then show ?case by (cases d) auto
next
  case (Cons x b)
  then show ?case by (cases d) auto
qed

lemma strcat_cstr:
  "0 \<notin> set a \<Longrightarrow> 0 \<notin> set b \<Longrightarrow> length b \<le> length r \<Longrightarrow> strcat (a @ 0 # r) (b @ 0 # q) = Some (a @ b @ 0 # drop (length b) r)"
  by (induction a) (simp_all add: strcpy_cstr)


lemma strrchr_none: "0 \<notin> set b \<Longrightarrow> 47 \<notin> set b \<Longrightarrow> strrchr_from i f (b @ 0 # r) 47 = Some f"
proof (induction b arbitrary: i)
  case (Cons x b)
  have "sint x = 47 \<longleftrightarrow> x = 47"
    using signed_word_eqI [of x 47] by auto
  with Cons show ?case by auto
qed simp

lemma strrchr_last:
  "0 \<notin> set a \<Longrightarrow> 0 \<notin> set b \<Longrightarrow> 47 \<notin> set b \<Longrightarrow> strrchr_from i f (a @ 47 # b @ 0 # r) 47 = Some (Some (i + length a))"
  by (induction a arbitrary: i f) (simp_all add: strrchr_none)

lemma strchr_slash:
  "0 \<notin> set s \<Longrightarrow> strchr (s @ 0 # r) 47 = Some (if 47 \<in> set s then Some (length (takeWhile (\<lambda>c. c \<noteq> 47) s)) else None)"
  using strchr_cstr [of s r 47] by (simp add: eq_commute [of 47] cong: if_cong)

section \<open>One token\<close>

lemma path_token_spec:
  assumes cs: "\<forall>c \<in> set cs. comp_ok c" and t: "t \<noteq> []" "47 \<notin> set t" "0 \<notin> set t"
    and room: "length (slashed cs) + Suc (length t) < length (render cs @ 0 # r)"
  shows "\<exists>r'. path_token (render cs @ 0 # r) (t @ 0 # q) = Some (render (push_comp cs t) @ 0 # r')
    \<and> length (render (push_comp cs t) @ 0 # r') = length (render cs @ 0 # r)"
proof -
  from strcmp_cstr [OF t(3), of "[46]" q "[]"] obtain d where
    d: "strcmp (t @ 0 # q) [46, 0] = Some d" "d = 0 \<longleftrightarrow> t = [46]" by auto
  from strcmp_cstr [OF t(3), of "[46, 46]" q "[]"] obtain e where
    e: "strcmp (t @ 0 # q) [46, 46, 0] = Some e" "e = 0 \<longleftrightarrow> t = [46, 46]" by auto
  consider (dot) "t = [46]" | (dotdot) "t = [46, 46]" | (comp) "t \<noteq> [46]" "t \<noteq> [46, 46]" by blast
  then show ?thesis
  proof cases
    case dot
    then show ?thesis using d by (simp add: path_token_def push_comp_def)
  next
    case dotdot
    have pt: "path_token (render cs @ 0 # r) (t @ 0 # q) = do {
       last_slash \<leftarrow> strrchr (render cs @ 0 # r) 47;
       (case last_slash of None \<Rightarrow> None
        | Some k \<Rightarrow> if k \<noteq> 0 then store (render cs @ 0 # r) k [0] else store (render cs @ 0 # r) 1 [0]) }"
      using d e dotdot by (simp add: path_token_def)
    show ?thesis
    proof (cases cs rule: rev_cases)
      case Nil
      then show ?thesis using dotdot pt
        by (simp add: render_def push_comp_def strrchr_def store_def)
    next
      case (snoc ds u)
      then have u: "0 \<notin> set u" "47 \<notin> set u" "0 \<notin> set (slashed ds)" using cs slashed_zero by (auto simp: comp_ok_def)
      have re: "render cs @ 0 # r = slashed ds @ 47 # u @ 0 # r" by (simp add: snoc render_def)
      have sr: "strrchr (render cs @ 0 # r) 47 = Some (Some (length (slashed ds)))"
        unfolding re strrchr_def using strrchr_last [OF u(3,1,2)] by simp
      have pc: "push_comp cs t = ds" using dotdot snoc by (simp add: push_comp_def)
      show ?thesis
      proof (cases "ds = []")
        case True
        then show ?thesis unfolding pt sr pc unfolding re by (simp add: store_def render_def)
      next
        case False
        then have "length (slashed ds) \<noteq> 0" by (cases ds) auto
        then show ?thesis unfolding pt sr pc unfolding re using False by (simp add: store_def render_def)
      qed
    qed
  next
    case comp
    have z: "0 \<notin> set (render cs)" by (rule render_zero [OF cs])
    have pc: "push_comp cs t = cs @ [t]" using comp t by (simp add: push_comp_def)
    have re: "render (cs @ [t]) = slashed cs @ 47 # t" by (simp add: render_def)
    show ?thesis
    proof (cases "cs = []")
      case True
      have "strcat ([47] @ 0 # r) (t @ 0 # q) = Some ([47] @ t @ 0 # drop (length t) r)"
        using room True t by (intro strcat_cstr) (auto simp: render_def)
      then show ?thesis using d e comp True pc room by (simp add: path_token_def render_def)
    next
      case False
      then have "(render cs @ 0 # r) ! (length (render cs) - 1) = last (render cs)"
        by (simp add: render_def nth_append last_conv_nth slashed_def)
      moreover have "last (render cs) \<noteq> 47"
      proof -
        obtain ds u where u: "cs = ds @ [u]" using False by (metis rev_exhaust)
        then have "u \<noteq> []" "47 \<notin> set u" using cs by (auto simp: comp_ok_def)
        moreover from this have "last (render cs) = last u" by (simp add: u render_def)
        ultimately show ?thesis by (metis last_in_set)
      qed
      moreover have "strcat (render cs @ 0 # r) ([47] @ 0 # []) = Some (render cs @ [47] @ 0 # drop 1 r)"
        using strcat_cstr [OF z, of "[47]" r "[]"] room False by (simp add: render_def)
      moreover have "strcat ((render cs @ [47]) @ 0 # drop 1 r) (t @ 0 # q) = Some ((render cs @ [47]) @ t @ 0 # drop (length t) (drop 1 r))"
        using z t room False by (intro strcat_cstr) (auto simp: render_def)
      moreover have "slashed cs \<noteq> []" using False by (cases cs) auto
      moreover have "Suc (length r - Suc 0) = length r" using room False by (cases r) (auto simp: render_def)
      ultimately show ?thesis using d e comp pc z False room by (simp add: path_token_def render_def)
    qed
  qed
qed

section \<open>The whole path\<close>

lemma push_comp_ok:
  "\<forall>c \<in> set cs. comp_ok c \<Longrightarrow> 47 \<notin> set t \<Longrightarrow> 0 \<notin> set t \<Longrightarrow> \<forall>c \<in> set (push_comp cs t). comp_ok c"
  by (auto simp: push_comp_def comp_ok_def dest: in_set_butlastD)

lemma slashed_push: "length (slashed (push_comp cs t)) \<le> length (slashed cs) + (if t = [] then 0 else Suc (length t))"
proof (cases "t = [46, 46]")
  case True
  then show ?thesis by (cases cs rule: rev_cases) (auto simp: push_comp_def)
qed (simp add: push_comp_def)

lemma render_length: "length (render cs) \<le> max 1 (length (slashed cs))"
  by (simp add: render_def)

lemma path_loop_spec:
  assumes "\<forall>c \<in> set cs. comp_ok c" "0 \<notin> set s" "length (slashed cs) + length s + 2 \<le> length (render cs @ 0 # r) \<or> s = []"
  shows "\<exists>r'. path_loop (render cs @ 0 # r) (s @ 0 # q) = Some (render (foldl push_comp cs (path_fields s)) @ 0 # r')
    \<and> length (render (foldl push_comp cs (path_fields s)) @ 0 # r') = length (render cs @ 0 # r)
    \<and> (\<forall>c \<in> set (foldl push_comp cs (path_fields s)). comp_ok c)"
  using assms
proof (induction "length s" arbitrary: s cs r rule: less_induct)
  case less
  define t where "t = takeWhile (\<lambda>c. c \<noteq> 47) s"
  have t: "47 \<notin> set t" "0 \<notin> set t" "length t \<le> length s"
    using less.prems(2) by (auto simp: t_def length_takeWhile_le dest: set_takeWhileD)
  show ?case
  proof (cases s)
    case Nil
    then show ?thesis using less.prems(1) by (subst (1 2 3) path_fields.simps) (simp add: push_comp_def)
  next
    case (Cons c cs')
    have room: "length (slashed cs) + length s + 2 \<le> length (render cs @ 0 # r)" using less.prems(3) Cons by simp
    have c0: "c \<noteq> 0" using less.prems(2) Cons by auto
    show ?thesis
    proof (cases "47 \<in> set s")
      case True
      define w where "w = drop (Suc (length t)) s"
      have dw: "dropWhile (\<lambda>c. c \<noteq> 47) s = 47 # w"
      proof -
        from True obtain x y where xy: "dropWhile (\<lambda>c. c \<noteq> 47) s = x # y" by (cases "dropWhile (\<lambda>c. c \<noteq> 47) s") auto
        have "x = 47" using hd_dropWhile [of "\<lambda>c. c \<noteq> 47" s] xy by (metis list.distinct(1) list.sel(1))
        moreover have "s = t @ x # y" using xy takeWhile_dropWhile_id [of "\<lambda>c. c \<noteq> 47" s] by (simp add: t_def)
        then have "y = w" by (simp add: w_def)
        ultimately show ?thesis using xy by simp
      qed
      then have s: "s = t @ 47 # w" using takeWhile_dropWhile_id [of "\<lambda>c. c \<noteq> 47" s] by (simp add: t_def)
      have w: "0 \<notin> set w" "length w < length s" using less.prems(2) by (auto simp: s)
      have fl: "path_fields s = t # path_fields w"
        by (subst path_fields.simps) (simp add: dw t_def)
      have sc: "strchr (s @ 0 # q) 47 = Some (Some (length t))" using strchr_slash [OF less.prems(2)] True by (simp add: t_def)
      have cur: "drop (Suc (length t)) (s @ 0 # q) = w @ 0 # q" by (simp add: s)
      have tokb: "(s @ 0 # q)[length t := 0] = t @ 0 # w @ 0 # q" by (simp add: s list_update_append)
      define cs2 where "cs2 = push_comp cs t"
      have "\<exists>r2. (if hd (t @ 0 # w @ 0 # q) = 0 then Some (render cs @ 0 # r) else path_token (render cs @ 0 # r) (t @ 0 # w @ 0 # q))
          = Some (render cs2 @ 0 # r2) \<and> length (render cs2 @ 0 # r2) = length (render cs @ 0 # r)"
      proof (cases "t = []")
        case True
        then show ?thesis by (simp add: cs2_def push_comp_def)
      next
        case False
        then have "hd (t @ 0 # w @ 0 # q) \<noteq> 0" using t(2) by (metis hd_append2 hd_in_set)
        moreover have "length (slashed cs) + Suc (length t) < length (render cs @ 0 # r)" using room s by simp
        ultimately show ?thesis using path_token_spec [OF less.prems(1) False t(1,2)] by (simp add: cs2_def)
      qed
      then obtain r2 where r2: "(if hd (t @ 0 # w @ 0 # q) = 0 then Some (render cs @ 0 # r) else path_token (render cs @ 0 # r) (t @ 0 # w @ 0 # q))
          = Some (render cs2 @ 0 # r2)" "length (render cs2 @ 0 # r2) = length (render cs @ 0 # r)" by blast
      have "length (slashed cs2) + length w + 2 \<le> length (render cs2 @ 0 # r2)"
        using slashed_push [of cs t] room r2(2) s by (simp add: cs2_def split: if_splits)
      from less.hyps [OF w(2) _ w(1) disjI1 [OF this]] push_comp_ok [OF less.prems(1) t(1,2)] obtain r3 where
        r3: "path_loop (render cs2 @ 0 # r2) (w @ 0 # q) = Some (render (foldl push_comp cs2 (path_fields w)) @ 0 # r3)"
          "length (render (foldl push_comp cs2 (path_fields w)) @ 0 # r3) = length (render cs2 @ 0 # r2)"
          "\<forall>c \<in> set (foldl push_comp cs2 (path_fields w)). comp_ok c" by (auto simp: cs2_def)
      have "path_loop (render cs @ 0 # r) (s @ 0 # q) = path_loop (render cs2 @ 0 # r2) (w @ 0 # q)"
        using sc cur tokb r2(1) c0 unfolding Cons by (simp add: Let_def split: if_splits)
      then show ?thesis using r3 r2(2) fl by (simp add: cs2_def)
    next
      case False
      then have ts: "takeWhile (\<lambda>c. c \<noteq> 47) s = s" "dropWhile (\<lambda>c. c \<noteq> 47) s = []"
        by (auto simp: takeWhile_eq_all_conv dropWhile_eq_Nil_conv)
      have fl: "path_fields s = [s]" by (subst path_fields.simps) (simp add: ts)
      have sc: "strchr (s @ 0 # q) 47 = Some None" using strchr_slash [OF less.prems(2)] False by simp
      have "length (slashed cs) + Suc (length s) < length (render cs @ 0 # r)" using room by simp
      from path_token_spec [OF less.prems(1) _ _ less.prems(2) this, of q] Cons False obtain r2 where
        r2: "path_token (render cs @ 0 # r) (s @ 0 # q) = Some (render (push_comp cs s) @ 0 # r2)"
          "length (render (push_comp cs s) @ 0 # r2) = length (render cs @ 0 # r)" by auto
      have "path_loop (render cs @ 0 # r) (s @ 0 # q) = path_loop (render (push_comp cs s) @ 0 # r2) (drop (length s) (s @ 0 # q))"
        using sc r2(1) c0 strlen_cstr [OF less.prems(2), of q] unfolding Cons by (simp del: strlen_cstr)
      then show ?thesis using r2(2) fl push_comp_ok [OF less.prems(1) _ less.prems(2)] False by simp
    qed
  qed
qed

lemma fields_slash: "path_fields (47 # s) = [] # path_fields s"
  by (subst path_fields.simps) simp

lemma canon_simps: "canon (47 # s) = canon s" "canon [] = []"
  by (simp_all add: canon_def fields_slash push_comp_def) (simp add: path_fields.simps [of "[]"] push_comp_def)

lemma fields_comp: "47 \<notin> set t \<Longrightarrow> path_fields (t @ 47 # s) = t # path_fields s"
proof -
  assume "47 \<notin> set t"
  then have "takeWhile (\<lambda>c. c \<noteq> 47) (t @ 47 # s) = t" "dropWhile (\<lambda>c. c \<noteq> 47) (t @ 47 # s) = 47 # s"
    by (induction t) auto
  then show ?thesis by (subst path_fields.simps) simp
qed

lemma fields_last: "47 \<notin> set t \<Longrightarrow> path_fields t = [t]"
proof -
  assume "47 \<notin> set t"
  then have "takeWhile (\<lambda>c. c \<noteq> 47) t = t" "dropWhile (\<lambda>c. c \<noteq> 47) t = []"
    by (auto simp: takeWhile_eq_all_conv dropWhile_eq_Nil_conv)
  then show ?thesis by (subst path_fields.simps) (simp only: list.case)
qed

lemma fields_slashed: "\<forall>c \<in> set (t # cs). comp_ok c \<Longrightarrow> path_fields (t @ slashed cs) = t # cs"
proof (induction cs arbitrary: t)
  case Nil
  then show ?case by (simp add: fields_last comp_ok_def)
next
  case (Cons c cs)
  then show ?case by (simp add: fields_comp comp_ok_def)
qed

lemma foldl_push_ok: "\<forall>c \<in> set ds. comp_ok c \<Longrightarrow> foldl push_comp cs ds = cs @ ds"
  by (induction ds arbitrary: cs) (auto simp: push_comp_def comp_ok_def)

lemma canon_render: "\<forall>c \<in> set cs. comp_ok c \<Longrightarrow> canon (render cs) = cs"
proof (cases cs)
  case (Cons t ds)
  assume a: "\<forall>c \<in> set cs. comp_ok c"
  have "canon (render cs) = foldl push_comp [] (path_fields (t @ slashed ds))" by (simp add: Cons render_def canon_simps canon_def fields_slash push_comp_def)
  then show ?thesis using fields_slashed [of t ds] foldl_push_ok [of "t # ds" "[]"] a unfolding Cons by simp
qed (simp add: render_def canon_simps)

lemma normalize_spec:
  assumes p: "0 \<notin> set p" and m1: "malloc (length p + 1) = Some b1" "length b1 = length p + 1"
    and m2: "malloc (length p + 2) = Some b2" "length b2 = length p + 2"
  shows "\<exists>r. normalize_path malloc (Some (p @ 0 # q)) = Some (Some (render (canon p) @ 0 # r))
    \<and> length (render (canon p) @ 0 # r) = length p + 2 \<and> (\<forall>c \<in> set (canon p). comp_ok c)"
proof -
  obtain r where r: "strcpy b2 [47, 0] = Some ([47] @ 0 # r)" "length r = length p"
    using strcpy_cstr [of "[47]" b2 "[]"] m2(2) by simp
  from strcmp_cstr [OF p, of "[47]" q "[]"] obtain d where d: "strcmp (p @ 0 # q) [47, 0] = Some d" "d = 0 \<longleftrightarrow> p = [47]" by auto
  have len: "strlen (p @ 0 # q) = Some (length p)" using p by simp
  have m2': "malloc (Suc (Suc (length p))) = Some b2" using m2(1) by simp
  note dup = strdup_cstr [where malloc = malloc, OF p m1]
  show ?thesis
  proof (cases "p = [47]")
    case True
    then show ?thesis using len dup r d m2' by (simp add: normalize_path_def canon_simps render_def)
  next
    case False
    define s where "s = (if p \<noteq> [] \<and> hd p = 47 then tl p else p)"
    have s: "0 \<notin> set s" "length s \<le> length p" "canon s = canon p"
      using p by (cases p; auto simp: s_def canon_simps)+
    have "\<exists>r'. path_loop (render [] @ 0 # r) (s @ 0 # []) = Some (render (foldl push_comp [] (path_fields s)) @ 0 # r')
      \<and> length (render (foldl push_comp [] (path_fields s)) @ 0 # r') = length (render [] @ 0 # r)
      \<and> (\<forall>c \<in> set (foldl push_comp [] (path_fields s)). comp_ok c)"
      by (rule path_loop_spec) (use s r(2) in \<open>auto simp: render_def\<close>)
    note loop = this [folded canon_def, unfolded s(3)]
    obtain r' where r': "path_loop ([47] @ 0 # r) (s @ [0]) = Some (render (canon p) @ 0 # r')"
      "length (render (canon p) @ 0 # r') = length p + 2" "\<forall>c \<in> set (canon p). comp_ok c"
      using loop r(2) by (auto simp: render_def [of "[]"])
    have "normalize_path malloc (Some (p @ 0 # q)) = Some (Some (render (canon p) @ 0 # r'))"
      using len dup r d m2' False r'(1) by (cases p) (auto simp: normalize_path_def s_def simp del: path_loop.simps split: if_splits)
    then show ?thesis using r' by blast
  qed
qed

section \<open>Correctness\<close>

text \<open>
  C26: \<^verbatim>\<open>normalize_path\<close>. For every C string and enough memory it returns the canonical
  absolute path: the components that remain after dropping empty ones and \<^verbatim>\<open>.\<close> and
  resolving \<^verbatim>\<open>..\<close> against the component before it, each preceded by a slash. None of
  them is special, the result always fits into the block of \<^verbatim>\<open>len + 2\<close> bytes, and
  normalising it again gives the same path.
\<close>

theorem normalize_path_canonical:
  assumes "0 \<notin> set p" "\<And>n. \<exists>b. malloc n = Some b \<and> length b = n"
  shows "\<exists>r. normalize_path malloc (Some (p @ 0 # q)) = Some (Some (render (canon p) @ 0 # r))
    \<and> length (render (canon p) @ 0 # r) = length p + 2 \<and> (\<forall>c \<in> set (canon p). comp_ok c)
    \<and> canon (render (canon p)) = canon p"
proof -
  obtain b1 b2 where "malloc (length p + 1) = Some b1" "length b1 = length p + 1"
    "malloc (length p + 2) = Some b2" "length b2 = length p + 2" using assms(2) by metis
  from normalize_spec [where malloc = malloc, OF assms(1) this, of q] show ?thesis using canon_render by blast
qed

theorem normalize_path_canonical_witness:
  "\<exists>r. normalize_path (\<lambda>n. Some (replicate n 7)) (Some [97, 47, 46, 47, 47, 98, 47, 46, 46, 47, 99, 0]) = Some (Some ([47, 97, 47, 99, 0] @ r))"
proof -
  have "render (canon [97, 47, 46, 47, 47, 98, 47, 46, 46, 47, 99]) = [47, 97, 47, 99]" by code_simp
  then show ?thesis
    using normalize_path_canonical [of "[97, 47, 46, 47, 47, 98, 47, 46, 46, 47, 99]" "\<lambda>n. Some (replicate n 7)" "[]"]
    by auto
qed
end
