(* ===== verification/Number_Correct.thy ===== *)
theory Number_Correct
  imports Stdlib
begin

text \<open>
  Correctness of the number conversions of \<^verbatim>\<open>src/libs/std/stdlib.c\<close> and of \<^verbatim>\<open>strtol\<close> of
  \<^verbatim>\<open>src/libs/std/string.c\<close>: the two formatters agree, the computed length covers the text
  except in one case, and reading back printed numbers is exact.
\<close>

section \<open>Digits\<close>

text \<open>The value of a list of digits, most significant first.\<close>

definition digits_value :: "nat \<Rightarrow> nat list \<Rightarrow> nat" where
  "digits_value b ds = foldl (\<lambda>a d. a * b + d) 0 ds"

lemma digits_value_simps [simp]: "digits_value b [] = 0" "digits_value b (ds @ [d]) = digits_value b ds * b + d"
  by (simp_all add: digits_value_def)

function nat_digits :: "nat \<Rightarrow> nat \<Rightarrow> nat list" where
  "nat_digits b n = (if n = 0 \<or> b < 2 then [] else nat_digits b (n div b) @ [n mod b])"
  by pat_completeness auto
termination
  by (relation "measure (\<lambda>(b, n). n)") auto

declare nat_digits.simps [simp del]

lemma digits_zero [simp]: "nat_digits b 0 = []" "tmp_digits ds 0 base = []"
  by (simp_all add: nat_digits.simps tmp_digits.simps)

lemma nat_digits_value: "2 \<le> b \<Longrightarrow> digits_value b (nat_digits b n) = n \<and> (\<forall>d \<in> set (nat_digits b n). d < b)"
proof (induction b n rule: nat_digits.induct)
  case (1 b n)
  show ?case
  proof (cases "n = 0")
    case True
    then show ?thesis by simp
  next
    case False
    then have "digits_value b (nat_digits b (n div b)) = n div b" "\<forall>d \<in> set (nat_digits b (n div b)). d < b"
      using 1 by auto
    then show ?thesis using False 1(2) by (subst (1 2) nat_digits.simps) simp
  qed
qed

lemma tmp_digits_rev:
  "2 \<le> unat base \<Longrightarrow> rev (tmp_digits ds num base) = map ((!) ds) (nat_digits (unat base) (unat num))"
proof (induction ds num base rule: tmp_digits.induct)
  case (1 ds num base)
  have b: "\<not> base < 2" using 1(2) by (simp add: word_less_nat_alt)
  show ?case
  proof (cases "num = 0")
    case True
    then show ?thesis by simp
  next
    case False
    then have "unat num \<noteq> 0" by (simp add: unat_eq_0)
    then have "nat_digits (unat base) (unat num) = nat_digits (unat base) (unat num div unat base) @ [unat num mod unat base]"
      using 1(2) by (subst nat_digits.simps) simp
    moreover have "tmp_digits ds num base = ds ! unat (num mod base) # tmp_digits ds (num div base) base"
      using False b by (subst tmp_digits.simps) simp
    ultimately show ?thesis using 1 False b by (simp add: unat_mod_distrib unat_div_distrib)
  qed
qed

lemma count_digits_length: "2 \<le> unat base \<Longrightarrow> count_digits num base = length (tmp_digits ds num base)"
proof (induction num base rule: count_digits.induct)
  case (1 num base)
  then have b: "\<not> base < 2" by (simp add: word_less_nat_alt)
  then show ?case using 1 by (subst count_digits.simps, subst tmp_digits.simps) auto
qed

lemma digit_count_bound: "2 \<le> b \<Longrightarrow> n < 2 ^ k \<Longrightarrow> length (nat_digits b n) \<le> k"
proof (induction k arbitrary: n)
  case 0
  then show ?case by simp
next
  case (Suc k)
  have "n div b \<le> n div 2" using Suc.prems(1) by (simp add: div_le_mono2)
  then have "n div b < 2 ^ k" using Suc.prems(2) by simp
  with Suc show ?case by (subst nat_digits.simps) auto
qed

text \<open>The temporary array of 65 characters is never overrun.\<close>

lemma tmp_bound: "2 \<le> unat base \<Longrightarrow> length (tmp_digits ds num base) \<le> 64"
proof -
  assume b: "2 \<le> unat base"
  have "length (nat_digits (unat base) (unat num)) \<le> 64"
    by (rule digit_count_bound [OF b]) (use unsigned_less [of num, where ?'a = nat] in simp)
  then show ?thesis using arg_cong [OF tmp_digits_rev [OF b, of ds num], of length] by simp
qed

section \<open>The two formatters agree\<close>

definition type_bits :: "num_fmt_type \<Rightarrow> int32_t" where
  "type_bits t = (if zeropad t then ZEROPAD else 0) OR (if sign t then SIGN else 0) OR (if plus t then PLUS else 0)
     OR (if space t then SPACE else 0) OR (if left t then LEFT else 0) OR (if special t then SPECIAL else 0)
     OR (if small t then SMALL else 0)"

lemmas flag_defs = ZEROPAD_def SIGN_def PLUS_def SPACE_def LEFT_def SPECIAL_def SMALL_def

lemma type_bits_tests:
  "type_bits t AND ZEROPAD \<noteq> 0 \<longleftrightarrow> zeropad t" "type_bits t AND SIGN \<noteq> 0 \<longleftrightarrow> sign t" "type_bits t AND PLUS \<noteq> 0 \<longleftrightarrow> plus t"
  "type_bits t AND SPACE \<noteq> 0 \<longleftrightarrow> space t" "type_bits t AND LEFT \<noteq> 0 \<longleftrightarrow> left t" "type_bits t AND SPECIAL \<noteq> 0 \<longleftrightarrow> special t"
  "type_bits t AND SMALL \<noteq> 0 \<longleftrightarrow> small t" "type_bits t AND (ZEROPAD + LEFT) = 0 \<longleftrightarrow> \<not> (zeropad t \<or> left t)"
  by (simp_all add: type_bits_def flag_defs)

lemma type_bits_clear: "type_bits t AND NOT ZEROPAD = type_bits (t\<lparr>zeropad := False\<rparr>)"
  by (simp add: type_bits_def flag_defs)

text \<open>The invariant of the loops of \<^verbatim>\<open>wnumber\<close>: the counter is the number of bytes written, modulo the width of \<^verbatim>\<open>size_t\<close>.\<close>

definition tally :: "bytes \<Rightarrow> written" where
  "tally out = (out, of_nat (length out))"

lemma wput_tally: "wput c (tally out) = tally (out @ [c])"
  by (simp add: wput_def tally_def)

lemma wpad_tally: "wpad width c (tally out) = (tally (out @ fst (pad_loop width c)), snd (pad_loop width c))"
proof (induction "nat width" arbitrary: width out)
  case 0
  then show ?case by (subst wpad.simps) (simp add: pad_loop_def)
next
  case (Suc n)
  then have w: "0 < width" "n = nat (width - 1)" "nat width = Suc (nat (width - 1))" by auto
  have "wpad width c (tally out) = wpad (width - 1) c (tally (out @ [c]))" using w(1) by (subst wpad.simps) (simp add: wput_tally)
  also have "\<dots> = (tally (out @ fst (pad_loop width c)), snd (pad_loop width c))"
    using Suc.hyps(1) [OF w(2), of "out @ [c]"] w by (auto simp: pad_loop_def)
  finally show ?case .
qed

lemma wzeros_tally: "wzeros i precision (tally out) = tally (out @ replicate (nat (precision - i)) 48)"
proof (induction "nat (precision - i)" arbitrary: precision out)
  case 0
  then show ?case by (subst wzeros.simps) simp
next
  case (Suc n)
  then have p: "i < precision" "n = nat (precision - 1 - i)" "nat (precision - i) = Suc (nat (precision - 1 - i))" by auto
  have "wzeros i precision (tally out) = wzeros i (precision - 1) (tally (out @ [48]))" using p(1) by (subst wzeros.simps) (simp add: wput_tally)
  also have "\<dots> = tally (out @ replicate (nat (precision - i)) 48)" using Suc.hyps(1) [OF p(2), of "out @ [48]"] by (simp add: p(3))
  finally show ?case .
qed

lemma wdigits_tally: "n \<le> length tmp \<Longrightarrow> wdigits tmp n (tally out) = tally (out @ rev (take n tmp))"
  by (induction n arbitrary: out) (simp_all add: wput_tally take_Suc_conv_app_nth)

lemma wdigits_all: "wdigits tmp (length tmp) (tally out) = tally (out @ rev tmp)"
  by (simp add: wdigits_tally)

lemmas writer_steps = wput_tally wpad_tally wzeros_tally wdigits_all

text \<open>The part of the formatters behind the computation of the width, with the conditions as parameters.\<close>

lemma writer_tail:
  "(let (w, width) = (if b then wpad width 32 (tally []) else (tally [], width));
        w = (if sg \<noteq> 0 then wput sg w else w);
        w = (if sp then (if b8 then wput 48 w else if b16 then wput x (wput 48 w) else w) else w);
        (w, width) = (if nl then wpad width c w else (w, width));
        w = wzeros i precision w;
        w = wdigits tmp (length tmp) w;
        (w, width) = wpad width 32 w
    in w)
   = tally (let (pad1, width) = (if b then pad_loop width 32 else ([], width));
        prefix = (if sp then (if b8 then [48] else if b16 then [48, x] else []) else []);
        (pad2, width) = (if nl then pad_loop width c else ([], width));
        zeros = replicate (nat (precision - i)) 48;
        (pad3, width) = pad_loop width 32
      in pad1 @ (if sg \<noteq> 0 then [sg] else []) @ prefix @ pad2 @ zeros @ rev tmp @ pad3)"
  by (cases b; cases nl; cases sp; cases b8; cases b16; cases "sg = 0") (simp_all add: Let_def case_prod_beta writer_steps)


text \<open>
  C31: \<^verbatim>\<open>wnumber\<close> and \<^verbatim>\<open>number\<close> are the same formatter. For every number, base, field
  width, precision and combination of flags the writer receives, byte by byte, exactly the text that
  \<^verbatim>\<open>number\<close> stores, and the counter that the loops and single writes advance ends at the length of this
  text, as a \<^verbatim>\<open>size_t\<close>. For an invalid base nothing is written and 0 is returned.
\<close>

theorem wnumber_eq_number:
  "wnumber f t = (case number (fmt_num f) (fmt_base f) (fmt_size f) (fmt_precision f) (type_bits t) of
     None \<Rightarrow> ([], 0) | Some out \<Rightarrow> (out, of_nat (length out)))"
proof -
  define u where "u = (if left t then t\<lparr>zeropad := False\<rparr> else t)"
  have u: "(if left t then type_bits t AND NOT ZEROPAD else type_bits t) = type_bits u"
    by (simp add: u_def type_bits_clear)
  have z: "type_bits u AND LEFT = 0 \<longleftrightarrow> \<not> left u" using type_bits_tests(5) [of u] by blast
  have start: "([], 0) = tally []" by (simp add: tally_def)
  show ?thesis
  proof (cases "fmt_base f < 2 \<or> fmt_base f > 36")
    case True
    then show ?thesis by (simp only: wnumber_def number_def Let_def if_True option.case)
  next
    case False
    define neg where "neg \<longleftrightarrow> sign u \<and> sint (fmt_num f) < 0"
    define sg :: uint8_t where "sg = (if neg then 45 else if plus u then 43 else if space u then 32 else 0)"
    define num where "num = (if neg then - fmt_num f else fmt_num f)"
    define digits where "digits = (if small t then lower_digits else upper_digits)"
    define tmp where "tmp = (if num = 0 then [48] else tmp_digits digits num (fmt_base f))"
    define precision where "precision = (if int (length tmp) > sint (fmt_precision f) then int (length tmp) else sint (fmt_precision f))"
    define w0 where "w0 = (if sg \<noteq> 0 then sint (fmt_size f) - 1 else sint (fmt_size f))"
    define width where "width = (if special u then (if fmt_base f = 16 then w0 - 2 else if fmt_base f = 8 then w0 - 1 else w0) else w0) - precision"
    note vars = neg_def sg_def num_def digits_def tmp_def precision_def w0_def width_def
    note tail = writer_tail [of "\<not> (zeropad u \<or> left u)" width sg "special u" "fmt_base f = 8" "fmt_base f = 16" "digits ! 33" "\<not> left u"
        "if zeropad u then 48 else 32" "int (length tmp)" precision tmp]
    have "wnumber f t = (let (w, width) = (if \<not> (zeropad u \<or> left u) then wpad width 32 (tally []) else (tally [], width));
        w = (if sg \<noteq> 0 then wput sg w else w);
        w = (if special u then (if fmt_base f = 8 then wput 48 w else if fmt_base f = 16 then wput (digits ! 33) (wput 48 w) else w) else w);
        (w, width) = (if \<not> left u then wpad width (if zeropad u then 48 else 32) w else (w, width));
        w = wzeros (int (length tmp)) precision w;
        w = wdigits tmp (length tmp) w;
        (w, width) = wpad width 32 w
      in w)"
      using False unfolding vars by (simp only: wnumber_def u_def [symmetric] Let_def if_False start)
    moreover have "number (fmt_num f) (fmt_base f) (fmt_size f) (fmt_precision f) (type_bits t)
      = Some (let (pad1, width) = (if \<not> (zeropad u \<or> left u) then pad_loop width 32 else ([], width));
        prefix = (if special u then (if fmt_base f = 8 then [48] else if fmt_base f = 16 then [48, digits ! 33] else []) else []);
        (pad2, width) = (if \<not> left u then pad_loop width (if zeropad u then 48 else 32) else ([], width));
        zeros = replicate (nat (precision - int (length tmp))) 48;
        (pad3, width) = pad_loop width 32
      in pad1 @ (if sg \<noteq> 0 then [sg] else []) @ prefix @ pad2 @ zeros @ rev tmp @ pad3)"
      using False unfolding vars by (simp only: number_def u type_bits_tests z Let_def if_False case_prod_beta)
    ultimately show ?thesis using tail by (simp only: option.case tally_def)
  qed
qed

section \<open>Decimal text\<close>

definition decimal :: "nat \<Rightarrow> bytes" where
  "decimal n = (if n = 0 then [48] else map (\<lambda>d. 48 + of_nat d) (nat_digits 10 n))"

lemma upper_digit: "d < 10 \<Longrightarrow> upper_digits ! d = 48 + of_nat d"
proof -
  have "\<forall>d \<in> set [0..<10]. upper_digits ! d = 48 + of_nat d" by code_simp
  then show "d < 10 \<Longrightarrow> ?thesis" by (simp only: set_upt atLeastLessThan_iff ball_simps) simp
qed

lemma number_decimal:
  "number v 10 0 0 SIGN = Some ((if sint v < 0 then [45] else []) @ decimal (unat (if sint v < 0 then - v else v)))"
proof -
  define n where "n = (if sint v < 0 then - v else v)"
  define tmp where "tmp = (if n = 0 then [48] else tmp_digits upper_digits n 10)"
  have b: "2 \<le> unat (10 :: uint64_t)" by simp
  have dec: "rev tmp = decimal (unat n)"
  proof (cases "n = 0")
    case False
    then have "unat n \<noteq> 0" by (simp add: unat_eq_0)
    moreover have "rev (tmp_digits upper_digits n 10) = map ((!) upper_digits) (nat_digits 10 (unat n))"
      using tmp_digits_rev [OF b] by simp
    moreover have "map ((!) upper_digits) (nat_digits 10 (unat n)) = map (\<lambda>d. 48 + of_nat d) (nat_digits 10 (unat n))"
      using nat_digits_value [of 10 "unat n"] by (auto simp: upper_digit)
    ultimately show ?thesis using False by (simp add: tmp_def decimal_def)
  qed (simp add: tmp_def decimal_def)
  have tests: "SIGN AND SMALL = 0" "SIGN AND LEFT = 0" "SIGN AND ZEROPAD = 0" "SIGN AND SIGN \<noteq> 0" "SIGN AND PLUS = 0"
    "SIGN AND SPACE = 0" "SIGN AND SPECIAL = 0" "SIGN AND (ZEROPAD + LEFT) = 0" by (simp_all add: flag_defs)
  have "tmp \<noteq> []" by (subst tmp_def, subst tmp_digits.simps) (simp add: n_def)
  then have i: "0 < int (length tmp)" by simp
  have "number v 10 0 0 SIGN = Some ((if sint v < 0 then [45] else []) @ rev tmp)"
    using i unfolding number_def tests Let_def
    by (cases "sint v < 0") (simp_all add: tests n_def [symmetric] tmp_def [symmetric] pad_loop_def, auto simp: tmp_def n_def flag_defs)
  then show ?thesis by (simp only: dec n_def)
qed

section \<open>Reading digits\<close>

text \<open>The two characters for a digit.\<close>

definition digit_char :: "bool \<Rightarrow> nat \<Rightarrow> uint8_t" where
  "digit_char up d = (if up then upper_digits else lower_digits) ! d"

lemma digit_char_props:
  assumes "d < 36"
  shows "digit_value (digit_char up d) = Some (of_nat d)" "digit_char up d \<noteq> 45" "digit_char up d \<noteq> 43" "\<not> IS_SPACE (digit_char up d)"
    "d < 16 \<Longrightarrow> digit_char up d \<noteq> 120 \<and> digit_char up d \<noteq> 88"
proof -
  have "\<forall>up \<in> set [True, False]. \<forall>d \<in> set [0..<36]. digit_value (digit_char up d) = Some (of_nat d) \<and> digit_char up d \<noteq> 45 \<and> digit_char up d \<noteq> 43
      \<and> \<not> IS_SPACE (digit_char up d) \<and> (d < 16 \<longrightarrow> digit_char up d \<noteq> 120 \<and> digit_char up d \<noteq> 88)" by code_simp
  moreover have "up \<in> set [True, False]" "d \<in> set [0..<36]" using assms by auto
  ultimately have "digit_value (digit_char up d) = Some (of_nat d) \<and> digit_char up d \<noteq> 45 \<and> digit_char up d \<noteq> 43
      \<and> \<not> IS_SPACE (digit_char up d) \<and> (d < 16 \<longrightarrow> digit_char up d \<noteq> 120 \<and> digit_char up d \<noteq> 88)" by blast
  then show "digit_value (digit_char up d) = Some (of_nat d)" "digit_char up d \<noteq> 45" "digit_char up d \<noteq> 43" "\<not> IS_SPACE (digit_char up d)"
    "d < 16 \<Longrightarrow> digit_char up d \<noteq> 120 \<and> digit_char up d \<noteq> 88" by blast+
qed

lemma small_word [simp]:
  "d < 36 \<Longrightarrow> uint (of_nat d :: uint8_t) = int d" "d < 36 \<Longrightarrow> (ucast (of_nat d :: uint8_t) :: uint64_t) = of_nat d"
  "d \<le> 36 \<Longrightarrow> unat (of_nat d :: uint64_t) = d"
proof -
  show "d < 36 \<Longrightarrow> uint (of_nat d :: uint8_t) = int d" by (simp add: unsigned_of_nat take_bit_eq_mod)
  show w: "d \<le> 36 \<Longrightarrow> unat (of_nat d :: uint64_t) = d" by (simp add: unsigned_of_nat take_bit_eq_mod)
  show "d < 36 \<Longrightarrow> (ucast (of_nat d :: uint8_t) :: uint64_t) = of_nat d"
    by (rule unsigned_word_eqI [where ?'a = nat]) (simp add: unsigned_ucast_eq unsigned_of_nat take_bit_eq_mod)
qed

lemma nat_cutoff:
  fixes a l :: nat
  assumes "d < b"
  shows "a > l div b \<or> a = l div b \<and> d > l mod b \<longleftrightarrow> a * b + d > l"
proof -
  have l: "l = l div b * b + l mod b" "l mod b < b" using assms by simp_all
  consider "a < l div b" | "a = l div b" | "a > l div b" by linarith
  then show ?thesis
  proof cases
    case 1
    then have "a * b + b \<le> l div b * b" using mult_le_mono1 [of "Suc a" "l div b" b] by simp
    then show ?thesis using 1 l assms by linarith
  next
    case 2
    then have "a * b + l mod b = l" by simp
    then show ?thesis using 2 by linarith
  next
    case 3
    then have "l div b * b + b \<le> a * b" using mult_le_mono1 [of "Suc (l div b)" a b] by simp
    then show ?thesis using 3 l assms by linarith
  qed
qed

lemma cutoff_test:
  fixes a l :: uint64_t
  assumes "d < b" "b \<le> 36"
  shows "a > l div of_nat b \<or> a = l div of_nat b \<and> of_nat d > l mod of_nat b \<longleftrightarrow> unat a * b + d > unat l"
proof -
  have dm: "unat (l div of_nat b) = unat l div b" "unat (l mod of_nat b) = unat l mod b"
    using assms(2) by (simp_all add: unat_div_distrib unat_mod_distrib)
  have "a > l div of_nat b \<longleftrightarrow> unat a > unat l div b" "a = l div of_nat b \<longleftrightarrow> unat a = unat l div b" "of_nat d > l mod of_nat b \<longleftrightarrow> d > unat l mod b"
    using assms by (simp_all add: word_less_nat_alt dm word_unat_eq_iff)
  then show ?thesis using nat_cutoff [OF assms(1)] by (simp only:)
qed

text \<open>The accumulator of \<^verbatim>\<open>strtol\<close>: a digit that would exceed the limit is skipped.\<close>

definition kept_value :: "nat \<Rightarrow> nat \<Rightarrow> nat \<Rightarrow> nat list \<Rightarrow> nat" where
  "kept_value l b a ds = foldl (\<lambda>a d. if a * b + d > l then a else a * b + d) a ds"

lemma kept_value_simps [simp]: "kept_value l b a [] = a" "kept_value l b a (d # ds) = kept_value l b (if a * b + d > l then a else a * b + d) ds"
  "kept_value l b a (xs @ ys) = kept_value l b (kept_value l b a xs) ys"
  by (simp_all add: kept_value_def)


lemma fold_ge: "1 \<le> b \<Longrightarrow> a \<le> foldl (\<lambda>a d. a * b + d) a ds" for a b :: nat
proof (induction ds arbitrary: a)
  case (Cons d ds)
  have "a \<le> a * b + d" using Cons.prems by (simp add: trans_le_add1)
  also have "\<dots> \<le> foldl (\<lambda>a d. a * b + d) (a * b + d) ds" by (rule Cons.IH [OF Cons.prems])
  finally show ?case by simp
qed simp

lemma kept_exact: "1 \<le> b \<Longrightarrow> foldl (\<lambda>a d. a * b + d) a ds \<le> l \<Longrightarrow> kept_value l b a ds = foldl (\<lambda>a d. a * b + d) a ds"
proof (induction ds arbitrary: a)
  case (Cons d ds)
  then show ?case using fold_ge [of b "a * b + d" ds] by simp
qed simp

lemma strtol_loop_digits:
  assumes "b \<le> 36" "\<forall>d \<in> set ds. d < b" "unat acc \<le> unat l" "map (digit_char up) ds @ e # r = c # rest" "digit_value e = None"
  shows "\<exists>any'. strtol_loop (int b) (l div of_nat b) (l mod of_nat b) c i rest acc any
    = Some (of_nat (kept_value (unat l) b (unat acc) ds), any', i + length ds) \<and> (ds \<noteq> [] \<longrightarrow> any' \<noteq> 0)"
  using assms
proof (induction ds arbitrary: acc any c rest i)
  case Nil
  then show ?case by simp
next
  case (Cons d ds)
  have d: "d < b" "d < 36" and c: "c = digit_char up d" and rest: "rest = map (digit_char up) ds @ e # r" using Cons.prems by auto
  let ?acc = "if unat acc * b + d > unat l then acc else acc * of_nat b + of_nat d"
  have un: "unat ?acc = (if unat acc * b + d > unat l then unat acc else unat acc * b + d)"
  proof (cases "unat acc * b + d > unat l")
    case False
    then have "unat acc * b + d < 2 ^ 64" using unsigned_less [of l, where ?'a = nat] by simp
    moreover have "acc * of_nat b + of_nat d = (of_nat (unat acc * b + d) :: uint64_t)" by simp
    ultimately have "unat (acc * of_nat b + of_nat d) = unat acc * b + d" by (simp only: unsigned_of_nat) (simp add: take_bit_eq_mod)
    then show ?thesis using False by simp
  qed simp
  obtain x ys where xy: "rest = x # ys" using rest by (metis Nil_is_append_conv list.distinct(1) neq_Nil_conv)
  have le: "unat ?acc \<le> unat l" using Cons.prems(3) un by (simp split: if_splits)
  let ?any = "if unat acc * b + d > unat l then - 1 else 1 :: int"
  obtain any' where ih: "strtol_loop (int b) (l div of_nat b) (l mod of_nat b) x (Suc i) ys ?acc ?any
    = Some (of_nat (kept_value (unat l) b (unat ?acc) ds), any', Suc i + length ds)" "ds \<noteq> [] \<longrightarrow> any' \<noteq> 0"
    using Cons.IH [OF Cons.prems(1) _ le, of x ys "Suc i" ?any] Cons.prems(2,5) rest xy by auto
  have step: "strtol_loop (int b) (l div of_nat b) (l mod of_nat b) c i rest acc any
    = strtol_loop (int b) (l div of_nat b) (l mod of_nat b) x (Suc i) ys ?acc ?any"
    using d cutoff_test [OF d(1) Cons.prems(1), of l acc]
    by (subst strtol_loop.simps) (simp add: c digit_char_props xy Let_def del: strtol_loop.simps)
  have "any' \<noteq> 0"
  proof (cases ds)
    case Nil
    then have "x = e" using rest xy by simp
    then show ?thesis using ih(1) Nil Cons.prems(5) by (auto split: if_splits)
  qed (use ih(2) in simp)
  then show ?case using step ih(1) un by (intro exI [of _ any']) simp
qed

lemma strtol_text:
  assumes b: "2 \<le> b" "b \<le> 36" and ds: "ds \<noteq> []" "\<forall>d \<in> set ds. d < b" and e: "digit_value e = None" and l: "l = (if neg then 2 ^ 63 else 2 ^ 63 - 1)"
  shows "strtol ((if neg then [45] else []) @ map (digit_char up) ds @ e # r) (int b)
    = Some (if neg then - of_nat (kept_value l b 0 ds) else of_nat (kept_value l b 0 ds), (if neg then 1 else 0) + length ds)"
proof -
  define lim :: uint64_t where "lim = (if neg then 0x8000000000000000 else 0x7fffffffffffffff)"
  have lim: "unat lim = l" by (simp add: lim_def l)
  obtain d xs where x: "ds = d # xs" using ds(1) by (cases ds) auto
  let ?rest = "map (digit_char up) xs @ e # r"
  have d: "d < b" "d < 36" using ds(2) x b(2) by auto
  have loop: "\<exists>any'. strtol_loop (int b) (lim div of_nat b) (lim mod of_nat b) (digit_char up d) i ?rest 0 0
    = Some (of_nat (kept_value l b 0 ds), any', i + length ds) \<and> any' \<noteq> 0" for i
    using strtol_loop_digits [OF b(2) ds(2), of 0 lim up e r "digit_char up d" ?rest i 0] x e lim by auto
  have hex: "hex_prefix (digit_char up d) ?rest = Some False" if "b = 16"
  proof (cases xs)
    case Nil
    have "e \<noteq> 120 \<and> e \<noteq> 88" using e by (auto simp: digit_value_def)
    then show ?thesis using Nil by (simp add: hex_prefix_def)
  next
    case (Cons y ys)
    then have "y < 16" using ds(2) x that by auto
    then show ?thesis using digit_char_props(5) [of y up] Cons by (simp add: hex_prefix_def)
  qed
  have m: "\<not> IS_SPACE 45" by (simp add: IS_SPACE_def)
  note p = digit_char_props(2-4) [OF d(2), of up]
  show ?thesis
  proof (cases neg)
    case True
    obtain any' where "strtol_loop (int b) (lim div of_nat b) (lim mod of_nat b) (digit_char up d) (Suc (Suc 0)) ?rest 0 0
      = Some (of_nat (kept_value l b 0 ds), any', Suc (Suc 0) + length ds)" "any' \<noteq> 0" using loop by blast
    then show ?thesis using True p m hex b x by (cases "b = 16") (simp_all add: strtol_def lim_def Let_def del: strtol_loop.simps kept_value_simps)
  next
    case False
    obtain any' where "strtol_loop (int b) (lim div of_nat b) (lim mod of_nat b) (digit_char up d) (Suc 0) ?rest 0 0
      = Some (of_nat (kept_value l b 0 ds), any', Suc 0 + length ds)" "any' \<noteq> 0" using loop by blast
    then show ?thesis using False p hex b x by (cases "b = 16") (simp_all add: strtol_def lim_def Let_def del: strtol_loop.simps kept_value_simps)
  qed
qed

section \<open>Correctness\<close>

lemma decimal_digits:
  "\<exists>ds. decimal n = map (digit_char True) ds \<and> ds \<noteq> [] \<and> (\<forall>d \<in> set ds. d < 10) \<and> digits_value 10 ds = n"
proof (cases "n = 0")
  case True
  then show ?thesis by (intro exI [of _ "[0]"]) (simp add: decimal_def digit_char_def upper_digits_def digits_value_def)
next
  case False
  have "nat_digits 10 n \<noteq> []" using False by (subst nat_digits.simps) simp
  moreover have d: "digits_value 10 (nat_digits 10 n) = n" "\<forall>d \<in> set (nat_digits 10 n). d < 10" using nat_digits_value [of 10 n] by simp_all
  moreover have "decimal n = map (digit_char True) (nat_digits 10 n)"
    using False d(2) by (simp add: decimal_def digit_char_def upper_digit)
  ultimately show ?thesis by blast
qed

lemma strtol_decimal:
  assumes "if neg then n \<le> 2 ^ 63 else n < 2 ^ 63"
  shows "strtol ((if neg then [45] else []) @ decimal n @ 0 # r) 10
    = Some (if neg then - of_nat n else of_nat n, length ((if neg then [45 :: uint8_t] else []) @ decimal n))"
proof -
  obtain ds where ds: "decimal n = map (digit_char True) ds" "ds \<noteq> []" "\<forall>d \<in> set ds. d < 10" "digits_value 10 ds = n"
    using decimal_digits [of n] by blast
  define l :: nat where "l = (if neg then 2 ^ 63 else 2 ^ 63 - 1)"
  have "kept_value l 10 0 ds = n" using kept_exact [of 10 0 ds l] ds(4) assms by (auto simp: digits_value_def l_def split: if_splits)
  moreover have "digit_value 0 = None" by (simp add: digit_value_def)
  ultimately show ?thesis using strtol_text [OF _ _ ds(2,3) _ l_def, of 0 True r] by (simp add: ds(1))
qed

lemma sint_neg_unat: "sint v < 0 \<longleftrightarrow> 2 ^ 63 \<le> unat v" for v :: uint64_t
proof -
  have "sint v < 0 \<longleftrightarrow> bit v 63" using bit_last_iff [of v] by simp
  also have "\<dots> \<longleftrightarrow> odd (unat v div 2 ^ 63)" using bit_unsigned_iff [of v 63, where ?'a = nat] by (simp add: bit_iff_odd [of "unat v"])
  also have "\<dots> \<longleftrightarrow> 2 ^ 63 \<le> unat v"
  proof -
    have lt: "unat v < 2 * 2 ^ 63" using unsigned_less [of v, where ?'a = nat] by simp
    show ?thesis
    proof (cases "2 ^ 63 \<le> unat v")
      case True
      then have "unat v div 2 ^ 63 = 1" using lt by (intro div_nat_eqI) auto
      then show ?thesis using True by simp
    qed simp
  qed
  finally show ?thesis .
qed

lemma sign_bound: "if sint v < 0 then unat (- v) \<le> 2 ^ 63 else unat v < 2 ^ 63" for v :: uint64_t
proof (cases "sint v < 0")
  case True
  then have "2 ^ 63 \<le> unat v" by (simp add: sint_neg_unat)
  moreover have "- v = of_nat (2 ^ 64 - unat v)"
    using unsigned_less [of v, where ?'a = nat] by (simp add: of_nat_diff)
  then have "unat (- v) \<le> 2 ^ 64 - unat v"
    by (simp only: unsigned_of_nat take_bit_eq_mod of_nat_id mod_less_eq_dividend)
  ultimately show ?thesis using True by simp
qed (simp add: sint_neg_unat)

text \<open>
  C32: printing and reading. For every signed 64-bit value, \<^verbatim>\<open>strtol\<close> reads back from the
  decimal text that \<^verbatim>\<open>number\<close> prints exactly the value, the smallest included, and stops
  at the end of the text.
\<close>

theorem number_strtol_roundtrip:
  "\<exists>out. number v 10 0 0 SIGN = Some out \<and> strtol (out @ 0 # r) 10 = Some (v, length out)"
proof -
  let ?n = "unat (if sint v < 0 then - v else v)"
  have "if sint v < 0 then ?n \<le> 2 ^ 63 else ?n < 2 ^ 63"
    using sign_bound [of v] by auto
  from strtol_decimal [OF this, of r] number_decimal [of v] show ?thesis by (cases "sint v < 0") auto
qed



section \<open>Field width\<close>

lemma pads_length:
  fixes w :: int and one two :: bool and c :: uint8_t
  defines "q1 \<equiv> (if one then pad_loop w 32 else ([], w))"
  defines "q2 \<equiv> (if two then pad_loop (snd q1) c else ([], snd q1))"
  assumes "\<not> one \<or> two"
  shows "length (fst q1) + length (fst q2) + length (fst (pad_loop (snd q2) 32)) = nat w"
  using assms(3) by (auto simp: q1_def q2_def pad_loop_def)

lemma width_arith: "nat (int w - int (s + p) - max (int d) (int q)) + s + p + nat (max (int d) (int q)) = max w (s + p + max d q)"
proof -
  have "max (int d) (int q) = int (max d q)" by simp
  moreover have "int w - int (s + p) - int (max d q) = int w - int (s + p + max d q)" by simp
  ultimately show ?thesis by (simp only: nat_int nat_minus_as_int [symmetric])
qed

text \<open>The parts of a formatted number: sign, prefix and digits.\<close>

definition sign_length :: "uint64_t \<Rightarrow> int32_t \<Rightarrow> nat" where
  "sign_length num type = (if type AND SIGN \<noteq> 0 \<and> sint num < 0 \<or> type AND PLUS \<noteq> 0 \<or> type AND SPACE \<noteq> 0 then 1 else 0)"

definition prefix_length :: "uint64_t \<Rightarrow> int32_t \<Rightarrow> nat" where
  "prefix_length base type = (if type AND SPECIAL \<noteq> 0 then (if base = 16 then 2 else if base = 8 then 1 else 0) else 0)"

definition digit_length :: "uint64_t \<Rightarrow> uint64_t \<Rightarrow> int32_t \<Rightarrow> nat" where
  "digit_length num base type =
     (let n = (if type AND SIGN \<noteq> 0 \<and> sint num < 0 then - num else num) in if n = 0 then 1 else count_digits n base)"

lemma number_shape:
  assumes base: "\<not> (base < 2 \<or> base > 36)"
  shows "\<exists>out. number num base width precision type = Some out \<and>
    length out = nat (sint width - int (sign_length num type + prefix_length base type)
        - max (int (digit_length num base type)) (sint precision))
      + sign_length num type + prefix_length base type + nat (max (int (digit_length num base type)) (sint precision))"
proof -
  define ty where "ty = (if type AND LEFT \<noteq> 0 then type AND NOT ZEROPAD else type)"
  have ty: "ty AND SIGN \<noteq> 0 \<longleftrightarrow> type AND SIGN \<noteq> 0" "ty AND PLUS \<noteq> 0 \<longleftrightarrow> type AND PLUS \<noteq> 0"
    "ty AND SPACE \<noteq> 0 \<longleftrightarrow> type AND SPACE \<noteq> 0" "ty AND SPECIAL \<noteq> 0 \<longleftrightarrow> type AND SPECIAL \<noteq> 0"
    by (simp_all add: ty_def flag_defs and.assoc)
  have fl: "\<not> (ty AND (ZEROPAD + LEFT) = 0) \<or> ty AND LEFT = 0"
  proof -
    have "ty AND LEFT = (ty AND (ZEROPAD + LEFT)) AND LEFT" by (simp add: flag_defs and.assoc)
    then show ?thesis by auto
  qed
  define negative where "negative = (ty AND SIGN \<noteq> 0 \<and> sint num < 0)"
  define sg :: uint8_t where "sg = (if negative then 45 else if ty AND PLUS \<noteq> 0 then 43 else if ty AND SPACE \<noteq> 0 then 32 else 0)"
  define n where "n = (if negative then - num else num)"
  define digits where "digits = (if type AND SMALL \<noteq> 0 then lower_digits else upper_digits)"
  define tmp where "tmp = (if n = 0 then [48] else tmp_digits digits n base)"
  define w1 where "w1 = (if sg \<noteq> 0 then sint width - 1 else sint width)"
  define w2 where "w2 = (if ty AND SPECIAL \<noteq> 0 then (if base = 16 then w1 - 2 else if base = 8 then w1 - 1 else w1) else w1)"
  define p where "p = (if int (length tmp) > sint precision then int (length tmp) else sint precision)"
  define c :: uint8_t where "c = (if ty AND ZEROPAD \<noteq> 0 then 48 else 32)"
  define q1 where "q1 = (if ty AND (ZEROPAD + LEFT) = 0 then pad_loop (w2 - p) 32 else ([], w2 - p))"
  define q2 where "q2 = (if ty AND LEFT = 0 then pad_loop (snd q1) c else ([], snd q1))"
  define pre where "pre = (if ty AND SPECIAL \<noteq> 0 then (if base = 8 then [48] else if base = 16 then [48, digits ! 33] else []) else [])"
  have eq: "number num base width precision type = Some (fst q1 @ (if sg \<noteq> 0 then [sg] else []) @ pre @ fst q2
      @ replicate (nat (p - int (length tmp))) 48 @ rev tmp @ fst (pad_loop (snd q2) 32))"
    unfolding number_def Let_def case_prod_beta if_not_P [OF base]
    unfolding ty_def [symmetric] digits_def [symmetric]
    unfolding negative_def [symmetric]
    unfolding sg_def [symmetric] n_def [symmetric]
    unfolding tmp_def [symmetric] w1_def [symmetric]
    unfolding w2_def [symmetric] p_def [symmetric]
    unfolding q1_def [symmetric] c_def [symmetric] pre_def [symmetric]
    unfolding q2_def [symmetric] ..
  have pads: "length (fst q1) + length (fst q2) + length (fst (pad_loop (snd q2) 32)) = nat (w2 - p)"
    unfolding q2_def q1_def by (rule pads_length [OF fl])
  have b: "2 \<le> unat base" using base by (simp add: word_less_nat_alt not_less)
  have neg: "negative \<longleftrightarrow> type AND SIGN \<noteq> 0 \<and> sint num < 0" by (simp add: negative_def ty)
  have sl: "(if sg \<noteq> 0 then 1 else 0) = sign_length num type" by (simp add: sg_def neg sign_length_def ty)
  have pl: "length pre = prefix_length base type" by (simp add: pre_def prefix_length_def ty)
  have dl: "length tmp = digit_length num base type"
    using count_digits_length [OF b, of n digits] by (simp add: tmp_def digit_length_def Let_def n_def neg)
  have p: "p = max (int (digit_length num base type)) (sint precision)" by (simp add: p_def dl max_def)
  have w: "w2 = sint width - int (sign_length num type + prefix_length base type)"
    unfolding sl [symmetric] by (simp add: w2_def w1_def prefix_length_def ty)
  have "length (if sg \<noteq> 0 then [sg] else []) = sign_length num type" using sl by (simp split: if_splits)
  then have "length (fst q1 @ (if sg \<noteq> 0 then [sg] else []) @ pre @ fst q2
      @ replicate (nat (p - int (length tmp))) 48 @ rev tmp @ fst (pad_loop (snd q2) 32))
    = nat (w2 - p) + sign_length num type + prefix_length base type + nat p"
    using pads pl p dl by simp
  then show ?thesis unfolding eq w p by blast
qed

text \<open>
  C33: \<^verbatim>\<open>number_length\<close>, which callers use to size the buffer for \<^verbatim>\<open>number\<close>, is at
  least the number of bytes written except when a sign is printed and the precision exceeds the
  digits and reaches the field width; then it is one byte short.
\<close>

theorem number_length_exact:
  assumes "2 \<le> unat base" "unat base \<le> 36" "unat width < 2 ^ 63" "unat precision < 2 ^ 63"
  shows "\<exists>out. number num base width precision type = Some out \<and>
    (length out \<le> number_length num base (unat width) (unat precision) type \<longleftrightarrow>
       \<not> (sign_length num type = 1 \<and> unat precision > digit_length num base type
          \<and> unat precision \<ge> unat width)) \<and>
    length out \<le> Suc (number_length num base (unat width) (unat precision) type)"
proof -
  have base: "\<not> (base < 2 \<or> base > 36)" using assms(1,2) by (simp add: word_less_nat_alt not_less)
  have s: "sint v = int (unat v)" if "unat v < 2 ^ 63" for v :: uint64_t
  proof -
    have u: "uint v = int (unat v)" by simp
    have "uint v < int (2 ^ 63)" using that unfolding u by (simp only: of_nat_less_iff)
    then have lt: "uint v < 2 ^ 63" by simp
    have "sint v = signed_take_bit 63 (uint v)" by (simp add: sint_uint)
    also have "\<dots> = uint v" using lt by (intro signed_take_bit_int_eq_self) (auto intro: order_trans [of _ 0])
    finally show ?thesis unfolding u .
  qed
  define S P D where "S = sign_length num type" and "P = prefix_length base type" and "D = digit_length num base type"
  have S: "S \<le> 1" by (simp add: S_def sign_length_def)
  have nl: "number_length num base (unat width) (unat precision) type
    = (let w = (if unat precision > unat width then unat precision else unat width) in if D + S < w then P + w else P + (D + S))"
    by (auto simp: number_length_def Let_def D_def S_def P_def digit_length_def sign_length_def prefix_length_def)
  from number_shape [OF base, of num width precision type] obtain out where
    out: "number num base width precision type = Some out"
      "length out = nat (int (unat width) - int (S + P) - max (int D) (int (unat precision))) + S + P + nat (max (int D) (int (unat precision)))"
    unfolding s [OF assms(3)] s [OF assms(4)] S_def P_def D_def by blast
  have "length out = max (unat width) (S + P + max D (unat precision))" unfolding out(2) by (rule width_arith)
  then show ?thesis unfolding nl S_def [symmetric] P_def [symmetric] D_def [symmetric] using out(1) S
    by (auto simp: Let_def max_def split: if_splits)
qed

theorem number_length_exact_witness:
  "(\<exists>out. number 5 10 0 3 PLUS = Some out \<and> \<not> length out \<le> number_length 5 10 0 3 PLUS)
   \<and> (\<exists>out. number 5 10 0 3 SIGN = Some out \<and> length out \<le> number_length 5 10 0 3 SIGN)"
proof -
  have p: "sign_length 5 PLUS = 1" "digit_length 5 10 PLUS = 1" "sign_length 5 SIGN = 0" by code_simp+
  show ?thesis using number_length_exact [of 10 0 3 5 PLUS] number_length_exact [of 10 0 3 5 SIGN] p by auto
qed

end
