(* ===== verification/Bitops.thy ===== *)
theory Bitops
  imports Membytes
begin

text \<open>
  \<^verbatim>\<open>src/libs/util/bitops.c\<close>: scanning and counting bits. Where the source has a compiler
  builtin and a portable loop, the argument \<open>has_builtin\<close> selects the body as the preprocessor
  does; \<open>ffs32\<close> and \<open>ffs64\<close> also take the selector of the \<open>ctz\<close> they fall
  back on. The portable loops end only at a set bit, so they are partial functions and their
  termination is a theorem; a bit index is a natural number.
\<close>

section \<open>The functions\<close>

definition set_bit32 :: "nat \<Rightarrow> uint32_t list \<Rightarrow> uint32_t list option" where
  "set_bit32 n bitmap =
     (if n div 32 < length bitmap then Some (bitmap[n div 32 := bitmap ! (n div 32) OR push_bit (n mod 32) 1]) else None)"

definition is_power_of_two :: "uint64_t \<Rightarrow> bool" where
  "is_power_of_two v \<longleftrightarrow> v \<noteq> 0 \<and> v AND (v - 1) = 0"

text \<open>The builtins: the position of the lowest set bit and the number of zero bits above the highest.\<close>

definition builtin_ctz :: "'a::len word \<Rightarrow> nat" where
  "builtin_ctz v = length (takeWhile (\<lambda>i. \<not> bit v i) [0..<LENGTH('a)])"

definition builtin_clz :: "'a::len word \<Rightarrow> nat" where
  "builtin_clz v = length (takeWhile (\<lambda>i. \<not> bit v (LENGTH('a) - 1 - i)) [0..<LENGTH('a)])"

definition builtin_parity :: "'a::len word \<Rightarrow> nat" where
  "builtin_parity v = length (filter (bit v) [0..<LENGTH('a)]) mod 2"

partial_function (option) ctz_loop :: "'a::len word \<Rightarrow> nat \<Rightarrow> nat option" where
  "ctz_loop v n = (if v AND 1 \<noteq> 0 then Some n else ctz_loop (drop_bit 1 v) (n + 1))"

partial_function (option) clz_loop :: "'a::len word \<Rightarrow> 'a word \<Rightarrow> nat \<Rightarrow> nat option" where
  "clz_loop high v n = (if v AND high \<noteq> 0 then Some n else clz_loop high (push_bit 1 v) (n + 1))"

definition ctz32 :: "bool \<Rightarrow> uint32_t \<Rightarrow> nat option" where
  "ctz32 has_builtin v =
     (if has_builtin then Some (if v \<noteq> 0 then builtin_ctz v else 32)
      else if v = 0 then Some 32 else ctz_loop v 0)"

definition ctz64 :: "bool \<Rightarrow> uint64_t \<Rightarrow> nat option" where
  "ctz64 has_builtin v =
     (if has_builtin then Some (if v \<noteq> 0 then builtin_ctz v else 64)
      else if v = 0 then Some 64 else ctz_loop v 0)"

definition clz32 :: "bool \<Rightarrow> uint32_t \<Rightarrow> nat option" where
  "clz32 has_builtin v =
     (if has_builtin then Some (if v \<noteq> 0 then builtin_clz v else 32)
      else if v = 0 then Some 32 else clz_loop 0x80000000 v 0)"

definition clz64 :: "bool \<Rightarrow> uint64_t \<Rightarrow> nat option" where
  "clz64 has_builtin v =
     (if has_builtin then Some (if v \<noteq> 0 then builtin_clz v else 64)
      else if v = 0 then Some 64 else clz_loop 0x8000000000000000 v 0)"

definition ffs32 :: "bool \<Rightarrow> bool \<Rightarrow> uint32_t \<Rightarrow> nat option" where
  "ffs32 has_builtin has_ctz v =
     (if has_builtin then Some (if v \<noteq> 0 then builtin_ctz v + 1 else 0)
      else if v \<noteq> 0 then map_option Suc (ctz32 has_ctz v) else Some 0)"

definition ffs64 :: "bool \<Rightarrow> bool \<Rightarrow> uint64_t \<Rightarrow> nat option" where
  "ffs64 has_builtin has_ctz v =
     (if has_builtin then Some (if v \<noteq> 0 then builtin_ctz v + 1 else 0)
      else if v \<noteq> 0 then map_option Suc (ctz64 has_ctz v) else Some 0)"

definition popcount32 :: "uint32_t \<Rightarrow> uint32_t" where
  "popcount32 v =
     (let v = v - (drop_bit 1 v AND 0x55555555);
          v = (v AND 0x33333333) + (drop_bit 2 v AND 0x33333333);
          v = (v + drop_bit 4 v) AND 0x0F0F0F0F
      in drop_bit 24 (v * 0x01010101))"

definition popcount64 :: "uint64_t \<Rightarrow> uint32_t" where
  "popcount64 v =
     (let v = v - (drop_bit 1 v AND 0x5555555555555555);
          v = (v AND 0x3333333333333333) + (drop_bit 2 v AND 0x3333333333333333);
          v = (v + drop_bit 4 v) AND 0x0F0F0F0F0F0F0F0F
      in ucast (drop_bit 56 (v * 0x0101010101010101)))"

definition parity32 :: "bool \<Rightarrow> uint32_t \<Rightarrow> uint32_t" where
  "parity32 has_builtin v = (if has_builtin then of_nat (builtin_parity v) else popcount32 v AND 1)"

definition parity64 :: "bool \<Rightarrow> uint64_t \<Rightarrow> uint32_t" where
  "parity64 has_builtin v = (if has_builtin then of_nat (builtin_parity v) else popcount64 v AND 1)"

end
