(* ===== verification/Bitops_Correct.thy ===== *)
theory Bitops_Correct
  imports Bitops
begin

text \<open>
  The bit scans and counts of \<^verbatim>\<open>src/libs/util/bitops.c\<close> are right: the portable loops end on every
  value and find the bit the builtin finds, and the parallel sums of \<open>popcount32\<close> and
  \<open>popcount64\<close> count the set bits. The parallel sums are read on integers, one byte at a time:
  each masked step acts on the lowest byte alone, so that 256 evaluated cases and an induction on
  the number of bytes give the whole word.
\<close>

unbundle bit_operations_syntax

section \<open>The scanning loops\<close>

lemma ctz_loop_steps:
  fixes v :: "'a::len word"
  assumes "bit v k" "\<And>i. i < k \<Longrightarrow> \<not> bit v i"
  shows "ctz_loop v n = Some (n + k)"
  using assms
proof (induction k arbitrary: v n)
  case 0
  then have "v AND 1 \<noteq> 0"
    by (auto simp: and_one_eq bit_0 odd_iff_mod_2_eq_one)
  then show ?case by (subst ctz_loop.simps) simp
next
  case (Suc k)
  have "\<not> bit v 0" using Suc.prems(2) by simp
  then have "v AND 1 = 0" by (simp add: and_one_eq bit_0 even_iff_mod_2_eq_zero)
  moreover have "ctz_loop (drop_bit 1 v) (n + 1) = Some (n + 1 + k)"
    using Suc.prems by (intro Suc.IH) (auto simp: bit_drop_bit_eq)
  ultimately show ?case by (subst ctz_loop.simps) simp
qed

lemma takeWhile_upt_length:
  assumes "k < n" "\<not> P k" "\<And>i. i < k \<Longrightarrow> P i"
  shows "length (takeWhile P [0..<n]) = k"
proof -
  have "[0..<n] = [0..<k] @ k # [Suc k..<n]"
    using assms(1) by (metis less_imp_le_nat le_add_diff_inverse upt_add_eq_append upt_conv_Cons zero_le)
  moreover have "takeWhile P ([0..<k] @ k # [Suc k..<n]) = [0..<k]"
    using assms(2,3) by (subst takeWhile_append2) auto
  ultimately show ?thesis by simp
qed

lemma clz_loop_steps:
  fixes v :: "'a::len word"
  assumes "k < LENGTH('a)" "bit v (LENGTH('a) - 1 - k)" "\<And>i. i < k \<Longrightarrow> \<not> bit v (LENGTH('a) - 1 - i)"
  shows "clz_loop (2 ^ (LENGTH('a) - 1)) v n = Some (n + k)"
  using assms
proof (induction k arbitrary: v n)
  case 0
  then have "bit (v AND 2 ^ (LENGTH('a) - 1)) (LENGTH('a) - 1)"
    by (simp add: bit_and_iff bit_exp_iff)
  then have "v AND 2 ^ (LENGTH('a) - 1) \<noteq> 0" by (metis bit_0_eq bot_apply bot_bool_def)
  then show ?case by (subst clz_loop.simps) simp
next
  case (Suc k)
  have "\<not> bit v (LENGTH('a) - 1)" using Suc.prems(3) [of 0] by simp
  then have "v AND 2 ^ (LENGTH('a) - 1) = 0"
    by (intro bit_word_eqI) (auto simp: bit_and_iff bit_exp_iff)
  moreover have "clz_loop (2 ^ (LENGTH('a) - 1)) (push_bit 1 v) (n + 1) = Some (n + 1 + k)"
  proof (rule Suc.IH)
    show "k < LENGTH('a)" using Suc.prems(1) by simp
    show "bit (push_bit 1 v) (LENGTH('a) - 1 - k)"
      using Suc.prems(1,2) unfolding bit_push_bit_iff by auto
    fix i assume "i < k"
    then show "\<not> bit (push_bit 1 v) (LENGTH('a) - 1 - i)"
      using Suc.prems(1) Suc.prems(3) [of "Suc i"] unfolding bit_push_bit_iff by simp
  qed
  ultimately show ?case by (subst clz_loop.simps) simp
qed

lemma nonzero_low:
  fixes v :: "'a::len word"
  assumes "v \<noteq> 0"
  obtains k where "k < LENGTH('a)" "bit v k" "\<And>i. i < k \<Longrightarrow> \<not> bit v i"
proof -
  from assms have "\<exists>n. bit v n" by (metis bit_eqI bit_0_eq bot_apply bot_bool_def)
  then have "bit v (LEAST n. bit v n)" by (rule LeastI_ex)
  then show thesis using that bit_imp_le_length not_less_Least by blast
qed

lemma nonzero_high:
  fixes v :: "'a::len word"
  assumes "v \<noteq> 0"
  obtains k where "k < LENGTH('a)" "bit v (LENGTH('a) - 1 - k)" "\<And>i. i < k \<Longrightarrow> \<not> bit v (LENGTH('a) - 1 - i)"
proof -
  from assms obtain n where n: "bit v n" by (metis bit_eqI bit_0_eq bot_apply bot_bool_def)
  let ?P = "\<lambda>k. k < LENGTH('a) \<and> bit v (LENGTH('a) - 1 - k)"
  have "n < LENGTH('a)" using n by (rule bit_imp_le_length)
  then have "?P (LENGTH('a) - 1 - n)" using n by auto
  then have "?P (LEAST k. ?P k)" by (rule LeastI)
  moreover have "\<not> ?P i" if "i < (LEAST k. ?P k)" for i using that by (rule not_less_Least)
  ultimately show thesis using that by (metis (no_types, lifting) less_trans)
qed

lemma ctz_loop_builtin: "v \<noteq> 0 \<Longrightarrow> ctz_loop v 0 = Some (builtin_ctz v)"
  by (erule nonzero_low) (simp add: ctz_loop_steps builtin_ctz_def takeWhile_upt_length)

lemma clz_loop_builtin:
  fixes v :: "'a::len word"
  shows "v \<noteq> 0 \<Longrightarrow> clz_loop (2 ^ (LENGTH('a) - 1)) v 0 = Some (builtin_clz v)"
  by (erule nonzero_high) (subst clz_loop_steps, auto simp: builtin_clz_def takeWhile_upt_length)

lemma portable_scans:
  "ctz32 False v = ctz32 True v" "ctz64 False w = ctz64 True w"
  "clz32 False v = clz32 True v" "clz64 False w = clz64 True w"
  using clz_loop_builtin [of v] clz_loop_builtin [of w]
  by (simp_all add: ctz32_def ctz64_def clz32_def clz64_def ctz_loop_builtin)

section \<open>The parallel sums\<close>

primrec bytes_of :: "int \<Rightarrow> nat \<Rightarrow> int" where
  "bytes_of c 0 = 0" |
  "bytes_of c (Suc k) = c + 256 * bytes_of c k"

definition pairs :: "nat \<Rightarrow> int \<Rightarrow> int" where
  "pairs k x = x - (x div 2 AND bytes_of 0x55 k)"

definition nibbles :: "nat \<Rightarrow> int \<Rightarrow> int" where
  "nibbles k x = (x AND bytes_of 0x33 k) + (x div 4 AND bytes_of 0x33 k)"

definition sums :: "nat \<Rightarrow> int \<Rightarrow> int" where
  "sums k x = (x + x div 16) AND bytes_of 0x0F k"

definition byte_ones :: "int \<Rightarrow> int" where
  "byte_ones a = int (length (filter (bit a) [0..<8]))"

lemma and_byte:
  fixes a c m k :: int
  assumes "0 \<le> a" "a < 256" "0 \<le> c" "c < 256"
  shows "(a + 256 * m) AND (c + 256 * k) = (a AND c) + 256 * (m AND k)"
proof -
  have cat: "x + 256 * y = push_bit 8 y OR take_bit 8 x" if "0 \<le> x" "x < 256" for x y :: int
  proof -
    have "take_bit 8 x = x" using that by (simp add: take_bit_int_eq_self_iff)
    moreover have "push_bit 8 y + take_bit 8 x = push_bit 8 y OR take_bit 8 x"
      by (rule disjunctive_add) (auto simp: bit_push_bit_iff bit_take_bit_iff)
    ultimately show ?thesis by (simp add: push_bit_eq_mult)
  qed
  have "0 \<le> a AND c" "a AND c < 256"
    using assms AND_upper1 [of a c] by (auto intro: le_less_trans)
  then show ?thesis
    using assms by (simp only: cat) (rule bit_eqI, auto simp: bit_simps)
qed

lemma byte_facts:
  "\<forall>a \<in> set [0..255]. (a div 2 + 128) AND 0x55 = a div 2 AND 0x55"
  "\<forall>a \<in> set [0..255]. \<forall>j \<in> set [0..3]. (a div 4 + 64 * j) AND 0x33 = a div 4 AND (0x33 :: int)"
  "\<forall>a \<in> set [0..255]. 0 \<le> pairs 1 a \<and> pairs 1 a < 256"
  "\<forall>a \<in> set [0..255]. 0 \<le> nibbles 1 a \<and> nibbles 1 a < 256"
  "\<forall>a \<in> set [0..255]. nibbles 1 (pairs 1 a) mod 16 \<le> 4 \<and> nibbles 1 (pairs 1 a) div 16 \<le> 4
     \<and> sums 1 (nibbles 1 (pairs 1 a)) = byte_ones a"
  by code_simp+

lemma carry_split: "c * m = c * (m mod n) + (c * n) * (m div n)" for c m n :: int
  by (metis distrib_left mod_mult_div_eq mult.assoc)

lemma pairs_step:
  assumes "0 \<le> a" "a < 256"
  shows "pairs (Suc k) (a + 256 * m) = pairs 1 a + 256 * pairs k m"
proof -
  have split: "(a + 256 * m) div 2 = (a div 2 + 128 * (m mod 2)) + 256 * (m div 2)" by presburger
  have "(a div 2 + 128 * (m mod 2)) AND 0x55 = a div 2 AND 0x55"
    using assms byte_facts(1) by (cases "even m") (auto simp: even_iff_mod_2_eq_zero odd_iff_mod_2_eq_one)
  moreover have "0 \<le> a div 2 + 128 * (m mod 2)" "a div 2 + 128 * (m mod 2) < 256" using assms by linarith+
  ultimately show ?thesis
    unfolding pairs_def split by (simp add: and_byte)
qed

lemma nibbles_step:
  assumes "0 \<le> a" "a < 256"
  shows "nibbles (Suc k) (a + 256 * m) = nibbles 1 a + 256 * nibbles k m"
proof -
  have quot: "(a + 256 * m) div 4 = a div 4 + 64 * m" using div_mult_self2 [of 4 a "64 * m"] by simp
  have split: "(a + 256 * m) div 4 = (a div 4 + 64 * (m mod 4)) + 256 * (m div 4)"
    using carry_split [of 64 m 4] unfolding quot by linarith
  have "(a div 4 + 64 * (m mod 4)) AND 0x33 = a div 4 AND 0x33"
    using assms byte_facts(2) by simp
  moreover have "0 \<le> a div 4 + 64 * (m mod 4)" "a div 4 + 64 * (m mod 4) < 256" using assms by linarith+
  ultimately show ?thesis
    unfolding nibbles_def split using assms by (simp add: and_byte)
qed

lemma sums_step:
  assumes "0 \<le> a" "a mod 16 \<le> 4" "a div 16 \<le> 4" "m mod 16 \<le> 4"
  shows "sums (Suc k) (a + 256 * m) = sums 1 a + 256 * sums k m"
proof -
  have quot: "(a + 256 * m) div 16 = a div 16 + 16 * m" using div_mult_self2 [of 16 a "16 * m"] by simp
  have split: "a + 256 * m + (a + 256 * m) div 16 = (a + a div 16 + 16 * (m mod 16)) + 256 * (m + m div 16)"
    using carry_split [of 16 m 16] unfolding quot distrib_left by simp
  have and15: "x AND 15 = x mod 16" for x :: int
    using take_bit_eq_mask [of 4 x] by (simp add: take_bit_eq_mod mask_eq_exp_minus_1)
  have "0 \<le> a + a div 16 + 16 * (m mod 16)" "a + a div 16 + 16 * (m mod 16) < 256"
    using assms by linarith+
  moreover have "(a + a div 16 + 16 * (m mod 16)) mod 16 = (a + a div 16) mod 16"
    by (simp only: mod_mult_self2)
  ultimately show ?thesis
    unfolding sums_def split bytes_of.simps One_nat_def by (subst and_byte) (simp_all add: and15)
qed

definition swar :: "nat \<Rightarrow> int \<Rightarrow> int" where
  "swar k x = sums k (nibbles k (pairs k x))"

lemma byte_split:
  fixes x :: int
  shows "x = x mod 256 + 256 * (x div 256)" "0 \<le> x mod 256" "x mod 256 < 256" "x mod 256 \<in> set [0..255]"
  by simp_all

lemma pairs_rec: "pairs (Suc k) x = pairs 1 (x mod 256) + 256 * pairs k (x div 256)"
  using pairs_step [of "x mod 256" k "x div 256"] by simp

lemma nibbles_rec: "nibbles (Suc k) x = nibbles 1 (x mod 256) + 256 * nibbles k (x div 256)"
  using nibbles_step [of "x mod 256" k "x div 256"] by simp

lemma pairs_byte: "pairs (Suc k) x mod 256 = pairs 1 (x mod 256)" "pairs (Suc k) x div 256 = pairs k (x div 256)"
  using byte_facts(3) byte_split(4) [of x] unfolding pairs_rec by (auto simp: div_add1_eq)

lemma low_nibble: "nibbles k (pairs k x) mod 16 \<le> 4"
proof (cases k)
  case (Suc n)
  have "nibbles k (pairs k x) mod 16 = nibbles 1 (pairs 1 (x mod 256)) mod 16"
    unfolding Suc nibbles_rec [of n "pairs (Suc n) x"] pairs_byte
    using mod_mult_self2 [of "nibbles 1 (pairs 1 (x mod 256))" 16 "16 * nibbles n (pairs n (x div 256))"] by simp
  then show ?thesis using byte_facts(5) byte_split(4) [of x] by metis
qed (simp add: nibbles_def)

lemma nibbles_bound: "0 \<le> nibbles k x \<and> nibbles k x < 256 ^ k"
proof (induction k arbitrary: x)
  case (Suc k)
  show ?case
    using Suc.IH [of "x div 256"] bspec [OF byte_facts(4) byte_split(4) [of x]]
    unfolding nibbles_rec power_Suc by linarith
qed (simp add: nibbles_def)

lemma swar_rec: "swar (Suc k) x = byte_ones (x mod 256) + 256 * swar k (x div 256)"
proof -
  have facts: "0 \<le> nibbles 1 (pairs 1 (x mod 256))"
    "nibbles 1 (pairs 1 (x mod 256)) mod 16 \<le> 4" "nibbles 1 (pairs 1 (x mod 256)) div 16 \<le> 4"
    "sums 1 (nibbles 1 (pairs 1 (x mod 256))) = byte_ones (x mod 256)"
    using bspec [OF byte_facts(5) byte_split(4) [of x]] nibbles_bound by auto
  show ?thesis
    unfolding swar_def nibbles_rec [of k "pairs (Suc k) x"] pairs_byte
    by (subst sums_step) (use facts low_nibble in auto)
qed

lemma pairs_bound: "0 \<le> x \<Longrightarrow> x < 256 ^ k \<Longrightarrow> 0 \<le> pairs k x \<and> pairs k x < 256 ^ k"
proof (induction k arbitrary: x)
  case (Suc k)
  then have "0 \<le> pairs k (x div 256) \<and> pairs k (x div 256) < 256 ^ k"
    by (intro Suc.IH) (auto simp: div_less_iff_less_mult mult.commute)
  then show ?case
    using bspec [OF byte_facts(3) byte_split(4) [of x]] unfolding pairs_rec power_Suc by linarith
qed (simp add: pairs_def)

definition ones :: "nat \<Rightarrow> int \<Rightarrow> int" where
  "ones n x = int (length (filter (bit x) [0..<n]))"

lemma ones_rec: "ones (8 + n) x = byte_ones (x mod 256) + ones n (x div 256)"
proof -
  have "[0..<8 + n] = [0..<8] @ map (\<lambda>i. i + 8) [0..<n]"
    using upt_add_eq_append [of 0 8 n] by (simp add: map_add_upt add.commute)
  moreover have "bit x (i + 8) = bit (x div 256) i" for i
    using bit_drop_bit_eq [of 8 x] by (simp add: drop_bit_eq_div fun_eq_iff add.commute)
  moreover have "filter (bit (x mod 256)) [0..<8] = filter (bit x) [0..<8]"
    by (intro filter_cong) (auto simp: bit_take_bit_iff simp flip: take_bit_eq_mod [of 8 x, simplified])
  ultimately show ?thesis
    unfolding ones_def byte_ones_def by (simp add: filter_map o_def)
qed

lemma byte_ones_range: "0 \<le> byte_ones a \<and> byte_ones a \<le> 8"
  using length_filter_le [of "bit a" "[0..<8]"] by (simp add: byte_ones_def)

lemma digit_at:
  fixes low :: int
  assumes "p = low + m * d + m * 256 * up" "0 \<le> low" "low < m" "0 \<le> d" "d < 256"
  shows "p mod (m * 256) div m = d"
proof -
  have "m * d \<le> m * 255" using assms by (intro mult_left_mono) auto
  moreover have "0 \<le> m * d" using assms by simp
  ultimately have "p mod (m * 256) = low + m * d"
    unfolding assms(1) mod_mult_self2 using assms(2,3) by (intro mod_pos_pos_trivial) linarith+
  then show ?thesis using assms(2,3) by simp
qed

lemma gather8:
  fixes a b c d e f g h :: int
  assumes "0 \<le> a \<and> a \<le> 8" "0 \<le> b \<and> b \<le> 8" "0 \<le> c \<and> c \<le> 8" "0 \<le> d \<and> d \<le> 8"
    "0 \<le> e \<and> e \<le> 8" "0 \<le> f \<and> f \<le> 8" "0 \<le> g \<and> g \<le> 8" "0 \<le> h \<and> h \<le> 8"
  shows "(a + 256 * (b + 256 * (c + 256 * (d + 256 * (e + 256 * (f + 256 * (g + 256 * h)))))))
     * 0x0101010101010101 mod 2 ^ 64 div 2 ^ 56 = a + b + c + d + e + f + g + h" (is "?x * _ mod _ div _ = ?s")
proof -
  define low where "low = a + 256 * (a + b) + 256 ^ 2 * (a + b + c) + 256 ^ 3 * (a + b + c + d) + 256 ^ 4 * (a + b + c + d + e)
     + 256 ^ 5 * (a + b + c + d + e + f) + 256 ^ 6 * (a + b + c + d + e + f + g)"
  define up where "up = (b + c + d + e + f + g + h) + 256 * (c + d + e + f + g + h) + 256 ^ 2 * (d + e + f + g + h)
     + 256 ^ 3 * (e + f + g + h) + 256 ^ 4 * (f + g + h) + 256 ^ 5 * (g + h) + 256 ^ 6 * h"
  have prod: "?x * 0x0101010101010101 = low + 2 ^ 56 * ?s + 2 ^ 56 * 256 * up" by (simp add: low_def up_def)
  have range: "0 \<le> low" "low < 2 ^ 56" "0 \<le> ?s" "?s < 256" using assms by (simp_all add: low_def)
  have top: "(2::int) ^ 64 = 2 ^ 56 * 256" by simp
  show ?thesis unfolding top by (rule digit_at [OF prod range])
qed

lemma gather4:
  fixes a b c d :: int
  assumes "0 \<le> a \<and> a \<le> 8" "0 \<le> b \<and> b \<le> 8" "0 \<le> c \<and> c \<le> 8" "0 \<le> d \<and> d \<le> 8"
  shows "(a + 256 * (b + 256 * (c + 256 * d))) * 0x01010101 mod 2 ^ 32 div 2 ^ 24 = a + b + c + d"
    (is "?x * _ mod _ div _ = ?s")
proof -
  define low where "low = a + 256 * (a + b) + 256 ^ 2 * (a + b + c)"
  define up where "up = (b + c + d) + 256 * (c + d) + 256 ^ 2 * d"
  have prod: "?x * 0x01010101 = low + 2 ^ 24 * ?s + 2 ^ 24 * 256 * up" by (simp add: low_def up_def)
  have range: "0 \<le> low" "low < 2 ^ 24" "0 \<le> ?s" "?s < 256" using assms by (simp_all add: low_def)
  have top: "(2::int) ^ 32 = 2 ^ 24 * 256" by simp
  show ?thesis unfolding top by (rule digit_at [OF prod range])
qed


lemma uint_shift: "uint (drop_bit n x) = uint x div 2 ^ n"
  by (subst unsigned_drop_bit_eq, subst take_bit_int_eq_self) (auto simp: unsigned_less drop_bit_eq_div)

lemma ones_range: "0 \<le> ones n x \<and> ones n x \<le> int n"
  using length_filter_le [of "bit x" "[0..<n]"] by (simp add: ones_def)

lemma swar_bound: "0 \<le> swar k x \<and> swar k x < 256 ^ k"
proof (induction k arbitrary: x)
  case (Suc k)
  show ?case using Suc.IH [of "x div 256"] byte_ones_range [of "x mod 256"] unfolding swar_rec power_Suc by linarith
qed (simp add: swar_def sums_def)

lemma zero_digits: "swar 0 x = 0" "ones 0 x = 0"
  by (simp_all add: swar_def sums_def ones_def)

lemma ones_byte: "ones 8 x = byte_ones (x mod 256)"
  using ones_rec [of 0 x] by (simp add: zero_digits)

lemma swar_digits8:
  obtains a b c d e f g h where
    "swar 8 x = a + 256 * (b + 256 * (c + 256 * (d + 256 * (e + 256 * (f + 256 * (g + 256 * h))))))"
    "ones 64 x = a + (b + (c + (d + (e + (f + (g + h))))))"
    "0 \<le> a \<and> a \<le> 8" "0 \<le> b \<and> b \<le> 8" "0 \<le> c \<and> c \<le> 8" "0 \<le> d \<and> d \<le> 8" "0 \<le> e \<and> e \<le> 8" "0 \<le> f \<and> f \<le> 8" "0 \<le> g \<and> g \<le> 8" "0 \<le> h \<and> h \<le> 8"
proof -
  have digits: "swar 8 x = swar (Suc (Suc (Suc (Suc (Suc (Suc (Suc (Suc 0)))))))) x" by (simp add: eval_nat_numeral)
  have width: "ones 64 x = ones (8 + (8 + (8 + (8 + (8 + (8 + (8 + 8))))))) x" by simp
  show thesis
    by (rule that [OF digits [unfolded swar_rec zero_digits mult_zero_right add_0_right]
      width [unfolded ones_rec ones_byte]]) (rule byte_ones_range)+
qed

lemma swar_digits4:
  obtains a b c d where
    "swar 4 x = a + 256 * (b + 256 * (c + 256 * d))"
    "ones 32 x = a + (b + (c + d))"
    "0 \<le> a \<and> a \<le> 8" "0 \<le> b \<and> b \<le> 8" "0 \<le> c \<and> c \<le> 8" "0 \<le> d \<and> d \<le> 8"
proof -
  have digits: "swar 4 x = swar (Suc (Suc (Suc (Suc 0)))) x" by (simp add: eval_nat_numeral)
  have width: "ones 32 x = ones (8 + (8 + (8 + 8))) x" by simp
  show thesis
    by (rule that [OF digits [unfolded swar_rec zero_digits mult_zero_right add_0_right]
      width [unfolded ones_rec ones_byte]]) (rule byte_ones_range)+
qed

lemma popcount64_ones: "uint (popcount64 v) = ones 64 (uint v)"
proof -
  let ?V = "uint v"
  define v1 where "v1 = v - (drop_bit 1 v AND 0x5555555555555555)"
  define v2 where "v2 = (v1 AND 0x3333333333333333) + (drop_bit 2 v1 AND 0x3333333333333333)"
  define v3 where "v3 = (v2 + drop_bit 4 v2) AND 0x0F0F0F0F0F0F0F0F"
  have mod_id: "take_bit 64 x = x" if "0 \<le> x \<and> x < 256 ^ 8" for x :: int
    using that by (simp add: take_bit_int_eq_self_iff)
  have masks: "bytes_of 0x55 8 = 0x5555555555555555" "bytes_of 0x33 8 = 0x3333333333333333"
    "bytes_of 0x0F 8 = 0x0F0F0F0F0F0F0F0F" by (simp_all add: eval_nat_numeral)
  have "uint v1 = take_bit 64 (pairs 8 ?V)"
    unfolding v1_def pairs_def masks uint_word_ariths unsigned_and_eq uint_shift by (simp add: take_bit_eq_mod)
  then have v1: "uint v1 = pairs 8 ?V"
    using mod_id [OF pairs_bound [of ?V 8]] unsigned_less [of v, where ?'a = int] by simp
  have "uint v2 = take_bit 64 (nibbles 8 (uint v1))"
    unfolding v2_def nibbles_def masks uint_word_ariths unsigned_and_eq uint_shift by (simp add: take_bit_eq_mod)
  then have v2: "uint v2 = nibbles 8 (pairs 8 ?V)"
    using mod_id [OF nibbles_bound] by (simp add: v1)
  have "uint v3 = take_bit 64 (uint v2 + uint v2 div 16) AND take_bit 64 0x0F0F0F0F0F0F0F0F"
    unfolding v3_def uint_word_ariths unsigned_and_eq uint_shift by (simp add: take_bit_eq_mod)
  also have "\<dots> = take_bit 64 (sums 8 (uint v2))"
    unfolding sums_def masks by (simp only: take_bit_and)
  also have "\<dots> = swar 8 ?V"
    unfolding v2 swar_def [symmetric] by (rule mod_id) (rule swar_bound)
  finally have v3: "uint v3 = swar 8 ?V" .
  have "uint (drop_bit 56 (v3 * 0x0101010101010101)) = swar 8 ?V * 0x0101010101010101 mod 2 ^ 64 div 2 ^ 56"
    unfolding uint_shift uint_word_ariths v3 by simp
  also have "\<dots> = ones 64 ?V"
    by (rule swar_digits8 [of ?V]) (simp only: gather8 add.assoc)
  finally have "uint (drop_bit 56 (v3 * 0x0101010101010101)) = ones 64 ?V" .
  moreover have "take_bit 32 (ones 64 ?V) = ones 64 ?V"
    using ones_range [of 64 ?V] by (simp add: take_bit_int_eq_self_iff)
  ultimately show ?thesis
    unfolding popcount64_def Let_def v1_def [symmetric] v2_def [symmetric] v3_def [symmetric]
    by (simp add: unsigned_ucast_eq)
qed


lemma popcount32_ones: "uint (popcount32 v) = ones 32 (uint v)"
proof -
  let ?V = "uint v"
  define v1 where "v1 = v - (drop_bit 1 v AND 0x55555555)"
  define v2 where "v2 = (v1 AND 0x33333333) + (drop_bit 2 v1 AND 0x33333333)"
  define v3 where "v3 = (v2 + drop_bit 4 v2) AND 0x0F0F0F0F"
  have mod_id: "take_bit 32 x = x" if "0 \<le> x \<and> x < 256 ^ 4" for x :: int
    using that by (simp add: take_bit_int_eq_self_iff)
  have masks: "bytes_of 0x55 4 = 0x55555555" "bytes_of 0x33 4 = 0x33333333"
    "bytes_of 0x0F 4 = 0x0F0F0F0F" by (simp_all add: eval_nat_numeral)
  have "uint v1 = take_bit 32 (pairs 4 ?V)"
    unfolding v1_def pairs_def masks uint_word_ariths unsigned_and_eq uint_shift by (simp add: take_bit_eq_mod)
  then have v1: "uint v1 = pairs 4 ?V"
    using mod_id [OF pairs_bound [of ?V 4]] unsigned_less [of v, where ?'a = int] by simp
  have "uint v2 = take_bit 32 (nibbles 4 (uint v1))"
    unfolding v2_def nibbles_def masks uint_word_ariths unsigned_and_eq uint_shift by (simp add: take_bit_eq_mod)
  then have v2: "uint v2 = nibbles 4 (pairs 4 ?V)"
    using mod_id [OF nibbles_bound] by (simp add: v1)
  have "uint v3 = take_bit 32 (uint v2 + uint v2 div 16) AND take_bit 32 0x0F0F0F0F"
    unfolding v3_def uint_word_ariths unsigned_and_eq uint_shift by (simp add: take_bit_eq_mod)
  also have "\<dots> = take_bit 32 (sums 4 (uint v2))"
    unfolding sums_def masks by (simp only: take_bit_and)
  also have "\<dots> = swar 4 ?V"
    unfolding v2 swar_def [symmetric] by (rule mod_id) (rule swar_bound)
  finally have v3: "uint v3 = swar 4 ?V" .
  have "uint (drop_bit 24 (v3 * 0x01010101)) = swar 4 ?V * 0x01010101 mod 2 ^ 32 div 2 ^ 24"
    unfolding uint_shift uint_word_ariths v3 by simp
  also have "\<dots> = ones 32 ?V"
    by (rule swar_digits4 [of ?V]) (simp only: gather4 add.assoc)
  finally have "uint (drop_bit 24 (v3 * 0x01010101)) = ones 32 ?V" .
  then show ?thesis
    unfolding popcount32_def Let_def v1_def [symmetric] v2_def [symmetric] v3_def [symmetric] .
qed

lemma ones_word: "ones LENGTH('a) (uint v) = int (length (filter (bit v) [0..<LENGTH('a)]))" for v :: "'a::len word"
  unfolding ones_def by (auto simp: bit_uint_iff intro!: arg_cong [where f = length] filter_cong)

lemma count_card: "length (filter (bit v) [0..<LENGTH('a)]) = card {i. bit v i}" for v :: "'a::len word"
proof -
  have "set (filter (bit v) [0..<LENGTH('a)]) = {i. bit v i}" by (auto dest: bit_imp_le_length)
  then show ?thesis by (metis distinct_card distinct_filter distinct_upt)
qed

lemma popcount_card: "unat (popcount32 v) = card {i. bit v i}" "unat (popcount64 w) = card {i. bit w i}"
  using popcount32_ones [of v] popcount64_ones [of w] ones_word [of v] ones_word [of w] count_card [of v] count_card [of w]
  by (simp_all add: unat_eq_nat_uint)

lemma builtin_parity_card: "builtin_parity v = card {i. bit v i} mod 2"
  unfolding builtin_parity_def count_card ..

lemma low_bit_parity: "x AND 1 = of_nat (unat x mod 2)" for x :: uint32_t
  by (simp add: and_one_eq word_arith_nat_mod)

section \<open>What the functions compute\<close>

text \<open>
  The portable loops of \<open>ctz32\<close>, \<open>ctz64\<close>, \<open>clz32\<close>, \<open>clz64\<close> and the portable bodies of
  \<open>ffs32\<close> and \<open>ffs64\<close> end on every value, zero included, and return exactly what the
  body that uses the compiler's builtin returns.
\<close>

lemma portable_scans_return:
  "ctz32 False v = ctz32 True v \<and> ctz64 False w = ctz64 True w
   \<and> clz32 False v = clz32 True v \<and> clz64 False w = clz64 True w
   \<and> ffs32 False has_ctz v = ffs32 True has_ctz v \<and> ffs64 False has_ctz w = ffs64 True has_ctz w
   \<and> ctz64 False w \<noteq> None \<and> clz64 False w \<noteq> None \<and> ctz32 False v \<noteq> None \<and> clz32 False v \<noteq> None"
  by (cases has_ctz) (simp_all add: portable_scans ffs32_def ffs64_def, simp_all add: ctz32_def ctz64_def clz32_def clz64_def)

text \<open>
  \<open>popcount32\<close> and \<open>popcount64\<close> return the number of set bits of their argument; the
  subtractions, additions and the multiplication of the parallel sums never lose a carry, and the
  portable parity is the builtin one.
\<close>

lemma popcount_counts_bits:
  "unat (popcount32 v) = card {i. bit v i} \<and> unat (popcount64 w) = card {i. bit w i}
   \<and> parity32 False v = parity32 True v \<and> parity64 False w = parity64 True w"
  by (simp add: popcount_card parity32_def parity64_def builtin_parity_card low_bit_parity)

end
