(* ===== verification/Crc32c.thy ===== *)
theory Crc32c
  imports Bitops_Correct
begin

text \<open>
  \<^verbatim>\<open>src/libs/util/crc32c.c\<close>: the CRC32C checksum. The processor's \<^verbatim>\<open>crc32\<close> instruction is
  defined by its architectural description, a polynomial division over bit-reflected operands, and
  the update function by its loops over the aligned words of the data. The result equals the
  bit-by-bit loop, whatever instructions the processor and the compiler have.
\<close>

section \<open>The functions\<close>

definition crc32c_bit :: "uint32_t \<Rightarrow> uint32_t" where
  "crc32c_bit crc = drop_bit 1 crc XOR (0x82F63B78 AND - (crc AND 1))"

definition crc32c_software_byte :: "uint32_t \<Rightarrow> uint8_t \<Rightarrow> uint32_t" where
  "crc32c_software_byte crc v = (crc32c_bit ^^ 8) (crc XOR ucast v)"

text \<open>
  The instruction with an \<open>n\<close>-bit operand: reflect both operands, align them, divide by the
  polynomial with carry-less subtraction, reflect the remainder.
\<close>

definition bit_reflect :: "nat \<Rightarrow> int \<Rightarrow> int" where
  "bit_reflect n x = horner_sum of_bool 2 (map (bit x) (rev [0..<n]))"

primrec mod2 :: "nat \<Rightarrow> int \<Rightarrow> int" where
  "mod2 0 t = t"
| "mod2 (Suc n) t = mod2 n (if bit t (32 + n) then t XOR push_bit n 0x11EDC6F41 else t)"

definition crc32_insn :: "nat \<Rightarrow> uint32_t \<Rightarrow> int \<Rightarrow> uint32_t" where
  "crc32_insn n crc src =
     word_of_int (bit_reflect 32 (mod2 n (push_bit 32 (bit_reflect n src) XOR push_bit n (bit_reflect 32 (uint crc)))))"

definition crc32c_hw_byte :: "bool \<Rightarrow> uint32_t \<Rightarrow> uint8_t \<Rightarrow> uint32_t" where
  "crc32c_hw_byte has_builtin crc v =
     (if has_builtin then crc32_insn 8 crc (uint v) else crc32c_software_byte crc v)"

definition crc32c_hw_word :: "bool \<Rightarrow> uint32_t \<Rightarrow> uint16_t \<Rightarrow> uint32_t" where
  "crc32c_hw_word has_builtin crc v =
     (if has_builtin then crc32_insn 16 crc (uint v)
      else let crc = crc32c_software_byte crc (ucast v) in crc32c_software_byte crc (ucast (drop_bit 8 v)))"

definition crc32c_hw_dword :: "bool \<Rightarrow> uint32_t \<Rightarrow> uint32_t \<Rightarrow> uint32_t" where
  "crc32c_hw_dword has_builtin crc v =
     (if has_builtin then crc32_insn 32 crc (uint v)
      else foldl (\<lambda>crc shift. crc32c_software_byte crc (ucast (drop_bit shift v))) crc [0, 8, 16, 24])"

definition crc32c_hw_qword :: "bool \<Rightarrow> uint32_t \<Rightarrow> uint64_t \<Rightarrow> uint32_t" where
  "crc32c_hw_qword has_builtin crc v =
     (if has_builtin then crc32_insn 64 crc (uint v)
      else foldl (\<lambda>crc shift. crc32c_software_byte crc (ucast (drop_bit shift v))) crc [0, 8, 16, 24, 32, 40, 48, 56])"

definition crc32c_software :: "uint32_t \<Rightarrow> bytes \<Rightarrow> uint32_t" where
  "crc32c_software crc data = foldl crc32c_software_byte crc data"

text \<open>The little-endian word that \<^verbatim>\<open>memcpy\<close> copies from the bytes at \<^verbatim>\<open>p\<close>.\<close>

definition chunk :: "bytes \<Rightarrow> 'a::len word" where
  "chunk bs = word_of_int (horner_sum uint 256 bs)"

fun align_loop :: "bool \<Rightarrow> uint32_t \<Rightarrow> uint64_t \<Rightarrow> bytes \<Rightarrow> uint32_t \<times> bytes" where
  "align_loop has_builtin crc p [] = (crc, [])"
| "align_loop has_builtin crc p (b # bs) =
     (if p AND 7 \<noteq> 0 then align_loop has_builtin (crc32c_hw_byte has_builtin crc b) (p + 1) bs else (crc, b # bs))"

function qword_loop :: "bool \<Rightarrow> uint32_t \<Rightarrow> bytes \<Rightarrow> uint32_t \<times> bytes" where
  "qword_loop has_builtin crc bs =
     (if length bs \<ge> 8 then qword_loop has_builtin (crc32c_hw_qword has_builtin crc (chunk (take 8 bs))) (drop 8 bs)
      else (crc, bs))"
  by pat_completeness auto
termination by (relation "measure (\<lambda>(_, _, bs). length bs)") auto

function dword_loop :: "bool \<Rightarrow> uint32_t \<Rightarrow> bytes \<Rightarrow> uint32_t \<times> bytes" where
  "dword_loop has_builtin crc bs =
     (if length bs \<ge> 4 then dword_loop has_builtin (crc32c_hw_dword has_builtin crc (chunk (take 4 bs))) (drop 4 bs)
      else (crc, bs))"
  by pat_completeness auto
termination by (relation "measure (\<lambda>(_, _, bs). length bs)") auto

text \<open>The static variables of \<open>crc32c_update\<close>, zero at boot.\<close>

record crc32c_state =
  hw_checked :: bool
  hw_ok :: bool

definition crc32c_boot :: crc32c_state where
  "crc32c_boot = \<lparr>hw_checked = False, hw_ok = False\<rparr>"

text \<open>
  \<open>b1\<close>, \<open>b2\<close>, \<open>b4\<close>, \<open>b8\<close> tell which builtins the compiler has; \<open>sse\<close> and
  \<open>sse42\<close> are what \<^verbatim>\<open>kernel_sse_available\<close> and \<^verbatim>\<open>cpu_support_sse42\<close> report.
\<close>

record crc32c_env =
  b1 :: bool
  b2 :: bool
  b4 :: bool
  b8 :: bool
  sse :: bool
  sse42 :: bool

definition crc32c_update ::
  "crc32c_env \<Rightarrow> crc32c_state \<Rightarrow> uint32_t \<Rightarrow> uint64_t \<Rightarrow> bytes \<Rightarrow> crc32c_state \<times> uint32_t" where
  "crc32c_update env st crc p data =
     (let st = (if hw_checked st then st else \<lparr>hw_checked = True, hw_ok = sse env \<and> sse42 env\<rparr>) in
      if hw_ok st then
        let (crc, bs) = align_loop (b1 env) crc p data;
            (crc, bs) = qword_loop (b8 env) crc bs;
            (crc, bs) = dword_loop (b4 env) crc bs;
            (crc, bs) = (if length bs \<ge> 2 then (crc32c_hw_word (b2 env) crc (chunk (take 2 bs)), drop 2 bs) else (crc, bs))
        in (st, foldl (crc32c_hw_byte (b1 env)) crc bs)
      else (st, crc32c_software crc data))"

declare qword_loop.simps [simp del] dword_loop.simps [simp del]

section \<open>Steps on integers\<close>

definition crc_step :: "int \<Rightarrow> int" where
  "crc_step u = u div 2 XOR (if odd u then 0x82F63B78 else 0)"

lemma crc_step_xor: "crc_step (x XOR 2 * y) = crc_step x XOR y"
proof -
  have "(x XOR 2 * y) div 2 = x div 2 XOR y"
    by (rule bit_eqI) (simp add: bit_simps flip: bit_Suc)
  moreover have "even (x XOR 2 * y) = even x" by (simp add: even_xor_iff)
  ultimately show ?thesis by (simp add: crc_step_def ac_simps)
qed

lemma crc_steps_xor: "(crc_step ^^ n) (x XOR 2 ^ n * y) = (crc_step ^^ n) x XOR y"
proof (induction n arbitrary: x y)
  case (Suc n)
  have "(crc_step ^^ Suc n) (x XOR 2 ^ Suc n * y) = (crc_step ^^ n) (crc_step (x XOR 2 * (2 ^ n * y)))"
    by (simp add: funpow_Suc_right mult.assoc del: funpow.simps)
  then show ?case by (simp add: crc_step_xor Suc.IH funpow_Suc_right del: funpow.simps)
qed simp

lemma uint_crc32c_bit: "uint (crc32c_bit c) = crc_step (uint c)"
proof -
  have "uint (drop_bit 1 c) = uint c div 2" using uint_shift [of 1 c] by simp
  moreover have "uint (0x82F63B78 AND - (c AND 1)) = (if odd (uint c) then 0x82F63B78 else 0)"
    using bit_uint_iff [of c 0] by (cases "even c") (simp_all add: bit_0 and_one_eq even_iff_mod_2_eq_zero odd_iff_mod_2_eq_one)
  ultimately show ?thesis
    unfolding crc32c_bit_def crc_step_def unsigned_xor_eq by (simp only:)
qed

lemma uint_crc32c_bits: "uint ((crc32c_bit ^^ n) c) = (crc_step ^^ n) (uint c)"
  by (induction n) (simp_all add: uint_crc32c_bit)

lemma uint_software_byte: "uint (crc32c_software_byte c v) = (crc_step ^^ 8) (uint c XOR uint v)"
proof -
  have "uint (ucast v :: uint32_t) = uint v"
    by (rule bit_eqI) (auto simp: bit_uint_iff bit_ucast_iff dest: bit_imp_le_length)
  then show ?thesis unfolding crc32c_software_byte_def uint_crc32c_bits unsigned_xor_eq by (simp only:)
qed

lemma xor_low_byte:
  assumes "0 \<le> a" "a < 2 ^ n"
  shows "a + 2 ^ n * b = a XOR 2 ^ n * (b::int)"
proof -
  have "take_bit n a = a" using assms by (simp add: take_bit_int_eq_self)
  moreover have "take_bit n a + push_bit n b = take_bit n a XOR push_bit n b"
    by (subst disjunctive_add) (auto simp: bit_simps intro!: bit_eqI)
  ultimately show ?thesis by (simp add: push_bit_eq_mult mult.commute)
qed

lemma software_bytes:
  "uint (crc32c_software c bs) = (crc_step ^^ (8 * length bs)) (uint c XOR horner_sum uint 256 bs)"
proof (induction bs arbitrary: c)
  case Nil
  then show ?case by (simp add: crc32c_software_def)
next
  case (Cons b bs)
  let ?h = "horner_sum uint 256 bs"
  have "horner_sum uint 256 (b # bs) = uint b XOR 2 ^ 8 * ?h"
    using xor_low_byte [of "uint b" 8 ?h] unsigned_less [of b, where ?'a = int] by simp
  moreover have "8 * length (b # bs) = 8 * length bs + 8" by simp
  ultimately have "(crc_step ^^ (8 * length (b # bs))) (uint c XOR horner_sum uint 256 (b # bs))
      = (crc_step ^^ (8 * length bs)) ((crc_step ^^ 8) ((uint c XOR uint b) XOR 2 ^ 8 * ?h))"
    by (simp only: funpow_add o_apply xor.assoc)
  also have "\<dots> = (crc_step ^^ (8 * length bs)) (uint (crc32c_software_byte c b) XOR ?h)"
    by (simp only: crc_steps_xor uint_software_byte)
  also have "\<dots> = uint (crc32c_software (crc32c_software_byte c b) bs)"
    by (simp only: Cons.IH)
  finally show ?case by (simp add: crc32c_software_def)
qed

section \<open>The instruction\<close>

lemma bit_bit_reflect: "bit (bit_reflect n x) j \<longleftrightarrow> j < n \<and> bit x (n - 1 - j)"
  by (auto simp: bit_reflect_def bit_horner_sum_bit_iff rev_nth)

lemma poly_bits: "\<forall>j \<in> set [0..<32]. bit (0x11EDC6F41 :: int) (31 - j) = bit (0x82F63B78 :: int) j"
  by code_simp

lemma poly_high: "32 \<le> j \<Longrightarrow> \<not> bit (0x82F63B78 :: int) j"
proof -
  assume "32 \<le> j"
  moreover have "take_bit 32 (0x82F63B78 :: int) = 0x82F63B78" by simp
  ultimately show ?thesis by (metis bit_take_bit_iff not_le)
qed

lemma mod2_step:
  "bit_reflect (32 + n) (if bit t (32 + n) then t XOR push_bit n 0x11EDC6F41 else t) = crc_step (bit_reflect (32 + Suc n) t)"
proof (rule bit_eqI)
  fix j
  let ?u = "bit_reflect (32 + Suc n) t"
  have low: "odd ?u = bit t (32 + n)" using bit_bit_reflect [of "32 + Suc n" t 0] by (simp add: bit_0)
  have half: "bit (?u div 2) j \<longleftrightarrow> j < 32 + n \<and> bit t (31 + n - j)"
    using bit_bit_reflect [of "32 + Suc n" t "Suc j"] by (simp add: bit_Suc)
  have "bit (0x82F63B78 :: int) j \<longleftrightarrow> j < 32 \<and> bit (0x11EDC6F41 :: int) (31 - j)"
    using poly_bits poly_high [of j] by (cases "j < 32") auto
  moreover have "31 + n - j - n = 31 - j" by simp
  ultimately show "bit (bit_reflect (32 + n) (if bit t (32 + n) then t XOR push_bit n 0x11EDC6F41 else t)) j = bit (crc_step ?u) j"
    unfolding crc_step_def low bit_xor_iff half bit_bit_reflect
    by (auto simp: bit_xor_iff bit_push_bit_iff)
qed

lemma mod2_steps: "bit_reflect 32 (mod2 n t) = (crc_step ^^ n) (bit_reflect (32 + n) t)"
proof (induction n arbitrary: t)
  case (Suc n)
  show ?case by (simp only: mod2.simps Suc.IH mod2_step funpow_Suc_right o_apply)
qed simp

lemma aligned_reflect:
  assumes "take_bit n src = src" "take_bit 32 c = c"
  shows "bit_reflect (32 + n) (push_bit 32 (bit_reflect n src) XOR push_bit n (bit_reflect 32 c)) = c XOR src"
proof (rule bit_eqI)
  fix j
  have "bit src j \<Longrightarrow> j < n" "bit c j \<Longrightarrow> j < 32" using assms by (metis bit_take_bit_iff)+
  then show "bit (bit_reflect (32 + n) (push_bit 32 (bit_reflect n src) XOR push_bit n (bit_reflect 32 c))) j = bit (c XOR src) j"
    by (auto simp: bit_bit_reflect bit_xor_iff bit_push_bit_iff)
qed

lemma uint_crc32_insn:
  assumes "take_bit n src = src"
  shows "uint (crc32_insn n crc src) = (crc_step ^^ n) (uint crc XOR src)"
proof -
  have "take_bit 32 (uint crc) = uint crc" by (rule bit_eqI) (auto simp: bit_take_bit_iff bit_uint_iff)
  moreover have fits: "uint (word_of_int (bit_reflect 32 x) :: uint32_t) = bit_reflect 32 x" for x
    by (rule bit_eqI) (auto simp: unsigned_of_int bit_take_bit_iff bit_bit_reflect)
  ultimately show ?thesis
    unfolding crc32_insn_def fits using assms by (simp only: mod2_steps aligned_reflect)
qed

section \<open>Words and their bytes\<close>

lemma take_bit_byte: "take_bit (8 + n) x = take_bit 8 x + 256 * take_bit n (x div 256)" for x :: int
  using zmod_zmult2_eq [of "2 ^ n" x 256] by (simp add: take_bit_eq_mod power_add)

lemma word_byte_sum:
  "horner_sum uint 256 (map (\<lambda>i. ucast (drop_bit (8 * i) v) :: uint8_t) [k..<k + n]) = take_bit (8 * n) (uint v div 256 ^ k)"
proof (induction n arbitrary: k)
  case (Suc n)
  have "uint (ucast (drop_bit (8 * k) v) :: uint8_t) = take_bit 8 (uint v div 256 ^ k)"
    unfolding unsigned_ucast_eq uint_shift by (simp add: power_mult)
  moreover have "[k..<k + Suc n] = k # [Suc k..<Suc k + n]" by (simp add: upt_rec)
  moreover have "uint v div 256 ^ k div 256 = uint v div 256 ^ Suc k"
    by (simp add: mult.commute flip: zdiv_zmult2_eq)
  ultimately show ?case
    using take_bit_byte [of "8 * n" "uint v div 256 ^ k"] Suc.IH [of "Suc k"] by (simp only: list.map horner_sum_simps mult_Suc_right)
qed simp

lemma fallback_bytes:
  "uint (foldl (\<lambda>crc shift. crc32c_software_byte crc (ucast (drop_bit shift v))) crc (map ((*) 8) [0..<n]))
   = (crc_step ^^ (8 * n)) (uint crc XOR take_bit (8 * n) (uint v))"
proof -
  have "foldl (\<lambda>crc shift. crc32c_software_byte crc (ucast (drop_bit shift v))) crc (map ((*) 8) [0..<n])
      = crc32c_software crc (map (\<lambda>i. ucast (drop_bit (8 * i) v)) [0..<n])"
    unfolding crc32c_software_def by (simp add: foldl_map)
  then show ?thesis using word_byte_sum [where v = v and k = 0 and n = n] by (simp add: software_bytes)
qed

lemma take_bit_uint: "LENGTH('a) \<le> n \<Longrightarrow> take_bit n (uint v) = uint v" for v :: "'a::len word"
  by (rule bit_eqI) (auto simp: bit_take_bit_iff bit_uint_iff)

lemma hw_steps:
  "uint (crc32c_hw_byte has_builtin crc v1) = (crc_step ^^ 8) (uint crc XOR uint v1)"
  "uint (crc32c_hw_word has_builtin crc v2) = (crc_step ^^ 16) (uint crc XOR uint v2)"
  "uint (crc32c_hw_dword has_builtin crc v4) = (crc_step ^^ 32) (uint crc XOR uint v4)"
  "uint (crc32c_hw_qword has_builtin crc v8) = (crc_step ^^ 64) (uint crc XOR uint v8)"
proof -
  show "uint (crc32c_hw_byte has_builtin crc v1) = (crc_step ^^ 8) (uint crc XOR uint v1)"
    using uint_crc32_insn [of 8 "uint v1" crc] take_bit_uint [of 8 v1]
    by (simp add: crc32c_hw_byte_def uint_software_byte)
  have shifts: "[0, 8] = map ((*) 8) [0..<2]" "[0, 8, 16, 24] = map ((*) 8) [0..<4]"
    "[0, 8, 16, 24, 32, 40, 48, 56] = map ((*) 8) [0..<8]" by (simp_all add: upt_rec)
  show "uint (crc32c_hw_word has_builtin crc v2) = (crc_step ^^ 16) (uint crc XOR uint v2)"
    using uint_crc32_insn [of 16 "uint v2" crc] take_bit_uint [of 16 v2] fallback_bytes [of v2 crc 2, folded shifts]
    by (simp add: crc32c_hw_word_def)
  show "uint (crc32c_hw_dword has_builtin crc v4) = (crc_step ^^ 32) (uint crc XOR uint v4)"
    using uint_crc32_insn [of 32 "uint v4" crc] take_bit_uint [of 32 v4] fallback_bytes [of v4 crc 4, folded shifts]
    by (simp add: crc32c_hw_dword_def)
  show "uint (crc32c_hw_qword has_builtin crc v8) = (crc_step ^^ 64) (uint crc XOR uint v8)"
    using uint_crc32_insn [of 64 "uint v8" crc] take_bit_uint [of 64 v8] fallback_bytes [of v8 crc 8, folded shifts]
    by (simp add: crc32c_hw_qword_def)
qed

lemma horner_bytes_range: "0 \<le> horner_sum uint 256 bs \<and> horner_sum uint 256 bs < 2 ^ (8 * length bs)" for bs :: bytes
proof (induction bs)
  case (Cons b bs)
  have "2 ^ (8 * length (b # bs)) = 256 * (2 :: int) ^ (8 * length bs)" by (simp add: power_add)
  then show ?case
    using Cons.IH unsigned_less [of b, where ?'a = int] unsigned_greater_eq [of b, where ?'a = int]
    unfolding horner_sum_simps by auto
qed simp

lemma uint_chunk: "8 * length bs = LENGTH('a) \<Longrightarrow> uint (chunk bs :: 'a::len word) = horner_sum uint 256 bs"
  using horner_bytes_range [of bs] by (simp add: chunk_def unsigned_of_int take_bit_int_eq_self)

lemma hw_chunks:
  "crc32c_hw_byte has_builtin crc b = crc32c_software crc [b]"
  "length bs = 2 \<Longrightarrow> crc32c_hw_word has_builtin crc (chunk bs) = crc32c_software crc bs"
  "length bs = 4 \<Longrightarrow> crc32c_hw_dword has_builtin crc (chunk bs) = crc32c_software crc bs"
  "length bs = 8 \<Longrightarrow> crc32c_hw_qword has_builtin crc (chunk bs) = crc32c_software crc bs"
  by (rule unsigned_word_eqI [where ?'a = int], simp add: hw_steps software_bytes uint_chunk)+

section \<open>The update\<close>

lemma software_append: "crc32c_software crc (xs @ ys) = crc32c_software (crc32c_software crc xs) ys"
  by (simp add: crc32c_software_def)

lemma align_loop_spec: "align_loop h crc p bs = (c, rest) \<Longrightarrow> crc32c_software crc bs = crc32c_software c rest"
  by (induction h crc p bs rule: align_loop.induct)
     (auto simp: hw_chunks crc32c_software_def split: if_splits)

lemma qword_loop_spec: "qword_loop h crc bs = (c, rest) \<Longrightarrow> crc32c_software crc bs = crc32c_software c rest"
proof (induction h crc bs rule: qword_loop.induct)
  case (1 h crc bs)
  then show ?case
    using software_append [of crc "take 8 bs" "drop 8 bs"]
    by (subst (asm) (2) qword_loop.simps) (auto simp: hw_chunks split: if_splits)
qed

lemma dword_loop_spec: "dword_loop h crc bs = (c, rest) \<Longrightarrow> crc32c_software crc bs = crc32c_software c rest"
proof (induction h crc bs rule: dword_loop.induct)
  case (1 h crc bs)
  then show ?case
    using software_append [of crc "take 4 bs" "drop 4 bs"]
    by (subst (asm) (2) dword_loop.simps) (auto simp: hw_chunks split: if_splits)
qed

lemma byte_loop_spec: "foldl (crc32c_hw_byte h) crc bs = crc32c_software crc bs"
proof -
  have "crc32c_hw_byte h = crc32c_software_byte" by (intro ext) (simp add: hw_chunks(1) crc32c_software_def)
  then show ?thesis by (simp add: crc32c_software_def)
qed

lemma update_eq_software: "snd (crc32c_update env st crc p data) = crc32c_software crc data"
proof -
  obtain c1 r1 where a: "align_loop (b1 env) crc p data = (c1, r1)" by fastforce
  obtain c2 r2 where q: "qword_loop (b8 env) c1 r1 = (c2, r2)" by fastforce
  obtain c3 r3 where d: "dword_loop (b4 env) c2 r2 = (c3, r3)" by fastforce
  have "crc32c_software crc data = crc32c_software c3 r3"
    using align_loop_spec [OF a] qword_loop_spec [OF q] dword_loop_spec [OF d] by simp
  moreover have "crc32c_software (crc32c_software c3 (take 2 r3)) (drop 2 r3) = crc32c_software c3 r3"
    by (simp flip: software_append)
  ultimately show ?thesis
    by (simp add: crc32c_update_def Let_def a q d byte_loop_spec hw_chunks(2))
qed

text \<open>
  C35: Whatever instructions the processor and the builtins the compiler has, whatever the address
  and the length of the data, \<open>crc32c_update\<close> returns what the bit-by-bit software loop
  returns; in particular the checksum of a block does not depend on how it is cut into updates.
  The hardware path relies on the architectural definition of the \<^verbatim>\<open>crc32\<close> instruction.
\<close>

theorem crc32c_update_exact:
  "snd (crc32c_update env st crc p data) = crc32c_software crc data
   \<and> snd (crc32c_update env' st' (snd (crc32c_update env st crc p xs)) p' ys) = snd (crc32c_update env st crc p (xs @ ys))"
  by (simp add: update_eq_software software_append)

end
