(* ===== verification/Bitmap.thy ===== *)
theory Bitmap
  imports Membytes
begin

text \<open>
  \<^verbatim>\<open>src/mem/bitmap.c\<close>: a bitmap over a byte buffer. An access outside the buffer is
  \<open>None\<close>; the value argument is the C integer.
\<close>

section \<open>The functions\<close>

record bitmap =
  bm_buffer :: bytes
  bm_length :: nat

definition bitmap_init :: "bytes \<Rightarrow> nat \<Rightarrow> bitmap option" where
  "bitmap_init buf n =
     do { b \<leftarrow> memset buf 0 0 n; Some \<lparr>bm_buffer = b, bm_length = n * 8 mod 2 ^ 64\<rparr> }"

definition bitmap_get :: "bitmap \<Rightarrow> nat \<Rightarrow> int option" where
  "bitmap_get bm i =
     (if i div 8 < length (bm_buffer bm) then Some (uint (drop_bit (i mod 8) (bm_buffer bm ! (i div 8)) AND 1)) else None)"

definition bitmap_set :: "bitmap \<Rightarrow> nat \<Rightarrow> int \<Rightarrow> bitmap option" where
  "bitmap_set bm i v =
     (let w = i div 8; b = i mod 8 in
      if w < length (bm_buffer bm) then
        Some (bm\<lparr>bm_buffer := (bm_buffer bm)[w :=
          (if v \<noteq> 0 then bm_buffer bm ! w OR push_bit b 1 else bm_buffer bm ! w AND NOT (push_bit b 1))]\<rparr>)
      else None)"

definition fill_val :: "int \<Rightarrow> uint8_t" where
  "fill_val v = (if v \<noteq> 0 then 0xff else 0x00)"

definition bitmap_fill :: "bitmap \<Rightarrow> int \<Rightarrow> bitmap option" where
  "bitmap_fill bm v =
     do { b \<leftarrow> memset (bm_buffer bm) 0 (ucast (fill_val v)) ((bm_length bm + 7) mod 2 ^ 64 div 8);
          Some (bm\<lparr>bm_buffer := b\<rparr>) }"

text \<open>The loop up to the first byte boundary, the loop over whole bytes and the loop over the rest.\<close>

function head_loop :: "bitmap \<Rightarrow> nat \<Rightarrow> nat \<Rightarrow> int \<Rightarrow> (bitmap \<times> nat) option" where
  "head_loop bm s e v =
     (if s < e \<and> s mod 8 \<noteq> 0 then do { bm \<leftarrow> bitmap_set bm s v; head_loop bm (s + 1) e v } else Some (bm, s))"
  by pat_completeness auto
termination by (relation "measure (\<lambda>(_, s, e, _). e - s)") auto

function fill_loop :: "bitmap \<Rightarrow> nat \<Rightarrow> nat \<Rightarrow> uint8_t \<Rightarrow> bitmap option" where
  "fill_loop bm i n f =
     (if i < n then
        if i < length (bm_buffer bm) then fill_loop (bm\<lparr>bm_buffer := (bm_buffer bm)[i := f]\<rparr>) (i + 1) n f else None
      else Some bm)"
  by pat_completeness auto
termination by (relation "measure (\<lambda>(_, i, n, _). n - i)") auto

function tail_loop :: "bitmap \<Rightarrow> nat \<Rightarrow> nat \<Rightarrow> int \<Rightarrow> bitmap option" where
  "tail_loop bm s e v = (if s < e then do { bm \<leftarrow> bitmap_set bm s v; tail_loop bm (s + 1) e v } else Some bm)"
  by pat_completeness auto
termination by (relation "measure (\<lambda>(_, s, e, _). e - s)") auto

definition bitmap_set_range :: "bitmap \<Rightarrow> nat \<Rightarrow> nat \<Rightarrow> int \<Rightarrow> bitmap option" where
  "bitmap_set_range bm s e v =
     (if s \<ge> e \<or> s \<ge> bm_length bm then Some bm
      else let e = (if e > bm_length bm then bm_length bm else e) in
        do { (bm, s) \<leftarrow> head_loop bm s e v;
             bm \<leftarrow> fill_loop bm (s div 8) (e div 8) (fill_val v);
             tail_loop bm (e div 8 * 8) e v })"

text \<open>
  The search. \<open>Inl\<close> is the returned index, \<open>Inr\<close> the run length and its start when
  the loop goes on; the final result \<open>Some None\<close> is \<^verbatim>\<open>(size_t)-1\<close>.
\<close>

fun find_bits :: "uint8_t \<Rightarrow> nat \<Rightarrow> nat \<Rightarrow> int \<Rightarrow> nat list \<Rightarrow> nat \<times> nat \<Rightarrow> nat + nat \<times> nat" where
  "find_bits byte byte_idx len v [] (n, s) = Inr (n, s)"
| "find_bits byte byte_idx len v (k # ks) (n, s) =
     (if uint (drop_bit k byte AND 1) = v then
        let s = (if n = 0 then byte_idx * 8 + k else s); n = n + 1 in
        if n = len then Inl s else find_bits byte byte_idx len v ks (n, s)
      else find_bits byte byte_idx len v ks (0, s))"

definition find_byte :: "uint8_t \<Rightarrow> nat \<Rightarrow> nat \<Rightarrow> int \<Rightarrow> nat \<times> nat \<Rightarrow> nat + nat \<times> nat" where
  "find_byte byte byte_idx len v ns =
     (let (n, s) = ns; byte_match = fill_val v in
      if byte = (if byte_match = 0 then 1 else 0) then Inr (0, s)
      else if byte = byte_match then
        if len < 8 then Inl (byte_idx * 8)
        else let s = (if n = 0 then byte_idx * 8 else s); n = n + 8 in
          if n \<ge> len then Inl s else Inr (n, s)
      else find_bits byte byte_idx len v [0..<8] (n, s))"

function find_loop :: "bitmap \<Rightarrow> nat \<Rightarrow> int \<Rightarrow> nat \<Rightarrow> nat \<times> nat \<Rightarrow> nat option option" where
  "find_loop bm len v byte_idx ns =
     (if byte_idx < bm_length bm div 8 then
        if byte_idx < length (bm_buffer bm) then
          case find_byte (bm_buffer bm ! byte_idx) byte_idx len v ns of
            Inl i \<Rightarrow> Some (Some i)
          | Inr ns \<Rightarrow> find_loop bm len v (byte_idx + 1) ns
        else None
      else Some None)"
  by pat_completeness auto
termination by (relation "measure (\<lambda>(bm, _, _, i, _). bm_length bm - i)") auto

definition bitmap_find_range :: "bitmap \<Rightarrow> nat \<Rightarrow> int \<Rightarrow> nat option option" where
  "bitmap_find_range bm len v = find_loop bm len v 0 (0, 0)"

function all_loop :: "bitmap \<Rightarrow> nat \<Rightarrow> nat \<Rightarrow> int \<Rightarrow> int option" where
  "all_loop bm i e v =
     (if i < e then do { b \<leftarrow> bitmap_get bm i; if b \<noteq> v then Some 0 else all_loop bm (i + 1) e v } else Some 1)"
  by pat_completeness auto
termination by (relation "measure (\<lambda>(_, i, e, _). e - i)") auto

definition bitmap_range_all :: "bitmap \<Rightarrow> nat \<Rightarrow> nat \<Rightarrow> int \<Rightarrow> int option" where
  "bitmap_range_all bm s e v =
     (if s \<ge> bm_length bm then Some 0
      else let e = (if e > bm_length bm then bm_length bm else e) in all_loop bm s e v)"

declare head_loop.simps [simp del] fill_loop.simps [simp del] tail_loop.simps [simp del]
  find_loop.simps [simp del] all_loop.simps [simp del]

section \<open>The bits of a bitmap\<close>

definition bm_bit :: "bitmap \<Rightarrow> nat \<Rightarrow> bool" where
  "bm_bit bm i = bit (bm_buffer bm ! (i div 8)) (i mod 8)"

definition bm_cap :: "bitmap \<Rightarrow> nat" where
  "bm_cap bm = 8 * length (bm_buffer bm)"

text \<open>\<open>painted bm bm' S b\<close>: only the bits in \<open>S\<close> changed, and they are \<open>b\<close> now.\<close>

definition painted :: "bitmap \<Rightarrow> bitmap \<Rightarrow> nat set \<Rightarrow> bool \<Rightarrow> bool" where
  "painted bm bm' S b \<longleftrightarrow> bm_length bm' = bm_length bm \<and> length (bm_buffer bm') = length (bm_buffer bm)
     \<and> (\<forall>i < bm_cap bm. bm_bit bm' i = (if i \<in> S then b else bm_bit bm i))"

lemma painted_refl: "painted bm bm {} b"
  by (simp add: painted_def)

lemma painted_trans: "painted bm bm' S b \<Longrightarrow> painted bm' bm'' T b \<Longrightarrow> painted bm bm'' (S \<union> T) b"
  by (simp add: painted_def bm_cap_def)

lemma low_bit: "uint (drop_bit k b AND 1) = of_bool (bit b k)" for b :: uint8_t
  unfolding and_one_eq mod_2_eq_odd by (simp add: bit_iff_odd_drop_bit)

lemma get_bit: "i < bm_cap bm \<Longrightarrow> bitmap_get bm i = Some (of_bool (bm_bit bm i))"
  by (auto simp: bitmap_get_def bm_cap_def bm_bit_def low_bit less_mult_imp_div_less)

lemma set_paint:
  assumes "i < bm_cap bm"
  obtains bm' where "bitmap_set bm i v = Some bm'" "painted bm bm' {i} (v \<noteq> 0)"
proof -
  have "bm_bit (bm\<lparr>bm_buffer := (bm_buffer bm)[i div 8 := w]\<rparr>) j = (if j div 8 = i div 8 then bit w (j mod 8) else bm_bit bm j)"
    if "j < bm_cap bm" for j w
    using that assms by (auto simp: bm_bit_def bm_cap_def nth_list_update less_mult_imp_div_less)
  moreover have "j = i \<longleftrightarrow> j div 8 = i div 8 \<and> j mod 8 = i mod 8" for j by (metis mod_mult_div_eq)
  ultimately show thesis
    using that assms
    by (auto simp: bitmap_set_def Let_def painted_def bm_cap_def less_mult_imp_div_less bit_simps bm_bit_def)
qed


lemma fill_bit: "k < 8 \<Longrightarrow> bit (fill_val v) k = (v \<noteq> 0)"
proof -
  assume "k < 8"
  then have "k \<in> set [0..<8]" by simp
  moreover have "\<forall>k \<in> set [0..<8]. bit (0xff :: uint8_t) k" by code_simp
  ultimately show ?thesis by (auto simp: fill_val_def)
qed

lemma head_loop_paint:
  assumes "e \<le> bm_cap bm" "s \<le> e"
  shows "\<exists>bm' t. head_loop bm s e v = Some (bm', t) \<and> painted bm bm' {s..<t} (v \<noteq> 0) \<and> s \<le> t \<and> t \<le> e \<and> (t = e \<or> t mod 8 = 0)
    \<and> (s mod 8 \<noteq> 0 \<longrightarrow> t \<le> s div 8 * 8 + 8) \<and> (s mod 8 = 0 \<longrightarrow> t = s)"
  using assms
proof (induction bm s e v rule: head_loop.induct)
  case (1 bm s e v)
  show ?case
  proof (cases "s < e \<and> s mod 8 \<noteq> 0")
    case True
    then obtain bm1 where set: "bitmap_set bm s v = Some bm1" "painted bm bm1 {s} (v \<noteq> 0)"
      using set_paint [of s bm] "1.prems" by auto
    moreover have "bm_cap bm1 = bm_cap bm" using set(2) by (simp add: painted_def bm_cap_def)
    ultimately obtain bm' t where rec: "head_loop bm1 (s + 1) e v = Some (bm', t)" "painted bm1 bm' {s + 1..<t} (v \<noteq> 0)"
      "s + 1 \<le> t" "t \<le> e" "t = e \<or> t mod 8 = 0" "(s + 1) mod 8 \<noteq> 0 \<longrightarrow> t \<le> (s + 1) div 8 * 8 + 8" "(s + 1) mod 8 = 0 \<longrightarrow> t = s + 1"
      using "1.IH" [OF True set(1)] True "1.prems" by auto
    have "{s} \<union> {s + 1..<t} = {s..<t}" using rec(3) by auto
    then have "painted bm bm' {s..<t} (v \<noteq> 0)" using painted_trans [OF set(2) rec(2)] by simp
    moreover have "t \<le> s div 8 * 8 + 8" using rec(6,7) True by (cases "(s + 1) mod 8 = 0") (auto simp: mod_Suc div_Suc split: if_splits)
    ultimately show ?thesis using rec True by (subst head_loop.simps) (simp add: set(1))
  qed (use "1.prems" painted_refl in \<open>auto simp: head_loop.simps [of bm s e v]\<close>)
qed

lemma fill_loop_paint:
  assumes "8 * n \<le> bm_cap bm"
  shows "\<exists>bm'. fill_loop bm i n (fill_val v) = Some bm' \<and> painted bm bm' {8 * i..<8 * n} (v \<noteq> 0)"
  using assms
proof (induction bm i n "fill_val v" rule: fill_loop.induct)
  case (1 bm i n)
  let ?bm = "bm\<lparr>bm_buffer := (bm_buffer bm)[i := fill_val v]\<rparr>"
  show ?case
  proof (cases "i < n")
    case True
    have bound: "i < length (bm_buffer bm)" using True "1.prems" by (simp add: bm_cap_def)
    have "painted bm ?bm {8 * i..<8 * Suc i} (v \<noteq> 0)"
      using bound by (auto simp: painted_def bm_cap_def bm_bit_def nth_list_update fill_bit)
    moreover obtain bm' where "fill_loop ?bm (i + 1) n (fill_val v) = Some bm'" "painted ?bm bm' {8 * (i + 1)..<8 * n} (v \<noteq> 0)"
      using "1.hyps" [OF True bound] "1.prems" by (auto simp: bm_cap_def)
    moreover have "{8 * i..<8 * Suc i} \<union> {8 * (i + 1)..<8 * n} = {8 * i..<8 * n}" using True by auto
    ultimately show ?thesis using painted_trans True bound by (subst fill_loop.simps) fastforce
  qed (use painted_refl in \<open>auto simp: fill_loop.simps [of bm i n]\<close>)
qed

lemma tail_loop_paint:
  assumes "e \<le> bm_cap bm"
  shows "\<exists>bm'. tail_loop bm s e v = Some bm' \<and> painted bm bm' {s..<e} (v \<noteq> 0)"
  using assms
proof (induction bm s e v rule: tail_loop.induct)
  case (1 bm s e v)
  show ?case
  proof (cases "s < e")
    case True
    then obtain bm1 where set: "bitmap_set bm s v = Some bm1" "painted bm bm1 {s} (v \<noteq> 0)"
      using set_paint [of s bm] "1.prems" by auto
    moreover have "bm_cap bm1 = bm_cap bm" using set(2) by (simp add: painted_def bm_cap_def)
    ultimately obtain bm' where rec: "tail_loop bm1 (s + 1) e v = Some bm'" "painted bm1 bm' {s + 1..<e} (v \<noteq> 0)"
      using "1.IH" [OF True set(1)] "1.prems" by auto
    have "{s} \<union> {s + 1..<e} = {s..<e}" using True by auto
    then show ?thesis using painted_trans [OF set(2) rec(2)] True rec(1) by (subst tail_loop.simps) (simp add: set(1))
  qed (use painted_refl in \<open>auto simp: tail_loop.simps [of bm s e v]\<close>)
qed

section \<open>Setting a range\<close>

text \<open>
  The first bit that is set. When the range starts inside a byte and ends inside the same byte, the
  last loop starts again at the first bit of that byte.
\<close>

definition first_set :: "nat \<Rightarrow> nat \<Rightarrow> nat" where
  "first_set s e = (if s mod 8 \<noteq> 0 \<and> s div 8 = e div 8 then 8 * (s div 8) else s)"

lemma range_cover:
  assumes "s < e" "s \<le> t" "t \<le> e" "t = e \<or> t mod 8 = 0" "s mod 8 \<noteq> 0 \<longrightarrow> t \<le> s div 8 * 8 + 8" "s mod 8 = 0 \<longrightarrow> t = s"
  shows "{s..<t} \<union> ({8 * (t div 8)..<8 * (e div 8)} \<union> {e div 8 * 8..<e}) = {first_set s e..<e}"
proof -
  have e: "8 * (e div 8) \<le> e" "e < 8 * (e div 8) + 8" by simp_all
  consider "s mod 8 = 0" | "s mod 8 \<noteq> 0" "s div 8 = e div 8" | "s mod 8 \<noteq> 0" "s div 8 < e div 8"
    using assms(1) by (metis div_le_mono less_imp_le_nat nat_less_le)
  then show ?thesis
  proof cases
    case 1
    then have "8 * (t div 8) = s" "t = s" "first_set s e = s" using assms(6) by (auto simp: first_set_def)
    moreover have "s \<le> 8 * (e div 8)" using 1 assms(1) by presburger
    ultimately show ?thesis using e by auto
  next
    case 2
    have "t div 8 = s div 8" using div_le_mono [OF assms(2), of 8] div_le_mono [OF assms(3), of 8] 2(2) by linarith
    then have "t mod 8 \<noteq> 0" using 2(1) assms(2) mult_div_mod_eq [of 8 s] mult_div_mod_eq [of 8 t] by linarith
    then have "t = e" using assms(4) by simp
    then show ?thesis using 2 assms(1) e by (auto simp: first_set_def)
  next
    case 3
    then have t: "t \<le> 8 * (e div 8)" using assms(5) by linarith
    then have "t mod 8 = 0" using assms(4) e(1) by (metis le_antisym mod_mult_self1_is_0)
    then have "8 * (t div 8) = t" by auto
    with t show ?thesis using 3 assms(2,3) e by (auto simp: first_set_def)
  qed
qed

lemma set_range_paint:
  assumes "bm_length bm \<le> bm_cap bm" "s < e" "s < bm_length bm"
  defines "stop \<equiv> min e (bm_length bm)"
  shows "\<exists>bm'. bitmap_set_range bm s e v = Some bm' \<and> painted bm bm' {first_set s stop..<stop} (v \<noteq> 0)"
proof -
  have stop: "(if e > bm_length bm then bm_length bm else e) = stop" "stop \<le> bm_cap bm" "s < stop"
    using assms by (auto simp: min_def)
  obtain bm1 t where one: "head_loop bm s stop v = Some (bm1, t)" "painted bm bm1 {s..<t} (v \<noteq> 0)" "s \<le> t" "t \<le> stop"
      "t = stop \<or> t mod 8 = 0" "s mod 8 \<noteq> 0 \<longrightarrow> t \<le> s div 8 * 8 + 8" "s mod 8 = 0 \<longrightarrow> t = s"
    using head_loop_paint [OF stop(2), of s v] stop(3) by auto
  have cap1: "bm_cap bm1 = bm_cap bm" using one(2) by (simp add: painted_def bm_cap_def)
  obtain bm2 where two: "fill_loop bm1 (t div 8) (stop div 8) (fill_val v) = Some bm2"
      "painted bm1 bm2 {8 * (t div 8)..<8 * (stop div 8)} (v \<noteq> 0)"
    using fill_loop_paint [of "stop div 8" bm1 "t div 8" v] order_trans [OF times_div_less_eq_dividend stop(2)] cap1 by auto
  have cap2: "bm_cap bm2 = bm_cap bm" using two(2) cap1 by (simp add: painted_def bm_cap_def)
  obtain bm3 where three: "tail_loop bm2 (stop div 8 * 8) stop v = Some bm3" "painted bm2 bm3 {stop div 8 * 8..<stop} (v \<noteq> 0)"
    using tail_loop_paint [of stop bm2 "stop div 8 * 8" v] stop(2) cap2 by auto
  have "painted bm bm3 {first_set s stop..<stop} (v \<noteq> 0)"
    using painted_trans [OF one(2) painted_trans [OF two(2) three(2)]] range_cover [OF stop(3) one(3-7)] by simp
  then show ?thesis
    using assms(2,3) one(1) two(1) three(1) unfolding bitmap_set_range_def Let_def stop(1) by simp
qed

lemma all_loop_iff:
  assumes "e \<le> bm_cap bm"
  shows "all_loop bm i e v = Some (of_bool (\<forall>j \<in> {i..<e}. of_bool (bm_bit bm j) = v))"
  using assms
proof (induction bm i e v rule: all_loop.induct)
  case (1 bm i e v)
  have "{i..<e} = insert i {Suc i..<e}" if "i < e" using that by auto
  then show ?case using 1 by (subst all_loop.simps) (auto simp: get_bit)
qed

section \<open>Searching a run\<close>

text \<open>
  The state of the search at bit \<open>pos\<close>: the last \<open>n\<close> bits before it equal the wanted
  value. For the value 1 the run is as long as it can be.
\<close>

definition trail :: "bitmap \<Rightarrow> int \<Rightarrow> nat \<Rightarrow> nat \<Rightarrow> bool" where
  "trail bm v pos n \<longleftrightarrow> n \<le> pos \<and> (\<forall>j. pos - n \<le> j \<and> j < pos \<longrightarrow> bm_bit bm j = (v = 1))
     \<and> (v = 1 \<longrightarrow> n < pos \<longrightarrow> \<not> bm_bit bm (pos - n - 1))"

definition run :: "bitmap \<Rightarrow> int \<Rightarrow> nat \<Rightarrow> nat \<Rightarrow> bool" where
  "run bm v i len \<longleftrightarrow> (\<forall>j. i \<le> j \<and> j < i + len \<longrightarrow> bm_bit bm j = (v = 1))"

text \<open>What the search knows: the trailing run and, for the value 1, that no run ended before.\<close>

definition searched :: "bitmap \<Rightarrow> nat \<Rightarrow> int \<Rightarrow> nat \<Rightarrow> nat \<times> nat \<Rightarrow> bool" where
  "searched bm len v pos ns \<longleftrightarrow> (case ns of (n, s) \<Rightarrow> n < len \<and> trail bm v pos n \<and> (n > 0 \<longrightarrow> s + n = pos)
     \<and> (v = 1 \<longrightarrow> (\<forall>i. i + len \<le> pos \<longrightarrow> \<not> run bm v i len)))"

lemma no_new_run:
  assumes "v = 1" "trail bm v pos' n'" "n' < len" "pos' - n' \<le> pos + 1" "pos \<le> pos'" "\<forall>i. i + len \<le> pos \<longrightarrow> \<not> run bm v i len"
  shows "\<forall>i. i + len \<le> pos' \<longrightarrow> \<not> run bm v i len"
proof (intro allI impI notI)
  fix i assume i: "i + len \<le> pos'" "run bm v i len"
  then have "pos < i + len" using assms(6) by (metis not_le)
  then have "i \<le> pos' - n' - 1" "pos' - n' - 1 < i + len" using i(1) assms(3,4) by linarith+
  then have "bm_bit bm (pos' - n' - 1)" using i(2) assms(1) by (simp add: run_def)
  moreover have "n' < pos'" using i(1) assms(3) by linarith
  ultimately show False using assms(1,2) by (simp add: trail_def)
qed

lemma trail_hit: "trail bm v pos n \<Longrightarrow> bm_bit bm pos = (v = 1) \<Longrightarrow> trail bm v (pos + 1) (n + 1)"
  by (auto simp: trail_def less_Suc_eq)

lemma trail_miss: "bm_bit bm pos \<noteq> (v = 1) \<Longrightarrow> trail bm v (pos + 1) 0"
  by (auto simp: trail_def)

lemma trail_run: "trail bm v pos n \<Longrightarrow> run bm v (pos - n) n"
  by (auto simp: trail_def run_def)

lemma trail_byte: "trail bm v pos n \<Longrightarrow> (\<And>k. k < m \<Longrightarrow> bm_bit bm (pos + k) = (v = 1)) \<Longrightarrow> trail bm v (pos + m) (n + m)"
proof (induction m)
  case (Suc m)
  then have "trail bm v (pos + m + 1) (n + m + 1)" by (intro trail_hit) auto
  then show ?case by simp
qed simp

lemma find_bits_spec:
  assumes "v = 0 \<or> v = 1" "searched bm len v (idx * 8 + k) ns" "k \<le> 8"
    "\<And>j. j < 8 \<Longrightarrow> bm_bit bm (idx * 8 + j) = bit byte j"
  shows "case find_bits byte idx len v [k..<8] ns of
      Inl i \<Rightarrow> run bm v i len \<and> i + len \<le> idx * 8 + 8
    | Inr ns' \<Rightarrow> searched bm len v (idx * 8 + 8) ns'"
  using assms(2,3)
proof (induction "8 - k" arbitrary: k ns)
  case 0
  then show ?case by (cases ns) simp
next
  case (Suc m)
  obtain n s where ns: "ns = (n, s)" by fastforce
  have k: "k < 8" "[k..<8] = k # [Suc k..<8]" using Suc.hyps(2) by (simp_all add: upt_rec)
  have st: "n < len" "trail bm v (idx * 8 + k) n" "n > 0 \<longrightarrow> s + n = idx * 8 + k"
      "v = 1 \<longrightarrow> (\<forall>i. i + len \<le> idx * 8 + k \<longrightarrow> \<not> run bm v i len)"
    using Suc.prems(1) by (simp_all add: searched_def ns)
  have hit: "uint (drop_bit k byte AND 1) = v \<longleftrightarrow> bm_bit bm (idx * 8 + k) = (v = 1)"
    using assms(1) assms(4) [OF k(1)] by (auto simp: low_bit)
  show ?case
  proof (cases "uint (drop_bit k byte AND 1) = v")
    case True
    let ?s = "if n = 0 then idx * 8 + k else s"
    have tr: "trail bm v (idx * 8 + k + 1) (n + 1)" using trail_hit st(2) True hit by blast
    have s: "?s + (n + 1) = idx * 8 + k + 1" using st(3) by auto
    show ?thesis
    proof (cases "n + 1 = len")
      case True
      have "?s = idx * 8 + k + 1 - (n + 1)" using s by linarith
      then have "run bm v ?s len" using trail_run [OF tr] True by simp
      moreover have "?s + len \<le> idx * 8 + 8" using s True k(1) by linarith
      ultimately show ?thesis using \<open>uint _ = v\<close> True unfolding k(2) ns find_bits.simps Let_def by simp
    next
      case False
      have "searched bm len v (idx * 8 + Suc k) (n + 1, ?s)"
        using st(1,4) tr s False no_new_run [OF _ tr, of len "idx * 8 + k"] by (auto simp: searched_def)
      then show ?thesis
        using Suc.hyps(1) [of "Suc k" "(n + 1, ?s)"] Suc.hyps(2) k(1) \<open>uint _ = v\<close> False unfolding k(2) ns find_bits.simps Let_def by simp
    qed
  next
    case False
    have tr: "trail bm v (idx * 8 + k + 1) 0" using trail_miss False hit by blast
    then have "searched bm len v (idx * 8 + Suc k) (0, s)"
      using st(1,4) no_new_run [OF _ tr, of len "idx * 8 + k"] by (auto simp: searched_def)
    then show ?thesis
      using Suc.hyps(1) [of "Suc k" "(0, s)"] Suc.hyps(2) k(1) False unfolding k(2) ns find_bits.simps by simp
  qed
qed

lemma find_byte_spec:
  assumes v: "v = 0 \<or> v = 1" and st: "searched bm len v (idx * 8) ns"
    and bits: "\<And>j. j < 8 \<Longrightarrow> bm_bit bm (idx * 8 + j) = bit byte j"
  shows "case find_byte byte idx len v ns of
      Inl i \<Rightarrow> run bm v i len \<and> i + len \<le> idx * 8 + 8
    | Inr ns' \<Rightarrow> searched bm len v (idx * 8 + 8) ns'"
proof -
  obtain n s where ns: "ns = (n, s)" by fastforce
  have old: "n < len" "trail bm v (idx * 8) n" "n > 0 \<longrightarrow> s + n = idx * 8"
      "v = 1 \<longrightarrow> (\<forall>i. i + len \<le> idx * 8 \<longrightarrow> \<not> run bm v i len)"
    using st by (simp_all add: searched_def ns)
  consider "byte = (if fill_val v = 0 then 1 else 0)" | "byte \<noteq> (if fill_val v = 0 then 1 else 0)" "byte = fill_val v"
    | "byte \<noteq> (if fill_val v = 0 then 1 else 0)" "byte \<noteq> fill_val v" by blast
  then show ?thesis
  proof cases
    case 1
    have zero: "\<not> bm_bit bm j" if "v = 1" "idx * 8 \<le> j" "j < idx * 8 + 8" for j
      using bits [of "j - idx * 8"] that 1 by (simp add: fill_val_def)
    have "trail bm v (idx * 8 + 8) 0" using zero [of "idx * 8 + 7"] by (auto simp: trail_def add.commute)
    moreover have "\<not> run bm v i len" if "v = 1" "i + len \<le> idx * 8 + 8" for i
    proof
      assume r: "run bm v i len"
      then have "idx * 8 < i + len" using old(4) that(1) by (metis not_le)
      then have "idx * 8 \<le> i + len - 1" "i + len - 1 < idx * 8 + 8" "i \<le> i + len - 1" "i + len - 1 < i + len"
        using that(2) old(1) by linarith+
      then show False using zero [OF that(1)] r that(1) unfolding run_def by blast
    qed
    ultimately show ?thesis using 1 old(1) by (simp add: find_byte_def ns searched_def)
  next
    case 2
    have all: "bm_bit bm (idx * 8 + k) = (v = 1)" if "k < 8" for k
      using bits [OF that] 2(2) fill_bit [OF that, of v] v by auto
    have tr: "trail bm v (idx * 8 + 8) (n + 8)" using trail_byte [OF old(2), of 8] all by simp
    let ?s = "if n = 0 then idx * 8 else s"
    have s: "?s = idx * 8 + 8 - (n + 8)" "?s + (n + 8) = idx * 8 + 8" using old(3) by auto
    have short: "run bm v (idx * 8) len" if "len < 8"
      unfolding run_def
    proof (intro allI impI)
      fix j assume j: "idx * 8 \<le> j \<and> j < idx * 8 + len"
      then have "j - idx * 8 < 8" using that by linarith
      then show "bm_bit bm j = (v = 1)" using all [of "j - idx * 8"] j by simp
    qed
    have long: "run bm v ?s len" if "len \<le> n + 8"
      using trail_run [OF tr] that s by (auto simp: run_def)
    have "searched bm len v (idx * 8 + 8) (n + 8, ?s)" if "n + 8 < len"
      using that tr s(2) old(4) no_new_run [OF _ tr that, of "idx * 8"] by (auto simp: searched_def)
    then show ?thesis using 2 short long s(2) old(1) by (auto simp: find_byte_def ns Let_def)
  next
    case 3
    then show ?thesis
      using find_bits_spec [OF v, of bm len idx 0 "(n, s)" byte] st bits by (simp add: find_byte_def ns)
  qed
qed

lemma find_loop_spec:
  assumes "v = 0 \<or> v = 1" "bm_length bm \<le> bm_cap bm" "searched bm len v (idx * 8) ns" "idx \<le> bm_length bm div 8"
  shows "\<exists>r. find_loop bm len v idx ns = Some r \<and> (case r of
      Some i \<Rightarrow> run bm v i len \<and> i + len \<le> bm_length bm
    | None \<Rightarrow> v = 1 \<longrightarrow> (\<forall>i. i + len \<le> bm_length bm div 8 * 8 \<longrightarrow> \<not> run bm v i len))"
  using assms(3,4)
proof (induction "bm_length bm div 8 - idx" arbitrary: idx ns)
  case 0
  then show ?case by (subst find_loop.simps) (auto simp: searched_def split: prod.splits)
next
  case (Suc m)
  have idx: "idx < bm_length bm div 8" "idx < length (bm_buffer bm)"
    using Suc.hyps(2) assms(2) by (auto simp: bm_cap_def)
  have bits: "bm_bit bm (idx * 8 + j) = bit (bm_buffer bm ! idx) j" if "j < 8" for j
    using that by (simp add: bm_bit_def)
  note byte = find_byte_spec [OF assms(1) Suc.prems(1) bits]
  have "idx * 8 + 8 \<le> bm_length bm" using idx(1) by linarith
  then show ?case
    using byte Suc.hyps(1) [of "Suc idx"] Suc.hyps(2) idx
    by (subst find_loop.simps) (auto split: sum.splits simp: add.commute)
qed

section \<open>What the functions compute\<close>

text \<open>
  C36: On a bitmap whose length fits its buffer, setting a range stays inside the buffer, gives every
  bit from \<open>first_set s e\<close> up to the end of the range (cut at the length of the bitmap) the
  value and leaves every other bit alone, so that \<open>bitmap_range_all\<close> reports the range as set.
  \<open>first_set\<close> is the start of the range except when the range starts inside a byte and ends
  inside the same byte: then the bits of that byte below the start are set as well.
\<close>

theorem bitmap_set_range_exact:
  assumes "bm_length bm \<le> 8 * length (bm_buffer bm)" "s < e" "s < bm_length bm"
  shows "\<exists>bm'. bitmap_set_range bm s e v = Some bm' \<and> bm_length bm' = bm_length bm
    \<and> length (bm_buffer bm') = length (bm_buffer bm)
    \<and> (\<forall>i. i < 8 * length (bm_buffer bm) \<longrightarrow> bitmap_get bm' i =
        (if first_set s (min e (bm_length bm)) \<le> i \<and> i < min e (bm_length bm) then Some (of_bool (v \<noteq> 0)) else bitmap_get bm i))
    \<and> bitmap_range_all bm' s e (of_bool (v \<noteq> 0)) = Some 1"
proof -
  have cap: "bm_length bm \<le> bm_cap bm" using assms(1) by (simp add: bm_cap_def)
  obtain bm' where set: "bitmap_set_range bm s e v = Some bm'"
      and p: "painted bm bm' {first_set s (min e (bm_length bm))..<min e (bm_length bm)} (v \<noteq> 0)"
    using set_range_paint [OF cap assms(2,3)] by blast
  have same: "bm_length bm' = bm_length bm" "length (bm_buffer bm') = length (bm_buffer bm)" "bm_cap bm' = bm_cap bm"
    using p by (simp_all add: painted_def bm_cap_def)
  have low: "first_set s x \<le> s" for x by (simp only: first_set_def times_div_less_eq_dividend order_refl split: if_split) simp
  have "bm_bit bm' j = (v \<noteq> 0)" if "s \<le> j" "j < min e (bm_length bm)" for j
    using that p cap order_trans [OF low that(1)] by (simp add: painted_def)
  moreover have "(if e > bm_length bm' then bm_length bm' else e) = min e (bm_length bm)" using same by auto
  ultimately have "bitmap_range_all bm' s e (of_bool (v \<noteq> 0)) = Some 1"
    using assms(3) cap same unfolding bitmap_range_all_def Let_def
    by (auto simp: all_loop_iff)
  moreover have "bitmap_get bm' i = (if first_set s (min e (bm_length bm)) \<le> i \<and> i < min e (bm_length bm)
      then Some (of_bool (v \<noteq> 0)) else bitmap_get bm i)" if "i < 8 * length (bm_buffer bm)" for i
    using that p same by (simp add: get_bit painted_def bm_cap_def)
  ultimately show ?thesis using set same by blast
qed

theorem bitmap_set_range_exact_witness:
  "map_option bm_buffer (bitmap_set_range \<lparr>bm_buffer = [0], bm_length = 8\<rparr> 3 5 1) = Some [31]
   \<and> (\<exists>bm'. bitmap_set_range \<lparr>bm_buffer = [0], bm_length = 8\<rparr> 3 5 1 = Some bm' \<and> bitmap_get bm' 0 = Some 1)"
proof
  show "map_option bm_buffer (bitmap_set_range \<lparr>bm_buffer = [0], bm_length = 8\<rparr> 3 5 1) = Some [31]" by code_simp
  show "\<exists>bm'. bitmap_set_range \<lparr>bm_buffer = [0], bm_length = 8\<rparr> 3 5 1 = Some bm' \<and> bitmap_get bm' 0 = Some 1"
    using bitmap_set_range_exact [of "\<lparr>bm_buffer = [0], bm_length = 8\<rparr>" 3 5 1] by (auto simp: first_set_def)
qed

text \<open>
  C37: A search for a run of ones or zeros stays inside the buffer, and an index it returns starts a
  run of the wanted length inside the bitmap. When a search for ones fails, no such run lies in the
  whole bytes of the bitmap. A search for zeros can fail although a run exists: the test for the
  opposite byte compares with \<^verbatim>\<open>!byte_match\<close>, which is 1 and not \<^verbatim>\<open>0xff\<close>, so a byte 1 is
  skipped.
\<close>

theorem bitmap_find_range_correct:
  assumes "bm_length bm \<le> 8 * length (bm_buffer bm)" "0 < len" "v = 0 \<or> v = 1"
  shows "(\<exists>r. bitmap_find_range bm len v = Some r)
    \<and> (\<forall>i. bitmap_find_range bm len v = Some (Some i) \<longrightarrow>
        i + len \<le> bm_length bm \<and> (\<forall>j. i \<le> j \<and> j < i + len \<longrightarrow> bitmap_get bm j = Some v))
    \<and> (bitmap_find_range bm len 1 = Some None \<longrightarrow>
        \<not> (\<exists>i. i + len \<le> bm_length bm div 8 * 8 \<and> (\<forall>j. i \<le> j \<and> j < i + len \<longrightarrow> bitmap_get bm j = Some 1)))
    \<and> bitmap_find_range \<lparr>bm_buffer = [1], bm_length = 8\<rparr> 7 0 = Some None
    \<and> list_all (\<lambda>j. bitmap_get \<lparr>bm_buffer = [1], bm_length = 8\<rparr> j = Some 0) [1..<8]"
proof -
  have cap: "bm_length bm \<le> bm_cap bm" using assms(1) by (simp add: bm_cap_def)
  have start: "searched bm len w 0 (0, 0)" for w using assms(2) by (simp add: searched_def trail_def)
  have whole: "bm_length bm div 8 * 8 \<le> bm_length bm" by simp
  have bits: "run bm w i len \<longleftrightarrow> (\<forall>j. i \<le> j \<and> j < i + len \<longrightarrow> bitmap_get bm j = Some w)"
    if "i + len \<le> bm_length bm" "w = 0 \<or> w = 1" for w i
    using that cap unfolding run_def by (auto simp: get_bit)
  note res = find_loop_spec [OF _ cap, of _ len 0 "(0, 0)", simplified, OF _ start]
  have "\<exists>r. bitmap_find_range bm len v = Some r"
    using res [OF assms(3)] by (auto simp: bitmap_find_range_def)
  moreover have "i + len \<le> bm_length bm \<and> (\<forall>j. i \<le> j \<and> j < i + len \<longrightarrow> bitmap_get bm j = Some v)"
    if "bitmap_find_range bm len v = Some (Some i)" for i
    using res [OF assms(3)] that bits [OF _ assms(3), of i] by (auto simp: bitmap_find_range_def)
  moreover have "\<not> (\<exists>i. i + len \<le> bm_length bm div 8 * 8 \<and> (\<forall>j. i \<le> j \<and> j < i + len \<longrightarrow> bitmap_get bm j = Some 1))"
    if "bitmap_find_range bm len 1 = Some None"
    using res [of 1] that bits [of _ 1] whole by (auto simp: bitmap_find_range_def)
  moreover have "bitmap_find_range \<lparr>bm_buffer = [1], bm_length = 8\<rparr> 7 0 = Some None" by code_simp
  moreover have "list_all (\<lambda>j. bitmap_get \<lparr>bm_buffer = [1], bm_length = 8\<rparr> j = Some 0) [1..<8]" by code_simp
  ultimately show ?thesis by blast
qed

theorem bitmap_find_range_correct_witness:
  "bitmap_find_range \<lparr>bm_buffer = [0x70, 0x0F], bm_length = 16\<rparr> 4 1 = Some (Some 8)
   \<and> bitmap_get \<lparr>bm_buffer = [0x70, 0x0F], bm_length = 16\<rparr> 8 = Some 1
   \<and> bitmap_get \<lparr>bm_buffer = [0x70, 0x0F], bm_length = 16\<rparr> 11 = Some 1"
proof -
  have "bitmap_find_range \<lparr>bm_buffer = [0x70, 0x0F], bm_length = 16\<rparr> 4 1 = Some (Some 8)" by code_simp
  then show ?thesis
    using bitmap_find_range_correct [of "\<lparr>bm_buffer = [0x70, 0x0F], bm_length = 16\<rparr>" 4 1] by auto
qed

end
