(* ===== verification/Evdev.thy ===== *)
theory Evdev
  imports Bitops_Correct
begin

text \<open>
  \<^verbatim>\<open>src/drivers/input/evdev/evdev_queue.c\<close>: the ring buffer of input events of one evdev client.
  Indices are the unsigned integers of the source, with their wrap-around written out. A null
  pointer is \<open>None\<close> in an argument; the outer \<open>None\<close> of a result is an access outside the
  buffer or, for \<open>evdev_queue_flush_type\<close>, a loop that does not end.
\<close>

section \<open>The queue\<close>

record input_event =
  ev_sec :: uint64_t
  ev_usec :: uint64_t
  ev_type :: uint16_t
  ev_code :: uint16_t
  ev_value :: int32_t

definition EV_SYN :: uint16_t where "EV_SYN = 0x00"
definition SYN_REPORT :: uint16_t where "SYN_REPORT = 0"
definition SYN_DROPPED :: uint16_t where "SYN_DROPPED = 3"

record evdev_queue =
  q_head :: nat
  q_tail :: nat
  q_packet_head :: nat
  q_size :: nat
  q_buffer :: "input_event list option"

definition u32_add :: "nat \<Rightarrow> nat \<Rightarrow> nat" where
  "u32_add a b = (a + b) mod 2 ^ 32"

definition u32_sub :: "nat \<Rightarrow> nat \<Rightarrow> nat" where
  "u32_sub a b = (a + 2 ^ 32 - b) mod 2 ^ 32"

definition is_report :: "input_event \<Rightarrow> bool" where
  "is_report ev \<longleftrightarrow> ev_type ev = EV_SYN \<and> ev_code ev = SYN_REPORT"

definition poke :: "'a list \<Rightarrow> nat \<Rightarrow> 'a \<Rightarrow> 'a list option" where
  "poke b i v = (if i < length b then Some (b[i := v]) else None)"

definition peek :: "'a list \<Rightarrow> nat \<Rightarrow> 'a option" where
  "peek b i = (if i < length b then Some (b ! i) else None)"

definition evdev_queue_init :: "evdev_queue option \<Rightarrow> input_event list option \<Rightarrow> nat \<Rightarrow> evdev_queue option \<times> bool" where
  "evdev_queue_init queue buf n =
     (if queue = None \<or> buf = None \<or> n < 4 \<or> \<not> is_power_of_two (of_nat n) then (queue, False)
      else (Some \<lparr>q_head = 0, q_tail = 0, q_packet_head = 0, q_size = n, q_buffer = buf\<rparr>, True))"

definition evdev_queue_has_packet :: "evdev_queue option \<Rightarrow> bool" where
  "evdev_queue_has_packet queue \<longleftrightarrow> (case queue of None \<Rightarrow> False | Some q \<Rightarrow> q_packet_head q \<noteq> q_tail q)"

definition dropped_marker :: "input_event \<Rightarrow> input_event" where
  "dropped_marker ev =
     \<lparr>ev_sec = ev_sec ev, ev_usec = ev_usec ev, ev_type = EV_SYN, ev_code = SYN_DROPPED, ev_value = 0\<rparr>"

definition push_event :: "evdev_queue \<Rightarrow> input_event list \<Rightarrow> input_event \<Rightarrow> (evdev_queue \<times> bool) option" where
  "push_event q b ev =
     (if is_report ev \<and> q_packet_head q = q_head q then Some (q, False)
      else let msk = u32_sub (q_size q) 1 in
        do { b \<leftarrow> poke b (q_head q) ev;
             let q = q\<lparr>q_head := u32_add (q_head q) 1 AND msk, q_buffer := Some b\<rparr>;
             q \<leftarrow> (if q_head q = q_tail q then
                      let tail = u32_sub (q_head q) 2 AND msk in
                      do { b \<leftarrow> poke b tail (dropped_marker ev);
                           Some (q\<lparr>q_tail := tail, q_packet_head := tail, q_buffer := Some b\<rparr>) }
                    else Some q);
             Some (if is_report ev then (q\<lparr>q_packet_head := q_head q\<rparr>, True) else (q, False)) })"

definition evdev_queue_push ::
  "evdev_queue option \<Rightarrow> input_event option \<Rightarrow> (evdev_queue option \<times> bool) option" where
  "evdev_queue_push queue event =
     (case (queue, event) of
        (Some q, Some ev) \<Rightarrow>
          (case q_buffer q of None \<Rightarrow> Some (queue, False) | Some b \<Rightarrow> map_option (map_prod Some id) (push_event q b ev))
      | _ \<Rightarrow> Some (queue, False))"

text \<open>The copied events are returned; \<open>events\<close> tells whether the caller's buffer is not null.\<close>

definition slice :: "'a list \<Rightarrow> nat \<Rightarrow> nat \<Rightarrow> 'a list option" where
  "slice b i n = (if i + n \<le> length b then Some (take n (drop i b)) else None)"

definition read_events :: "evdev_queue \<Rightarrow> input_event list \<Rightarrow> nat \<Rightarrow> (evdev_queue \<times> input_event list) option" where
  "read_events q b max_events =
     (let msk = u32_sub (q_size q) 1;
          available = u32_sub (q_packet_head q) (q_tail q) AND msk;
          n = (if available < max_events then available else max_events);
          first = u32_sub (q_size q) (q_tail q);
          first = (if first > n then n else first)
      in do { xs \<leftarrow> (if first \<noteq> 0 then slice b (q_tail q) first else Some []);
              ys \<leftarrow> (if n > first then slice b 0 (n - first) else Some []);
              Some (q\<lparr>q_tail := u32_add (q_tail q) (n mod 2 ^ 32) AND msk\<rparr>, xs @ ys) })"

definition evdev_queue_read ::
  "evdev_queue option \<Rightarrow> bool \<Rightarrow> nat \<Rightarrow> (evdev_queue option \<times> input_event list) option" where
  "evdev_queue_read queue events max_events =
     (case queue of
        None \<Rightarrow> Some (queue, [])
      | Some q \<Rightarrow> (case q_buffer q of
            None \<Rightarrow> Some (queue, [])
          | Some b \<Rightarrow> if \<not> events \<or> max_events = 0 then Some (queue, [])
                     else map_option (map_prod Some id) (read_events q b max_events)))"

text \<open>The compaction loop: \<open>index\<close>, \<open>head\<close>, \<open>count\<close> and the queue under change.\<close>

partial_function (option) flush_loop ::
  "uint32_t \<Rightarrow> nat \<Rightarrow> nat \<Rightarrow> nat \<Rightarrow> nat \<Rightarrow> nat \<Rightarrow> input_event list \<Rightarrow> nat \<Rightarrow> (nat \<times> input_event list \<times> nat) option" where
  "flush_loop type msk stop index head n b ph =
     (if index = stop then Some (head, b, ph)
      else do { event \<leftarrow> peek b index;
                if ucast (ev_type event) = type \<or> is_report event \<and> n = 0
                then flush_loop type msk stop (u32_add index 1 AND msk) head n b ph
                else do { b \<leftarrow> (if head \<noteq> index then poke b head event else Some b);
                          let head = u32_add head 1 AND msk;
                          let (n, ph) = (if is_report event then (0, head) else (u32_add n 1, ph));
                          flush_loop type msk stop (u32_add index 1 AND msk) head n b ph } })"

definition flush_events :: "evdev_queue \<Rightarrow> input_event list \<Rightarrow> uint32_t \<Rightarrow> evdev_queue option" where
  "flush_events q b type =
     map_option (\<lambda>(head, b, ph). q\<lparr>q_head := head, q_packet_head := ph, q_buffer := Some b\<rparr>)
       (flush_loop type (u32_sub (q_size q) 1) (q_head q) (q_tail q) (q_tail q) 1 b (q_tail q))"

definition evdev_queue_flush_type :: "evdev_queue option \<Rightarrow> uint32_t \<Rightarrow> evdev_queue option option" where
  "evdev_queue_flush_type queue type =
     (case queue of
        None \<Rightarrow> Some queue
      | Some q \<Rightarrow> (case q_buffer q of
            None \<Rightarrow> Some queue
          | Some b \<Rightarrow> if type = ucast EV_SYN then Some queue else map_option Some (flush_events q b type)))"

definition evdev_queue_discard_pending ::
  "evdev_queue option \<Rightarrow> input_event option \<Rightarrow> evdev_queue option option" where
  "evdev_queue_discard_pending queue syn_dropped =
     (case queue of
        None \<Rightarrow> Some queue
      | Some q \<Rightarrow> if syn_dropped = None \<or> q_head q = q_tail q then Some queue
                 else map_option fst (evdev_queue_push (Some (q\<lparr>q_head := q_tail q, q_packet_head := q_tail q\<rparr>)) syn_dropped))"

end
