(* ===== verification/Evdev_Correct.thy ===== *)
theory Evdev_Correct
  imports Evdev
begin

text \<open>
  The evdev queue refines two lists: the committed events, which \<open>evdev_queue_read\<close> hands out,
  and the pending events of the frame under construction.
\<close>

section \<open>Index arithmetic\<close>

lemma power_of_two_nat: "0 < n \<Longrightarrow> n AND (n - 1) = 0 \<Longrightarrow> \<exists>k. n = 2 ^ k" for n :: nat
proof (induction n rule: less_induct)
  case (less n)
  show ?case
  proof (cases "even n")
    case True
    then obtain m where m: "n = 2 * m" "0 < m" using less.prems(1) by auto
    then have pred: "n - 1 = 2 * (m - 1) + 1" by simp
    have "n AND (n - 1) = 2 * (m AND (m - 1))" unfolding pred unfolding m(1) by (simp add: and_rec [of "2 * m"])
    then obtain k where "m = 2 ^ k" using less.IH [of m] m less.prems(2) by auto
    then show ?thesis using m(1) by (metis power_Suc)
  next
    case False
    then obtain m where m: "n = 2 * m + 1" by (auto elim: oddE)
    have "n AND (n - 1) = 2 * m" unfolding m by (simp add: and_rec [of "Suc (2 * m)"])
    then have "n = 2 ^ 0" using less.prems(2) m by simp
    then show ?thesis by blast
  qed
qed

lemma is_power_of_two_nat:
  assumes "is_power_of_two (of_nat n)" "n < 2 ^ 32"
  shows "\<exists>k. n = 2 ^ k \<and> k < 32"
proof -
  let ?v = "of_nat n :: uint64_t"
  have v: "unat ?v = n" using assms(2) by (simp add: unsigned_of_nat take_bit_nat_eq_self)
  have nz: "?v \<noteq> 0" "?v AND (?v - 1) = 0" using assms(1) by (auto simp: is_power_of_two_def)
  then have "unat (?v - 1) = n - 1" using unat_minus_one [OF nz(1)] v by simp
  moreover have "unat (?v AND (?v - 1)) = 0" using nz(2) by simp
  ultimately have "n AND (n - 1) = 0" using v by (simp add: unsigned_and_eq)
  moreover have "0 < n" using nz(1) by (cases n) auto
  ultimately obtain k where "n = 2 ^ k" using power_of_two_nat by blast
  moreover from this have "k < 32" using assms(2) power_strict_increasing_iff [of "2::nat" k 32] by simp
  ultimately show ?thesis by blast
qed

lemma and_mask_nat: "x AND (2 ^ k - 1) = x mod 2 ^ k" for x :: nat
  by (simp add: take_bit_eq_mask mask_eq_exp_minus_1 flip: take_bit_eq_mod)

lemma u32_mod: "k \<le> 32 \<Longrightarrow> x mod 2 ^ 32 mod 2 ^ k = x mod (2::nat) ^ k"
  by (intro mod_mod_cancel le_imp_power_dvd)

lemma index_ops':
  assumes "n = 2 ^ k" "2 \<le> k" "k < 32"
  shows "u32_sub n 1 = n - 1" "u32_add x y AND (n - 1) = (x + y) mod n"
    "y \<le> n \<Longrightarrow> u32_sub x y AND (n - 1) = (x + (n - y)) mod n" "y \<le> n \<Longrightarrow> u32_sub n y = n - y" "4 \<le> n" "n < 2 ^ 32"
proof -
  show "4 \<le> n" using power_increasing [OF assms(2), of "2::nat"] assms(1) by simp
  show lt: "n < 2 ^ 32" unfolding assms(1) by (rule power_strict_increasing [OF assms(3)]) simp
  have pos: "0 < n" using assms(1) by simp
  show "u32_sub n y = n - y" if "y \<le> n" for y
  proof -
    have "n + 2 ^ 32 - y = (n - y) + 2 ^ 32" "n - y < 2 ^ 32" using that lt by linarith+
    then show ?thesis unfolding u32_sub_def by (simp only: mod_add_self2 mod_less)
  qed
  from this [of 1] show "u32_sub n 1 = n - 1" using pos by simp
  show "u32_add x y AND (n - 1) = (x + y) mod n" for x y
    unfolding u32_add_def assms(1) and_mask_nat by (rule u32_mod [OF less_imp_le [OF assms(3)]])
  show "u32_sub x y AND (n - 1) = (x + (n - y)) mod n" if "y \<le> n" for x y
  proof -
    have "(2::nat) ^ 32 = n * 2 ^ (32 - k)" using assms by (simp flip: power_add)
    moreover obtain m where "2 ^ (32 - k) = Suc m" by (cases "2 ^ (32 - k) :: nat") auto
    ultimately have "(2::nat) ^ 32 = n * Suc m" by (simp only:)
    then have "x + 2 ^ 32 - y = x + (n - y) + n * m" using that by (simp only: mult_Suc_right)
    then have "(x + 2 ^ 32 - y) mod n = (x + (n - y)) mod n" by simp
    then show ?thesis unfolding u32_sub_def assms(1) and_mask_nat u32_mod [OF less_imp_le [OF assms(3)]] .
  qed
qed

lemmas index_ops = index_ops' [unfolded One_nat_def]

section \<open>Rings\<close>

definition ring :: "'a list \<Rightarrow> nat \<Rightarrow> nat \<Rightarrow> 'a list" where
  "ring b t m = map (\<lambda>i. b ! ((t + i) mod length b)) [0..<m]"

lemma length_ring [simp]: "length (ring b t m) = m"
  by (simp add: ring_def)

lemma nth_ring: "i < m \<Longrightarrow> ring b t m ! i = b ! ((t + i) mod length b)"
  by (simp add: ring_def)

lemma ring_index_inj: "i < n \<Longrightarrow> j < n \<Longrightarrow> (t + i) mod n = (t + j) mod n \<longleftrightarrow> i = j" for n :: nat
proof (induction i j rule: linorder_wlog)
  case (le i j)
  have "i = j" if "(t + i) mod n = (t + j) mod n"
  proof -
    have "n dvd j - i" using that le(1) mod_eq_dvd_iff_nat [of "t + i" "t + j" n] by simp
    then show ?thesis using le by (auto dest: dvd_imp_le)
  qed
  then show ?case by auto
next
  case (sym i j)
  then show ?case by auto
qed

lemma ring_poke:
  assumes "m \<le> length b" "j < length b"
  shows "ring (b[(t + j) mod length b := x]) t m = (ring b t m)[j := x]"
proof (rule nth_equalityI)
  fix i assume "i < length (ring (b[(t + j) mod length b := x]) t m)"
  then have i: "i < m" by simp
  then have "(t + i) mod length b = (t + j) mod length b \<longleftrightarrow> i = j" using assms ring_index_inj by simp
  moreover have "(t + j) mod length b < length b" by (rule mod_less_divisor [OF le_less_trans [OF le0 assms(2)]])
  ultimately show "ring (b[(t + j) mod length b := x]) t m ! i = (ring b t m)[j := x] ! i"
    using i by (cases "i = j") (simp_all add: nth_ring)
qed simp

lemma ring_snoc:
  assumes "m < length b"
  shows "ring (b[(t + m) mod length b := x]) t (Suc m) = ring b t m @ [x]"
  using assms ring_poke [of "Suc m" b m t x]
  by (simp add: ring_def list_update_append)

lemma ring_drop: "i \<le> m \<Longrightarrow> ring b ((t + i) mod length b) (m - i) = drop i (ring b t m)"
  by (intro nth_equalityI) (auto simp: nth_ring mod_simps ac_simps)

lemma ring_take: "i \<le> m \<Longrightarrow> ring b t i = take i (ring b t m)"
  by (intro nth_equalityI) (auto simp: nth_ring)

lemma ring_slices:
  assumes "t < length b" "m \<le> length b"
  shows "take (min (length b - t) m) (drop t b) @ take (m - min (length b - t) m) b = ring b t m"
proof (rule nth_equalityI)
  show "length (take (min (length b - t) m) (drop t b) @ take (m - min (length b - t) m) b) = length (ring b t m)"
    using assms by simp
  fix i assume "i < length (take (min (length b - t) m) (drop t b) @ take (m - min (length b - t) m) b)"
  then have "i < m" using assms by simp
  then show "(take (min (length b - t) m) (drop t b) @ take (m - min (length b - t) m) b) ! i = ring b t m ! i"
  proof (cases "t + i < length b")
    case True
    then have "i < length b - t" by linarith
    then show ?thesis using True assms \<open>i < m\<close> by (simp add: nth_append nth_ring)
  next
    case False
    then have "min (length b - t) m = length b - t" "(t + i) mod length b = t + i - length b" "i - (length b - t) = t + i - length b"
      using assms \<open>i < m\<close> by (simp_all add: mod_if)
    moreover have "\<not> i < length b - t" using False by linarith
    ultimately show ?thesis using assms False \<open>i < m\<close> by (simp add: nth_append nth_ring)
  qed
qed

section \<open>The representation\<close>

text \<open>\<open>queue_rep q c p\<close>: the queue holds the committed events \<open>c\<close> and then the pending events \<open>p\<close>.\<close>

definition queue_rep :: "evdev_queue \<Rightarrow> input_event list \<Rightarrow> input_event list \<Rightarrow> bool" where
  "queue_rep q c p \<longleftrightarrow> (\<exists>b k. q_buffer q = Some b \<and> q_size q = 2 ^ k \<and> 2 \<le> k \<and> k < 32 \<and> length b = q_size q
     \<and> q_tail q < q_size q \<and> q_packet_head q = (q_tail q + length c) mod q_size q
     \<and> q_head q = (q_tail q + (length c + length p)) mod q_size q
     \<and> length c + length p < q_size q \<and> ring b (q_tail q) (length c + length p) = c @ p)"

lemma queue_repE:
  assumes "queue_rep q c p"
  obtains b k where "q_buffer q = Some b" "q_size q = 2 ^ k" "2 \<le> k" "k < 32" "length b = q_size q" "q_tail q < q_size q"
    "q_packet_head q = (q_tail q + length c) mod q_size q" "q_head q = (q_tail q + (length c + length p)) mod q_size q"
    "length c + length p < q_size q" "ring b (q_tail q) (length c + length p) = c @ p"
  using assms unfolding queue_rep_def by blast

lemma init_rep:
  assumes "length b = n" "4 \<le> n" "n < 2 ^ 32" "is_power_of_two (of_nat n)"
  shows "\<exists>q'. evdev_queue_init (Some q) (Some b) n = (Some q', True) \<and> queue_rep q' [] []"
proof -
  obtain k where k: "n = 2 ^ k" "k < 32" using is_power_of_two_nat assms(3,4) by blast
  have "2 \<le> k"
  proof (rule ccontr)
    assume "\<not> 2 \<le> k"
    then have "2 ^ k \<le> (2::nat) ^ 1" by (intro power_increasing) auto
    then show False using assms(2) k(1) by simp
  qed
  then show ?thesis
    using assms k by (simp add: evdev_queue_init_def queue_rep_def ring_def)
qed

text \<open>The list specification of the operations, for a ring of \<open>n\<close> slots.\<close>

definition push_spec :: "nat \<Rightarrow> input_event \<Rightarrow> input_event list \<times> input_event list \<Rightarrow> (input_event list \<times> input_event list) \<times> bool" where
  "push_spec n ev cp =
     (let (c, p) = cp in
      if is_report ev \<and> p = [] then ((c, p), False)
      else let (c, p) = (if length c + length p + 1 < n then (c, p @ [ev]) else ([], [dropped_marker ev, ev]))
           in if is_report ev then ((c @ p, []), True) else ((c, p), False))"

lemma head_wrap: "t < n \<Longrightarrow> m < n \<Longrightarrow> (t + Suc m) mod n = t \<longleftrightarrow> Suc m = n" for n :: nat
  using ring_index_inj [of "Suc m" n 0 t] by (cases "Suc m = n") auto

lemma replace_before_last: "length xs = Suc k \<Longrightarrow> drop k ((xs @ [e])[k := d]) = [d, e]"
  by (cases xs rule: rev_cases) (auto simp: list_update_append)

lemma push_refines:
  assumes "queue_rep q c p"
  shows "\<exists>q'. evdev_queue_push (Some q) (Some ev) = Some (Some q', snd (push_spec (q_size q) ev (c, p)))
     \<and> queue_rep q' (fst (fst (push_spec (q_size q) ev (c, p)))) (snd (fst (push_spec (q_size q) ev (c, p)))) \<and> q_size q' = q_size q"
proof -
  obtain b k where rep: "q_buffer q = Some b" "q_size q = 2 ^ k" "2 \<le> k" "k < 32" "length b = q_size q" "q_tail q < q_size q"
      "q_packet_head q = (q_tail q + length c) mod q_size q" "q_head q = (q_tail q + (length c + length p)) mod q_size q"
      "length c + length p < q_size q" "ring b (q_tail q) (length c + length p) = c @ p"
    using assms by (rule queue_repE)
  define n t m where "n = q_size q" and "t = q_tail q" and "m = length c + length p"
  note idx = index_ops [OF rep(2,3,4), folded n_def]
  note rep' = rep(5-10) [folded n_def t_def m_def]
  have empty: "q_packet_head q = q_head q \<longleftrightarrow> p = []"
    using rep(7-9) ring_index_inj [of "length c" "q_size q" "length c + length p" "q_tail q"] by auto
  show ?thesis
  proof (cases "is_report ev \<and> p = []")
    case True
    then show ?thesis using assms empty by (simp add: evdev_queue_push_def rep(1) push_event_def push_spec_def)
  next
    case False
    let ?b = "b[(t + m) mod n := ev]"
    have poke: "poke b (q_head q) ev = Some ?b"
      using rep' by (simp add: poke_def)
    have head: "u32_add (q_head q) (Suc 0) AND (n - Suc 0) = (t + Suc m) mod n"
      using rep'(4) by (simp add: idx mod_simps)
    have full: "(t + Suc m) mod n = t \<longleftrightarrow> \<not> Suc m < n" using head_wrap [of t n m] rep' by auto
    have ring: "ring ?b t (Suc m) = c @ p @ [ev]" using ring_snoc [of m b t ev] rep' by simp
    show ?thesis
    proof (cases "Suc m < n")
      case True
      have "queue_rep (q\<lparr>q_head := (t + Suc m) mod n, q_buffer := Some ?b\<rparr>) c (p @ [ev])"
        using rep ring True unfolding queue_rep_def by (auto simp: n_def t_def m_def)
      moreover have "queue_rep (q\<lparr>q_head := (t + Suc m) mod n, q_buffer := Some ?b, q_packet_head := (t + Suc m) mod n\<rparr>) (c @ p @ [ev]) []"
        using rep ring True unfolding queue_rep_def by (auto simp: n_def t_def m_def)
      ultimately show ?thesis
        using False empty poke head full True rep(1)
        by (simp add: evdev_queue_push_def push_event_def push_spec_def idx(1) n_def [symmetric] t_def [symmetric] m_def [symmetric] Let_def)
    next
      case notlt: False
      then have m: "Suc m = n" using rep'(5) by simp
      let ?t = "(t + (n - 2)) mod n" and ?b2 = "?b[(t + (n - 2)) mod n := dropped_marker ev]"
      have tail: "u32_sub t 2 AND (n - Suc 0) = ?t" using idx by simp
      have n: "0 < n" "length ?b = n" "length ?b2 = n" "4 \<le> n" "?t < n" using idx(5) rep' by simp_all
      have poke2: "poke ?b ?t (dropped_marker ev) = Some ?b2" using n by (simp add: poke_def)
      have m2: "n - 2 < m" "m - (n - 2) = 1" using m n(4) by simp_all
      have "ring ?b2 t n = (c @ p @ [ev])[n - 2 := dropped_marker ev]"
        using ring_poke [of n ?b "n - 2" t "dropped_marker ev"] ring m n by simp
      then have "ring ?b2 ?t 2 = drop (n - 2) ((c @ p @ [ev])[n - 2 := dropped_marker ev])"
        using ring_drop [of "n - 2" n ?b2 t] n by simp
      also have "\<dots> = [dropped_marker ev, ev]"
        using replace_before_last [of "c @ p" "n - 2" ev] m n(4) by (simp add: m_def)
      finally have ring2: "ring ?b2 ?t 2 = [dropped_marker ev, ev]" .
      have "t + (n - 2) + 2 = t + n" using n(4) by linarith
      then have "(?t + 2) mod n = t" unfolding mod_add_left_eq by (simp only: mod_add_self2 mod_less [OF rep'(2)])
      then have wrap: "(t + Suc m) mod n = t" "(?t + 2) mod n = t" using full notlt by simp_all
      have sz: "q_size q = n" "length b = n" using rep' by (simp_all add: n_def)
      have "queue_rep (q\<lparr>q_head := t, q_tail := ?t, q_packet_head := ?t, q_buffer := Some ?b2\<rparr>) [] [dropped_marker ev, ev]"
        using rep(2-4) ring2 wrap n sz unfolding queue_rep_def by (auto simp: numeral_2_eq_2)
      moreover have "queue_rep (q\<lparr>q_head := t, q_tail := ?t, q_buffer := Some ?b2, q_packet_head := t\<rparr>) [dropped_marker ev, ev] []"
        using rep(2-4) ring2 wrap n sz unfolding queue_rep_def by (auto simp: numeral_2_eq_2)
      ultimately show ?thesis
        using False empty poke head full notlt rep(1) poke2 tail wrap(1)
        by (simp add: evdev_queue_push_def push_event_def push_spec_def idx(1) n_def [symmetric] t_def [symmetric] m_def [symmetric] Let_def)
    qed
  qed
qed

lemma read_refines:
  assumes "queue_rep q c p"
  shows "\<exists>q'. evdev_queue_read (Some q) True k = Some (Some q', take k c) \<and> queue_rep q' (drop k c) p \<and> q_size q' = q_size q"
proof (cases "k = 0")
  case True
  obtain b where "q_buffer q = Some b" using assms by (rule queue_repE)
  then show ?thesis using True assms by (simp add: evdev_queue_read_def)
next
  case False
  obtain b e where rep: "q_buffer q = Some b" "q_size q = 2 ^ e" "2 \<le> e" "e < 32" "length b = q_size q" "q_tail q < q_size q"
      "q_packet_head q = (q_tail q + length c) mod q_size q" "q_head q = (q_tail q + (length c + length p)) mod q_size q"
      "length c + length p < q_size q" "ring b (q_tail q) (length c + length p) = c @ p"
    using assms by (rule queue_repE)
  define n t where "n = q_size q" and "t = q_tail q"
  note idx = index_ops [OF rep(2,3,4), folded n_def]
  note rep' = rep(5-10) [folded n_def t_def]
  have c: "length c < n" using rep'(5) by simp
  have "((t + length c) mod n + (n - t)) mod n = length c"
  proof -
    have "t + length c + (n - t) = length c + n" using rep'(2) by simp
    then show ?thesis unfolding mod_add_left_eq by (simp only: mod_add_self2 mod_less [OF c])
  qed
  then have avail: "u32_sub (q_packet_head q) t AND (n - Suc 0) = length c" using rep'(2,3) by (simp add: idx)
  let ?m = "min (length c) k"
  have m: "(if length c < k then length c else k) = ?m" "?m < n" "?m < 2 ^ 32" using c idx(6) by auto
  have first: "u32_sub n t = n - t" using idx(4) rep'(2) by simp
  have fm: "(if n - t > ?m then ?m else n - t) = min (n - t) ?m" by (simp only: min_def) auto
  let ?f = "min (n - t) ?m"
  have xs: "(if ?f \<noteq> 0 then slice b t ?f else Some []) = Some (take ?f (drop t b))"
    using rep' by (auto simp: slice_def)
  have ys: "(if ?m > ?f then slice b 0 (?m - ?f) else Some []) = Some (take (?m - ?f) b)"
    using rep' m(2) by (auto simp: slice_def)
  have tail: "u32_add t (?m mod 2 ^ 32) AND (n - Suc 0) = (t + ?m) mod n"
    using m(3) by (simp only: idx mod_less)
  have "take ?f (drop t b) @ take (?m - ?f) b = ring b t ?m"
    using ring_slices [of t b ?m] rep'(1,2) m(2) by simp
  also have "\<dots> = take ?m (c @ p)" using ring_take [of ?m "length c + length p" b t] rep'(6) by simp
  finally have copied: "take ?f (drop t b) @ take (?m - ?f) b = take k c" by (auto simp: min_def)
  have read: "read_events q b k = Some (q\<lparr>q_tail := (t + ?m) mod n\<rparr>, take k c)"
    unfolding read_events_def Let_def One_nat_def n_def [symmetric] t_def [symmetric] idx(1) avail m(1) first fm xs ys tail copied [symmetric]
    by simp
  have "ring b ((t + ?m) mod n) (length (drop k c) + length p) = drop k c @ p"
    using ring_drop [of ?m "length c + length p" b t] rep'(1,6) by (cases "length c \<le> k") simp_all
  moreover have "((t + ?m) mod n + length (drop k c)) mod n = (t + length c) mod n"
    "((t + ?m) mod n + (length (drop k c) + length p)) mod n = (t + (length c + length p)) mod n"
    unfolding mod_add_left_eq by (rule arg_cong [where f = "\<lambda>x. x mod n"], simp add: min_def)+
  ultimately have "queue_rep (q\<lparr>q_tail := (t + ?m) mod n\<rparr>) (drop k c) p"
    using rep rep' idx(5) unfolding queue_rep_def n_def [symmetric] t_def [symmetric] by (simp add: n_def)
  then show ?thesis using False rep(1) read by (simp add: evdev_queue_read_def)
qed

section \<open>Flushing one event type\<close>

text \<open>
  The events that stay: events of the type go, and so does a report that closes an empty frame.
  The committed part then ends with the last report.
\<close>

fun kept :: "uint32_t \<Rightarrow> bool \<Rightarrow> input_event list \<Rightarrow> input_event list" where
  "kept type z [] = []"
| "kept type z (e # es) =
     (if ucast (ev_type e) = type \<or> is_report e \<and> z then kept type z es else e # kept type (is_report e) es)"

definition closed_part :: "input_event list \<Rightarrow> input_event list" where
  "closed_part es = rev (dropWhile (\<lambda>e. \<not> is_report e) (rev es))"

definition open_part :: "input_event list \<Rightarrow> input_event list" where
  "open_part es = rev (takeWhile (\<lambda>e. \<not> is_report e) (rev es))"

lemma closed_snoc: "closed_part (es @ [e]) = (if is_report e then es @ [e] else closed_part es)"
  by (simp add: closed_part_def)

lemma closed_open: "closed_part es @ open_part es = es"
  unfolding closed_part_def open_part_def by (metis rev_append rev_rev_ident takeWhile_dropWhile_id)

lemma length_kept: "length (kept type z es) \<le> length es"
  by (induction type z es rule: kept.induct) auto

lemma flush_loop_spec:
  assumes n: "n = 2 ^ k" "2 \<le> k" "k < 32" and "t < n" "length es < n"
  shows "i \<le> length es \<Longrightarrow> length ds \<le> i \<Longrightarrow> cnt \<le> Suc i \<Longrightarrow> length b = n \<Longrightarrow> ring b t (length ds) = ds
    \<Longrightarrow> (\<And>j. i \<le> j \<Longrightarrow> j < length es \<Longrightarrow> b ! ((t + j) mod n) = es ! j)
    \<Longrightarrow> \<exists>b'. flush_loop type (n - Suc 0) ((t + length es) mod n) ((t + i) mod n) ((t + length ds) mod n) cnt b
            ((t + length (closed_part ds)) mod n)
          = Some ((t + length (ds @ kept type (cnt = 0) (drop i es))) mod n, b',
                  (t + length (closed_part (ds @ kept type (cnt = 0) (drop i es)))) mod n)
        \<and> length b' = n \<and> ring b' t (length (ds @ kept type (cnt = 0) (drop i es))) = ds @ kept type (cnt = 0) (drop i es)"
proof (induction "length es - i" arbitrary: i ds cnt b)
  case 0
  then show ?case by (subst flush_loop.simps) simp
next
  case (Suc m)
  note idx = index_ops [OF n]
  have i: "i < length es" using Suc.hyps(2) by simp
  let ?e = "es ! i"
  have drop: "drop i es = ?e # drop (Suc i) es" using i by (simp add: Cons_nth_drop_Suc)
  have stop: "(t + i) mod n \<noteq> (t + length es) mod n" using ring_index_inj [of i n "length es" t] i assms(5) by simp
  have lt: "(t + j) mod n < n" for j using assms(4) by (intro mod_less_divisor) simp
  have peek: "peek b ((t + i) mod n) = Some ?e" using Suc.prems(4) Suc.prems(6) [of i] i lt by (simp add: peek_def)
  have nxt: "u32_add ((t + j) mod n) (Suc 0) AND (n - Suc 0) = (t + Suc j) mod n" for j by (simp add: idx mod_simps)
  have left: "m = length es - Suc i" "Suc i \<le> length es" using Suc.hyps(2) by simp_all
  show ?case
  proof (cases "ucast (ev_type ?e) = type \<or> is_report ?e \<and> cnt = 0")
    case True
    have kept: "kept type (cnt = 0) (drop i es) = kept type (cnt = 0) (drop (Suc i) es)" using True by (simp add: drop)
    show ?thesis
      unfolding kept
      using Suc.hyps(1) [OF left, of ds cnt b] Suc.prems stop peek True
      by (subst flush_loop.simps) (simp add: nxt)
  next
    case False
    let ?b = "b[(t + length ds) mod n := ?e]" and ?cnt = "if is_report ?e then 0 else Suc cnt"
    have kept: "kept type (cnt = 0) (drop i es) = ?e # kept type (?cnt = 0) (drop (Suc i) es)" using False by (auto simp: drop)
    have poke: "(if (t + length ds) mod n \<noteq> (t + i) mod n then poke b ((t + length ds) mod n) ?e else Some b) = Some ?b"
      using Suc.prems(4) Suc.prems(6) [of i] i lt by (auto simp: poke_def) (metis list_update_id)
    have cnt: "u32_add cnt (Suc 0) = Suc cnt"
      using Suc.prems(3) i assms(5) idx(5,6) by (simp add: u32_add_def)
    have "ring ?b t (length (ds @ [?e])) = ds @ [?e]"
      using ring_snoc [of "length ds" b t ?e] Suc.prems(2,4,5) i assms(5) by simp
    moreover have "?b ! ((t + j) mod n) = es ! j" if "Suc i \<le> j" "j < length es" for j
      using Suc.prems(2) Suc.prems(6) [of j] that ring_index_inj [of "length ds" n j t] assms(5) by (subst nth_list_update_neq) auto
    ultimately have rec: "\<exists>b'. flush_loop type (n - Suc 0) ((t + length es) mod n) ((t + Suc i) mod n) ((t + length (ds @ [?e])) mod n) ?cnt ?b
            ((t + length (closed_part (ds @ [?e]))) mod n)
          = Some ((t + length ((ds @ [?e]) @ kept type (?cnt = 0) (drop (Suc i) es))) mod n, b',
                  (t + length (closed_part ((ds @ [?e]) @ kept type (?cnt = 0) (drop (Suc i) es)))) mod n)
        \<and> length b' = n \<and> ring b' t (length ((ds @ [?e]) @ kept type (?cnt = 0) (drop (Suc i) es))) = (ds @ [?e]) @ kept type (?cnt = 0) (drop (Suc i) es)"
      using Suc.prems(2-4) left by (intro Suc.hyps(1)) simp_all
    have step: "flush_loop type (n - Suc 0) ((t + length es) mod n) ((t + i) mod n) ((t + length ds) mod n) cnt b ((t + length (closed_part ds)) mod n)
        = flush_loop type (n - Suc 0) ((t + length es) mod n) ((t + Suc i) mod n) ((t + length (ds @ [?e])) mod n) ?cnt ?b
            ((t + length (closed_part (ds @ [?e]))) mod n)"
      using stop peek False poke
      by (subst flush_loop.simps) (auto simp: nxt cnt closed_snoc Let_def)
    show ?thesis unfolding step kept using rec unfolding append_assoc append_Cons append_Nil .
  qed
qed

lemma flush_refines:
  assumes "queue_rep q c p" "type \<noteq> ucast EV_SYN"
  defines "es \<equiv> kept type False (c @ p)"
  shows "\<exists>q'. evdev_queue_flush_type (Some q) type = Some (Some q') \<and> queue_rep q' (closed_part es) (open_part es) \<and> q_size q' = q_size q"
proof -
  obtain b k where rep: "q_buffer q = Some b" "q_size q = 2 ^ k" "2 \<le> k" "k < 32" "length b = q_size q" "q_tail q < q_size q"
      "q_packet_head q = (q_tail q + length c) mod q_size q" "q_head q = (q_tail q + (length c + length p)) mod q_size q"
      "length c + length p < q_size q" "ring b (q_tail q) (length c + length p) = c @ p"
    using assms(1) by (rule queue_repE)
  note idx = index_ops [OF rep(2,3,4)]
  have start: "b ! ((q_tail q + j) mod q_size q) = (c @ p) ! j" if "j < length (c @ p)" for j
    using nth_ring [of j "length c + length p" b "q_tail q"] that rep(5,10) by simp
  obtain b' where loop: "flush_loop type (q_size q - Suc 0) (q_head q) (q_tail q) (q_tail q) 1 b (q_tail q)
      = Some ((q_tail q + length es) mod q_size q, b', (q_tail q + length (closed_part es)) mod q_size q)"
      "length b' = q_size q" "ring b' (q_tail q) (length es) = es"
    using flush_loop_spec [OF rep(2,3,4,6), of "c @ p" 0 "[]" 1 b type] rep start
    by (auto simp: es_def closed_part_def ring_def)
  have "length (closed_part es) + length (open_part es) = length es" using closed_open [of es] by (metis length_append)
  moreover have "length es < q_size q" using length_kept [of type False "c @ p"] rep(9) by (simp add: es_def)
  ultimately have "queue_rep (q\<lparr>q_head := (q_tail q + length es) mod q_size q,
      q_packet_head := (q_tail q + length (closed_part es)) mod q_size q, q_buffer := Some b'\<rparr>) (closed_part es) (open_part es)"
    using rep(2-6) loop closed_open [of es] unfolding queue_rep_def by auto
  then show ?thesis
    using assms(2) rep(1) loop(1) by (simp add: evdev_queue_flush_type_def flush_events_def idx)
qed

lemma empty_iff: "queue_rep q c p \<Longrightarrow> q_head q = q_tail q \<longleftrightarrow> c = [] \<and> p = []"
  using ring_index_inj [of "length c + length p" "q_size q" 0 "q_tail q"] by (elim queue_repE) auto

lemma has_packet_iff: "queue_rep q c p \<Longrightarrow> evdev_queue_has_packet (Some q) \<longleftrightarrow> c \<noteq> []"
  using ring_index_inj [of "length c" "q_size q" 0 "q_tail q"] by (elim queue_repE) (auto simp: evdev_queue_has_packet_def)

lemma discard_refines:
  assumes "queue_rep q c p" "c \<noteq> [] \<or> p \<noteq> []"
  shows "\<exists>q'. evdev_queue_discard_pending (Some q) (Some ev) = Some (Some q')
    \<and> queue_rep q' [] (if is_report ev then [] else [ev]) \<and> q_size q' = q_size q"
proof -
  let ?q = "q\<lparr>q_head := q_tail q, q_packet_head := q_tail q\<rparr>"
  have "queue_rep ?q [] []" using assms(1) by (elim queue_repE) (auto simp: queue_rep_def ring_def)
  moreover have "4 \<le> q_size q" using assms(1) by (elim queue_repE) (metis index_ops(5))
  ultimately show ?thesis
    using push_refines [of ?q "[]" "[]" ev] empty_iff [OF assms(1)] assms(2)
    by (auto simp: evdev_queue_discard_pending_def push_spec_def split: if_splits)
qed

section \<open>Reachable queues\<close>

inductive evdev_reach :: "evdev_queue \<Rightarrow> bool" where
  init: "evdev_queue_init (Some q) (Some b) (length b) = (Some q', True) \<Longrightarrow> length b < 2 ^ 32 \<Longrightarrow> evdev_reach q'"
| push: "evdev_reach q \<Longrightarrow> evdev_queue_push (Some q) ev = Some (Some q', r) \<Longrightarrow> evdev_reach q'"
| read: "evdev_reach q \<Longrightarrow> evdev_queue_read (Some q) buf k = Some (Some q', es) \<Longrightarrow> evdev_reach q'"
| flush: "evdev_reach q \<Longrightarrow> evdev_queue_flush_type (Some q) type = Some (Some q') \<Longrightarrow> evdev_reach q'"
| discard: "evdev_reach q \<Longrightarrow> evdev_queue_discard_pending (Some q) ev = Some (Some q') \<Longrightarrow> evdev_reach q'"

text \<open>Every operation, with null arguments and refused requests as well, ends in a represented queue.\<close>

lemma rep_buffer: "queue_rep q c p \<Longrightarrow> \<exists>b. q_buffer q = Some b"
  by (auto simp: queue_rep_def)

lemma push_total: "queue_rep q c p \<Longrightarrow> \<exists>q' r c' p'. evdev_queue_push (Some q) ev = Some (Some q', r) \<and> queue_rep q' c' p'"
proof (cases ev)
  case None
  assume "queue_rep q c p"
  moreover have "evdev_queue_push (Some q) ev = Some (Some q, False)" by (simp add: evdev_queue_push_def None)
  ultimately show ?thesis by blast
next
  case (Some e)
  assume "queue_rep q c p"
  from push_refines [OF this, of e] show ?thesis unfolding Some by blast
qed

lemma read_total: "queue_rep q c p \<Longrightarrow> \<exists>q' es c' p'. evdev_queue_read (Some q) buf k = Some (Some q', es) \<and> queue_rep q' c' p'"
proof (cases buf)
  case True
  assume "queue_rep q c p"
  from read_refines [OF this, of k] show ?thesis using True by simp blast
next
  case False
  assume rep: "queue_rep q c p"
  then have "evdev_queue_read (Some q) buf k = Some (Some q, [])"
    using rep_buffer [OF rep] False by (auto simp: evdev_queue_read_def)
  then show ?thesis using rep by blast
qed

lemma flush_total: "queue_rep q c p \<Longrightarrow> \<exists>q' c' p'. evdev_queue_flush_type (Some q) type = Some (Some q') \<and> queue_rep q' c' p'"
proof (cases "type = ucast EV_SYN")
  case True
  assume rep: "queue_rep q c p"
  then have "evdev_queue_flush_type (Some q) type = Some (Some q)"
    using rep_buffer [OF rep] True by (auto simp: evdev_queue_flush_type_def)
  then show ?thesis using rep by blast
next
  case False
  assume "queue_rep q c p"
  from flush_refines [OF this False] show ?thesis by blast
qed

lemma discard_total: "queue_rep q c p \<Longrightarrow> \<exists>q' c' p'. evdev_queue_discard_pending (Some q) ev = Some (Some q') \<and> queue_rep q' c' p'"
proof (cases "ev = None \<or> q_head q = q_tail q")
  case True
  assume "queue_rep q c p"
  moreover have "evdev_queue_discard_pending (Some q) ev = Some (Some q)" using True by (simp add: evdev_queue_discard_pending_def)
  ultimately show ?thesis by blast
next
  case False
  assume rep: "queue_rep q c p"
  then have "c \<noteq> [] \<or> p \<noteq> []" using empty_iff [OF rep] False by blast
  from discard_refines [OF rep this, of "the ev"] show ?thesis using False by auto
qed

lemma reach_rep: "evdev_reach q \<Longrightarrow> \<exists>c p. queue_rep q c p"
proof (induction rule: evdev_reach.induct)
  case (init q b q')
  then show ?case using init_rep [of b "length b" q] by (auto simp: evdev_queue_init_def split: if_splits)
next
  case (push q ev q' r)
  then obtain c p where "queue_rep q c p" by blast
  from push_total [OF this, of ev] show ?case using push.hyps(2) by auto
next
  case (read q buf k q' es)
  then obtain c p where "queue_rep q c p" by blast
  from read_total [OF this, of buf k] show ?case using read.hyps(2) by auto
next
  case (flush q type q')
  then obtain c p where "queue_rep q c p" by blast
  from flush_total [OF this, of type] show ?case using flush.hyps(2) by auto
next
  case (discard q ev q')
  then obtain c p where "queue_rep q c p" by blast
  from discard_total [OF this, of ev] show ?case using discard.hyps(2) by auto
qed

fun read_times :: "nat \<Rightarrow> nat \<Rightarrow> evdev_queue \<Rightarrow> (evdev_queue \<times> input_event list) option" where
  "read_times 0 k q = Some (q, [])"
| "read_times (Suc m) k q =
     (case evdev_queue_read (Some q) True k of
        Some (Some q', es) \<Rightarrow> map_option (map_prod id ((@) es)) (read_times m k q')
      | _ \<Rightarrow> None)"

lemma read_times_drain:
  "queue_rep q c p \<Longrightarrow> 0 < k \<Longrightarrow> length c \<le> m \<Longrightarrow> \<exists>q'. read_times m k q = Some (q', c) \<and> queue_rep q' [] p"
proof (induction m arbitrary: q c)
  case (Suc m)
  obtain q1 where q1: "evdev_queue_read (Some q) True k = Some (Some q1, take k c)" "queue_rep q1 (drop k c) p"
    using read_refines [OF Suc.prems(1)] by blast
  moreover have "length (drop k c) \<le> m" using Suc.prems(2,3) by auto
  ultimately obtain q' where "read_times m k q1 = Some (q', drop k c)" "queue_rep q' [] p"
    using Suc.IH Suc.prems(2) by blast
  then show ?case using q1(1) by simp
qed auto

section \<open>What the queue promises\<close>

text \<open>
  C13: The ring buffer implements two lists, the committed and the pending events. A push appends to
  the pending frame and commits it with a report; in a full ring it leaves only a dropped marker and
  the newest event. A read returns and removes the oldest committed events. Flushing a type removes
  its events and the reports of frames that became empty. Discarding empties the queue, committed
  events included, and queues the marker.
\<close>

theorem evdev_queue_refines:
  assumes "queue_rep q c p"
  shows "(\<exists>q'. evdev_queue_push (Some q) (Some ev) = Some (Some q', snd (push_spec (q_size q) ev (c, p)))
       \<and> queue_rep q' (fst (fst (push_spec (q_size q) ev (c, p)))) (snd (fst (push_spec (q_size q) ev (c, p)))))
    \<and> (\<exists>q'. evdev_queue_read (Some q) True k = Some (Some q', take k c) \<and> queue_rep q' (drop k c) p)
    \<and> (type \<noteq> ucast EV_SYN \<longrightarrow> (\<exists>q'. evdev_queue_flush_type (Some q) type = Some (Some q')
         \<and> queue_rep q' (closed_part (kept type False (c @ p))) (open_part (kept type False (c @ p)))))
    \<and> (c \<noteq> [] \<or> p \<noteq> [] \<longrightarrow> (\<exists>q'. evdev_queue_discard_pending (Some q) (Some ev) = Some (Some q')
         \<and> queue_rep q' [] (if is_report ev then [] else [ev])))
    \<and> evdev_queue_has_packet (Some q) = (c \<noteq> [])"
  using push_refines [OF assms, of ev] read_refines [OF assms, of k] flush_refines [OF assms, of type]
    discard_refines [OF assms, of ev] has_packet_iff [OF assms]
  by (intro conjI impI) blast+

definition demo_queue :: evdev_queue where
  "demo_queue = \<lparr>q_head = 0, q_tail = 0, q_packet_head = 0, q_size = 4,
     q_buffer = Some (replicate 4 \<lparr>ev_sec = 0, ev_usec = 0, ev_type = 0, ev_code = 0, ev_value = 0\<rparr>)\<rparr>"

lemma demo_queue_rep: "queue_rep demo_queue [] []"
  unfolding queue_rep_def demo_queue_def by (auto simp: ring_def intro: exI [of _ 2])

theorem evdev_queue_refines_witness:
  "\<exists>q'. evdev_queue_push (Some demo_queue) (Some \<lparr>ev_sec = 1, ev_usec = 2, ev_type = 1, ev_code = 30, ev_value = 1\<rparr>) = Some (Some q', False)
     \<and> queue_rep q' [] [\<lparr>ev_sec = 1, ev_usec = 2, ev_type = 1, ev_code = 30, ev_value = 1\<rparr>]"
  using evdev_queue_refines [OF demo_queue_rep, of "\<lparr>ev_sec = 1, ev_usec = 2, ev_type = 1, ev_code = 30, ev_value = 1\<rparr>" 0 1]
  by (simp add: push_spec_def is_report_def EV_SYN_def demo_queue_def)

text \<open>
  C14: Every queue reachable from an initialised one by any sequence of operations is well-formed:
  the buffer has the size of the queue, a power of two of at least four, and the three indices lie
  inside it. Every further operation returns: none of them reads or writes outside the buffer, and
  the compaction loop ends.
\<close>

theorem evdev_reachable_well_formed:
  assumes "evdev_reach q"
  shows "(\<exists>b k. q_buffer q = Some b \<and> length b = q_size q \<and> q_size q = 2 ^ k \<and> 4 \<le> q_size q
       \<and> q_head q < q_size q \<and> q_tail q < q_size q \<and> q_packet_head q < q_size q)
    \<and> evdev_queue_push (Some q) ev \<noteq> None \<and> evdev_queue_read (Some q) buf k \<noteq> None
    \<and> evdev_queue_flush_type (Some q) type \<noteq> None \<and> evdev_queue_discard_pending (Some q) ev \<noteq> None"
proof -
  obtain c p where rep: "queue_rep q c p" using reach_rep [OF assms] by blast
  have "4 \<le> q_size q" using rep by (elim queue_repE) (metis index_ops(5))
  then have "\<exists>b k. q_buffer q = Some b \<and> length b = q_size q \<and> q_size q = 2 ^ k \<and> 4 \<le> q_size q
       \<and> q_head q < q_size q \<and> q_tail q < q_size q \<and> q_packet_head q < q_size q"
    using rep by (elim queue_repE) auto
  then show ?thesis
    using push_total [OF rep, of ev] read_total [OF rep, of buf k] flush_total [OF rep, of type] discard_total [OF rep, of ev] by auto
qed

theorem evdev_reachable_well_formed_witness:
  "q_head demo_queue < q_size demo_queue \<and> evdev_queue_flush_type (Some demo_queue) 1 \<noteq> None"
proof -
  have "evdev_queue_init (Some demo_queue) (q_buffer demo_queue) 4 = (Some demo_queue, True)" by code_simp
  then have "evdev_reach demo_queue"
    by (intro evdev_reach.init [of demo_queue "the (q_buffer demo_queue)"]) (simp_all add: demo_queue_def)
  then show ?thesis using evdev_reachable_well_formed [of demo_queue None True 0 1] by blast
qed

text \<open>
  C15: A report that completes a frame is delivered: it makes a packet available, and reads of at
  least one event each hand out, after no more reads than there are events, a sequence in order that
  ends with the report, and then no packet is left. When the ring has room for the report the sequence
  is the committed events followed by the whole frame. When the ring is full, the queued events and the
  frame are lost and the reader gets the marker \<^verbatim>\<open>SYN_DROPPED\<close> in front of the report.
\<close>

theorem evdev_frame_delivered:
  assumes "queue_rep q c p" "p \<noteq> []" "is_report ev" "0 < k"
    and "out = (if length c + length p + 1 < q_size q then c @ p @ [ev] else [dropped_marker ev, ev])"
  shows "\<exists>q1 q2. evdev_queue_push (Some q) (Some ev) = Some (Some q1, True) \<and> evdev_queue_has_packet (Some q1)
    \<and> read_times (length out) k q1 = Some (q2, out) \<and> \<not> evdev_queue_has_packet (Some q2)"
proof -
  obtain q1 where push: "evdev_queue_push (Some q) (Some ev) = Some (Some q1, True)" and rep: "queue_rep q1 out []"
    using push_refines [OF assms(1), of ev] assms(2,3,5) by (auto simp: push_spec_def split: if_splits)
  obtain q2 where "read_times (length out) k q1 = Some (q2, out)" "queue_rep q2 [] []"
    using read_times_drain [OF rep assms(4), of "length out"] by auto
  moreover have "out \<noteq> []" using assms(5) by simp
  ultimately show ?thesis using push has_packet_iff [OF rep] has_packet_iff [of q2 "[]" "[]"] by auto
qed

definition demo_pending :: evdev_queue where
  "demo_pending = fst (map_prod the id (the (evdev_queue_push (Some demo_queue) (Some \<lparr>ev_sec = 1, ev_usec = 2, ev_type = 1, ev_code = 30, ev_value = 1\<rparr>))))"

theorem evdev_frame_delivered_witness:
  "\<exists>q1 q2. evdev_queue_push (Some demo_pending) (Some \<lparr>ev_sec = 1, ev_usec = 3, ev_type = 0, ev_code = 0, ev_value = 0\<rparr>) = Some (Some q1, True)
    \<and> read_times 2 1 q1 = Some (q2, [\<lparr>ev_sec = 1, ev_usec = 2, ev_type = 1, ev_code = 30, ev_value = 1\<rparr>,
        \<lparr>ev_sec = 1, ev_usec = 3, ev_type = 0, ev_code = 0, ev_value = 0\<rparr>])"
proof -
  let ?key = "\<lparr>ev_sec = 1, ev_usec = 2, ev_type = 1, ev_code = 30, ev_value = 1\<rparr> :: input_event"
  have "queue_rep demo_pending [] [?key] \<and> q_size demo_pending = 4"
    using push_refines [OF demo_queue_rep, of ?key]
    by (auto simp: demo_pending_def push_spec_def is_report_def EV_SYN_def demo_queue_def)
  then have rep: "queue_rep demo_pending [] [?key]" and size: "q_size demo_pending = 4" by simp_all
  from evdev_frame_delivered [OF rep, of "\<lparr>ev_sec = 1, ev_usec = 3, ev_type = 0, ev_code = 0, ev_value = 0\<rparr>" 1, OF _ _ _ refl]
  show ?thesis by (simp add: is_report_def EV_SYN_def SYN_REPORT_def size numeral_2_eq_2) blast
qed

end
