(* ===== verification/Ilist.thy ===== *)
theory Ilist
  imports Prelude
begin

text \<open>
  \<^verbatim>\<open>src/libs/list/intrusive_list.c\<close>: the circular doubly linked list whose links live inside the
  queued objects. The heap maps addresses to nodes; following an address that holds no node is the
  outer \<open>None\<close>. The functions return the codes of the source, 0 for success.
\<close>

section \<open>The functions\<close>

record ilist_node =
  il_prev :: "nat option"
  il_next :: "nat option"

type_synonym il_heap = "nat \<Rightarrow> ilist_node option"

definition set_prev :: "il_heap \<Rightarrow> nat \<Rightarrow> nat option \<Rightarrow> il_heap option" where
  "set_prev h a v = map_option (\<lambda>n. h(a \<mapsto> n\<lparr>il_prev := v\<rparr>)) (h a)"

definition set_next :: "il_heap \<Rightarrow> nat \<Rightarrow> nat option \<Rightarrow> il_heap option" where
  "set_next h a v = map_option (\<lambda>n. h(a \<mapsto> n\<lparr>il_next := v\<rparr>)) (h a)"




definition ilist_init :: "il_heap \<Rightarrow> nat option \<Rightarrow> (il_heap \<times> nat) option" where
  "ilist_init h list =
     (case list of
        None \<Rightarrow> Some (h, 1)
      | Some a \<Rightarrow> do { h \<leftarrow> set_prev h a (Some a); h \<leftarrow> set_next h a (Some a); Some (h, 0) })"






section \<open>Circular lists in the heap\<close>





















section \<open>The operations at any node of a circle\<close>







section \<open>What the list promises\<close>



end
