(* ===== verification/List_Spec.thy ===== *)
theory List_Spec
  imports Prelude
begin

text \<open>
  The contract that clients of the kernel's allocated lists rely on: a list in the heap represents
  a sequence of data pointers, appending with a fresh node extends it at the end, appending without
  memory leaves it alone.
\<close>

fun append_all ::
  "(('a \<Rightarrow> 'n option) \<Rightarrow> 'a option \<Rightarrow> 'l \<Rightarrow> nat \<Rightarrow> (('a \<Rightarrow> 'n option) \<times> 'l) option)
   \<Rightarrow> ('a \<Rightarrow> 'n option) \<Rightarrow> 'l \<Rightarrow> ('a option \<times> nat) list \<Rightarrow> (('a \<Rightarrow> 'n option) \<times> 'l) option" where
  "append_all app h l [] = Some (h, l)"
| "append_all app h l ((a, d) # xs) = do { (h, l) \<leftarrow> app h a l d; append_all app h l xs }"

locale append_list =
  fixes rep :: "('a \<Rightarrow> 'n option) \<Rightarrow> 'l \<Rightarrow> nat list \<Rightarrow> bool"
    and append :: "('a \<Rightarrow> 'n option) \<Rightarrow> 'a option \<Rightarrow> 'l \<Rightarrow> nat \<Rightarrow> (('a \<Rightarrow> 'n option) \<times> 'l) option"
  assumes append_fresh: "rep h l ds \<Longrightarrow> h a = None \<Longrightarrow> Suc (length ds) < 2 ^ 64 \<Longrightarrow>
      \<exists>h' l'. append h (Some a) l d = Some (h', l') \<and> rep h' l' (ds @ [d]) \<and> dom h' = insert a (dom h)"
    and append_no_memory: "rep h l ds \<Longrightarrow> append h None l d = Some (h, l)"
begin

text \<open>A series of appends, some of them without memory, stores exactly the data that found a node.\<close>

lemma append_all_data:
  assumes "rep h l ds" "distinct (List.map_filter fst xs)" "\<And>a d. (Some a, d) \<in> set xs \<Longrightarrow> h a = None"
    "length ds + length xs < 2 ^ 64"
  shows "\<exists>h' l'. append_all append h l xs = Some (h', l') \<and> rep h' l' (ds @ map snd (filter (\<lambda>x. fst x \<noteq> None) xs))"
  using assms
proof (induction xs arbitrary: h l ds)
  case (Cons x xs)
  obtain a d where x: "x = (a, d)" by fastforce
  show ?case
  proof (cases a)
    case None
    have "List.map_filter fst (x # xs) = List.map_filter fst xs" by (simp add: x None List.map_filter_simps)
    then show ?thesis using Cons append_no_memory [OF Cons.prems(1)] by (auto simp: x None)
  next
    case (Some b)
    obtain h1 l1 where step: "append h (Some b) l d = Some (h1, l1)" "rep h1 l1 (ds @ [d])" "dom h1 = insert b (dom h)"
      using append_fresh [OF Cons.prems(1), of b d] Cons.prems(3) [of b d] Cons.prems(4) by (auto simp: x Some)
    have mf: "List.map_filter fst (x # xs) = b # List.map_filter fst xs" by (simp add: x Some List.map_filter_simps)
    have "h1 c = None" if "(Some c, e) \<in> set xs" for c e
    proof -
      have "c \<in> set (List.map_filter fst xs)" using that by (force simp: List.map_filter_def)
      then have "c \<noteq> b" using Cons.prems(2) mf by auto
      moreover have "h c = None" using Cons.prems(3) that by auto
      ultimately show ?thesis using step(3) by (metis domIff insert_iff)
    qed
    then show ?thesis
      using Cons.IH [OF step(2)] Cons.prems(2,4) step(1) mf by (auto simp: x Some)
  qed
qed simp

end

end
