(* ===== verification/Slist.thy ===== *)
theory Slist
  imports List_Spec
begin

text \<open>
  \<^verbatim>\<open>src/libs/list/singly_list.c\<close>: the singly linked list with head, tail and size. The heap maps
  addresses to nodes; an access to an address that holds no node, a use after \<^verbatim>\<open>free\<close> included,
  and a loop that does not end are the outer \<open>None\<close>. The argument \<open>new\<close> is what
  \<^verbatim>\<open>malloc\<close> returns and data pointers are numbers with 0 for the null pointer.
\<close>

section \<open>The functions\<close>

record slist_node =
  sl_data :: nat
  sl_next :: "nat option"

type_synonym sl_heap = "nat \<Rightarrow> slist_node option"

record slist =
  sl_head :: "nat option"
  sl_tail :: "nat option"
  sl_size :: nat

definition slist_init :: "slist option \<Rightarrow> slist option \<times> nat" where
  "slist_init list =
     (case list of None \<Rightarrow> (None, 1) | Some l \<Rightarrow> (Some \<lparr>sl_head = None, sl_tail = None, sl_size = 0\<rparr>, 0))"

definition slist_insert_head :: "sl_heap \<Rightarrow> nat option \<Rightarrow> slist option \<Rightarrow> nat \<Rightarrow> sl_heap \<times> slist option \<times> nat" where
  "slist_insert_head h new list d =
     (case (list, new) of
        (Some l, Some a) \<Rightarrow>
          (h(a \<mapsto> \<lparr>sl_data = d, sl_next = sl_head l\<rparr>),
           Some (l\<lparr>sl_head := Some a, sl_tail := (if sl_tail l = None then Some a else sl_tail l), sl_size := size_add (sl_size l) 1\<rparr>), 0)
      | _ \<Rightarrow> (h, list, 1))"

definition slist_insert_tail :: "sl_heap \<Rightarrow> nat option \<Rightarrow> slist option \<Rightarrow> nat \<Rightarrow> (sl_heap \<times> slist option \<times> nat) option" where
  "slist_insert_tail h new list d =
     (case (list, new) of
        (Some l, Some a) \<Rightarrow>
          let h = h(a \<mapsto> \<lparr>sl_data = d, sl_next = None\<rparr>) in
          do { (h, l) \<leftarrow> (case sl_tail l of
                 None \<Rightarrow> Some (h, l\<lparr>sl_head := Some a, sl_tail := Some a\<rparr>)
               | Some t \<Rightarrow> do { n \<leftarrow> h t; Some (h(t \<mapsto> n\<lparr>sl_next := Some a\<rparr>), l\<lparr>sl_tail := Some a\<rparr>) });
               Some (h, Some (l\<lparr>sl_size := size_add (sl_size l) 1\<rparr>), 0) }
      | _ \<Rightarrow> Some (h, list, 1))"

text \<open>\<open>free\<close> needs an allocated block; the last component is what \<^verbatim>\<open>*data\<close> receives.\<close>

definition free_node :: "sl_heap \<Rightarrow> nat \<Rightarrow> sl_heap option" where
  "free_node h a = (if h a = None then None else Some (h(a := None)))"

definition slist_remove_head :: "sl_heap \<Rightarrow> slist option \<Rightarrow> bool \<Rightarrow> (sl_heap \<times> slist option \<times> nat \<times> nat option) option" where
  "slist_remove_head h list want =
     (case list of
        None \<Rightarrow> Some (h, list, 1, None)
      | Some l \<Rightarrow> (case sl_head l of
          None \<Rightarrow> Some (h, list, 1, None)
        | Some a \<Rightarrow> do { n \<leftarrow> h a;
            let l = l\<lparr>sl_head := sl_next n\<rparr>;
            let l = (if sl_head l = None then l\<lparr>sl_tail := None\<rparr> else l);
            h \<leftarrow> free_node h a;
            Some (h, Some (l\<lparr>sl_size := size_sub (sl_size l) 1\<rparr>), 0, if want then Some (sl_data n) else None) }))"

partial_function (option) before_tail :: "sl_heap \<Rightarrow> nat option \<Rightarrow> nat option \<Rightarrow> nat option" where
  "before_tail h tail current =
     do { a \<leftarrow> current; n \<leftarrow> h a; if sl_next n = tail then Some a else before_tail h tail (sl_next n) }"

definition slist_remove_tail :: "sl_heap \<Rightarrow> slist option \<Rightarrow> bool \<Rightarrow> (sl_heap \<times> slist option \<times> nat \<times> nat option) option" where
  "slist_remove_tail h list want =
     (case list of
        None \<Rightarrow> Some (h, list, 1, None)
      | Some l \<Rightarrow> (case sl_tail l of
          None \<Rightarrow> Some (h, list, 1, None)
        | Some t \<Rightarrow> do { n \<leftarrow> h t;
            (h, l) \<leftarrow> (if sl_head l = sl_tail l then Some (h, l\<lparr>sl_head := None, sl_tail := None\<rparr>)
              else do { c \<leftarrow> before_tail h (sl_tail l) (sl_head l); m \<leftarrow> h c;
                        Some (h(c \<mapsto> m\<lparr>sl_next := None\<rparr>), l\<lparr>sl_tail := Some c\<rparr>) });
            h \<leftarrow> free_node h t;
            Some (h, Some (l\<lparr>sl_size := size_sub (sl_size l) 1\<rparr>), 0, if want then Some (sl_data n) else None) }))"

definition slist_size :: "slist option \<Rightarrow> nat" where
  "slist_size list = (case list of None \<Rightarrow> 0 | Some l \<Rightarrow> sl_size l)"

text \<open>The data handed to \<^verbatim>\<open>free_data\<close> are collected in order; \<open>cb\<close> tells whether it is not null.\<close>

partial_function (option) destroy_loop :: "sl_heap \<Rightarrow> bool \<Rightarrow> nat option \<Rightarrow> nat list \<Rightarrow> (sl_heap \<times> nat list) option" where
  "destroy_loop h cb current freed =
     (case current of
        None \<Rightarrow> Some (h, freed)
      | Some a \<Rightarrow> do { n \<leftarrow> h a;
          h \<leftarrow> free_node h a;
          destroy_loop h cb (sl_next n) (if cb \<and> sl_data n \<noteq> 0 then freed @ [sl_data n] else freed) })"

definition slist_destroy :: "sl_heap \<Rightarrow> slist option \<Rightarrow> bool \<Rightarrow> (sl_heap \<times> slist option \<times> nat \<times> nat list) option" where
  "slist_destroy h list cb =
     (case list of
        None \<Rightarrow> Some (h, list, 1, [])
      | Some l \<Rightarrow> do { (h, freed) \<leftarrow> destroy_loop h cb (sl_head l) [];
          Some (h, Some \<lparr>sl_head = None, sl_tail = None, sl_size = 0\<rparr>, 0, freed) })"

partial_function (option) remove_loop ::
  "sl_heap \<Rightarrow> slist \<Rightarrow> nat \<Rightarrow> nat option \<Rightarrow> nat option \<Rightarrow> (sl_heap \<times> slist \<times> nat) option" where
  "remove_loop h l d prev cur =
     (case cur of
        None \<Rightarrow> Some (h, l, 1)
      | Some c \<Rightarrow> do { n \<leftarrow> h c;
          if sl_data n = d then
            do { (h, l) \<leftarrow> (case prev of
                   Some p \<Rightarrow> do { m \<leftarrow> h p; Some (h(p \<mapsto> m\<lparr>sl_next := sl_next n\<rparr>), l) }
                 | None \<Rightarrow> Some (h, l\<lparr>sl_head := sl_next n\<rparr>));
                 let l = (if sl_tail l = cur then l\<lparr>sl_tail := prev\<rparr> else l);
                 h \<leftarrow> free_node h c;
                 Some (h, l\<lparr>sl_size := size_sub (sl_size l) 1\<rparr>, 0) }
          else remove_loop h l d cur (sl_next n) })"

definition slist_remove :: "sl_heap \<Rightarrow> slist option \<Rightarrow> nat \<Rightarrow> (sl_heap \<times> slist option \<times> nat) option" where
  "slist_remove h list d =
     (case list of
        None \<Rightarrow> Some (h, list, 1)
      | Some l \<Rightarrow> if d = 0 then Some (h, list, 1)
                 else map_option (\<lambda>(h, l, r). (h, Some l, r)) (remove_loop h l d None (sl_head l)))"

section \<open>Lists in the heap\<close>

fun path :: "sl_heap \<Rightarrow> nat option \<Rightarrow> (nat \<times> nat) list \<Rightarrow> nat option \<Rightarrow> bool" where
  "path h p [] q \<longleftrightarrow> p = q"
| "path h p ((a, d) # xs) q \<longleftrightarrow> p = Some a \<and> (\<exists>nx. h a = Some \<lparr>sl_data = d, sl_next = nx\<rparr> \<and> path h nx xs q)"

text \<open>\<open>cells h l xs\<close>: the list consists of the nodes and data in \<open>xs\<close>.\<close>

definition cells :: "sl_heap \<Rightarrow> slist \<Rightarrow> (nat \<times> nat) list \<Rightarrow> bool" where
  "cells h l xs \<longleftrightarrow> path h (sl_head l) xs None \<and> distinct (map fst xs)
     \<and> sl_tail l = (if xs = [] then None else Some (fst (last xs))) \<and> sl_size l = length xs \<and> length xs < 2 ^ 64"

definition slist_rep :: "sl_heap \<Rightarrow> slist \<Rightarrow> nat list \<Rightarrow> bool" where
  "slist_rep h l ds \<longleftrightarrow> (\<exists>xs. cells h l xs \<and> map snd xs = ds)"

lemma path_append: "path h p (xs @ ys) q \<longleftrightarrow> (\<exists>m. path h p xs m \<and> path h m ys q)"
  by (induction xs arbitrary: p) (auto, blast+)

lemma path_frame: "path h p xs q \<Longrightarrow> (\<And>a. a \<in> fst ` set xs \<Longrightarrow> h' a = h a) \<Longrightarrow> path h' p xs q"
  by (induction xs arbitrary: p) auto

lemma path_upd [simp]: "a \<notin> fst ` set xs \<Longrightarrow> path (h(a := v)) p xs q \<longleftrightarrow> path h p xs q"
  by (induction xs arbitrary: p) auto

lemma path_dom: "path h p xs q \<Longrightarrow> a \<in> fst ` set xs \<Longrightarrow> h a \<noteq> None"
  by (induction xs arbitrary: p) force+

lemma path_start: "path h p xs q \<Longrightarrow> xs \<noteq> [] \<Longrightarrow> p = Some (fst (hd xs))"
  by (cases xs) auto

lemma cells_fresh: "cells h l xs \<Longrightarrow> h a = None \<Longrightarrow> a \<notin> fst ` set xs"
  using path_dom [of h "sl_head l" xs None a] unfolding cells_def by blast

lemma insert_head_cells:
  assumes "cells h l xs" "h a = None" "Suc (length xs) < 2 ^ 64"
  shows "\<exists>h' l'. slist_insert_head h (Some a) (Some l) d = (h', Some l', 0) \<and> cells h' l' ((a, d) # xs)"
proof -
  have "a \<notin> fst ` set xs" using cells_fresh assms(1,2) by blast
  then show ?thesis
    using assms by (auto simp: slist_insert_head_def cells_def size_add_exact)
qed

lemma insert_tail_cells:
  assumes "cells h l xs" "h a = None" "Suc (length xs) < 2 ^ 64"
  shows "\<exists>h' l'. slist_insert_tail h (Some a) (Some l) d = Some (h', Some l', 0) \<and> cells h' l' (xs @ [(a, d)]) \<and> dom h' = insert a (dom h)"
proof (cases xs rule: rev_cases)
  case Nil
  then show ?thesis using assms by (auto simp: slist_insert_tail_def cells_def size_add_exact)
next
  case (snoc ys t)
  obtain c e where t: "t = (c, e)" by fastforce
  have p: "path h (sl_head l) ys (Some c)" "h c = Some \<lparr>sl_data = e, sl_next = None\<rparr>"
    using assms(1) by (auto simp: cells_def snoc t path_append)
  have a: "a \<notin> fst ` set xs" using cells_fresh assms(1,2) by blast
  let ?h = "h(a \<mapsto> \<lparr>sl_data = d, sl_next = None\<rparr>, c \<mapsto> \<lparr>sl_data = e, sl_next = Some a\<rparr>)"
  have "path ?h (sl_head l) ys (Some c)"
    using p(1) a assms(1) by (intro path_frame [OF p(1)]) (auto simp: snoc t cells_def)
  then have "path ?h (sl_head l) (xs @ [(a, d)]) None"
    using a by (auto simp: snoc t path_append)
  then show ?thesis
    using assms p a by (auto simp: slist_insert_tail_def cells_def snoc t size_add_exact)
qed

lemma remove_head_cells:
  assumes "cells h l ((a, d) # xs)"
  shows "\<exists>l'. slist_remove_head h (Some l) want = Some (h(a := None), Some l', 0, if want then Some d else None) \<and> cells (h(a := None)) l' xs"
proof -
  obtain nx where n: "sl_head l = Some a" "h a = Some \<lparr>sl_data = d, sl_next = nx\<rparr>" "path h nx xs None"
    using assms by (auto simp: cells_def)
  have "path (h(a := None)) nx xs None" using assms by (intro path_frame [OF n(3)]) (auto simp: cells_def)
  moreover have "nx = None \<longleftrightarrow> xs = []" using n(3) by (cases xs) auto
  ultimately show ?thesis
    using assms n by (auto simp: slist_remove_head_def free_node_def cells_def size_sub_exact)
qed

lemma before_tail_cells:
  "path h p (ys @ [(c, e), (t, d)]) None \<Longrightarrow> distinct (map fst (ys @ [(c, e), (t, d)])) \<Longrightarrow> before_tail h (Some t) p = Some c"
proof (induction ys arbitrary: p)
  case Nil
  then show ?case by (subst before_tail.simps) auto
next
  case (Cons y ys)
  obtain b k where y: "y = (b, k)" by fastforce
  obtain nx where n: "p = Some b" "h b = Some \<lparr>sl_data = k, sl_next = nx\<rparr>" "path h nx (ys @ [(c, e), (t, d)]) None"
    using Cons.prems(1) by (auto simp: y)
  have "nx \<noteq> Some t" using n(3) Cons.prems(2) by (cases ys) (auto simp: y)
  then show ?case using n Cons.IH [OF n(3)] Cons.prems(2) by (subst before_tail.simps) auto
qed

lemma remove_tail_cells:
  assumes "cells h l (xs @ [(t, d)])"
  shows "\<exists>h' l'. slist_remove_tail h (Some l) want = Some (h', Some l', 0, if want then Some d else None) \<and> cells h' l' xs"
proof (cases xs rule: rev_cases)
  case Nil
  then show ?thesis using assms by (auto simp: slist_remove_tail_def free_node_def cells_def size_sub_exact)
next
  case (snoc ys y)
  obtain c e where y: "y = (c, e)" by fastforce
  have p: "path h (sl_head l) (ys @ [(c, e), (t, d)]) None" "distinct (map fst (ys @ [(c, e), (t, d)]))" "sl_tail l = Some t"
    using assms by (auto simp: cells_def snoc y)
  have q: "path h (sl_head l) ys (Some c)" "h c = Some \<lparr>sl_data = e, sl_next = Some t\<rparr>" "h t = Some \<lparr>sl_data = d, sl_next = None\<rparr>"
    using p(1) by (auto simp: path_append)
  have "sl_head l \<noteq> sl_tail l" using p path_start [OF p(1)] by (cases ys) auto
  moreover have "path (h(c \<mapsto> \<lparr>sl_data = e, sl_next = None\<rparr>, t := None)) (sl_head l) xs None"
  proof -
    have "path (h(c \<mapsto> \<lparr>sl_data = e, sl_next = None\<rparr>, t := None)) (sl_head l) ys (Some c)"
      using p(2) by (intro path_frame [OF q(1)]) auto
    then show ?thesis using p(2) by (auto simp: snoc y path_append)
  qed
  ultimately show ?thesis
    using assms p(2,3) q before_tail_cells [OF p(1,2)]
    by (auto simp: slist_remove_tail_def free_node_def cells_def snoc y size_sub_exact)
qed

lemma destroy_cells:
  "path h p xs None \<Longrightarrow> distinct (map fst xs)
   \<Longrightarrow> destroy_loop h cb p fr = Some (h |` (- (fst ` set xs)), fr @ (if cb then filter (\<lambda>d. d \<noteq> 0) (map snd xs) else []))"
proof (induction xs arbitrary: h p fr)
  case Nil
  then show ?case by (subst destroy_loop.simps) (simp add: restrict_map_def)
next
  case (Cons x xs)
  obtain a d where x: "x = (a, d)" by fastforce
  obtain nx where n: "p = Some a" "h a = Some \<lparr>sl_data = d, sl_next = nx\<rparr>" "path h nx xs None"
    using Cons.prems(1) by (auto simp: x)
  have "path (h(a := None)) nx xs None" using Cons.prems(2) by (intro path_frame [OF n(3)]) (auto simp: x)
  note rec = Cons.IH [OF this]
  have "(h(a := None)) |` (- (fst ` set xs)) = h |` (- (fst ` set (x # xs)))" by (auto simp: x restrict_map_def fun_eq_iff)
  then have rec': "destroy_loop (h(a := None)) cb nx fr' = Some (h |` (- (fst ` set (x # xs))), fr' @ (if cb then filter (\<lambda>d. d \<noteq> 0) (map snd xs) else []))" for fr'
    using rec [of fr'] Cons.prems(2) by (simp only: x list.map distinct.simps simp_thms)
  show ?case using n by (subst destroy_loop.simps) (simp add: free_node_def rec', simp add: x)
qed

lemma unlink_cell:
  assumes "cells h l (us @ (c, d) # qs)"
  defines "prev \<equiv> (if us = [] then None else Some (fst (last us)))"
  shows "\<exists>h' l'. remove_loop h l d prev (Some c) = Some (h', l', 0) \<and> cells h' l' (us @ qs)"
proof -
  obtain nx where n: "path h (sl_head l) us (Some c)" "h c = Some \<lparr>sl_data = d, sl_next = nx\<rparr>" "path h nx qs None"
    using assms(1) by (auto simp: cells_def path_append)
  have tail: "sl_tail l = Some c \<longleftrightarrow> qs = []" using assms(1) last_in_set [of qs] by (auto simp: cells_def)
  show ?thesis
  proof (cases us rule: rev_cases)
    case Nil
    have "path (h(c := None)) nx qs None" using assms(1) by (intro path_frame [OF n(3)]) (auto simp: cells_def)
    then show ?thesis
      using assms(1) n tail Nil by (subst remove_loop.simps) (auto simp: prev_def free_node_def cells_def size_sub_exact)
  next
    case (snoc ys y)
    obtain b e where y: "y = (b, e)" by fastforce
    have b: "path h (sl_head l) ys (Some b)" "h b = Some \<lparr>sl_data = e, sl_next = Some c\<rparr>"
      using n(1) by (auto simp: snoc y path_append)
    let ?h = "h(b \<mapsto> \<lparr>sl_data = e, sl_next = nx\<rparr>, c := None)"
    have "path ?h (sl_head l) ys (Some b)" using assms(1) by (intro path_frame [OF b(1)]) (auto simp: snoc y cells_def)
    moreover have "path ?h nx qs None" using assms(1) by (intro path_frame [OF n(3)]) (auto simp: snoc y cells_def)
    ultimately have "path ?h (sl_head l) (us @ qs) None" using assms(1) by (auto simp: snoc y path_append cells_def)
    then show ?thesis
      using assms(1) n tail b snoc by (subst remove_loop.simps) (auto simp: prev_def free_node_def cells_def size_sub_exact y)
  qed
qed

lemma remove_loop_cells:
  assumes "cells h l (us @ vs)" "d \<notin> snd ` set us"
  shows "\<exists>h' l'. remove_loop h l d (if us = [] then None else Some (fst (last us))) (if vs = [] then None else Some (fst (hd vs)))
      = Some (h', l', of_bool (d \<notin> snd ` set vs)) \<and> slist_rep h' l' (remove1 d (map snd (us @ vs)))"
  using assms
proof (induction vs arbitrary: us)
  case Nil
  then show ?case by (subst remove_loop.simps) (auto simp: slist_rep_def remove1_idem image_iff)
next
  case (Cons v vs)
  obtain c e where v: "v = (c, e)" by fastforce
  show ?case
  proof (cases "e = d")
    case True
    then obtain h' l' where "remove_loop h l d (if us = [] then None else Some (fst (last us))) (Some c) = Some (h', l', 0)" "cells h' l' (us @ vs)"
      using unlink_cell [of h l us c d vs] Cons.prems(1) by (auto simp: v)
    moreover have "remove1 d (map snd (us @ v # vs)) = map snd (us @ vs)"
      using Cons.prems(2) True by (simp add: v remove1_append image_iff)
    ultimately show ?thesis using True by (auto simp: v slist_rep_def)
  next
    case False
    obtain nx where n: "h c = Some \<lparr>sl_data = e, sl_next = nx\<rparr>" "path h nx vs None"
      using Cons.prems(1) by (auto simp: v cells_def path_append)
    have "nx = (if vs = [] then None else Some (fst (hd vs)))" using n(2) by (cases vs) auto
    then show ?thesis
      using Cons.IH [of "us @ [v]"] Cons.prems False n by (subst remove_loop.simps) (auto simp: v)
  qed
qed

section \<open>The list as a sequence of data\<close>

lemma slist_repI: "cells h l xs \<Longrightarrow> map snd xs = ds \<Longrightarrow> slist_rep h l ds"
  by (auto simp: slist_rep_def)

lemma slist_repE:
  assumes "slist_rep h l ds"
  obtains xs where "cells h l xs" "map snd xs = ds" "length xs = length ds"
  using assms by (auto simp: slist_rep_def)

lemma insert_head_rep:
  assumes "slist_rep h l ds" "h a = None" "Suc (length ds) < 2 ^ 64"
  shows "\<exists>h' l'. slist_insert_head h (Some a) (Some l) d = (h', Some l', 0) \<and> slist_rep h' l' (d # ds)"
proof -
  obtain xs where xs: "cells h l xs" "map snd xs = ds" "length xs = length ds" using assms(1) by (rule slist_repE)
  obtain h' l' where "slist_insert_head h (Some a) (Some l) d = (h', Some l', 0)" "cells h' l' ((a, d) # xs)"
    using insert_head_cells [OF xs(1) assms(2)] assms(3) xs(3) by metis
  then show ?thesis using slist_repI [of h' l' "(a, d) # xs" "d # ds"] xs(2) by simp
qed

lemma insert_tail_rep:
  assumes "slist_rep h l ds" "h a = None" "Suc (length ds) < 2 ^ 64"
  shows "\<exists>h' l'. slist_insert_tail h (Some a) (Some l) d = Some (h', Some l', 0) \<and> slist_rep h' l' (ds @ [d]) \<and> dom h' = insert a (dom h)"
proof -
  obtain xs where xs: "cells h l xs" "map snd xs = ds" "length xs = length ds" using assms(1) by (rule slist_repE)
  obtain h' l' where "slist_insert_tail h (Some a) (Some l) d = Some (h', Some l', 0)" "cells h' l' (xs @ [(a, d)])" "dom h' = insert a (dom h)"
    using insert_tail_cells [OF xs(1) assms(2)] assms(3) xs(3) by metis
  then show ?thesis using slist_repI [of h' l' "xs @ [(a, d)]" "ds @ [d]"] xs(2) by simp
qed

lemma remove_head_rep:
  assumes "slist_rep h l ds" "ds \<noteq> []"
  shows "\<exists>h' l'. slist_remove_head h (Some l) True = Some (h', Some l', 0, Some (hd ds)) \<and> slist_rep h' l' (tl ds)"
proof -
  obtain xs where xs: "cells h l xs" "map snd xs = ds" using assms(1) by (rule slist_repE)
  then obtain b e ys where ys: "xs = (b, e) # ys" using assms(2) by (cases xs) auto
  obtain l' where "slist_remove_head h (Some l) True = Some (h(b := None), Some l', 0, Some e)" "cells (h(b := None)) l' ys"
    using remove_head_cells [of h l b e ys True] xs(1) ys by auto
  then show ?thesis using slist_repI [of "h(b := None)" l' ys "tl ds"] xs(2) ys by auto
qed

lemma remove_tail_rep:
  assumes "slist_rep h l ds" "ds \<noteq> []"
  shows "\<exists>h' l'. slist_remove_tail h (Some l) True = Some (h', Some l', 0, Some (last ds)) \<and> slist_rep h' l' (butlast ds)"
proof -
  obtain xs where xs: "cells h l xs" "map snd xs = ds" using assms(1) by (rule slist_repE)
  then obtain ys b e where ys: "xs = ys @ [(b, e)]" using assms(2) by (cases xs rule: rev_cases) auto
  obtain h' l' where "slist_remove_tail h (Some l) True = Some (h', Some l', 0, Some e)" "cells h' l' ys"
    using remove_tail_cells [of h l ys b e True] xs(1) ys by auto
  moreover have "last ds = e" "butlast ds = map snd ys" using xs(2) ys by (auto simp: butlast_append)
  ultimately show ?thesis using slist_repI [of h' l' ys "butlast ds"] by auto
qed

lemma remove_rep:
  assumes "slist_rep h l ds" "e \<noteq> 0"
  shows "\<exists>h' l'. slist_remove h (Some l) e = Some (h', Some l', of_bool (e \<notin> set ds)) \<and> slist_rep h' l' (remove1 e ds)"
proof -
  obtain xs where xs: "cells h l xs" "map snd xs = ds" using assms(1) by (rule slist_repE)
  have "sl_head l = (if xs = [] then None else Some (fst (hd xs)))" using xs(1) by (cases xs) (auto simp: cells_def)
  moreover have "snd ` set xs = set ds" using xs(2) by (metis list.set_map)
  ultimately obtain h' l' where "remove_loop h l e None (sl_head l) = Some (h', l', of_bool (e \<notin> set ds))" "slist_rep h' l' (remove1 e ds)"
    using remove_loop_cells [of h l "[]" xs e] xs by auto
  then show ?thesis using assms(2) by (simp add: slist_remove_def)
qed

lemma destroy_rep:
  assumes "slist_rep h l ds"
  shows "\<exists>h' l'. slist_destroy h (Some l) True = Some (h', Some l', 0, filter (\<lambda>d. d \<noteq> 0) ds) \<and> slist_rep h' l' []
    \<and> card (dom h - dom h') = length ds"
proof -
  obtain xs where xs: "cells h l xs" "map snd xs = ds" "length xs = length ds" using assms by (rule slist_repE)
  let ?h = "h |` (- (fst ` set xs))" and ?l = "\<lparr>sl_head = None, sl_tail = None, sl_size = 0\<rparr>"
  have p: "path h (sl_head l) xs None" "distinct (map fst xs)" using xs(1) by (simp_all add: cells_def)
  have "slist_destroy h (Some l) True = Some (?h, Some ?l, 0, filter (\<lambda>d. d \<noteq> 0) ds)"
    using destroy_cells [OF p, of True "[]"] xs(2) by (simp add: slist_destroy_def)
  moreover have "fst ` set xs \<subseteq> dom h" using path_dom [OF p(1)] by (auto simp del: fst_conv)
  then have "dom h - dom ?h = fst ` set xs" by auto
  then have "card (dom h - dom ?h) = length ds" using distinct_card [OF p(2)] xs(3) by simp
  moreover have "slist_rep ?h ?l []" by (rule slist_repI [of _ _ "[]"]) (simp_all add: cells_def)
  ultimately show ?thesis by blast
qed

lemma empty_rep: "slist_rep h l [] \<Longrightarrow> sl_head l = None \<and> sl_tail l = None"
  by (auto simp: slist_rep_def cells_def)

lemma size_rep: "slist_rep h l ds \<Longrightarrow> sl_size l = length ds"
  by (auto simp: slist_rep_def cells_def)

text \<open>Appending at the tail as the contract states it: the code of the result is dropped.\<close>

definition slist_append :: "sl_heap \<Rightarrow> nat option \<Rightarrow> slist option \<Rightarrow> nat \<Rightarrow> (sl_heap \<times> slist option) option" where
  "slist_append h new list d = map_option (\<lambda>(h, l, r). (h, l)) (slist_insert_tail h new list d)"

definition slist_ref :: "sl_heap \<Rightarrow> slist option \<Rightarrow> nat list \<Rightarrow> bool" where
  "slist_ref h list ds \<longleftrightarrow> (\<exists>l. list = Some l \<and> slist_rep h l ds)"

interpretation sl: append_list slist_ref slist_append
proof
  fix h :: sl_heap and list ds a d
  assume "slist_ref h list ds" and new: "h a = None" "Suc (length ds) < 2 ^ 64"
  then obtain l where l: "list = Some l" "slist_rep h l ds" by (auto simp: slist_ref_def)
  obtain h' l' where "slist_insert_tail h (Some a) (Some l) d = Some (h', Some l', 0)" "slist_rep h' l' (ds @ [d])" "dom h' = insert a (dom h)"
    using insert_tail_rep [OF l(2) new] by blast
  then show "\<exists>h' l'. slist_append h (Some a) list d = Some (h', l') \<and> slist_ref h' l' (ds @ [d]) \<and> dom h' = insert a (dom h)"
    by (simp add: slist_append_def slist_ref_def l(1))
next
  fix h :: sl_heap and list ds d
  assume "slist_ref h list ds"
  then show "slist_append h None list d = Some (h, list)"
    by (auto simp: slist_append_def slist_insert_tail_def slist_ref_def)
qed

section \<open>What the list promises\<close>

text \<open>
  C39: The singly linked list implements a sequence of data pointers. Insertions at either end with a
  fresh node, removals at either end and the removal by data pointer (of its first occurrence)
  change the sequence exactly so, never touch a freed node and return 0; on an empty list, without
  memory or without a match they return 1 and change nothing. The size is the length, destruction
  frees every node and hands each non-null data pointer to the callback in order, and a series of
  appends stores the data in order.
\<close>

theorem slist_refines_sequence:
  assumes "slist_rep h l ds"
  shows "(h a = None \<and> Suc (length ds) < 2 ^ 64 \<longrightarrow>
        (\<exists>h' l'. slist_insert_head h (Some a) (Some l) d = (h', Some l', 0) \<and> slist_rep h' l' (d # ds))
      \<and> (\<exists>h' l'. slist_insert_tail h (Some a) (Some l) d = Some (h', Some l', 0) \<and> slist_rep h' l' (ds @ [d])))
    \<and> slist_insert_head h None (Some l) d = (h, Some l, 1) \<and> slist_insert_tail h None (Some l) d = Some (h, Some l, 1)
    \<and> (if ds = [] then slist_remove_head h (Some l) True = Some (h, Some l, 1, None) \<and> slist_remove_tail h (Some l) True = Some (h, Some l, 1, None)
       else (\<exists>h' l'. slist_remove_head h (Some l) True = Some (h', Some l', 0, Some (hd ds)) \<and> slist_rep h' l' (tl ds))
          \<and> (\<exists>h' l'. slist_remove_tail h (Some l) True = Some (h', Some l', 0, Some (last ds)) \<and> slist_rep h' l' (butlast ds)))
    \<and> (e \<noteq> 0 \<longrightarrow> (\<exists>h' l'. slist_remove h (Some l) e = Some (h', Some l', of_bool (e \<notin> set ds)) \<and> slist_rep h' l' (remove1 e ds)))
    \<and> slist_size (Some l) = length ds
    \<and> (\<exists>h' l'. slist_destroy h (Some l) True = Some (h', Some l', 0, filter (\<lambda>d. d \<noteq> 0) ds) \<and> slist_rep h' l' []
         \<and> card (dom h - dom h') = length ds)
    \<and> (length ds + length new < 2 ^ 64 \<and> distinct (List.map_filter fst new) \<and> (\<forall>x \<in> set new. \<forall>a. fst x = Some a \<longrightarrow> h a = None) \<longrightarrow>
        (\<exists>h' l'. append_all slist_append h (Some l) new = Some (h', l') \<and> slist_ref h' l' (ds @ map snd (filter (\<lambda>x. fst x \<noteq> None) new))))"
proof -
  have ref: "slist_ref h (Some l) ds" using assms by (simp add: slist_ref_def)
  have empty: "slist_remove_head h (Some l) True = Some (h, Some l, 1, None) \<and> slist_remove_tail h (Some l) True = Some (h, Some l, 1, None)" if "ds = []"
    using empty_rep [of h l] assms that by (simp add: slist_remove_head_def slist_remove_tail_def)
  have ends: "if ds = [] then slist_remove_head h (Some l) True = Some (h, Some l, 1, None) \<and> slist_remove_tail h (Some l) True = Some (h, Some l, 1, None)
       else (\<exists>h' l'. slist_remove_head h (Some l) True = Some (h', Some l', 0, Some (hd ds)) \<and> slist_rep h' l' (tl ds))
          \<and> (\<exists>h' l'. slist_remove_tail h (Some l) True = Some (h', Some l', 0, Some (last ds)) \<and> slist_rep h' l' (butlast ds))"
    using empty remove_head_rep [OF assms] remove_tail_rep [OF assms] by (cases "ds = []") (simp_all only: if_True if_False simp_thms)
  have none: "slist_insert_head h None (Some l) d = (h, Some l, 1)" "slist_insert_tail h None (Some l) d = Some (h, Some l, 1)"
      "slist_size (Some l) = length ds"
    using size_rep [OF assms] by (simp_all add: slist_insert_head_def slist_insert_tail_def slist_size_def)
  have all: "\<exists>h' l'. append_all slist_append h (Some l) new = Some (h', l') \<and> slist_ref h' l' (ds @ map snd (filter (\<lambda>x. fst x \<noteq> None) new))"
    if "length ds + length new < 2 ^ 64 \<and> distinct (List.map_filter fst new) \<and> (\<forall>x \<in> set new. \<forall>a. fst x = Some a \<longrightarrow> h a = None)"
    using that by (intro sl.append_all_data [OF ref]) auto
  have inserts: "(\<exists>h' l'. slist_insert_head h (Some a) (Some l) d = (h', Some l', 0) \<and> slist_rep h' l' (d # ds))
      \<and> (\<exists>h' l'. slist_insert_tail h (Some a) (Some l) d = Some (h', Some l', 0) \<and> slist_rep h' l' (ds @ [d]))"
    if "h a = None \<and> Suc (length ds) < 2 ^ 64"
    using insert_head_rep [OF assms conjunct1 [OF that] conjunct2 [OF that], of d]
      insert_tail_rep [OF assms conjunct1 [OF that] conjunct2 [OF that], of d] by auto
  show ?thesis
    by (intro conjI impI ends none destroy_rep [OF assms] remove_rep [OF assms] all inserts [THEN conjunct1] inserts [THEN conjunct2]) blast+
qed

theorem slist_refines_sequence_witness:
  "\<exists>h' l'. slist_insert_tail Map.empty (Some 16) (Some \<lparr>sl_head = None, sl_tail = None, sl_size = 0\<rparr>) 5 = Some (h', Some l', 0) \<and> slist_rep h' l' [5]"
proof -
  have "slist_rep Map.empty \<lparr>sl_head = None, sl_tail = None, sl_size = 0\<rparr> []" by (simp add: slist_rep_def cells_def)
  from slist_refines_sequence [OF this, of 16 5] show ?thesis by simp
qed

end
