(* ===== verification/Clist.thy ===== *)
theory Clist
  imports List_Spec
begin

text \<open>
  \<^verbatim>\<open>src/libs/list/circular_list.c\<close>: the doubly linked list that the kernel uses for children,
  mounts and attributes. Its ends are null pointers: it is not circular, whatever its name says. The
  heap maps addresses to nodes; an access to an address that holds no node and a loop that does not
  end are the outer \<open>None\<close>. The argument \<open>new\<close> is what \<^verbatim>\<open>malloc\<close> returns. The data
  handed to a callback are collected in order.
\<close>

section \<open>The functions\<close>

record clist_node =
  cl_data :: nat
  cl_prev :: "nat option"
  cl_next :: "nat option"

type_synonym cl_heap = "nat \<Rightarrow> clist_node option"

definition clist_alloc :: "cl_heap \<Rightarrow> nat option \<Rightarrow> nat \<Rightarrow> cl_heap \<times> nat option" where
  "clist_alloc h new d =
     (case new of None \<Rightarrow> (h, None) | Some a \<Rightarrow> (h(a \<mapsto> \<lparr>cl_data = d, cl_prev = None, cl_next = None\<rparr>), Some a))"

definition cl_free :: "cl_heap \<Rightarrow> nat \<Rightarrow> cl_heap option" where
  "cl_free h a = (if h a = None then None else Some (h(a := None)))"

definition set_cl_prev :: "cl_heap \<Rightarrow> nat \<Rightarrow> nat option \<Rightarrow> cl_heap option" where
  "set_cl_prev h a v = map_option (\<lambda>n. h(a \<mapsto> n\<lparr>cl_prev := v\<rparr>)) (h a)"

definition set_cl_next :: "cl_heap \<Rightarrow> nat \<Rightarrow> nat option \<Rightarrow> cl_heap option" where
  "set_cl_next h a v = map_option (\<lambda>n. h(a \<mapsto> n\<lparr>cl_next := v\<rparr>)) (h a)"

partial_function (option) free_loop :: "cl_heap \<Rightarrow> nat option \<Rightarrow> cl_heap option" where
  "free_loop h clist =
     (case clist of None \<Rightarrow> Some h | Some a \<Rightarrow> do { n \<leftarrow> h a; h \<leftarrow> cl_free h a; free_loop h (cl_next n) })"

definition clist_free :: "cl_heap \<Rightarrow> nat option \<Rightarrow> (cl_heap \<times> nat option) option" where
  "clist_free h clist = map_option (\<lambda>h. (h, None)) (free_loop h clist)"

partial_function (option) free_with_loop :: "cl_heap \<Rightarrow> nat option \<Rightarrow> nat list \<Rightarrow> (cl_heap \<times> nat list) option" where
  "free_with_loop h clist calls =
     (case clist of
        None \<Rightarrow> Some (h, calls)
      | Some a \<Rightarrow> do { n \<leftarrow> h a; h \<leftarrow> cl_free h a; free_with_loop h (cl_next n) (calls @ [cl_data n]) })"

definition clist_free_with :: "cl_heap \<Rightarrow> nat option \<Rightarrow> (cl_heap \<times> nat option \<times> nat list) option" where
  "clist_free_with h clist = map_option (\<lambda>(h, calls). (h, None, calls)) (free_with_loop h clist [])"

partial_function (option) to_tail :: "cl_heap \<Rightarrow> nat \<Rightarrow> nat option" where
  "to_tail h a = do { n \<leftarrow> h a; case cl_next n of None \<Rightarrow> Some a | Some b \<Rightarrow> to_tail h b }"

partial_function (option) to_head :: "cl_heap \<Rightarrow> nat \<Rightarrow> nat option" where
  "to_head h a = do { n \<leftarrow> h a; case cl_prev n of None \<Rightarrow> Some a | Some b \<Rightarrow> to_head h b }"

definition clist_append :: "cl_heap \<Rightarrow> nat option \<Rightarrow> nat option \<Rightarrow> nat \<Rightarrow> (cl_heap \<times> nat option) option" where
  "clist_append h new clist d =
     (let (h, node) = clist_alloc h new d in
      case (node, clist) of
        (None, _) \<Rightarrow> Some (h, clist)
      | (Some a, None) \<Rightarrow> Some (h, Some a)
      | (Some a, Some c) \<Rightarrow> do { t \<leftarrow> to_tail h c;
          h \<leftarrow> set_cl_next h t (Some a); h \<leftarrow> set_cl_prev h a (Some t); Some (h, clist) })"

definition clist_prepend :: "cl_heap \<Rightarrow> nat option \<Rightarrow> nat option \<Rightarrow> nat \<Rightarrow> (cl_heap \<times> nat option) option" where
  "clist_prepend h new clist d =
     (let (h, node) = clist_alloc h new d in
      case node of
        None \<Rightarrow> Some (h, clist)
      | Some a \<Rightarrow> do { h \<leftarrow> set_cl_next h a clist;
          h \<leftarrow> (case clist of None \<Rightarrow> Some h | Some c \<Rightarrow> set_cl_prev h c (Some a)); Some (h, Some a) })"

definition clist_head :: "cl_heap \<Rightarrow> nat option \<Rightarrow> nat option option" where
  "clist_head h clist = (case clist of None \<Rightarrow> Some None | Some a \<Rightarrow> map_option Some (to_head h a))"

definition clist_tail :: "cl_heap \<Rightarrow> nat option \<Rightarrow> nat option option" where
  "clist_tail h clist = (case clist of None \<Rightarrow> Some None | Some a \<Rightarrow> map_option Some (to_tail h a))"

text \<open>The popped data pointer is the last component, 0 for an empty list.\<close>

definition clist_pop :: "cl_heap \<Rightarrow> nat option option \<Rightarrow> (cl_heap \<times> nat option option \<times> nat) option" where
  "clist_pop h clist_p =
     (case clist_p of
        Some (Some c) \<Rightarrow> do { t \<leftarrow> clist_tail h (Some c); a \<leftarrow> t; n \<leftarrow> h a;
          let c' = (if c = a then cl_prev n else Some c);
          h \<leftarrow> (case cl_prev n of None \<Rightarrow> Some h | Some p \<Rightarrow> set_cl_next h p None);
          h \<leftarrow> cl_free h a;
          Some (h, Some c', cl_data n) }
      | _ \<Rightarrow> Some (h, clist_p, 0))"

fun nth_loop :: "(clist_node \<Rightarrow> nat option) \<Rightarrow> cl_heap \<Rightarrow> nat \<Rightarrow> nat \<Rightarrow> nat option option" where
  "nth_loop dir h 0 a = Some (Some a)"
| "nth_loop dir h (Suc n) a = do { x \<leftarrow> h a; case dir x of None \<Rightarrow> Some None | Some b \<Rightarrow> nth_loop dir h n b }"

definition clist_nth :: "cl_heap \<Rightarrow> nat option \<Rightarrow> nat \<Rightarrow> nat option option" where
  "clist_nth h clist n =
     (case clist of None \<Rightarrow> Some None | Some a \<Rightarrow> do { b \<leftarrow> to_head h a; nth_loop cl_next h n b })"

definition clist_nth_last :: "cl_heap \<Rightarrow> nat option \<Rightarrow> nat \<Rightarrow> nat option option" where
  "clist_nth_last h clist n =
     (case clist of None \<Rightarrow> Some None | Some a \<Rightarrow> do { b \<leftarrow> to_tail h a; nth_loop cl_prev h n b })"

partial_function (option) clist_search :: "cl_heap \<Rightarrow> nat option \<Rightarrow> nat \<Rightarrow> bool option" where
  "clist_search h clist d =
     (case clist of
        None \<Rightarrow> Some False
      | Some a \<Rightarrow> do { n \<leftarrow> h a; if cl_data n = d then Some True else clist_search h (cl_next n) d })"

text \<open>Taking the first node off, and taking a later node out of the middle; both free it.\<close>

definition drop_first :: "cl_heap \<Rightarrow> nat \<Rightarrow> (cl_heap \<times> nat option) option" where
  "drop_first h a =
     do { n \<leftarrow> h a;
          h \<leftarrow> (case cl_next n of None \<Rightarrow> Some h | Some b \<Rightarrow> set_cl_prev h b None);
          h \<leftarrow> cl_free h a;
          Some (h, cl_next n) }"

definition take_out :: "cl_heap \<Rightarrow> nat \<Rightarrow> cl_heap option" where
  "take_out h a =
     do { n \<leftarrow> h a; p \<leftarrow> cl_prev n;
          h \<leftarrow> set_cl_next h p (cl_next n);
          h \<leftarrow> (case cl_next n of None \<Rightarrow> Some h | Some b \<Rightarrow> set_cl_prev h b (cl_prev n));
          cl_free h a }"

partial_function (option) delete_loop :: "cl_heap \<Rightarrow> nat option \<Rightarrow> nat \<Rightarrow> (cl_heap \<times> nat list) option" where
  "delete_loop h cur d =
     (case cur of
        None \<Rightarrow> Some (h, [])
      | Some a \<Rightarrow> do { n \<leftarrow> h a;
          if cl_data n = d then map_option (\<lambda>h. (h, [cl_data n])) (take_out h a) else delete_loop h (cl_next n) d })"

definition clist_delete :: "cl_heap \<Rightarrow> nat option \<Rightarrow> nat \<Rightarrow> (cl_heap \<times> nat option) option" where
  "clist_delete h clist d =
     (case clist of
        None \<Rightarrow> Some (h, None)
      | Some a \<Rightarrow> do { n \<leftarrow> h a;
          if cl_data n = d then drop_first h a
          else do { (h, _) \<leftarrow> delete_loop h (cl_next n) d; Some (h, clist) } })"

definition clist_delete_with :: "cl_heap \<Rightarrow> nat option \<Rightarrow> nat \<Rightarrow> bool \<Rightarrow> (cl_heap \<times> nat option \<times> nat list) option" where
  "clist_delete_with h clist d cb =
     (case clist of
        None \<Rightarrow> Some (h, None, [])
      | Some a \<Rightarrow> do { n \<leftarrow> h a;
          if cl_data n = d then do { (h, c) \<leftarrow> drop_first h a; Some (h, c, if cb then [cl_data n] else []) }
          else do { (h, calls) \<leftarrow> delete_loop h (cl_next n) d; Some (h, clist, if cb then calls else []) } })"

definition clist_delete_node :: "cl_heap \<Rightarrow> nat option \<Rightarrow> nat option \<Rightarrow> (cl_heap \<times> nat option) option" where
  "clist_delete_node h clist node =
     (case (clist, node) of
        (Some c, Some a) \<Rightarrow> if c = a then drop_first h c else do { h \<leftarrow> take_out h a; Some (h, clist) }
      | _ \<Rightarrow> Some (h, clist))"

definition clist_delete_node_with ::
  "cl_heap \<Rightarrow> nat option \<Rightarrow> nat option \<Rightarrow> bool \<Rightarrow> (cl_heap \<times> nat option \<times> nat list) option" where
  "clist_delete_node_with h clist node cb =
     (case (clist, node) of
        (Some c, Some a) \<Rightarrow> do { n \<leftarrow> h a;
          let calls = (if cb then [cl_data n] else []);
          if c = a then do { (h, c) \<leftarrow> drop_first h c; Some (h, c, calls) }
          else do { h \<leftarrow> take_out h a; Some (h, clist, calls) } }
      | _ \<Rightarrow> Some (h, clist, []))"

partial_function (option) length_loop :: "cl_heap \<Rightarrow> nat option \<Rightarrow> nat \<Rightarrow> nat option" where
  "length_loop h cur n =
     (case cur of None \<Rightarrow> Some n | Some a \<Rightarrow> do { x \<leftarrow> h a; length_loop h (cl_next x) (size_add n 1) })"

definition clist_length :: "cl_heap \<Rightarrow> nat option \<Rightarrow> nat option" where
  "clist_length h clist = length_loop h clist 0"

text \<open>
  The macros for loops over a list. The code of \<^verbatim>\<open>clist_foreach_cnt\<close> runs on the heap and
  a state of its own, the expression of the searches is a predicate on the node or on its data.
\<close>

partial_function (option) clist_foreach_cnt ::
  "(nat \<Rightarrow> nat \<Rightarrow> cl_heap \<times> 's \<Rightarrow> (cl_heap \<times> 's) option) \<Rightarrow> nat \<Rightarrow> nat option \<Rightarrow> cl_heap \<times> 's \<Rightarrow> (cl_heap \<times> 's) option" where
  "clist_foreach_cnt code i node st =
     (case node of
        None \<Rightarrow> Some st
      | Some a \<Rightarrow> do { st \<leftarrow> code i a st; n \<leftarrow> fst st a; clist_foreach_cnt code (size_add i 1) (cl_next n) st })"

partial_function (option) clist_first_node :: "cl_heap \<Rightarrow> nat option \<Rightarrow> (nat \<Rightarrow> bool) \<Rightarrow> nat option option" where
  "clist_first_node h node expr =
     (case node of
        None \<Rightarrow> Some None
      | Some a \<Rightarrow> if expr a then Some (Some a) else do { n \<leftarrow> h a; clist_first_node h (cl_next n) expr })"

partial_function (option) clist_first :: "cl_heap \<Rightarrow> nat option \<Rightarrow> (nat \<Rightarrow> bool) \<Rightarrow> nat option" where
  "clist_first h node expr =
     (case node of
        None \<Rightarrow> Some 0
      | Some a \<Rightarrow> do { n \<leftarrow> h a; if expr (cl_data n) then Some (cl_data n) else clist_first h (cl_next n) expr })"

section \<open>Lists in the heap\<close>

fun seg :: "cl_heap \<Rightarrow> nat option \<Rightarrow> nat option \<Rightarrow> (nat \<times> nat) list \<Rightarrow> nat option \<Rightarrow> nat option \<Rightarrow> bool" where
  "seg h b p [] l q \<longleftrightarrow> p = q \<and> b = l"
| "seg h b p ((a, d) # xs) l q \<longleftrightarrow>
     p = Some a \<and> (\<exists>nx. h a = Some \<lparr>cl_data = d, cl_prev = b, cl_next = nx\<rparr> \<and> seg h (Some a) nx xs l q)"

definition at_last :: "nat option \<Rightarrow> (nat \<times> nat) list \<Rightarrow> nat option" where
  "at_last b xs = (if xs = [] then b else Some (fst (last xs)))"

definition at_first :: "(nat \<times> nat) list \<Rightarrow> nat option \<Rightarrow> nat option" where
  "at_first xs q = (if xs = [] then q else Some (fst (hd xs)))"

lemma at_ends [simp]:
  "at_last b [] = b" "at_last b (xs @ [x]) = Some (fst x)" "at_last b (x # xs) = at_last (Some (fst x)) xs"
  "at_first [] q = q" "at_first (x # xs) q = Some (fst x)"
  by (simp_all add: at_last_def at_first_def)

text \<open>\<open>clist_cells h c xs\<close>: the list that starts at \<open>c\<close> has the nodes and data in \<open>xs\<close>.\<close>

definition clist_cells :: "cl_heap \<Rightarrow> nat option \<Rightarrow> (nat \<times> nat) list \<Rightarrow> bool" where
  "clist_cells h c xs \<longleftrightarrow> seg h None c xs (at_last None xs) None \<and> distinct (map fst xs)"

lemma seg_ends: "seg h b p xs l q \<Longrightarrow> l = at_last b xs \<and> p = at_first xs q"
  by (induction xs arbitrary: b p) (auto simp: at_last_def at_first_def)

lemma seg_append: "seg h b p (xs @ ys) l q \<longleftrightarrow> (\<exists>m n. seg h b p xs m n \<and> seg h m n ys l q)"
  by (induction xs arbitrary: b p) (auto, blast+)

lemma seg_upd [simp]: "a \<notin> fst ` set xs \<Longrightarrow> seg (h(a := v)) b p xs l q \<longleftrightarrow> seg h b p xs l q"
  by (induction xs arbitrary: b p) auto

lemma seg_dom: "seg h b p xs l q \<Longrightarrow> a \<in> fst ` set xs \<Longrightarrow> h a \<noteq> None"
  by (induction xs arbitrary: b p) force+

lemma cells_split:
  "clist_cells h c (us @ (a, d) # vs) \<longleftrightarrow>
     (seg h None c us (at_last None us) (Some a)
      \<and> h a = Some \<lparr>cl_data = d, cl_prev = at_last None us, cl_next = at_first vs None\<rparr>
      \<and> seg h (Some a) (at_first vs None) vs (at_last (Some a) vs) None \<and> distinct (map fst (us @ (a, d) # vs)))"
proof
  have last: "at_last None (us @ (a, d) # vs) = at_last (Some a) vs" by (simp add: at_last_def)
  show "seg h None c us (at_last None us) (Some a)
      \<and> h a = Some \<lparr>cl_data = d, cl_prev = at_last None us, cl_next = at_first vs None\<rparr>
      \<and> seg h (Some a) (at_first vs None) vs (at_last (Some a) vs) None \<and> distinct (map fst (us @ (a, d) # vs))"
    if cells: "clist_cells h c (us @ (a, d) # vs)"
  proof -
    obtain m nx where s: "seg h None c us m (Some a)" "h a = Some \<lparr>cl_data = d, cl_prev = m, cl_next = nx\<rparr>"
        "seg h (Some a) nx vs (at_last (Some a) vs) None"
      using cells unfolding clist_cells_def seg_append last by auto
    then have "m = at_last None us" "nx = at_first vs None" using seg_ends by blast+
    then show ?thesis using s cells by (simp add: clist_cells_def)
  qed
  show "clist_cells h c (us @ (a, d) # vs)"
    if "seg h None c us (at_last None us) (Some a)
      \<and> h a = Some \<lparr>cl_data = d, cl_prev = at_last None us, cl_next = at_first vs None\<rparr>
      \<and> seg h (Some a) (at_first vs None) vs (at_last (Some a) vs) None \<and> distinct (map fst (us @ (a, d) # vs))"
    using that unfolding clist_cells_def seg_append last by auto
qed

lemma cells_join:
  assumes "seg h None c us m n" "seg h m n vs l None" "distinct (map fst (us @ vs))"
  shows "clist_cells h c (us @ vs)"
proof -
  have "seg h None c (us @ vs) l None" using assms(1,2) unfolding seg_append by blast
  then show ?thesis using assms(3) seg_ends unfolding clist_cells_def by blast
qed

text \<open>The heap after changing the next link of the last node of a segment, or the previous link of its first.\<close>

lemma cells_first: "clist_cells h c xs \<Longrightarrow> c = at_first xs None"
  unfolding clist_cells_def using seg_ends by blast

lemma clist_fresh: "clist_cells h c xs \<Longrightarrow> h a = None \<Longrightarrow> a \<notin> fst ` set xs"
  using seg_dom [of h None c xs _ None a] unfolding clist_cells_def by blast

lemma seg_retail:
  assumes "seg h b p (xs @ [(a, d)]) l q" "distinct (map fst (xs @ [(a, d)]))"
  shows "h a = Some \<lparr>cl_data = d, cl_prev = at_last b xs, cl_next = q\<rparr>"
    "seg (h(a \<mapsto> \<lparr>cl_data = d, cl_prev = at_last b xs, cl_next = q'\<rparr>)) b p (xs @ [(a, d)]) (Some a) q'"
proof -
  obtain m where s: "seg h b p xs m (Some a)" "h a = Some \<lparr>cl_data = d, cl_prev = m, cl_next = q\<rparr>"
    using assms(1) by (auto simp: seg_append)
  then have "m = at_last b xs" using seg_ends by blast
  then show "h a = Some \<lparr>cl_data = d, cl_prev = at_last b xs, cl_next = q\<rparr>"
    "seg (h(a \<mapsto> \<lparr>cl_data = d, cl_prev = at_last b xs, cl_next = q'\<rparr>)) b p (xs @ [(a, d)]) (Some a) q'"
    using s assms(2) by (auto simp: seg_append)
qed

lemma seg_rehead:
  assumes "seg h b p ((a, d) # xs) l q" "distinct (map fst ((a, d) # xs))"
  shows "h a = Some \<lparr>cl_data = d, cl_prev = b, cl_next = at_first xs q\<rparr>"
    "seg (h(a \<mapsto> \<lparr>cl_data = d, cl_prev = b', cl_next = at_first xs q\<rparr>)) b' p ((a, d) # xs) l q"
proof -
  obtain nx where s: "p = Some a" "h a = Some \<lparr>cl_data = d, cl_prev = b, cl_next = nx\<rparr>" "seg h (Some a) nx xs l q"
    using assms(1) by auto
  then have "nx = at_first xs q" using seg_ends by blast
  then show "h a = Some \<lparr>cl_data = d, cl_prev = b, cl_next = at_first xs q\<rparr>"
    "seg (h(a \<mapsto> \<lparr>cl_data = d, cl_prev = b', cl_next = at_first xs q\<rparr>)) b' p ((a, d) # xs) l q"
    using s assms(2) by auto
qed

lemma to_tail_seg: "seg h b (Some a) ((a, d) # xs) l None \<Longrightarrow> to_tail h a = Some (fst (last ((a, d) # xs)))"
proof (induction xs arbitrary: b a d)
  case Nil
  then show ?case by (subst to_tail.simps) auto
next
  case (Cons x xs)
  obtain e f where x: "x = (e, f)" by fastforce
  have "h a = Some \<lparr>cl_data = d, cl_prev = b, cl_next = Some e\<rparr>" "seg h (Some a) (Some e) ((e, f) # xs) l None"
    using Cons.prems by (auto simp: x)
  then show ?case using Cons.IH [of "Some a" e f] by (subst to_tail.simps) (simp add: x)
qed

lemma to_head_seg: "seg h None p (xs @ [(a, d)]) l q \<Longrightarrow> to_head h a = Some (fst (hd (xs @ [(a, d)])))"
proof (induction xs arbitrary: a d l q rule: rev_induct)
  case Nil
  then show ?case by (subst to_head.simps) auto
next
  case (snoc x xs)
  obtain e f where x: "x = (e, f)" by fastforce
  obtain m where s: "seg h None p (xs @ [x]) m (Some a)" "h a = Some \<lparr>cl_data = d, cl_prev = m, cl_next = q\<rparr>"
    using snoc.prems [unfolded seg_append [of h None p "xs @ [x]"]] by auto
  have "m = Some e" using seg_ends [OF s(1)] by (simp add: at_last_def x)
  then show ?case using s snoc.IH [of e f m "Some a"] by (subst to_head.simps) (auto simp: x hd_append)
qed

section \<open>The operations on the nodes\<close>

lemma append_cells:
  assumes "clist_cells h c xs" "h a = None"
  shows "\<exists>h'. clist_append h (Some a) c d = Some (h', at_first (xs @ [(a, d)]) None) \<and> clist_cells h' (at_first (xs @ [(a, d)]) None) (xs @ [(a, d)])
    \<and> dom h' = insert a (dom h)"
proof (cases xs rule: rev_cases)
  case Nil
  then show ?thesis
    using assms by (auto simp: clist_append_def clist_alloc_def clist_cells_def)
next
  case (snoc ys y)
  obtain t e where y: "y = (t, e)" by fastforce
  have a: "a \<notin> fst ` set xs" using clist_fresh assms by blast
  let ?h = "h(a \<mapsto> \<lparr>cl_data = d, cl_prev = None, cl_next = None\<rparr>)"
  have d: "distinct (map fst (ys @ [(t, e)]))" "a \<noteq> t" using assms(1) a by (auto simp: clist_cells_def snoc y)
  have s: "seg h None c (ys @ [(t, e)]) (Some t) None" using assms(1) by (simp add: clist_cells_def snoc y)
  then have s': "seg ?h None c (ys @ [(t, e)]) (Some t) None" using a by (subst seg_upd) (simp_all add: snoc y)
  note t = seg_retail [OF s' d(1)]
  obtain b f zs where xs: "xs = (b, f) # zs" using snoc by (metis Nil_is_append_conv list.exhaust not_Cons_self2 surj_pair)
  have c: "c = Some b" "at_first (xs @ [(a, d)]) None = c" using cells_first [OF assms(1)] by (simp_all add: xs)
  have eq: "(b, f) # zs = ys @ [(t, e)]" using snoc xs y by simp
  have "to_tail ?h b = Some t"
    using to_tail_seg [of ?h None b f zs "Some t"] s' unfolding c(1) eq by simp
  then have "clist_append h (Some a) c d = Some (?h(t \<mapsto> \<lparr>cl_data = e, cl_prev = at_last None ys, cl_next = Some a\<rparr>,
      a \<mapsto> \<lparr>cl_data = d, cl_prev = Some t, cl_next = None\<rparr>), c)"
    using t(1) d(2) c(1) by (simp add: clist_append_def clist_alloc_def set_cl_next_def set_cl_prev_def)
  moreover have "clist_cells (?h(t \<mapsto> \<lparr>cl_data = e, cl_prev = at_last None ys, cl_next = Some a\<rparr>,
      a \<mapsto> \<lparr>cl_data = d, cl_prev = Some t, cl_next = None\<rparr>)) c (xs @ [(a, d)])"
    using t(2) [of "Some a"] a d unfolding cells_split fun_upd_twist [OF d(2)] by (simp add: snoc y)
  moreover have "t \<in> dom h" using t(1) d(2) by (auto split: if_splits)
  ultimately show ?thesis using c(2) by auto
qed

lemma prepend_cells:
  assumes "clist_cells h c xs" "h a = None"
  shows "\<exists>h'. clist_prepend h (Some a) c d = Some (h', Some a) \<and> clist_cells h' (Some a) ((a, d) # xs)"
proof (cases xs)
  case Nil
  then show ?thesis
    using assms by (auto simp: clist_prepend_def clist_alloc_def clist_cells_def set_cl_next_def)
next
  case (Cons x ys)
  obtain b e where x: "x = (b, e)" by fastforce
  have a: "a \<notin> fst ` set xs" using clist_fresh assms by blast
  have s: "seg h None c ((b, e) # ys) (at_last None xs) None" "distinct (map fst ((b, e) # ys))"
    using assms(1) by (simp_all add: clist_cells_def Cons x)
  note r = seg_rehead [OF s]
  have c: "c = Some b" using s(1) by simp
  let ?h = "h(a \<mapsto> \<lparr>cl_data = d, cl_prev = None, cl_next = c\<rparr>, b \<mapsto> \<lparr>cl_data = e, cl_prev = Some a, cl_next = at_first ys None\<rparr>)"
  have ab: "a \<noteq> b" using a by (simp add: Cons x)
  have "clist_prepend h (Some a) c d = Some (?h, Some a)"
    using r(1) ab c by (simp add: clist_prepend_def clist_alloc_def set_cl_next_def set_cl_prev_def)
  moreover have "seg (h(b \<mapsto> \<lparr>cl_data = e, cl_prev = Some a, cl_next = at_first ys None\<rparr>)) (Some a) c xs (at_last None xs) None"
    using r(2) [of "Some a"] by (simp add: Cons x)
  then have "seg ?h (Some a) c xs (at_last None xs) None" using a ab by (subst fun_upd_twist) auto
  then have "clist_cells ?h (Some a) ((a, d) # xs)"
    using a ab s(2) Cons by (auto simp: clist_cells_def x)
  ultimately show ?thesis by blast
qed

lemma drop_first_cells:
  assumes "clist_cells h c ((a, d) # xs)"
  shows "\<exists>h'. drop_first h a = Some (h', at_first xs None) \<and> clist_cells h' (at_first xs None) xs"
proof (cases xs)
  case Nil
  then show ?thesis using assms by (auto simp: drop_first_def clist_cells_def cl_free_def)
next
  case (Cons x ys)
  obtain b e where x: "x = (b, e)" by fastforce
  have s: "h a = Some \<lparr>cl_data = d, cl_prev = None, cl_next = Some b\<rparr>" "seg h (Some a) (Some b) ((b, e) # ys) (at_last None xs) None"
      "distinct (map fst ((b, e) # ys))" "a \<notin> fst ` set xs" "a \<noteq> b"
    using assms by (auto simp: clist_cells_def Cons x)
  note r = seg_rehead [OF s(2,3)]
  have "seg (h(b \<mapsto> \<lparr>cl_data = e, cl_prev = None, cl_next = at_first ys None\<rparr>, a := None)) None (Some b) xs (at_last None xs) None"
    using r(2) [of None] s(4) by (simp add: Cons x)
  then show ?thesis
    using s r(1) by (auto simp: drop_first_def set_cl_prev_def cl_free_def clist_cells_def Cons x)
qed

lemma take_out_cells:
  assumes "clist_cells h c (us @ (a, d) # vs)" "us \<noteq> []"
  shows "\<exists>h'. take_out h a = Some h' \<and> clist_cells h' c (us @ vs)"
proof -
  obtain ys p e where us: "us = ys @ [(p, e)]" using assms(2) by (metis append_butlast_last_id surj_pair)
  have dist: "distinct (map fst (us @ (a, d) # vs))" and ha: "h a = Some \<lparr>cl_data = d, cl_prev = Some p, cl_next = at_first vs None\<rparr>"
    and s: "seg h None c (ys @ [(p, e)]) (Some p) (Some a)" "seg h (Some a) (at_first vs None) vs (at_last (Some a) vs) None"
    using assms(1) unfolding cells_split by (simp_all add: us)
  note t = seg_retail [OF s(1)]
  let ?n = "\<lparr>cl_data = e, cl_prev = at_last None ys, cl_next = at_first vs None\<rparr>"
  show ?thesis
  proof (cases vs)
    case Nil
    have "take_out h a = Some (h(p \<mapsto> ?n, a := None))"
      using ha t(1) dist by (simp add: take_out_def set_cl_next_def cl_free_def us Nil)
    moreover have "clist_cells (h(p \<mapsto> ?n, a := None)) c (us @ vs)"
      using t(2) [of None] dist by (simp add: clist_cells_def us Nil)
    ultimately show ?thesis by blast
  next
    case (Cons v ws)
    obtain q f where v: "v = (q, f)" by fastforce
    note r = seg_rehead [of h "Some a" "Some q" q f ws "at_last (Some a) vs" None]
    let ?m = "\<lparr>cl_data = f, cl_prev = Some p, cl_next = at_first ws None\<rparr>"
    have hq: "h q = Some \<lparr>cl_data = f, cl_prev = Some a, cl_next = at_first ws None\<rparr>"
      and sq: "seg (h(q \<mapsto> ?m)) (Some p) (Some q) vs (at_last (Some a) vs) None"
      using r s(2) dist by (auto simp: Cons v)
    have "take_out h a = Some (h(p \<mapsto> ?n, q \<mapsto> ?m, a := None))"
      using ha t(1) hq dist by (auto simp: take_out_def set_cl_next_def set_cl_prev_def cl_free_def us Cons v)
    moreover have "seg (h(p \<mapsto> ?n, q \<mapsto> ?m, a := None)) None c us (Some p) (Some q)"
      using t(2) [of "Some q"] dist by (simp add: us Cons v)
    moreover have "seg (h(p \<mapsto> ?n, q \<mapsto> ?m, a := None)) (Some p) (Some q) vs (at_last (Some a) vs) None"
    proof -
      have "h(p \<mapsto> ?n, q \<mapsto> ?m, a := None) = h(q \<mapsto> ?m, p \<mapsto> ?n, a := None)" using dist by (subst fun_upd_twist) (auto simp: us Cons v)
      then show ?thesis using sq dist by (simp add: us Cons)
    qed
    ultimately show ?thesis using cells_join [of _ c us "Some p" "Some q" vs] dist by (intro exI conjI) auto
  qed
qed

section \<open>The operations on the list\<close>

lemma pop_cells:
  assumes "clist_cells h c xs"
  shows "if xs = [] then clist_pop h (Some c) = Some (h, Some c, 0)
    else \<exists>h' c'. clist_pop h (Some c) = Some (h', Some c', snd (last xs)) \<and> clist_cells h' c' (butlast xs)"
proof (cases xs rule: rev_cases)
  case Nil
  then show ?thesis using assms by (simp add: clist_cells_def clist_pop_def)
next
  case (snoc us x)
  obtain a d where x: "x = (a, d)" by fastforce
  obtain b f zs where xs: "(b, f) # zs = us @ [(a, d)]" using snoc x by (metis append_is_Nil_conv list.exhaust not_Cons_self2 surj_pair)
  have c: "c = Some b" using cells_first [OF assms] by (simp add: snoc x xs [symmetric])
  have s: "seg h None (Some b) ((b, f) # zs) (Some a) None" using assms unfolding clist_cells_def snoc x xs c by simp
  have tl: "clist_tail h (Some b) = Some (Some a)" using to_tail_seg [OF s] unfolding xs by (simp add: clist_tail_def)
  have ha: "h a = Some \<lparr>cl_data = d, cl_prev = at_last None us, cl_next = None\<rparr>" and dist: "distinct (map fst (us @ [(a, d)]))"
    using assms unfolding snoc x cells_split by simp_all
  show ?thesis
  proof (cases us rule: rev_cases)
    case Nil
    then have "b = a" using xs by simp
    then show ?thesis using tl ha c by (simp add: clist_pop_def cl_free_def snoc x Nil clist_cells_def)
  next
    case (snoc ys y)
    obtain p e where y: "y = (p, e)" by fastforce
    have "b \<noteq> a" using xs dist by (cases ys) (auto simp: snoc y)
    then have "clist_pop h (Some c) = map_option (\<lambda>h. (h, Some c, d)) (take_out h a)"
      using tl ha c by (cases "h p") (auto simp: clist_pop_def take_out_def snoc y set_cl_next_def cl_free_def)
    moreover obtain h' where "take_out h a = Some h'" "clist_cells h' c us"
      using take_out_cells [of h c us a d "[]"] assms by (auto simp: \<open>xs = us @ [x]\<close> x snoc)
    ultimately show ?thesis by (simp add: \<open>xs = us @ [x]\<close> x)
  qed
qed

lemma nth_loop_next: "seg h b p xs l None \<Longrightarrow> xs \<noteq> [] \<Longrightarrow>
    nth_loop cl_next h n (fst (hd xs)) = Some (if n < length xs then Some (fst (xs ! n)) else None)"
proof (induction n arbitrary: b p xs)
  case (Suc n)
  obtain a d ys nx where xs: "xs = (a, d) # ys" "h a = Some \<lparr>cl_data = d, cl_prev = b, cl_next = nx\<rparr>" "seg h (Some a) nx ys l None"
    using Suc.prems by (cases xs) auto
  have "nx = at_first ys None" using seg_ends [OF xs(3)] by simp
  then show ?case using Suc.IH [OF xs(3)] xs(1,2) by (cases ys) auto
qed (simp add: hd_conv_nth)

lemma nth_loop_prev: "seg h None p xs l q \<Longrightarrow> xs \<noteq> [] \<Longrightarrow>
    nth_loop cl_prev h n (fst (last xs)) = Some (if n < length xs then Some (fst (rev xs ! n)) else None)"
proof (induction n arbitrary: xs l q)
  case 0
  then show ?case by (cases xs rule: rev_cases) auto
next
  case (Suc n)
  obtain a d ys where xs: "xs = ys @ [(a, d)]" using Suc.prems by (metis append_butlast_last_id surj_pair)
  obtain m where s: "h a = Some \<lparr>cl_data = d, cl_prev = m, cl_next = q\<rparr>" "seg h None p ys m (Some a)"
    using Suc.prems(1) unfolding xs seg_append by auto
  have "m = at_last None ys" using seg_ends [OF s(2)] by simp
  then show ?case using Suc.IH [OF s(2)] xs s(1) by (cases "ys = []") (auto simp: at_last_def)
qed

lemma search_seg: "seg h b p xs l None \<Longrightarrow> clist_search h p d = Some (d \<in> snd ` set xs)"
proof (induction xs arbitrary: b p)
  case (Cons x xs)
  then show ?case by (cases x) (subst clist_search.simps, auto)
qed (subst clist_search.simps, simp)

lemma length_seg: "seg h b p xs l None \<Longrightarrow> n + length xs < 2 ^ 64 \<Longrightarrow> length_loop h p n = Some (n + length xs)"
proof (induction xs arbitrary: b p n)
  case (Cons x xs)
  have "size_add n 1 = Suc n" using size_add_exact [of n 1] Cons.prems(2) by simp
  then show ?case using Cons by (cases x) (subst length_loop.simps, auto)
qed (subst length_loop.simps, simp)

lemma first_seg:
  assumes "seg h b p xs l None"
  shows "clist_first_node h p expr = Some (map_option fst (find (\<lambda>x. expr (fst x)) xs))"
    "clist_first h p expr' = Some (case find (\<lambda>x. expr' (snd x)) xs of None \<Rightarrow> 0 | Some x \<Rightarrow> snd x)"
proof -
  have "clist_first_node h p expr = Some (map_option fst (find (\<lambda>x. expr (fst x)) xs))
      \<and> clist_first h p expr' = Some (case find (\<lambda>x. expr' (snd x)) xs of None \<Rightarrow> 0 | Some x \<Rightarrow> snd x)"
    using assms
  proof (induction xs arbitrary: b p)
    case (Cons x xs)
    then show ?case by (cases x) (subst clist_first_node.simps, subst clist_first.simps, auto)
  qed (subst clist_first_node.simps, subst clist_first.simps, simp)
  then show "clist_first_node h p expr = Some (map_option fst (find (\<lambda>x. expr (fst x)) xs))"
    "clist_first h p expr' = Some (case find (\<lambda>x. expr' (snd x)) xs of None \<Rightarrow> 0 | Some x \<Rightarrow> snd x)"
    by blast+
qed

lemma foreach_seg:
  "seg h b p xs l None \<Longrightarrow> i + length xs < 2 ^ 64 \<Longrightarrow>
     clist_foreach_cnt (\<lambda>i a st. Some (fst st, f i a (snd st))) i p (h, s)
       = Some (h, fold (\<lambda>(i, a). f i a) (enumerate i (map fst xs)) s)"
proof (induction xs arbitrary: b p i s)
  case (Cons x xs)
  have "size_add i 1 = Suc i" using size_add_exact [of i 1] Cons.prems(2) by simp
  then show ?case using Cons by (cases x) (subst clist_foreach_cnt.simps, auto)
qed (subst clist_foreach_cnt.simps, simp)

lemma free_with_seg:
  "seg h b p xs l None \<Longrightarrow> distinct (map fst xs) \<Longrightarrow>
     free_with_loop h p calls = Some (h |` (- fst ` set xs), calls @ map snd xs)"
proof (induction xs arbitrary: h b p calls)
  case (Cons x xs)
  obtain a d nx where x: "x = (a, d)" "p = Some a" "h a = Some \<lparr>cl_data = d, cl_prev = b, cl_next = nx\<rparr>" "seg h (Some a) nx xs l None"
    using Cons.prems(1) by (cases x) auto
  have "seg (h(a := None)) (Some a) nx xs l None" using x(1,4) Cons.prems(2) by simp
  moreover have "(h(a := None)) |` (- fst ` set xs) = h |` (- fst ` set (x # xs))"
    by (auto simp: fun_eq_iff restrict_map_def x(1))
  moreover have "distinct (map fst xs)" using Cons.prems(2) by simp
  ultimately have "free_with_loop (h(a := None)) nx (calls @ [d]) = Some (h |` (- fst ` set (x # xs)), (calls @ [d]) @ map snd xs)"
    using Cons.IH by metis
  then show ?case using x(1-3) by (subst free_with_loop.simps) (simp add: cl_free_def)
qed (subst free_with_loop.simps, simp add: restrict_map_def)

lemma free_loop_calls: "seg h b p xs l None \<Longrightarrow> distinct (map fst xs) \<Longrightarrow> free_loop h p = map_option fst (free_with_loop h p calls)"
proof (induction xs arbitrary: h b p calls)
  case (Cons x xs)
  obtain a d nx where x: "x = (a, d)" "p = Some a" "h a = Some \<lparr>cl_data = d, cl_prev = b, cl_next = nx\<rparr>" "seg h (Some a) nx xs l None"
    using Cons.prems(1) by (cases x) auto
  then have "seg (h(a := None)) (Some a) nx xs l None" "distinct (map fst xs)" using Cons.prems(2) by auto
  then have "free_loop (h(a := None)) nx = map_option fst (free_with_loop (h(a := None)) nx (calls @ [d]))"
    by (rule Cons.IH)
  then show ?case
    using x(2,3) by (subst free_loop.simps, subst free_with_loop.simps) (simp add: cl_free_def)
qed (subst free_loop.simps, subst free_with_loop.simps, simp)

lemma delete_loop_seg:
  assumes "clist_cells h c (us @ vs)" "us \<noteq> []" "d \<notin> snd ` set us"
  shows "\<exists>h'. delete_loop h (at_first vs None) d = Some (h', if d \<in> snd ` set vs then [d] else [])
    \<and> clist_cells h' c (us @ takeWhile (\<lambda>x. snd x \<noteq> d) vs @ tl (dropWhile (\<lambda>x. snd x \<noteq> d) vs))"
  using assms
proof (induction vs arbitrary: us)
  case Nil
  then show ?case by (subst delete_loop.simps) simp
next
  case (Cons v vs)
  obtain a e where v: "v = (a, e)" by fastforce
  have ha: "h a = Some \<lparr>cl_data = e, cl_prev = at_last None us, cl_next = at_first vs None\<rparr>"
    using Cons.prems(1) unfolding v cells_split by simp
  show ?case
  proof (cases "e = d")
    case True
    then show ?thesis
      using take_out_cells [OF Cons.prems(1) [unfolded v] Cons.prems(2)] ha by (subst delete_loop.simps) (auto simp: v)
  next
    case False
    then show ?thesis
      using Cons.IH [of "us @ [v]"] Cons.prems ha by (subst delete_loop.simps) (auto simp: v)
  qed
qed

text \<open>The nodes without the first one that holds \<open>d\<close>.\<close>

definition first_out :: "nat \<Rightarrow> (nat \<times> nat) list \<Rightarrow> (nat \<times> nat) list" where
  "first_out d xs = takeWhile (\<lambda>x. snd x \<noteq> d) xs @ tl (dropWhile (\<lambda>x. snd x \<noteq> d) xs)"

lemma first_out_data: "map snd (first_out d xs) = remove1 d (map snd xs)"
  unfolding first_out_def by (induction xs) auto

lemma delete_with_cells:
  assumes "clist_cells h c xs"
  shows "\<exists>h' c'. clist_delete_with h c d cb = Some (h', c', if cb \<and> d \<in> snd ` set xs then [d] else []) \<and> clist_cells h' c' (first_out d xs)"
proof (cases xs)
  case Nil
  then show ?thesis using assms by (simp add: clist_cells_def clist_delete_with_def first_out_def)
next
  case (Cons x ys)
  obtain a e where x: "x = (a, e)" by fastforce
  have c: "c = Some a" "h a = Some \<lparr>cl_data = e, cl_prev = None, cl_next = at_first ys None\<rparr>"
    using assms cells_split [of h c "[]" a e ys] by (auto simp: Cons x)
  show ?thesis
  proof (cases "e = d")
    case True
    then show ?thesis
      using drop_first_cells [OF assms [unfolded Cons x]] c by (auto simp: clist_delete_with_def first_out_def Cons x)
  next
    case False
    obtain h' where "delete_loop h (at_first ys None) d = Some (h', if d \<in> snd ` set ys then [d] else [])"
        "clist_cells h' c ([x] @ takeWhile (\<lambda>x. snd x \<noteq> d) ys @ tl (dropWhile (\<lambda>x. snd x \<noteq> d) ys))"
      using delete_loop_seg [of h c "[x]" ys d] assms False by (auto simp: Cons x)
    then show ?thesis using False c by (simp add: clist_delete_with_def first_out_def Cons x)
  qed
qed

lemma delete_eq_with: "clist_delete h c d = map_option (\<lambda>(h, c, _). (h, c)) (clist_delete_with h c d cb)"
  by (auto simp: clist_delete_def clist_delete_with_def map_option_case split: option.split bind_splits)

lemma delete_node_with_cells:
  assumes "clist_cells h c (us @ (a, d) # vs)"
  shows "\<exists>h' c'. clist_delete_node_with h c (Some a) cb = Some (h', c', if cb then [d] else []) \<and> clist_cells h' c' (us @ vs)"
proof (cases us)
  case Nil
  then have "c = Some a" "h a = Some \<lparr>cl_data = d, cl_prev = None, cl_next = at_first vs None\<rparr>"
    using assms cells_split [of h c "[]" a d vs] by auto
  then show ?thesis using drop_first_cells [of h c a d vs] assms Nil by (auto simp: clist_delete_node_with_def)
next
  case (Cons u ws)
  have "c = Some (fst u)" "fst u \<noteq> a" using cells_first [OF assms] assms by (auto simp: Cons clist_cells_def)
  moreover have "\<exists>n. h a = Some n \<and> cl_data n = d" using assms unfolding cells_split by simp
  ultimately show ?thesis using take_out_cells [OF assms] Cons by (auto simp: clist_delete_node_with_def)
qed

lemma delete_node_eq_with:
  "h a \<noteq> None \<Longrightarrow> clist_delete_node h c (Some a) = map_option (\<lambda>(h, c, _). (h, c)) (clist_delete_node_with h c (Some a) cb)"
  by (auto simp: clist_delete_node_def clist_delete_node_with_def map_option_case split: option.split bind_splits)

section \<open>The list as a sequence\<close>

definition clist_rep :: "cl_heap \<Rightarrow> nat option \<Rightarrow> nat list \<Rightarrow> bool" where
  "clist_rep h c ds \<longleftrightarrow> (\<exists>xs. clist_cells h c xs \<and> map snd xs = ds)"

interpretation cl: append_list clist_rep clist_append
proof unfold_locales
  show "\<exists>h' l'. clist_append h (Some a) l d = Some (h', l') \<and> clist_rep h' l' (ds @ [d]) \<and> dom h' = insert a (dom h)"
    if rep: "clist_rep h l ds" "h a = None" for h l ds a d
  proof -
    obtain xs where xs: "clist_cells h l xs" "map snd xs = ds" using rep(1) by (auto simp: clist_rep_def)
    show ?thesis using append_cells [OF xs(1) rep(2), of d] xs(2) unfolding clist_rep_def by force
  qed
  show "clist_append h None l d = Some (h, l)" for h l d by (simp add: clist_append_def clist_alloc_def)
qed

lemma free_cells:
  assumes "clist_cells h c xs"
  shows "clist_free_with h c = Some (h |` (- fst ` set xs), None, map snd xs)" "clist_free h c = Some (h |` (- fst ` set xs), None)"
proof -
  have s: "seg h None c xs (at_last None xs) None" "distinct (map fst xs)" using assms by (simp_all add: clist_cells_def)
  show "clist_free_with h c = Some (h |` (- fst ` set xs), None, map snd xs)" "clist_free h c = Some (h |` (- fst ` set xs), None)"
    using free_with_seg [OF s, of "[]"] free_loop_calls [OF s, of "[]"] by (simp_all add: clist_free_with_def clist_free_def)
qed

lemma ends_cells:
  assumes "clist_cells h c xs"
  shows "clist_head h c = Some (at_first xs None)" "clist_tail h c = Some (at_last None xs)"
    "clist_nth h c n = Some (if n < length xs then Some (fst (xs ! n)) else None)"
    "clist_nth_last h c n = Some (if n < length xs then Some (fst (rev xs ! n)) else None)"
proof -
  have s: "seg h None c xs (at_last None xs) None" using assms by (simp add: clist_cells_def)
  have "clist_head h c = Some (at_first xs None) \<and> clist_tail h c = Some (at_last None xs)
    \<and> clist_nth h c n = Some (if n < length xs then Some (fst (xs ! n)) else None)
    \<and> clist_nth_last h c n = Some (if n < length xs then Some (fst (rev xs ! n)) else None)"
  proof (cases xs)
    case Nil
    then show ?thesis using s by (simp add: clist_head_def clist_tail_def clist_nth_def clist_nth_last_def)
  next
    case (Cons x ys)
    obtain a d where x: "x = (a, d)" by fastforce
    have c: "c = Some a" "h a = Some \<lparr>cl_data = d, cl_prev = None, cl_next = at_first ys None\<rparr>"
      using assms cells_split [of h c "[]" a d ys] by (auto simp: Cons x)
    have head: "to_head h a = Some a" using c(2) by (subst to_head.simps) simp
    have tail: "to_tail h a = Some (fst (last xs))" using to_tail_seg [of h None a d ys] s by (simp add: Cons x c(1))
    show ?thesis
      using head tail nth_loop_next [OF s, of n] nth_loop_prev [OF s, of n]
      by (simp add: clist_head_def clist_tail_def clist_nth_def clist_nth_last_def c(1) Cons x at_last_def)
  qed
  then show "clist_head h c = Some (at_first xs None)" "clist_tail h c = Some (at_last None xs)"
    "clist_nth h c n = Some (if n < length xs then Some (fst (xs ! n)) else None)"
    "clist_nth_last h c n = Some (if n < length xs then Some (fst (rev xs ! n)) else None)"
    by blast+
qed

text \<open>
  C40: The linked list of \<^verbatim>\<open>circular_list.c\<close> implements a sequence of nodes with data. For a
  list with the nodes \<open>xs\<close>: appending and prepending with a fresh node add it at the end and the
  front, and without memory change nothing; popping returns and frees the last node's data, NULL on
  an empty list; deleting by data frees the first node that holds it and deleting by node that node,
  each telling the callback; head, tail, the n-th node from either side, search, length and the
  first match are those of the sequence, and the counting loop visits the nodes in order; freeing the list frees exactly its nodes and hands the data over in order; and a
  series of appends stores the data in order.
\<close>

theorem clist_refines_sequence:
  assumes "clist_cells h c xs"
  shows "(h a = None \<longrightarrow>
        (\<exists>h' c'. clist_append h (Some a) c d = Some (h', c') \<and> clist_cells h' c' (xs @ [(a, d)]))
      \<and> (\<exists>h' c'. clist_prepend h (Some a) c d = Some (h', c') \<and> clist_cells h' c' ((a, d) # xs)))
    \<and> clist_append h None c d = Some (h, c) \<and> clist_prepend h None c d = Some (h, c)
    \<and> (if xs = [] then clist_pop h (Some c) = Some (h, Some c, 0)
       else \<exists>h' c'. clist_pop h (Some c) = Some (h', Some c', snd (last xs)) \<and> clist_cells h' c' (butlast xs))
    \<and> (\<exists>h' c'. clist_delete h c d = Some (h', c') \<and> clist_cells h' c' (first_out d xs)
         \<and> clist_delete_with h c d True = Some (h', c', if d \<in> snd ` set xs then [d] else []))
    \<and> (xs = us @ (b, e) # vs \<longrightarrow> (\<exists>h' c'. clist_delete_node h c (Some b) = Some (h', c') \<and> clist_cells h' c' (us @ vs)
         \<and> clist_delete_node_with h c (Some b) True = Some (h', c', [e])))
    \<and> clist_head h c = Some (at_first xs None) \<and> clist_tail h c = Some (at_last None xs)
    \<and> clist_nth h c n = Some (if n < length xs then Some (fst (xs ! n)) else None)
    \<and> clist_nth_last h c n = Some (if n < length xs then Some (fst (rev xs ! n)) else None)
    \<and> clist_search h c d = Some (d \<in> snd ` set xs)
    \<and> (length xs < 2 ^ 64 \<longrightarrow> clist_length h c = Some (length xs))
    \<and> clist_first_node h c expr = Some (map_option fst (find (\<lambda>x. expr (fst x)) xs))
    \<and> clist_first h c expr' = Some (case find (\<lambda>x. expr' (snd x)) xs of None \<Rightarrow> 0 | Some x \<Rightarrow> snd x)
    \<and> (length xs < 2 ^ 64 \<longrightarrow> clist_foreach_cnt (\<lambda>i a st. Some (fst st, f i a (snd st))) 0 c (h, st)
         = Some (h, fold (\<lambda>(i, a). f i a) (enumerate 0 (map fst xs)) st))
    \<and> clist_free_with h c = Some (h |` (- fst ` set xs), None, map snd xs) \<and> clist_free h c = Some (h |` (- fst ` set xs), None)
    \<and> (length xs + length new < 2 ^ 64 \<and> distinct (List.map_filter fst new) \<and> (\<forall>x \<in> set new. \<forall>a. fst x = Some a \<longrightarrow> h a = None) \<longrightarrow>
        (\<exists>h' c'. append_all clist_append h c new = Some (h', c') \<and> clist_rep h' c' (map snd xs @ map snd (filter (\<lambda>x. fst x \<noteq> None) new))))"
proof -
  have s: "seg h None c xs (at_last None xs) None" using assms by (simp add: clist_cells_def)
  have rep: "clist_rep h c (map snd xs)" using assms by (auto simp: clist_rep_def)
  have insert: "\<exists>h' c'. clist_append h (Some a) c d = Some (h', c') \<and> clist_cells h' c' (xs @ [(a, d)])"
      "\<exists>h' c'. clist_prepend h (Some a) c d = Some (h', c') \<and> clist_cells h' c' ((a, d) # xs)" if "h a = None"
    using append_cells [OF assms that] prepend_cells [OF assms that] by blast+
  have none: "clist_append h None c d = Some (h, c)" "clist_prepend h None c d = Some (h, c)"
    by (simp_all add: clist_append_def clist_prepend_def clist_alloc_def)
  have delete: "\<exists>h' c'. clist_delete h c d = Some (h', c') \<and> clist_cells h' c' (first_out d xs)
         \<and> clist_delete_with h c d True = Some (h', c', if d \<in> snd ` set xs then [d] else [])"
  proof -
    obtain h' c' where "clist_delete_with h c d True = Some (h', c', if d \<in> snd ` set xs then [d] else [])" "clist_cells h' c' (first_out d xs)"
      using delete_with_cells [OF assms, of d True] by (simp only: simp_thms) blast
    then show ?thesis using delete_eq_with [of h c d True] by (intro exI conjI) simp_all
  qed
  have node: "\<exists>h' c'. clist_delete_node h c (Some b) = Some (h', c') \<and> clist_cells h' c' (us @ vs)
         \<and> clist_delete_node_with h c (Some b) True = Some (h', c', [e])" if xs: "xs = us @ (b, e) # vs"
  proof -
    have "h b \<noteq> None" using seg_dom [OF s, of b] by (simp add: xs)
    then show ?thesis
      using delete_node_with_cells [OF assms [unfolded xs], of True] delete_node_eq_with [of h b c True] by auto
  qed
  have all: "\<exists>h' c'. append_all clist_append h c new = Some (h', c') \<and> clist_rep h' c' (map snd xs @ map snd (filter (\<lambda>x. fst x \<noteq> None) new))"
    if "length xs + length new < 2 ^ 64 \<and> distinct (List.map_filter fst new) \<and> (\<forall>x \<in> set new. \<forall>a. fst x = Some a \<longrightarrow> h a = None)"
    using that by (intro cl.append_all_data [OF rep]) auto
  have len: "clist_length h c = Some (length xs)" if "length xs < 2 ^ 64" using length_seg [OF s, of 0] that by (simp add: clist_length_def)
  have each: "clist_foreach_cnt (\<lambda>i a st. Some (fst st, f i a (snd st))) 0 c (h, st)
      = Some (h, fold (\<lambda>(i, a). f i a) (enumerate 0 (map fst xs)) st)" if "length xs < 2 ^ 64"
    using foreach_seg [OF s, of 0] that by simp
  show ?thesis
    by (intro conjI impI insert none pop_cells [OF assms] delete node ends_cells [OF assms] search_seg [OF s] len first_seg [OF s] each free_cells [OF assms] all) simp_all
qed

theorem clist_refines_sequence_witness:
  "\<exists>h' c'. clist_delete [16 \<mapsto> \<lparr>cl_data = 5, cl_prev = None, cl_next = Some 32\<rparr>, 32 \<mapsto> \<lparr>cl_data = 7, cl_prev = Some 16, cl_next = None\<rparr>] (Some 16) 5
     = Some (h', c') \<and> clist_cells h' c' [(32, 7)]"
proof -
  have cells: "clist_cells [16 \<mapsto> \<lparr>cl_data = 5, cl_prev = None, cl_next = Some 32\<rparr>, 32 \<mapsto> \<lparr>cl_data = 7, cl_prev = Some 16, cl_next = None\<rparr>] (Some 16) [(16, 5), (32, 7)]"
    by (simp add: clist_cells_def)
  have out: "first_out 5 [(16, 5), (32, 7)] = [(32, 7)]" by (simp add: first_out_def)
  show ?thesis
    using clist_refines_sequence [OF cells, where d = 5, THEN conjunct2, THEN conjunct2, THEN conjunct2, THEN conjunct2, THEN conjunct1]
    unfolding out by blast
qed

end
