(* ===== verification/Cgroup.thy ===== *)
theory Cgroup
  imports Cstring_Correct
begin

text \<open>
  \<^verbatim>\<open>src/kernel/cgroup/cgroup.c\<close>: the unified control group hierarchy. The state holds the groups
  and the tasks by address; the root group is a static object, every other group comes from
  \<^verbatim>\<open>calloc\<close>. The child list of a group is the sequence of its data pointers and the ring of its
  tasks the sequence of its members (the contracts of the list libraries); a task remembers the
  group whose ring holds its node. A read through a pointer to no object and a loop that does not
  end are the outer \<open>None\<close>. The operations run one after the other, as under
  \<^verbatim>\<open>cgroup_lock\<close>; what the allocator returns and the current task are arguments. The functions
  that print control files with \<^verbatim>\<open>snprintf\<close> are not part of the model.
\<close>

section \<open>Data\<close>

datatype cg_ptr = Root_cgroup | Heap nat

record cgroup =
  cg_name :: bytes
  cg_parent :: "cg_ptr option"
  cg_children :: "cg_ptr list"
  cg_tasks :: "nat list"
  subtree_control :: uint64_t
  pids_max :: uint64_t
  pids_current :: uint64_t
  pids_events_max :: uint64_t
  memory_max :: uint64_t
  memory_high :: uint64_t
  memory_low :: uint64_t
  memory_current :: uint64_t
  memory_swap_max :: uint64_t
  memory_swap_current :: uint64_t
  cpu_quota :: uint64_t
  cpu_period :: uint64_t
  cpu_weight :: uint64_t
  io_weight :: uint64_t
  cpuset_cpus :: bytes
  cpuset_mems :: bytes
  frozen :: int
  refcount :: uint32_t
  dying :: bool

text \<open>The fields of \<^verbatim>\<open>struct task\<close> that the groups use; \<open>task_node\<close> is the group whose ring holds the node.\<close>

record task =
  task_pid :: uint64_t
  task_zombie :: bool
  task_process :: "nat option"
  task_cgroup :: "cg_ptr option"
  task_node :: "cg_ptr option"

record cg_state =
  cgroups :: "cg_ptr \<Rightarrow> cgroup option"
  tasks :: "nat \<Rightarrow> task option"
  cgroup_ready :: bool
  registered_controllers :: uint64_t

definition CGROUP_CONTROLLER_PIDS :: uint64_t where "CGROUP_CONTROLLER_PIDS = push_bit 0 1"
definition CGROUP_CONTROLLER_MEMORY :: uint64_t where "CGROUP_CONTROLLER_MEMORY = push_bit 1 1"
definition CGROUP_CONTROLLER_CPU :: uint64_t where "CGROUP_CONTROLLER_CPU = push_bit 2 1"
definition CGROUP_CONTROLLER_IO :: uint64_t where "CGROUP_CONTROLLER_IO = push_bit 3 1"
definition CGROUP_CONTROLLER_CPUSET :: uint64_t where "CGROUP_CONTROLLER_CPUSET = push_bit 4 1"
definition CGROUP_PIDS_MAX :: uint64_t where "CGROUP_PIDS_MAX = - 1"
definition CGROUP_MEMORY_MAX :: uint64_t where "CGROUP_MEMORY_MAX = - 1"

definition zero_cgroup :: cgroup where
  "zero_cgroup = \<lparr>cg_name = [], cg_parent = None, cg_children = [], cg_tasks = [], subtree_control = 0,
     pids_max = 0, pids_current = 0, pids_events_max = 0, memory_max = 0, memory_high = 0, memory_low = 0,
     memory_current = 0, memory_swap_max = 0, memory_swap_current = 0, cpu_quota = 0, cpu_period = 0,
     cpu_weight = 0, io_weight = 0, cpuset_cpus = replicate 64 0, cpuset_mems = replicate 64 0,
     frozen = 0, refcount = 0, dying = False\<rparr>"

definition put_cgroup :: "cg_state \<Rightarrow> cg_ptr \<Rightarrow> cgroup \<Rightarrow> cg_state" where
  "put_cgroup st a c = st\<lparr>cgroups := (cgroups st)(a \<mapsto> c)\<rparr>"

definition free_cgroup :: "cg_state \<Rightarrow> cg_ptr \<Rightarrow> cg_state" where
  "free_cgroup st a = st\<lparr>cgroups := (cgroups st)(a := None)\<rparr>"

definition put_task :: "cg_state \<Rightarrow> nat \<Rightarrow> task \<Rightarrow> cg_state" where
  "put_task st t x = st\<lparr>tasks := (tasks st)(t \<mapsto> x)\<rparr>"

section \<open>Numbers\<close>

definition byte_at :: "bytes \<Rightarrow> nat \<Rightarrow> uint8_t option" where
  "byte_at v i = (if i < length v then Some (v ! i) else None)"

function skip_blanks :: "uint8_t list \<Rightarrow> bytes \<Rightarrow> nat \<Rightarrow> nat \<Rightarrow> nat option" where
  "skip_blanks bs v n i =
     (if i < n then do { c \<leftarrow> byte_at v i; if c \<in> set bs then skip_blanks bs v n (Suc i) else Some i } else Some i)"
  by auto
termination by (relation "measure (\<lambda>(_, _, n, i). n - i)") auto

definition is_digit :: "uint8_t \<Rightarrow> bool" where
  "is_digit c \<longleftrightarrow> 48 \<le> c \<and> c \<le> 57"

function digits_loop :: "bytes \<Rightarrow> nat \<Rightarrow> nat \<Rightarrow> uint64_t \<Rightarrow> (errno + nat \<times> uint64_t) option" where
  "digits_loop v len i n =
     (if i < len then do {
        c \<leftarrow> byte_at v i;
        if is_digit c then
          (let digit = ucast (c - 48) in
           if n > (- 1 - digit) div 10 then Some (Inl ERANGE) else digits_loop v len (Suc i) (n * 10 + digit))
        else Some (Inr (i, n)) }
      else Some (Inr (i, n)))"
  by auto
termination by (relation "measure (\<lambda>(_, len, i, _). len - i)") auto

declare skip_blanks.simps [simp del] digits_loop.simps [simp del]

text \<open>The result is the number; an error leaves the caller's variable alone.\<close>

definition parse_u64 :: "bytes \<Rightarrow> nat \<Rightarrow> (errno + uint64_t) option" where
  "parse_u64 v len = do {
     i \<leftarrow> skip_blanks [32, 9] v len 0;
     ok \<leftarrow> (if i = len then Some False else map_option is_digit (byte_at v i));
     if \<not> ok then Some (Inl EINVAL)
     else do {
       r \<leftarrow> digits_loop v len i 0;
       case r of
         Inl e \<Rightarrow> Some (Inl e)
       | Inr (i, n) \<Rightarrow> do { i \<leftarrow> skip_blanks [32, 9, 10] v len i; Some (if i \<noteq> len then Inl EINVAL else Inr n) } } }"

section \<open>Controllers and charges\<close>

partial_function (option) is_descendant :: "cg_state \<Rightarrow> cg_ptr option \<Rightarrow> cg_ptr \<Rightarrow> bool option" where
  "is_descendant st cg ancestor =
     (case cg of
        None \<Rightarrow> Some False
      | Some a \<Rightarrow> if a = ancestor then Some True else do { c \<leftarrow> cgroups st a; is_descendant st (cg_parent c) ancestor })"

text \<open>The controllers a group may use: all registered ones at the root, else those its parent enables.\<close>

definition parent_control :: "cg_state \<Rightarrow> cgroup \<Rightarrow> uint64_t option" where
  "parent_control st c = do { p \<leftarrow> cg_parent c; pc \<leftarrow> cgroups st p; Some (subtree_control pc) }"

definition controller_available_locked :: "cg_state \<Rightarrow> cg_ptr \<Rightarrow> uint64_t \<Rightarrow> bool option" where
  "controller_available_locked st cg flag =
     (if cg = Root_cgroup then Some True
      else do { c \<leftarrow> cgroups st cg; s \<leftarrow> parent_control st c; Some (s AND flag \<noteq> 0) })"

definition cgroup_controller_available :: "cg_state \<Rightarrow> cg_ptr option \<Rightarrow> uint64_t \<Rightarrow> bool option" where
  "cgroup_controller_available st cg flag =
     (case cg of
        None \<Rightarrow> Some False
      | Some a \<Rightarrow> do { c \<leftarrow> cgroups st a; if dying c then Some False else controller_available_locked st a flag })"

definition cgroup_pids_available :: "cg_state \<Rightarrow> cg_ptr option \<Rightarrow> bool option" where
  "cgroup_pids_available st cg = cgroup_controller_available st cg CGROUP_CONTROLLER_PIDS"

definition record_pids_max_event_locked :: "cg_state \<Rightarrow> cg_ptr \<Rightarrow> cg_state option" where
  "record_pids_max_event_locked st a =
     map_option (\<lambda>c. put_cgroup st a (c\<lparr>pids_events_max := pids_events_max c + 1\<rparr>)) (cgroups st a)"

definition exhausted :: "cg_state \<Rightarrow> cg_ptr \<Rightarrow> bool option" where
  "exhausted st a = do {
     c \<leftarrow> cgroups st a;
     av \<leftarrow> controller_available_locked st a CGROUP_CONTROLLER_PIDS;
     Some (av \<and> pids_max c \<noteq> CGROUP_PIDS_MAX \<and> pids_current c \<ge> pids_max c) }"

text \<open>The first exhausted group on the way to the root, up to and without the first that
  contains \<open>old\<close>. Charging has no old group and looks at all of them, moving a task only at those
  that do not count it yet.\<close>

partial_function (option) limit_loop :: "cg_state \<Rightarrow> cg_ptr option \<Rightarrow> cg_ptr option \<Rightarrow> cg_ptr option option" where
  "limit_loop st old cg =
     (case cg of
        None \<Rightarrow> Some None
      | Some a \<Rightarrow> do {
          stop \<leftarrow> is_descendant st old a;
          if stop then Some None
          else do { c \<leftarrow> cgroups st a; e \<leftarrow> exhausted st a; if e then Some (Some a) else limit_loop st old (cg_parent c) } })"

partial_function (option) count_loop :: "(uint64_t \<Rightarrow> uint64_t) \<Rightarrow> cg_state \<Rightarrow> cg_ptr option \<Rightarrow> cg_state option" where
  "count_loop f st cg =
     (case cg of
        None \<Rightarrow> Some st
      | Some a \<Rightarrow> do {
          c \<leftarrow> cgroups st a;
          count_loop f (put_cgroup st a (c\<lparr>pids_current := f (pids_current c)\<rparr>)) (cg_parent c) })"

definition charge_locked :: "cg_state \<Rightarrow> cg_ptr \<Rightarrow> (cg_state \<times> status) option" where
  "charge_locked st cg = do {
     full \<leftarrow> limit_loop st None (Some cg);
     case full of
       Some a \<Rightarrow> do { st \<leftarrow> record_pids_max_event_locked st a; Some (st, ERR EAGAIN) }
     | None \<Rightarrow> do { st \<leftarrow> count_loop (\<lambda>n. n + 1) st (Some cg); Some (st, EOK) } }"

definition uncharge_locked :: "cg_state \<Rightarrow> cg_ptr \<Rightarrow> cg_state option" where
  "uncharge_locked st cg = count_loop (\<lambda>n. if n \<noteq> 0 then n - 1 else n) st (Some cg)"

text \<open>The ring operations refuse a node that is already queued, and one that is not.\<close>

definition ring_insert :: "cg_state \<Rightarrow> cg_ptr \<Rightarrow> nat \<Rightarrow> cg_state option" where
  "ring_insert st a t = do {
     x \<leftarrow> tasks st t; c \<leftarrow> cgroups st a;
     Some (if task_node x \<noteq> None then st
           else put_task (put_cgroup st a (c\<lparr>cg_tasks := cg_tasks c @ [t]\<rparr>)) t (x\<lparr>task_node := Some a\<rparr>)) }"

definition ring_remove :: "cg_state \<Rightarrow> nat \<Rightarrow> cg_state option" where
  "ring_remove st t = do {
     x \<leftarrow> tasks st t;
     case task_node x of
       None \<Rightarrow> Some st
     | Some a \<Rightarrow> do { c \<leftarrow> cgroups st a;
         Some (put_task (put_cgroup st a (c\<lparr>cg_tasks := remove1 t (cg_tasks c)\<rparr>)) t (x\<lparr>task_node := None\<rparr>)) } }"

definition set_task_cgroup :: "cg_state \<Rightarrow> nat \<Rightarrow> cg_ptr option \<Rightarrow> cg_state option" where
  "set_task_cgroup st t a = map_option (\<lambda>x. put_task st t (x\<lparr>task_cgroup := a\<rparr>)) (tasks st t)"

fun find_pid :: "cg_state \<Rightarrow> uint64_t \<Rightarrow> nat list \<Rightarrow> nat option option" where
  "find_pid st pid [] = Some None"
| "find_pid st pid (t # ts) = do { x \<leftarrow> tasks st t; if task_pid x = pid then Some (Some t) else find_pid st pid ts }"

text \<open>The depth-first descent, with the groups still to visit as a list.\<close>

partial_function (option) find_groups :: "cg_state \<Rightarrow> uint64_t \<Rightarrow> cg_ptr list \<Rightarrow> nat option option" where
  "find_groups st pid as =
     (case as of
        [] \<Rightarrow> Some None
      | a # as \<Rightarrow> do {
          c \<leftarrow> cgroups st a;
          r \<leftarrow> find_pid st pid (cg_tasks c);
          if r \<noteq> None then Some r else find_groups st pid (cg_children c @ as) })"

definition find_task_locked :: "cg_state \<Rightarrow> cg_ptr \<Rightarrow> uint64_t \<Rightarrow> nat option option" where
  "find_task_locked st cg pid = find_groups st pid [cg]"

definition attach_task_locked :: "cg_state \<Rightarrow> cg_ptr \<Rightarrow> nat \<Rightarrow> (cg_state \<times> status) option" where
  "attach_task_locked st target t = do {
     x \<leftarrow> tasks st t;
     case task_cgroup x of
       None \<Rightarrow> Some (st, ERR ESRCH)
     | Some old \<Rightarrow>
         if old = target then Some (st, EOK)
         else do {
           full \<leftarrow> limit_loop st (Some old) (Some target);
           case full of
             Some a \<Rightarrow> do { st \<leftarrow> record_pids_max_event_locked st a; Some (st, ERR EAGAIN) }
           | None \<Rightarrow> do {
               st \<leftarrow> uncharge_locked st old;
               st \<leftarrow> ring_remove st t;
               st \<leftarrow> set_task_cgroup st t (Some target);
               st \<leftarrow> ring_insert st target t;
               st \<leftarrow> count_loop (\<lambda>n. n + 1) st (Some target);
               Some (st, EOK) } } }"

section \<open>Initialisation and references\<close>

definition cgroup_register_controller :: "cg_state \<Rightarrow> bytes option \<Rightarrow> uint64_t \<Rightarrow> (cg_state \<times> status) option" where
  "cgroup_register_controller st name ident = do {
     named \<leftarrow> (case name of None \<Rightarrow> Some False | Some nm \<Rightarrow> map_option (\<lambda>c. c \<noteq> 0) (byte_at nm 0));
     if \<not> named \<or> ident = 0 \<or> ident AND (ident - 1) \<noteq> 0 then Some (st, ERR EINVAL)
     else if registered_controllers st AND ident \<noteq> 0 then Some (st, ERR EEXIST)
     else Some (st\<lparr>registered_controllers := registered_controllers st OR ident\<rparr>, EOK) }"

text \<open>The limits and weights that every new group starts with.\<close>

definition default_limits :: "cgroup \<Rightarrow> cgroup" where
  "default_limits c = c\<lparr>pids_max := CGROUP_PIDS_MAX, memory_max := CGROUP_MEMORY_MAX, memory_high := CGROUP_MEMORY_MAX,
     memory_swap_max := CGROUP_MEMORY_MAX, cpu_weight := 100, io_weight := 100\<rparr>"

definition cgroup_init :: "cg_state \<Rightarrow> (nat \<Rightarrow> bytes option) \<Rightarrow> cg_state option" where
  "cgroup_init st malloc = do {
     let root = zero_cgroup;
     nm \<leftarrow> strdup malloc [0];
     case nm of
       None \<Rightarrow> Some (put_cgroup st Root_cgroup root)
     | Some nm \<Rightarrow> do {
         cpus \<leftarrow> strncpy (cpuset_cpus root) [48, 45, 54, 51, 0] 63;
         mems \<leftarrow> strncpy (cpuset_mems root) [48, 0] 63;
         let root = (default_limits root)\<lparr>cg_name := nm, cpuset_cpus := cpus, cpuset_mems := mems, refcount := 1\<rparr>;
         let st = (put_cgroup st Root_cgroup root)\<lparr>cgroup_ready := True\<rparr>;
         (st, _) \<leftarrow> cgroup_register_controller st (Some [112, 105, 100, 115, 0]) CGROUP_CONTROLLER_PIDS;
         (st, _) \<leftarrow> cgroup_register_controller st (Some [109, 101, 109, 111, 114, 121, 0]) CGROUP_CONTROLLER_MEMORY;
         (st, _) \<leftarrow> cgroup_register_controller st (Some [99, 112, 117, 0]) CGROUP_CONTROLLER_CPU;
         (st, _) \<leftarrow> cgroup_register_controller st (Some [105, 111, 0]) CGROUP_CONTROLLER_IO;
         (st, _) \<leftarrow> cgroup_register_controller st (Some [99, 112, 117, 115, 101, 116, 0]) CGROUP_CONTROLLER_CPUSET;
         Some st } }"

definition cgroup_root :: "cg_state \<Rightarrow> cg_ptr option" where
  "cgroup_root st = (if cgroup_ready st then Some Root_cgroup else None)"

definition cgroup_get :: "cg_state \<Rightarrow> cg_ptr option \<Rightarrow> (cg_state \<times> cg_ptr option) option" where
  "cgroup_get st cg =
     (case cg of
        None \<Rightarrow> Some (st, None)
      | Some a \<Rightarrow>
          if a = Root_cgroup then Some (st, cg)
          else do { c \<leftarrow> cgroups st a;
            Some (if dying c then (st, None) else (put_cgroup st a (c\<lparr>refcount := refcount c + 1\<rparr>), cg)) })"

definition cgroup_put :: "cg_state \<Rightarrow> cg_ptr option \<Rightarrow> cg_state option" where
  "cgroup_put st cg =
     (case cg of
        None \<Rightarrow> Some st
      | Some a \<Rightarrow>
          if a = Root_cgroup then Some st
          else do { c \<leftarrow> cgroups st a;
            if refcount c \<noteq> 0 then
              let c' = c\<lparr>refcount := refcount c - 1\<rparr> in
              Some (if refcount c' = 0 \<and> dying c' then free_cgroup st a else put_cgroup st a c')
            else Some st })"

section \<open>Tasks\<close>

definition cgroup_task_fork :: "cg_state \<Rightarrow> nat option \<Rightarrow> nat option \<Rightarrow> (cg_state \<times> status) option" where
  "cgroup_task_fork st task parent =
     (case task of
        None \<Rightarrow> Some (st, EOK)
      | Some t \<Rightarrow>
          if \<not> cgroup_ready st then Some (st, EOK)
          else do {
            pcg \<leftarrow> (case parent of None \<Rightarrow> Some None | Some p \<Rightarrow> map_option task_cgroup (tasks st p));
            let target = (case pcg of None \<Rightarrow> Root_cgroup | Some a \<Rightarrow> a);
            (st, r) \<leftarrow> charge_locked st target;
            if r = EOK then do {
              st \<leftarrow> set_task_cgroup st t (Some target); st \<leftarrow> ring_insert st target t; Some (st, r) }
            else Some (st, r) })"

definition cgroup_task_exit :: "cg_state \<Rightarrow> nat option \<Rightarrow> cg_state option" where
  "cgroup_task_exit st task =
     (case task of
        None \<Rightarrow> Some st
      | Some t \<Rightarrow> do {
          x \<leftarrow> tasks st t;
          case task_cgroup x of
            None \<Rightarrow> Some st
          | Some a \<Rightarrow>
              if \<not> cgroup_ready st then Some st
              else do { st \<leftarrow> uncharge_locked st a; st \<leftarrow> ring_remove st t; set_task_cgroup st t None } })"

definition cgroup_attach_task :: "cg_state \<Rightarrow> cg_ptr option \<Rightarrow> nat option \<Rightarrow> (cg_state \<times> status) option" where
  "cgroup_attach_task st target task =
     (case (target, task) of (Some a, Some t) \<Rightarrow> attach_task_locked st a t | _ \<Rightarrow> Some (st, ERR EINVAL))"

section \<open>Creation and destruction\<close>

fun name_taken :: "cg_state \<Rightarrow> bytes \<Rightarrow> cg_ptr list \<Rightarrow> bool option" where
  "name_taken st nm [] = Some False"
| "name_taken st nm (a # as) = do { c \<leftarrow> cgroups st a; eq \<leftarrow> streq (cg_name c) nm; if eq then Some True else name_taken st nm as }"

text \<open>
  \<open>mem\<close> is what \<^verbatim>\<open>calloc\<close> returns, \<open>malloc\<close> serves \<^verbatim>\<open>strdup\<close> and \<open>node\<close> tells whether
  \<^verbatim>\<open>clist_append\<close> gets a node; \<open>result\<close> tells whether the result pointer is not null.
\<close>

definition cgroup_create ::
  "cg_state \<Rightarrow> cg_ptr option \<Rightarrow> bytes option \<Rightarrow> bool \<Rightarrow> nat option \<Rightarrow> (nat \<Rightarrow> bytes option) \<Rightarrow> bool
     \<Rightarrow> (cg_state \<times> (errno + cg_ptr)) option" where
  "cgroup_create st parent name result mem malloc node =
     (case (parent, name) of
        (Some p, Some nm) \<Rightarrow> do {
          c0 \<leftarrow> byte_at nm 0;
          bad \<leftarrow> (if c0 = 0 \<or> \<not> result then Some True else map_option (\<lambda>r. r \<noteq> None) (strchr nm 47));
          if bad then Some (st, Inl EINVAL)
          else case mem of
              None \<Rightarrow> Some (st, Inl ENOMEM)
            | Some a \<Rightarrow> do {
                copy \<leftarrow> strdup malloc nm;
                case copy of
                  None \<Rightarrow> Some (st, Inl ENOMEM)
                | Some copy \<Rightarrow> do {
                    pc \<leftarrow> cgroups st p;
                    cpus \<leftarrow> strncpy (replicate 64 0) (cpuset_cpus pc) 63;
                    mems \<leftarrow> strncpy (replicate 64 0) (cpuset_mems pc) 63;
                    let cg = (default_limits zero_cgroup)\<lparr>cg_name := copy, cg_parent := Some p,
                      cpuset_cpus := cpus, cpuset_mems := mems, refcount := 1\<rparr>;
                    taken \<leftarrow> name_taken st nm (cg_children pc);
                    if taken then Some (st, Inl EEXIST)
                    else let children = (if node then cg_children pc @ [Heap a] else cg_children pc) in
                      if Heap a \<notin> set children then Some (st, Inl ENOMEM)
                      else Some (put_cgroup (put_cgroup st p (pc\<lparr>cg_children := children\<rparr>)) (Heap a) cg, Inr (Heap a)) } } }
      | _ \<Rightarrow> Some (st, Inl EINVAL))"

definition cgroup_destroy :: "cg_state \<Rightarrow> cg_ptr option \<Rightarrow> (cg_state \<times> status) option" where
  "cgroup_destroy st cg =
     (case cg of
        None \<Rightarrow> Some (st, ERR EBUSY)
      | Some a \<Rightarrow>
          if a = Root_cgroup then Some (st, ERR EBUSY)
          else do {
            c \<leftarrow> cgroups st a;
            if cg_children c \<noteq> [] \<or> cg_tasks c \<noteq> [] then Some (st, ERR EBUSY)
            else do {
              p \<leftarrow> cg_parent c; pc \<leftarrow> cgroups st p;
              let st = put_cgroup st p (pc\<lparr>cg_children := remove1 a (cg_children pc)\<rparr>);
              c \<leftarrow> cgroups st a;
              let c = c\<lparr>dying := True, refcount := refcount c - 1\<rparr>;
              Some (if refcount c = 0 then free_cgroup st a else put_cgroup st a c, EOK) } })"

section \<open>Subtree control\<close>

definition parse_controller_flag :: "bytes \<Rightarrow> nat \<Rightarrow> uint64_t option option" where
  "parse_controller_flag name len = do {
     pids \<leftarrow> (if len = 4 then map_option (\<lambda>r. r = 0) (strncmp name [112, 105, 100, 115, 0] 4) else Some False);
     memory \<leftarrow> (if len = 6 then map_option (\<lambda>r. r = 0) (strncmp name [109, 101, 109, 111, 114, 121, 0] 6) else Some False);
     cpu \<leftarrow> (if len = 3 then map_option (\<lambda>r. r = 0) (strncmp name [99, 112, 117, 0] 3) else Some False);
     io \<leftarrow> (if len = 2 then map_option (\<lambda>r. r = 0) (strncmp name [105, 111, 0] 2) else Some False);
     cpuset \<leftarrow> (if len = 6 then map_option (\<lambda>r. r = 0) (strncmp name [99, 112, 117, 115, 101, 116, 0] 6) else Some False);
     Some (if pids then Some CGROUP_CONTROLLER_PIDS
           else if memory then Some CGROUP_CONTROLLER_MEMORY
           else if cpu then Some CGROUP_CONTROLLER_CPU
           else if io then Some CGROUP_CONTROLLER_IO
           else if cpuset then Some CGROUP_CONTROLLER_CPUSET else None) }"

function skip_word :: "bytes \<Rightarrow> nat \<Rightarrow> nat \<Rightarrow> nat option" where
  "skip_word v n i =
     (if i < n then do { c \<leftarrow> byte_at v i; if c \<noteq> 32 \<and> c \<noteq> 9 \<and> c \<noteq> 10 then skip_word v n (Suc i) else Some i } else Some i)"
  by auto
termination by (relation "measure (\<lambda>(_, n, i). n - i)") auto

declare skip_word.simps [simp del]

fun child_uses :: "cg_state \<Rightarrow> uint64_t \<Rightarrow> cg_ptr list \<Rightarrow> bool option" where
  "child_uses st flag [] = Some False"
| "child_uses st flag (a # as) = do { c \<leftarrow> cgroups st a; if subtree_control c AND flag \<noteq> 0 then Some True else child_uses st flag as }"

text \<open>One operation on the mask \<open>nxt\<close> of the group \<open>c\<close> at \<open>a\<close>.\<close>

definition control_op :: "cg_state \<Rightarrow> cg_ptr \<Rightarrow> cgroup \<Rightarrow> uint8_t \<Rightarrow> uint64_t \<Rightarrow> uint64_t \<Rightarrow> (errno + uint64_t) option" where
  "control_op st a c op flag nxt =
     (if op = 43 then do {
        available \<leftarrow> (if a = Root_cgroup then Some (registered_controllers st) else parent_control st c);
        Some (if available AND flag = 0 then Inl ENOENT
              else if a \<noteq> Root_cgroup \<and> cg_tasks c \<noteq> [] then Inl EBUSY
              else Inr (nxt OR flag)) }
      else do { used \<leftarrow> child_uses st flag (cg_children c); Some (if used then Inl EBUSY else Inr (nxt AND NOT flag)) })"

partial_function (option) control_loop ::
  "cg_state \<Rightarrow> cg_ptr \<Rightarrow> cgroup \<Rightarrow> bytes \<Rightarrow> nat \<Rightarrow> nat \<Rightarrow> uint64_t \<Rightarrow> (errno + uint64_t) option" where
  "control_loop st a c v len i nxt =
     (if i < len then do {
        i \<leftarrow> skip_blanks [32, 9, 10] v len i;
        if i = len then Some (Inr nxt)
        else do {
          op \<leftarrow> byte_at v i;
          if op \<noteq> 43 \<and> op \<noteq> 45 then Some (Inl EINVAL)
          else do {
            j \<leftarrow> skip_word v len (Suc i);
            if j = Suc i then Some (Inl EINVAL)
            else do {
              f \<leftarrow> parse_controller_flag (drop (Suc i) v) (j - Suc i);
              case f of
                None \<Rightarrow> Some (Inl EINVAL)
              | Some flag \<Rightarrow> do {
                  r \<leftarrow> control_op st a c op flag nxt;
                  case r of Inl e \<Rightarrow> Some (Inl e) | Inr nxt \<Rightarrow> control_loop st a c v len j nxt } } } } }
      else Some (Inr nxt))"

definition cgroup_set_subtree_control :: "cg_state \<Rightarrow> cg_ptr option \<Rightarrow> bytes option \<Rightarrow> nat \<Rightarrow> (cg_state \<times> status) option" where
  "cgroup_set_subtree_control st cg value len =
     (case (cg, value) of
        (Some a, Some v) \<Rightarrow>
          if len = 0 then Some (st, ERR EINVAL)
          else do {
            c \<leftarrow> cgroups st a;
            r \<leftarrow> control_loop st a c v len 0 (subtree_control c);
            Some (case r of Inl e \<Rightarrow> (st, ERR e) | Inr nxt \<Rightarrow> (put_cgroup st a (c\<lparr>subtree_control := nxt\<rparr>), EOK)) }
      | _ \<Rightarrow> Some (st, ERR EINVAL))"

section \<open>Control files\<close>

text \<open>A null \<open>value\<close> has no byte to read.\<close>

definition value_bytes :: "bytes option \<Rightarrow> bytes" where
  "value_bytes value = (case value of None \<Rightarrow> [] | Some v \<Rightarrow> v)"

text \<open>The processes that get \<^verbatim>\<open>SIGKILL\<close>, in order; the results of \<^verbatim>\<open>signal_send\<close> are ignored.\<close>

fun kill_tasks :: "cg_state \<Rightarrow> nat list \<Rightarrow> nat list option" where
  "kill_tasks st [] = Some []"
| "kill_tasks st (t # ts) = do {
     x \<leftarrow> tasks st t; ps \<leftarrow> kill_tasks st ts;
     Some (case task_process x of None \<Rightarrow> ps | Some p \<Rightarrow> if task_pid x > 1 then p # ps else ps) }"

partial_function (option) kill_groups :: "cg_state \<Rightarrow> cg_ptr list \<Rightarrow> nat list \<Rightarrow> nat list option" where
  "kill_groups st as sent =
     (case as of
        [] \<Rightarrow> Some sent
      | a # as \<Rightarrow> do { c \<leftarrow> cgroups st a; ps \<leftarrow> kill_tasks st (cg_tasks c); kill_groups st (cg_children c @ as) (sent @ ps) })"

definition kill_subtree_locked :: "cg_state \<Rightarrow> cg_ptr \<Rightarrow> nat list option" where
  "kill_subtree_locked st cg = kill_groups st [cg] []"

definition cgroup_kill :: "cg_state \<Rightarrow> cg_ptr option \<Rightarrow> bytes option \<Rightarrow> nat \<Rightarrow> (nat list \<times> status) option" where
  "cgroup_kill st cg value len = do {
     r \<leftarrow> parse_u64 (value_bytes value) len;
     case r of
       Inl e \<Rightarrow> Some ([], ERR e)
     | Inr val \<Rightarrow> if val \<noteq> 1 then Some ([], ERR EINVAL)
                else do { a \<leftarrow> cg; sent \<leftarrow> kill_subtree_locked st a; Some (sent, EOK) } }"

text \<open>Changing the group that a pointer names.\<close>

definition update_cgroup :: "cg_state \<Rightarrow> cg_ptr option \<Rightarrow> (cgroup \<Rightarrow> cgroup) \<Rightarrow> (cg_state \<times> status) option" where
  "update_cgroup st cg f = do { a \<leftarrow> cg; c \<leftarrow> cgroups st a; Some (put_cgroup st a (f c), EOK) }"

definition cgroup_set_freeze :: "cg_state \<Rightarrow> cg_ptr option \<Rightarrow> bytes option \<Rightarrow> nat \<Rightarrow> (cg_state \<times> status) option" where
  "cgroup_set_freeze st cg value len = do {
     r \<leftarrow> parse_u64 (value_bytes value) len;
     case r of
       Inl e \<Rightarrow> Some (st, ERR e)
     | Inr val \<Rightarrow> if val > 1 then Some (st, ERR EINVAL) else update_cgroup st cg (\<lambda>c. c\<lparr>frozen := uint val\<rparr>) }"

text \<open>The common guard of the setters.\<close>

definition settable :: "cg_state \<Rightarrow> cg_ptr option \<Rightarrow> bytes option \<Rightarrow> nat \<Rightarrow> uint64_t \<Rightarrow> bool option" where
  "settable st cg value len flag =
     (if cg = None \<or> value = None \<or> len = 0 then Some False else cgroup_controller_available st cg flag)"

definition is_max :: "bytes \<Rightarrow> nat \<Rightarrow> bool option" where
  "is_max v len = (if len \<ge> 3 then map_option (\<lambda>r. r = 0) (memcmp v [109, 97, 120, 0] 3) else Some False)"

definition cgroup_set_pids_max :: "cg_state \<Rightarrow> cg_ptr option \<Rightarrow> bytes option \<Rightarrow> nat \<Rightarrow> (cg_state \<times> status) option" where
  "cgroup_set_pids_max st cg value len = do {
     ok \<leftarrow> settable st cg value len CGROUP_CONTROLLER_PIDS;
     if \<not> ok then Some (st, ERR EOPNOTSUPP)
     else do {
       m \<leftarrow> is_max (value_bytes value) len;
       r \<leftarrow> (if m then do { i \<leftarrow> skip_blanks [32, 9, 10] (value_bytes value) len 3;
                         Some (if i \<noteq> len then Inl EINVAL else Inr CGROUP_PIDS_MAX) }
            else parse_u64 (value_bytes value) len);
       case r of Inl e \<Rightarrow> Some (st, ERR e) | Inr limit \<Rightarrow> update_cgroup st cg (\<lambda>c. c\<lparr>pids_max := limit\<rparr>) } }"

definition cgroup_set_memory_max :: "cg_state \<Rightarrow> cg_ptr option \<Rightarrow> bytes option \<Rightarrow> nat \<Rightarrow> (cg_state \<times> status) option" where
  "cgroup_set_memory_max st cg value len = do {
     ok \<leftarrow> settable st cg value len CGROUP_CONTROLLER_MEMORY;
     if \<not> ok then Some (st, ERR EOPNOTSUPP)
     else do {
       m \<leftarrow> is_max (value_bytes value) len;
       r \<leftarrow> (if m then Some (Inr CGROUP_MEMORY_MAX) else parse_u64 (value_bytes value) len);
       case r of Inl e \<Rightarrow> Some (st, ERR e) | Inr limit \<Rightarrow> update_cgroup st cg (\<lambda>c. c\<lparr>memory_max := limit\<rparr>) } }"

definition cgroup_set_memory_high :: "cg_state \<Rightarrow> cg_ptr option \<Rightarrow> bytes option \<Rightarrow> nat \<Rightarrow> (cg_state \<times> status) option" where
  "cgroup_set_memory_high st cg value len = do {
     ok \<leftarrow> settable st cg value len CGROUP_CONTROLLER_MEMORY;
     if \<not> ok then Some (st, ERR EOPNOTSUPP)
     else do {
       m \<leftarrow> is_max (value_bytes value) len;
       r \<leftarrow> (if m then Some (Inr CGROUP_MEMORY_MAX) else parse_u64 (value_bytes value) len);
       case r of Inl e \<Rightarrow> Some (st, ERR e) | Inr limit \<Rightarrow> update_cgroup st cg (\<lambda>c. c\<lparr>memory_high := limit\<rparr>) } }"

definition cgroup_set_memory_low :: "cg_state \<Rightarrow> cg_ptr option \<Rightarrow> bytes option \<Rightarrow> nat \<Rightarrow> (cg_state \<times> status) option" where
  "cgroup_set_memory_low st cg value len = do {
     ok \<leftarrow> settable st cg value len CGROUP_CONTROLLER_MEMORY;
     if \<not> ok then Some (st, ERR EOPNOTSUPP)
     else do {
       r \<leftarrow> parse_u64 (value_bytes value) len;
       case r of Inl e \<Rightarrow> Some (st, ERR e) | Inr limit \<Rightarrow> update_cgroup st cg (\<lambda>c. c\<lparr>memory_low := limit\<rparr>) } }"

text \<open>The errors of the number parser are dropped here: the defaults stay.\<close>

definition cgroup_set_cpu_max :: "cg_state \<Rightarrow> cg_ptr option \<Rightarrow> bytes option \<Rightarrow> nat \<Rightarrow> (cg_state \<times> status) option" where
  "cgroup_set_cpu_max st cg value len = do {
     ok \<leftarrow> settable st cg value len CGROUP_CONTROLLER_CPU;
     if \<not> ok then Some (st, ERR EOPNOTSUPP)
     else do {
       let v = value_bytes value;
       m \<leftarrow> is_max v len;
       (quota, period) \<leftarrow>
         (if m then do {
            i \<leftarrow> skip_blanks [32, 9] v len 3;
            if i < len then do { r \<leftarrow> parse_u64 (drop i v) (len - i); Some (CGROUP_PIDS_MAX, case r of Inl _ \<Rightarrow> 100000 | Inr n \<Rightarrow> n) }
            else Some (CGROUP_PIDS_MAX, 100000) }
          else do { r \<leftarrow> parse_u64 v len; Some (case r of Inl _ \<Rightarrow> CGROUP_PIDS_MAX | Inr n \<Rightarrow> n, 100000) });
       update_cgroup st cg (\<lambda>c. c\<lparr>cpu_quota := quota, cpu_period := period\<rparr>) } }"

definition cgroup_set_cpu_weight :: "cg_state \<Rightarrow> cg_ptr option \<Rightarrow> bytes option \<Rightarrow> nat \<Rightarrow> (cg_state \<times> status) option" where
  "cgroup_set_cpu_weight st cg value len = do {
     ok \<leftarrow> settable st cg value len CGROUP_CONTROLLER_CPU;
     if \<not> ok then Some (st, ERR EOPNOTSUPP)
     else do {
       r \<leftarrow> parse_u64 (value_bytes value) len;
       case r of Inl e \<Rightarrow> Some (st, ERR e) | Inr weight \<Rightarrow> update_cgroup st cg (\<lambda>c. c\<lparr>cpu_weight := weight\<rparr>) } }"

definition cgroup_set_io_max :: "cg_state \<Rightarrow> cg_ptr option \<Rightarrow> (cg_state \<times> status) option" where
  "cgroup_set_io_max st cg = do {
     ok \<leftarrow> cgroup_controller_available st cg CGROUP_CONTROLLER_IO;
     Some (st, if ok then EOK else ERR EOPNOTSUPP) }"

definition cgroup_set_io_weight :: "cg_state \<Rightarrow> cg_ptr option \<Rightarrow> bytes option \<Rightarrow> nat \<Rightarrow> (cg_state \<times> status) option" where
  "cgroup_set_io_weight st cg value len = do {
     ok \<leftarrow> settable st cg value len CGROUP_CONTROLLER_IO;
     if \<not> ok then Some (st, ERR EOPNOTSUPP)
     else do {
       r \<leftarrow> parse_u64 (value_bytes value) len;
       case r of Inl e \<Rightarrow> Some (st, ERR e) | Inr weight \<Rightarrow> update_cgroup st cg (\<lambda>c. c\<lparr>io_weight := weight\<rparr>) } }"

definition cpuset_store :: "bytes \<Rightarrow> bytes \<Rightarrow> nat \<Rightarrow> bytes option" where
  "cpuset_store buf v len = do {
     let n = (if len < 63 then len else 63);
     m \<leftarrow> memcpy (buf @ v) 0 (length buf) n;
     Some ((take (length buf) m)[n := 0]) }"

definition cgroup_set_cpuset_cpus :: "cg_state \<Rightarrow> cg_ptr option \<Rightarrow> bytes option \<Rightarrow> nat \<Rightarrow> (cg_state \<times> status) option" where
  "cgroup_set_cpuset_cpus st cg value len = do {
     ok \<leftarrow> settable st cg value len CGROUP_CONTROLLER_CPUSET;
     if \<not> ok then Some (st, ERR EOPNOTSUPP)
     else do { a \<leftarrow> cg; c \<leftarrow> cgroups st a; buf \<leftarrow> cpuset_store (cpuset_cpus c) (value_bytes value) len;
       update_cgroup st cg (\<lambda>c. c\<lparr>cpuset_cpus := buf\<rparr>) } }"

definition cgroup_set_cpuset_mems :: "cg_state \<Rightarrow> cg_ptr option \<Rightarrow> bytes option \<Rightarrow> nat \<Rightarrow> (cg_state \<times> status) option" where
  "cgroup_set_cpuset_mems st cg value len = do {
     ok \<leftarrow> settable st cg value len CGROUP_CONTROLLER_CPUSET;
     if \<not> ok then Some (st, ERR EOPNOTSUPP)
     else do { a \<leftarrow> cg; c \<leftarrow> cgroups st a; buf \<leftarrow> cpuset_store (cpuset_mems c) (value_bytes value) len;
       update_cgroup st cg (\<lambda>c. c\<lparr>cpuset_mems := buf\<rparr>) } }"

text \<open>\<open>cur\<close> is the current task.\<close>

definition cgroup_move_pid :: "cg_state \<Rightarrow> nat option \<Rightarrow> cg_ptr option \<Rightarrow> bytes option \<Rightarrow> nat \<Rightarrow> (cg_state \<times> status) option" where
  "cgroup_move_pid st cur cg value len = do {
     r \<leftarrow> parse_u64 (value_bytes value) len;
     case r of
       Inl e \<Rightarrow> Some (st, ERR e)
     | Inr pid \<Rightarrow> do {
         task \<leftarrow> (if pid = 0 then Some cur else find_task_locked st Root_cgroup pid);
         case task of
           None \<Rightarrow> Some (st, ERR ESRCH)
         | Some t \<Rightarrow> do {
             x \<leftarrow> tasks st t;
             if task_zombie x then Some (st, ERR ESRCH) else do { a \<leftarrow> cg; attach_task_locked st a t } } } }"

section \<open>Queries\<close>

definition cgroup_parent :: "cg_state \<Rightarrow> cg_ptr option \<Rightarrow> cg_ptr option option" where
  "cgroup_parent st cg = (case cg of None \<Rightarrow> Some None | Some a \<Rightarrow> map_option cg_parent (cgroups st a))"

definition cgroup_name :: "cg_state \<Rightarrow> cg_ptr option \<Rightarrow> bytes option option" where
  "cgroup_name st cg = (case cg of None \<Rightarrow> Some None | Some a \<Rightarrow> map_option (Some \<circ> cg_name) (cgroups st a))"

definition cgroup_subtree_control :: "cg_state \<Rightarrow> cg_ptr option \<Rightarrow> uint64_t option" where
  "cgroup_subtree_control st cg = (case cg of None \<Rightarrow> Some 0 | Some a \<Rightarrow> map_option subtree_control (cgroups st a))"

definition cgroup_is_root :: "cg_ptr option \<Rightarrow> bool" where
  "cgroup_is_root cg \<longleftrightarrow> cg = Some Root_cgroup"

text \<open>The path is written from the end of the buffer towards its start; a name that does not fit gives no start.\<close>

partial_function (option) path_up :: "cg_state \<Rightarrow> cg_ptr option \<Rightarrow> bytes \<Rightarrow> nat \<Rightarrow> (bytes \<times> nat option) option" where
  "path_up st current buf at =
     (case current of
        None \<Rightarrow> Some (buf, Some at)
      | Some a \<Rightarrow>
          if a = Root_cgroup then Some (buf, Some at)
          else do {
            c \<leftarrow> cgroups st a;
            n \<leftarrow> strlen (cg_name c);
            if n = 0 \<or> size_add n 1 > at then Some (buf, None)
            else do {
              let at = at - n;
              m \<leftarrow> memcpy (buf @ cg_name c) at (length buf) n;
              let at = at - 1;
              _ \<leftarrow> guard (at < length buf);
              path_up st (cg_parent c) ((take (length buf) m)[at := 47]) at } })"

definition cgroup_format_path :: "cg_state \<Rightarrow> cg_ptr option \<Rightarrow> bytes option \<Rightarrow> nat \<Rightarrow> (bytes option \<times> (errno + int)) option" where
  "cgroup_format_path st cg buf len =
     (case (cg, buf) of
        (Some a, Some b) \<Rightarrow>
          if len < 2 then Some (buf, Inl EINVAL)
          else do {
            c \<leftarrow> cgroups st a;
            if dying c then Some (buf, Inl ENOENT)
            else do {
              _ \<leftarrow> guard (len \<le> length b);
              (b, r) \<leftarrow> path_up st cg (b[len - 1 := 0]) (len - 1);
              case r of
                None \<Rightarrow> Some (Some b, Inl ENAMETOOLONG)
              | Some at \<Rightarrow> do {
                  let (b, at) = (if at = len - 1 then (b[at - 1 := 47], at - 1) else (b, at));
                  let n = len - at - 1;
                  b \<leftarrow> memmove b 0 at (n + 1);
                  Some (Some b, Inr (int32_of_size n)) } } }
      | _ \<Rightarrow> Some (buf, Inl EINVAL))"

text \<open>The count of a subtree, with the groups still to visit as a list.\<close>

partial_function (option) count_groups :: "cg_state \<Rightarrow> cg_ptr list \<Rightarrow> uint64_t \<Rightarrow> uint64_t option" where
  "count_groups st as n =
     (case as of [] \<Rightarrow> Some n | a # as \<Rightarrow> do { c \<leftarrow> cgroups st a; count_groups st (cg_children c @ as) (n + 1) })"

definition cgroup_count_locked :: "cg_state \<Rightarrow> cg_ptr \<Rightarrow> uint64_t option" where
  "cgroup_count_locked st cg = count_groups st [cg] 0"

end
