(* ===== verification/Cgroup_Tree.thy ===== *)
theory Cgroup_Tree
  imports Cgroup
begin

text \<open>
  What the operations on control groups rely on: the hierarchy as a tree of parent pointers and
  child lists, the way from a group to the root that the charging loops follow, the tasks a group
  counts, and the results of the loops on it.
\<close>

section \<open>Views of the state\<close>

text \<open>Each invariant speaks about one view, so that an operation that keeps a view keeps its invariant.\<close>

record tnode =
  tn_parent :: "cg_ptr option"
  tn_children :: "cg_ptr list"
  tn_dying :: bool

definition tree :: "cg_state \<Rightarrow> cg_ptr \<Rightarrow> tnode option" where
  "tree st a = map_option (\<lambda>c. \<lparr>tn_parent = cg_parent c, tn_children = cg_children c, tn_dying = dying c\<rparr>) (cgroups st a)"

definition ring :: "cg_state \<Rightarrow> cg_ptr \<Rightarrow> nat list option" where
  "ring st a = map_option cg_tasks (cgroups st a)"

definition counts :: "cg_state \<Rightarrow> cg_ptr \<Rightarrow> uint64_t option" where
  "counts st a = map_option pids_current (cgroups st a)"

definition controls :: "cg_state \<Rightarrow> cg_ptr \<Rightarrow> uint64_t option" where
  "controls st a = map_option subtree_control (cgroups st a)"

definition texts :: "cg_state \<Rightarrow> cg_ptr \<Rightarrow> (bytes \<times> bytes \<times> bytes) option" where
  "texts st a = map_option (\<lambda>c. (cg_name c, cpuset_cpus c, cpuset_mems c)) (cgroups st a)"

lemmas views = tree_def ring_def counts_def controls_def texts_def

definition tcg :: "(nat \<Rightarrow> task option) \<Rightarrow> nat \<Rightarrow> cg_ptr option" where
  "tcg K t = Option.bind (K t) task_cgroup"

section \<open>The way to the root\<close>

fun up :: "(cg_ptr \<Rightarrow> tnode option) \<Rightarrow> cg_ptr option \<Rightarrow> cg_ptr list \<Rightarrow> bool" where
  "up T p [] \<longleftrightarrow> p = None"
| "up T p (a # as) \<longleftrightarrow> p = Some a \<and> (\<exists>n. T a = Some n \<and> up T (tn_parent n) as)"

lemma up_unique: "up T p as \<Longrightarrow> up T p bs \<Longrightarrow> as = bs"
proof (induction as arbitrary: p bs)
  case Nil
  then show ?case by (cases bs) auto
next
  case (Cons a as)
  then show ?case by (cases bs) auto
qed

lemma up_suffix: "up T p (xs @ a # ys) \<Longrightarrow> up T (Some a) (a # ys)"
  by (induction xs arbitrary: p) auto

lemma up_distinct: "up T p as \<Longrightarrow> distinct as"
proof (rule ccontr)
  assume u: "up T p as" and "\<not> distinct as"
  then obtain xs ys zs a where as: "as = xs @ [a] @ ys @ [a] @ zs" using not_distinct_decomp by blast
  have "up T (Some a) (a # ys @ a # zs)" using up_suffix [of T p xs a "ys @ a # zs"] u by (simp add: as)
  moreover have "up T (Some a) (a # zs)" using up_suffix [of T p "xs @ a # ys" a zs] u by (simp add: as)
  ultimately have "a # ys @ a # zs = a # zs" by (rule up_unique)
  then show False by auto
qed

lemma up_cong: "(\<And>a. a \<in> set as \<Longrightarrow> map_option tn_parent (T a) = map_option tn_parent (T' a)) \<Longrightarrow> up T p as = up T' p as"
proof (induction as arbitrary: p)
  case (Cons a as)
  have "map_option tn_parent (T a) = map_option tn_parent (T' a)" using Cons.prems by simp
  moreover have "up T q as = up T' q as" for q using Cons by simp
  ultimately show ?case by (cases "T a"; cases "T' a") auto
qed simp

lemma up_head: "up T (Some a) as \<Longrightarrow> a \<in> set as" by (cases as) auto

definition live :: "(cg_ptr \<Rightarrow> tnode option) \<Rightarrow> cg_ptr \<Rightarrow> bool" where
  "live T a \<longleftrightarrow> (\<exists>n. T a = Some n \<and> \<not> tn_dying n)"

text \<open>The tasks in the subtree of a group.\<close>

definition members :: "(cg_ptr \<Rightarrow> tnode option) \<Rightarrow> (nat \<Rightarrow> task option) \<Rightarrow> cg_ptr \<Rightarrow> nat set" where
  "members T K a = {t. \<exists>b as. tcg K t = Some b \<and> up T (Some b) as \<and> a \<in> set as}"

section \<open>The invariant\<close>

definition tree_ok :: "(cg_ptr \<Rightarrow> tnode option) \<Rightarrow> bool" where
  "tree_ok T \<longleftrightarrow>
     (\<exists>n. T Root_cgroup = Some n \<and> \<not> tn_dying n \<and> tn_parent n = None)
   \<and> (\<forall>a n. T a = Some n \<and> \<not> tn_dying n \<longrightarrow>
        (\<exists>as. up T (Some a) as) \<and> distinct (tn_children n)
      \<and> (\<forall>b \<in> set (tn_children n). \<exists>m. T b = Some m \<and> \<not> tn_dying m \<and> tn_parent m = Some a)
      \<and> (a \<noteq> Root_cgroup \<longrightarrow> (\<exists>p m. tn_parent n = Some p \<and> T p = Some m \<and> \<not> tn_dying m \<and> a \<in> set (tn_children m))))"

definition tasks_ok :: "(cg_ptr \<Rightarrow> tnode option) \<Rightarrow> (cg_ptr \<Rightarrow> nat list option) \<Rightarrow> (nat \<Rightarrow> task option) \<Rightarrow> bool" where
  "tasks_ok T R K \<longleftrightarrow>
     finite (dom K) \<and> card (dom K) < 2 ^ 64
   \<and> (\<forall>t x. K t = Some x \<longrightarrow> task_node x = task_cgroup x \<and> (\<forall>a. task_cgroup x = Some a \<longrightarrow> live T a))
   \<and> (\<forall>a ts. R a = Some ts \<longrightarrow> distinct ts \<and> set ts = {t. tcg K t = Some a})"

definition counts_ok :: "(cg_ptr \<Rightarrow> tnode option) \<Rightarrow> (cg_ptr \<Rightarrow> uint64_t option) \<Rightarrow> (nat \<Rightarrow> task option) \<Rightarrow> bool" where
  "counts_ok T C K \<longleftrightarrow> (\<forall>a w. live T a \<and> C a = Some w \<longrightarrow> unat w = card (members T K a))"

definition controls_ok :: "(cg_ptr \<Rightarrow> tnode option) \<Rightarrow> (cg_ptr \<Rightarrow> uint64_t option) \<Rightarrow> uint64_t \<Rightarrow> bool" where
  "controls_ok T C reg \<longleftrightarrow>
     (\<forall>w. C Root_cgroup = Some w \<longrightarrow> w AND NOT reg = 0)
   \<and> (\<forall>a n p w v. T a = Some n \<and> \<not> tn_dying n \<and> tn_parent n = Some p \<and> C a = Some w \<and> C p = Some v \<longrightarrow> w AND NOT v = 0)"

definition cstring :: "bytes \<Rightarrow> bytes" where
  "cstring s = takeWhile (\<lambda>c. c \<noteq> 0) s"

definition texts_ok :: "(cg_ptr \<Rightarrow> tnode option) \<Rightarrow> (cg_ptr \<Rightarrow> (bytes \<times> bytes \<times> bytes) option) \<Rightarrow> bool" where
  "texts_ok T X \<longleftrightarrow>
     (\<forall>a nm cpus mems. X a = Some (nm, cpus, mems) \<longrightarrow>
        0 \<in> set nm \<and> length cpus = 64 \<and> cpus ! 63 = 0 \<and> length mems = 64 \<and> mems ! 63 = 0)
   \<and> (\<forall>a n. T a = Some n \<and> \<not> tn_dying n \<longrightarrow>
        distinct (map (\<lambda>b. map_option (cstring \<circ> fst) (X b)) (tn_children n)))"

definition consistent :: "cg_state \<Rightarrow> bool" where
  "consistent st \<longleftrightarrow>
     cgroup_ready st \<and> tree_ok (tree st) \<and> tasks_ok (tree st) (ring st) (tasks st) \<and> counts_ok (tree st) (counts st) (tasks st)
   \<and> controls_ok (tree st) (controls st) (registered_controllers st) \<and> texts_ok (tree st) (texts st)"

lemma consistentD:
  assumes "consistent st"
  shows "cgroup_ready st" "tree_ok (tree st)" "tasks_ok (tree st) (ring st) (tasks st)" "counts_ok (tree st) (counts st) (tasks st)"
    "controls_ok (tree st) (controls st) (registered_controllers st)" "texts_ok (tree st) (texts st)"
  using assms by (simp_all add: consistent_def)

lemma live_cgroup: "live (tree st) a \<Longrightarrow> \<exists>c. cgroups st a = Some c \<and> \<not> dying c"
  by (auto simp: live_def tree_def)

lemma live_up: "tree_ok T \<Longrightarrow> live T a \<Longrightarrow> \<exists>as. up T (Some a) as"
  by (auto simp: tree_ok_def live_def)

lemma root_live: "tree_ok T \<Longrightarrow> live T Root_cgroup"
  by (auto simp: tree_ok_def live_def)

lemma up_live: "tree_ok T \<Longrightarrow> live T a \<Longrightarrow> up T (Some a) as \<Longrightarrow> b \<in> set as \<Longrightarrow> live T b"
proof (induction as arbitrary: a)
  case (Cons x as)
  obtain n where n: "x = a" "T a = Some n" "\<not> tn_dying n" "up T (tn_parent n) as" using Cons.prems by (auto simp: live_def)
  show ?case
  proof (cases "b = a \<or> as = []")
    case True
    then show ?thesis using Cons.prems n by auto
  next
    case False
    then obtain p where p: "tn_parent n = Some p" using n(4) by (cases as) auto
    have "a \<noteq> Root_cgroup" using Cons.prems(1) n(2) p by (auto simp: tree_ok_def)
    then have "live T p" using Cons.prems(1) n p unfolding tree_ok_def live_def by (metis option.inject)
    then show ?thesis using Cons.IH [of p] Cons.prems n p False by auto
  qed
qed simp

section \<open>The loops\<close>

lemma tree_Some: "tree st a = Some n \<Longrightarrow> \<exists>c. cgroups st a = Some c \<and> cg_parent c = tn_parent n"
  by (auto simp: tree_def)

lemma is_descendant_up: "up (tree st) p as \<Longrightarrow> is_descendant st p x = Some (x \<in> set as)"
proof (induction as arbitrary: p)
  case (Cons a as)
  then show ?case by (subst is_descendant.simps) (auto dest: tree_Some)
qed (subst is_descendant.simps, simp)

definition bump :: "(uint64_t \<Rightarrow> uint64_t) \<Rightarrow> cg_ptr set \<Rightarrow> cg_state \<Rightarrow> cg_state" where
  "bump f S st = st\<lparr>cgroups := \<lambda>a. if a \<in> S then map_option (\<lambda>c. c\<lparr>pids_current := f (pids_current c)\<rparr>) (cgroups st a) else cgroups st a\<rparr>"

lemma put_bump: "cgroups st a = Some c \<Longrightarrow> put_cgroup st a (c\<lparr>pids_current := f (pids_current c)\<rparr>) = bump f {a} st"
  by (auto simp: put_cgroup_def bump_def fun_eq_iff)

lemma bump_bump: "S \<inter> S' = {} \<Longrightarrow> bump f S (bump f S' st) = bump f (S \<union> S') st"
  unfolding bump_def by (rule cg_state.equality) (auto simp: fun_eq_iff)

lemma bump_views [simp]:
  "tree (bump f S st) = tree st" "ring (bump f S st) = ring st" "controls (bump f S st) = controls st"
  "texts (bump f S st) = texts st" "tasks (bump f S st) = tasks st" "cgroup_ready (bump f S st) = cgroup_ready st"
  "registered_controllers (bump f S st) = registered_controllers st"
  "counts (bump f S st) a = (if a \<in> S then map_option f (counts st a) else counts st a)"
  by (auto simp: views bump_def fun_eq_iff option.map_comp o_def)

lemma bump_empty [simp]: "bump f {} st = st" by (simp add: bump_def)

lemma count_loop_up: "up (tree st) p as \<Longrightarrow> count_loop f st p = Some (bump f (set as) st)"
proof (induction as arbitrary: st p)
  case (Cons a as)
  obtain c where c: "cgroups st a = Some c" "up (tree st) (cg_parent c) as" "p = Some a"
    using Cons.prems by (auto dest: tree_Some)
  have "a \<notin> set as" using up_distinct [OF Cons.prems] by simp
  then have "bump f (set as) (bump f {a} st) = bump f (set (a # as)) st" by (subst bump_bump) auto
  moreover have "count_loop f (bump f {a} st) (cg_parent c) = Some (bump f (set as) (bump f {a} st))"
    using Cons.IH [of "bump f {a} st" "cg_parent c"] c(2) by simp
  ultimately show ?case
    using c by (subst count_loop.simps) (simp add: put_bump)
qed (subst count_loop.simps, simp)

text \<open>Whether the limit of a group on the number of tasks is reached.\<close>

definition full :: "cg_state \<Rightarrow> cg_ptr \<Rightarrow> bool" where
  "full st a \<longleftrightarrow> exhausted st a = Some True"

lemma parent_control_live:
  assumes "tree_ok (tree st)" "cgroups st a = Some c" "\<not> dying c" "a \<noteq> Root_cgroup"
  shows "\<exists>p pc. cg_parent c = Some p \<and> cgroups st p = Some pc \<and> \<not> dying pc \<and> a \<in> set (cg_children pc)
    \<and> parent_control st c = Some (subtree_control pc)"
proof -
  have n: "tree st a = Some \<lparr>tn_parent = cg_parent c, tn_children = cg_children c, tn_dying = dying c\<rparr>" using assms by (simp add: tree_def)
  have "\<exists>p m. cg_parent c = Some p \<and> tree st p = Some m \<and> \<not> tn_dying m \<and> a \<in> set (tn_children m)"
    using assms n unfolding tree_ok_def by fastforce
  then show ?thesis by (auto simp: tree_def parent_control_def)
qed

lemma available_live: "tree_ok (tree st) \<Longrightarrow> live (tree st) a \<Longrightarrow> controller_available_locked st a flag \<noteq> None"
  using parent_control_live [of st a] by (fastforce simp: controller_available_locked_def dest!: live_cgroup)

lemma exhausted_live: "tree_ok (tree st) \<Longrightarrow> live (tree st) a \<Longrightarrow> exhausted st a = Some (full st a)"
  using available_live [of st a CGROUP_CONTROLLER_PIDS] by (auto simp: full_def exhausted_def dest!: live_cgroup)

lemma limit_loop_up:
  "up (tree st) p as \<Longrightarrow> (\<And>a. a \<in> set as \<Longrightarrow> exhausted st a = Some (full st a)) \<Longrightarrow> up (tree st) old os \<Longrightarrow>
     limit_loop st old p = Some (find (full st) (takeWhile (\<lambda>a. a \<notin> set os) as))"
proof (induction as arbitrary: p)
  case (Cons a as)
  then obtain c where "cgroups st a = Some c" "up (tree st) (cg_parent c) as" "p = Some a" by (auto dest: tree_Some)
  then show ?case
    using Cons is_descendant_up [OF Cons.prems(3), of a] by (subst limit_loop.simps) auto
qed (subst limit_loop.simps, simp)

end
