(* ===== verification/Cgroup_Tasks.thy ===== *)
theory Cgroup_Tasks
  imports Cgroup_Tree
begin

text \<open>
  Forking, moving and ending tasks: what the operations do to a consistent hierarchy, and that the
  task counters of every group stay the numbers of tasks in its subtree.
\<close>

section \<open>Placing a task\<close>

definition place :: "nat \<Rightarrow> cg_ptr \<Rightarrow> cg_state \<Rightarrow> cg_state" where
  "place t a st = st\<lparr>
     cgroups := (cgroups st)(a := map_option (\<lambda>c. c\<lparr>cg_tasks := cg_tasks c @ [t]\<rparr>) (cgroups st a)),
     tasks := (tasks st)(t := map_option (\<lambda>x. x\<lparr>task_cgroup := Some a, task_node := Some a\<rparr>) (tasks st t))\<rparr>"

definition unplace :: "nat \<Rightarrow> cg_ptr \<Rightarrow> cg_state \<Rightarrow> cg_state" where
  "unplace t a st = st\<lparr>
     cgroups := (cgroups st)(a := map_option (\<lambda>c. c\<lparr>cg_tasks := remove1 t (cg_tasks c)\<rparr>) (cgroups st a)),
     tasks := (tasks st)(t := map_option (\<lambda>x. x\<lparr>task_cgroup := None, task_node := None\<rparr>) (tasks st t))\<rparr>"

lemma place_views [simp]:
  "tree (place t a st) = tree st" "controls (place t a st) = controls st" "texts (place t a st) = texts st"
  "counts (place t a st) = counts st" "cgroup_ready (place t a st) = cgroup_ready st"
  "registered_controllers (place t a st) = registered_controllers st"
  "ring (place t a st) = (ring st)(a := map_option (\<lambda>ts. ts @ [t]) (ring st a))"
  by (auto simp: views place_def fun_eq_iff option.map_comp o_def)

lemma unplace_views [simp]:
  "tree (unplace t a st) = tree st" "controls (unplace t a st) = controls st" "texts (unplace t a st) = texts st"
  "counts (unplace t a st) = counts st" "cgroup_ready (unplace t a st) = cgroup_ready st"
  "registered_controllers (unplace t a st) = registered_controllers st"
  "ring (unplace t a st) = (ring st)(a := map_option (remove1 t) (ring st a))"
  by (auto simp: views unplace_def fun_eq_iff option.map_comp o_def)

lemma tcg_place: "K t \<noteq> None \<Longrightarrow> tcg (K(t := map_option (\<lambda>x. x\<lparr>task_cgroup := Some a, task_node := Some a\<rparr>) (K t))) = (tcg K)(t \<mapsto> a)"
  by (auto simp: tcg_def fun_eq_iff)

lemma tcg_unplace: "tcg (K(t := map_option (\<lambda>x. x\<lparr>task_cgroup := None, task_node := None\<rparr>) (K t))) = (tcg K)(t := None)"
  by (cases "K t") (auto simp: tcg_def fun_eq_iff)

lemma members_add:
  assumes "tcg K t = None" "K t \<noteq> None" "up T (Some a) as"
  shows "members T (K(t := map_option (\<lambda>x. x\<lparr>task_cgroup := Some a, task_node := Some a\<rparr>) (K t))) b
    = (if b \<in> set as then insert t (members T K b) else members T K b)"
proof -
  have u: "up T (Some a) bs \<longleftrightarrow> bs = as" for bs using assms(3) up_unique by blast
  show ?thesis using assms(1) unfolding members_def tcg_place [of K t, OF assms(2)] by (auto simp: u split: if_splits)
qed

lemma members_drop:
  assumes "tcg K t = Some a" "up T (Some a) as"
  shows "members T (K(t := map_option (\<lambda>x. x\<lparr>task_cgroup := None, task_node := None\<rparr>) (K t))) b = members T K b - {t}"
    "t \<in> members T K b \<longleftrightarrow> b \<in> set as"
proof -
  have u: "up T (Some a) bs \<longleftrightarrow> bs = as" for bs using assms(2) up_unique by blast
  show "members T (K(t := map_option (\<lambda>x. x\<lparr>task_cgroup := None, task_node := None\<rparr>) (K t))) b = members T K b - {t}"
    unfolding members_def tcg_unplace by (auto split: if_splits)
  show "t \<in> members T K b \<longleftrightarrow> b \<in> set as" using assms(1) unfolding members_def by (simp add: u)
qed

lemma members_dom: "members T K b \<subseteq> dom K"
  by (auto simp: members_def tcg_def bind_eq_Some_conv)

lemma members_finite: "tasks_ok T R K \<Longrightarrow> finite (members T K b)"
  using members_dom finite_subset unfolding tasks_ok_def by metis

lemma place_consistent:
  assumes st: "consistent st" and t: "tcg (tasks st) t = None" "tasks st t \<noteq> None"
    and a: "live (tree st) a" "up (tree st) (Some a) as"
  shows "consistent (bump (\<lambda>n. n + 1) (set as) (place t a st))"
proof -
  note ok = consistentD [OF st]
  let ?K = "(tasks st)(t := map_option (\<lambda>x. x\<lparr>task_cgroup := Some a, task_node := Some a\<rparr>) (tasks st t))"
  have K: "tasks (place t a st) = ?K" by (simp add: place_def)
  have dom: "dom ?K = dom (tasks st)" using t(2) by auto
  have tcg: "tcg ?K s = (if s = t then Some a else tcg (tasks st) s)" for s using t(2) by (simp add: tcg_place)
  have old: "task_node x = task_cgroup x \<and> (\<forall>b. task_cgroup x = Some b \<longrightarrow> live (tree st) b)" if "tasks st s = Some x" for s x
    using ok(3) that unfolding tasks_ok_def by blast
  have "distinct ts \<and> set ts = {s. tcg ?K s = Some b}" if ts: "((ring st)(a := map_option (\<lambda>ts. ts @ [t]) (ring st a))) b = Some ts" for b ts
  proof -
    have r: "distinct us \<and> set us = {s. tcg (tasks st) s = Some b}" if "ring st b = Some us" for us
      using ok(3) that unfolding tasks_ok_def by blast
    show ?thesis using ts r t(1) by (auto simp: tcg split: if_splits)
  qed
  moreover have "task_node x = task_cgroup x \<and> (\<forall>b. task_cgroup x = Some b \<longrightarrow> live (tree st) b)" if "?K s = Some x" for s x
    using that old a(1) by (auto split: if_splits)
  ultimately have "tasks_ok (tree st) ((ring st)(a := map_option (\<lambda>ts. ts @ [t]) (ring st a))) ?K"
    using ok(3) unfolding tasks_ok_def dom by blast
  moreover have "unat w = card (members (tree st) ?K b)"
    if b: "live (tree st) b" "(if b \<in> set as then map_option (\<lambda>n. n + 1) (counts st b) else counts st b) = Some w" for b w
  proof -
    have new: "t \<notin> members (tree st) (tasks st) b" using t(1) by (simp add: members_def)
    have "insert t (members (tree st) (tasks st) b) \<subseteq> dom (tasks st)" using members_dom t(2) by auto
    then have "card (insert t (members (tree st) (tasks st) b)) < 2 ^ 64"
      using ok(3) card_mono [of "dom (tasks st)"] unfolding tasks_ok_def by (meson le_less_trans)
    then have less: "Suc (card (members (tree st) (tasks st) b)) < 2 ^ 64" using new members_finite [OF ok(3)] by simp
    have old: "unat v = card (members (tree st) (tasks st) b)" if "counts st b = Some v" for v
      using ok(4) that b(1) unfolding counts_ok_def by blast
    show ?thesis
    proof (cases "b \<in> set as")
      case True
      then obtain v where v: "counts st b = Some v" "w = v + 1" using b(2) by auto
      then have "unat (v + 1) = Suc (unat v)" using less old [OF v(1)] by (simp add: unat_word_ariths)
      then show ?thesis using True v old [OF v(1)] new members_finite [OF ok(3)] by (simp add: members_add [OF t a(2)])
    next
      case False
      then show ?thesis using b(2) old by (simp add: members_add [OF t a(2)])
    qed
  qed
  then have "counts_ok (tree st) (counts (bump (\<lambda>n. n + 1) (set as) (place t a st))) ?K"
    unfolding counts_ok_def by (simp only: bump_views place_views) blast
  ultimately show ?thesis using ok by (simp add: consistent_def K)
qed

lemma unplace_consistent:
  assumes st: "consistent st" and t: "tcg (tasks st) t = Some a" and a: "up (tree st) (Some a) as"
  shows "consistent (unplace t a (bump (\<lambda>n. if n \<noteq> 0 then n - 1 else n) (set as) st))"
proof -
  note ok = consistentD [OF st]
  let ?f = "\<lambda>n::uint64_t. if n \<noteq> 0 then n - 1 else n"
  let ?K = "(tasks st)(t := map_option (\<lambda>x. x\<lparr>task_cgroup := None, task_node := None\<rparr>) (tasks st t))"
  have K: "tasks (unplace t a (bump ?f (set as) st)) = ?K" by (simp add: unplace_def)
  have t': "tasks st t \<noteq> None" using t by (auto simp: tcg_def bind_eq_Some_conv)
  then have dom: "dom ?K = dom (tasks st)" by auto
  have tcg: "tcg ?K s = (if s = t then None else tcg (tasks st) s)" for s by (simp add: tcg_unplace)
  have old: "task_node x = task_cgroup x \<and> (\<forall>b. task_cgroup x = Some b \<longrightarrow> live (tree st) b)" if "tasks st s = Some x" for s x
    using ok(3) that unfolding tasks_ok_def by blast
  have "distinct ts \<and> set ts = {s. tcg ?K s = Some b}" if ts: "((ring st)(a := map_option (remove1 t) (ring st a))) b = Some ts" for b ts
  proof -
    have r: "distinct us \<and> set us = {s. tcg (tasks st) s = Some b}" if "ring st b = Some us" for us
      using ok(3) that unfolding tasks_ok_def by blast
    show ?thesis using ts r t by (auto simp: tcg split: if_splits)
  qed
  moreover have "task_node x = task_cgroup x \<and> (\<forall>b. task_cgroup x = Some b \<longrightarrow> live (tree st) b)" if "?K s = Some x" for s x
    using that old by (auto split: if_splits)
  ultimately have "tasks_ok (tree st) ((ring st)(a := map_option (remove1 t) (ring st a))) ?K"
    using ok(3) unfolding tasks_ok_def dom by blast
  moreover have "unat w = card (members (tree st) ?K b)"
    if b: "live (tree st) b" "(if b \<in> set as then map_option ?f (counts st b) else counts st b) = Some w" for b w
  proof -
    have old: "unat v = card (members (tree st) (tasks st) b)" if "counts st b = Some v" for v
      using ok(4) that b(1) unfolding counts_ok_def by blast
    show ?thesis
    proof (cases "b \<in> set as")
      case True
      then obtain v where v: "counts st b = Some v" "w = ?f v" using b(2) by auto
      have mem: "t \<in> members (tree st) (tasks st) b" using True members_drop(2) [OF t a] by simp
      then have pos: "0 < unat v" using old [OF v(1)] members_finite [OF ok(3)] by (auto simp: card_gt_0_iff)
      then have "unat (?f v) = unat v - 1" by (auto simp: unat_minus_one)
      then show ?thesis using v old [OF v(1)] mem by (simp add: members_drop(1) [OF t a] card_Diff_singleton)
    next
      case False
      then have "members (tree st) (tasks st) b - {t} = members (tree st) (tasks st) b" using members_drop(2) [OF t a] by auto
      then show ?thesis using b(2) old False by (simp add: members_drop(1) [OF t a])
    qed
  qed
  then have "counts_ok (tree st) (counts (unplace t a (bump ?f (set as) st))) ?K"
    unfolding counts_ok_def by (simp only: bump_views unplace_views) blast
  ultimately show ?thesis using ok by (simp add: consistent_def K)
qed

section \<open>The operations on tasks\<close>

definition note_event :: "cg_ptr \<Rightarrow> cg_state \<Rightarrow> cg_state" where
  "note_event a st = st\<lparr>cgroups := (cgroups st)(a := map_option (\<lambda>c. c\<lparr>pids_events_max := pids_events_max c + 1\<rparr>) (cgroups st a))\<rparr>"

lemma note_event_views [simp]:
  "tree (note_event a st) = tree st" "controls (note_event a st) = controls st" "texts (note_event a st) = texts st"
  "counts (note_event a st) = counts st" "ring (note_event a st) = ring st" "tasks (note_event a st) = tasks st"
  "cgroup_ready (note_event a st) = cgroup_ready st" "registered_controllers (note_event a st) = registered_controllers st"
  by (auto simp: views note_event_def fun_eq_iff option.map_comp o_def)

lemma note_event_consistent: "consistent st \<Longrightarrow> consistent (note_event a st)"
  by (simp add: consistent_def)

lemma record_event: "live (tree st) a \<Longrightarrow> record_pids_max_event_locked st a = Some (note_event a st)"
  by (auto simp: record_pids_max_event_locked_def note_event_def put_cgroup_def dest!: live_cgroup)

lemma find_live: "tree_ok T \<Longrightarrow> live T a \<Longrightarrow> up T (Some a) as \<Longrightarrow> set bs \<subseteq> set as \<Longrightarrow> find P bs = Some b \<Longrightarrow> live T b"
  using up_live [of T a as b] nth_mem by (fastforce simp: find_Some_iff)

lemma charge_live:
  assumes "consistent st" "live (tree st) a" "up (tree st) (Some a) as"
  shows "charge_locked st a = Some (case find (full st) as of
      None \<Rightarrow> (bump (\<lambda>n. n + 1) (set as) st, EOK) | Some b \<Rightarrow> (note_event b st, ERR EAGAIN))"
proof -
  note ok = consistentD(2) [OF assms(1)]
  have "limit_loop st None (Some a) = Some (find (full st) as)"
    using limit_loop_up [OF assms(3), of None "[]"] exhausted_live [OF ok] up_live [OF ok assms(2,3)] by (simp add: takeWhile_eq_all_conv [THEN iffD2])
  moreover have "record_pids_max_event_locked st b = Some (note_event b st)" if "find (full st) as = Some b" for b
    using find_live [OF ok assms(2,3) subset_refl that] record_event by blast
  ultimately show ?thesis
    using count_loop_up [OF assms(3)] by (auto simp: charge_locked_def split: option.split)
qed

lemma place_bump: "place t a (bump f S st) = bump f S (place t a st)"
  unfolding place_def bump_def by (cases "cgroups st a"; rule cg_state.equality) (auto simp: fun_eq_iff)

lemma insert_place:
  assumes "tasks st t = Some x" "task_node x = None" "cgroups st a = Some c"
  shows "do { st \<leftarrow> set_task_cgroup st t (Some a); ring_insert st a t } = Some (place t a st)"
  using assms by (simp add: set_task_cgroup_def ring_insert_def put_task_def put_cgroup_def place_def)

lemma task_swap: "x\<lparr>task_node := n, task_cgroup := a\<rparr> = x\<lparr>task_cgroup := a, task_node := n\<rparr>" for x :: task
  by (cases x) simp

lemma remove_unplace:
  assumes "tasks st t = Some x" "task_node x = Some a" "cgroups st a = Some c"
  shows "do { st \<leftarrow> ring_remove st t; set_task_cgroup st t None } = Some (unplace t a st)"
  using assms by (simp add: set_task_cgroup_def ring_remove_def put_task_def put_cgroup_def unplace_def task_swap)

lemma move_place:
  assumes "tasks st t = Some x" "task_node x = Some a" "cgroups st a = Some c" "cgroups st b = Some d"
  shows "do { st \<leftarrow> ring_remove st t; st \<leftarrow> set_task_cgroup st t (Some b); ring_insert st b t } = Some (place t b (unplace t a st))"
  using assms by (cases "a = b") (auto simp: set_task_cgroup_def ring_remove_def ring_insert_def put_task_def put_cgroup_def unplace_def place_def task_swap)

text \<open>The group a new task starts in.\<close>

definition fork_target :: "cg_state \<Rightarrow> nat option \<Rightarrow> cg_ptr" where
  "fork_target st parent = (case Option.bind parent (tcg (tasks st)) of None \<Rightarrow> Root_cgroup | Some a \<Rightarrow> a)"

lemma tcg_live: "consistent st \<Longrightarrow> tcg (tasks st) t = Some a \<Longrightarrow> live (tree st) a"
  using consistentD(3) [of st] unfolding tasks_ok_def tcg_def bind_eq_Some_conv by blast

lemma fork_target_live: "consistent st \<Longrightarrow> live (tree st) (fork_target st parent)"
  using tcg_live [of st] root_live [of "tree st"] consistentD(2) [of st]
  by (auto simp: fork_target_def bind_eq_Some_conv split: option.split)

lemma node_cgroup: "consistent st \<Longrightarrow> tasks st t = Some x \<Longrightarrow> task_node x = task_cgroup x"
  using consistentD(3) [of st] unfolding tasks_ok_def by blast

lemma fork_live:
  assumes "consistent st" "tasks st t = Some x" "task_cgroup x = None" "pred_option (\<lambda>p. tasks st p \<noteq> None) parent"
    "up (tree st) (Some (fork_target st parent)) as"
  shows "cgroup_task_fork st (Some t) parent = Some (case find (full st) as of
      None \<Rightarrow> (bump (\<lambda>n. n + 1) (set as) (place t (fork_target st parent) st), EOK) | Some b \<Rightarrow> (note_event b st, ERR EAGAIN))"
proof -
  let ?a = "fork_target st parent"
  have live: "live (tree st) ?a" using fork_target_live [OF assms(1)] .
  have target: "(case parent of None \<Rightarrow> Some None | Some p \<Rightarrow> map_option task_cgroup (tasks st p)) = Some (Option.bind parent (tcg (tasks st)))"
    using assms(4) by (cases parent) (auto simp: tcg_def)
  obtain c where "cgroups (bump (\<lambda>n. n + 1) (set as) st) ?a = Some c"
    using live_cgroup [of "bump (\<lambda>n. n + 1) (set as) st" ?a] live by auto
  then have "do { st \<leftarrow> set_task_cgroup (bump (\<lambda>n. n + 1) (set as) st) t (Some ?a); ring_insert st ?a t }
      = Some (place t ?a (bump (\<lambda>n. n + 1) (set as) st))"
    using insert_place [of "bump (\<lambda>n. n + 1) (set as) st" t x ?a] assms(2,3) node_cgroup [OF assms(1,2)] by simp
  then have "do { st \<leftarrow> set_task_cgroup (bump (\<lambda>n. n + 1) (set as) st) t (Some ?a); st \<leftarrow> ring_insert st ?a t; Some (st, EOK) }
      = Some (bump (\<lambda>n. n + 1) (set as) (place t ?a st), EOK)"
    by (auto simp: bind_eq_Some_conv place_bump)
  then show ?thesis
    using charge_live [OF assms(1) live assms(5)] target consistentD(1) [OF assms(1)]
    by (cases "find (full st) as") (simp_all add: cgroup_task_fork_def fork_target_def [symmetric])
qed

lemma exit_live:
  assumes "consistent st" "tcg (tasks st) t = Some a" "up (tree st) (Some a) as"
  shows "cgroup_task_exit st (Some t) = Some (unplace t a (bump (\<lambda>n. if n \<noteq> 0 then n - 1 else n) (set as) st))"
proof -
  obtain x where x: "tasks st t = Some x" "task_cgroup x = Some a" using assms(2) by (auto simp: tcg_def bind_eq_Some_conv)
  let ?st = "bump (\<lambda>n. if n \<noteq> 0 then n - 1 else n) (set as) st"
  obtain c where "cgroups ?st a = Some c" using live_cgroup [of ?st a] tcg_live [OF assms(1,2)] by auto
  then have "do { st \<leftarrow> ring_remove ?st t; set_task_cgroup st t None } = Some (unplace t a ?st)"
    using remove_unplace [of ?st t x a] x node_cgroup [OF assms(1) x(1)] by simp
  then show ?thesis
    using x consistentD(1) [OF assms(1)] count_loop_up [OF assms(3)] by (simp add: cgroup_task_exit_def uncharge_locked_def)
qed

lemma attach_live:
  assumes "consistent st" "tcg (tasks st) t = Some old" "up (tree st) (Some old) os" "live (tree st) a" "up (tree st) (Some a) as" "old \<noteq> a"
  shows "attach_task_locked st a t = Some (case find (full st) (takeWhile (\<lambda>b. b \<notin> set os) as) of
      None \<Rightarrow> (bump (\<lambda>n. n + 1) (set as) (place t a (unplace t old (bump (\<lambda>n. if n \<noteq> 0 then n - 1 else n) (set os) st))), EOK)
    | Some b \<Rightarrow> (note_event b st, ERR EAGAIN))"
proof -
  note ok = consistentD(2) [OF assms(1)]
  obtain x where x: "tasks st t = Some x" "task_cgroup x = Some old" using assms(2) by (auto simp: tcg_def bind_eq_Some_conv)
  let ?st = "bump (\<lambda>n. if n \<noteq> 0 then n - 1 else n) (set os) st"
  have limit: "limit_loop st (Some old) (Some a) = Some (find (full st) (takeWhile (\<lambda>b. b \<notin> set os) as))"
    using limit_loop_up [OF assms(5) _ assms(3)] exhausted_live [OF ok] up_live [OF ok assms(4,5)] by simp
  have event: "record_pids_max_event_locked st b = Some (note_event b st)" if "find (full st) (takeWhile (\<lambda>b. b \<notin> set os) as) = Some b" for b
    using find_live [OF ok assms(4,5) _ that] record_event set_takeWhileD by (metis subsetI)
  obtain c d where "cgroups ?st old = Some c" "cgroups ?st a = Some d"
    using live_cgroup [of ?st old] live_cgroup [of ?st a] tcg_live [OF assms(1,2)] assms(4) by auto
  then have move: "do { st \<leftarrow> ring_remove ?st t; st \<leftarrow> set_task_cgroup st t (Some a); ring_insert st a t } = Some (place t a (unplace t old ?st))"
    using move_place [of ?st t x old c a d] x node_cgroup [OF assms(1) x(1)] by simp
  have "do { st \<leftarrow> ring_remove ?st t; st \<leftarrow> set_task_cgroup st t (Some a); st \<leftarrow> ring_insert st a t;
        st \<leftarrow> count_loop (\<lambda>n. n + 1) st (Some a); Some (st, EOK) }
      = Some (bump (\<lambda>n. n + 1) (set as) (place t a (unplace t old ?st)), EOK)"
    using move count_loop_up [of "place t a (unplace t old ?st)" "Some a" as] assms(5) by (auto simp: bind_eq_Some_conv)
  then show ?thesis
    using x assms(6) limit event count_loop_up [OF assms(3)]
    by (cases "find (full st) (takeWhile (\<lambda>b. b \<notin> set os) as)") (simp_all add: attach_task_locked_def uncharge_locked_def)
qed

end
