(* ===== verification/Cgroup_Text.thy ===== *)
theory Cgroup_Text
  imports Cgroup_Tasks
begin

text \<open>
  The text that user space hands to the control files, and the names of the groups: the loops over
  it stay inside the buffer and return, numbers are read exactly or refused, names are compared as
  strings.
\<close>

section \<open>Scanning\<close>

lemma byte_at_total: "i < length v \<Longrightarrow> byte_at v i = Some (v ! i)"
  by (simp add: byte_at_def)

lemma skip_blanks_total: "i \<le> n \<Longrightarrow> n \<le> length v \<Longrightarrow> \<exists>j. skip_blanks bs v n i = Some j \<and> i \<le> j \<and> j \<le> n"
proof (induction "n - i" arbitrary: i)
  case (Suc k)
  then have "k = n - Suc i" "Suc i \<le> n" by linarith+
  then obtain j where "skip_blanks bs v n (Suc i) = Some j" "Suc i \<le> j" "j \<le> n" using Suc.hyps(1) Suc.prems(2) by blast
  then show ?case using Suc.hyps(2) Suc.prems by (subst skip_blanks.simps) (auto simp: byte_at_total)
qed (subst skip_blanks.simps, simp)

lemma skip_word_total: "i \<le> n \<Longrightarrow> n \<le> length v \<Longrightarrow> \<exists>j. skip_word v n i = Some j \<and> i \<le> j \<and> j \<le> n"
proof (induction "n - i" arbitrary: i)
  case (Suc k)
  then have "k = n - Suc i" "Suc i \<le> n" by linarith+
  then obtain j where "skip_word v n (Suc i) = Some j" "Suc i \<le> j" "j \<le> n" using Suc.hyps(1) Suc.prems(2) by blast
  then show ?case using Suc.hyps(2) Suc.prems by (subst skip_word.simps) (auto simp: byte_at_total)
qed (subst skip_word.simps, simp)

lemma skip_blanks_run:
  "set xs \<subseteq> set bs \<Longrightarrow> (rest \<noteq> [] \<Longrightarrow> hd rest \<notin> set bs) \<Longrightarrow>
     skip_blanks bs (pre @ xs @ rest) (length pre + length xs + length rest) (length pre) = Some (length pre + length xs)"
proof (induction xs arbitrary: pre)
  case Nil
  then show ?case by (cases rest) (subst skip_blanks.simps, auto simp: byte_at_total nth_append)+
next
  case (Cons x xs)
  have "skip_blanks bs ((pre @ [x]) @ xs @ rest) (length (pre @ [x]) + length xs + length rest) (length (pre @ [x]))
      = Some (length (pre @ [x]) + length xs)"
    using Cons.prems by (intro Cons.IH) auto
  then show ?case using Cons.prems(1) by (subst skip_blanks.simps) (auto simp: byte_at_total nth_append)
qed

section \<open>Numbers\<close>

definition digit_sum :: "bytes \<Rightarrow> nat \<Rightarrow> nat" where
  "digit_sum ds n = fold (\<lambda>c n. n * 10 + (unat c - 48)) ds n"

lemma digit_sum_mono: "n \<le> digit_sum ds n"
  unfolding digit_sum_def
proof (induction ds arbitrary: n)
  case (Cons d ds)
  have "n \<le> n * 10 + (unat d - 48)" by simp
  also have "\<dots> \<le> fold (\<lambda>c n. n * 10 + (unat c - 48)) ds (n * 10 + (unat d - 48))" by (rule Cons.IH)
  finally show ?case by simp
qed simp

lemma digit_step:
  fixes w :: uint64_t
  assumes "is_digit c"
  shows "w > (- 1 - ucast (c - 48)) div 10 \<longleftrightarrow> 2 ^ 64 \<le> unat w * 10 + (unat c - 48)"
    "unat w * 10 + (unat c - 48) < 2 ^ 64 \<Longrightarrow> unat (w * 10 + ucast (c - 48)) = unat w * 10 + (unat c - 48)"
proof -
  have c: "48 \<le> unat c" "unat c \<le> 57" using assms unfolding is_digit_def word_le_nat_alt by simp_all
  have sub: "unat (c - 48) = unat c - 48" using c(1) by (subst unat_sub) (simp_all add: word_le_nat_alt)
  then have d: "unat (ucast (c - 48) :: uint64_t) = unat c - 48" using c by (simp add: unsigned_ucast_eq take_bit_nat_eq_self)
  have mone: "unat (- 1 :: uint64_t) = 2 ^ 64 - 1" by (simp add: unsigned_minus_1_eq_mask mask_eq_exp_minus_1)
  have m: "unat (- 1 - ucast (c - 48) :: uint64_t) = 2 ^ 64 - 1 - (unat c - 48)"
    using mone by (subst unat_sub) (simp_all add: d)
  have "unat ((- 1 - ucast (c - 48) :: uint64_t) div 10) = (2 ^ 64 - 1 - (unat c - 48)) div 10"
    by (simp only: unat_div m) simp
  then show "w > (- 1 - ucast (c - 48)) div 10 \<longleftrightarrow> 2 ^ 64 \<le> unat w * 10 + (unat c - 48)"
    unfolding word_less_nat_alt using c by (simp add: div_less_iff_less_mult) linarith
  show "unat (w * 10 + ucast (c - 48)) = unat w * 10 + (unat c - 48)" if "unat w * 10 + (unat c - 48) < 2 ^ 64"
    using that d by (simp add: unat_word_ariths)
qed

lemma digits_loop_run:
  "list_all is_digit ds \<Longrightarrow> (rest \<noteq> [] \<Longrightarrow> \<not> is_digit (hd rest)) \<Longrightarrow>
     digits_loop (pre @ ds @ rest) (length pre + length ds + length rest) (length pre) w
       = Some (if digit_sum ds (unat w) < 2 ^ 64 then Inr (length pre + length ds, of_nat (digit_sum ds (unat w))) else Inl ERANGE)"
proof (induction ds arbitrary: pre w)
  case Nil
  have "unat w < 2 ^ 64" using unsigned_less [of w, where ?'a = nat] by simp
  then show ?case using Nil by (cases rest) (subst digits_loop.simps, auto simp: byte_at_total nth_append digit_sum_def)+
next
  case (Cons c ds)
  have c: "is_digit c" using Cons.prems(1) by simp
  have sum: "digit_sum (c # ds) (unat w) = digit_sum ds (unat w * 10 + (unat c - 48))" by (simp add: digit_sum_def)
  show ?case
  proof (cases "unat w * 10 + (unat c - 48) < 2 ^ 64")
    case True
    have "digits_loop ((pre @ [c]) @ ds @ rest) (length (pre @ [c]) + length ds + length rest) (length (pre @ [c])) (w * 10 + ucast (c - 48))
      = Some (if digit_sum ds (unat w * 10 + (unat c - 48)) < 2 ^ 64 then Inr (length (pre @ [c]) + length ds, of_nat (digit_sum ds (unat w * 10 + (unat c - 48)))) else Inl ERANGE)"
      using Cons.IH [of "pre @ [c]" "w * 10 + ucast (c - 48)"] Cons.prems digit_step(2) [OF c True] by simp
    then show ?thesis
      using c True digit_step(1) [OF c, of w] sum by (subst digits_loop.simps) (simp add: byte_at_total nth_append)
  next
    case False
    then have "\<not> digit_sum (c # ds) (unat w) < 2 ^ 64" using digit_sum_mono [of "unat w * 10 + (unat c - 48)" ds] unfolding sum by linarith
    then show ?thesis
      using c False digit_step(1) [OF c, of w] by (subst digits_loop.simps) (simp add: byte_at_total nth_append)
  qed
qed

lemma digit_not_blank: "is_digit c \<Longrightarrow> c \<noteq> 32 \<and> c \<noteq> 9 \<and> c \<noteq> 10"
  by (auto simp: is_digit_def)

lemma blank_not_digit: "c \<in> {32, 9, 10} \<Longrightarrow> \<not> is_digit c"
  by (auto simp: is_digit_def)

text \<open>A decimal number between blanks is read exactly, or refused when it does not fit 64 bits.\<close>

lemma parse_u64_number:
  assumes "set xs \<subseteq> {32, 9}" "ds \<noteq> []" "list_all is_digit ds" "set ys \<subseteq> {32, 9, 10}"
  shows "parse_u64 (xs @ ds @ ys) (length xs + length ds + length ys)
    = Some (if digit_sum ds 0 < 2 ^ 64 then Inr (of_nat (digit_sum ds 0)) else Inl ERANGE)"
proof -
  have hd: "is_digit (hd ds)" using assms(2,3) by (cases ds) auto
  have "skip_blanks [32, 9] (xs @ ds @ ys) (length xs + length ds + length ys) 0 = Some (length xs)"
    using skip_blanks_run [of xs "[32, 9]" "ds @ ys" "[]"] assms(1,2) digit_not_blank [OF hd] by (simp add: add.assoc)
  moreover have "byte_at (xs @ ds @ ys) (length xs) = Some (hd ds)" using assms(2) by (cases ds) (simp_all add: byte_at_def nth_append)
  moreover have "digits_loop (xs @ ds @ ys) (length xs + length ds + length ys) (length xs) 0
      = Some (if digit_sum ds 0 < 2 ^ 64 then Inr (length xs + length ds, of_nat (digit_sum ds 0)) else Inl ERANGE)"
    using digits_loop_run [OF assms(3), of ys xs 0] assms(4) blank_not_digit by (cases ys) auto
  moreover have "skip_blanks [32, 9, 10] (xs @ ds @ ys) (length xs + length ds + length ys) (length xs + length ds) = Some (length xs + length ds + length ys)"
    using skip_blanks_run [of ys "[32, 9, 10]" "[]" "xs @ ds"] assms(4) by simp
  ultimately show ?thesis using hd assms(2) by (simp add: parse_u64_def)
qed

lemma digits_loop_total:
  "i \<le> n \<Longrightarrow> n \<le> length v \<Longrightarrow> \<exists>r. digits_loop v n i w = Some r \<and> (\<forall>j m. r = Inr (j, m) \<longrightarrow> j \<le> n)"
proof (induction "n - i" arbitrary: i w)
  case (Suc k)
  then have "k = n - Suc i" "Suc i \<le> n" by linarith+
  then have "\<exists>r. digits_loop v n (Suc i) w' = Some r \<and> (\<forall>j m. r = Inr (j, m) \<longrightarrow> j \<le> n)" for w' using Suc.hyps(1) Suc.prems(2) by blast
  then show ?case using Suc.hyps(2) Suc.prems by (subst digits_loop.simps) (auto simp: byte_at_total Let_def)
qed (subst digits_loop.simps, simp)

lemma parse_u64_total: "n \<le> length v \<Longrightarrow> \<exists>r. parse_u64 v n = Some r"
proof -
  assume n: "n \<le> length v"
  obtain i where i: "skip_blanks [32, 9] v n 0 = Some i" "i \<le> n" using skip_blanks_total [of 0 n v] n by blast
  obtain r where r: "digits_loop v n i 0 = Some r" "\<forall>j m. r = Inr (j, m) \<longrightarrow> j \<le> n" using digits_loop_total [OF i(2) n, of 0] by blast
  have "\<exists>r. Option.bind (skip_blanks [32, 9, 10] v n j) (\<lambda>i. Some (f i)) = Some r" if "j \<le> n" for j and f :: "nat \<Rightarrow> errno + uint64_t"
    using skip_blanks_total [OF that n, of "[32, 9, 10]"] by auto
  then show ?thesis
    using i r n by (auto simp: parse_u64_def byte_at_total split: sum.split prod.split)
qed

section \<open>Strings\<close>

lemma strncmp_total: "n \<le> length xs \<Longrightarrow> n \<le> length ys \<Longrightarrow> strncmp xs ys n \<noteq> None"
  by (induction xs ys n rule: strncmp.induct) auto

lemma zero_fill_total: "n \<le> length ds \<Longrightarrow> zero_fill ds n = Some (replicate n 0 @ drop n ds)"
  by (induction ds n rule: zero_fill.induct) auto

lemma strncpy_total: "n \<le> length ds \<Longrightarrow> n \<le> length cs \<Longrightarrow> \<exists>r. strncpy ds cs n = Some r \<and> length r = length ds \<and> drop n r = drop n ds"
proof (induction ds cs n rule: strncpy.induct)
  case (3 ds c cs n)
  then show ?case by (cases ds) (auto simp: zero_fill_total)
qed auto

lemma cstr_split: "0 \<in> set s \<Longrightarrow> \<exists>r. s = cstring s @ 0 # r \<and> 0 \<notin> set (cstring s)"
  unfolding cstring_def by (induction s) auto

lemma streq_cstring:
  assumes "0 \<in> set s" "0 \<in> set t"
  shows "streq s t = Some (cstring s = cstring t)"
proof -
  obtain x y where "s = cstring s @ 0 # x" "0 \<notin> set (cstring s)" "t = cstring t @ 0 # y" "0 \<notin> set (cstring t)"
    using cstr_split [OF assms(1)] cstr_split [OF assms(2)] by blast
  then show ?thesis using strcmp_cstr [of "cstring s" "cstring t" x y] unfolding streq_def by auto
qed

lemma strdup_cstring:
  assumes "0 \<in> set s" "malloc (length (cstring s) + 1) = Some b" "length b = length (cstring s) + 1"
  shows "strdup malloc s = Some (Some (cstring s @ [0]))"
proof -
  obtain r where "s = cstring s @ 0 # r" "0 \<notin> set (cstring s)" using cstr_split [OF assms(1)] by blast
  then show ?thesis using strdup_cstr [of "cstring s" malloc b r] assms(2,3) by simp
qed

lemma strdup_no_memory: "0 \<in> set s \<Longrightarrow> malloc (length (cstring s) + 1) = None \<Longrightarrow> strdup malloc s = Some None"
proof -
  assume a: "0 \<in> set s" "malloc (length (cstring s) + 1) = None"
  obtain r where "s = cstring s @ 0 # r" "0 \<notin> set (cstring s)" using cstr_split [OF a(1)] by blast
  then have "strlen s = Some (length (cstring s))" by (metis strlen_cstr)
  then show ?thesis using a(2) by (simp add: strdup_def)
qed

lemma cstring_nul [simp]: "0 \<notin> set s \<Longrightarrow> cstring (s @ 0 # r) = s"
  unfolding cstring_def by (rule takeWhile_zero)

lemma strchr_total: "0 \<in> set s \<Longrightarrow> strchr s (sint c) = Some (if c \<in> set (cstring s) then Some (length (takeWhile ((\<noteq>) c) (cstring s))) else None)"
proof -
  assume "0 \<in> set s"
  then obtain r where "s = cstring s @ 0 # r" "0 \<notin> set (cstring s)" using cstr_split by blast
  then show ?thesis using strchr_cstr [of "cstring s" r c] by simp
qed

lemma name_taken_names:
  assumes "0 \<in> set nm" "\<And>b. b \<in> set bs \<Longrightarrow> \<exists>c. cgroups st b = Some c \<and> 0 \<in> set (cg_name c)"
  shows "name_taken st nm bs = Some (Some (cstring nm) \<in> (\<lambda>b. map_option (cstring \<circ> cg_name) (cgroups st b)) ` set bs)"
  using assms(2)
proof (induction bs)
  case (Cons b bs)
  obtain c where c: "cgroups st b = Some c" "0 \<in> set (cg_name c)" using Cons.prems by auto
  then show ?case using Cons streq_cstring [OF c(2) assms(1)] by auto
qed simp

end
