(* ===== verification/Cgroup_Groups.thy ===== *)
theory Cgroup_Groups
  imports Cgroup_Text
begin

text \<open>
  Changes of the hierarchy: storing, freeing, detaching and adding a group, what they do to the
  views of the state, and that the invariant survives them.
\<close>

section \<open>Views of changed states\<close>

definition node_of :: "cgroup \<Rightarrow> tnode" where
  "node_of c = \<lparr>tn_parent = cg_parent c, tn_children = cg_children c, tn_dying = dying c\<rparr>"

lemma node_of_simps [simp]: "tn_parent (node_of c) = cg_parent c" "tn_children (node_of c) = cg_children c" "tn_dying (node_of c) = dying c"
  by (simp_all add: node_of_def)

lemma tree_node: "cgroups st a = Some c \<Longrightarrow> tree st a = Some (node_of c)"
  by (simp add: tree_def node_of_def)

lemma put_cgroup_views [simp]:
  "tree (put_cgroup st a c) = (tree st)(a \<mapsto> node_of c)" "ring (put_cgroup st a c) = (ring st)(a \<mapsto> cg_tasks c)"
  "counts (put_cgroup st a c) = (counts st)(a \<mapsto> pids_current c)" "controls (put_cgroup st a c) = (controls st)(a \<mapsto> subtree_control c)"
  "texts (put_cgroup st a c) = (texts st)(a \<mapsto> (cg_name c, cpuset_cpus c, cpuset_mems c))"
  "tasks (put_cgroup st a c) = tasks st" "cgroup_ready (put_cgroup st a c) = cgroup_ready st"
  "registered_controllers (put_cgroup st a c) = registered_controllers st"
  by (auto simp: views put_cgroup_def node_of_def fun_eq_iff)

lemma free_cgroup_views [simp]:
  "tree (free_cgroup st a) = (tree st)(a := None)" "ring (free_cgroup st a) = (ring st)(a := None)"
  "counts (free_cgroup st a) = (counts st)(a := None)" "controls (free_cgroup st a) = (controls st)(a := None)"
  "texts (free_cgroup st a) = (texts st)(a := None)"
  "tasks (free_cgroup st a) = tasks st" "cgroup_ready (free_cgroup st a) = cgroup_ready st"
  "registered_controllers (free_cgroup st a) = registered_controllers st"
  by (auto simp: views free_cgroup_def fun_eq_iff)

lemma put_same:
  assumes "consistent st" "cgroups st a = Some c" "node_of d = node_of c" "cg_tasks d = cg_tasks c" "pids_current d = pids_current c"
    "subtree_control d = subtree_control c" "cg_name d = cg_name c" "cpuset_cpus d = cpuset_cpus c" "cpuset_mems d = cpuset_mems c"
  shows "consistent (put_cgroup st a d)"
proof -
  have "tree (put_cgroup st a d) = tree st" "ring (put_cgroup st a d) = ring st" "counts (put_cgroup st a d) = counts st"
    "controls (put_cgroup st a d) = controls st" "texts (put_cgroup st a d) = texts st"
    using assms by (auto simp: fun_eq_iff tree_node) (auto simp: views)
  then show ?thesis using assms(1) unfolding consistent_def by simp
qed

section \<open>Changing the tree\<close>

lemma tree_okD:
  assumes "tree_ok T" "T a = Some n" "\<not> tn_dying n"
  shows "\<exists>as. up T (Some a) as" "distinct (tn_children n)"
    "b \<in> set (tn_children n) \<Longrightarrow> \<exists>m. T b = Some m \<and> \<not> tn_dying m \<and> tn_parent m = Some a"
    "a \<noteq> Root_cgroup \<Longrightarrow> \<exists>p m. tn_parent n = Some p \<and> T p = Some m \<and> \<not> tn_dying m \<and> a \<in> set (tn_children m)"
  using assms unfolding tree_ok_def by blast+

lemma tree_okI:
  assumes "live T Root_cgroup" "map_option tn_parent (T Root_cgroup) = Some None"
    "\<And>a n. T a = Some n \<Longrightarrow> \<not> tn_dying n \<Longrightarrow> \<exists>as. up T (Some a) as"
    "\<And>a n. T a = Some n \<Longrightarrow> \<not> tn_dying n \<Longrightarrow> distinct (tn_children n)"
    "\<And>a n b. T a = Some n \<Longrightarrow> \<not> tn_dying n \<Longrightarrow> b \<in> set (tn_children n) \<Longrightarrow> live T b \<and> map_option tn_parent (T b) = Some (Some a)"
    "\<And>a n. T a = Some n \<Longrightarrow> \<not> tn_dying n \<Longrightarrow> a \<noteq> Root_cgroup \<Longrightarrow>
       \<exists>p m. tn_parent n = Some p \<and> T p = Some m \<and> \<not> tn_dying m \<and> a \<in> set (tn_children m)"
  shows "tree_ok T"
proof -
  have "\<exists>n. T Root_cgroup = Some n \<and> \<not> tn_dying n \<and> tn_parent n = None" using assms(1,2) by (auto simp: live_def)
  moreover have "\<exists>m. T b = Some m \<and> \<not> tn_dying m \<and> tn_parent m = Some a" if "T a = Some n" "\<not> tn_dying n" "b \<in> set (tn_children n)" for a n b
    using assms(5) [OF that] by (auto simp: live_def)
  ultimately show ?thesis using assms(3,4,6) unfolding tree_ok_def by blast
qed

lemma child_live: "tree_ok T \<Longrightarrow> T a = Some n \<Longrightarrow> \<not> tn_dying n \<Longrightarrow> b \<in> set (tn_children n) \<Longrightarrow> live T b \<and> map_option tn_parent (T b) = Some (Some a)"
  using tree_okD(3) [of T a n b] by (auto simp: live_def)

lemma root_parent: "tree_ok T \<Longrightarrow> map_option tn_parent (T Root_cgroup) = Some None"
  by (auto simp: tree_ok_def)

definition text_ok :: "bytes \<times> bytes \<times> bytes \<Rightarrow> bool" where
  "text_ok x \<longleftrightarrow> (case x of (nm, cpus, mems) \<Rightarrow>
     0 \<in> set nm \<and> length cpus = 64 \<and> cpus ! 63 = 0 \<and> length mems = 64 \<and> mems ! 63 = 0)"

definition sibling_names :: "(cg_ptr \<Rightarrow> (bytes \<times> bytes \<times> bytes) option) \<Rightarrow> cg_ptr list \<Rightarrow> bytes option list" where
  "sibling_names X bs = map (\<lambda>b. map_option (cstring \<circ> fst) (X b)) bs"

lemma sibling_names_cong: "(\<And>b. b \<in> set bs \<Longrightarrow> map_option fst (X b) = map_option fst (Y b)) \<Longrightarrow> sibling_names X bs = sibling_names Y bs"
  unfolding sibling_names_def by (simp add: option.map_comp [symmetric])

lemma sibling_names_simps [simp]: "sibling_names X [] = []" "sibling_names X (bs @ [b]) = sibling_names X bs @ [map_option (cstring \<circ> fst) (X b)]"
  by (simp_all add: sibling_names_def)

lemma texts_ok_iff:
  "texts_ok T X \<longleftrightarrow> (\<forall>a x. X a = Some x \<longrightarrow> text_ok x) \<and> (\<forall>a n. T a = Some n \<and> \<not> tn_dying n \<longrightarrow> distinct (sibling_names X (tn_children n)))"
  unfolding texts_ok_def text_ok_def sibling_names_def by auto

lemma members_eq:
  assumes "\<And>t b. tcg K t = Some b \<Longrightarrow> \<exists>as. up T (Some b) as \<and> up T' (Some b) as"
  shows "members T' K x = members T K x"
proof -
  have "(\<exists>as. up T' (Some b) as \<and> x \<in> set as) \<longleftrightarrow> (\<exists>as. up T (Some b) as \<and> x \<in> set as)" if "tcg K t = Some b" for t b
    using assms [OF that] up_unique by metis
  then show ?thesis unfolding members_def by blast
qed

lemma up_same_parents:
  assumes "tree_ok T" "live T b" "up T (Some b) as" "\<And>x. x \<in> set as \<Longrightarrow> live T x \<Longrightarrow> map_option tn_parent (T' x) = map_option tn_parent (T x)"
  shows "up T' (Some b) as"
proof -
  have "up T' (Some b) as = up T (Some b) as" using assms(4) up_live [OF assms(1-3)] by (intro up_cong) auto
  then show ?thesis using assms(3) by simp
qed

text \<open>A group without children is on no other group's way to the root.\<close>

lemma leaf_not_above:
  assumes "tree_ok T" "T a = Some n" "\<not> tn_dying n" "tn_children n = []" "live T b" "up T (Some b) as" "a \<in> set as"
  shows "b = a"
  using assms(5-7)
proof (induction as arbitrary: b)
  case (Cons x as)
  obtain m where m: "x = b" "T b = Some m" "\<not> tn_dying m" "up T (tn_parent m) as" using Cons.prems by (auto simp: live_def)
  show ?case
  proof (rule ccontr)
    assume ba: "b \<noteq> a"
    then have as: "a \<in> set as" using Cons.prems(3) m(1) by simp
    then obtain p where p: "tn_parent m = Some p" using m(4) by (cases as) auto
    have "b \<noteq> Root_cgroup" using assms(1) m(2) p unfolding tree_ok_def by force
    then obtain k where k: "T p = Some k" "\<not> tn_dying k" "b \<in> set (tn_children k)" using tree_okD(4) [OF assms(1) m(2,3)] p by auto
    have "p = a" using Cons.IH [of p] k(1,2) m(4) p as by (auto simp: live_def)
    then show False using k(1,3) assms(2,4) by simp
  qed
qed simp

section \<open>Releasing a dead group\<close>

lemma free_consistent:
  assumes st: "consistent st" and c: "cgroups st a = Some c" "dying c"
  shows "consistent (free_cgroup st a)"
proof -
  note ok = consistentD [OF st]
  let ?T = "tree st"
  let ?T' = "?T(a := None)"
  have Ta: "?T a = Some (node_of c)" using tree_node [OF c(1)] .
  have dead: "\<not> live ?T a" using c(2) Ta by (simp add: live_def)
  have live: "live ?T' b \<longleftrightarrow> live ?T b" for b using dead by (auto simp: live_def)
  have T': "?T' b = Some n \<and> \<not> tn_dying n \<longleftrightarrow> ?T b = Some n \<and> \<not> tn_dying n" for b n using c(2) Ta by auto
  have up: "\<exists>as. up ?T (Some b) as \<and> up ?T' (Some b) as" if b: "live ?T b" for b
  proof -
    obtain as where as: "up ?T (Some b) as" using live_up [OF ok(2) b] by blast
    have "map_option tn_parent (?T' x) = map_option tn_parent (?T x)" if "live ?T x" for x using that dead by auto
    then have "up ?T' (Some b) as" by (intro up_same_parents [OF ok(2) b as])
    then show ?thesis using as by blast
  qed
  have root: "a \<noteq> Root_cgroup" using root_live [OF ok(2)] dead by auto
  have mem: "members ?T' (tasks st) b = members ?T (tasks st) b" for b using up tcg_live [OF st] by (intro members_eq) blast
  have "tree_ok ?T'"
  proof (rule tree_okI)
    show "live ?T' Root_cgroup" "map_option tn_parent (?T' Root_cgroup) = Some None"
      using live root_live [OF ok(2)] root_parent [OF ok(2)] root by auto
    fix b n
    assume "?T' b = Some n" "\<not> tn_dying n"
    then have b: "?T b = Some n" "\<not> tn_dying n" using T' by blast+
    show "\<exists>as. up ?T' (Some b) as" using up [of b] b by (auto simp: live_def)
    show "distinct (tn_children n)" using tree_okD(2) [OF ok(2) b] .
    show "live ?T' x \<and> map_option tn_parent (?T' x) = Some (Some b)" if "x \<in> set (tn_children n)" for x
      using child_live [OF ok(2) b that] dead unfolding live by auto
    show "\<exists>p m. tn_parent n = Some p \<and> ?T' p = Some m \<and> \<not> tn_dying m \<and> b \<in> set (tn_children m)" if "b \<noteq> Root_cgroup"
      using tree_okD(4) [OF ok(2) b that] T' by blast
  qed
  moreover have "tasks_ok ?T' ((ring st)(a := None)) (tasks st)" using ok(3) unfolding tasks_ok_def live by auto
  moreover have "counts_ok ?T' ((counts st)(a := None)) (tasks st)" using ok(4) unfolding counts_ok_def live mem by auto
  moreover have "controls_ok ?T' ((controls st)(a := None)) (registered_controllers st)"
    using ok(5) root unfolding controls_ok_def by (auto split: if_splits)
  moreover have "sibling_names ((texts st)(a := None)) (tn_children n) = sibling_names (texts st) (tn_children n)"
    if "?T b = Some n" "\<not> tn_dying n" for b n
    using child_live [OF ok(2) that] dead by (intro sibling_names_cong) auto
  then have "texts_ok ?T' ((texts st)(a := None))"
    using ok(6) unfolding texts_ok_iff T' by (metis fun_upd_apply option.distinct(1))
  ultimately show ?thesis using ok(1) unfolding consistent_def by simp
qed

section \<open>Taking a group out of the tree\<close>

lemma up_all_parents: "(\<And>x. map_option tn_parent (T' x) = map_option tn_parent (T x)) \<Longrightarrow> up T' p as = up T p as"
  by (rule up_cong) simp

lemma in_set_remove1_D: "x \<in> set (remove1 a xs) \<Longrightarrow> x \<in> set xs"
  using set_remove1_subset by (rule subsetD)

lemma distinct_map_remove1: "distinct (map f xs) \<Longrightarrow> distinct (map f (remove1 a xs))"
  by (metis distinct_map distinct_remove1 inj_on_subset set_remove1_subset)

definition detached_tree :: "cg_ptr \<Rightarrow> cg_ptr \<Rightarrow> (cg_ptr \<Rightarrow> tnode option) \<Rightarrow> cg_ptr \<Rightarrow> tnode option" where
  "detached_tree a p T x = map_option (\<lambda>n. n\<lparr>tn_children := (if x = p then remove1 a (tn_children n) else tn_children n),
     tn_dying := (x = a \<or> tn_dying n)\<rparr>) (T x)"

lemma detached_parents: "map_option tn_parent (detached_tree a p T x) = map_option tn_parent (T x)"
  by (cases "T x") (simp_all add: detached_tree_def)

lemma detached_up: "up (detached_tree a p T) q as = up T q as"
  using detached_parents by (rule up_all_parents)

lemma detached_live: "live (detached_tree a p T) b \<longleftrightarrow> live T b \<and> b \<noteq> a"
  unfolding live_def detached_tree_def by (cases "T b") auto

lemma detached_D:
  assumes "detached_tree a p T b = Some n" "\<not> tn_dying n"
  shows "\<exists>m. T b = Some m \<and> \<not> tn_dying m \<and> b \<noteq> a \<and> tn_parent n = tn_parent m
    \<and> tn_children n = (if b = p then remove1 a (tn_children m) else tn_children m)"
  using assms unfolding detached_tree_def by (cases "T b") auto

lemma detach_tree:
  assumes ok: "tree_ok T" and a: "T a = Some na" "tn_children na = []" "a \<noteq> Root_cgroup" "tn_parent na = Some p"
  shows "tree_ok (detached_tree a p T)" (is "tree_ok ?T'")
proof (rule tree_okI)
  show "live ?T' Root_cgroup" "map_option tn_parent (?T' Root_cgroup) = Some None"
    using root_live [OF ok] root_parent [OF ok] a(3) by (simp_all add: detached_live detached_parents)
  fix b n
  assume "?T' b = Some n" "\<not> tn_dying n"
  then obtain m where m: "T b = Some m" "\<not> tn_dying m" "b \<noteq> a" "tn_parent n = tn_parent m"
      "tn_children n = (if b = p then remove1 a (tn_children m) else tn_children m)"
    using detached_D by blast
  show "\<exists>as. up ?T' (Some b) as" using tree_okD(1) [OF ok m(1,2)] by (simp add: detached_up)
  show "distinct (tn_children n)" using tree_okD(2) [OF ok m(1,2)] by (simp add: m(5))
  show "live ?T' x \<and> map_option tn_parent (?T' x) = Some (Some b)" if x: "x \<in> set (tn_children n)" for x
  proof -
    have xm: "x \<in> set (tn_children m)" using x unfolding m(5) by (auto split: if_splits dest: in_set_remove1_D)
    have "x \<noteq> a"
    proof
      assume "x = a"
      then have "b = p" using child_live [OF ok m(1,2) xm] a(1,4) by simp
      then show False using x \<open>x = a\<close> tree_okD(2) [OF ok m(1,2)] unfolding m(5) by simp
    qed
    then show ?thesis using child_live [OF ok m(1,2) xm] by (simp add: detached_live detached_parents)
  qed
  show "\<exists>q k. tn_parent n = Some q \<and> ?T' q = Some k \<and> \<not> tn_dying k \<and> b \<in> set (tn_children k)" if nr: "b \<noteq> Root_cgroup"
  proof -
    obtain q k where q: "tn_parent m = Some q" "T q = Some k" "\<not> tn_dying k" "b \<in> set (tn_children k)"
      using tree_okD(4) [OF ok m(1,2) nr] by blast
    have "q \<noteq> a" using q(2,4) a(1,2) by auto
    then show ?thesis using q m(3,4) by (auto simp: detached_tree_def in_set_remove1)
  qed
qed

lemma detach_consistent:
  assumes st: "consistent st" and c: "cgroups st a = Some c" "\<not> dying c" "a \<noteq> Root_cgroup" "cg_children c = []" "cg_tasks c = []"
    and p: "cg_parent c = Some p" "cgroups st p = Some pc" "a \<in> set (cg_children pc)"
  shows "consistent (put_cgroup (put_cgroup st p (pc\<lparr>cg_children := remove1 a (cg_children pc)\<rparr>)) a (c\<lparr>dying := True, refcount := r\<rparr>))"
    (is "consistent ?st")
proof -
  note ok = consistentD [OF st]
  let ?T = "tree st" and ?T' = "detached_tree a p (tree st)"
  have pa: "p \<noteq> a" using c(1,4) p(2,3) by auto
  have T': "tree ?st = ?T'"
    using tree_node [OF c(1)] tree_node [OF p(2)] pa by (auto simp: fun_eq_iff detached_tree_def node_of_def map_option_case split: option.split)
  have same: "ring ?st = ring st" "counts ?st = counts st" "controls ?st = controls st" "texts ?st = texts st" "tasks ?st = tasks st"
    "registered_controllers ?st = registered_controllers st"
    using c(1) p(2) by (auto simp: fun_eq_iff) (auto simp: views)
  have "ring st a = Some []" using c(1,5) by (simp add: ring_def)
  then have "{t. tcg (tasks st) t = Some a} = set []" using ok(3) unfolding tasks_ok_def by blast
  then have idle: "tcg (tasks st) t \<noteq> Some a" for t by auto
  have "tree_ok ?T'" using detach_tree [OF ok(2) tree_node [OF c(1)]] c(3,4) p(1) by simp
  moreover have "tasks_ok ?T' (ring st) (tasks st)"
    using ok(3) idle unfolding tasks_ok_def detached_live tcg_def by (metis bind.bind_lunit)
  moreover have "counts_ok ?T' (counts st) (tasks st)" using ok(4) unfolding counts_ok_def detached_live members_def detached_up by blast
  moreover have "controls_ok ?T' (controls st) (registered_controllers st)"
    using ok(5) detached_D unfolding controls_ok_def by metis
  moreover have "distinct (sibling_names (texts st) (tn_children n))" if n: "?T' b = Some n" "\<not> tn_dying n" for b n
  proof -
    obtain m where m: "?T b = Some m" "\<not> tn_dying m" "tn_children n = (if b = p then remove1 a (tn_children m) else tn_children m)"
      using detached_D [OF n] by blast
    have "distinct (sibling_names (texts st) (tn_children m))" using ok(6) m(1,2) unfolding texts_ok_iff by blast
    then show ?thesis unfolding m(3) sibling_names_def by (cases "b = p") (simp_all add: distinct_map_remove1)
  qed
  then have "texts_ok ?T' (texts st)" using ok(6) unfolding texts_ok_iff by blast
  ultimately show ?thesis using ok(1) unfolding consistent_def T' same by simp
qed

section \<open>Adding a group to the tree\<close>

definition grown_tree :: "cg_ptr \<Rightarrow> cg_ptr \<Rightarrow> (cg_ptr \<Rightarrow> tnode option) \<Rightarrow> cg_ptr \<Rightarrow> tnode option" where
  "grown_tree a p T x = (if x = a then Some \<lparr>tn_parent = Some p, tn_children = [], tn_dying = False\<rparr>
     else if x = p then map_option (\<lambda>n. n\<lparr>tn_children := tn_children n @ [a]\<rparr>) (T x) else T x)"

lemma grown_parents: "x \<noteq> a \<Longrightarrow> map_option tn_parent (grown_tree a p T x) = map_option tn_parent (T x)"
  by (cases "T x") (auto simp: grown_tree_def)

lemma grown_live: "live (grown_tree a p T) b \<longleftrightarrow> live T b \<or> b = a"
  unfolding live_def grown_tree_def by (cases "T b") auto

lemma grown_up:
  assumes "tree_ok T" "T a = None" "live T b" "up T (Some b) as"
  shows "up (grown_tree a p T) (Some b) as"
proof (rule up_same_parents [OF assms(1,3,4)])
  show "map_option tn_parent (grown_tree a p T x) = map_option tn_parent (T x)" if "live T x" for x
    using that assms(2) by (intro grown_parents) (auto simp: live_def)
qed

lemma grow_tree:
  assumes ok: "tree_ok T" and a: "T a = None" and p: "live T p"
  shows "tree_ok (grown_tree a p T)" (is "tree_ok ?T'")
proof (rule tree_okI)
  have ra: "Root_cgroup \<noteq> a" and pa: "p \<noteq> a" using root_live [OF ok] p a by (auto simp: live_def)
  show "live ?T' Root_cgroup" "map_option tn_parent (?T' Root_cgroup) = Some None"
    using root_live [OF ok] root_parent [OF ok] ra by (simp_all add: grown_live grown_parents)
  obtain np where np: "T p = Some np" "\<not> tn_dying np" using p by (auto simp: live_def)
  have no_child: "a \<notin> set (tn_children m)" if "T b = Some m" "\<not> tn_dying m" for b m
    using child_live [OF ok that, of a] a by (auto simp: live_def)
  fix b n
  assume n: "?T' b = Some n" "\<not> tn_dying n"
  show "\<exists>as. up ?T' (Some b) as"
  proof (cases "b = a")
    case True
    obtain as where "up T (Some p) as" using live_up [OF ok p] by blast
    then have "up ?T' (Some b) (b # as)" using grown_up [OF ok a p] True by (simp add: grown_tree_def)
    then show ?thesis by blast
  next
    case False
    then have "live T b" using n grown_live [of a p T b] by (auto simp: live_def)
    then show ?thesis using live_up [OF ok] grown_up [OF ok a] by blast
  qed
  show "distinct (tn_children n)" using n np tree_okD(2) [OF ok] no_child by (auto simp: grown_tree_def split: if_splits)
  show "live ?T' x \<and> map_option tn_parent (?T' x) = Some (Some b)" if "x \<in> set (tn_children n)" for x
  proof (cases "x = a")
    case True
    then have "b = p" using n that no_child by (auto simp: grown_tree_def split: if_splits)
    then show ?thesis using True by (simp add: grown_live grown_tree_def)
  next
    case False
    then have "\<exists>m. T b = Some m \<and> \<not> tn_dying m \<and> x \<in> set (tn_children m)"
      using n that np by (auto simp: grown_tree_def split: if_splits)
    then show ?thesis using child_live [OF ok] False by (auto simp: grown_live grown_parents)
  qed
  show "\<exists>q k. tn_parent n = Some q \<and> ?T' q = Some k \<and> \<not> tn_dying k \<and> b \<in> set (tn_children k)" if nr: "b \<noteq> Root_cgroup"
  proof (cases "b = a")
    case True
    then show ?thesis using n np pa by (auto simp: grown_tree_def)
  next
    case False
    then obtain m where m: "T b = Some m" "\<not> tn_dying m" "tn_parent m = tn_parent n" using n by (auto simp: grown_tree_def split: if_splits)
    obtain q k where q: "tn_parent m = Some q" "T q = Some k" "\<not> tn_dying k" "b \<in> set (tn_children k)"
      using tree_okD(4) [OF ok m(1,2) nr] by blast
    have "q \<noteq> a" using q(2) a by auto
    then show ?thesis using q m(3) by (auto simp: grown_tree_def)
  qed
qed

lemma grown_members:
  assumes "consistent st" "tree st a = None" "live (tree st) p"
  shows "members (grown_tree a p (tree st)) (tasks st) b = members (tree st) (tasks st) b" "members (tree st) (tasks st) a = {}"
proof -
  note ok = consistentD(2) [OF assms(1)]
  have "\<exists>as. up (tree st) (Some x) as \<and> up (grown_tree a p (tree st)) (Some x) as" if "tcg (tasks st) t = Some x" for t x
    using live_up [OF ok tcg_live [OF assms(1) that]] grown_up [OF ok assms(2) tcg_live [OF assms(1) that]] by blast
  then show "members (grown_tree a p (tree st)) (tasks st) b = members (tree st) (tasks st) b" by (rule members_eq)
  have "a \<notin> set as" if "tcg (tasks st) t = Some x" "up (tree st) (Some x) as" for t x as
    using up_live [OF ok tcg_live [OF assms(1) that(1)] that(2), of a] assms(2) by (auto simp: live_def)
  then show "members (tree st) (tasks st) a = {}" unfolding members_def by blast
qed

lemma grown_controls:
  assumes ok: "tree_ok T" "T a = None" "controls_ok T C reg"
  shows "controls_ok (grown_tree a p T) (C(a \<mapsto> 0)) reg"
proof -
  have "w AND NOT v = 0" if n: "grown_tree a p T x = Some n" "\<not> tn_dying n" "tn_parent n = Some q" "(C(a \<mapsto> 0)) x = Some w" "(C(a \<mapsto> 0)) q = Some v" for x n q w v
  proof (cases "x = a")
    case False
    then obtain m where m: "T x = Some m" "\<not> tn_dying m" "tn_parent m = Some q" using n(1-3) by (auto simp: grown_tree_def split: if_splits)
    have "x \<noteq> Root_cgroup" using root_parent [OF ok(1)] m(1,3) by auto
    then have "q \<noteq> a" using tree_okD(4) [OF ok(1) m(1,2)] m(3) ok(2) by auto
    then show ?thesis using ok(3) m n(4,5) False unfolding controls_ok_def by simp
  qed (use n(4) in simp)
  moreover have "Root_cgroup \<noteq> a" using root_live [OF ok(1)] ok(2) by (auto simp: live_def)
  then have "w AND NOT reg = 0" if "(C(a \<mapsto> 0)) Root_cgroup = Some w" for w using ok(3) that by (simp add: controls_ok_def)
  ultimately show ?thesis unfolding controls_ok_def by blast
qed

lemma grown_texts:
  assumes ok: "tree_ok T" "T a = None" "texts_ok T X" and p: "T p = Some np" "\<not> tn_dying np"
    and x: "text_ok x" "Some (cstring (fst x)) \<notin> set (sibling_names X (tn_children np))"
  shows "texts_ok (grown_tree a p T) (X(a \<mapsto> x))"
proof -
  have names: "sibling_names (X(a \<mapsto> x)) (tn_children m) = sibling_names X (tn_children m)" if "T b = Some m" "\<not> tn_dying m" for b m
    using child_live [OF ok(1) that, of a] ok(2) by (intro sibling_names_cong) (auto simp: live_def)
  have old: "distinct (sibling_names X (tn_children m))" if "T b = Some m" "\<not> tn_dying m" for b m
    using ok(3) that unfolding texts_ok_iff by blast
  have "distinct (sibling_names (X(a \<mapsto> x)) (tn_children n))" if n: "grown_tree a p T b = Some n" "\<not> tn_dying n" for b n
  proof (cases "b = a \<or> b = p")
    case True
    then have "tn_children n = [] \<or> tn_children n = tn_children np @ [a]" using n p(1) by (auto simp: grown_tree_def split: if_splits)
    then show ?thesis using names [OF p] old [OF p] x(2) by auto
  next
    case False
    then have "T b = Some n" using n(1) by (simp add: grown_tree_def)
    then show ?thesis using names old n(2) by simp
  qed
  moreover have "text_ok y" if y: "(X(a \<mapsto> x)) b = Some y" for b y
  proof (cases "b = a")
    case False
    then have "X b = Some y" using y by simp
    then show ?thesis using ok(3) unfolding texts_ok_iff by blast
  qed (use x(1) y in simp)
  ultimately show ?thesis unfolding texts_ok_iff by blast
qed

text \<open>What a group looks like when it is added.\<close>

definition new_group :: "cg_ptr \<Rightarrow> cgroup \<Rightarrow> bool" where
  "new_group p c \<longleftrightarrow> cg_parent c = Some p \<and> cg_children c = [] \<and> cg_tasks c = [] \<and> \<not> dying c \<and> pids_current c = 0
     \<and> subtree_control c = 0 \<and> text_ok (cg_name c, cpuset_cpus c, cpuset_mems c)"

lemma grow_consistent:
  assumes st: "consistent st" and a: "cgroups st a = None" and p: "cgroups st p = Some pc" "\<not> dying pc"
    and c: "new_group p c" "Some (cstring (cg_name c)) \<notin> set (sibling_names (texts st) (cg_children pc))"
  shows "consistent (put_cgroup (put_cgroup st p (pc\<lparr>cg_children := cg_children pc @ [a]\<rparr>)) a c)" (is "consistent ?st")
proof -
  note ok = consistentD [OF st]
  let ?T = "tree st" and ?T' = "grown_tree a p (tree st)"
  have pa: "p \<noteq> a" and Ta: "?T a = None" and Tp: "?T p = Some (node_of pc)" "live ?T p"
    using a p by (auto simp: tree_def live_def node_of_def)
  have T': "tree ?st = ?T'" using c(1) Tp(1) pa by (auto simp: fun_eq_iff grown_tree_def node_of_def new_group_def)
  have same: "ring ?st = (ring st)(a \<mapsto> [])" "counts ?st = (counts st)(a \<mapsto> 0)" "controls ?st = (controls st)(a \<mapsto> 0)"
    "texts ?st = (texts st)(a \<mapsto> (cg_name c, cpuset_cpus c, cpuset_mems c))" "tasks ?st = tasks st"
    "registered_controllers ?st = registered_controllers st"
    using p(1) c(1) by (auto simp: fun_eq_iff new_group_def) (auto simp: views)
  have idle: "tcg (tasks st) t \<noteq> Some a" for t using tcg_live [OF st, of t a] Ta by (auto simp: live_def)
  have "tree_ok ?T'" using grow_tree [OF ok(2) Ta Tp(2)] .
  moreover have "tasks_ok ?T' ((ring st)(a \<mapsto> [])) (tasks st)"
    using ok(3) idle unfolding tasks_ok_def grown_live by auto
  moreover have "counts_ok ?T' ((counts st)(a \<mapsto> 0)) (tasks st)"
    using ok(4) grown_members [OF st Ta Tp(2)] unfolding counts_ok_def grown_live by auto
  moreover have "controls_ok ?T' ((controls st)(a \<mapsto> 0)) (registered_controllers st)" using grown_controls [OF ok(2) Ta ok(5)] .
  moreover have "texts_ok ?T' ((texts st)(a \<mapsto> (cg_name c, cpuset_cpus c, cpuset_mems c)))"
    using c p(2) by (intro grown_texts [OF ok(2) Ta ok(6) Tp(1)]) (simp_all add: new_group_def)
  ultimately show ?thesis using ok(1) unfolding consistent_def T' same by simp
qed

end
