(* ===== verification/Cgroup_Ops.thy ===== *)
theory Cgroup_Ops
  imports Cgroup_Groups
begin

text \<open>
  Each operation of the control groups on a consistent hierarchy: it returns, and the hierarchy
  stays consistent.
\<close>

section \<open>Groups\<close>

lemma destroy_consistent:
  assumes st: "consistent st" and a: "live (tree st) a"
  shows "\<exists>st' r. cgroup_destroy st (Some a) = Some (st', r) \<and> consistent st'"
proof -
  obtain c where c: "cgroups st a = Some c" "\<not> dying c" using live_cgroup [OF a] by blast
  show ?thesis
  proof (cases "a = Root_cgroup \<or> cg_children c \<noteq> [] \<or> cg_tasks c \<noteq> []")
    case True
    then show ?thesis using st c(1) by (auto simp: cgroup_destroy_def)
  next
    case False
    then have idle: "a \<noteq> Root_cgroup" "cg_children c = []" "cg_tasks c = []" by auto
    obtain p pc where p: "cg_parent c = Some p" "cgroups st p = Some pc" "a \<in> set (cg_children pc)"
      using parent_control_live [OF consistentD(2) [OF st] c idle(1)] by blast
    have pa: "p \<noteq> a" using c(1) idle(2) p(2,3) by auto
    let ?st = "put_cgroup st p (pc\<lparr>cg_children := remove1 a (cg_children pc)\<rparr>)"
    let ?c = "c\<lparr>dying := True, refcount := refcount c - 1\<rparr>"
    have ok: "consistent (put_cgroup ?st a ?c)" using detach_consistent [OF st c idle p] .
    have "free_cgroup (put_cgroup ?st a ?c) a = free_cgroup ?st a" by (simp add: free_cgroup_def put_cgroup_def)
    then have "consistent (free_cgroup ?st a)" using free_consistent [OF ok, of a ?c] by (simp add: put_cgroup_def)
    moreover have "cgroups ?st a = Some c" using c(1) pa by (simp add: put_cgroup_def)
    ultimately show ?thesis using ok idle c(1) p by (simp add: cgroup_destroy_def Let_def)
  qed
qed

lemma texts_text_ok: "texts_ok T X \<Longrightarrow> X a = Some x \<Longrightarrow> text_ok x"
  unfolding texts_ok_iff by blast

lemma cgroup_text: "consistent st \<Longrightarrow> cgroups st a = Some c \<Longrightarrow> text_ok (cg_name c, cpuset_cpus c, cpuset_mems c)"
  by (rule texts_text_ok [OF consistentD(6), of st a]) (simp_all add: texts_def)

lemma cpuset_copy: "length cs = 64 \<Longrightarrow> \<exists>r. strncpy (replicate 64 0) cs 63 = Some r \<and> length r = 64 \<and> r ! 63 = 0"
proof -
  assume "length cs = 64"
  then obtain r where r: "strncpy (replicate 64 0) cs 63 = Some r" "length r = 64" "drop 63 r = drop 63 (replicate 64 0)"
    using strncpy_total [of 63 "replicate 64 0" cs] by auto
  have "drop 63 r ! 0 = r ! 63" using r(2) by simp
  then show ?thesis using r by (simp del: drop_replicate add: drop_replicate)
qed

text \<open>An allocator that returns blocks of the size asked for.\<close>

definition malloc_ok :: "(nat \<Rightarrow> bytes option) \<Rightarrow> bool" where
  "malloc_ok malloc \<longleftrightarrow> (\<forall>n b. malloc n = Some b \<longrightarrow> length b = n)"

lemma strdup_cases:
  assumes "0 \<in> set s" "malloc_ok malloc"
  shows "\<exists>r. strdup malloc s = Some r \<and> (r = None \<or> r = Some (cstring s @ [0]))"
proof (cases "malloc (length (cstring s) + 1)")
  case None
  then show ?thesis using strdup_no_memory [OF assms(1)] by blast
next
  case (Some b)
  then have "length b = length (cstring s) + 1" using assms(2) unfolding malloc_ok_def by blast
  then show ?thesis using strdup_cstring [of s malloc b, OF assms(1) Some] by blast
qed

lemma create_consistent:
  assumes st: "consistent st" and p: "live (tree st) p" and nm: "0 \<in> set nm" and m: "malloc_ok malloc"
    and fresh: "pred_option (\<lambda>a. cgroups st (Heap a) = None) mem"
  shows "\<exists>st' r. cgroup_create st (Some p) (Some nm) result mem malloc node = Some (st', r) \<and> consistent st'"
proof -
  obtain pc where pc: "cgroups st p = Some pc" "\<not> dying pc" using live_cgroup [OF p] by blast
  obtain copy where copy: "strdup malloc nm = Some copy" "copy = None \<or> copy = Some (cstring nm @ [0])" using strdup_cases [OF nm m] by blast
  obtain cpus mems where cpus: "strncpy (replicate 64 0) (cpuset_cpus pc) 63 = Some cpus" "length cpus = 64" "cpus ! 63 = 0"
      and mems: "strncpy (replicate 64 0) (cpuset_mems pc) 63 = Some mems" "length mems = 64" "mems ! 63 = 0"
    using cpuset_copy [of "cpuset_cpus pc"] cpuset_copy [of "cpuset_mems pc"] cgroup_text [OF st pc(1)] by (auto simp: text_ok_def)
  have kids: "\<exists>c. cgroups st b = Some c \<and> 0 \<in> set (cg_name c)" if "b \<in> set (cg_children pc)" for b
    using child_live [OF consistentD(2) [OF st] tree_node [OF pc(1)], of b] pc(2) that cgroup_text [OF st, of b]
    by (auto simp: text_ok_def dest!: live_cgroup)
  have names: "sibling_names (texts st) bs = map (\<lambda>b. map_option (cstring \<circ> cg_name) (cgroups st b)) bs" for bs
    by (simp add: sibling_names_def texts_def option.map_comp o_def)
  have taken: "name_taken st nm (cg_children pc) = Some (Some (cstring nm) \<in> set (sibling_names (texts st) (cg_children pc)))"
    using name_taken_names [OF nm kids] by (simp add: names)
  obtain c0 where c0: "byte_at nm 0 = Some c0" using nm by (cases nm) (auto simp: byte_at_def)
  have slash: "\<exists>r. strchr nm 47 = Some r" using strchr_total [OF nm, of 47] by simp
  let ?c = "(default_limits zero_cgroup)\<lparr>cg_name := cstring nm @ [0], cg_parent := Some p, cpuset_cpus := cpus, cpuset_mems := mems, refcount := 1\<rparr>"
  have new: "new_group p ?c" using cpus mems by (simp add: new_group_def default_limits_def zero_cgroup_def text_ok_def)
  have nul: "cstring (cstring nm @ [0]) = cstring nm" using cstr_split [OF nm] cstring_nul [of "cstring nm" "[]"] by auto
  have grow: "consistent (put_cgroup (put_cgroup st p (pc\<lparr>cg_children := cg_children pc @ [Heap a]\<rparr>)) (Heap a) ?c)"
    if "mem = Some a" "Some (cstring nm) \<notin> set (sibling_names (texts st) (cg_children pc))" for a
    using grow_consistent [OF st _ pc new, of "Heap a"] fresh that nul by simp
  have no_kid: "Heap a \<notin> set (cg_children pc)" if "mem = Some a" for a using kids [of "Heap a"] fresh that by auto
  show ?thesis
    using c0 slash copy pc(1) cpus(1) mems(1) taken grow no_kid st
    by (cases mem; cases node) (auto simp: cgroup_create_def Let_def split: option.split)
qed

lemma put_refcount: "consistent st \<Longrightarrow> cgroups st a = Some c \<Longrightarrow> consistent (put_cgroup st a (c\<lparr>refcount := r\<rparr>))"
  by (rule put_same) (simp_all add: node_of_def)

lemma get_consistent:
  assumes "consistent st" "pred_option (\<lambda>a. cgroups st a \<noteq> None) cg"
  shows "\<exists>st' r. cgroup_get st cg = Some (st', r) \<and> consistent st'"
  using assms put_refcount [OF assms(1)] by (auto simp: cgroup_get_def split: option.split)

lemma put_consistent:
  assumes "consistent st" "pred_option (\<lambda>a. cgroups st a \<noteq> None) cg"
  shows "\<exists>st'. cgroup_put st cg = Some st' \<and> consistent st'"
  using assms put_refcount [OF assms(1)] free_consistent [OF assms(1)] by (auto simp: cgroup_put_def Let_def split: option.split)

section \<open>Limits and other settings\<close>

definition keeps_views :: "(cgroup \<Rightarrow> cgroup) \<Rightarrow> bool" where
  "keeps_views f \<longleftrightarrow> (\<forall>c. node_of (f c) = node_of c \<and> cg_tasks (f c) = cg_tasks c \<and> pids_current (f c) = pids_current c
     \<and> subtree_control (f c) = subtree_control c \<and> cg_name (f c) = cg_name c \<and> cpuset_cpus (f c) = cpuset_cpus c \<and> cpuset_mems (f c) = cpuset_mems c)"

lemma update_consistent: "consistent st \<Longrightarrow> keeps_views f \<Longrightarrow> update_cgroup st cg f = Some (st', r) \<Longrightarrow> consistent st'"
  unfolding update_cgroup_def keeps_views_def by (auto simp: bind_eq_Some_conv intro: put_same)

lemma put_cpuset:
  assumes st: "consistent st" and c: "cgroups st a = Some c" and x: "length cpus = 64" "cpus ! 63 = 0" "length mems = 64" "mems ! 63 = 0"
    and d: "d = c\<lparr>cpuset_cpus := cpus, cpuset_mems := mems\<rparr>"
  shows "consistent (put_cgroup st a d)"
proof -
  note ok = consistentD [OF st]
  have same: "tree (put_cgroup st a d) = tree st" "ring (put_cgroup st a d) = ring st" "counts (put_cgroup st a d) = counts st"
    "controls (put_cgroup st a d) = controls st"
    using c by (auto simp: fun_eq_iff tree_node node_of_def d) (auto simp: views)
  have names: "sibling_names ((texts st)(a \<mapsto> (cg_name c, cpus, mems))) bs = sibling_names (texts st) bs" for bs
    using c by (intro sibling_names_cong) (simp add: texts_def)
  have "text_ok y" if "((texts st)(a \<mapsto> (cg_name c, cpus, mems))) b = Some y" for b y
    using that texts_text_ok [OF ok(6), of b y] cgroup_text [OF st c] x by (cases "b = a") (auto simp: text_ok_def)
  then have "texts_ok (tree st) ((texts st)(a \<mapsto> (cg_name c, cpus, mems)))" using ok(6) unfolding texts_ok_iff names by blast
  then show ?thesis using ok unfolding consistent_def same by (simp add: d)
qed

lemma cpuset_store_ok:
  assumes "length buf = 64" "buf ! 63 = 0" "len \<le> length v" "cpuset_store buf v len = Some b"
  shows "length b = 64 \<and> b ! 63 = 0"
proof -
  let ?n = "if len < 63 then len else 63"
  have "memcpy (buf @ v) 0 (length buf) ?n = Some (patch (buf @ v) 0 (take ?n v))"
    using copy_up [of 0 "length buf" ?n "buf @ v"] assms(1,3) by (auto simp: memcpy_def Let_def)
  then have b: "b = (take 64 (patch (buf @ v) 0 (take ?n v)))[?n := 0]" using assms(1,4) by (simp add: cpuset_store_def Let_def)
  have l: "length (take ?n v) = ?n" using assms(3) by simp
  then have "patch (buf @ v) 0 (take ?n v) ! 63 = (if 63 < ?n then take ?n v ! 63 else buf ! 63)" "length (patch (buf @ v) 0 (take ?n v)) = length (buf @ v)"
    using assms(1) by (simp_all add: nth_patch nth_append)
  then show ?thesis using assms(1,2) unfolding b by (auto simp: nth_list_update)
qed

definition cg_setters :: "(cg_state \<Rightarrow> cg_ptr option \<Rightarrow> bytes option \<Rightarrow> nat \<Rightarrow> (cg_state \<times> status) option) list" where
  "cg_setters = [cgroup_set_freeze, cgroup_set_pids_max, cgroup_set_memory_max, cgroup_set_memory_high, cgroup_set_memory_low,
     cgroup_set_cpu_max, cgroup_set_cpu_weight, \<lambda>st cg _ _. cgroup_set_io_max st cg, cgroup_set_io_weight,
     cgroup_set_cpuset_cpus, cgroup_set_cpuset_mems]"

lemma set_cpuset_consistent:
  assumes "consistent st" "len \<le> length (value_bytes v)"
    "cgroup_set_cpuset_cpus st cg v len = Some (st', r) \<or> cgroup_set_cpuset_mems st cg v len = Some (st', r)"
  shows "consistent st'"
proof -
  have x: "length (cpuset_cpus c) = 64" "cpuset_cpus c ! 63 = 0" "length (cpuset_mems c) = 64" "cpuset_mems c ! 63 = 0" if "cgroups st a = Some c" for a c
    using cgroup_text [OF assms(1) that] by (simp_all add: text_ok_def)
  have "consistent (put_cgroup st a (c\<lparr>cpuset_cpus := b\<rparr>))" if "cgroups st a = Some c" "cpuset_store (cpuset_cpus c) (value_bytes v) len = Some b" for a c b
    using put_cpuset [OF assms(1) that(1) _ _ x(3,4) [OF that(1)], of b] cpuset_store_ok [OF x(1,2) [OF that(1)] assms(2) that(2)] by simp
  moreover have "consistent (put_cgroup st a (c\<lparr>cpuset_mems := b\<rparr>))" if "cgroups st a = Some c" "cpuset_store (cpuset_mems c) (value_bytes v) len = Some b" for a c b
    using put_cpuset [OF assms(1) that(1) x(1,2) [OF that(1)], of b] cpuset_store_ok [OF x(3,4) [OF that(1)] assms(2) that(2)] by simp
  ultimately show ?thesis
    using assms(1,3)
    by (auto simp: cgroup_set_cpuset_cpus_def cgroup_set_cpuset_mems_def update_cgroup_def bind_eq_Some_conv split: if_splits)
qed

lemma settle_result:
  assumes "consistent st" "\<And>x. keeps_views (g x)" "(case r of Inl e \<Rightarrow> Some (st, ERR e) | Inr x \<Rightarrow> update_cgroup st cg (g x)) = Some (st', s)"
  shows "consistent st'"
  using assms update_consistent [OF assms(1,2)] by (cases r) auto

lemma keeps_fields:
  "keeps_views (\<lambda>c. c\<lparr>frozen := x\<rparr>)" "keeps_views (\<lambda>c. c\<lparr>pids_max := w\<rparr>)" "keeps_views (\<lambda>c. c\<lparr>memory_max := w\<rparr>)"
  "keeps_views (\<lambda>c. c\<lparr>memory_high := w\<rparr>)" "keeps_views (\<lambda>c. c\<lparr>memory_low := w\<rparr>)" "keeps_views (\<lambda>c. c\<lparr>cpu_quota := w, cpu_period := u\<rparr>)"
  "keeps_views (\<lambda>c. c\<lparr>cpu_weight := w\<rparr>)" "keeps_views (\<lambda>c. c\<lparr>io_weight := w\<rparr>)"
  by (simp_all add: keeps_views_def node_of_def)

lemma setters_consistent:
  assumes "consistent st" "f \<in> set cg_setters" "len \<le> length (value_bytes v)" "f st cg v len = Some (st', r)"
  shows "consistent st'"
proof -
  note upd = update_consistent [OF assms(1)]
  have "consistent st'" if fr: "cgroup_set_freeze st cg v len = Some (st', r)"
  proof -
    obtain x :: "errno + uint64_t" where "(case x of Inl e \<Rightarrow> Some (st, ERR e)
        | Inr val \<Rightarrow> if val > 1 then Some (st, ERR EINVAL) else update_cgroup st cg (\<lambda>c. c\<lparr>frozen := uint val\<rparr>)) = Some (st', r)"
      using fr unfolding cgroup_set_freeze_def bind_eq_Some_conv by blast
    then show ?thesis using upd [OF keeps_fields(1)] assms(1) by (cases x) (auto split: if_split_asm)
  qed
  moreover have "consistent st'" if "cgroup_set_pids_max st cg v len = Some (st', r)"
    using that assms(1) by (auto simp: cgroup_set_pids_max_def bind_eq_Some_conv split: if_split_asm elim: settle_result [OF assms(1) keeps_fields(2)] upd [OF keeps_fields(2)])
  moreover have "consistent st'" if "cgroup_set_memory_max st cg v len = Some (st', r)"
    using that assms(1) by (auto simp: cgroup_set_memory_max_def bind_eq_Some_conv split: if_split_asm elim: settle_result [OF assms(1) keeps_fields(3)] upd [OF keeps_fields(3)])
  moreover have "consistent st'" if "cgroup_set_memory_high st cg v len = Some (st', r)"
    using that assms(1) by (auto simp: cgroup_set_memory_high_def bind_eq_Some_conv split: if_split_asm elim: settle_result [OF assms(1) keeps_fields(4)] upd [OF keeps_fields(4)])
  moreover have "consistent st'" if "cgroup_set_memory_low st cg v len = Some (st', r)"
    using that assms(1) by (auto simp: cgroup_set_memory_low_def bind_eq_Some_conv split: if_split_asm elim: settle_result [OF assms(1) keeps_fields(5)] upd [OF keeps_fields(5)])
  moreover have "consistent st'" if "cgroup_set_cpu_max st cg v len = Some (st', r)"
    using that assms(1) by (auto simp: cgroup_set_cpu_max_def Let_def bind_eq_Some_conv split: if_split_asm elim: upd [OF keeps_fields(6)])
  moreover have "consistent st'" if "cgroup_set_cpu_weight st cg v len = Some (st', r)"
    using that assms(1) by (auto simp: cgroup_set_cpu_weight_def bind_eq_Some_conv split: if_split_asm elim: settle_result [OF assms(1) keeps_fields(7)] upd [OF keeps_fields(7)])
  moreover have "consistent st'" if "cgroup_set_io_weight st cg v len = Some (st', r)"
    using that assms(1) by (auto simp: cgroup_set_io_weight_def bind_eq_Some_conv split: if_split_asm elim: settle_result [OF assms(1) keeps_fields(8)] upd [OF keeps_fields(8)])
  moreover have "consistent st'" if "cgroup_set_io_max st cg = Some (st', r)"
    using that assms(1) by (auto simp: cgroup_set_io_max_def bind_eq_Some_conv)
  ultimately show ?thesis
    using assms(2,4) set_cpuset_consistent [OF assms(1,3), of cg st' r] unfolding cg_setters_def by auto
qed

section \<open>Enabling controllers\<close>

definition is_flag :: "uint64_t \<Rightarrow> bool" where
  "is_flag f \<longleftrightarrow> (\<exists>k. f = push_bit k 1)"

lemma flag_within: "is_flag f \<Longrightarrow> w AND f \<noteq> 0 \<Longrightarrow> f AND NOT w = 0"
proof -
  assume f: "is_flag f" "w AND f \<noteq> 0"
  then obtain k where k: "f = push_bit k 1" by (auto simp: is_flag_def)
  then have "bit w k" using f(2) and_exp_eq_0_iff_not_bit [of w k] by (simp add: push_bit_eq_mult)
  then show ?thesis using k by (auto simp: bit_simps intro!: bit_eqI)
qed

lemma parse_controller_flag_total:
  "len \<le> length name \<Longrightarrow> \<exists>r. parse_controller_flag name len = Some r \<and> pred_option is_flag r"
proof -
  assume l: "len \<le> length name"
  have cmp: "\<exists>b. (if len = k then map_option (\<lambda>r. r = 0) (strncmp name lit k) else Some False) = Some b" if "k \<le> length lit" for k lit
    using strncmp_total [of k name lit] l that by auto
  have "is_flag CGROUP_CONTROLLER_PIDS" "is_flag CGROUP_CONTROLLER_MEMORY" "is_flag CGROUP_CONTROLLER_CPU" "is_flag CGROUP_CONTROLLER_IO" "is_flag CGROUP_CONTROLLER_CPUSET"
    unfolding is_flag_def CGROUP_CONTROLLER_PIDS_def CGROUP_CONTROLLER_MEMORY_def CGROUP_CONTROLLER_CPU_def CGROUP_CONTROLLER_IO_def CGROUP_CONTROLLER_CPUSET_def
    by blast+
  note flags = this
  obtain b1 where b1: "(if len = 4 then map_option (\<lambda>r. r = 0) (strncmp name [112, 105, 100, 115, 0] 4) else Some False) = Some b1"
    using cmp [of 4 "[112, 105, 100, 115, 0]"] by fastforce
  obtain b2 where b2: "(if len = 6 then map_option (\<lambda>r. r = 0) (strncmp name [109, 101, 109, 111, 114, 121, 0] 6) else Some False) = Some b2"
    using cmp [of 6 "[109, 101, 109, 111, 114, 121, 0]"] by fastforce
  obtain b3 where b3: "(if len = 3 then map_option (\<lambda>r. r = 0) (strncmp name [99, 112, 117, 0] 3) else Some False) = Some b3"
    using cmp [of 3 "[99, 112, 117, 0]"] by fastforce
  obtain b4 where b4: "(if len = 2 then map_option (\<lambda>r. r = 0) (strncmp name [105, 111, 0] 2) else Some False) = Some b4"
    using cmp [of 2 "[105, 111, 0]"] by fastforce
  obtain b5 where b5: "(if len = 6 then map_option (\<lambda>r. r = 0) (strncmp name [99, 112, 117, 115, 101, 116, 0] 6) else Some False) = Some b5"
    using cmp [of 6 "[99, 112, 117, 115, 101, 116, 0]"] by fastforce
  show ?thesis unfolding parse_controller_flag_def b1 b2 b3 b4 b5 Option.bind.simps using flags by (simp split: if_split)
qed

text \<open>What keeps the masks nested: within the available controllers, and above the masks of the children.\<close>

definition mask_ok :: "cg_state \<Rightarrow> cgroup \<Rightarrow> uint64_t \<Rightarrow> uint64_t \<Rightarrow> bool" where
  "mask_ok st c avail m \<longleftrightarrow> m AND NOT avail = 0
     \<and> (\<forall>b \<in> set (cg_children c). \<exists>d. cgroups st b = Some d \<and> subtree_control d AND NOT m = 0)"

lemma child_uses_total:
  "(\<And>b. b \<in> set bs \<Longrightarrow> cgroups st b \<noteq> None) \<Longrightarrow>
     child_uses st f bs = Some (\<exists>b \<in> set bs. \<exists>d. cgroups st b = Some d \<and> subtree_control d AND f \<noteq> 0)"
proof (induction bs)
  case (Cons b bs)
  obtain c where "cgroups st b = Some c" using Cons.prems [of b] by auto
  then show ?case using Cons by auto
qed simp

lemma word_within:
  fixes a b c :: uint64_t
  shows "a AND NOT c = 0 \<Longrightarrow> b AND NOT c = 0 \<Longrightarrow> (a OR b) AND NOT c = 0"
    "a AND NOT b = 0 \<Longrightarrow> a AND NOT (b OR c) = 0" "a AND NOT b = 0 \<Longrightarrow> (a AND c) AND NOT b = 0"
    "a AND NOT b = 0 \<Longrightarrow> a AND c = 0 \<Longrightarrow> a AND NOT (b AND NOT c) = 0"
  by (auto simp: bit_eq_iff bit_simps)

lemma control_op_ok:
  assumes "mask_ok st c avail m" "is_flag f"
    "(if a = Root_cgroup then Some (registered_controllers st) else parent_control st c) = Some avail"
  shows "\<exists>r. control_op st a c op f m = Some r \<and> (\<forall>m'. r = Inr m' \<longrightarrow> mask_ok st c avail m')"
proof -
  have kids: "cgroups st b \<noteq> None" if "b \<in> set (cg_children c)" for b using assms(1) that by (auto simp: mask_ok_def)
  have "mask_ok st c avail (m OR f)" if "avail AND f \<noteq> 0"
    using assms(1) flag_within [OF assms(2) that] word_within(1,2) unfolding mask_ok_def by blast
  moreover have "mask_ok st c avail (m AND NOT f)"
    if "\<not> (\<exists>b \<in> set (cg_children c). \<exists>d. cgroups st b = Some d \<and> subtree_control d AND f \<noteq> 0)"
    using assms(1) that word_within(3,4) unfolding mask_ok_def by blast
  ultimately show ?thesis using child_uses_total [OF kids] assms(3) unfolding control_op_def by auto
qed

lemma control_loop_ok:
  assumes "(if a = Root_cgroup then Some (registered_controllers st) else parent_control st c) = Some avail" "len \<le> length v"
  shows "i \<le> len \<Longrightarrow> mask_ok st c avail m \<Longrightarrow>
    \<exists>r. control_loop st a c v len i m = Some r \<and> (\<forall>m'. r = Inr m' \<longrightarrow> mask_ok st c avail m')"
proof (induction "len - i" arbitrary: i m rule: less_induct)
  case less
  show ?case
  proof (cases "i < len")
    case True
    obtain j where j: "skip_blanks [32, 9, 10] v len i = Some j" "i \<le> j" "j \<le> len" using skip_blanks_total [OF less.prems(1) assms(2)] by blast
    show ?thesis
    proof (cases "j = len \<or> v ! j \<noteq> 43 \<and> v ! j \<noteq> 45")
      case True
      then show ?thesis using \<open>i < len\<close> j less.prems(2) assms(2) by (subst control_loop.simps) (auto simp: byte_at_total)
    next
      case False
      then have jl: "Suc j \<le> len" using j(3) by auto
      obtain k where k: "skip_word v len (Suc j) = Some k" "Suc j \<le> k" "k \<le> len" using skip_word_total [OF jl assms(2)] by blast
      have "k - Suc j \<le> length (drop (Suc j) v)" using k(3) assms(2) by simp
      then obtain f where f: "parse_controller_flag (drop (Suc j) v) (k - Suc j) = Some f" "pred_option is_flag f"
        using parse_controller_flag_total by blast
      have op: "\<exists>r. control_op st a c (v ! j) x m = Some r \<and> (\<forall>m'. r = Inr m' \<longrightarrow> mask_ok st c avail m')" if "f = Some x" for x
        using control_op_ok [OF less.prems(2) _ assms(1)] f(2) that by simp
      have rec: "\<exists>r. control_loop st a c v len k m' = Some r \<and> (\<forall>m''. r = Inr m'' \<longrightarrow> mask_ok st c avail m'')" if "mask_ok st c avail m'" for m'
        using less.hyps [of k m'] k(2,3) j(2) True that by auto
      have step: "control_loop st a c v len i m = (if k = Suc j then Some (Inl EINVAL) else
          case f of None \<Rightarrow> Some (Inl EINVAL) | Some x \<Rightarrow> do { r \<leftarrow> control_op st a c (v ! j) x m;
            case r of Inl e \<Rightarrow> Some (Inl e) | Inr nxt \<Rightarrow> control_loop st a c v len k nxt })"
        using \<open>i < len\<close> j False jl assms(2) k(1) f(1) by (subst control_loop.simps) (auto simp: byte_at_total)
      show ?thesis
      proof (cases f)
        case (Some x)
        obtain r where "control_op st a c (v ! j) x m = Some r" "\<forall>m'. r = Inr m' \<longrightarrow> mask_ok st c avail m'" using op [OF Some] by blast
        then show ?thesis using rec unfolding step Some by (cases r) auto
      qed (use step in auto)
    qed
  next
    case False
    then show ?thesis using less.prems(2) by (subst control_loop.simps) auto
  qed
qed

lemma control_nested:
  assumes "consistent st" "tree st b = Some m" "\<not> tn_dying m" "tn_parent m = Some a" "cgroups st b = Some d" "cgroups st a = Some c"
  shows "subtree_control d AND NOT (subtree_control c) = 0"
proof -
  have "controls st b = Some (subtree_control d)" "controls st a = Some (subtree_control c)" using assms(5,6) by (simp_all add: controls_def)
  then show ?thesis using consistentD(5) [OF assms(1)] assms(2-4) unfolding controls_ok_def by blast
qed

lemma available_controls:
  assumes st: "consistent st" and c: "cgroups st a = Some c" "\<not> dying c"
  shows "\<exists>avail. (if a = Root_cgroup then Some (registered_controllers st) else parent_control st c) = Some avail
    \<and> mask_ok st c avail (subtree_control c)"
proof -
  note ok = consistentD [OF st]
  have kids: "\<exists>d. cgroups st b = Some d \<and> subtree_control d AND NOT (subtree_control c) = 0" if b: "b \<in> set (cg_children c)" for b
  proof -
    obtain m where m: "tree st b = Some m" "\<not> tn_dying m" "tn_parent m = Some a"
      using tree_okD(3) [OF ok(2) tree_node [OF c(1)], of b] c(2) b by auto
    then obtain d where "cgroups st b = Some d" by (auto simp: tree_def)
    then show ?thesis using control_nested [OF st m] c(1) by blast
  qed
  show ?thesis
  proof (cases "a = Root_cgroup")
    case True
    then have "subtree_control c AND NOT (registered_controllers st) = 0" using ok(5) c(1) by (auto simp: controls_ok_def controls_def)
    then show ?thesis using True kids by (simp add: mask_ok_def)
  next
    case False
    obtain p pc where p: "cg_parent c = Some p" "cgroups st p = Some pc" "parent_control st c = Some (subtree_control pc)"
      using parent_control_live [OF ok(2) c False] by blast
    have "subtree_control c AND NOT (subtree_control pc) = 0"
      using control_nested [OF st tree_node [OF c(1)]] c p(1,2) by simp
    then show ?thesis using False kids p(3) by (simp add: mask_ok_def)
  qed
qed

lemma parent_differs: "tree_ok (tree st) \<Longrightarrow> cgroups st a = Some c \<Longrightarrow> \<not> dying c \<Longrightarrow> cg_parent c \<noteq> Some a"
proof
  assume a: "tree_ok (tree st)" "cgroups st a = Some c" "\<not> dying c" "cg_parent c = Some a"
  obtain as where as: "up (tree st) (Some a) as" using tree_okD(1) [OF a(1) tree_node [OF a(2)]] a(3) by auto
  then obtain bs where bs: "as = a # bs" "up (tree st) (Some a) bs" using tree_node [OF a(2)] a(4) by (cases as) auto
  have "as = bs" using up_unique [OF as bs(2)] .
  then show False using bs(1) by simp
qed

lemma mask_consistent:
  assumes st: "consistent st" and c: "cgroups st a = Some c" "\<not> dying c"
    and m: "mask_ok st c avail m" "(if a = Root_cgroup then Some (registered_controllers st) else parent_control st c) = Some avail"
  shows "consistent (put_cgroup st a (c\<lparr>subtree_control := m\<rparr>))" (is "consistent ?st")
proof -
  note ok = consistentD [OF st]
  have same: "tree ?st = tree st" "ring ?st = ring st" "counts ?st = counts st" "texts ?st = texts st"
    using c by (auto simp: fun_eq_iff tree_node node_of_def) (auto simp: views)
  have "w AND NOT v = 0" if n: "tree st x = Some n" "\<not> tn_dying n" "tn_parent n = Some q"
      "((controls st)(a \<mapsto> m)) x = Some w" "((controls st)(a \<mapsto> m)) q = Some v" for x n q w v
  proof (cases "x = a")
    case True
    have nc: "n = node_of c" using n(1) tree_node [OF c(1)] True by simp
    have "q \<noteq> a" using parent_differs [OF ok(2) c] n(3) nc by auto
    moreover have "a \<noteq> Root_cgroup" using root_parent [OF ok(2)] n(1,3) True by auto
    ultimately show ?thesis using m n(3-5) True nc by (auto simp: mask_ok_def parent_control_def controls_def bind_eq_Some_conv)
  next
    case False
    have "x \<noteq> Root_cgroup" using root_parent [OF ok(2)] n(1,3) by auto
    then obtain k where k: "tree st q = Some k" "x \<in> set (tn_children k)" using tree_okD(4) [OF ok(2) n(1,2)] n(3) by auto
    show ?thesis
    proof (cases "q = a")
      case True
      then have "x \<in> set (cg_children c)" using k tree_node [OF c(1)] by auto
      then show ?thesis using m(1) n(4,5) True False by (auto simp: mask_ok_def controls_def)
    next
      case q: False
      then show ?thesis using ok(5) n False unfolding controls_ok_def by simp
    qed
  qed
  moreover have "w AND NOT (registered_controllers st) = 0" if "((controls st)(a \<mapsto> m)) Root_cgroup = Some w" for w
    using ok(5) m that by (cases "a = Root_cgroup") (auto simp: controls_ok_def mask_ok_def)
  ultimately have "controls_ok (tree st) ((controls st)(a \<mapsto> m)) (registered_controllers st)" unfolding controls_ok_def by blast
  then show ?thesis using ok unfolding consistent_def same by simp
qed

lemma subtree_control_consistent:
  assumes st: "consistent st" and a: "live (tree st) a" and v: "len \<le> length v"
  shows "\<exists>st' r. cgroup_set_subtree_control st (Some a) (Some v) len = Some (st', r) \<and> consistent st'"
proof -
  obtain c where c: "cgroups st a = Some c" "\<not> dying c" using live_cgroup [OF a] by blast
  obtain avail where av: "(if a = Root_cgroup then Some (registered_controllers st) else parent_control st c) = Some avail"
      "mask_ok st c avail (subtree_control c)"
    using available_controls [OF st c] by blast
  obtain r where r: "control_loop st a c v len 0 (subtree_control c) = Some r" "\<forall>m'. r = Inr m' \<longrightarrow> mask_ok st c avail m'"
    using control_loop_ok [OF av(1) v _ av(2), of 0] by blast
  show ?thesis
    using r c(1) st mask_consistent [OF st c _ av(1)] by (cases r) (auto simp: cgroup_set_subtree_control_def)
qed

section \<open>Initialisation\<close>

definition cg_boot :: cg_state where
  "cg_boot = \<lparr>cgroups = [Root_cgroup \<mapsto> zero_cgroup], tasks = Map.empty, cgroup_ready = False, registered_controllers = 0\<rparr>"

lemma register_views:
  assumes "cgroup_register_controller st nm k = Some (st', r)"
  shows "cgroups st' = cgroups st" "tasks st' = tasks st" "cgroup_ready st' = cgroup_ready st"
    "registered_controllers st AND NOT (registered_controllers st') = 0"
  using assms by (auto simp: cgroup_register_controller_def bind_eq_Some_conv bit_eq_iff bit_simps split: if_split_asm)

lemma register_consistent: "consistent st \<Longrightarrow> cgroup_register_controller st nm k = Some (st', r) \<Longrightarrow> consistent st'"
proof -
  assume st: "consistent st" and reg: "cgroup_register_controller st nm k = Some (st', r)"
  note v = register_views [OF reg]
  have "tree st' = tree st" "ring st' = ring st" "counts st' = counts st" "texts st' = texts st" "controls st' = controls st"
    using v(1) by (simp_all add: views fun_eq_iff)
  moreover have "w AND NOT (registered_controllers st') = 0" if "w AND NOT (registered_controllers st) = 0" for w
    using that v(4) by (auto simp: bit_eq_iff bit_simps)
  then have "controls_ok T C (registered_controllers st')" if "controls_ok T C (registered_controllers st)" for T C
    using that unfolding controls_ok_def by blast
  ultimately show ?thesis using st v unfolding consistent_def by simp
qed

lemma boot_consistent:
  assumes "cg_parent c = None" "cg_children c = []" "cg_tasks c = []" "pids_current c = 0" "subtree_control c = 0" "\<not> dying c"
    "text_ok (cg_name c, cpuset_cpus c, cpuset_mems c)"
  shows "consistent ((put_cgroup cg_boot Root_cgroup c)\<lparr>cgroup_ready := True\<rparr>)" (is "consistent ?st")
proof -
  have T: "tree ?st = [Root_cgroup \<mapsto> node_of c]" "ring ?st = [Root_cgroup \<mapsto> []]" "counts ?st = [Root_cgroup \<mapsto> 0]" "controls ?st = [Root_cgroup \<mapsto> 0]"
    "texts ?st = [Root_cgroup \<mapsto> (cg_name c, cpuset_cpus c, cpuset_mems c)]" "tasks ?st = Map.empty" "cgroup_ready ?st"
    using assms by (auto simp: views put_cgroup_def cg_boot_def node_of_def fun_eq_iff)
  have "up [Root_cgroup \<mapsto> node_of c] (Some Root_cgroup) [Root_cgroup]" using assms(1) by simp
  then have "\<exists>as. up [Root_cgroup \<mapsto> node_of c] (Some Root_cgroup) as" by blast
  then have "tree_ok (tree ?st)" using assms unfolding T tree_ok_def by (auto split: if_splits)
  moreover have "tasks_ok (tree ?st) (ring ?st) (tasks ?st)" unfolding T tasks_ok_def by (auto simp: tcg_def split: if_splits)
  moreover have "counts_ok (tree ?st) (counts ?st) (tasks ?st)" unfolding T counts_ok_def members_def by (auto simp: tcg_def split: if_splits)
  moreover have "controls_ok (tree ?st) (controls ?st) (registered_controllers ?st)" unfolding T controls_ok_def by (auto split: if_splits)
  moreover have "texts_ok (tree ?st) (texts ?st)" using assms(2,7) unfolding T texts_ok_iff by (auto split: if_splits)
  ultimately show ?thesis using T(7) unfolding consistent_def by blast
qed

lemma init_consistent:
  assumes "cgroup_init cg_boot malloc = Some st" "malloc_ok malloc" "cgroup_ready st"
  shows "consistent st"
proof -
  obtain nm where nm: "strdup malloc [0] = Some nm" "nm = None \<or> nm = Some [0]"
    using strdup_cases [of "[0]" malloc] assms(2) by (auto simp: cstring_def)
  obtain cpus mems where t: "strncpy (replicate 64 0) [48, 45, 54, 51, 0] 63 = Some cpus" "strncpy (replicate 64 0) [48, 0] 63 = Some mems"
      "length cpus = 64" "cpus ! 63 = 0" "length mems = 64" "mems ! 63 = 0"
  proof
    show "strncpy (replicate 64 0) [48, 45, 54, 51, 0] 63 = Some ([48, 45, 54, 51] @ replicate 60 0)"
      "strncpy (replicate 64 0) [48, 0] 63 = Some (48 # replicate 63 0)" by code_simp+
  qed (simp_all add: nth_append)
  let ?root = "(default_limits zero_cgroup)\<lparr>cg_name := [0], cpuset_cpus := cpus, cpuset_mems := mems, refcount := 1\<rparr>"
  have base: "consistent ((put_cgroup cg_boot Root_cgroup ?root)\<lparr>cgroup_ready := True\<rparr>)"
    using t(3-6) by (intro boot_consistent) (simp_all add: default_limits_def zero_cgroup_def text_ok_def)
  have z: "cpuset_cpus zero_cgroup = replicate 64 0" "cpuset_mems zero_cgroup = replicate 64 0" by (simp_all add: zero_cgroup_def)
  show ?thesis
    using assms(1,3) nm
  proof (elim disjE)
    assume "nm = None"
    then show ?thesis using assms(1,3) nm(1) by (auto simp: cgroup_init_def put_cgroup_def cg_boot_def)
  next
    assume "nm = Some [0]"
    then show ?thesis
      using assms(1) nm(1) t(1,2) base
      by (auto simp: cgroup_init_def z Let_def bind_eq_Some_conv) (meson register_consistent)
  qed
qed

end
