(* ===== verification/Cgroup_Correct.thy ===== *)
theory Cgroup_Correct
  imports Cgroup_Ops
begin

text \<open>
  The reachable states of the control groups and the two properties of the component: the hierarchy
  and its counters are consistent as long as no operation is applied to a destroyed group, and forking
  and moving tasks respect \<^verbatim>\<open>pids.max\<close>.
\<close>

section \<open>Reachable states\<close>

text \<open>
  Tasks come and go and change under the scheduler, which creates them outside of every group. The
  users of a group hold a reference to it. The relation is restricted: attaching, moving, creating,
  destroying and writing \<^verbatim>\<open>cgroup.subtree_control\<close> are steps only on a group that \<^verbatim>\<open>cgroup_destroy\<close> has
  not removed. The code does not test this, and \<open>attach_destroyed_dangles\<close> below shows what a step on a removed
  group does.
\<close>

inductive cg_reach :: "cg_state \<Rightarrow> bool" where
  init: "cgroup_init cg_boot malloc = Some st \<Longrightarrow> malloc_ok malloc \<Longrightarrow> cgroup_ready st \<Longrightarrow> cg_reach st"
| register: "cg_reach st \<Longrightarrow> cgroup_register_controller st name k = Some (st', r) \<Longrightarrow> cg_reach st'"
| new_task: "cg_reach st \<Longrightarrow> tasks st t = None \<Longrightarrow> Suc (card (dom (tasks st))) < 2 ^ 64 \<Longrightarrow> task_cgroup x = None \<Longrightarrow> task_node x = None
    \<Longrightarrow> cg_reach (put_task st t x)"
| change_task: "cg_reach st \<Longrightarrow> tasks st t = Some x \<Longrightarrow> cg_reach (put_task st t (x\<lparr>task_pid := pid, task_zombie := z, task_process := p\<rparr>))"
| free_task: "cg_reach st \<Longrightarrow> tasks st t = Some x \<Longrightarrow> task_cgroup x = None \<Longrightarrow> cg_reach (st\<lparr>tasks := (tasks st)(t := None)\<rparr>)"
| fork: "cg_reach st \<Longrightarrow> tasks st t = Some x \<Longrightarrow> task_cgroup x = None \<Longrightarrow> cgroup_task_fork st (Some t) parent = Some (st', r) \<Longrightarrow> cg_reach st'"
| exit: "cg_reach st \<Longrightarrow> cgroup_task_exit st task = Some st' \<Longrightarrow> cg_reach st'"
| attach: "cg_reach st \<Longrightarrow> live (tree st) a \<Longrightarrow> cgroup_attach_task st (Some a) task = Some (st', r) \<Longrightarrow> cg_reach st'"
| move: "cg_reach st \<Longrightarrow> live (tree st) a \<Longrightarrow> cgroup_move_pid st cur (Some a) v len = Some (st', r) \<Longrightarrow> cg_reach st'"
| create: "cg_reach st \<Longrightarrow> live (tree st) a \<Longrightarrow> 0 \<in> set nm \<Longrightarrow> malloc_ok malloc \<Longrightarrow> pred_option (\<lambda>b. cgroups st (Heap b) = None) mem
    \<Longrightarrow> cgroup_create st (Some a) (Some nm) result mem malloc node = Some (st', q) \<Longrightarrow> cg_reach st'"
| destroy: "cg_reach st \<Longrightarrow> live (tree st) a \<Longrightarrow> cgroup_destroy st (Some a) = Some (st', r) \<Longrightarrow> cg_reach st'"
| get: "cg_reach st \<Longrightarrow> cgroup_get st cg = Some (st', cg') \<Longrightarrow> cg_reach st'"
| put: "cg_reach st \<Longrightarrow> cgroup_put st cg = Some st' \<Longrightarrow> cg_reach st'"
| control: "cg_reach st \<Longrightarrow> live (tree st) a \<Longrightarrow> len \<le> length v \<Longrightarrow> cgroup_set_subtree_control st (Some a) (Some v) len = Some (st', r) \<Longrightarrow> cg_reach st'"
| setting: "cg_reach st \<Longrightarrow> f \<in> set cg_setters \<Longrightarrow> len \<le> length (value_bytes v') \<Longrightarrow> f st cg v' len = Some (st', r) \<Longrightarrow> cg_reach st'"

section \<open>The invariant\<close>

lemma retask_consistent:
  assumes st: "consistent st" and K: "tcg K = tcg (tasks st)" "finite (dom K)" "card (dom K) < 2 ^ 64" "\<And>t x. K t = Some x \<Longrightarrow> task_node x = task_cgroup x"
  shows "consistent (st\<lparr>tasks := K\<rparr>)"
proof -
  note ok = consistentD [OF st]
  have v: "tree (st\<lparr>tasks := K\<rparr>) = tree st" "ring (st\<lparr>tasks := K\<rparr>) = ring st" "counts (st\<lparr>tasks := K\<rparr>) = counts st"
    "controls (st\<lparr>tasks := K\<rparr>) = controls st" "texts (st\<lparr>tasks := K\<rparr>) = texts st"
    by (simp_all add: views fun_eq_iff)
  have "live (tree st) a" if "K t = Some x" "task_cgroup x = Some a" for t x a
  proof -
    have "tcg K t = Some a" using that by (simp add: tcg_def)
    then show ?thesis using tcg_live [OF st, of t a] K(1) by simp
  qed
  then have "tasks_ok (tree st) (ring st) K" using ok(3) K unfolding tasks_ok_def by auto
  moreover have "counts_ok (tree st) (counts st) K" using ok(4) K(1) unfolding counts_ok_def members_def by simp
  ultimately show ?thesis using ok unfolding consistent_def v by simp
qed

lemma put_task_retask: "put_task st t x = st\<lparr>tasks := (tasks st)(t \<mapsto> x)\<rparr>" by (simp add: put_task_def)

lemma fork_consistent:
  assumes st: "consistent st" and t: "tasks st t = Some x" "task_cgroup x = None" and fork: "cgroup_task_fork st (Some t) parent = Some (st', r)"
  shows "consistent st'"
proof -
  obtain as where as: "up (tree st) (Some (fork_target st parent)) as" using live_up [OF consistentD(2) [OF st] fork_target_live [OF st]] by blast
  have "pred_option (\<lambda>p. tasks st p \<noteq> None) parent"
    using fork consistentD(1) [OF st] by (cases parent) (auto simp: cgroup_task_fork_def bind_eq_Some_conv)
  from fork_live [OF st t this as] have "(st', r) = (case find (full st) as of
      None \<Rightarrow> (bump (\<lambda>n. n + 1) (set as) (place t (fork_target st parent) st), EOK) | Some b \<Rightarrow> (note_event b st, ERR EAGAIN))"
    using fork by simp
  moreover have "consistent (bump (\<lambda>n. n + 1) (set as) (place t (fork_target st parent) st))"
    using place_consistent [OF st _ _ fork_target_live [OF st] as] t by (simp add: tcg_def)
  ultimately show ?thesis using note_event_consistent [OF st] by (auto split: option.splits)
qed

lemma exit_consistent:
  assumes st: "consistent st" and ex: "cgroup_task_exit st task = Some st'"
  shows "consistent st'"
proof (cases "Option.bind task (tcg (tasks st))")
  case None
  then have "st' = st" using ex by (auto simp: cgroup_task_exit_def tcg_def bind_eq_Some_conv bind_eq_None_conv split: option.splits)
  then show ?thesis using st by simp
next
  case (Some a)
  then obtain t where t: "task = Some t" "tcg (tasks st) t = Some a" by (auto simp: bind_eq_Some_conv)
  obtain as where as: "up (tree st) (Some a) as" using live_up [OF consistentD(2) [OF st] tcg_live [OF st t(2)]] by blast
  show ?thesis using unplace_consistent [OF st t(2) as] exit_live [OF st t(2) as] ex t(1) by simp
qed

lemma moved_consistent:
  assumes st: "consistent st" and t: "tcg (tasks st) t = Some old" "up (tree st) (Some old) os" and a: "live (tree st) a" "up (tree st) (Some a) as"
  shows "consistent (bump (\<lambda>n. n + 1) (set as) (place t a (unplace t old (bump (\<lambda>n. if n \<noteq> 0 then n - 1 else n) (set os) st))))"
proof -
  let ?st = "unplace t old (bump (\<lambda>n. if n \<noteq> 0 then n - 1 else n) (set os) st)"
  have "tasks ?st = (tasks st)(t := map_option (\<lambda>x. x\<lparr>task_cgroup := None, task_node := None\<rparr>) (tasks st t))" by (simp add: unplace_def)
  then have "tcg (tasks ?st) t = None" "tasks ?st t \<noteq> None" using t(1) by (auto simp: tcg_unplace tcg_def bind_eq_Some_conv)
  then show ?thesis using place_consistent [OF unplace_consistent [OF st t]] a by simp
qed

lemma attach_consistent:
  assumes st: "consistent st" and a: "live (tree st) a" and at: "attach_task_locked st a t = Some (st', r)"
  shows "consistent st'"
proof (cases "tcg (tasks st) t = None \<or> tcg (tasks st) t = Some a")
  case True
  then have "st' = st" using at by (auto simp: attach_task_locked_def tcg_def bind_eq_Some_conv bind_eq_None_conv split: option.splits)
  then show ?thesis using st by simp
next
  case False
  then obtain old where old: "tcg (tasks st) t = Some old" "old \<noteq> a" by auto
  note ok = consistentD(2) [OF st]
  obtain os as where up: "up (tree st) (Some old) os" "up (tree st) (Some a) as" using live_up [OF ok tcg_live [OF st old(1)]] live_up [OF ok a] by blast
  show ?thesis
    using attach_live [OF st old(1) up(1) a up(2) old(2)] moved_consistent [OF st old(1) up(1) a up(2)] note_event_consistent [OF st] at
    by (auto split: option.splits)
qed

lemma move_cases:
  assumes "cgroup_move_pid st cur (Some a) v len = Some (st', r)"
  shows "st' = st \<or> (\<exists>t. attach_task_locked st a t = Some (st', r))"
proof -
  obtain x where x: "parse_u64 (value_bytes v) len = Some x"
    using assms by (auto simp: cgroup_move_pid_def bind_eq_Some_conv)
  then show ?thesis
  proof (cases x)
    case (Inr pid)
    obtain y where "(if pid = 0 then Some cur else find_task_locked st Root_cgroup pid) = Some y"
      using assms x Inr by (auto simp: cgroup_move_pid_def bind_eq_Some_conv)
    then show ?thesis using assms x Inr
      by (cases y) (auto simp: cgroup_move_pid_def bind_eq_Some_conv split: if_split_asm)
  qed (use assms x in \<open>auto simp: cgroup_move_pid_def\<close>)
qed

lemma reach_consistent: "cg_reach st \<Longrightarrow> consistent st"
proof (induction rule: cg_reach.induct)
  case (new_task st t x)
  have "dom ((tasks st)(t \<mapsto> x)) = insert t (dom (tasks st))" by auto
  then show ?case
    using new_task consistentD(3) [of st] node_cgroup [of st] unfolding put_task_retask tasks_ok_def
    by (intro retask_consistent) (auto simp: tcg_def fun_eq_iff card_insert_if split: if_splits)
next
  case (change_task st t x p z pid)
  have "dom ((tasks st)(t \<mapsto> x\<lparr>task_pid := pid, task_zombie := z, task_process := p\<rparr>)) = dom (tasks st)" using change_task.hyps(2) by auto
  then show ?case
    using change_task consistentD(3) [of st] node_cgroup [of st] unfolding put_task_retask tasks_ok_def
    by (intro retask_consistent) (auto simp: tcg_def fun_eq_iff split: if_splits)
next
  case (free_task st t x)
  have "card (dom (tasks st) - {t}) \<le> card (dom (tasks st))" by (rule card_Diff1_le)
  then show ?case
    using free_task consistentD(3) [of st] node_cgroup [of st] unfolding tasks_ok_def
    by (intro retask_consistent) (auto simp: tcg_def fun_eq_iff split: if_splits)
next
  case (attach st a task st' r)
  then show ?case using attach_consistent by (auto simp: cgroup_attach_task_def split: option.splits)
next
  case (move st a cur v len st' r)
  then show ?case using attach_consistent move_cases by blast
next
  case (create st a nm malloc mem result node st' q)
  show ?case using create_consistent [OF create.IH create.hyps(2-5), of result node] create.hyps(6) by auto
next
  case (destroy st a st' r)
  show ?case using destroy_consistent [OF destroy.IH destroy.hyps(2)] destroy.hyps(3) by auto
next
  case (get st cg st' cg')
  then have "pred_option (\<lambda>a. cgroups st a \<noteq> None) cg \<or> st' = st" by (auto simp: cgroup_get_def bind_eq_Some_conv split: option.splits if_splits)
  then show ?case using get.hyps(2) get.IH get_consistent [OF get.IH, of cg] by auto
next
  case (put st cg st')
  then have "pred_option (\<lambda>a. cgroups st a \<noteq> None) cg \<or> st' = st" by (auto simp: cgroup_put_def bind_eq_Some_conv split: option.splits if_splits)
  then show ?case using put.hyps(2) put.IH put_consistent [OF put.IH, of cg] by auto
next
  case (control st a len v st' r)
  show ?case using subtree_control_consistent [OF control.IH control.hyps(2,3)] control.hyps(4) by auto
qed (blast intro: init_consistent register_consistent fork_consistent exit_consistent setters_consistent)+

section \<open>The hierarchy in terms of the code\<close>

lemma path:
  assumes "consistent st" "live (tree st) a"
  shows "\<exists>as. up (tree st) (Some a) as \<and> (\<forall>b. is_descendant st (Some a) b = Some (b \<in> set as)) \<and> Root_cgroup \<in> set as"
proof -
  note ok = consistentD(2) [OF assms(1)]
  have root: "Root_cgroup \<in> set as" if "up (tree st) (Some a) as" "live (tree st) a" for a as
    using that
  proof (induction as arbitrary: a)
    case (Cons x as)
    show ?case
    proof (cases "a = Root_cgroup")
      case False
      obtain c where c: "cgroups st a = Some c" "\<not> dying c" using live_cgroup [OF Cons.prems(2)] by blast
      obtain p pc where p: "cg_parent c = Some p" "cgroups st p = Some pc" "\<not> dying pc" using parent_control_live [OF ok c False] by blast
      have "live (tree st) p" using p(2,3) by (simp add: live_def tree_def)
      moreover have "up (tree st) (Some p) as" using Cons.prems(1) c(1) p(1) by (auto dest: tree_Some)
      ultimately show ?thesis using Cons.IH by simp
    qed (use Cons.prems in auto)
  qed simp
  obtain as where "up (tree st) (Some a) as" using live_up [OF ok assms(2)] by blast
  then show ?thesis using root assms(2) is_descendant_up by blast
qed

lemma members_descendants:
  assumes "consistent st"
  shows "members (tree st) (tasks st) a = {t. \<exists>b. tcg (tasks st) t = Some b \<and> is_descendant st (Some b) a = Some True}"
proof -
  have "(\<exists>as. up (tree st) (Some b) as \<and> a \<in> set as) \<longleftrightarrow> is_descendant st (Some b) a = Some True" if "tcg (tasks st) t = Some b" for t b
    using path [OF assms tcg_live [OF assms that]] up_unique by (metis option.inject)
  then show ?thesis unfolding members_def by blast
qed

lemma live_iff: "live (tree st) a \<longleftrightarrow> (\<exists>c. cgroups st a = Some c \<and> \<not> dying c)"
  by (auto simp: live_def tree_def)

lemma group_controls:
  assumes st: "consistent st" and c: "cgroups st a = Some c" "\<not> dying c"
  shows "if a = Root_cgroup then subtree_control c AND NOT (registered_controllers st) = 0
    else \<exists>p d. cg_parent c = Some p \<and> cgroups st p = Some d \<and> \<not> dying d \<and> a \<in> set (cg_children d) \<and> subtree_control c AND NOT (subtree_control d) = 0"
proof (cases "a = Root_cgroup")
  case False
  obtain p d where p: "cg_parent c = Some p" "cgroups st p = Some d" "\<not> dying d" "a \<in> set (cg_children d)"
    using parent_control_live [OF consistentD(2) [OF st] c False] by blast
  have "tree st a = Some \<lparr>tn_parent = Some p, tn_children = cg_children c, tn_dying = False\<rparr>" "controls st a = Some (subtree_control c)"
    "controls st p = Some (subtree_control d)"
    using c p by (simp_all add: tree_def controls_def)
  then have "subtree_control c AND NOT (subtree_control d) = 0" using consistentD(5) [OF st] unfolding controls_ok_def by fastforce
  then show ?thesis using p False by auto
qed (use c consistentD(5) [OF st] in \<open>simp add: controls_ok_def controls_def\<close>)

lemma group_children:
  assumes st: "consistent st" and c: "cgroups st a = Some c" "\<not> dying c"
  shows "b \<in> set (cg_children c) \<Longrightarrow> \<exists>d. cgroups st b = Some d \<and> \<not> dying d \<and> cg_parent d = Some a"
    and "distinct (map (\<lambda>b. map_option (cstring \<circ> cg_name) (cgroups st b)) (cg_children c))"
proof -
  have n: "tree st a = Some \<lparr>tn_parent = cg_parent c, tn_children = cg_children c, tn_dying = False\<rparr>" using c by (simp add: tree_def)
  show "\<exists>d. cgroups st b = Some d \<and> \<not> dying d \<and> cg_parent d = Some a" if "b \<in> set (cg_children c)"
    using consistentD(2) [OF st] n that unfolding tree_ok_def by (fastforce simp: tree_def)
  have "distinct (map (\<lambda>b. map_option (cstring \<circ> fst) (texts st b)) (cg_children c))"
    using consistentD(6) [OF st] n unfolding texts_ok_def by fastforce
  moreover have "map_option (cstring \<circ> fst) (texts st b) = map_option (cstring \<circ> cg_name) (cgroups st b)" for b
    by (simp add: texts_def option.map_comp o_def)
  ultimately show "distinct (map (\<lambda>b. map_option (cstring \<circ> cg_name) (cgroups st b)) (cg_children c))" by simp
qed

lemma group_tasks:
  assumes st: "consistent st" and c: "cgroups st a = Some c"
  shows "distinct (cg_tasks c)" "set (cg_tasks c) = {t. tcg (tasks st) t = Some a}"
proof -
  have "ring st a = Some (cg_tasks c)" using c by (simp add: ring_def)
  then show "distinct (cg_tasks c)" "set (cg_tasks c) = {t. tcg (tasks st) t = Some a}"
    using consistentD(3) [OF st] unfolding tasks_ok_def by blast+
qed

lemma group_count:
  assumes st: "consistent st" and c: "cgroups st a = Some c" "\<not> dying c"
  shows "unat (pids_current c) = card {t. \<exists>b. tcg (tasks st) t = Some b \<and> is_descendant st (Some b) a = Some True}"
proof -
  have "live (tree st) a" using c live_iff by blast
  moreover have "counts st a = Some (pids_current c)" using c by (simp add: counts_def)
  ultimately have "unat (pids_current c) = card (members (tree st) (tasks st) a)" using consistentD(4) [OF st] unfolding counts_ok_def by blast
  then show ?thesis using members_descendants [OF st, of a] by simp
qed

text \<open>
  C16: As long as no operation is applied to a group that has already been destroyed (the restriction of
  \<open>cg_reach\<close> on attaching, moving, creating, destroying and writing \<^verbatim>\<open>cgroup.subtree_control\<close>, which the code
  leaves to its callers), every sequence of operations leads to a state in which a group that is not being
  destroyed lies below the root; its task list holds exactly the tasks that point to it, and its \<^verbatim>\<open>pids.current\<close> is the
  number of tasks in its subtree; it hangs under a parent that lists it and it delegates only
  controllers its parent delegates to it (the root only registered ones); its children point back to
  it and have different names. Destroying it, creating a child in it and writing its
  \<^verbatim>\<open>cgroup.subtree_control\<close> always return, without touching freed or foreign memory.
\<close>

theorem cgroup_reachable_consistent:
  assumes "cg_reach st" "cgroups st a = Some c" "\<not> dying c"
    and "malloc_ok malloc" "pred_option (\<lambda>b. cgroups st (Heap b) = None) mem" "0 \<in> set nm" "len \<le> length v"
  shows "is_descendant st (Some a) Root_cgroup = Some True
    \<and> distinct (cg_tasks c) \<and> set (cg_tasks c) = {t. tcg (tasks st) t = Some a}
    \<and> unat (pids_current c) = card {t. \<exists>b. tcg (tasks st) t = Some b \<and> is_descendant st (Some b) a = Some True}
    \<and> (if a = Root_cgroup then subtree_control c AND NOT (registered_controllers st) = 0
       else \<exists>p d. cg_parent c = Some p \<and> cgroups st p = Some d \<and> \<not> dying d \<and> a \<in> set (cg_children d) \<and> subtree_control c AND NOT (subtree_control d) = 0)
    \<and> (\<forall>b \<in> set (cg_children c). \<exists>d. cgroups st b = Some d \<and> \<not> dying d \<and> cg_parent d = Some a)
    \<and> distinct (map (\<lambda>b. map_option (cstring \<circ> cg_name) (cgroups st b)) (cg_children c))
    \<and> cgroup_destroy st (Some a) \<noteq> None \<and> cgroup_create st (Some a) (Some nm) result mem malloc node \<noteq> None
    \<and> cgroup_set_subtree_control st (Some a) (Some v) len \<noteq> None"
proof -
  note st = reach_consistent [OF assms(1)]
  have live: "live (tree st) a" using assms(2,3) live_iff by blast
  have "is_descendant st (Some a) Root_cgroup = Some True" using path [OF st live] by auto
  moreover have "cgroup_destroy st (Some a) \<noteq> None" using destroy_consistent [OF st live] by auto
  moreover have "cgroup_create st (Some a) (Some nm) result mem malloc node \<noteq> None"
    using create_consistent [OF st live assms(6,4,5), of result node] by auto
  moreover have "cgroup_set_subtree_control st (Some a) (Some v) len \<noteq> None" using subtree_control_consistent [OF st live assms(7)] by auto
  ultimately show ?thesis
    using group_tasks [OF st assms(2)] group_count [OF st assms(2,3)] group_controls [OF st assms(2,3)] group_children [OF st assms(2,3)] by blast
qed

section \<open>The limit on the number of tasks\<close>

text \<open>
  A group with the \<^verbatim>\<open>pids\<close> controller has no room for a task when its limit is a number and its
  subtree has that many tasks.
\<close>

definition over_limit :: "cg_state \<Rightarrow> cg_ptr \<Rightarrow> bool" where
  "over_limit st a \<longleftrightarrow> (case cgroups st a of
     None \<Rightarrow> False
   | Some c \<Rightarrow> controller_available_locked st a CGROUP_CONTROLLER_PIDS = Some True
       \<and> pids_max c \<noteq> CGROUP_PIDS_MAX \<and> \<not> pids_current c < pids_max c)"

lemma full_iff: "full st a \<longleftrightarrow> over_limit st a"
  by (auto simp: full_def exhausted_def over_limit_def bind_eq_Some_conv split: option.splits)

lemma not_above: "up T p as \<Longrightarrow> up T q os \<Longrightarrow> set (takeWhile (\<lambda>b. b \<notin> set os) as) = set as - set os"
proof (induction as arbitrary: p)
  case (Cons a as)
  show ?case
  proof (cases "a \<in> set os")
    case True
    then obtain xs ys where os: "os = xs @ a # ys" by (meson split_list)
    have "up T (Some a) (a # ys)" using Cons.prems(2) unfolding os by (rule up_suffix)
    then have "a # as = a # ys" using Cons.prems(1) up_unique by (metis up.simps(2))
    then show ?thesis using os True by auto
  qed (use Cons in auto)
qed simp

lemma place_counts: "counts (place t a st) = counts st" "counts (unplace t a st) = counts st"
  by (simp_all add: counts_def place_def unplace_def fun_eq_iff option.map_comp o_def)

lemma bump_counts: "counts (bump f S st) d = map_option (\<lambda>n. if d \<in> S then f n else n) (counts st d)"
  by (simp add: counts_def bump_def option.map_comp o_def)

lemma fork_outcome:
  assumes st: "consistent st" and t: "tasks st t = Some x" "task_cgroup x = None" and p: "tasks st p = Some y"
    and a: "a = (case task_cgroup y of None \<Rightarrow> Root_cgroup | Some a \<Rightarrow> a)"
  shows "if \<exists>d. is_descendant st (Some a) d = Some True \<and> over_limit st d
    then \<exists>d. is_descendant st (Some a) d = Some True \<and> over_limit st d \<and> cgroup_task_fork st (Some t) (Some p) = Some (note_event d st, ERR EAGAIN)
    else \<exists>st'. cgroup_task_fork st (Some t) (Some p) = Some (st', EOK) \<and> tasks st' = (tasks st)(t \<mapsto> x\<lparr>task_cgroup := Some a, task_node := Some a\<rparr>)
      \<and> (\<forall>d. counts st' d = map_option (\<lambda>n. n + (if is_descendant st (Some a) d = Some True then 1 else 0)) (counts st d))"
proof -
  have at: "fork_target st (Some p) = a" using p a by (simp add: fork_target_def tcg_def)
  have "live (tree st) a" using fork_target_live [OF st, of "Some p"] at by simp
  then obtain as where as: "up (tree st) (Some a) as" "\<And>d. is_descendant st (Some a) d = Some (d \<in> set as)" using path [OF st] by blast
  have res: "cgroup_task_fork st (Some t) (Some p) = Some (case find (full st) as of
      None \<Rightarrow> (bump (\<lambda>n. n + 1) (set as) (place t a st), EOK) | Some b \<Rightarrow> (note_event b st, ERR EAGAIN))"
    using fork_live [OF st t, of "Some p" as, unfolded at] p as(1) by simp
  show ?thesis
  proof (cases "find (full st) as")
    case None
    let ?st = "bump (\<lambda>n. n + 1) (set as) (place t a st)"
    have "tasks ?st = (tasks st)(t \<mapsto> x\<lparr>task_cgroup := Some a, task_node := Some a\<rparr>)" using t by (simp add: place_def)
    moreover have "counts ?st d = map_option (\<lambda>n. n + (if is_descendant st (Some a) d = Some True then 1 else 0)) (counts st d)" for d
      by (cases "counts st d") (auto simp: bump_counts place_counts as(2))
    ultimately show ?thesis using res None by (auto simp: find_None_iff full_iff as(2))
  next
    case (Some d)
    then have "d \<in> set as" "over_limit st d" by (auto simp: find_Some_iff full_iff)
    then show ?thesis using res Some as(2) by auto
  qed
qed

lemma counted: "consistent st \<Longrightarrow> tcg (tasks st) t = Some a \<Longrightarrow> up (tree st) (Some a) as \<Longrightarrow> d \<in> set as \<Longrightarrow> counts st d = Some n \<Longrightarrow> n \<noteq> 0"
proof -
  assume st: "consistent st" and t: "tcg (tasks st) t = Some a" "up (tree st) (Some a) as" "d \<in> set as" and n: "counts st d = Some n"
  have "live (tree st) d" using up_live [OF consistentD(2) [OF st] tcg_live [OF st t(1)] t(2,3)] .
  then have "unat n = card (members (tree st) (tasks st) d)" using consistentD(4) [OF st] n unfolding counts_ok_def by blast
  moreover have "t \<in> members (tree st) (tasks st) d" using t unfolding members_def by blast
  ultimately show "n \<noteq> 0" using members_finite [OF consistentD(3) [OF st]] by (auto simp: card_eq_0_iff)
qed

lemma attach_outcome:
  assumes st: "consistent st" and t: "tasks st t = Some x" "task_cgroup x = Some old" and a: "live (tree st) a" "old \<noteq> a"
  shows "if \<exists>d. is_descendant st (Some a) d = Some True \<and> is_descendant st (Some old) d = Some False \<and> over_limit st d
    then \<exists>d. is_descendant st (Some a) d = Some True \<and> is_descendant st (Some old) d = Some False \<and> over_limit st d
      \<and> cgroup_attach_task st (Some a) (Some t) = Some (note_event d st, ERR EAGAIN)
    else \<exists>st'. cgroup_attach_task st (Some a) (Some t) = Some (st', EOK) \<and> tasks st' = (tasks st)(t \<mapsto> x\<lparr>task_cgroup := Some a, task_node := Some a\<rparr>)
      \<and> (\<forall>d. counts st' d = map_option (\<lambda>n. n + (if is_descendant st (Some a) d = Some True then 1 else 0)
          - (if is_descendant st (Some old) d = Some True then 1 else 0)) (counts st d))"
proof -
  have t': "tcg (tasks st) t = Some old" using t by (simp add: tcg_def)
  obtain as where as: "up (tree st) (Some a) as" "\<And>d. is_descendant st (Some a) d = Some (d \<in> set as)" using path [OF st a(1)] by blast
  obtain os where os: "up (tree st) (Some old) os" "\<And>d. is_descendant st (Some old) d = Some (d \<in> set os)" using path [OF st tcg_live [OF st t']] by blast
  let ?ds = "takeWhile (\<lambda>b. b \<notin> set os) as"
  have ds: "d \<in> set ?ds \<longleftrightarrow> d \<in> set as \<and> d \<notin> set os" for d using not_above [OF as(1) os(1)] by auto
  let ?st = "bump (\<lambda>n. n + 1) (set as) (place t a (unplace t old (bump (\<lambda>n. if n \<noteq> 0 then n - 1 else n) (set os) st)))"
  have res: "cgroup_attach_task st (Some a) (Some t) = Some (case find (full st) ?ds of
      None \<Rightarrow> (?st, EOK) | Some b \<Rightarrow> (note_event b st, ERR EAGAIN))"
    using attach_live [OF st t' os(1) a(1) as(1) a(2)] by (simp add: cgroup_attach_task_def)
  show ?thesis
  proof (cases "find (full st) ?ds")
    case None
    then have "\<not> (\<exists>d. d \<in> set as \<and> d \<notin> set os \<and> over_limit st d)" using ds by (auto simp: find_None_iff full_iff)
    moreover have "tasks ?st = (tasks st)(t \<mapsto> x\<lparr>task_cgroup := Some a, task_node := Some a\<rparr>)" using t by (simp add: place_def unplace_def)
    moreover have "counts ?st d = map_option (\<lambda>n. n + (if is_descendant st (Some a) d = Some True then 1 else 0)
          - (if is_descendant st (Some old) d = Some True then 1 else 0)) (counts st d)" for d
      using counted [OF st t' os(1), of d] by (cases "counts st d") (auto simp: bump_counts place_counts as(2) os(2))
    ultimately show ?thesis using res None by (simp add: as(2) os(2))
  next
    case (Some d)
    then have "d \<in> set ?ds" "over_limit st d" by (auto simp: find_Some_iff full_iff)
    then show ?thesis using res Some ds [of d] by (auto simp: as(2) os(2))
  qed
qed

lemma number_not_max:
  assumes "set xs \<subseteq> {32, 9}" "ds \<noteq> []" "list_all is_digit ds"
  shows "is_max (xs @ ds @ ys) (length xs + length ds + length ys) = Some False"
proof -
  obtain b bs where b: "xs @ ds @ ys = b # bs" "b \<noteq> 109"
  proof -
    have "b \<noteq> 109" if "is_digit b" for b using that by (auto simp: is_digit_def)
    then show thesis using that assms by (cases xs; cases ds) auto
  qed
  have "b < 109 \<or> b > 109" using b(2) by (meson linorder_neqE)
  then show ?thesis unfolding is_max_def b(1) by (auto simp: numeral_3_eq_3)
qed

lemma set_pids_max_number:
  assumes st: "consistent st" and c: "cgroups st a = Some c" "\<not> dying c" and av: "controller_available_locked st a CGROUP_CONTROLLER_PIDS = Some True"
    and v: "set xs \<subseteq> {32, 9}" "ds \<noteq> []" "list_all is_digit ds" "set ys \<subseteq> {32, 9, 10}"
  shows "cgroup_set_pids_max st (Some a) (Some (xs @ ds @ ys)) (length xs + length ds + length ys)
    = Some (if digit_sum ds 0 < 2 ^ 64 then (put_cgroup st a (c\<lparr>pids_max := of_nat (digit_sum ds 0)\<rparr>), EOK) else (st, ERR ERANGE))"
  using number_not_max [OF v(1-3), of ys] parse_u64_number [OF v] c av v(2) consistentD(1) [OF st]
  by (simp add: cgroup_set_pids_max_def settable_def cgroup_controller_available_def value_bytes_def update_cgroup_def)

section \<open>A run\<close>

text \<open>
  A concrete history: the subsystem starts, two tasks appear and the first is forked into the root
  group, the root delegates the \<^verbatim>\<open>pids\<close> controller, a group \<^verbatim>\<open>a\<close> is created in it and limited to one
  task, and the first task moves there.
\<close>

declare limit_loop.simps [code] count_loop.simps [code] is_descendant.simps [code] control_loop.simps [code]

definition run_malloc :: "nat \<Rightarrow> bytes option" where
  "run_malloc n = Some (replicate n 0)"

definition run_task :: "uint64_t \<Rightarrow> task" where
  "run_task p = \<lparr>task_pid = p, task_zombie = False, task_process = None, task_cgroup = None, task_node = None\<rparr>"

definition run_start :: cg_state where
  "run_start = put_task (put_task (the (cgroup_init cg_boot run_malloc)) 1 (run_task 1)) 2 (run_task 2)"

definition run_fork :: cg_state where
  "run_fork = fst (the (cgroup_task_fork run_start (Some 1) None))"

definition run_control :: cg_state where
  "run_control = fst (the (cgroup_set_subtree_control run_fork (Some Root_cgroup) (Some [43, 112, 105, 100, 115]) 5))"

definition run_create :: cg_state where
  "run_create = fst (the (cgroup_create run_control (Some Root_cgroup) (Some [97, 0]) True (Some 5) run_malloc True))"

definition run_limit :: cg_state where
  "run_limit = fst (the (cgroup_set_pids_max run_create (Some (Heap 5)) (Some [49, 10]) 2))"

definition run_move :: cg_state where
  "run_move = fst (the (cgroup_attach_task run_limit (Some (Heap 5)) (Some 1)))"

lemmas run_defs = run_move_def run_limit_def run_create_def run_control_def run_fork_def run_start_def

lemma run_step: "\<not> Option.is_none x \<Longrightarrow> x = Some (fst (the x), snd (the x))"
  by (cases x) auto

lemma init_tasks: "cgroup_init st malloc = Some st' \<Longrightarrow> tasks st' = tasks st"
  by (auto simp: cgroup_init_def bind_eq_Some_conv put_cgroup_def dest!: register_views(2) split: option.split_asm)

lemma run_start_reach: "cg_reach run_start"
proof -
  have "\<not> Option.is_none (cgroup_init cg_boot run_malloc)" by code_simp
  then have "cgroup_init cg_boot run_malloc = Some (the (cgroup_init cg_boot run_malloc))" by (cases "cgroup_init cg_boot run_malloc") auto
  moreover have "cgroup_ready (the (cgroup_init cg_boot run_malloc))" by code_simp
  ultimately have r: "cg_reach (the (cgroup_init cg_boot run_malloc))" (is "cg_reach ?st")
    by (intro cg_reach.init [of run_malloc]) (simp_all add: malloc_ok_def run_malloc_def)
  have "tasks ?st = Map.empty"
    using init_tasks [of cg_boot run_malloc] \<open>cgroup_init cg_boot run_malloc = Some ?st\<close> by (simp add: cg_boot_def)
  then show ?thesis unfolding run_start_def
    by (intro cg_reach.new_task r) (simp_all add: put_task_def run_task_def)
qed

lemma live_eval: "(case cgroups st a of None \<Rightarrow> False | Some c \<Rightarrow> \<not> dying c) \<Longrightarrow> live (tree st) a"
  by (auto simp: live_iff split: option.splits)

lemma run_fork_reach: "cg_reach run_fork"
proof -
  have "\<not> Option.is_none (cgroup_task_fork run_start (Some 1) None)" by code_simp
  note f = run_step [OF this]
  have "tasks run_start 1 = Some (run_task 1)" by (simp add: run_start_def put_task_def)
  then show ?thesis using cg_reach.fork [OF run_start_reach _ _ f] by (simp add: run_fork_def run_task_def)
qed

lemma run_control_reach: "cg_reach run_control"
proof -
  have "\<not> Option.is_none (cgroup_set_subtree_control run_fork (Some Root_cgroup) (Some [43, 112, 105, 100, 115]) 5)" by code_simp
  note f = run_step [OF this]
  have "live (tree run_fork) Root_cgroup" by (rule live_eval) code_simp
  then show ?thesis using cg_reach.control [OF run_fork_reach _ _ f] by (simp add: run_control_def)
qed

lemma run_create_reach: "cg_reach run_create"
proof -
  have "\<not> Option.is_none (cgroup_create run_control (Some Root_cgroup) (Some [97, 0]) True (Some 5) run_malloc True)" by code_simp
  note f = run_step [OF this]
  have "live (tree run_control) Root_cgroup" by (rule live_eval) code_simp
  moreover have "Option.is_none (cgroups run_control (Heap 5))" by code_simp
  ultimately show ?thesis using cg_reach.create [OF run_control_reach _ _ _ _ f]
    by (simp add: run_create_def malloc_ok_def run_malloc_def Option.is_none_def)
qed

lemma run_limit_reach: "cg_reach run_limit"
proof -
  have "\<not> Option.is_none (cgroup_set_pids_max run_create (Some (Heap 5)) (Some [49, 10]) 2)" by code_simp
  note f = run_step [OF this]
  show ?thesis unfolding run_limit_def
    by (rule cg_reach.setting [where f = cgroup_set_pids_max, OF run_create_reach _ _ f]) (simp_all add: cg_setters_def value_bytes_def)
qed

lemma run_move_reach: "cg_reach run_move"
proof -
  have "\<not> Option.is_none (cgroup_attach_task run_limit (Some (Heap 5)) (Some 1))" by code_simp
  note f = run_step [OF this]
  have "live (tree run_limit) (Heap 5)" by (rule live_eval) code_simp
  then show ?thesis unfolding run_move_def using cg_reach.attach [OF run_limit_reach _ f] by simp
qed

lemma Some_the: "\<not> Option.is_none x \<Longrightarrow> x = Some (the x)" by (cases x) auto

theorem cgroup_reachable_consistent_witness:
  "cg_reach run_move \<and> card {t. \<exists>b. tcg (tasks run_move) t = Some b \<and> is_descendant run_move (Some b) (Heap 5) = Some True} = 1
    \<and> set (cg_tasks (the (cgroups run_move (Heap 5)))) = {1} \<and> cgroup_destroy run_move (Some (Heap 5)) \<noteq> None"
proof -
  let ?c = "the (cgroups run_move (Heap 5))"
  have "\<not> Option.is_none (cgroups run_move (Heap 5))" by code_simp
  note c = Some_the [OF this]
  have d: "\<not> dying ?c" by code_simp
  have "unat (pids_current ?c) = 1" "set (cg_tasks ?c) = {1}" by code_simp+
  then show ?thesis
    using cgroup_reachable_consistent [OF run_move_reach c d, of run_malloc None "[0]" 0 "[]"] run_move_reach
    by (simp add: malloc_ok_def run_malloc_def)
qed

text \<open>
  The restriction is needed. A handle keeps a group alive that is destroyed; a task is then attached to it,
  and dropping the handle frees the group while the task still points to it.
\<close>

definition run_destroyed :: cg_state where
  "run_destroyed = fst (the (cgroup_destroy (fst (the (cgroup_get run_create (Some (Heap 5))))) (Some (Heap 5))))"

definition run_attached :: cg_state where
  "run_attached = fst (the (cgroup_attach_task run_destroyed (Some (Heap 5)) (Some 1)))"

lemma attach_destroyed_dangles:
  "map_option snd (cgroup_attach_task run_destroyed (Some (Heap 5)) (Some 1)) = Some EOK
   \<and> map_option (\<lambda>st. (Option.is_none (cgroups st (Heap 5)), map_option task_cgroup (tasks st 1))) (cgroup_put run_attached (Some (Heap 5)))
     = Some (True, Some (Some (Heap 5)))"
  by code_simp

text \<open>
  C17: The limits on tasks hold. A new task joins the group of its parent task exactly when no group
  from there to the root has reached its limit: it is then counted once in each of these groups and nowhere
  else; otherwise the fork fails with EAGAIN and only the event counter of one such group
  changes. A task moves to another group exactly when no group that would newly count it has
  reached its limit; the groups above the target gain it and the groups above its old group lose it, and
  a refused move changes only an event counter. Writing a decimal number to \<^verbatim>\<open>pids.max\<close> stores
  exactly this number, or reports ERANGE when it does not fit 64 bits.
\<close>

theorem cgroup_pids_limited:
  assumes "cg_reach st" "tasks st t = Some x" "task_cgroup x = None" "tasks st p = Some y" "a = (case task_cgroup y of None \<Rightarrow> Root_cgroup | Some a \<Rightarrow> a)"
    and "tasks st u = Some z" "task_cgroup z = Some old" "cgroups st b = Some c" "\<not> dying c" "old \<noteq> b"
    and "cgroups st e = Some g" "\<not> dying g" "controller_available_locked st e CGROUP_CONTROLLER_PIDS = Some True"
    and "set xs \<subseteq> {32, 9}" "ds \<noteq> []" "list_all is_digit ds" "set ys \<subseteq> {32, 9, 10}"
  shows "(if \<exists>d. is_descendant st (Some a) d = Some True \<and> over_limit st d
      then \<exists>d. is_descendant st (Some a) d = Some True \<and> over_limit st d \<and> cgroup_task_fork st (Some t) (Some p) = Some (note_event d st, ERR EAGAIN)
      else \<exists>st'. cgroup_task_fork st (Some t) (Some p) = Some (st', EOK) \<and> tasks st' = (tasks st)(t \<mapsto> x\<lparr>task_cgroup := Some a, task_node := Some a\<rparr>)
        \<and> (\<forall>d. counts st' d = map_option (\<lambda>n. n + (if is_descendant st (Some a) d = Some True then 1 else 0)) (counts st d)))
    \<and> (if \<exists>d. is_descendant st (Some b) d = Some True \<and> is_descendant st (Some old) d = Some False \<and> over_limit st d
      then \<exists>d. is_descendant st (Some b) d = Some True \<and> is_descendant st (Some old) d = Some False \<and> over_limit st d
        \<and> cgroup_attach_task st (Some b) (Some u) = Some (note_event d st, ERR EAGAIN)
      else \<exists>st'. cgroup_attach_task st (Some b) (Some u) = Some (st', EOK) \<and> tasks st' = (tasks st)(u \<mapsto> z\<lparr>task_cgroup := Some b, task_node := Some b\<rparr>)
        \<and> (\<forall>d. counts st' d = map_option (\<lambda>n. n + (if is_descendant st (Some b) d = Some True then 1 else 0)
            - (if is_descendant st (Some old) d = Some True then 1 else 0)) (counts st d)))
    \<and> cgroup_set_pids_max st (Some e) (Some (xs @ ds @ ys)) (length xs + length ds + length ys)
      = Some (if digit_sum ds 0 < 2 ^ 64 then (put_cgroup st e (g\<lparr>pids_max := of_nat (digit_sum ds 0)\<rparr>), EOK) else (st, ERR ERANGE))"
proof -
  note st = reach_consistent [OF assms(1)]
  have "live (tree st) b" using assms(8,9) live_iff by blast
  from fork_outcome [OF st assms(2-5)] attach_outcome [OF st assms(6,7) this assms(10)] set_pids_max_number [OF st assms(11-17)]
  show ?thesis by (intro conjI)
qed

text \<open>In the run, the second task cannot be forked by the first any more, which can move back to the root.\<close>

theorem cgroup_pids_limited_witness:
  "(\<exists>d. cgroup_task_fork run_move (Some 2) (Some 1) = Some (note_event d run_move, ERR EAGAIN))
    \<and> (\<exists>st'. cgroup_attach_task run_move (Some Root_cgroup) (Some 1) = Some (st', EOK))
    \<and> cgroup_set_pids_max run_move (Some (Heap 5)) (Some [52, 50, 10]) 3
      = Some (put_cgroup run_move (Heap 5) ((the (cgroups run_move (Heap 5)))\<lparr>pids_max := 42\<rparr>), EOK)"
proof -
  let ?st = run_move
  have some: "\<not> Option.is_none (tasks ?st 1)" "\<not> Option.is_none (tasks ?st 2)" "\<not> Option.is_none (cgroups ?st Root_cgroup)" "\<not> Option.is_none (cgroups ?st (Heap 5))"
    by code_simp+
  note s = some [THEN Some_the]
  have x: "task_cgroup (the (tasks ?st 2)) = None" "task_cgroup (the (tasks ?st 1)) = Some (Heap 5)" by code_simp+
  have l: "\<not> dying (the (cgroups ?st Root_cgroup))" "\<not> dying (the (cgroups ?st (Heap 5)))"
    "controller_available_locked ?st (Heap 5) CGROUP_CONTROLLER_PIDS = Some True" by code_simp+
  have ex: "exhausted ?st (Heap 5) = Some True" "exhausted ?st Root_cgroup = Some False" by code_simp+
  have e: "is_descendant ?st (Some (Heap 5)) (Heap 5) = Some True" by code_simp
  have full: "over_limit ?st (Heap 5)" "\<not> over_limit ?st Root_cgroup" using ex by (simp_all add: full_iff [symmetric] full_def)
  have r: "is_descendant ?st (Some Root_cgroup) d = Some True \<longleftrightarrow> d = Root_cgroup" for d
  proof -
    have "cg_parent (the (cgroups ?st Root_cgroup)) = None" by code_simp
    then have "up (tree ?st) (Some Root_cgroup) [Root_cgroup]" using s(3) by (cases "cgroups ?st Root_cgroup") (auto simp: tree_def)
    from is_descendant_up [OF this, of d] show ?thesis by simp
  qed
  have n: "digit_sum [52, 50] 0 = 42" by code_simp
  have ds: "list_all is_digit [52, 50]" by code_simp
  note m = cgroup_pids_limited [OF run_move_reach s(2) x(1) s(1) refl s(1) x(2) s(3) l(1) _ s(4) l(2,3), of "[]" "[52, 50]" "[10]"]
  have "\<exists>d. cgroup_task_fork ?st (Some 2) (Some 1) = Some (note_event d ?st, ERR EAGAIN)"
    using m [THEN conjunct1] e full(1) ds x by (auto split: if_split_asm)
  moreover have "\<exists>st'. cgroup_attach_task ?st (Some Root_cgroup) (Some 1) = Some (st', EOK)"
    using m [THEN conjunct2, THEN conjunct1] full(2) r ds x by (auto split: if_split_asm)
  moreover have "cgroup_set_pids_max ?st (Some (Heap 5)) (Some [52, 50, 10]) 3
      = Some (put_cgroup ?st (Heap 5) ((the (cgroups ?st (Heap 5)))\<lparr>pids_max := 42\<rparr>), EOK)"
    using m [THEN conjunct2, THEN conjunct2] ds n by (simp add: numeral_3_eq_3)
  ultimately show ?thesis by blast
qed

end
