(* ===== verification/Rbtree.thy ===== *)
theory Rbtree
  imports Prelude
begin

text \<open>
  \<^verbatim>\<open>src/libs/util/rbtree.c\<close>: the red-black tree with parent pointers, a cached leftmost node and an
  augmented value per node, which the run queues of the scheduler and the waiter lists of mutexes
  use. The heap holds the nodes and the roots by address; following a null or dangling pointer is
  \<open>None\<close>, and so is a loop that does not end. The callbacks are arguments: \<open>lt\<close> compares the
  objects that contain two nodes, \<open>augment\<close> recomputes the value of a node and may be the null
  pointer.
\<close>

section \<open>Nodes and roots\<close>

datatype rb_color = RB_RED | RB_BLACK

record rb_node =
  rb_parent :: "nat option"
  rb_left :: "nat option"
  rb_right :: "nat option"
  rb_owner :: "nat option"
  rb_min_vruntime :: uint64_t
  rb_col :: rb_color

record rb_root =
  rt_root :: "nat option"
  rt_leftmost :: "nat option"

record rb_heap =
  rb_nodes :: "nat \<Rightarrow> rb_node option"
  rb_roots :: "nat \<Rightarrow> rb_root option"

type_synonym rb_less = "nat \<Rightarrow> nat \<Rightarrow> bool"
type_synonym rb_augment = "(rb_heap \<Rightarrow> nat \<Rightarrow> rb_heap option) option"

definition fld :: "rb_heap \<Rightarrow> (rb_node \<Rightarrow> 'a) \<Rightarrow> nat \<Rightarrow> 'a option" where
  "fld h f a = map_option f (rb_nodes h a)"

definition upd :: "rb_heap \<Rightarrow> nat \<Rightarrow> (rb_node \<Rightarrow> rb_node) \<Rightarrow> rb_heap option" where
  "upd h a f = map_option (\<lambda>n. h\<lparr>rb_nodes := (rb_nodes h)(a \<mapsto> f n)\<rparr>) (rb_nodes h a)"

definition upd_root :: "rb_heap \<Rightarrow> nat \<Rightarrow> (rb_root \<Rightarrow> rb_root) \<Rightarrow> rb_heap option" where
  "upd_root h r f = map_option (\<lambda>n. h\<lparr>rb_roots := (rb_roots h)(r \<mapsto> f n)\<rparr>) (rb_roots h r)"

definition set_parent :: "rb_heap \<Rightarrow> nat option \<Rightarrow> nat option \<Rightarrow> rb_heap option" where
  "set_parent h p q = (case p of None \<Rightarrow> Some h | Some a \<Rightarrow> upd h a (\<lambda>n. n\<lparr>rb_parent := q\<rparr>))"

definition set_color :: "rb_heap \<Rightarrow> nat \<Rightarrow> rb_color \<Rightarrow> rb_heap option" where
  "set_color h a c = upd h a (\<lambda>n. n\<lparr>rb_col := c\<rparr>)"

definition is_red :: "rb_heap \<Rightarrow> nat option \<Rightarrow> bool option" where
  "is_red h p = (case p of None \<Rightarrow> Some False | Some a \<Rightarrow> map_option (\<lambda>c. c = RB_RED) (fld h rb_col a))"

definition call_augment :: "rb_augment \<Rightarrow> rb_heap \<Rightarrow> nat \<Rightarrow> rb_heap option" where
  "call_augment augment h a = (case augment of None \<Rightarrow> Some h | Some f \<Rightarrow> f h a)"

section \<open>Augmentation and links\<close>

partial_function (option) augment_propagate :: "rb_heap \<Rightarrow> nat option \<Rightarrow> rb_augment \<Rightarrow> rb_heap option" where
  "augment_propagate h node augment =
     (case node of
        None \<Rightarrow> Some h
      | Some a \<Rightarrow> do { h \<leftarrow> call_augment augment h a; p \<leftarrow> fld h rb_parent a; augment_propagate h p augment })"

text \<open>The link that leads to \<open>old\<close>, in its parent or in the root, is redirected.\<close>

definition relink :: "rb_heap \<Rightarrow> nat \<Rightarrow> nat \<Rightarrow> nat option \<Rightarrow> rb_heap option" where
  "relink h root old replacement = do {
     p \<leftarrow> fld h rb_parent old;
     case p of
       None \<Rightarrow> upd_root h root (\<lambda>r. r\<lparr>rt_root := replacement\<rparr>)
     | Some q \<Rightarrow> do {
         l \<leftarrow> fld h rb_left q;
         if l = Some old then upd h q (\<lambda>n. n\<lparr>rb_left := replacement\<rparr>)
         else upd h q (\<lambda>n. n\<lparr>rb_right := replacement\<rparr>) } }"

definition rb_transplant :: "rb_heap \<Rightarrow> nat \<Rightarrow> nat \<Rightarrow> nat option \<Rightarrow> rb_heap option" where
  "rb_transplant h root old replacement = do {
     h \<leftarrow> relink h root old replacement;
     p \<leftarrow> fld h rb_parent old;
     set_parent h replacement p }"

definition rb_rotate_left :: "rb_heap \<Rightarrow> nat \<Rightarrow> nat \<Rightarrow> rb_augment \<Rightarrow> rb_heap option" where
  "rb_rotate_left h root node augment = do {
     r \<leftarrow> fld h rb_right node; right \<leftarrow> r;
     rl \<leftarrow> fld h rb_left right;
     h \<leftarrow> upd h node (\<lambda>n. n\<lparr>rb_right := rl\<rparr>);
     h \<leftarrow> set_parent h rl (Some node);
     p \<leftarrow> fld h rb_parent node;
     h \<leftarrow> upd h right (\<lambda>n. n\<lparr>rb_parent := p\<rparr>);
     h \<leftarrow> relink h root node (Some right);
     h \<leftarrow> upd h right (\<lambda>n. n\<lparr>rb_left := Some node\<rparr>);
     h \<leftarrow> upd h node (\<lambda>n. n\<lparr>rb_parent := Some right\<rparr>);
     h \<leftarrow> call_augment augment h node;
     call_augment augment h right }"

definition rb_rotate_right :: "rb_heap \<Rightarrow> nat \<Rightarrow> nat \<Rightarrow> rb_augment \<Rightarrow> rb_heap option" where
  "rb_rotate_right h root node augment = do {
     l \<leftarrow> fld h rb_left node; left \<leftarrow> l;
     lr \<leftarrow> fld h rb_right left;
     h \<leftarrow> upd h node (\<lambda>n. n\<lparr>rb_left := lr\<rparr>);
     h \<leftarrow> set_parent h lr (Some node);
     p \<leftarrow> fld h rb_parent node;
     h \<leftarrow> upd h left (\<lambda>n. n\<lparr>rb_parent := p\<rparr>);
     h \<leftarrow> relink h root node (Some left);
     h \<leftarrow> upd h left (\<lambda>n. n\<lparr>rb_right := Some node\<rparr>);
     h \<leftarrow> upd h node (\<lambda>n. n\<lparr>rb_parent := Some left\<rparr>);
     h \<leftarrow> call_augment augment h node;
     call_augment augment h left }"

section \<open>Rebalancing after insertion\<close>

text \<open>
  One round of the loop under a red parent; the result is the heap and the node of the next round.
\<close>

definition insert_round :: "rb_heap \<Rightarrow> nat \<Rightarrow> nat \<Rightarrow> nat \<Rightarrow> rb_augment \<Rightarrow> (rb_heap \<times> nat) option" where
  "insert_round h root node parent augment = do {
     g \<leftarrow> fld h rb_parent parent; grandparent \<leftarrow> g;
     gl \<leftarrow> fld h rb_left grandparent;
     if gl = Some parent then do {
       uncle \<leftarrow> fld h rb_right grandparent;
       red \<leftarrow> is_red h uncle;
       if red then do {
         h \<leftarrow> set_color h parent RB_BLACK;
         u \<leftarrow> uncle; h \<leftarrow> set_color h u RB_BLACK;
         h \<leftarrow> set_color h grandparent RB_RED;
         Some (h, grandparent) }
       else do {
         pr \<leftarrow> fld h rb_right parent;
         (h, node, parent, grandparent) \<leftarrow>
           (if pr = Some node then do {
              let node = parent;
              h \<leftarrow> rb_rotate_left h root node augment;
              p \<leftarrow> fld h rb_parent node; parent \<leftarrow> p;
              g \<leftarrow> fld h rb_parent parent; grandparent \<leftarrow> g;
              Some (h, node, parent, grandparent) }
            else Some (h, node, parent, grandparent));
         h \<leftarrow> set_color h parent RB_BLACK;
         h \<leftarrow> set_color h grandparent RB_RED;
         h \<leftarrow> rb_rotate_right h root grandparent augment;
         Some (h, node) } }
     else do {
       uncle \<leftarrow> fld h rb_left grandparent;
       red \<leftarrow> is_red h uncle;
       if red then do {
         h \<leftarrow> set_color h parent RB_BLACK;
         u \<leftarrow> uncle; h \<leftarrow> set_color h u RB_BLACK;
         h \<leftarrow> set_color h grandparent RB_RED;
         Some (h, grandparent) }
       else do {
         pl \<leftarrow> fld h rb_left parent;
         (h, node, parent, grandparent) \<leftarrow>
           (if pl = Some node then do {
              let node = parent;
              h \<leftarrow> rb_rotate_right h root node augment;
              p \<leftarrow> fld h rb_parent node; parent \<leftarrow> p;
              g \<leftarrow> fld h rb_parent parent; grandparent \<leftarrow> g;
              Some (h, node, parent, grandparent) }
            else Some (h, node, parent, grandparent));
         h \<leftarrow> set_color h parent RB_BLACK;
         h \<leftarrow> set_color h grandparent RB_RED;
         h \<leftarrow> rb_rotate_left h root grandparent augment;
         Some (h, node) } } }"

partial_function (option) insert_loop :: "rb_heap \<Rightarrow> nat \<Rightarrow> nat \<Rightarrow> rb_augment \<Rightarrow> rb_heap option" where
  "insert_loop h root node augment = do {
     p \<leftarrow> fld h rb_parent node;
     case p of
       None \<Rightarrow> Some h
     | Some parent \<Rightarrow> do {
         c \<leftarrow> fld h rb_col parent;
         if c = RB_RED then do {
           x \<leftarrow> insert_round h root node parent augment;
           insert_loop (fst x) root (snd x) augment }
         else Some h } }"

definition rb_insert_rebalance :: "rb_heap \<Rightarrow> nat \<Rightarrow> nat \<Rightarrow> rb_augment \<Rightarrow> rb_heap option" where
  "rb_insert_rebalance h root node augment = do {
     h \<leftarrow> insert_loop h root node augment;
     r \<leftarrow> rb_roots h root; a \<leftarrow> rt_root r;
     set_color h a RB_BLACK }"

section \<open>Rebalancing after removal\<close>

text \<open>One round of the loop: \<open>Inl\<close> is the node and the parent of the next round, \<open>Inr\<close> the node behind \<^verbatim>\<open>break\<close>.\<close>

definition erase_round ::
  "rb_heap \<Rightarrow> nat \<Rightarrow> nat option \<Rightarrow> nat \<Rightarrow> rb_augment \<Rightarrow> (rb_heap \<times> (nat option \<times> nat option + nat option)) option" where
  "erase_round h root node parent augment = do {
     pl \<leftarrow> fld h rb_left parent;
     if node = pl then do {
       sibling \<leftarrow> fld h rb_right parent;
       red \<leftarrow> is_red h sibling;
       (h, sibling) \<leftarrow>
         (if red then do {
            s \<leftarrow> sibling; h \<leftarrow> set_color h s RB_BLACK;
            h \<leftarrow> set_color h parent RB_RED;
            h \<leftarrow> rb_rotate_left h root parent augment;
            sibling \<leftarrow> fld h rb_right parent;
            Some (h, sibling) }
          else Some (h, sibling));
       case sibling of
         None \<Rightarrow> do { p \<leftarrow> fld h rb_parent parent; Some (h, Inl (Some parent, p)) }
       | Some s \<Rightarrow> do {
           sl \<leftarrow> fld h rb_left s; sr \<leftarrow> fld h rb_right s;
           lred \<leftarrow> is_red h sl; rred \<leftarrow> is_red h sr;
           if \<not> lred \<and> \<not> rred then do {
             h \<leftarrow> set_color h s RB_RED;
             p \<leftarrow> fld h rb_parent parent;
             Some (h, Inl (Some parent, p)) }
           else do {
             (h, s) \<leftarrow>
               (if \<not> rred then do {
                  h \<leftarrow> (case sl of None \<Rightarrow> Some h | Some a \<Rightarrow> set_color h a RB_BLACK);
                  h \<leftarrow> set_color h s RB_RED;
                  h \<leftarrow> rb_rotate_right h root s augment;
                  sibling \<leftarrow> fld h rb_right parent; s \<leftarrow> sibling;
                  Some (h, s) }
                else Some (h, s));
             c \<leftarrow> fld h rb_col parent;
             h \<leftarrow> set_color h s c;
             h \<leftarrow> set_color h parent RB_BLACK;
             sr \<leftarrow> fld h rb_right s;
             h \<leftarrow> (case sr of None \<Rightarrow> Some h | Some a \<Rightarrow> set_color h a RB_BLACK);
             h \<leftarrow> rb_rotate_left h root parent augment;
             r \<leftarrow> rb_roots h root;
             Some (h, Inr (rt_root r)) } } }
     else do {
       sibling \<leftarrow> fld h rb_left parent;
       red \<leftarrow> is_red h sibling;
       (h, sibling) \<leftarrow>
         (if red then do {
            s \<leftarrow> sibling; h \<leftarrow> set_color h s RB_BLACK;
            h \<leftarrow> set_color h parent RB_RED;
            h \<leftarrow> rb_rotate_right h root parent augment;
            sibling \<leftarrow> fld h rb_left parent;
            Some (h, sibling) }
          else Some (h, sibling));
       case sibling of
         None \<Rightarrow> do { p \<leftarrow> fld h rb_parent parent; Some (h, Inl (Some parent, p)) }
       | Some s \<Rightarrow> do {
           sl \<leftarrow> fld h rb_left s; sr \<leftarrow> fld h rb_right s;
           lred \<leftarrow> is_red h sl; rred \<leftarrow> is_red h sr;
           if \<not> lred \<and> \<not> rred then do {
             h \<leftarrow> set_color h s RB_RED;
             p \<leftarrow> fld h rb_parent parent;
             Some (h, Inl (Some parent, p)) }
           else do {
             (h, s) \<leftarrow>
               (if \<not> lred then do {
                  h \<leftarrow> (case sr of None \<Rightarrow> Some h | Some a \<Rightarrow> set_color h a RB_BLACK);
                  h \<leftarrow> set_color h s RB_RED;
                  h \<leftarrow> rb_rotate_left h root s augment;
                  sibling \<leftarrow> fld h rb_left parent; s \<leftarrow> sibling;
                  Some (h, s) }
                else Some (h, s));
             c \<leftarrow> fld h rb_col parent;
             h \<leftarrow> set_color h s c;
             h \<leftarrow> set_color h parent RB_BLACK;
             sl \<leftarrow> fld h rb_left s;
             h \<leftarrow> (case sl of None \<Rightarrow> Some h | Some a \<Rightarrow> set_color h a RB_BLACK);
             h \<leftarrow> rb_rotate_right h root parent augment;
             r \<leftarrow> rb_roots h root;
             Some (h, Inr (rt_root r)) } } } }"

partial_function (option) erase_loop :: "rb_heap \<Rightarrow> nat \<Rightarrow> nat option \<Rightarrow> nat option \<Rightarrow> rb_augment \<Rightarrow> (rb_heap \<times> nat option) option" where
  "erase_loop h root node parent augment = do {
     red \<leftarrow> is_red h node;
     r \<leftarrow> rb_roots h root;
     if \<not> red \<and> node \<noteq> rt_root r then
       (case parent of
          None \<Rightarrow> Some (h, node)
        | Some p \<Rightarrow> do {
            x \<leftarrow> erase_round h root node p augment;
            case snd x of
              Inl y \<Rightarrow> erase_loop (fst x) root (fst y) (snd y) augment
            | Inr node \<Rightarrow> Some (fst x, node) })
     else Some (h, node) }"

definition rb_erase_rebalance :: "rb_heap \<Rightarrow> nat \<Rightarrow> nat option \<Rightarrow> nat option \<Rightarrow> rb_augment \<Rightarrow> rb_heap option" where
  "rb_erase_rebalance h root node parent augment = do {
     (h, node) \<leftarrow> erase_loop h root node parent augment;
     case node of None \<Rightarrow> Some h | Some a \<Rightarrow> set_color h a RB_BLACK }"

section \<open>Queries\<close>

partial_function (option) rb_subtree_min :: "rb_heap \<Rightarrow> nat \<Rightarrow> nat option" where
  "rb_subtree_min h node = do { l \<leftarrow> fld h rb_left node; case l of None \<Rightarrow> Some node | Some a \<Rightarrow> rb_subtree_min h a }"

definition rb_init_root :: "rb_heap \<Rightarrow> nat option \<Rightarrow> rb_heap option" where
  "rb_init_root h root = (case root of None \<Rightarrow> Some h | Some r \<Rightarrow> upd_root h r (\<lambda>_. \<lparr>rt_root = None, rt_leftmost = None\<rparr>))"

definition rb_init_node :: "rb_heap \<Rightarrow> nat option \<Rightarrow> rb_heap option" where
  "rb_init_node h node = (case node of None \<Rightarrow> Some h | Some a \<Rightarrow> upd h a (\<lambda>_.
     \<lparr>rb_parent = None, rb_left = None, rb_right = None, rb_owner = None, rb_min_vruntime = 0, rb_col = RB_BLACK\<rparr>))"

definition rb_is_linked :: "rb_heap \<Rightarrow> nat option \<Rightarrow> bool option" where
  "rb_is_linked h node = (case node of None \<Rightarrow> Some False | Some a \<Rightarrow> map_option (\<lambda>q. q \<noteq> None) (fld h rb_owner a))"

definition rb_first :: "rb_heap \<Rightarrow> nat option \<Rightarrow> nat option option" where
  "rb_first h root = (case root of None \<Rightarrow> Some None | Some r \<Rightarrow> map_option rt_leftmost (rb_roots h r))"

partial_function (option) next_up :: "rb_heap \<Rightarrow> nat \<Rightarrow> nat option \<Rightarrow> nat option option" where
  "next_up h node parent =
     (case parent of
        None \<Rightarrow> Some None
      | Some p \<Rightarrow> do {
          r \<leftarrow> fld h rb_right p;
          if r = Some node then do { q \<leftarrow> fld h rb_parent p; next_up h p q } else Some parent })"

definition rb_next :: "rb_heap \<Rightarrow> nat option \<Rightarrow> nat option option" where
  "rb_next h node =
     (case node of
        None \<Rightarrow> Some None
      | Some a \<Rightarrow> do {
          n \<leftarrow> rb_nodes h a;
          if rb_owner n = None then Some None
          else case rb_right n of
                 Some r \<Rightarrow> map_option Some (rb_subtree_min h r)
               | None \<Rightarrow> next_up h a (rb_parent n) })"

definition rb_is_empty :: "rb_heap \<Rightarrow> nat option \<Rightarrow> bool option" where
  "rb_is_empty h root = (case root of None \<Rightarrow> Some True | Some r \<Rightarrow> map_option (\<lambda>r. rt_root r = None) (rb_roots h r))"

section \<open>Insertion\<close>

text \<open>The variable \<^verbatim>\<open>link\<close> points to one of the pointers of the tree.\<close>

datatype rb_link = Link_root | Link_left nat | Link_right nat

definition read_link :: "rb_heap \<Rightarrow> nat \<Rightarrow> rb_link \<Rightarrow> nat option option" where
  "read_link h root k =
     (case k of Link_root \<Rightarrow> map_option rt_root (rb_roots h root) | Link_left a \<Rightarrow> fld h rb_left a | Link_right a \<Rightarrow> fld h rb_right a)"

definition write_link :: "rb_heap \<Rightarrow> nat \<Rightarrow> rb_link \<Rightarrow> nat \<Rightarrow> rb_heap option" where
  "write_link h root k node =
     (case k of
        Link_root \<Rightarrow> upd_root h root (\<lambda>r. r\<lparr>rt_root := Some node\<rparr>)
      | Link_left a \<Rightarrow> upd h a (\<lambda>n. n\<lparr>rb_left := Some node\<rparr>)
      | Link_right a \<Rightarrow> upd h a (\<lambda>n. n\<lparr>rb_right := Some node\<rparr>))"

partial_function (option) find_link ::
  "rb_heap \<Rightarrow> nat \<Rightarrow> rb_less \<Rightarrow> nat \<Rightarrow> rb_link \<Rightarrow> nat option \<Rightarrow> bool \<Rightarrow> (rb_link \<times> nat option \<times> bool) option" where
  "find_link h root lt node k parent leftmost = do {
     p \<leftarrow> read_link h root k;
     case p of
       None \<Rightarrow> Some (k, parent, leftmost)
     | Some a \<Rightarrow>
         if lt node a then find_link h root lt node (Link_left a) (Some a) leftmost
         else find_link h root lt node (Link_right a) (Some a) False }"

text \<open>\<open>lt\<close> is \<open>None\<close> for the null pointer; the result is the number the function returns.\<close>

definition rb_insert_augmented ::
  "rb_heap \<Rightarrow> nat option \<Rightarrow> nat option \<Rightarrow> rb_less option \<Rightarrow> rb_augment \<Rightarrow> (rb_heap \<times> nat) option" where
  "rb_insert_augmented h root node lt augment =
     (case (root, node, lt) of
        (Some root, Some node, Some lt) \<Rightarrow> do {
          owner \<leftarrow> fld h rb_owner node;
          if owner \<noteq> None then Some (h, 1)
          else do {
            (link, parent, leftmost) \<leftarrow> find_link h root lt node Link_root None True;
            h \<leftarrow> upd h node (\<lambda>_. \<lparr>rb_parent = parent, rb_left = None, rb_right = None, rb_owner = Some root,
              rb_min_vruntime = 0, rb_col = RB_RED\<rparr>);
            h \<leftarrow> write_link h root link node;
            h \<leftarrow> (if leftmost then upd_root h root (\<lambda>r. r\<lparr>rt_leftmost := Some node\<rparr>) else Some h);
            h \<leftarrow> call_augment augment h node;
            h \<leftarrow> rb_insert_rebalance h root node augment;
            h \<leftarrow> (if augment \<noteq> None then augment_propagate h (Some node) augment else Some h);
            Some (h, 0) } }
      | _ \<Rightarrow> Some (h, 1))"

section \<open>Removal\<close>

text \<open>
  The node is unlinked; the result is the child that takes the free place, the parent of this place
  and the colour that is lost.
\<close>

definition erase_unlink ::
  "rb_heap \<Rightarrow> nat \<Rightarrow> nat \<Rightarrow> (rb_heap \<times> nat option \<times> nat option \<times> rb_color) option" where
  "erase_unlink h root node = do {
     n \<leftarrow> rb_nodes h node;
     if rb_left n = None then do {
       h \<leftarrow> rb_transplant h root node (rb_right n);
       Some (h, rb_right n, rb_parent n, rb_col n) }
     else if rb_right n = None then do {
       h \<leftarrow> rb_transplant h root node (rb_left n);
       Some (h, rb_left n, rb_parent n, rb_col n) }
     else do {
       r \<leftarrow> rb_right n;
       successor \<leftarrow> rb_subtree_min h r;
       s \<leftarrow> rb_nodes h successor;
       let child = rb_right s;
       (h, parent) \<leftarrow>
         (if rb_parent s = Some node then do {
            h \<leftarrow> set_parent h child (Some successor);
            Some (h, Some successor) }
          else do {
            h \<leftarrow> rb_transplant h root successor child;
            nr \<leftarrow> fld h rb_right node;
            h \<leftarrow> upd h successor (\<lambda>s. s\<lparr>rb_right := nr\<rparr>);
            b \<leftarrow> nr; h \<leftarrow> set_parent h (Some b) (Some successor);
            Some (h, rb_parent s) });
       h \<leftarrow> rb_transplant h root node (Some successor);
       nl \<leftarrow> fld h rb_left node;
       h \<leftarrow> upd h successor (\<lambda>s. s\<lparr>rb_left := nl\<rparr>);
       b \<leftarrow> nl; h \<leftarrow> set_parent h (Some b) (Some successor);
       c \<leftarrow> fld h rb_col node;
       h \<leftarrow> set_color h successor c;
       Some (h, child, parent, rb_col s) } }"

definition rb_erase_augmented :: "rb_heap \<Rightarrow> nat option \<Rightarrow> nat option \<Rightarrow> rb_augment \<Rightarrow> (rb_heap \<times> nat) option" where
  "rb_erase_augmented h root node augment =
     (case (root, node) of
        (Some root, Some node) \<Rightarrow> do {
          owner \<leftarrow> fld h rb_owner node;
          if owner \<noteq> Some root then Some (h, 1)
          else do {
            r \<leftarrow> rb_roots h root;
            if rt_root r = None then Some (h, 1)
            else do {
              h \<leftarrow> (if rt_leftmost r = Some node then do {
                      m \<leftarrow> rb_next h (Some node);
                      upd_root h root (\<lambda>r. r\<lparr>rt_leftmost := m\<rparr>) }
                    else Some h);
              (h, child, parent, removed_color) \<leftarrow> erase_unlink h root node;
              h \<leftarrow> (if augment \<noteq> None then augment_propagate h parent augment else Some h);
              h \<leftarrow> (if removed_color = RB_BLACK then rb_erase_rebalance h root child parent augment else Some h);
              h \<leftarrow> rb_init_node h (Some node);
              r \<leftarrow> rb_roots h root;
              h \<leftarrow> (if rt_root r = None then upd_root h root (\<lambda>r. r\<lparr>rt_leftmost := None\<rparr>) else Some h);
              Some (h, 0) } } }
      | _ \<Rightarrow> Some (h, 1))"

end
