(* ===== verification/Rbtree_Shape.thy ===== *)
theory Rbtree_Shape
  imports Rbtree
begin

text \<open>
  Trees in the heap: the tree a root pointer leads to, positions in it as a subtree and the path of
  frames above it, and what the link changes of \<^verbatim>\<open>rbtree.c\<close> do to them. Left and right are treated at
  once: a side is an argument of the tree constructor, of the fields and of the rotation.
\<close>

section \<open>Trees and positions\<close>

datatype side = SL | SR

fun opp :: "side \<Rightarrow> side" where
  "opp SL = SR"
| "opp SR = SL"

lemma opp_opp [simp]: "opp (opp s) = s" by (cases s) auto
lemma opp_neq [simp]: "opp s \<noteq> s" "s \<noteq> opp s" by (cases s; simp)+

datatype rbt = Lf | Nd rb_color rbt nat rbt

fun adr :: "rbt \<Rightarrow> nat list" where
  "adr Lf = []"
| "adr (Nd c l a r) = adr l @ a # adr r"

fun ptr :: "rbt \<Rightarrow> nat option" where
  "ptr Lf = None"
| "ptr (Nd c l a r) = Some a"

fun col :: "rbt \<Rightarrow> rb_color" where
  "col Lf = RB_BLACK"
| "col (Nd c l a r) = c"

text \<open>\<open>x\<close> is the subtree on side \<open>s\<close>.\<close>

definition mk :: "side \<Rightarrow> rb_color \<Rightarrow> rbt \<Rightarrow> nat \<Rightarrow> rbt \<Rightarrow> rbt" where
  "mk s c x a y = (case s of SL \<Rightarrow> Nd c x a y | SR \<Rightarrow> Nd c y a x)"

lemma mk_simps [simp]: "ptr (mk s c x a y) = Some a" "col (mk s c x a y) = c" "mk s c x a y \<noteq> Lf" "Lf \<noteq> mk s c x a y"
  by (cases s; simp add: mk_def)+

lemma mk_opp: "mk (opp s) c x a y = mk s c y a x" by (cases s) (simp_all add: mk_def)

lemma set_adr_mk [simp]: "set (adr (mk s c x a y)) = insert a (set (adr x) \<union> set (adr y))"
  by (cases s) (auto simp: mk_def)

lemma distinct_adr_mk: "distinct (adr (mk s c x a y)) \<longleftrightarrow> a \<notin> set (adr x) \<and> a \<notin> set (adr y) \<and> distinct (adr x) \<and> distinct (adr y) \<and> set (adr x) \<inter> set (adr y) = {}"
  by (cases s) (auto simp: mk_def)

lemma Nd_mk: "t \<noteq> Lf \<Longrightarrow> \<exists>c x a y. t = mk s c x a y"
  by (cases t; cases s) (auto simp: mk_def)

lemma Nd_mk_SL: "Nd c l a r = mk SL c l a r" by (simp add: mk_def)

lemma ptr_adr: "ptr t = Some a \<Longrightarrow> a \<in> set (adr t)" by (cases t) auto
lemma ptr_None [simp]: "ptr t = None \<longleftrightarrow> t = Lf" by (cases t) auto

type_synonym frame = "side \<times> rb_color \<times> nat \<times> rbt"

fun plug :: "rbt \<Rightarrow> frame list \<Rightarrow> rbt" where
  "plug t [] = t"
| "plug t ((s, c, a, y) # k) = plug (mk s c t a y) k"

fun par :: "frame list \<Rightarrow> nat option" where
  "par [] = None"
| "par ((s, c, a, y) # k) = Some a"

fun cadr :: "frame list \<Rightarrow> nat set" where
  "cadr [] = {}"
| "cadr ((s, c, a, y) # k) = insert a (set (adr y) \<union> cadr k)"

lemma set_adr_plug [simp]: "set (adr (plug t k)) = set (adr t) \<union> cadr k"
  by (induction k arbitrary: t rule: cadr.induct) auto

fun cdistinct :: "frame list \<Rightarrow> bool" where
  "cdistinct [] = True"
| "cdistinct ((s, c, a, y) # k) \<longleftrightarrow> a \<notin> set (adr y) \<and> distinct (adr y) \<and> insert a (set (adr y)) \<inter> cadr k = {} \<and> cdistinct k"

lemma distinct_plug: "distinct (adr (plug t k)) \<longleftrightarrow> distinct (adr t) \<and> cdistinct k \<and> set (adr t) \<inter> cadr k = {}"
  by (induction k arbitrary: t rule: cdistinct.induct) (auto simp: distinct_adr_mk)

lemma plug_append: "plug t (k @ k') = plug (plug t k) k'"
  by (induction k arbitrary: t rule: cdistinct.induct) auto

lemma par_cadr: "par k = Some a \<Longrightarrow> a \<in> cadr k" by (cases k rule: par.cases) auto

section \<open>Trees in the heap\<close>

type_synonym cell = "nat option \<times> nat option \<times> nat option \<times> rb_color"

definition cells :: "rb_heap \<Rightarrow> nat \<Rightarrow> cell option" where
  "cells h a = map_option (\<lambda>n. (rb_parent n, rb_left n, rb_right n, rb_col n)) (rb_nodes h a)"

definition rootptr :: "rb_heap \<Rightarrow> nat \<Rightarrow> nat option option" where
  "rootptr h root = map_option rt_root (rb_roots h root)"

definition mkc :: "side \<Rightarrow> nat option \<Rightarrow> rb_color \<Rightarrow> nat option \<Rightarrow> nat option \<Rightarrow> cell" where
  "mkc s q c x y = (case s of SL \<Rightarrow> (q, x, y, c) | SR \<Rightarrow> (q, y, x, c))"

lemma mkc_eq [simp]: "mkc s q c x y = mkc s q' c' x' y' \<longleftrightarrow> q = q' \<and> c = c' \<and> x = x' \<and> y = y'"
  by (cases s) (auto simp: mkc_def)

lemma mkc_opp: "mkc (opp s) q c x y = mkc s q c y x" by (cases s) (simp_all add: mkc_def)

fun shape :: "(nat \<Rightarrow> cell option) \<Rightarrow> nat option \<Rightarrow> rbt \<Rightarrow> bool" where
  "shape C q Lf = True"
| "shape C q (Nd c l a r) \<longleftrightarrow> C a = Some (q, ptr l, ptr r, c) \<and> shape C (Some a) l \<and> shape C (Some a) r"

lemma shape_mk [simp]: "shape C q (mk s c x a y) \<longleftrightarrow> C a = Some (mkc s q c (ptr x) (ptr y)) \<and> shape C (Some a) x \<and> shape C (Some a) y"
  by (cases s) (auto simp: mk_def mkc_def)

lemma shape_cong: "(\<And>a. a \<in> set (adr t) \<Longrightarrow> C' a = C a) \<Longrightarrow> shape C' q t = shape C q t"
  by (induction t arbitrary: q) auto

fun cshape :: "(nat \<Rightarrow> cell option) \<Rightarrow> nat option option \<Rightarrow> nat option \<Rightarrow> frame list \<Rightarrow> bool" where
  "cshape C R p [] \<longleftrightarrow> R = Some p"
| "cshape C R p ((s, c, a, y) # k) \<longleftrightarrow> C a = Some (mkc s (par k) c p (ptr y)) \<and> shape C (Some a) y \<and> cshape C R (Some a) k"

lemma cshape_cong: "(\<And>a. a \<in> cadr k \<Longrightarrow> C' a = C a) \<Longrightarrow> cshape C' R p k = cshape C R p k"
proof (induction C R p k rule: cshape.induct)
  case (2 C R p s c a y k)
  have "shape C' (Some a) y = shape C (Some a) y" by (rule shape_cong) (use "2.prems" in auto)
  then show ?case using 2 by auto
qed simp

lemma shape_upd [simp]: "a \<notin> set (adr t) \<Longrightarrow> shape (C(a := z)) q t = shape C q t"
  by (rule shape_cong) auto

lemma cshape_upd [simp]: "a \<notin> cadr k \<Longrightarrow> cshape (C(a := z)) R p k = cshape C R p k"
  by (rule cshape_cong) auto

text \<open>The tree \<open>t\<close> stands in the heap below the path \<open>k\<close>.\<close>

definition rep :: "rb_heap \<Rightarrow> nat \<Rightarrow> rbt \<Rightarrow> frame list \<Rightarrow> bool" where
  "rep h root t k \<longleftrightarrow> shape (cells h) (par k) t \<and> cshape (cells h) (rootptr h root) (ptr t) k \<and> distinct (adr (plug t k))"

lemma rep_move: "rep h root t ((s, c, a, y) # k) \<longleftrightarrow> rep h root (mk s c t a y) k"
  by (auto simp: rep_def)

lemma rep_plug: "rep h root t k \<longleftrightarrow> rep h root (plug t k) []"
proof (induction k arbitrary: t)
  case (Cons f k)
  obtain s c a y where "f = (s, c, a, y)" by (cases f)
  then show ?case using Cons [of "mk s c t a y"] by (simp add: rep_move)
qed simp

lemma rep_cell: "rep h root (mk s c x a y) k \<Longrightarrow> cells h a = Some (mkc s (par k) c (ptr x) (ptr y))"
  by (simp add: rep_def)

section \<open>Fields\<close>

definition fch :: "side \<Rightarrow> rb_node \<Rightarrow> nat option" where
  "fch s = (case s of SL \<Rightarrow> rb_left | SR \<Rightarrow> rb_right)"

definition sch :: "side \<Rightarrow> nat option \<Rightarrow> rb_node \<Rightarrow> rb_node" where
  "sch s p n = (case s of SL \<Rightarrow> n\<lparr>rb_left := p\<rparr> | SR \<Rightarrow> n\<lparr>rb_right := p\<rparr>)"

lemma fld_cell:
  assumes "cells h a = Some (mkc s q c x y)"
  shows "fld h rb_parent a = Some q" "fld h rb_col a = Some c" "fld h (fch s) a = Some x" "fld h (fch (opp s)) a = Some y"
  using assms by (auto simp: cells_def fld_def mkc_def fch_def split: side.splits)

text \<open>What an operation leaves alone: nodes outside of \<open>S\<close>, owners, other roots and the leftmost pointer.\<close>

definition step :: "nat \<Rightarrow> nat set \<Rightarrow> rb_heap \<Rightarrow> rb_heap \<Rightarrow> bool" where
  "step root S h h' \<longleftrightarrow> (\<forall>b. b \<notin> S \<longrightarrow> rb_nodes h' b = rb_nodes h b)
     \<and> (\<forall>b. map_option rb_owner (rb_nodes h' b) = map_option rb_owner (rb_nodes h b))
     \<and> (\<forall>r. r \<noteq> root \<longrightarrow> rb_roots h' r = rb_roots h r)
     \<and> map_option rt_leftmost (rb_roots h' root) = map_option rt_leftmost (rb_roots h root)"

lemma step_refl [simp]: "step root S h h" by (simp add: step_def)

lemma step_trans [trans]: "step root S h h' \<Longrightarrow> step root S h' h'' \<Longrightarrow> step root S h h''"
  by (simp add: step_def)

text \<open>The links and colours change to \<open>C\<close> and the root pointer to \<open>R\<close>, the augmented values stay.\<close>

definition links :: "rb_heap \<Rightarrow> nat \<Rightarrow> nat set \<Rightarrow> (nat \<Rightarrow> cell option) \<Rightarrow> nat option option \<Rightarrow> rb_heap \<Rightarrow> bool" where
  "links h root S C R h' \<longleftrightarrow> step root S h h' \<and> cells h' = C \<and> rootptr h' root = R
     \<and> (\<forall>b. fld h' rb_min_vruntime b = fld h rb_min_vruntime b)"

lemma links_refl: "links h root S (cells h) (rootptr h root) h" by (simp add: links_def)

lemma links_trans: "links h root S C R h' \<Longrightarrow> links h' root S C' R' h'' \<Longrightarrow> links h root S C' R' h''"
  by (auto simp: links_def intro: step_trans)

lemma upd_links:
  assumes "cells h a = Some z" "a \<in> S"
    and f: "\<And>n. rb_owner (f n) = rb_owner n \<and> rb_min_vruntime (f n) = rb_min_vruntime n"
    and g: "\<And>n. (rb_parent (f n), rb_left (f n), rb_right (f n), rb_col (f n)) = g (rb_parent n, rb_left n, rb_right n, rb_col n)"
  shows "\<exists>h'. upd h a f = Some h' \<and> links h root S ((cells h)(a \<mapsto> g z)) (rootptr h root) h'"
  using assms by (auto simp: upd_def links_def step_def cells_def rootptr_def fld_def fun_eq_iff)

lemma upd_parent_links:
  assumes "cells h a = Some (mkc s q c x y)" "a \<in> S"
  shows "\<exists>h'. upd h a (\<lambda>n. n\<lparr>rb_parent := q'\<rparr>) = Some h' \<and> links h root S ((cells h)(a \<mapsto> mkc s q' c x y)) (rootptr h root) h'"
  using upd_links [OF assms, where f = "\<lambda>n. n\<lparr>rb_parent := q'\<rparr>" and g = "\<lambda>(q, z). (q', z)" and root = root]
  by (cases s) (auto simp: mkc_def)

lemma upd_child_links:
  assumes "cells h a = Some (mkc s q c x y)" "a \<in> S"
  shows "\<exists>h'. upd h a (sch s x') = Some h' \<and> links h root S ((cells h)(a \<mapsto> mkc s q c x' y)) (rootptr h root) h'"
  using upd_links [OF assms, where f = "sch s x'" and g = "\<lambda>(q, l, r, c). case s of SL \<Rightarrow> (q, x', r, c) | SR \<Rightarrow> (q, l, x', c)" and root = root]
  by (cases s) (auto simp: mkc_def sch_def)

lemma set_color_links:
  assumes "cells h a = Some (mkc s q c x y)" "a \<in> S"
  shows "\<exists>h'. set_color h a c' = Some h' \<and> links h root S ((cells h)(a \<mapsto> mkc s q c' x y)) (rootptr h root) h'"
  using upd_links [OF assms, where f = "\<lambda>n. n\<lparr>rb_col := c'\<rparr>" and g = "\<lambda>(q, l, r, c). (q, l, r, c')" and root = root]
  by (cases s) (auto simp: mkc_def set_color_def)

section \<open>Link changes\<close>

fun reparent :: "(nat \<Rightarrow> cell option) \<Rightarrow> rbt \<Rightarrow> nat option \<Rightarrow> nat \<Rightarrow> cell option" where
  "reparent C Lf q = C"
| "reparent C (Nd c l a r) q = C(a \<mapsto> (q, ptr l, ptr r, c))"

lemma reparent_other [simp]: "ptr t \<noteq> Some b \<Longrightarrow> reparent C t q b = C b" by (cases t) auto

lemma reparent_out [simp]: "b \<notin> set (adr t) \<Longrightarrow> reparent C t q b = C b" by (cases t) auto

lemma shape_reparent: "shape C q t \<Longrightarrow> distinct (adr t) \<Longrightarrow> shape (reparent C t q') q' t"
proof (cases t)
  case (Nd c l a r)
  assume "shape C q t" "distinct (adr t)"
  then show ?thesis using Nd by simp
qed simp

lemma shape_reparent_other: "set (adr t) \<inter> set (adr u) = {} \<Longrightarrow> shape (reparent C u q') q t = shape C q t"
  by (rule shape_cong, rule reparent_other) (auto dest: ptr_adr)

lemma cshape_reparent [simp]: "set (adr t) \<inter> cadr k = {} \<Longrightarrow> cshape (reparent C t q) R p k = cshape C R p k"
  by (rule cshape_cong, rule reparent_out) auto

lemma set_parent_links:
  assumes "shape (cells h) q t" "set (adr t) \<subseteq> S"
  shows "\<exists>h'. set_parent h (ptr t) q' = Some h' \<and> links h root S (reparent (cells h) t q') (rootptr h root) h'"
proof (cases t)
  case (Nd c l a r)
  then show ?thesis using upd_parent_links [of h a SL q c "ptr l" "ptr r" S q' root] assms by (auto simp: set_parent_def mkc_def)
qed (use links_refl in \<open>auto simp: set_parent_def\<close>)

fun rehang :: "(nat \<Rightarrow> cell option) \<Rightarrow> frame list \<Rightarrow> nat option \<Rightarrow> nat \<Rightarrow> cell option" where
  "rehang C [] p = C"
| "rehang C ((s, c, a, y) # k) p = C(a \<mapsto> mkc s (par k) c p (ptr y))"

lemma rehang_other [simp]: "par k \<noteq> Some b \<Longrightarrow> rehang C k p b = C b" by (cases k rule: par.cases) auto

lemma rehang_out [simp]: "b \<notin> cadr k \<Longrightarrow> rehang C k p b = C b" by (cases k rule: par.cases) auto

lemma cshape_rehang:
  assumes "cshape C R q k" "cdistinct k"
  shows "cshape (rehang C k p) (if k = [] then Some p else R) p k"
proof (cases k rule: par.cases)
  case (2 s c a y k')
  then show ?thesis using assms by simp
qed simp

lemma shape_rehang: "set (adr t) \<inter> cadr k = {} \<Longrightarrow> shape (rehang C k p) q t = shape C q t"
  by (rule shape_cong, rule rehang_other) (auto dest: par_cadr)

lemma relink_links:
  assumes c: "cshape (cells h) (rootptr h root) (Some a) k" and p: "fld h rb_parent a = Some (par k)" and S: "cadr k \<subseteq> S" "a \<notin> cadr k"
  shows "\<exists>h'. relink h root a q = Some h' \<and> links h root S (rehang (cells h) k q) (if k = [] then Some q else rootptr h root) h'"
proof (cases k rule: par.cases)
  case 1
  then show ?thesis using c p by (auto simp: relink_def upd_root_def links_def step_def cells_def rootptr_def fld_def fun_eq_iff)
next
  case (2 s d x y k')
  have x: "cells h x = Some (mkc s (par k') d (Some a) (ptr y))" "x \<in> S" using c S 2 by auto
  have "ptr y \<noteq> Some a" using S(2) 2 ptr_adr by auto
  then have "fld h rb_left x = Some (Some a) \<longleftrightarrow> s = SL" "\<exists>l. fld h rb_left x = Some l"
    using x(1) by (auto simp: mkc_def cells_def fld_def split: side.splits)
  moreover have "(\<lambda>n. n\<lparr>rb_left := q\<rparr>) = sch SL q" "(\<lambda>n. n\<lparr>rb_right := q\<rparr>) = sch SR q" by (simp_all add: sch_def fun_eq_iff)
  ultimately have "relink h root a q = upd h x (sch s q)" using p 2 by (cases s) (auto simp: relink_def)
  then show ?thesis using upd_child_links [OF x, of q root] 2 by simp
qed

section \<open>Rotation\<close>

definition rot_core :: "side \<Rightarrow> rb_heap \<Rightarrow> nat \<Rightarrow> nat \<Rightarrow> (rb_heap \<times> nat) option" where
  "rot_core s h root node = do {
     r \<leftarrow> fld h (fch (opp s)) node; b \<leftarrow> r;
     rl \<leftarrow> fld h (fch s) b;
     h \<leftarrow> upd h node (sch (opp s) rl);
     h \<leftarrow> set_parent h rl (Some node);
     p \<leftarrow> fld h rb_parent node;
     h \<leftarrow> upd h b (\<lambda>n. n\<lparr>rb_parent := p\<rparr>);
     h \<leftarrow> relink h root node (Some b);
     h \<leftarrow> upd h b (sch s (Some node));
     h \<leftarrow> upd h node (\<lambda>n. n\<lparr>rb_parent := Some b\<rparr>);
     Some (h, b) }"

definition rot :: "side \<Rightarrow> rb_heap \<Rightarrow> nat \<Rightarrow> nat \<Rightarrow> rb_augment \<Rightarrow> rb_heap option" where
  "rot s h root node augment = do {
     x \<leftarrow> rot_core s h root node;
     h \<leftarrow> call_augment augment (fst x) node;
     call_augment augment h (snd x) }"

lemma rotate_rot: "rb_rotate_left = rot SL" "rb_rotate_right = rot SR"
proof -
  have sch: "sch SL p = (\<lambda>n. n\<lparr>rb_left := p\<rparr>)" "sch SR p = (\<lambda>n. n\<lparr>rb_right := p\<rparr>)" for p by (auto simp: sch_def fun_eq_iff)
  show "rb_rotate_left = rot SL" "rb_rotate_right = rot SR"
    by (intro ext; simp add: sch rb_rotate_left_def rb_rotate_right_def rot_def rot_core_def fch_def Option.bind_assoc)+
qed

lemma rot_core_rep:
  assumes rep: "rep h root (mk s c A a (mk s d B b D)) k" and S: "set (adr (plug (mk s c A a (mk s d B b D)) k)) \<subseteq> S"
  shows "\<exists>h'. rot_core s h root a = Some (h', b) \<and> rep h' root (mk s d (mk s c A a B) b D) k \<and> step root S h h'
    \<and> (\<forall>x. fld h' rb_min_vruntime x = fld h rb_min_vruntime x)"
proof -
  let ?C = "cells h" and ?R = "rootptr h root"
  have dist: "a \<notin> set (adr A)" "a \<notin> set (adr B)" "a \<notin> set (adr D)" "a \<noteq> b" "b \<notin> set (adr A)" "b \<notin> set (adr B)" "b \<notin> set (adr D)"
    "distinct (adr A)" "distinct (adr B)" "distinct (adr D)" "set (adr A) \<inter> set (adr B) = {}" "set (adr A) \<inter> set (adr D) = {}" "set (adr B) \<inter> set (adr D) = {}"
    "a \<notin> cadr k" "b \<notin> cadr k" "set (adr A) \<inter> cadr k = {}" "set (adr B) \<inter> cadr k = {}" "set (adr D) \<inter> cadr k = {}" "cdistinct k"
    using rep by (auto simp: rep_def distinct_plug distinct_adr_mk)
  have S': "a \<in> S" "b \<in> S" "set (adr B) \<subseteq> S" "cadr k \<subseteq> S" using S by auto
  have Ca: "?C a = Some (mkc s (par k) c (ptr A) (Some b))" and Cb: "?C b = Some (mkc s (Some a) d (ptr B) (ptr D))"
    and sh: "shape ?C (Some a) A" "shape ?C (Some b) B" "shape ?C (Some b) D" and cs: "cshape ?C ?R (Some a) k"
    using rep by (auto simp: rep_def)
  define C1 where "C1 = ?C(a \<mapsto> mkc s (par k) c (ptr A) (ptr B))"
  obtain h1 where h1: "upd h a (sch (opp s) (ptr B)) = Some h1" "links h root S C1 ?R h1"
    using upd_child_links [of h a "opp s" "par k" c "Some b" "ptr A" S "ptr B" root] Ca S' by (auto simp: mkc_opp C1_def)
  define C2 where "C2 = reparent C1 B (Some a)"
  obtain h2 where h2: "set_parent h1 (ptr B) (Some a) = Some h2" "links h1 root S C2 ?R h2"
    using set_parent_links [of h1 "Some b" B S "Some a" root] h1(2) sh(2) dist S'(3) by (auto simp: links_def C1_def C2_def)
  have C2: "C2 a = Some (mkc s (par k) c (ptr A) (ptr B))" "C2 b = Some (mkc s (Some a) d (ptr B) (ptr D))"
    using dist Cb by (auto simp: C2_def C1_def dest: ptr_adr)
  define C3 where "C3 = C2(b \<mapsto> mkc s (par k) d (ptr B) (ptr D))"
  obtain h3 where h3: "upd h2 b (\<lambda>n. n\<lparr>rb_parent := par k\<rparr>) = Some h3" "links h2 root S C3 ?R h3"
    using upd_parent_links [of h2 b s "Some a" d "ptr B" "ptr D" S "par k" root] h2(2) C2(2) S' by (auto simp: links_def C3_def)
  have cs3: "cshape C3 ?R (Some a) k"
    using cs dist by (simp add: C3_def C2_def C1_def)
  define C4 where "C4 = rehang C3 k (Some b)"
  define R4 where "R4 = (if k = [] then Some (Some b) else ?R)"
  have "fld h3 rb_parent a = Some (par k)" using fld_cell(1) [of h3 a] h3(2) C2(1) dist(4) by (auto simp: links_def C3_def)
  then obtain h4 where h4: "relink h3 root a (Some b) = Some h4" "links h3 root S C4 R4 h4"
    using relink_links [of h3 root a k S "Some b"] h3(2) cs3 dist S' by (auto simp: links_def C4_def R4_def)
  have C4: "C4 a = Some (mkc s (par k) c (ptr A) (ptr B))" "C4 b = Some (mkc s (par k) d (ptr B) (ptr D))"
    using dist C2 by (auto simp: C4_def C3_def )
  define C5 where "C5 = C4(b \<mapsto> mkc s (par k) d (Some a) (ptr D))"
  obtain h5 where h5: "upd h4 b (sch s (Some a)) = Some h5" "links h4 root S C5 R4 h5"
    using upd_child_links [of h4 b s "par k" d "ptr B" "ptr D" S "Some a" root] h4(2) C4 S' by (auto simp: links_def C5_def)
  define C6 where "C6 = C5(a \<mapsto> mkc s (Some b) c (ptr A) (ptr B))"
  obtain h6 where h6: "upd h5 a (\<lambda>n. n\<lparr>rb_parent := Some b\<rparr>) = Some h6" "links h5 root S C6 R4 h6"
    using upd_parent_links [of h5 a s "par k" c "ptr A" "ptr B" S "Some b" root] h5(2) C4(1) dist(4) S' by (auto simp: links_def C5_def C6_def)
  have links: "links h root S C6 R4 h6" using h1(2) h2(2) h3(2) h4(2) h5(2) h6(2) by (meson links_trans)
  have "fld h (fch (opp s)) a = Some (Some b)" "fld h (fch s) b = Some (ptr B)" "fld h2 rb_parent a = Some (par k)"
    using fld_cell [OF Ca] fld_cell [OF Cb] fld_cell(1) [of h2 a] C2(1) h2(2) by (auto simp: links_def)
  then have "rot_core s h root a = Some (h6, b)" using h1(1) h2(1) h3(1) h4(1) h5(1) h6(1) by (simp add: rot_core_def)
  moreover have "rep h6 root (mk s d (mk s c A a B) b D) k"
  proof -
    have "C6 x = ?C x" if "x \<notin> set (adr B)" "x \<notin> insert a (insert b (cadr k))" for x
      using that by (simp add: C6_def C5_def C4_def C3_def C2_def C1_def)
    then have X: "shape C6 q t = shape ?C q t" if "set (adr t) \<inter> (insert a (insert b (set (adr B) \<union> cadr k))) = {}" for t q
      using that by (intro shape_cong) blast
    have Y: "C6 x = C2 x" if "x \<notin> insert a (insert b (cadr k))" for x using that by (simp add: C6_def C5_def C4_def C3_def)
    have "shape C6 (Some a) B = shape C2 (Some a) B" by (rule shape_cong, rule Y) (use dist(2,6,17) in auto)
    moreover have "shape C2 (Some a) B" unfolding C2_def by (rule shape_reparent [of C1 "Some b"]) (use sh(2) dist in \<open>simp_all add: C1_def\<close>)
    moreover have "shape C6 (Some a) A" "shape C6 (Some b) D" using X [of A "Some a"] X [of D "Some b"] sh dist by (simp_all add: Int_Un_distrib Int_commute)
    moreover have "cshape C4 R4 (Some b) k" unfolding C4_def R4_def by (rule cshape_rehang [OF cs3 dist(19)])
    moreover have "C6 a = Some (mkc s (Some b) c (ptr A) (ptr B))" "C6 b = Some (mkc s (par k) d (Some a) (ptr D))"
      using dist(4) by (simp_all add: C6_def C5_def)
    moreover have "cshape C6 R4 (Some b) k = cshape C4 R4 (Some b) k" using dist by (simp add: C6_def C5_def)
    ultimately show ?thesis using links dist unfolding rep_def links_def by (auto simp: distinct_plug distinct_adr_mk)
  qed
  ultimately show ?thesis using links unfolding links_def by blast
qed

end
