(* ===== verification/Rbtree_Rotate.thy ===== *)
theory Rbtree_Rotate
  imports Rbtree_Shape
begin

text \<open>
  The augmented values of a tree, what the callback that computes them must do, and the rotations,
  which keep the order of the nodes and the values.
\<close>

section \<open>Augmented values\<close>

type_synonym aggregate = "nat \<Rightarrow> uint64_t option \<Rightarrow> uint64_t option \<Rightarrow> uint64_t"

fun agg :: "aggregate \<Rightarrow> rbt \<Rightarrow> uint64_t option" where
  "agg g Lf = None"
| "agg g (Nd c l a r) = Some (g a (agg g l) (agg g r))"

text \<open>The nodes whose subtree has no node of \<open>X\<close> have the right value.\<close>

fun aok :: "aggregate \<Rightarrow> nat set \<Rightarrow> (nat \<Rightarrow> uint64_t option) \<Rightarrow> rbt \<Rightarrow> bool" where
  "aok g X m Lf = True"
| "aok g X m (Nd c l a r) \<longleftrightarrow> (X \<inter> set (adr (Nd c l a r)) = {} \<longrightarrow> m a = agg g (Nd c l a r)) \<and> aok g X m l \<and> aok g X m r"

definition gs :: "side \<Rightarrow> aggregate \<Rightarrow> aggregate" where
  "gs s g a x y = (case s of SL \<Rightarrow> g a x y | SR \<Rightarrow> g a y x)"

lemma agg_mk [simp]: "agg g (mk s c x a y) = Some (gs s g a (agg g x) (agg g y))"
  by (cases s) (simp_all add: mk_def gs_def)

lemma aok_mk [simp]: "aok g X m (mk s c x a y) \<longleftrightarrow>
    (X \<inter> insert a (set (adr x) \<union> set (adr y)) = {} \<longrightarrow> m a = Some (gs s g a (agg g x) (agg g y))) \<and> aok g X m x \<and> aok g X m y"
  by (cases s) (auto simp: mk_def gs_def)

lemma aok_cong: "(\<And>a. a \<in> set (adr t) \<Longrightarrow> m' a = m a) \<Longrightarrow> aok g X m' t = aok g X m t"
  by (induction t) auto

lemma aok_root: "aok g X m t \<Longrightarrow> X \<inter> set (adr t) = {} \<Longrightarrow> Option.bind (ptr t) m = agg g t"
  by (cases t) auto

lemma aok_plug_sub: "aok g X m (plug t k) \<Longrightarrow> aok g X m t"
  by (induction k arbitrary: t rule: cadr.induct) fastforce+

lemma aok_plug:
  assumes "aok g X m (plug t k)" "aok g X m' t'" "agg g t' = agg g t" "set (adr t') = set (adr t)"
    and "\<And>a. a \<in> cadr k \<Longrightarrow> m' a = m a"
  shows "aok g X m' (plug t' k)"
  using assms
proof (induction k arbitrary: t t' rule: cadr.induct)
  case (2 s c a y k)
  have m: "aok g X m (mk s c t a y)" by (rule aok_plug_sub [of g X m _ k]) (use "2.prems"(1) in simp)
  then have "aok g X m' y" using aok_cong [of y m' m g X] "2.prems"(5) by simp
  then have "aok g X m' (mk s c t' a y)" using m "2.prems" by auto
  then show ?case using "2.IH" [of "mk s c t a y" "mk s c t' a y"] "2.prems" by simp
qed simp

text \<open>
  The tree \<open>t\<close> stands in the heap below \<open>k\<close>, with right values where there is an aggregate, and its
  nodes are in \<open>S\<close>.
\<close>

definition vok :: "aggregate option \<Rightarrow> nat set \<Rightarrow> rb_heap \<Rightarrow> rbt \<Rightarrow> bool" where
  "vok gv X h t \<longleftrightarrow> (\<forall>g. gv = Some g \<longrightarrow> aok g X (fld h rb_min_vruntime) t)"

definition tree_at :: "aggregate option \<Rightarrow> nat set \<Rightarrow> nat \<Rightarrow> nat set \<Rightarrow> rb_heap \<Rightarrow> rbt \<Rightarrow> frame list \<Rightarrow> bool" where
  "tree_at gv S root X h t k \<longleftrightarrow> rep h root t k \<and> vok gv X h (plug t k) \<and> set (adr (plug t k)) \<subseteq> S"

lemma tree_at_move: "tree_at gv S root X h t ((s, c, a, y) # k) \<longleftrightarrow> tree_at gv S root X h (mk s c t a y) k"
  by (simp add: tree_at_def rep_move)

lemma tree_at_plug: "tree_at gv S root X h t k \<longleftrightarrow> tree_at gv S root X h (plug t k) []"
  using rep_plug [of h root t k] by (simp add: tree_at_def)

lemma tree_at_cell: "tree_at gv S root X h (mk s c x a y) k \<Longrightarrow> cells h a = Some (mkc s (par k) c (ptr x) (ptr y)) \<and> a \<in> S"
  by (auto simp: tree_at_def rep_def)

lemma tree_at_fld:
  assumes "tree_at gv S root X h (mk s c x a y) k"
  shows "fld h rb_parent a = Some (par k)" "fld h rb_col a = Some c" "fld h (fch s) a = Some (ptr x)" "fld h (fch (opp s)) a = Some (ptr y)"
  using fld_cell [OF conjunct1 [OF tree_at_cell [OF assms]]] by auto

lemma set_color_tree:
  assumes t: "tree_at gv S root X h (mk s c x a y) k"
  shows "\<exists>h'. set_color h a c' = Some h' \<and> tree_at gv S root X h' (mk s c' x a y) k \<and> step root S h h'"
proof -
  obtain h' where h': "set_color h a c' = Some h'" "links h root S ((cells h)(a \<mapsto> mkc s (par k) c' (ptr x) (ptr y))) (rootptr h root) h'"
    using set_color_links [of h a s "par k" c "ptr x" "ptr y" S c' root] tree_at_cell [OF t] by blast
  have "a \<notin> set (adr x)" "a \<notin> set (adr y)" "a \<notin> cadr k" using t by (auto simp: tree_at_def rep_def distinct_plug distinct_adr_mk)
  then have "rep h' root (mk s c' x a y) k" using t h'(2) by (auto simp: tree_at_def rep_def links_def distinct_plug distinct_adr_mk)
  moreover have "vok gv X h' (plug (mk s c' x a y) k)"
    using t h'(2) aok_plug [of _ X "fld h rb_min_vruntime" "mk s c x a y" k "fld h' rb_min_vruntime" "mk s c' x a y"]
      aok_plug_sub [of _ X "fld h rb_min_vruntime" "mk s c x a y" k] aok_cong [of _ "fld h' rb_min_vruntime" "fld h rb_min_vruntime"]
    by (auto simp: tree_at_def vok_def links_def)
  ultimately show ?thesis using h' t by (auto simp: tree_at_def links_def)
qed

section \<open>The callback\<close>

definition set_mv :: "rb_heap \<Rightarrow> nat \<Rightarrow> uint64_t \<Rightarrow> rb_heap" where
  "set_mv h a v = h\<lparr>rb_nodes := (rb_nodes h)(a := map_option (\<lambda>n. n\<lparr>rb_min_vruntime := v\<rparr>) (rb_nodes h a))\<rparr>"

lemma set_mv_simps:
  "cells (set_mv h a v) = cells h" "rootptr (set_mv h a v) root = rootptr h root" "a \<in> S \<Longrightarrow> step root S h (set_mv h a v)"
  "b \<noteq> a \<Longrightarrow> fld (set_mv h a v) rb_min_vruntime b = fld h rb_min_vruntime b"
  "cells h a \<noteq> None \<Longrightarrow> fld (set_mv h a v) rb_min_vruntime a = Some v"
  by (auto simp: set_mv_def cells_def rootptr_def step_def fld_def fun_eq_iff option.map_comp o_def)

text \<open>
  The contract between the tree and its user: the callback writes the augmented value of the node
  it is called for and nothing else. Where the value matters, it is an aggregate of the values of
  the children that does not depend on the shape of the tree. Without augmentation there is no
  aggregate.
\<close>

locale rb_callback =
  fixes aug :: rb_augment and gv :: "aggregate option"
  assumes call: "rb_nodes h a = Some n \<Longrightarrow> (\<And>b. b \<in> set_option (rb_left n) \<union> set_option (rb_right n) \<Longrightarrow> rb_nodes h b \<noteq> None)
      \<Longrightarrow> \<exists>v. call_augment aug h a = Some (set_mv h a v)
        \<and> (\<forall>g. gv = Some g \<longrightarrow> v = g a (Option.bind (rb_left n) (fld h rb_min_vruntime)) (Option.bind (rb_right n) (fld h rb_min_vruntime)))"
    and assoc: "gv = Some g \<Longrightarrow> g b (Some (g a x y)) z = g a x (Some (g b y z))"
begin

lemma call_cells:
  assumes "cells h a = Some (mkc s q c (ptr x) (ptr y))" "shape (cells h) (Some a) x" "shape (cells h) (Some a) y"
  shows "\<exists>v. call_augment aug h a = Some (set_mv h a v)
    \<and> (\<forall>g. gv = Some g \<longrightarrow> v = gs s g a (Option.bind (ptr x) (fld h rb_min_vruntime)) (Option.bind (ptr y) (fld h rb_min_vruntime)))"
proof -
  obtain n where n: "rb_nodes h a = Some n" "(rb_parent n, rb_left n, rb_right n, rb_col n) = mkc s q c (ptr x) (ptr y)"
    using assms(1) by (auto simp: cells_def)
  have "rb_nodes h b \<noteq> None" if "ptr t = Some b" "shape (cells h) (Some a) t" for b t
    using that by (cases t) (auto simp: cells_def)
  then have "rb_nodes h b \<noteq> None" if "b \<in> set_option (rb_left n) \<union> set_option (rb_right n)" for b
    using that n(2) assms(2,3) by (cases s) (auto simp: mkc_def)
  from call [OF n(1) this] show ?thesis using n(2) by (cases s) (auto simp: mkc_def gs_def)
qed

lemma rot_agg: "gv = Some g \<Longrightarrow> agg g (mk s d (mk s c A a B) b D) = agg g (mk s c A a (mk s d B b D))"
  by (cases s) (auto simp: gs_def assoc)

lemma rot_tree:
  assumes t: "tree_at gv S root X h (mk s c A a (mk s d B b D)) k"
  shows "\<exists>h'. rot s h root a aug = Some h' \<and> tree_at gv S root X h' (mk s d (mk s c A a B) b D) k \<and> step root S h h'"
proof -
  let ?t = "mk s c A a (mk s d B b D)" and ?t' = "mk s d (mk s c A a B) b D"
  obtain h1 where h1: "rot_core s h root a = Some (h1, b)" "rep h1 root ?t' k" "step root S h h1" "\<And>x. fld h1 rb_min_vruntime x = fld h rb_min_vruntime x"
    using rot_core_rep [of h root s c A a d B b D k S] t by (auto simp: tree_at_def)
  have S: "a \<in> S" "b \<in> S" and ab: "a \<noteq> b" "a \<notin> set (adr A)" "b \<notin> set (adr A)" "a \<notin> set (adr B)" "b \<notin> set (adr B)" "a \<notin> set (adr D)" "b \<notin> set (adr D)"
    "a \<notin> cadr k" "b \<notin> cadr k"
    using t by (auto simp: tree_at_def rep_def distinct_plug distinct_adr_mk)
  obtain v where v: "call_augment aug h1 a = Some (set_mv h1 a v)"
      "\<And>g. gv = Some g \<Longrightarrow> v = gs s g a (Option.bind (ptr A) (fld h1 rb_min_vruntime)) (Option.bind (ptr B) (fld h1 rb_min_vruntime))"
    using call_cells [of h1 a s "Some b" c A B] h1(2) by (auto simp: rep_def)
  define h2 where "h2 = set_mv h1 a v"
  have r2: "rep h2 root ?t' k" using h1(2) by (simp add: rep_def h2_def set_mv_simps)
  obtain w where w: "call_augment aug h2 b = Some (set_mv h2 b w)"
      "\<And>g. gv = Some g \<Longrightarrow> w = gs s g b (Some v) (Option.bind (ptr D) (fld h2 rb_min_vruntime))"
    using call_cells [of h2 b s "par k" d "mk s c A a B" D] r2 by (auto simp: rep_def h2_def set_mv_simps)
  define h3 where "h3 = set_mv h2 b w"
  have r3: "rep h3 root ?t' k" using r2 by (simp add: rep_def h3_def set_mv_simps)
  have m: "fld h3 rb_min_vruntime x = fld h rb_min_vruntime x" if "x \<noteq> a" "x \<noteq> b" for x
    using that h1(4) by (simp add: h3_def h2_def set_mv_simps)
  have "aok g X (fld h3 rb_min_vruntime) (plug ?t' k)" if g: "gv = Some g" for g
  proof -
    have old: "aok g X (fld h rb_min_vruntime) (plug ?t k)" using t g by (simp add: tree_at_def vok_def)
    then have "aok g X (fld h rb_min_vruntime) ?t" by (rule aok_plug_sub)
    then have sub: "aok g X (fld h rb_min_vruntime) t" if "t \<in> {A, B, D}" for t using that by auto
    have keep: "aok g X (fld h' rb_min_vruntime) t"
      if "t \<in> {A, B, D}" "\<And>x. x \<noteq> a \<Longrightarrow> x \<noteq> b \<Longrightarrow> fld h' rb_min_vruntime x = fld h rb_min_vruntime x" for t h'
    proof -
      have "x \<noteq> a" "x \<noteq> b" if "x \<in> set (adr t)" for x using that \<open>t \<in> {A, B, D}\<close> ab by auto
      then show ?thesis using sub [OF that(1)] that(2) aok_cong [of t "fld h' rb_min_vruntime" "fld h rb_min_vruntime" g X] by blast
    qed
    have sub: "aok g X (fld h1 rb_min_vruntime) t" "aok g X (fld h2 rb_min_vruntime) t" "aok g X (fld h3 rb_min_vruntime) t" if "t \<in> {A, B, D}" for t
      by (rule keep [OF that], simp add: h1(4) h2_def set_mv_simps m)+
    have "fld h3 rb_min_vruntime a = Some v" "fld h3 rb_min_vruntime b = Some w"
      using ab(1) h1(2) r2 by (auto simp: h3_def h2_def set_mv_simps rep_def)
    moreover have "v = gs s g a (agg g A) (agg g B)" if "X \<inter> insert a (set (adr A) \<union> set (adr B)) = {}"
      using v(2) [OF g] aok_root [OF sub(1), of A] aok_root [OF sub(1), of B] that by (auto simp: Int_Un_distrib)
    moreover have "w = gs s g b (Some v) (agg g D)" if "X \<inter> set (adr D) = {}"
      using w(2) [OF g] aok_root [OF sub(2), of D] that by auto
    ultimately have "aok g X (fld h3 rb_min_vruntime) ?t'" using sub(3) by (auto simp: Int_Un_distrib)
    moreover have "set (adr ?t') = set (adr ?t)" by auto
    moreover have "fld h3 rb_min_vruntime x = fld h rb_min_vruntime x" if "x \<in> cadr k" for x by (rule m) (use that ab(8,9) in auto)
    ultimately show ?thesis using aok_plug [OF old _ rot_agg [OF g]] by blast
  qed
  then have "tree_at gv S root X h3 ?t' k" using r3 t by (auto simp: tree_at_def vok_def)
  moreover have "rot s h root a aug = Some h3" using h1(1) v(1) w(1) by (simp add: rot_def h2_def h3_def)
  moreover have "step root S h h3"
    unfolding h2_def h3_def by (rule step_trans [OF step_trans [OF h1(3) set_mv_simps(3) [OF S(1)]] set_mv_simps(3) [OF S(2)]])
  ultimately show ?thesis by blast
qed

end

end
