(* ===== verification/Rbtree_Insert.thy ===== *)
theory Rbtree_Insert
  imports Rbtree_Rotate
begin

text \<open>
  The red-black conditions on trees and on positions, and rebalancing after an insertion: the loop
  ends and restores the conditions without changing the order of the nodes.
\<close>

section \<open>Red-black trees\<close>

text \<open>\<open>rb n t\<close>: every path in \<open>t\<close> has \<open>n\<close> black nodes, and no red node has a red child.\<close>

fun rb :: "nat \<Rightarrow> rbt \<Rightarrow> bool" where
  "rb n Lf \<longleftrightarrow> n = 0"
| "rb n (Nd c l a r) \<longleftrightarrow> (case c of
     RB_RED \<Rightarrow> rb n l \<and> rb n r \<and> col l = RB_BLACK \<and> col r = RB_BLACK
   | RB_BLACK \<Rightarrow> (\<exists>m. n = Suc m \<and> rb m l \<and> rb m r))"

lemma rb_mk [simp]:
  "rb n (mk s RB_RED x a y) \<longleftrightarrow> rb n x \<and> rb n y \<and> col x = RB_BLACK \<and> col y = RB_BLACK"
  "rb n (mk s RB_BLACK x a y) \<longleftrightarrow> (\<exists>m. n = Suc m \<and> rb m x \<and> rb m y)"
  by (cases s; auto simp: mk_def)+

text \<open>The path above a subtree with \<open>n\<close> black nodes per path; the root of the whole tree is black.\<close>

fun kcol :: "frame list \<Rightarrow> rb_color" where
  "kcol [] = RB_BLACK"
| "kcol ((s, c, a, y) # k) = c"

fun rbk :: "nat \<Rightarrow> frame list \<Rightarrow> bool" where
  "rbk n [] = True"
| "rbk n ((s, c, a, y) # k) \<longleftrightarrow> rb n y \<and> (case c of
     RB_RED \<Rightarrow> col y = RB_BLACK \<and> k \<noteq> [] \<and> kcol k = RB_BLACK \<and> rbk n k
   | RB_BLACK \<Rightarrow> rbk (Suc n) k)"

lemma rb_plug:
  "rb n t \<Longrightarrow> rbk n k \<Longrightarrow> (col t = RB_RED \<Longrightarrow> k \<noteq> [] \<and> kcol k = RB_BLACK) \<Longrightarrow> (\<exists>m. rb m (plug t k)) \<and> col (plug t k) = RB_BLACK"
proof (induction k arbitrary: n t)
  case Nil
  then show ?case by (cases "col t") auto
next
  case (Cons f k)
  obtain s c a y where f: "f = (s, c, a, y)" by (cases f)
  show ?case
  proof (cases c)
    case RB_RED
    then have "rb n (mk s c t a y)" using Cons.prems f by (cases "col t") auto
    then show ?thesis using Cons.IH [of n "mk s c t a y"] Cons.prems f RB_RED by auto
  next
    case RB_BLACK
    then have "rb (Suc n) (mk s c t a y)" using Cons.prems f by auto
    then show ?thesis using Cons.IH [of "Suc n" "mk s c t a y"] Cons.prems f RB_BLACK by auto
  qed
qed

lemma rb_unplug:
  "rb m (plug t k) \<Longrightarrow> col (plug t k) = RB_BLACK \<Longrightarrow> \<exists>n. rb n t \<and> rbk n k \<and> (col t = RB_RED \<longrightarrow> k \<noteq> [] \<and> kcol k = RB_BLACK)"
proof (induction k arbitrary: t)
  case (Cons f k)
  obtain s c a y where f: "f = (s, c, a, y)" by (cases f)
  obtain n where n: "rb n (mk s c t a y)" "rbk n k" "c = RB_RED \<longrightarrow> k \<noteq> [] \<and> kcol k = RB_BLACK" using Cons.IH [of "mk s c t a y"] Cons.prems f by auto
  then show ?case using f by (cases c) auto
qed auto

definition blk :: "rbt \<Rightarrow> rbt" where
  "blk t = (case t of Lf \<Rightarrow> Lf | Nd c l a r \<Rightarrow> Nd RB_BLACK l a r)"

lemma blk_simps [simp]: "blk (mk s c x a y) = mk s RB_BLACK x a y" "adr (blk t) = adr t" "blk Lf = Lf" "col (blk t) = RB_BLACK"
  by ((cases s, simp_all add: blk_def mk_def)[], (cases t, simp_all add: blk_def)+)

lemma rb_blk: "rb n t \<Longrightarrow> rb (if col t = RB_RED then Suc n else n) (blk t)"
  by (cases t) (auto simp: blk_def split: rb_color.splits)

lemma adr_mk: "adr (mk s c x a y) = (case s of SL \<Rightarrow> adr x @ a # adr y | SR \<Rightarrow> adr y @ a # adr x)"
  by (cases s) (simp_all add: mk_def)

lemma adr_plug_cong: "adr t = adr t' \<Longrightarrow> adr (plug t k) = adr (plug t' k)"
  by (induction k arbitrary: t t' rule: cadr.induct) (auto simp: adr_mk split: side.splits)

lemma frame_cadr: "(s, c, a, y) \<in> set k \<Longrightarrow> insert a (set (adr y)) \<subseteq> cadr k"
  by (induction k rule: cadr.induct) auto

section \<open>One round\<close>

definition iround :: "side \<Rightarrow> rb_heap \<Rightarrow> nat \<Rightarrow> nat \<Rightarrow> nat \<Rightarrow> nat \<Rightarrow> rb_augment \<Rightarrow> (rb_heap \<times> nat) option" where
  "iround s h root node parent grandparent augment = do {
     uncle \<leftarrow> fld h (fch (opp s)) grandparent;
     red \<leftarrow> is_red h uncle;
     if red then do {
       h \<leftarrow> set_color h parent RB_BLACK;
       u \<leftarrow> uncle; h \<leftarrow> set_color h u RB_BLACK;
       h \<leftarrow> set_color h grandparent RB_RED;
       Some (h, grandparent) }
     else do {
       pr \<leftarrow> fld h (fch (opp s)) parent;
       (h, node, parent, grandparent) \<leftarrow>
         (if pr = Some node then do {
            h \<leftarrow> rot s h root parent augment;
            p \<leftarrow> fld h rb_parent parent; x \<leftarrow> p;
            g \<leftarrow> fld h rb_parent x; grandparent \<leftarrow> g;
            Some (h, parent, x, grandparent) }
          else Some (h, node, parent, grandparent));
       h \<leftarrow> set_color h parent RB_BLACK;
       h \<leftarrow> set_color h grandparent RB_RED;
       h \<leftarrow> rot (opp s) h root grandparent augment;
       Some (h, node) } }"

lemma insert_round_side:
  "insert_round h root node parent augment = do {
     g \<leftarrow> fld h rb_parent parent; grandparent \<leftarrow> g;
     gl \<leftarrow> fld h rb_left grandparent;
     iround (if gl = Some parent then SL else SR) h root node parent grandparent augment }"
proof -
  have "fch SL = rb_left" "fch SR = rb_right" by (simp_all add: fch_def)
  then show ?thesis
    by (auto simp: insert_round_def iround_def rotate_rot Let_def intro!: Option.bind_cong option.case_cong)
qed

lemma is_red_tree: "tree_at gv S root X h y k \<Longrightarrow> is_red h (ptr y) = Some (col y = RB_RED)"
proof (cases y)
  case (Nd c l a r)
  assume "tree_at gv S root X h y k"
  then have "tree_at gv S root X h (mk SL c l a r) k" using Nd by (simp add: mk_def)
  then show ?thesis using tree_at_fld(2) Nd by (fastforce simp: is_red_def)
qed (simp add: is_red_def)

lemma tree_at_sibling: "tree_at gv S root X h t ((s, c, a, y) # k) \<longleftrightarrow> tree_at gv S root X h y ((opp s, c, a, t) # k)"
  by (simp add: tree_at_move mk_opp)

lemma tree_at_above:
  assumes "tree_at gv S root X h t ((s, c, a, y) # k)"
  shows "fld h rb_parent a = Some (par k)" "fld h rb_col a = Some c" "fld h (fch s) a = Some (ptr t)" "fld h (fch (opp s)) a = Some (ptr y)"
  using tree_at_fld [of gv S root X h s c t a y k] assms by (simp_all add: tree_at_move)

lemma uncle_tree:
  assumes "tree_at gv S root X h t ((s, c, a, y) # k)"
  shows "fld h (fch (opp s)) a = Some (ptr y)" "is_red h (ptr y) = Some (col y = RB_RED)"
  using tree_at_above(4) [OF assms] is_red_tree [OF assms [THEN tree_at_sibling [THEN iffD1]]] by auto

lemma rootptr_tree: "tree_at gv S root X h T [] \<Longrightarrow> \<exists>r. rb_roots h root = Some r \<and> rt_root r = ptr T"
  by (auto simp: tree_at_def rep_def rootptr_def)

context rb_callback
begin

lemma iround_red:
  assumes t: "tree_at gv S root X h t ((s1, RB_RED, p, y1) # (s, RB_BLACK, g, y2) # k)" and y2: "col y2 = RB_RED"
  shows "\<exists>h'. iround s h root x p g aug = Some (h', g) \<and> tree_at gv S root X h' (mk s RB_RED (mk s1 RB_BLACK t p y1) g (blk y2)) k \<and> step root S h h'"
proof -
  obtain c u a v where m: "y2 = mk s c u a v" using Nd_mk [of y2 s] y2 by (cases y2) auto
  have t0: "tree_at gv S root X h (mk s1 RB_RED t p y1) ((s, RB_BLACK, g, y2) # k)" using t by (simp add: tree_at_move)
  then have "fld h (fch (opp s)) g = Some (ptr y2)" "is_red h (ptr y2) = Some True"
    using uncle_tree [of gv S root X h _ s RB_BLACK g y2 k] y2 by auto
  moreover obtain h1 where h1: "set_color h p RB_BLACK = Some h1" "tree_at gv S root X h1 (mk s1 RB_BLACK t p y1) ((s, RB_BLACK, g, y2) # k)" "step root S h h1"
    using set_color_tree [OF t0] by blast
  moreover obtain h2 where h2: "set_color h1 a RB_BLACK = Some h2" "tree_at gv S root X h2 (mk s RB_BLACK u a v) ((opp s, RB_BLACK, g, mk s1 RB_BLACK t p y1) # k)" "step root S h1 h2"
    using set_color_tree h1(2) m by (metis tree_at_sibling)
  moreover obtain h3 where "set_color h2 g RB_RED = Some h3" "tree_at gv S root X h3 (mk s RB_RED (mk s1 RB_BLACK t p y1) g (mk s RB_BLACK u a v)) k" "step root S h2 h3"
    using set_color_tree [of gv S root X h2 s RB_BLACK "mk s1 RB_BLACK t p y1" g "mk s RB_BLACK u a v" k] h2(2) by (auto simp: tree_at_move mk_opp)
  ultimately show ?thesis using m by (auto simp: iround_def intro: step_trans)
qed

lemma iround_outer:
  assumes t: "tree_at gv S root X h t ((s, RB_RED, p, y1) # (s, RB_BLACK, g, y2) # k)" and x: "ptr t = Some x" and y2: "col y2 = RB_BLACK"
  shows "\<exists>h'. iround s h root x p g aug = Some (h', x) \<and> tree_at gv S root X h' t ((s, RB_BLACK, p, mk s RB_RED y1 g y2) # k) \<and> step root S h h'"
proof -
  have t0: "tree_at gv S root X h (mk s RB_RED t p y1) ((s, RB_BLACK, g, y2) # k)" using t by (simp add: tree_at_move)
  then have u: "fld h (fch (opp s)) g = Some (ptr y2)" "is_red h (ptr y2) = Some False"
    using uncle_tree [of gv S root X h _ s RB_BLACK g y2 k] y2 by auto
  have p: "fld h (fch (opp s)) p = Some (ptr y1)" using tree_at_above(4) [OF t] .
  have "ptr y1 \<noteq> Some x" using t ptr_adr [OF x] ptr_adr [of y1 x] by (auto simp: tree_at_def rep_def distinct_plug distinct_adr_mk)
  moreover obtain h1 where h1: "set_color h p RB_BLACK = Some h1" "tree_at gv S root X h1 (mk s RB_BLACK t p y1) ((s, RB_BLACK, g, y2) # k)" "step root S h h1"
    using set_color_tree [OF t0] by blast
  moreover obtain h2 where h2: "set_color h1 g RB_RED = Some h2" "tree_at gv S root X h2 (mk s RB_RED (mk s RB_BLACK t p y1) g y2) k" "step root S h1 h2"
    using set_color_tree [of gv S root X h1 s RB_BLACK "mk s RB_BLACK t p y1" g y2 k] h1(2) by (auto simp: tree_at_move)
  moreover obtain h3 where "rot (opp s) h2 root g aug = Some h3" "tree_at gv S root X h3 (mk s RB_BLACK t p (mk s RB_RED y1 g y2)) k" "step root S h2 h3"
    using rot_tree [of S root X h2 "opp s" RB_RED y2 g RB_BLACK y1 p t k] h2(2) by (auto simp: mk_opp)
  ultimately show ?thesis using u p by (auto simp: iround_def tree_at_move intro: step_trans)
qed

lemma iround_inner:
  assumes t: "tree_at gv S root X h (mk s d u x v) ((opp s, RB_RED, p, y1) # (s, RB_BLACK, g, y2) # k)" and y2: "col y2 = RB_BLACK"
  shows "\<exists>h'. iround s h root x p g aug = Some (h', p) \<and> tree_at gv S root X h' (mk s RB_RED y1 p u) ((s, RB_BLACK, x, mk s RB_RED v g y2) # k) \<and> step root S h h'"
proof -
  have t0: "tree_at gv S root X h (mk s RB_RED y1 p (mk s d u x v)) ((s, RB_BLACK, g, y2) # k)" using t by (simp add: tree_at_move mk_opp)
  then have u: "fld h (fch (opp s)) g = Some (ptr y2)" "is_red h (ptr y2) = Some False"
    using uncle_tree [of gv S root X h _ s RB_BLACK g y2 k] y2 by auto
  have p: "fld h (fch (opp s)) p = Some (Some x)" using tree_at_fld(4) [OF t0] by simp
  obtain h1 where h1: "rot s h root p aug = Some h1" "tree_at gv S root X h1 (mk s d (mk s RB_RED y1 p u) x v) ((s, RB_BLACK, g, y2) # k)" "step root S h h1"
    using rot_tree [OF t0] by blast
  then have t1: "tree_at gv S root X h1 (mk s RB_RED y1 p u) ((s, d, x, v) # (s, RB_BLACK, g, y2) # k)" by (simp add: tree_at_move)
  have f: "fld h1 rb_parent p = Some (Some x)" "fld h1 rb_parent x = Some (Some g)" using tree_at_fld(1) [OF t1] tree_at_above(1) [OF t1] by simp_all
  obtain h2 where h2: "set_color h1 x RB_BLACK = Some h2" "tree_at gv S root X h2 (mk s RB_BLACK (mk s RB_RED y1 p u) x v) ((s, RB_BLACK, g, y2) # k)" "step root S h1 h2"
    using set_color_tree [OF h1(2)] by blast
  moreover obtain h3 where h3: "set_color h2 g RB_RED = Some h3" "tree_at gv S root X h3 (mk s RB_RED (mk s RB_BLACK (mk s RB_RED y1 p u) x v) g y2) k" "step root S h2 h3"
    using set_color_tree [of gv S root X h2 s RB_BLACK _ g y2 k] h2(2) by (auto simp: tree_at_move)
  moreover obtain h4 where "rot (opp s) h3 root g aug = Some h4" "tree_at gv S root X h4 (mk s RB_BLACK (mk s RB_RED y1 p u) x (mk s RB_RED v g y2)) k" "step root S h3 h4"
    using rot_tree [of S root X h3 "opp s" RB_RED y2 g RB_BLACK v x "mk s RB_RED y1 p u" k] h3(2) by (auto simp: mk_opp)
  ultimately show ?thesis using u p f h1 by (auto simp: iround_def tree_at_move intro: step_trans)
qed

lemma node_parent: "tree_at gv S root X h t k \<Longrightarrow> ptr t = Some x \<Longrightarrow> fld h rb_parent x = Some (par k)"
  using Nd_mk [of t SL] tree_at_fld(1) [of gv S root X h SL _ _ x _ k] by (cases t) (auto simp: Nd_mk_SL)

lemma insert_loop_done:
  assumes "tree_at gv S root X h t k" "ptr t = Some x" "kcol k = RB_BLACK"
  shows "insert_loop h root x aug = Some h"
proof (cases k rule: par.cases)
  case 1
  then show ?thesis using node_parent [OF assms(1,2)] by (subst insert_loop.simps) simp
next
  case (2 s c a y k')
  then show ?thesis using node_parent [OF assms(1,2)] tree_at_above(2) [of gv S root X h t s c a y k'] assms by (subst insert_loop.simps) simp
qed

lemma insert_loop_round:
  assumes t: "tree_at gv S root X h t ((s1, RB_RED, p, y1) # (s, RB_BLACK, g, y2) # k)" and x: "ptr t = Some x"
  shows "insert_loop h root x aug = Option.bind (iround s h root x p g aug) (\<lambda>z. insert_loop (fst z) root (snd z) aug)"
proof -
  have t': "tree_at gv S root X h (mk s1 RB_RED t p y1) ((s, RB_BLACK, g, y2) # k)" using t by (simp add: tree_at_move)
  have "ptr y2 \<noteq> Some p" using t ptr_adr [of y2 p] by (auto simp: tree_at_def rep_def distinct_plug distinct_adr_mk)
  then obtain gl where "fld h rb_left g = Some gl" "(if gl = Some p then SL else SR) = s"
    using tree_at_above(3,4) [OF t'] by (cases s) (auto simp: fch_def)
  then have "insert_round h root x p aug = iround s h root x p g aug"
    using tree_at_above(1) [OF t] by (simp add: insert_round_side)
  then show ?thesis using node_parent [OF t x] tree_at_above(2) [OF t] by (subst insert_loop.simps) simp
qed

lemma insert_loop_tree:
  assumes "tree_at gv S root X h t k" "ptr t = Some x" "col t = RB_RED" "rb n t" "rbk n k"
  shows "\<exists>h' T. insert_loop h root x aug = Some h' \<and> tree_at gv S root X h' T [] \<and> (\<exists>m. rb m T) \<and> adr T = adr (plug t k) \<and> step root S h h'"
  using assms
proof (induction "length k" arbitrary: h t k x n rule: less_induct)
  case less
  note t = less.prems(1) and x = less.prems(2) and n = less.prems(3-5)
  show ?case
  proof (cases "kcol k = RB_BLACK")
    case True
    have "\<exists>m. rb m (plug t k)"
    proof (cases "k = []")
      case False
      then show ?thesis using rb_plug [OF n(2,3)] True by blast
    qed (use n(2) in auto)
    then show ?thesis using insert_loop_done [OF t x True] t [THEN tree_at_plug [THEN iffD1]] step_refl by blast
  next
    case False
    then obtain s1 p y1 s g y2 k' where k: "k = (s1, RB_RED, p, y1) # (s, RB_BLACK, g, y2) # k'"
        and y: "rb n y1" "col y1 = RB_BLACK" "rb n y2" "rbk (Suc n) k'"
      using n(3) by (cases k rule: par.cases; cases "tl k" rule: par.cases) (auto split: rb_color.splits)
    note t = t [unfolded k]
    note loop = insert_loop_round [OF t x]
    consider (red) "col y2 = RB_RED" | (outer) "col y2 = RB_BLACK" "s1 = s" | (inner) "col y2 = RB_BLACK" "s1 = opp s"
      by (cases "col y2"; cases s1; cases s) auto
    then show ?thesis
    proof cases
      case red
      let ?t = "mk s RB_RED (mk s1 RB_BLACK t p y1) g (blk y2)"
      obtain h1 where h1: "iround s h root x p g aug = Some (h1, g)" "tree_at gv S root X h1 ?t k'" "step root S h h1"
        using iround_red [OF t red] by blast
      have len: "length k' < length k" using k by simp
      have "rb (Suc n) ?t" using y n rb_blk [of n y2] red by auto
      from less.hyps [OF len h1(2) _ _ this y(4)] obtain h' T where h': "insert_loop h1 root g aug = Some h'" "tree_at gv S root X h' T []" "\<exists>m. rb m T"
        "adr T = adr (plug ?t k')" "step root S h1 h'"
        by auto
      have "adr (plug ?t k') = adr (plug t k)" unfolding k by (simp add: adr_mk adr_plug_cong split: side.splits)
      then show ?thesis using h1(1,3) h' loop by (auto intro: step_trans)
    next
      case outer
      let ?k = "(s, RB_BLACK, p, mk s RB_RED y1 g y2) # k'"
      obtain h1 where h1: "iround s h root x p g aug = Some (h1, x)" "tree_at gv S root X h1 t ?k" "step root S h h1"
        using iround_outer [of S root X h t s p y1 g y2 k' x] t x outer by auto
      have "\<exists>m. rb m (plug t ?k)" using rb_plug [of n t ?k] n(2) y outer(1) by auto
      moreover have "adr (plug t ?k) = adr (plug t k)" unfolding k outer by (simp, rule adr_plug_cong) (simp add: adr_mk split: side.splits)
      moreover have "insert_loop h root x aug = Some h1" using loop h1(1) insert_loop_done [OF h1(2) x] by simp
      ultimately show ?thesis using h1(3) h1(2) [THEN tree_at_plug [THEN iffD1]] by blast
    next
      case inner
      obtain d u a v where "t = mk s d u a v" using Nd_mk [of t s] x by (cases t) auto
      then have u: "t = mk s RB_RED u x v" using x n(1) by auto
      let ?t = "mk s RB_RED y1 p u" and ?k = "(s, RB_BLACK, x, mk s RB_RED v g y2) # k'"
      obtain h1 where h1: "iround s h root x p g aug = Some (h1, p)" "tree_at gv S root X h1 ?t ?k" "step root S h h1"
        using iround_inner [of S root X h s RB_RED u x v p y1 g y2 k'] t u inner by auto
      have "\<exists>m. rb m (plug ?t ?k)" using rb_plug [of n ?t ?k] n(2) u y inner(1) by auto
      moreover have "adr (plug ?t ?k) = adr (plug t k)" unfolding k inner u by (simp, rule adr_plug_cong) (simp add: adr_mk mk_opp split: side.splits)
      moreover have "insert_loop h root x aug = Some h1" using loop h1(1) insert_loop_done [OF h1(2)] by simp
      ultimately show ?thesis using h1(3) h1(2) [THEN tree_at_plug [THEN iffD1]] by blast
    qed
  qed
qed

lemma insert_rebalance_tree:
  assumes "tree_at gv S root X h t k" "ptr t = Some x" "col t = RB_RED" "rb n t" "rbk n k"
  shows "\<exists>h' T m. rb_insert_rebalance h root x aug = Some h' \<and> tree_at gv S root X h' T [] \<and> rb m T \<and> col T = RB_BLACK
    \<and> adr T = adr (plug t k) \<and> step root S h h'"
proof -
  obtain h1 T m where h1: "insert_loop h root x aug = Some h1" "tree_at gv S root X h1 T []" "rb m T" "adr T = adr (plug t k)" "step root S h h1"
    using insert_loop_tree [OF assms] by blast
  have "T \<noteq> Lf" using h1(4) set_adr_plug [of t k] ptr_adr [OF assms(2)] by (cases T) auto
  then obtain c u a v where T: "T = mk SL c u a v" using Nd_mk by blast
  obtain h2 where h2: "set_color h1 a RB_BLACK = Some h2" "tree_at gv S root X h2 (mk SL RB_BLACK u a v) []" "step root S h1 h2"
    using set_color_tree h1(2) T by blast
  have "rb (if c = RB_RED then Suc m else m) (mk SL RB_BLACK u a v)" using rb_blk [OF h1(3)] T by simp
  moreover have "rb_insert_rebalance h root x aug = Some h2"
    using h1(1) rootptr_tree [OF h1(2)] h2(1) T by (auto simp: rb_insert_rebalance_def)
  moreover have "adr (mk SL RB_BLACK u a v) = adr (plug t k)" "step root S h h2" using h1(4) T step_trans [OF h1(5) h2(3)] by (simp_all add: adr_mk)
  ultimately show ?thesis using h2(2) by (metis mk_simps(2))
qed

lemma propagate_tree:
  assumes "rep h root t k" "set (adr (plug t k)) \<subseteq> S" "vok gv {} h t" "\<And>s c a y. (s, c, a, y) \<in> set k \<Longrightarrow> vok gv {} h y"
  shows "\<exists>h'. augment_propagate h (par k) aug = Some h' \<and> tree_at gv S root {} h' t k \<and> step root S h h'"
  using assms
proof (induction k arbitrary: h t)
  case Nil
  then show ?case by (subst augment_propagate.simps) (simp add: tree_at_def)
next
  case (Cons f k)
  obtain s c a y where f: "f = (s, c, a, y)" by (cases f)
  have r: "rep h root (mk s c t a y) k" using Cons.prems(1) f by (simp add: rep_move)
  then have d: "a \<notin> set (adr t)" "a \<notin> set (adr y)" "a \<notin> cadr k" by (auto simp: rep_def distinct_plug distinct_adr_mk)
  obtain v where v: "call_augment aug h a = Some (set_mv h a v)"
      "\<And>g. gv = Some g \<Longrightarrow> v = gs s g a (Option.bind (ptr t) (fld h rb_min_vruntime)) (Option.bind (ptr y) (fld h rb_min_vruntime))"
    using call_cells [of h a s "par k" c t y] r by (auto simp: rep_def)
  let ?h = "set_mv h a v"
  have r1: "rep ?h root (mk s c t a y) k" using r by (simp add: rep_def set_mv_simps)
  have keep: "vok gv {} ?h u" if "vok gv {} h u" "a \<notin> set (adr u)" for u
    using that aok_cong [of u "fld ?h rb_min_vruntime" "fld h rb_min_vruntime"] set_mv_simps(4) by (metis vok_def)
  have "fld ?h rb_min_vruntime a = Some v" using r by (auto simp: rep_def set_mv_simps)
  moreover have "vok gv {} h y" using Cons.prems(4) f by auto
  ultimately have "vok gv {} ?h (mk s c t a y)"
    using v(2) keep [of t] keep [of y] Cons.prems(3) d aok_root [of _ "{}" "fld h rb_min_vruntime"]
    by (auto simp: vok_def)
  moreover have "vok gv {} ?h u" if "(s', c', a', u) \<in> set k" for s' c' a' u
    using keep [of u] Cons.prems(4) [of s' c' a' u] that d(3) frame_cadr [OF that] by auto
  ultimately obtain h' where "augment_propagate ?h (par k) aug = Some h'" "tree_at gv S root {} h' (mk s c t a y) k" "step root S ?h h'"
    using Cons.IH [OF r1] Cons.prems(2) f by auto
  moreover have "fld ?h rb_parent a = Some (par k)" using r1 fld_cell(1) [of ?h a s] by (auto simp: rep_def)
  moreover have "step root S h ?h" by (rule set_mv_simps(3)) (use Cons.prems(2) f in auto)
  ultimately show ?case using v(1) f by (subst augment_propagate.simps) (auto simp: tree_at_move intro: step_trans)
qed

end

end
