(* ===== verification/Rbtree_Order.thy ===== *)
theory Rbtree_Order
  imports Rbtree_Insert
begin

text \<open>
  The order of the nodes: positions split the sequence of nodes, the search for the place of a new
  node, the whole of \<^verbatim>\<open>rb_insert_augmented\<close> and the successor of a node.
\<close>

section \<open>Positions in the sequence of nodes\<close>

fun lft :: "frame list \<Rightarrow> nat list" where
  "lft [] = []"
| "lft ((s, c, a, y) # k) = (case s of SL \<Rightarrow> lft k | SR \<Rightarrow> lft k @ adr y @ [a])"

fun rgt :: "frame list \<Rightarrow> nat list" where
  "rgt [] = []"
| "rgt ((s, c, a, y) # k) = (case s of SL \<Rightarrow> a # adr y @ rgt k | SR \<Rightarrow> rgt k)"

lemma adr_plug: "adr (plug t k) = lft k @ adr t @ rgt k"
  by (induction k arbitrary: t rule: cadr.induct) (auto simp: adr_mk split: side.splits)

lemma plug_at: "x \<in> set (adr T) \<Longrightarrow> \<exists>c l r k. T = plug (Nd c l x r) k"
proof (induction T)
  case (Nd c l a r)
  consider "x = a" | "x \<in> set (adr l)" | "x \<in> set (adr r)" using Nd.prems by auto
  then show ?case
  proof cases
    case 1
    then show ?thesis by (metis plug.simps(1))
  next
    case 2
    then obtain c' l' r' k where "l = plug (Nd c' l' x r') k" using Nd.IH(1) by blast
    then have "Nd c l a r = plug (Nd c' l' x r') (k @ [(SL, c, a, r)])" by (simp add: plug_append mk_def)
    then show ?thesis by blast
  next
    case 3
    then obtain c' l' r' k where "r = plug (Nd c' l' x r') k" using Nd.IH(2) by blast
    then have "Nd c l a r = plug (Nd c' l' x r') (k @ [(SR, c, a, l)])" by (simp add: plug_append mk_def)
    then show ?thesis by blast
  qed
qed simp

definition hd_opt :: "'a list \<Rightarrow> 'a option" where
  "hd_opt xs = (case xs of [] \<Rightarrow> None | x # _ \<Rightarrow> Some x)"

lemma hd_opt_simps [simp]: "hd_opt [] = None" "hd_opt (x # xs) = Some x" "hd_opt xs = None \<longleftrightarrow> xs = []"
  "xs \<noteq> [] \<Longrightarrow> hd_opt (xs @ ys) = hd_opt xs"
  by (auto simp: hd_opt_def split: list.splits)

section \<open>The place of a new node\<close>

text \<open>A strict weak order on a set of nodes, and sequences that respect it.\<close>

definition swo :: "rb_less \<Rightarrow> nat set \<Rightarrow> bool" where
  "swo lt A \<longleftrightarrow> (\<forall>a \<in> A. \<forall>b \<in> A. lt a b \<longrightarrow> \<not> lt b a) \<and> (\<forall>a \<in> A. \<forall>b \<in> A. \<forall>c \<in> A. lt a c \<longrightarrow> lt a b \<or> lt b c)"

definition in_order :: "rb_less \<Rightarrow> nat list \<Rightarrow> bool" where
  "in_order lt xs \<longleftrightarrow> sorted_wrt (\<lambda>a b. \<not> lt b a) xs"

definition insert_at :: "rb_less \<Rightarrow> nat \<Rightarrow> nat list \<Rightarrow> nat list" where
  "insert_at lt x xs = takeWhile (\<lambda>b. \<not> lt x b) xs @ x # dropWhile (\<lambda>b. \<not> lt x b) xs"

lemma insert_at_split:
  assumes "\<And>b. b \<in> set ys \<Longrightarrow> \<not> lt x b" "\<And>b. b \<in> set zs \<Longrightarrow> lt x b"
  shows "insert_at lt x (ys @ zs) = ys @ x # zs"
proof -
  have "takeWhile (\<lambda>b. \<not> lt x b) zs = []" "dropWhile (\<lambda>b. \<not> lt x b) zs = zs" using assms(2) by (cases zs; auto)+
  then show ?thesis using assms(1) by (simp add: insert_at_def takeWhile_append2 dropWhile_append2)
qed

lemma insert_at_in_order:
  assumes "in_order lt (ys @ zs)" "swo lt (insert x (set (ys @ zs)))" "\<And>b. b \<in> set ys \<Longrightarrow> \<not> lt x b" "\<And>b. b \<in> set zs \<Longrightarrow> lt x b"
  shows "in_order lt (ys @ x # zs)"
  using assms unfolding in_order_def swo_def by (auto simp: sorted_wrt_append)

fun lnk :: "frame list \<Rightarrow> rb_link" where
  "lnk [] = Link_root"
| "lnk ((s, c, a, y) # k) = (case s of SL \<Rightarrow> Link_left a | SR \<Rightarrow> Link_right a)"

lemma read_lnk: "rep h root t k \<Longrightarrow> read_link h root (lnk k) = Some (ptr t)"
proof (cases k rule: par.cases)
  case (2 s c a y k')
  assume "rep h root t k"
  then have "cells h a = Some (mkc s (par k') c (ptr t) (ptr y))" using 2 by (simp add: rep_def)
  from fld_cell(3) [OF this] show ?thesis using 2 by (cases s) (simp_all add: read_link_def fch_def)
qed (simp add: read_link_def rep_def rootptr_def)

lemma find_link_place:
  assumes "rep h root t k" "ord \<Longrightarrow> in_order lt (adr (plug t k))" "ord \<Longrightarrow> swo lt (insert x (set (adr (plug t k))))"
    and "\<And>b. ord \<Longrightarrow> b \<in> set (lft k) \<Longrightarrow> \<not> lt x b" "\<And>b. ord \<Longrightarrow> b \<in> set (rgt k) \<Longrightarrow> lt x b"
  shows "\<exists>k'. find_link h root lt x (lnk k) (par k) (lft k = []) = Some (lnk k', par k', lft k' = []) \<and> plug Lf k' = plug t k
    \<and> (ord \<longrightarrow> (\<forall>b \<in> set (lft k'). \<not> lt x b) \<and> (\<forall>b \<in> set (rgt k'). lt x b))"
  using assms
proof (induction t arbitrary: k)
  case Lf
  then show ?case using read_lnk [OF Lf.prems(1)] by (subst find_link.simps) auto
next
  case (Nd c l a r)
  have ordl: "\<not> lt a b" if ord "b \<in> set (adr l)" for b using Nd.prems(2) that by (auto simp: adr_plug in_order_def sorted_wrt_append)
  have ordr: "\<not> lt b a" if ord "b \<in> set (adr r)" for b using Nd.prems(2) that by (auto simp: adr_plug in_order_def sorted_wrt_append)
  have nt: "lt u w \<Longrightarrow> lt u v \<or> lt v w" if ord "{u, v, w} \<subseteq> insert x (set (adr (plug (Nd c l a r) k)))" for u v w
    using Nd.prems(3) that unfolding swo_def by blast
  have step: "find_link h root lt x (lnk k) (par k) (lft k = [])
      = (if lt x a then find_link h root lt x (Link_left a) (Some a) (lft k = []) else find_link h root lt x (Link_right a) (Some a) False)"
    using read_lnk [OF Nd.prems(1)] by (subst find_link.simps) simp
  show ?case
  proof (cases "lt x a")
    case True
    have "lt x b" if ord "b \<in> set (adr r)" for b using nt [of x a b] True ordr [OF that] that nt [of x b a] by auto
    then show ?thesis using Nd.IH(1) [of "(SL, c, a, r) # k"] Nd.prems step True by (auto simp: rep_move mk_def)
  next
    case False
    have "\<not> lt x b" if ord "b \<in> set (adr l)" for b using nt [of x b a] False ordl [OF that] that nt [of x a b] by auto
    then show ?thesis using Nd.IH(2) [of "(SR, c, a, l) # k"] Nd.prems step False by (auto simp: rep_move mk_def)
  qed
qed

lemma aok_disjoint: "X \<inter> set (adr t) = {} \<Longrightarrow> aok g X m t = aok g {} m t"
  by (induction t) (auto simp: Int_Un_distrib)

lemma aok_sibling: "aok g X m (plug t k) \<Longrightarrow> (s, c, a, y) \<in> set k \<Longrightarrow> aok g X m y"
proof (induction k arbitrary: t rule: cadr.induct)
  case (2 s' c' a' y' k)
  have "aok g X m (mk s' c' t a' y')" by (rule aok_plug_sub [of g X m _ k]) (use "2.prems"(1) in simp)
  then show ?case using "2.IH" [of "mk s' c' t a' y'"] "2.prems" by auto
qed simp

section \<open>Linking a new node\<close>

text \<open>Everything but the tree: what happens to owners, other nodes, other roots and the leftmost pointer.\<close>

definition owners :: "rb_heap \<Rightarrow> nat \<Rightarrow> nat option option" where
  "owners h b = map_option rb_owner (rb_nodes h b)"

definition leftmost :: "rb_heap \<Rightarrow> nat \<Rightarrow> nat option option" where
  "leftmost h root = map_option rt_leftmost (rb_roots h root)"

lemma step_views: "step root S h h' \<Longrightarrow> owners h' = owners h" "step root S h h' \<Longrightarrow> leftmost h' root = leftmost h root"
  "step root S h h' \<Longrightarrow> r \<noteq> root \<Longrightarrow> rb_roots h' r = rb_roots h r" "step root S h h' \<Longrightarrow> b \<notin> S \<Longrightarrow> rb_nodes h' b = rb_nodes h b"
  by (auto simp: step_def owners_def leftmost_def fun_eq_iff)

lemma set_leftmost:
  assumes "leftmost h root \<noteq> None"
  shows "\<exists>h'. upd_root h root (\<lambda>r. r\<lparr>rt_leftmost := q\<rparr>) = Some h' \<and> leftmost h' root = Some q \<and> rb_nodes h' = rb_nodes h
    \<and> rootptr h' root = rootptr h root \<and> (\<forall>r. r \<noteq> root \<longrightarrow> rb_roots h' r = rb_roots h r)"
  using assms by (auto simp: upd_root_def leftmost_def rootptr_def)

lemma links_step: "links h root S C R h' \<Longrightarrow> step root S h h'" by (simp add: links_def)

lemma write_lnk_links:
  assumes "cshape (cells h) (rootptr h root) None k" "cadr k \<subseteq> S"
  shows "\<exists>h'. write_link h root (lnk k) x = Some h' \<and> links h root S (rehang (cells h) k (Some x)) (if k = [] then Some (Some x) else rootptr h root) h'"
proof (cases k rule: par.cases)
  case 1
  then show ?thesis using assms by (auto simp: write_link_def upd_root_def links_def step_def cells_def rootptr_def fld_def fun_eq_iff)
next
  case (2 s d a y k')
  have a: "cells h a = Some (mkc s (par k') d None (ptr y))" "a \<in> S" using assms 2 by auto
  have "(\<lambda>n. n\<lparr>rb_left := q\<rparr>) = sch SL q" "(\<lambda>n. n\<lparr>rb_right := q\<rparr>) = sch SR q" for q by (simp_all add: sch_def fun_eq_iff)
  then have "write_link h root (lnk k) x = upd h a (sch s (Some x))" using 2 by (cases s) (auto simp: write_link_def)
  then show ?thesis using upd_child_links [OF a, of "Some x" root] 2 by simp
qed

definition new_node :: "nat option \<Rightarrow> nat \<Rightarrow> rb_node" where
  "new_node parent root = \<lparr>rb_parent = parent, rb_left = None, rb_right = None, rb_owner = Some root, rb_min_vruntime = 0, rb_col = RB_RED\<rparr>"

lemma link_new:
  assumes r: "rep h root Lf k" and x: "rb_nodes h x \<noteq> None" "x \<notin> cadr k"
  shows "\<exists>h'. Option.bind (upd h x (\<lambda>_. new_node (par k) root)) (\<lambda>h. write_link h root (lnk k) x) = Some h'
    \<and> rep h' root (Nd RB_RED Lf x Lf) k \<and> owners h' = (owners h)(x \<mapsto> Some root) \<and> leftmost h' root = leftmost h root
    \<and> (\<forall>b. b \<noteq> x \<longrightarrow> fld h' rb_min_vruntime b = fld h rb_min_vruntime b)
    \<and> (\<forall>b. b \<notin> insert x (cadr k) \<longrightarrow> rb_nodes h' b = rb_nodes h b) \<and> (\<forall>r. r \<noteq> root \<longrightarrow> rb_roots h' r = rb_roots h r)"
proof -
  define h1 where "h1 = h\<lparr>rb_nodes := (rb_nodes h)(x \<mapsto> new_node (par k) root)\<rparr>"
  have h1: "upd h x (\<lambda>_. new_node (par k) root) = Some h1" using x(1) by (auto simp: upd_def h1_def)
  have C1: "cells h1 = (cells h)(x \<mapsto> (par k, None, None, RB_RED))" "rootptr h1 root = rootptr h root" "leftmost h1 root = leftmost h root"
    by (auto simp: h1_def cells_def rootptr_def leftmost_def new_node_def fun_eq_iff)
  have cs: "cshape (cells h1) (rootptr h1 root) None k" using r x(2) by (simp add: C1 rep_def)
  obtain h2 where h2: "write_link h1 root (lnk k) x = Some h2"
      "links h1 root (insert x (cadr k)) (rehang (cells h1) k (Some x)) (if k = [] then Some (Some x) else rootptr h1 root) h2"
    using write_lnk_links [OF cs, of "insert x (cadr k)" x] by blast
  note st = step_views [OF links_step [OF h2(2)]]
  have "cdistinct k" using r by (simp add: rep_def distinct_plug)
  then have "rep h2 root (Nd RB_RED Lf x Lf) k"
    using h2(2) cshape_rehang [OF cs] x(2) by (auto simp: rep_def links_def C1 distinct_plug)
  moreover have "owners h2 = (owners h)(x \<mapsto> Some root)" using st(1) by (auto simp: owners_def h1_def new_node_def fun_eq_iff)
  moreover have "fld h2 rb_min_vruntime b = fld h rb_min_vruntime b" if "b \<noteq> x" for b
    using h2(2) that by (auto simp: links_def h1_def fld_def)
  moreover have "rb_nodes h2 b = rb_nodes h b" if "b \<notin> insert x (cadr k)" for b using st(4) [OF that] that by (simp add: h1_def)
  moreover have "rb_roots h2 r = rb_roots h r" if "r \<noteq> root" for r using st(3) [OF that] by (simp add: h1_def)
  ultimately show ?thesis using h1 h2(1) st(2) C1(3) by auto
qed

lemma aok_new:
  assumes "aok g {} m (plug t k)" "aok g {x} m' t'" "x \<in> set (adr t')" "\<And>a. a \<in> cadr k \<Longrightarrow> m' a = m a" "x \<notin> cadr k"
  shows "aok g {x} m' (plug t' k)"
  using assms
proof (induction k arbitrary: t t' rule: cadr.induct)
  case (2 s c a y k)
  have "aok g {} m (mk s c t a y)" by (rule aok_plug_sub [of g "{}" m _ k]) (use "2.prems"(1) in simp)
  then have "aok g {} m' y" using aok_cong [of y m' m g "{}"] "2.prems"(4) by simp
  then have "aok g {x} m' y" using aok_disjoint [of "{x}" y g m'] "2.prems"(5) by simp
  then have "aok g {x} m' (mk s c t' a y)" using "2.prems" by auto
  then show ?case using "2.IH" [of "mk s c t a y" "mk s c t' a y"] "2.prems" by simp
qed simp

section \<open>Insertion\<close>

definition rb_tree :: "aggregate option \<Rightarrow> rb_heap \<Rightarrow> nat \<Rightarrow> rbt \<Rightarrow> bool" where
  "rb_tree gv h root T \<longleftrightarrow> tree_at gv (set (adr T)) root {} h T [] \<and> (\<exists>m. rb m T) \<and> col T = RB_BLACK
     \<and> leftmost h root = Some (hd_opt (adr T)) \<and> (\<forall>a \<in> set (adr T). owners h a = Some (Some root))"

lemma vok_mv: "(\<And>a. a \<in> set (adr t) \<Longrightarrow> fld h' rb_min_vruntime a = fld h rb_min_vruntime a) \<Longrightarrow> vok gv X h' t = vok gv X h t"
  using aok_cong [of t "fld h' rb_min_vruntime" "fld h rb_min_vruntime"] by (simp add: vok_def)

context rb_callback
begin

lemma no_callback: "aug = None \<Longrightarrow> gv = None"
proof (rule ccontr)
  assume a: "aug = None" and "gv \<noteq> None"
  then obtain g where g: "gv = Some g" by blast
  define h where "h v = \<lparr>rb_nodes = [0 \<mapsto> \<lparr>rb_parent = None, rb_left = None, rb_right = None, rb_owner = None, rb_min_vruntime = v, rb_col = RB_RED\<rparr>],
    rb_roots = Map.empty\<rparr>" for v
  have "v = g 0 None None" for v
  proof -
    obtain w where "call_augment aug (h v) 0 = Some (set_mv (h v) 0 w)" "w = g 0 None None"
      using call [of "h v" 0] g by (force simp: h_def)
    then have "h v = set_mv (h v) 0 (g 0 None None)" using a by (simp add: call_augment_def)
    then have "rb_nodes (h v) 0 = rb_nodes (set_mv (h v) 0 (g 0 None None)) 0" by simp
    then show ?thesis by (simp add: h_def set_mv_def)
  qed
  from this [of 0] this [of 1] show False by simp
qed

lemma propagate_node:
  assumes t: "tree_at gv S root {x} h T []" and x: "x \<in> set (adr T)"
  shows "\<exists>h'. (if aug \<noteq> None then augment_propagate h (Some x) aug else Some h) = Some h' \<and> tree_at gv S root {} h' T [] \<and> step root S h h'"
proof (cases "aug = None")
  case True
  then show ?thesis using t no_callback by (auto simp: tree_at_def vok_def)
next
  case False
  obtain c l r k where T: "T = plug l ((SL, c, x, r) # k)" using plug_at [OF x] by (auto simp: mk_def)
  let ?k = "(SL, c, x, r) # k"
  have r: "rep h root l ?k" and S: "set (adr (plug l ?k)) \<subseteq> S" using t T rep_plug [of h root l ?k] by (simp_all add: tree_at_def)
  have v: "vok gv {} h u" if "u = l \<or> (\<exists>s c a. (s, c, a, u) \<in> set ?k)" for u
  proof -
    have d: "distinct (adr (plug l ?k))" using t T by (simp add: tree_at_def rep_def)
    have "x \<notin> set (adr u)" using that
    proof
      assume "u = l"
      then show ?thesis using d by (auto simp: distinct_plug distinct_adr_mk)
    next
      assume "\<exists>s c a. (s, c, a, u) \<in> set ?k"
      then obtain s' c' a' where u: "(s', c', a', u) \<in> set ?k" by blast
      then show ?thesis using d frame_cadr [of s' c' a' u k] by (auto simp: distinct_plug distinct_adr_mk)
    qed
    moreover have "aok g {x} (fld h rb_min_vruntime) (plug l ?k)" if "gv = Some g" for g using t that unfolding tree_at_def vok_def T by simp
    then have "vok gv {x} h u" using that aok_plug_sub aok_sibling unfolding vok_def by metis
    ultimately show ?thesis using aok_disjoint [of "{x}" u] by (simp add: vok_def)
  qed
  have "vok gv {} h l" by (rule v) blast
  then obtain h' where "augment_propagate h (par ?k) aug = Some h'" "tree_at gv S root {} h' l ?k" "step root S h h'"
    using propagate_tree [OF r S] v by blast
  then show ?thesis using False T tree_at_plug [of gv S root "{}" h' l ?k] by auto
qed

lemma insert_rest:
  assumes r: "rep h root (Nd RB_RED Lf x Lf) k" and v: "vok gv {x} h (plug (Nd RB_RED Lf x Lf) k)" and k: "rbk 0 k"
    and S: "S = insert x (cadr k)"
  shows "\<exists>h' T. do { h \<leftarrow> call_augment aug h x; h \<leftarrow> rb_insert_rebalance h root x aug;
        if aug \<noteq> None then augment_propagate h (Some x) aug else Some h } = Some h'
    \<and> tree_at gv S root {} h' T [] \<and> (\<exists>m. rb m T) \<and> col T = RB_BLACK \<and> adr T = lft k @ x # rgt k \<and> step root S h h'"
proof -
  let ?t = "Nd RB_RED Lf x Lf"
  obtain w where w: "call_augment aug h x = Some (set_mv h x w)" using call_cells [of h x SL "par k" RB_RED Lf Lf] r by (auto simp: rep_def mkc_def)
  let ?h = "set_mv h x w"
  have "x \<notin> cadr k" using r by (simp add: rep_def distinct_plug)
  then have "vok gv {x} ?h (plug ?t k)"
    using v aok_plug [of _ "{x}" "fld h rb_min_vruntime" ?t k "fld ?h rb_min_vruntime" ?t] set_mv_simps(4) unfolding vok_def
    by (metis (no_types, lifting) aok.simps adr.simps(2) Int_insert_left_if1 in_set_conv_decomp insert_not_empty)
  then have t1: "tree_at gv S root {x} ?h ?t k" using r S by (simp add: tree_at_def rep_def set_mv_simps)
  obtain h2 T m where h2: "rb_insert_rebalance ?h root x aug = Some h2" "tree_at gv S root {x} h2 T []" "rb m T" "col T = RB_BLACK" "adr T = adr (plug ?t k)"
      "step root S ?h h2"
    using insert_rebalance_tree [OF t1] k by fastforce
  obtain h3 where h3: "(if aug \<noteq> None then augment_propagate h2 (Some x) aug else Some h2) = Some h3" "tree_at gv S root {} h3 T []" "step root S h2 h3"
    using propagate_node [OF h2(2)] h2(5) by auto
  have "step root S h ?h" using S by (intro set_mv_simps(3)) simp
  then have "step root S h h3" using h2(6) h3(3) by (meson step_trans)
  then show ?thesis using w h2 h3 adr_plug [of ?t k] by (intro exI [of _ h3] exI [of _ T]) auto
qed

lemma insert_tree:
  assumes T: "rb_tree gv h root T" and x: "owners h x = Some None"
  shows "\<exists>h' T'. rb_insert_augmented h (Some root) (Some x) (Some lt) aug = Some (h', 0) \<and> rb_tree gv h' root T'
    \<and> (\<exists>ys zs. adr T = ys @ zs \<and> adr T' = ys @ x # zs)
    \<and> (in_order lt (adr T) \<and> swo lt (insert x (set (adr T))) \<longrightarrow> adr T' = insert_at lt x (adr T) \<and> in_order lt (adr T'))
    \<and> owners h' = (owners h)(x \<mapsto> Some root)
    \<and> (\<forall>b. b \<notin> insert x (set (adr T)) \<longrightarrow> rb_nodes h' b = rb_nodes h b) \<and> (\<forall>r. r \<noteq> root \<longrightarrow> rb_roots h' r = rb_roots h r)"
proof -
  have r: "rep h root T []" and v: "vok gv {} h T" and lm: "leftmost h root = Some (hd_opt (adr T))" and own: "\<And>a. a \<in> set (adr T) \<Longrightarrow> owners h a = Some (Some root)"
    using T by (auto simp: rb_tree_def tree_at_def)
  let ?ord = "in_order lt (adr T) \<and> swo lt (insert x (set (adr T)))"
  obtain k where k: "find_link h root lt x Link_root None True = Some (lnk k, par k, lft k = [])" "plug Lf k = T"
      "?ord \<longrightarrow> (\<forall>b \<in> set (lft k). \<not> lt x b) \<and> (\<forall>b \<in> set (rgt k). lt x b)"
    using find_link_place [of h root T "[]" ?ord lt x] r by auto
  have x': "x \<notin> set (adr T)" "rb_nodes h x \<noteq> None" using own [of x] x by (auto simp: owners_def)
  have adr: "adr T = lft k @ rgt k" "set (adr T) = cadr k" using k(2) adr_plug [of Lf k] set_adr_plug [of Lf k] by auto
  have rk: "rep h root Lf k" using r rep_plug [of h root Lf k] k(2) by simp
  obtain h1 where h1: "Option.bind (upd h x (\<lambda>_. new_node (par k) root)) (\<lambda>h. write_link h root (lnk k) x) = Some h1"
      "rep h1 root (Nd RB_RED Lf x Lf) k" "owners h1 = (owners h)(x \<mapsto> Some root)" "leftmost h1 root = leftmost h root"
      "\<And>b. b \<noteq> x \<Longrightarrow> fld h1 rb_min_vruntime b = fld h rb_min_vruntime b" "\<And>b. b \<notin> insert x (cadr k) \<Longrightarrow> rb_nodes h1 b = rb_nodes h b"
      "\<And>r. r \<noteq> root \<Longrightarrow> rb_roots h1 r = rb_roots h r"
    using link_new [OF rk x'(2)] x'(1) adr(2) by auto
  obtain h2 where h2: "(if lft k = [] then upd_root h1 root (\<lambda>r. r\<lparr>rt_leftmost := Some x\<rparr>) else Some h1) = Some h2"
      "leftmost h2 root = (if lft k = [] then Some (Some x) else leftmost h1 root)" "rb_nodes h2 = rb_nodes h1" "rootptr h2 root = rootptr h1 root"
      "\<And>r. r \<noteq> root \<Longrightarrow> rb_roots h2 r = rb_roots h1 r"
    using set_leftmost [of h1 root "Some x"] h1(4) lm that by (cases "lft k = []") auto
  have same: "cells h2 = cells h1" "owners h2 = owners h1" "fld h2 rb_min_vruntime = fld h1 rb_min_vruntime" using h2(3) by (auto simp: cells_def owners_def fld_def fun_eq_iff)
  have r2: "rep h2 root (Nd RB_RED Lf x Lf) k" using h1(2) by (simp add: rep_def same h2(4))
  have "fld h2 rb_min_vruntime b = fld h rb_min_vruntime b" if "b \<in> cadr k" for b using h1(5) [of b] x'(1) adr(2) that same(3) by auto
  then have "aok g {x} (fld h2 rb_min_vruntime) (plug (Nd RB_RED Lf x Lf) k)" if "gv = Some g" for g
    using v k(2) that x'(1) adr(2) by (intro aok_new [of g "fld h rb_min_vruntime" Lf]) (auto simp: vok_def)
  then have "vok gv {x} h2 (plug (Nd RB_RED Lf x Lf) k)" unfolding vok_def by blast
  moreover have "rbk 0 k" using T k(2) rb_unplug [of _ Lf k] unfolding rb_tree_def by auto
  ultimately obtain h3 T' where h3: "do { h \<leftarrow> call_augment aug h2 x; h \<leftarrow> rb_insert_rebalance h root x aug;
        if aug \<noteq> None then augment_propagate h (Some x) aug else Some h } = Some h3"
      "tree_at gv (insert x (cadr k)) root {} h3 T' []" "\<exists>m. rb m T'" "col T' = RB_BLACK" "adr T' = lft k @ x # rgt k" "step root (insert x (cadr k)) h2 h3"
    using insert_rest [OF r2] by blast
  note st = step_views [OF h3(6)]
  have adr': "?ord \<longrightarrow> adr T' = insert_at lt x (adr T) \<and> in_order lt (adr T')"
    using insert_at_split [of "lft k" lt x "rgt k"] insert_at_in_order [of lt "lft k" "rgt k" x] k(3) h3(5) adr(1) by auto
  have set': "set (adr T') = insert x (cadr k)" using h3(5) adr by auto
  have "rb_tree gv h3 root T'"
    using h3(2-4) set' st(1,2) h2(2) lm h1(3,4) own same(2) adr unfolding rb_tree_def h3(5) by (cases "lft k") auto
  moreover have "rb_insert_augmented h (Some root) (Some x) (Some lt) aug = Some (h3, 0)"
  proof -
    have "fld h rb_owner x = Some None" using x by (simp add: owners_def fld_def)
    moreover obtain h0 where "upd h x (\<lambda>_. new_node (par k) root) = Some h0" "write_link h0 root (lnk k) x = Some h1"
      using h1(1) by (auto simp: bind_eq_Some_conv)
    ultimately show ?thesis using k(1) h2(1) h3(1) by (auto simp: rb_insert_augmented_def new_node_def bind_eq_Some_conv)
  qed
  moreover have "owners h3 = (owners h)(x \<mapsto> Some root)" using st(1) same(2) h1(3) by simp
  moreover have "rb_nodes h3 b = rb_nodes h b" if "b \<notin> insert x (set (adr T))" for b using st(4) [of b] h1(6) [of b] h2(3) that adr(2) by auto
  moreover have "rb_roots h3 r = rb_roots h r" if "r \<noteq> root" for r using st(3) h2(5) h1(7) that by auto
  ultimately show ?thesis using adr' h3(5) adr(1) by blast
qed

end

end
