(* ===== verification/Rbtree_Erase.thy ===== *)
theory Rbtree_Erase
  imports Rbtree_Order
begin

text \<open>
  Rebalancing after a removal: a position that lacks one black node is repaired or moves towards
  the root, and the loop ends with a red-black tree that has the same nodes in the same order.
\<close>

section \<open>One round\<close>

definition efar :: "side \<Rightarrow> rb_heap \<Rightarrow> nat \<Rightarrow> nat \<Rightarrow> nat \<Rightarrow> rb_augment \<Rightarrow> (rb_heap \<times> (nat option \<times> nat option + nat option)) option" where
  "efar s h root parent b augment = do {
     c \<leftarrow> fld h rb_col parent;
     h \<leftarrow> set_color h b c;
     h \<leftarrow> set_color h parent RB_BLACK;
     sv \<leftarrow> fld h (fch (opp s)) b;
     h \<leftarrow> (case sv of None \<Rightarrow> Some h | Some a \<Rightarrow> set_color h a RB_BLACK);
     h \<leftarrow> rot s h root parent augment;
     r \<leftarrow> rb_roots h root;
     Some (h, Inr (rt_root r)) }"

definition erest :: "side \<Rightarrow> rb_heap \<Rightarrow> nat \<Rightarrow> nat \<Rightarrow> nat option \<Rightarrow> rb_augment \<Rightarrow> (rb_heap \<times> (nat option \<times> nat option + nat option)) option" where
  "erest s h root parent sibling augment =
     (case sibling of
        None \<Rightarrow> do { p \<leftarrow> fld h rb_parent parent; Some (h, Inl (Some parent, p)) }
      | Some b \<Rightarrow> do {
          su \<leftarrow> fld h (fch s) b; sv \<leftarrow> fld h (fch (opp s)) b;
          ured \<leftarrow> is_red h su; vred \<leftarrow> is_red h sv;
          if \<not> ured \<and> \<not> vred then do {
            h \<leftarrow> set_color h b RB_RED;
            p \<leftarrow> fld h rb_parent parent;
            Some (h, Inl (Some parent, p)) }
          else do {
            (h, b) \<leftarrow>
              (if \<not> vred then do {
                 h \<leftarrow> (case su of None \<Rightarrow> Some h | Some a \<Rightarrow> set_color h a RB_BLACK);
                 h \<leftarrow> set_color h b RB_RED;
                 h \<leftarrow> rot (opp s) h root b augment;
                 sibling \<leftarrow> fld h (fch (opp s)) parent; b \<leftarrow> sibling;
                 Some (h, b) }
               else Some (h, b));
            efar s h root parent b augment } })"

definition eround :: "side \<Rightarrow> rb_heap \<Rightarrow> nat \<Rightarrow> nat \<Rightarrow> rb_augment \<Rightarrow> (rb_heap \<times> (nat option \<times> nat option + nat option)) option" where
  "eround s h root parent augment = do {
     sibling \<leftarrow> fld h (fch (opp s)) parent;
     red \<leftarrow> is_red h sibling;
     (h, sibling) \<leftarrow>
       (if red then do {
          b \<leftarrow> sibling; h \<leftarrow> set_color h b RB_BLACK;
          h \<leftarrow> set_color h parent RB_RED;
          h \<leftarrow> rot s h root parent augment;
          sibling \<leftarrow> fld h (fch (opp s)) parent;
          Some (h, sibling) }
        else Some (h, sibling));
     erest s h root parent sibling augment }"

lemma fch_simps: "fch SL = rb_left" "fch SR = rb_right" by (simp_all add: fch_def)

lemma erest_SL:
  "erest SL h root parent sibling augment =
     (case sibling of
         None \<Rightarrow> do { p \<leftarrow> fld h rb_parent parent; Some (h, Inl (Some parent, p)) }
       | Some s \<Rightarrow> do {
           sl \<leftarrow> fld h rb_left s; sr \<leftarrow> fld h rb_right s;
           lred \<leftarrow> is_red h sl; rred \<leftarrow> is_red h sr;
           if \<not> lred \<and> \<not> rred then do {
             h \<leftarrow> set_color h s RB_RED;
             p \<leftarrow> fld h rb_parent parent;
             Some (h, Inl (Some parent, p)) }
           else do {
             (h, s) \<leftarrow>
               (if \<not> rred then do {
                  h \<leftarrow> (case sl of None \<Rightarrow> Some h | Some a \<Rightarrow> set_color h a RB_BLACK);
                  h \<leftarrow> set_color h s RB_RED;
                  h \<leftarrow> rb_rotate_right h root s augment;
                  sibling \<leftarrow> fld h rb_right parent; s \<leftarrow> sibling;
                  Some (h, s) }
                else Some (h, s));
             c \<leftarrow> fld h rb_col parent;
             h \<leftarrow> set_color h s c;
             h \<leftarrow> set_color h parent RB_BLACK;
             sr \<leftarrow> fld h rb_right s;
             h \<leftarrow> (case sr of None \<Rightarrow> Some h | Some a \<Rightarrow> set_color h a RB_BLACK);
             h \<leftarrow> rb_rotate_left h root parent augment;
             r \<leftarrow> rb_roots h root;
             Some (h, Inr (rt_root r)) } })"
  unfolding erest_def efar_def fch_simps opp.simps rotate_rot ..

lemma erest_SR:
  "erest SR h root parent sibling augment =
     (case sibling of
         None \<Rightarrow> do { p \<leftarrow> fld h rb_parent parent; Some (h, Inl (Some parent, p)) }
       | Some s \<Rightarrow> do {
           sl \<leftarrow> fld h rb_left s; sr \<leftarrow> fld h rb_right s;
           lred \<leftarrow> is_red h sl; rred \<leftarrow> is_red h sr;
           if \<not> lred \<and> \<not> rred then do {
             h \<leftarrow> set_color h s RB_RED;
             p \<leftarrow> fld h rb_parent parent;
             Some (h, Inl (Some parent, p)) }
           else do {
             (h, s) \<leftarrow>
               (if \<not> lred then do {
                  h \<leftarrow> (case sr of None \<Rightarrow> Some h | Some a \<Rightarrow> set_color h a RB_BLACK);
                  h \<leftarrow> set_color h s RB_RED;
                  h \<leftarrow> rb_rotate_left h root s augment;
                  sibling \<leftarrow> fld h rb_left parent; s \<leftarrow> sibling;
                  Some (h, s) }
                else Some (h, s));
             c \<leftarrow> fld h rb_col parent;
             h \<leftarrow> set_color h s c;
             h \<leftarrow> set_color h parent RB_BLACK;
             sl \<leftarrow> fld h rb_left s;
             h \<leftarrow> (case sl of None \<Rightarrow> Some h | Some a \<Rightarrow> set_color h a RB_BLACK);
             h \<leftarrow> rb_rotate_right h root parent augment;
             r \<leftarrow> rb_roots h root;
             Some (h, Inr (rt_root r)) } })"
proof (cases sibling)
  case (Some s)
  show ?thesis
  proof (cases "fld h rb_left s"; cases "fld h rb_right s")
    fix l r
    assume "fld h rb_left s = Some l" "fld h rb_right s = Some r"
    then show ?thesis unfolding Some erest_def efar_def fch_simps opp.simps rotate_rot
      by (cases "is_red h l"; cases "is_red h r") (simp_all add: conj_commute)
  qed (simp_all add: Some erest_def fch_simps)
qed (simp add: erest_def)

lemma erase_round_side:
  "erase_round h root node parent augment = do { pl \<leftarrow> fld h rb_left parent; eround (if node = pl then SL else SR) h root parent augment }"
proof (cases "fld h rb_left parent")
  case (Some pl)
  show ?thesis
  proof (cases "node = pl")
    case True
    show ?thesis unfolding erase_round_def eround_def Some bind.bind_lunit if_P [OF True] erest_SL fch_simps opp.simps rotate_rot ..
  next
    case False
    show ?thesis unfolding erase_round_def eround_def Some bind.bind_lunit if_not_P [OF False] erest_SR fch_simps opp.simps rotate_rot ..
  qed
qed (simp add: erase_round_def)

context rb_callback
begin

lemma efar_tree:
  assumes t: "tree_at gv S root X h t ((s, c, p, mk s d u b v) # k)" and v: "col v = RB_RED"
  shows "\<exists>h' T. efar s h root p b aug = Some (h', Inr (ptr T)) \<and> tree_at gv S root X h' T [] \<and> T = plug (mk s c (mk s RB_BLACK t p u) b (blk v)) k \<and> step root S h h'"
proof -
  obtain e v1 a v2 where m: "v = mk s e v1 a v2" using Nd_mk [of v s] v by (cases v) auto
  have "tree_at gv S root X h (mk s d u b v) ((opp s, c, p, t) # k)" using tree_at_sibling [THEN iffD1, OF t] .
  then obtain h1 where h1: "set_color h b c = Some h1" "tree_at gv S root X h1 (mk s c u b v) ((opp s, c, p, t) # k)" "step root S h h1"
    using set_color_tree by blast
  then have "tree_at gv S root X h1 (mk s c t p (mk s c u b v)) k" by (simp add: tree_at_move mk_opp)
  then obtain h2 where h2: "set_color h1 p RB_BLACK = Some h2" "tree_at gv S root X h2 (mk s RB_BLACK t p (mk s c u b v)) k" "step root S h1 h2"
    using set_color_tree by blast
  then have t2: "tree_at gv S root X h2 (mk s c u b v) ((opp s, RB_BLACK, p, t) # k)" by (simp add: tree_at_move mk_opp)
  have f: "fld h rb_col p = Some c" "fld h2 (fch (opp s)) b = Some (Some a)" using tree_at_above(2) [OF t] tree_at_fld(4) [OF t2] m by simp_all
  have "tree_at gv S root X h2 (mk s e v1 a v2) ((opp s, c, b, u) # (opp s, RB_BLACK, p, t) # k)" using t2 m by (simp add: tree_at_move mk_opp)
  then obtain h3 where h3: "set_color h2 a RB_BLACK = Some h3" "tree_at gv S root X h3 (mk s RB_BLACK v1 a v2) ((opp s, c, b, u) # (opp s, RB_BLACK, p, t) # k)" "step root S h2 h3"
    using set_color_tree by blast
  then have "tree_at gv S root X h3 (mk s RB_BLACK t p (mk s c u b (blk v))) k" using m by (simp add: tree_at_move mk_opp)
  then obtain h4 where h4: "rot s h3 root p aug = Some h4" "tree_at gv S root X h4 (mk s c (mk s RB_BLACK t p u) b (blk v)) k" "step root S h3 h4"
    using rot_tree by blast
  let ?T = "plug (mk s c (mk s RB_BLACK t p u) b (blk v)) k"
  have t4: "tree_at gv S root X h4 ?T []" using h4(2) tree_at_plug by blast
  then have "efar s h root p b aug = Some (h4, Inr (ptr ?T))"
    using f h1(1) h2(1) h3(1) h4(1) rootptr_tree [OF t4] by (auto simp: efar_def)
  moreover have "step root S h h4" using h1(3) h2(3) h3(3) h4(3) by (meson step_trans)
  ultimately show ?thesis using t4 by blast
qed

lemma erest_recolor:
  assumes t: "tree_at gv S root X h t ((s, c, p, mk s d u b v) # k)" and uv: "col u = RB_BLACK" "col v = RB_BLACK"
  shows "\<exists>h'. erest s h root p (Some b) aug = Some (h', Inl (Some p, par k)) \<and> tree_at gv S root X h' (mk s c t p (mk s RB_RED u b v)) k \<and> step root S h h'"
proof -
  have t0: "tree_at gv S root X h (mk s d u b v) ((opp s, c, p, t) # k)" using tree_at_sibling [THEN iffD1, OF t] .
  then obtain h1 where h1: "set_color h b RB_RED = Some h1" "tree_at gv S root X h1 (mk s RB_RED u b v) ((opp s, c, p, t) # k)" "step root S h h1"
    using set_color_tree by blast
  moreover have "is_red h (ptr u) = Some False" "is_red h (ptr v) = Some False"
    using t0 uv is_red_tree [of gv S root X h u "(s, d, b, v) # (opp s, c, p, t) # k"] is_red_tree [of gv S root X h v "(opp s, d, b, u) # (opp s, c, p, t) # k"]
    by (simp_all add: tree_at_move mk_opp)
  moreover have "fld h1 rb_parent p = Some (par k)" using tree_at_above(1) [OF h1(2)] .
  ultimately show ?thesis using tree_at_fld(3,4) [OF t0] by (auto simp: erest_def tree_at_move mk_opp)
qed

lemma erest_repair:
  assumes t: "tree_at gv S root X h t ((s, c, p, mk s d u b v) # k)" and uv: "col u = RB_RED \<or> col v = RB_RED"
  shows "\<exists>h' T. erest s h root p (Some b) aug = Some (h', Inr (ptr T)) \<and> tree_at gv S root X h' T [] \<and> step root S h h'
    \<and> (col v = RB_RED \<and> T = plug (mk s c (mk s RB_BLACK t p u) b (blk v)) k
       \<or> col v = RB_BLACK \<and> (\<exists>u1 e u2. u = mk s RB_RED u1 e u2 \<and> T = plug (mk s c (mk s RB_BLACK t p u1) e (mk s RB_BLACK u2 b v)) k))"
proof -
  have t0: "tree_at gv S root X h (mk s d u b v) ((opp s, c, p, t) # k)" using tree_at_sibling [THEN iffD1, OF t] .
  have red: "is_red h (ptr u) = Some (col u = RB_RED)" "is_red h (ptr v) = Some (col v = RB_RED)"
    using t0 is_red_tree [of gv S root X h u "(s, d, b, v) # (opp s, c, p, t) # k"] is_red_tree [of gv S root X h v "(opp s, d, b, u) # (opp s, c, p, t) # k"]
    by (simp_all add: tree_at_move mk_opp)
  note f = tree_at_fld(3,4) [OF t0]
  show ?thesis
  proof (cases "col v")
    case RB_RED
    then have "erest s h root p (Some b) aug = efar s h root p b aug" using f red by (simp add: erest_def)
    then show ?thesis using efar_tree [OF t RB_RED] RB_RED by auto
  next
    case RB_BLACK
    then have red_u: "col u = RB_RED" using uv by simp
    then have "u \<noteq> Lf" by auto
    then obtain w u1 e u2 where m: "u = mk s w u1 e u2" using Nd_mk by blast
    then have w: "w = RB_RED" using red_u by simp
    have "tree_at gv S root X h (mk s w u1 e u2) ((s, d, b, v) # (opp s, c, p, t) # k)" using t0 m by (simp add: tree_at_move)
    then obtain h1 where h1: "set_color h e RB_BLACK = Some h1" "tree_at gv S root X h1 (mk s RB_BLACK u1 e u2) ((s, d, b, v) # (opp s, c, p, t) # k)" "step root S h h1"
      using set_color_tree by blast
    then have "tree_at gv S root X h1 (mk s d (mk s RB_BLACK u1 e u2) b v) ((opp s, c, p, t) # k)" by (simp add: tree_at_move)
    then obtain h2 where h2: "set_color h1 b RB_RED = Some h2" "tree_at gv S root X h2 (mk s RB_RED (mk s RB_BLACK u1 e u2) b v) ((opp s, c, p, t) # k)" "step root S h1 h2"
      using set_color_tree by blast
    obtain h3 where h3: "rot (opp s) h2 root b aug = Some h3" "tree_at gv S root X h3 (mk s RB_BLACK u1 e (mk s RB_RED u2 b v)) ((opp s, c, p, t) # k)" "step root S h2 h3"
      using rot_tree [of S root X h2 "opp s" RB_RED v b RB_BLACK u2 e u1 "(opp s, c, p, t) # k"] h2(2) by (auto simp: mk_opp)
    then have t3: "tree_at gv S root X h3 t ((s, c, p, mk s RB_BLACK u1 e (mk s RB_RED u2 b v)) # k)" by (simp add: tree_at_move mk_opp)
    obtain h4 T where h4: "efar s h3 root p e aug = Some (h4, Inr (ptr T))" "tree_at gv S root X h4 T []" "step root S h3 h4"
        "T = plug (mk s c (mk s RB_BLACK t p u1) e (mk s RB_BLACK u2 b v)) k"
      using efar_tree [OF t3] by auto
    have "fld h3 (fch (opp s)) p = Some (Some e)" using tree_at_above(4) [OF t3] by simp
    then have "erest s h root p (Some b) aug = Some (h4, Inr (ptr T))"
      using f red RB_BLACK m w h1(1) h2(1) h3(1) h4(1) by (simp add: erest_def)
    moreover have "step root S h h4" using h1(3) h2(3) h3(3) h4(3) by (meson step_trans)
    ultimately show ?thesis using h4(2,4) RB_BLACK m w by blast
  qed
qed

section \<open>The loop\<close>

end

definition finish :: "rb_heap \<Rightarrow> nat option \<Rightarrow> rb_heap option" where
  "finish h node = (case node of None \<Rightarrow> Some h | Some a \<Rightarrow> set_color h a RB_BLACK)"

definition next_round :: "nat \<Rightarrow> rb_augment \<Rightarrow> rb_heap \<times> (nat option \<times> nat option + nat option) \<Rightarrow> rb_heap option" where
  "next_round root augment x = (case snd x of Inl y \<Rightarrow> rb_erase_rebalance (fst x) root (fst y) (snd y) augment | Inr node \<Rightarrow> finish (fst x) node)"

lemma rebalance_unfold:
  "rb_erase_rebalance h root node parent augment = do {
     red \<leftarrow> is_red h node; r \<leftarrow> rb_roots h root;
     if \<not> red \<and> node \<noteq> rt_root r then
       (case parent of
          None \<Rightarrow> finish h node
        | Some p \<Rightarrow> Option.bind (erase_round h root node p augment) (next_round root augment))
     else finish h node }"
proof -
  have "(case x of Inl y \<Rightarrow> Option.bind (f y) g | Inr z \<Rightarrow> g z) = Option.bind (case x of Inl y \<Rightarrow> f y | Inr z \<Rightarrow> Some z) g" for x :: "'a + 'b" and f and g :: "'b \<Rightarrow> 'c option"
    by (cases x) auto
  show ?thesis unfolding rb_erase_rebalance_def
    by (subst erase_loop.simps) (auto simp: finish_def next_round_def rb_erase_rebalance_def fun_eq_iff split: option.split sum.split intro!: Option.bind_cong)
qed

text \<open>The outcome: a red-black tree with the nodes \<open>xs\<close> in this order.\<close>

definition settled :: "aggregate option \<Rightarrow> nat set \<Rightarrow> nat \<Rightarrow> nat set \<Rightarrow> rb_heap \<Rightarrow> nat list \<Rightarrow> rb_heap option \<Rightarrow> bool" where
  "settled gv S root X h xs res \<longleftrightarrow>
     (\<exists>h' T m. res = Some h' \<and> tree_at gv S root X h' T [] \<and> rb m T \<and> col T = RB_BLACK \<and> adr T = xs \<and> step root S h h')"

lemma settled_step: "step root S h h' \<Longrightarrow> settled gv S root X h' xs res \<Longrightarrow> settled gv S root X h xs res"
  by (auto simp: settled_def dest: step_trans)

lemma settledI:
  assumes "tree_at gv S root X h t k" "rb n t" "rbk n k" "col t = RB_RED \<Longrightarrow> k \<noteq> [] \<and> kcol k = RB_BLACK" "adr (plug t k) = xs"
  shows "settled gv S root X h xs (Some h)"
  using rb_plug [OF assms(2-4)] tree_at_plug [THEN iffD1, OF assms(1)] assms(5) unfolding settled_def by auto

lemma finish_black:
  assumes t: "tree_at gv S root X h t k" and n: "rb n (blk t)" "rbk n k"
  shows "settled gv S root X h (adr (plug t k)) (finish h (ptr t))"
proof (cases "t = Lf")
  case True
  then show ?thesis using settledI [OF t, of n] n by (simp add: finish_def)
next
  case False
  then obtain c x a y where m: "t = mk SL c x a y" using Nd_mk by blast
  then obtain h' where h': "set_color h a RB_BLACK = Some h'" "tree_at gv S root X h' (mk SL RB_BLACK x a y) k" "step root S h h'"
    using set_color_tree t by blast
  then have "settled gv S root X h' (adr (plug t k)) (Some h')"
    using settledI [OF h'(2), of n] n m adr_plug_cong [of "mk SL RB_BLACK x a y" t k] by (simp add: adr_mk)
  then show ?thesis using h' m settled_step [OF h'(3)] by (simp add: finish_def)
qed

lemma root_below: "tree_at gv S root X h t (f # k) \<Longrightarrow> rb_roots h root = Some r \<Longrightarrow> ptr t \<noteq> rt_root r"
proof -
  assume t: "tree_at gv S root X h t (f # k)" and r: "rb_roots h root = Some r"
  have "\<exists>a \<in> cadr (f # k). rootptr h root = Some (Some a)"
  proof -
    have "\<exists>a \<in> cadr k. R = Some (Some a)" if "cshape C R p k" "k \<noteq> []" for C R p k
      using that
    proof (induction k arbitrary: p)
      case (Cons f k)
      obtain s c a y where "f = (s, c, a, y)" by (cases f)
      then show ?case using Cons by (cases "k = []") auto
    qed simp
    then show ?thesis using t by (fastforce simp: tree_at_def rep_def)
  qed
  then show ?thesis using t r ptr_adr [of t] by (auto simp: tree_at_def rep_def distinct_plug rootptr_def)
qed

lemma rebalance_red:
  assumes t: "tree_at gv S root X h t k" and c: "col t = RB_RED" and n: "rb n (blk t)" "rbk n k"
  shows "settled gv S root X h (adr (plug t k)) (rb_erase_rebalance h root (ptr t) parent augment)"
proof -
  obtain r where "rb_roots h root = Some r" using t rootptr_tree [OF tree_at_plug [THEN iffD1, OF t]] by blast
  then show ?thesis using is_red_tree [OF t] c finish_black [OF t n] by (subst rebalance_unfold) simp
qed

lemma rb_top:
  assumes "rb (Suc n) x" "rb (Suc n) y" "col x = RB_BLACK" "col y = RB_BLACK" "rbk (Suc n) ((s', c, p, z) # k)"
  shows "(\<exists>m. rb m (plug (mk s c x a y) k)) \<and> col (plug (mk s c x a y) k) = RB_BLACK"
proof (cases c)
  case RB_RED
  then show ?thesis using assms by (intro rb_plug [of "Suc n"]) auto
next
  case RB_BLACK
  then show ?thesis using assms by (intro rb_plug [of "Suc (Suc n)"]) auto
qed

context rb_callback
begin

lemma rebalance_sibling:
  assumes t: "tree_at gv S root X h t ((s, c, p, mk s RB_BLACK u b v) # k)" and n: "rb n t" "col t = RB_BLACK" "rbk (Suc n) ((s, c, p, mk s RB_BLACK u b v) # k)"
    and up: "\<And>h t n. c = RB_BLACK \<Longrightarrow> tree_at gv S root X h t k \<Longrightarrow> rb n t \<Longrightarrow> rbk (Suc n) k \<Longrightarrow>
      settled gv S root X h (adr (plug t k)) (rb_erase_rebalance h root (ptr t) (par k) aug)"
  shows "settled gv S root X h (adr (plug t ((s, c, p, mk s RB_BLACK u b v) # k))) (Option.bind (erest s h root p (Some b) aug) (next_round root aug))"
proof -
  have uv: "rb n u" "rb n v" using n(3) by auto
  show ?thesis
  proof (cases "col u = RB_BLACK \<and> col v = RB_BLACK")
    case True
    let ?t = "mk s c t p (mk s RB_RED u b v)"
    obtain h' where h': "erest s h root p (Some b) aug = Some (h', Inl (Some p, par k))" "tree_at gv S root X h' ?t k" "step root S h h'"
      using erest_recolor [OF t] True by blast
    have adr: "adr (plug ?t k) = adr (plug t ((s, c, p, mk s RB_BLACK u b v) # k))" by (simp, rule adr_plug_cong) (simp add: adr_mk split: side.split)
    have "settled gv S root X h' (adr (plug ?t k)) (rb_erase_rebalance h' root (ptr ?t) (par k) aug)"
    proof (cases c)
      case RB_RED
      then show ?thesis using rebalance_red [OF h'(2), of "Suc n"] n uv True by auto
    next
      case RB_BLACK
      then show ?thesis using up [OF _ h'(2), of "Suc n"] n uv True by auto
    qed
    then show ?thesis using h' settled_step [OF h'(3)] adr by (simp add: next_round_def)
  next
    case False
    then have "col u = RB_RED \<or> col v = RB_RED" by (cases "col u"; cases "col v") auto
    from erest_repair [OF t this] obtain h' T where h': "erest s h root p (Some b) aug = Some (h', Inr (ptr T))" "tree_at gv S root X h' T []" "step root S h h'"
      and T: "col v = RB_RED \<and> T = plug (mk s c (mk s RB_BLACK t p u) b (blk v)) k
       \<or> col v = RB_BLACK \<and> (\<exists>u1 e u2. u = mk s RB_RED u1 e u2 \<and> T = plug (mk s c (mk s RB_BLACK t p u1) e (mk s RB_BLACK u2 b v)) k)"
      by blast
    have "((\<exists>m. rb m T) \<and> col T = RB_BLACK) \<and> adr T = adr (plug t ((s, c, p, mk s RB_BLACK u b v) # k))"
      using T
    proof
      assume v: "col v = RB_RED \<and> T = plug (mk s c (mk s RB_BLACK t p u) b (blk v)) k"
      have "adr T = adr (plug t ((s, c, p, mk s RB_BLACK u b v) # k))" using v by (simp, intro adr_plug_cong) (simp add: adr_mk split: side.split)
      moreover have "rb (Suc n) (blk v)" "rb (Suc n) (mk s RB_BLACK t p u)" using rb_blk [OF uv(2)] v uv(1) n(1) by simp_all
      ultimately show ?thesis using rb_top [OF _ _ _ _ n(3), of "mk s RB_BLACK t p u" "blk v" s b] v by simp
    next
      assume v: "col v = RB_BLACK \<and> (\<exists>u1 e u2. u = mk s RB_RED u1 e u2 \<and> T = plug (mk s c (mk s RB_BLACK t p u1) e (mk s RB_BLACK u2 b v)) k)"
      then obtain u1 e u2 where u: "u = mk s RB_RED u1 e u2" "T = plug (mk s c (mk s RB_BLACK t p u1) e (mk s RB_BLACK u2 b v)) k" by blast
      have "adr T = adr (plug t ((s, c, p, mk s RB_BLACK u b v) # k))" using u by (simp, intro adr_plug_cong) (simp add: adr_mk split: side.split)
      moreover have "rb (Suc n) (mk s RB_BLACK t p u1)" "rb (Suc n) (mk s RB_BLACK u2 b v)" using u(1) uv n(1) by simp_all
      ultimately show ?thesis using rb_top [OF _ _ _ _ n(3), of "mk s RB_BLACK t p u1" "mk s RB_BLACK u2 b v" s e] u(2) by simp
    qed
    then obtain m where m: "rb m T" "col T = RB_BLACK" "adr T = adr (plug t ((s, c, p, mk s RB_BLACK u b v) # k))" by blast
    then have "rb m (blk T)" using rb_blk [OF m(1)] by simp
    then show ?thesis using finish_black [OF h'(2)] h'(1) settled_step [OF h'(3)] m(3) by (simp add: next_round_def)
  qed
qed

lemma rebalance_red_sibling:
  assumes t: "tree_at gv S root X h t ((s, RB_BLACK, p, mk s RB_RED y1 b y2) # k)" and n: "rb n t" "col t = RB_BLACK" "rbk (Suc n) ((s, RB_BLACK, p, mk s RB_RED y1 b y2) # k)"
  shows "settled gv S root X h (adr (plug t ((s, RB_BLACK, p, mk s RB_RED y1 b y2) # k))) (Option.bind (eround s h root p aug) (next_round root aug))"
proof -
  have "tree_at gv S root X h (mk s RB_RED y1 b y2) ((opp s, RB_BLACK, p, t) # k)" using tree_at_sibling [THEN iffD1, OF t] .
  then obtain h1 where h1: "set_color h b RB_BLACK = Some h1" "tree_at gv S root X h1 (mk s RB_BLACK y1 b y2) ((opp s, RB_BLACK, p, t) # k)" "step root S h h1"
    using set_color_tree by blast
  then have "tree_at gv S root X h1 (mk s RB_BLACK t p (mk s RB_BLACK y1 b y2)) k" by (simp add: tree_at_move mk_opp)
  then obtain h2 where h2: "set_color h1 p RB_RED = Some h2" "tree_at gv S root X h2 (mk s RB_RED t p (mk s RB_BLACK y1 b y2)) k" "step root S h1 h2"
    using set_color_tree by blast
  obtain h3 where h3: "rot s h2 root p aug = Some h3" "tree_at gv S root X h3 (mk s RB_BLACK (mk s RB_RED t p y1) b y2) k" "step root S h2 h3"
    using rot_tree [OF h2(2)] by blast
  let ?k = "(s, RB_RED, p, y1) # (s, RB_BLACK, b, y2) # k"
  have t3: "tree_at gv S root X h3 t ?k" using h3(2) by (simp add: tree_at_move)
  have y1: "rb (Suc n) y1" "col y1 = RB_BLACK" "rbk (Suc n) ?k" using n(3) by auto
  then obtain d u a v where "y1 = mk s d u a v" using Nd_mk [of y1 s] by (cases y1) auto
  then have m: "y1 = mk s RB_BLACK u a v" using y1(2) by simp
  have e1: "settled gv S root X h3 (adr (plug t ?k)) (Option.bind (erest s h3 root p (Some a) aug) (next_round root aug))"
    using rebalance_sibling [of S root X h3 t s RB_RED p u a v "(s, RB_BLACK, b, y2) # k" n] t3 y1(3) n(1,2) m by auto
  have e2: "eround s h root p aug = erest s h3 root p (Some a) aug"
    using uncle_tree [OF t] h1(1) h2(1) h3(1) tree_at_above(4) [OF t3] m by (simp add: eround_def)
  have e3: "adr (plug t ?k) = adr (plug t ((s, RB_BLACK, p, mk s RB_RED y1 b y2) # k))"
    by (simp, rule adr_plug_cong) (simp add: adr_mk split: side.split)
  have e4: "step root S h h3" using h1(3) h2(3) h3(3) by (meson step_trans)
  show ?thesis unfolding e2 e3 [symmetric] by (rule settled_step [OF e4 e1])
qed

lemma erase_rebalance_tree:
  "tree_at gv S root X h t k \<Longrightarrow> rb n t \<Longrightarrow> rbk (Suc n) k \<Longrightarrow> settled gv S root X h (adr (plug t k)) (rb_erase_rebalance h root (ptr t) (par k) aug)"
proof (induction k arbitrary: h t n)
  case Nil
  show ?case
  proof (cases "col t")
    case RB_RED
    then show ?thesis using rebalance_red [OF Nil.prems(1)] rb_blk [OF Nil.prems(2)] by simp
  next
    case RB_BLACK
    then show ?thesis using finish_black [OF Nil.prems(1), of n] rb_blk [OF Nil.prems(2)] rootptr_tree [OF Nil.prems(1)] is_red_tree [OF Nil.prems(1)]
      by (subst rebalance_unfold) auto
  qed
next
  case (Cons f k)
  note t = Cons.prems(1) and n = Cons.prems(2,3)
  obtain s c p y where f: "f = (s, c, p, y)" by (cases f)
  show ?case
  proof (cases "col t")
    case RB_RED
    then show ?thesis using rebalance_red [OF t _ _ n(2)] rb_blk [OF n(1)] by simp
  next
    case RB_BLACK
    have y: "rb (Suc n) y" "c = RB_RED \<Longrightarrow> col y = RB_BLACK" using n(2) f by auto
    then obtain d u b v where m: "y = mk s d u b v" using Nd_mk [of y s] by (cases y) auto
    note t = t [unfolded f m] and n = n [unfolded f m]
    obtain r where r: "rb_roots h root = Some r" using rootptr_tree [OF tree_at_plug [THEN iffD1, OF t]] by blast
    have "ptr t \<noteq> Some b" using t ptr_adr [of t b] by (auto simp: tree_at_def rep_def distinct_plug distinct_adr_mk)
    then obtain pl where "fld h rb_left p = Some pl" "(if ptr t = pl then SL else SR) = s"
      using tree_at_above(3,4) [OF t] by (cases s) (auto simp: fch_def)
    then have "erase_round h root (ptr t) p aug = eround s h root p aug" by (simp add: erase_round_side)
    then have loop: "rb_erase_rebalance h root (ptr t) (par (f # k)) aug = Option.bind (eround s h root p aug) (next_round root aug)"
      using is_red_tree [OF t] RB_BLACK r root_below [OF t r] f by (subst rebalance_unfold) simp
    show ?thesis
    proof (cases d)
      case RB_RED
      then have c: "c = RB_BLACK" using y(2) m by (cases c) auto
      show ?thesis using rebalance_red_sibling [of S root X h t s p u b v k n] t n \<open>col t = RB_BLACK\<close> loop f m RB_RED c by simp
    next
      case RB_BLACK
      have "eround s h root p aug = erest s h root p (Some b) aug" using uncle_tree [OF t] RB_BLACK by (simp add: eround_def)
      then show ?thesis
        using rebalance_sibling [of S root X h t s c p u b v k n] t n \<open>col t = RB_BLACK\<close> Cons.IH loop f m RB_BLACK by simp
    qed
  qed
qed

end

end
