(* ===== verification/Rbtree_Remove.thy ===== *)
theory Rbtree_Remove
  imports Rbtree_Erase
begin

text \<open>
  Successors, and unlinking a node: what \<^verbatim>\<open>rb_next\<close> returns, and the tree that is left when a node
  without two children is taken out or replaced by its successor.
\<close>

section \<open>Successors\<close>

lemma rep_append: "rep h root t (kk @ k) \<longleftrightarrow> rep h root (plug t kk) k"
  using rep_plug [of h root t "kk @ k"] rep_plug [of h root "plug t kk" k] by (simp add: plug_append)

lemma subtree_min_tree:
  assumes "rep h root t k" "ptr t = Some a"
  shows "\<exists>c s rr kk. t = plug (Nd c Lf s rr) kk \<and> lft kk = [] \<and> rb_subtree_min h a = Some s \<and> (kk = [] \<longleftrightarrow> s = a)"
  using assms
proof (induction t arbitrary: k a)
  case (Nd c l b r)
  have b: "b = a" using Nd.prems(2) by simp
  have "cells h a = Some (mkc SL (par k) c (ptr l) (ptr r))" using Nd.prems(1) b by (simp add: rep_def mkc_def)
  from fld_cell(3) [OF this] have f: "fld h rb_left a = Some (ptr l)" by (simp add: fch_def)
  show ?case
  proof (cases l)
    case Lf
    then have "Nd c l b r = plug (Nd c Lf a r) []" using b by simp
    then show ?thesis using f Lf by (subst rb_subtree_min.simps) (fastforce)
  next
    case l: (Nd c' l' a' r')
    have "rep h root l ((SL, c, b, r) # k)" using Nd.prems(1) by (simp add: rep_move mk_def)
    then obtain c2 s rr kk where IH: "l = plug (Nd c2 Lf s rr) kk" "lft kk = []" "rb_subtree_min h a' = Some s"
      using Nd.IH(1) [of "(SL, c, b, r) # k" a'] l by auto
    have "Nd c l b r = plug (Nd c2 Lf s rr) (kk @ [(SL, c, b, r)])" using IH(1) by (simp add: plug_append mk_def)
    moreover have "lft (kk @ [(SL, c, b, r)]) = []" using IH(2) by (induction kk rule: lft.induct) (auto split: side.splits)
    moreover have "rb_subtree_min h a = Some s" using f l IH(3) by (subst rb_subtree_min.simps) simp
    moreover have "s \<noteq> a"
    proof -
      have "s \<in> set (adr l)" unfolding IH(1) by simp
      then show ?thesis using Nd.prems(1) b by (auto simp: rep_def distinct_plug)
    qed
    ultimately show ?thesis by blast
  qed
qed simp

lemma next_up_tree: "rep h root t k \<Longrightarrow> ptr t = Some a \<Longrightarrow> next_up h a (par k) = Some (hd_opt (rgt k))"
proof (induction k arbitrary: t a)
  case Nil
  then show ?case by (subst next_up.simps) simp
next
  case (Cons f k)
  obtain s c p y where f: "f = (s, c, p, y)" by (cases f)
  have r: "rep h root (mk s c t p y) k" using Cons.prems(1) f by (simp add: rep_move)
  note cell = fld_cell [OF rep_cell [OF r]]
  show ?case
  proof (cases s)
    case SL
    have "ptr y \<noteq> Some a" using r ptr_adr [of y a] ptr_adr [OF Cons.prems(2)] by (auto simp: rep_def distinct_plug distinct_adr_mk)
    then show ?thesis using cell f SL by (subst next_up.simps) (simp add: fch_def)
  next
    case SR
    then show ?thesis using cell f Cons.IH [OF r] Cons.prems(2) by (subst next_up.simps) (simp add: fch_def)
  qed
qed

lemma rb_next_tree:
  assumes r: "rep h root (Nd c l x rr) k" and x: "owners h x \<noteq> Some None"
  shows "rb_next h (Some x) = Some (hd_opt (adr rr @ rgt k))"
proof -
  have "cells h x = Some (mkc SL (par k) c (ptr l) (ptr rr))" using r by (simp add: rep_def mkc_def)
  then obtain n where n: "rb_nodes h x = Some n" "rb_right n = ptr rr" "rb_parent n = par k" by (auto simp: cells_def mkc_def)
  then have o: "rb_owner n \<noteq> None" using x by (auto simp: owners_def)
  show ?thesis
  proof (cases rr)
    case Lf
    then show ?thesis using n o next_up_tree [OF r] by (auto simp: rb_next_def)
  next
    case (Nd c' l' a r')
    have "rep h root rr ((SR, c, x, l) # k)" using r by (simp add: rep_move mk_def)
    then obtain c2 s r2 kk where m: "rr = plug (Nd c2 Lf s r2) kk" "lft kk = []" "rb_subtree_min h a = Some s"
      using subtree_min_tree [of h root rr _ a] Nd by fastforce
    have "rb_right n = Some a" using n(2) Nd by simp
    then have "rb_next h (Some x) = Some (Some s)" using n(1) o m(3) by (auto simp: rb_next_def)
    moreover have "adr rr = s # adr r2 @ rgt kk" using m(1,2) by (simp add: adr_plug)
    ultimately show ?thesis by simp
  qed
qed

section \<open>Replacing a subtree\<close>

lemma transplant_links:
  assumes c: "cshape (cells h) (rootptr h root) (Some a) k" and p: "fld h rb_parent a = Some (par k)" and a: "a \<notin> cadr k"
    and u: "shape (cells h) q u" "set (adr u) \<inter> cadr k = {}" and S: "set (adr u) \<union> cadr k \<subseteq> S"
  shows "\<exists>h'. rb_transplant h root a (ptr u) = Some h'
    \<and> links h root S (reparent (rehang (cells h) k (ptr u)) u (par k)) (if k = [] then Some (ptr u) else rootptr h root) h'"
proof -
  obtain h1 where h1: "relink h root a (ptr u) = Some h1" "links h root S (rehang (cells h) k (ptr u)) (if k = [] then Some (ptr u) else rootptr h root) h1"
    using relink_links [OF c p _ a, of S "ptr u"] S by auto
  have "cells h1 a = cells h a" using h1(2) a by (simp add: links_def)
  then have p1: "fld h1 rb_parent a = Some (par k)" using p by (auto simp: fld_def cells_def map_option_eq_Some)
  have "shape (cells h1) q u" using h1(2) u shape_rehang [OF u(2)] by (simp add: links_def)
  then obtain h2 where "set_parent h1 (ptr u) (par k) = Some h2" "links h1 root S (reparent (cells h1) u (par k)) (rootptr h1 root) h2"
    using set_parent_links [of h1 q u S "par k" root] S by auto
  then show ?thesis using h1 p1 links_trans by (auto simp: rb_transplant_def links_def intro: step_trans)
qed

lemma transplant_rep:
  assumes r: "rep h root (mk s c u x Lf) k" and S: "set (adr (plug (mk s c u x Lf) k)) \<subseteq> S"
  shows "\<exists>h'. rb_transplant h root x (ptr u) = Some h' \<and> rep h' root u k \<and> step root S h h'
    \<and> (\<forall>b. fld h' rb_min_vruntime b = fld h rb_min_vruntime b) \<and> cells h' x = cells h x"
proof -
  have d: "x \<notin> cadr k" "x \<notin> set (adr u)" "set (adr u) \<inter> cadr k = {}" "distinct (adr u)" "cdistinct k" using r by (auto simp: rep_def distinct_plug distinct_adr_mk)
  have sh: "cshape (cells h) (rootptr h root) (Some x) k" "shape (cells h) (Some x) u" using r by (auto simp: rep_def)
  let ?C = "reparent (rehang (cells h) k (ptr u)) u (par k)"
  obtain h' where h': "rb_transplant h root x (ptr u) = Some h'" "links h root S ?C (if k = [] then Some (ptr u) else rootptr h root) h'"
    using transplant_links [OF sh(1) fld_cell(1) [OF rep_cell [OF r]] d(1) sh(2) d(3), of S] S by auto
  have "shape ?C (par k) u" using shape_reparent [of "rehang (cells h) k (ptr u)" "Some x" u] shape_rehang [OF d(3)] sh(2) d(4) by simp
  moreover have "cshape ?C (if k = [] then Some (ptr u) else rootptr h root) (ptr u) k" using cshape_rehang [OF sh(1) d(5)] d(3) by simp
  ultimately have "rep h' root u k" using h'(2) d by (auto simp: rep_def links_def distinct_plug)
  moreover have "cells h' x = cells h x" using h'(2) d by (simp add: links_def)
  ultimately show ?thesis using h' by (auto simp: links_def)
qed

text \<open>
  The successor \<open>s\<close>, which already holds the right subtree \<open>r\<close>, takes the place of \<open>x\<close>.
\<close>

definition replace_node :: "rb_heap \<Rightarrow> nat \<Rightarrow> nat \<Rightarrow> nat \<Rightarrow> rb_heap option" where
  "replace_node h root node successor = do {
     h \<leftarrow> rb_transplant h root node (Some successor);
     nl \<leftarrow> fld h rb_left node;
     h \<leftarrow> upd h successor (\<lambda>s. s\<lparr>rb_left := nl\<rparr>);
     b \<leftarrow> nl; h \<leftarrow> set_parent h (Some b) (Some successor);
     c \<leftarrow> fld h rb_col node;
     set_color h successor c }"

lemma replace_rep:
  assumes x: "cells h x = Some (par k, ptr l, xr, c)" and s: "cells h s = Some (q, sl, ptr r, cs)" and l: "l \<noteq> Lf"
    and sh: "cshape (cells h) (rootptr h root) (Some x) k" "shape (cells h) (Some x) l" "shape (cells h) (Some s) r"
    and d: "distinct (adr (plug (Nd c l s r) k))" "x \<notin> set (adr (plug (Nd c l s r) k))" and S: "insert x (set (adr (plug (Nd c l s r) k))) \<subseteq> S"
  shows "\<exists>h'. replace_node h root x s = Some h' \<and> rep h' root (Nd c l s r) k \<and> step root S h h' \<and> (\<forall>b. fld h' rb_min_vruntime b = fld h rb_min_vruntime b)"
proof -
  have d': "x \<noteq> s" "x \<notin> cadr k" "x \<notin> set (adr l)" "s \<notin> cadr k" "s \<notin> set (adr l)" "s \<notin> set (adr r)" "set (adr l) \<inter> cadr k = {}" "set (adr r) \<inter> cadr k = {}"
    "set (adr l) \<inter> set (adr r) = {}" "distinct (adr l)" "distinct (adr r)" "cdistinct k"
    using d by (auto simp: distinct_plug)
  have S': "cadr k \<subseteq> S" "s \<in> S" "x \<in> S" "set (adr l) \<subseteq> S" using S by auto
  let ?R = "if k = [] then Some (Some s) else rootptr h root"
  define C1 where "C1 = rehang (cells h) k (Some s)"
  have px: "fld h rb_parent x = Some (par k)" using x by (auto simp: cells_def fld_def)
  obtain h1 where h1: "relink h root x (Some s) = Some h1" "links h root S C1 ?R h1"
    using relink_links [OF sh(1) px S'(1) d'(2), of "Some s"] by (auto simp: C1_def)
  have C1: "C1 x = Some (par k, ptr l, xr, c)" "C1 s = Some (mkc SL q cs sl (ptr r))" using x s d' by (simp_all add: C1_def mkc_def)
  define C2 where "C2 = C1(s \<mapsto> mkc SL (par k) cs sl (ptr r))"
  obtain h2 where h2: "upd h1 s (\<lambda>n. n\<lparr>rb_parent := par k\<rparr>) = Some h2" "links h1 root S C2 ?R h2"
    using upd_parent_links [of h1 s SL q cs sl "ptr r" S "par k" root] h1(2) C1(2) S'(2) by (auto simp: links_def C2_def)
  define C3 where "C3 = C2(s \<mapsto> mkc SL (par k) cs (ptr l) (ptr r))"
  obtain h3 where h3: "upd h2 s (sch SL (ptr l)) = Some h3" "links h2 root S C3 ?R h3"
    using upd_child_links [of h2 s SL "par k" cs sl "ptr r" S "ptr l" root] h2(2) S'(2) by (auto simp: links_def C2_def C3_def)
  define C4 where "C4 = reparent C3 l (Some s)"
  have "shape C3 (Some x) l" using sh(2) d' shape_rehang [of l k "cells h"] by (simp add: C3_def C2_def C1_def)
  then obtain h4 where h4: "set_parent h3 (ptr l) (Some s) = Some h4" "links h3 root S C4 ?R h4"
    using set_parent_links [of h3 "Some x" l S "Some s" root] h3(2) S'(4) by (auto simp: links_def C4_def)
  define C5 where "C5 = C4(s \<mapsto> mkc SL (par k) c (ptr l) (ptr r))"
  have "C4 s = Some (mkc SL (par k) cs (ptr l) (ptr r))" using d' by (simp add: C4_def C3_def)
  then obtain h5 where h5: "set_color h4 s c = Some h5" "links h4 root S C5 ?R h5"
    using set_color_links [of h4 s SL "par k" cs "ptr l" "ptr r" S c root] h4(2) S'(2) by (auto simp: links_def C5_def)
  have links: "links h root S C5 ?R h5" using h1(2) h2(2) h3(2) h4(2) h5(2) by (meson links_trans)
  have fx: "fld h1 rb_parent x = Some (par k)" "fld h2 rb_left x = Some (ptr l)" "fld h4 rb_col x = Some c"
    using h1(2) h2(2) h4(2) C1(1) d' by (auto simp: links_def fld_def C2_def C3_def C4_def cells_def dest!: fun_cong [of _ _ x])
  have "(\<lambda>n. n\<lparr>rb_left := ptr l\<rparr>) = sch SL (ptr l)" by (simp add: sch_def fun_eq_iff)
  moreover obtain b where "ptr l = Some b" using l by (cases l) auto
  ultimately have "replace_node h root x s = Some h5"
    using h1(1) h2(1) h3(1) h4(1) h5(1) fx by (simp add: replace_node_def rb_transplant_def set_parent_def)
  moreover have "rep h5 root (Nd c l s r) k"
  proof -
    have "cshape C1 ?R (Some s) k" using cshape_rehang [OF sh(1) d'(12), of "Some s"] by (simp add: C1_def)
    then have "cshape C5 ?R (Some s) k" using d' by (simp add: C5_def C4_def C3_def C2_def)
    moreover have "shape C5 (Some s) l" using shape_reparent [OF \<open>shape C3 (Some x) l\<close> d'(10), of "Some s"] d' by (simp add: C5_def C4_def)
    moreover have "shape C5 (Some s) r" using sh(3) d' shape_rehang [of r k "cells h"] shape_reparent_other [of r l] by (simp add: C5_def C4_def C3_def C2_def C1_def Int_commute)
    moreover have "C5 s = Some (par k, ptr l, ptr r, c)" by (simp add: C5_def mkc_def)
    ultimately show ?thesis using links d(1) by (simp add: rep_def links_def)
  qed
  ultimately show ?thesis using links by (auto simp: links_def)
qed

lemma neq_plug: "t \<noteq> Lf \<Longrightarrow> plug t k \<noteq> Lf"
  by (induction k arbitrary: t rule: cadr.induct) auto

section \<open>Unlinking\<close>

text \<open>
  Unlinking \<open>x\<close> leaves \<open>child\<close> below \<open>K\<close> and removes a node of colour \<open>cs\<close>: \<open>x\<close> itself when it has at
  most one child, otherwise its successor moves to its place.
\<close>

definition unlinked :: "rb_color \<Rightarrow> rbt \<Rightarrow> nat \<Rightarrow> rbt \<Rightarrow> frame list \<Rightarrow> rbt \<Rightarrow> frame list \<Rightarrow> rb_color \<Rightarrow> bool" where
  "unlinked c l x r k child K cs \<longleftrightarrow>
     (\<exists>s. Nd c l x r = mk s c child x Lf \<and> K = k \<and> cs = c)
   \<or> (\<exists>s kk. r = plug (Nd cs Lf s child) kk \<and> lft kk = [] \<and> K = kk @ (SR, c, s, l) # k)"

lemma reparent_id: "shape C q t \<Longrightarrow> reparent C t q = C" by (cases t) auto

lemma detach_successor:
  assumes r: "rep h root (Nd c l x (plug (Nd cs Lf s rr) kk)) k" and kk: "kk \<noteq> []" "lft kk = []" and S: "set (adr (plug (Nd c l x (plug (Nd cs Lf s rr) kk)) k)) \<subseteq> S"
  shows "\<exists>h'. do { h \<leftarrow> rb_transplant h root s (ptr rr); nr \<leftarrow> fld h rb_right x; h \<leftarrow> upd h s (\<lambda>n. n\<lparr>rb_right := nr\<rparr>);
        b \<leftarrow> nr; set_parent h (Some b) (Some s) } = Some h'
    \<and> cells h' x = Some (par k, ptr l, ptr (plug rr kk), c) \<and> (\<exists>q. cells h' s = Some (q, None, ptr (plug rr kk), cs))
    \<and> cshape (cells h') (rootptr h' root) (Some x) k \<and> shape (cells h') (Some x) l \<and> shape (cells h') (Some s) (plug rr kk)
    \<and> step root S h h' \<and> (\<forall>b. fld h' rb_min_vruntime b = fld h rb_min_vruntime b)"
proof -
  let ?K = "kk @ (SR, c, x, l) # k" and ?r = "plug rr kk"
  have full: "plug t ?K = plug (Nd c l x (plug t kk)) k" for t by (simp add: plug_append mk_def)
  have rs: "rep h root (mk SR cs rr s Lf) ?K" using r rep_plug [of h root _ ?K] rep_plug [of h root _ k] by (simp add: full mk_def)
  then obtain h1 where h1: "rb_transplant h root s (ptr rr) = Some h1" "rep h1 root rr ?K" "step root S h h1" "\<And>b. fld h1 rb_min_vruntime b = fld h rb_min_vruntime b"
      "cells h1 s = cells h s"
    using transplant_rep [OF rs, of S] S by (auto simp: full mk_def)
  have r1: "rep h1 root (Nd c l x ?r) k" using h1(2) rep_plug [of h1 root _ ?K] rep_plug [of h1 root _ k] by (simp add: full)
  have d: "s \<noteq> x" "s \<notin> set (adr ?r)" "s \<notin> set (adr l)" "s \<notin> cadr k"
  proof -
    have "distinct (adr (plug (Nd c l x (plug (Nd cs Lf s rr) kk)) k))" using r by (simp add: rep_def)
    then show "s \<noteq> x" "s \<notin> set (adr ?r)" "s \<notin> set (adr l)" "s \<notin> cadr k" by (auto simp: distinct_plug)
  qed
  have d1: "x \<notin> set (adr ?r)" "set (adr ?r) \<inter> set (adr l) = {}" "set (adr ?r) \<inter> cadr k = {}" "distinct (adr ?r)" "x \<notin> cadr k" "x \<notin> set (adr l)"
    using r1 by (auto simp: rep_def distinct_plug)
  have cs: "cells h1 s = Some (mkc SL (par ?K) cs None (ptr rr))" using h1(5) rep_cell [OF rs] by (simp add: mkc_def)
  have Sx: "s \<in> S" "set (adr ?r) \<subseteq> S" using S by auto
  let ?C = "(cells h1)(s \<mapsto> mkc SL (par ?K) cs None (ptr ?r))"
  obtain h2 where h2: "upd h1 s (sch SR (ptr ?r)) = Some h2" "links h1 root S ?C (rootptr h1 root) h2"
    using upd_child_links [of h1 s SR "par ?K" cs "ptr rr" None S "ptr ?r" root] cs Sx by (auto simp: mkc_def)
  have sh: "shape ?C (Some x) ?r" using r1 d by (simp add: rep_def)
  obtain h3 where h3: "set_parent h2 (ptr ?r) (Some s) = Some h3" "links h2 root S (reparent ?C ?r (Some s)) (rootptr h1 root) h3"
    using set_parent_links [of h2 "Some x" ?r S "Some s" root] sh h2(2) Sx(2) by (auto simp: links_def)
  have "?r \<noteq> Lf" using kk(1) by (cases kk rule: par.cases) (auto simp: neq_plug)
  then obtain b where b: "ptr ?r = Some b" by (cases ?r) auto
  have "fld h1 rb_right x = Some (ptr ?r)" using r1 by (auto simp: rep_def cells_def fld_def)
  moreover have "(\<lambda>n. n\<lparr>rb_right := ptr ?r\<rparr>) = sch SR (ptr ?r)" by (simp add: sch_def fun_eq_iff)
  ultimately have "do { h \<leftarrow> rb_transplant h root s (ptr rr); nr \<leftarrow> fld h rb_right x; h \<leftarrow> upd h s (\<lambda>n. n\<lparr>rb_right := nr\<rparr>);
        b \<leftarrow> nr; set_parent h (Some b) (Some s) } = Some h3"
    using h1(1) h2(1) h3(1) b by simp
  moreover have "cells h3 = reparent ?C ?r (Some s)" "rootptr h3 root = rootptr h1 root" using h3(2) by (simp_all add: links_def)
  moreover have "shape (reparent ?C ?r (Some s)) (Some s) ?r" by (rule shape_reparent [OF sh d1(4)])
  moreover have "shape (reparent ?C ?r (Some s)) (Some x) l" "cshape (reparent ?C ?r (Some s)) (rootptr h1 root) (Some x) k"
    using r1 d d1 shape_reparent_other [of l ?r] by (simp_all add: rep_def Int_commute)
  moreover have "step root S h h3" using h1(3) h2(2) h3(2) by (auto simp: links_def intro: step_trans)
  moreover have "fld h3 rb_min_vruntime b = fld h rb_min_vruntime b" for b using h1(4) h2(2) h3(2) by (simp add: links_def)
  moreover have "reparent ?C ?r (Some s) x = Some (par k, ptr l, ptr ?r, c)" "reparent ?C ?r (Some s) s = Some (par ?K, None, ptr ?r, cs)"
    using r1 d d1 by (simp_all add: rep_def mkc_def)
  ultimately show ?thesis by auto
qed

lemma replaced_position: "rep h root (Nd c l s (plug rr kk)) k \<longleftrightarrow> rep h root rr (kk @ (SR, c, s, l) # k)"
  using rep_plug [of h root rr "kk @ (SR, c, s, l) # k"] rep_plug [of h root "Nd c l s (plug rr kk)" k] by (simp add: plug_append mk_def)

lemma unlink_one:
  assumes r: "rep h root (Nd c l x r) k" and S: "set (adr (plug (Nd c l x r) k)) \<subseteq> S" and one: "l = Lf \<or> r = Lf"
  shows "\<exists>h' child. erase_unlink h root x = Some (h', ptr child, par k, c) \<and> rep h' root child k \<and> step root S h h'
    \<and> (\<forall>b. fld h' rb_min_vruntime b = fld h rb_min_vruntime b) \<and> unlinked c l x r k child k c"
proof -
  obtain n where n: "rb_nodes h x = Some n" "rb_parent n = par k" "rb_left n = ptr l" "rb_right n = ptr r" "rb_col n = c" using r by (auto simp: rep_def cells_def)
  obtain s child where m: "Nd c l x r = mk s c child x Lf" "ptr child = (if l = Lf then ptr r else ptr l)"
  proof (cases "l = Lf")
    case True
    then show ?thesis using that [of SR r] by (simp add: mk_def)
  next
    case False
    then show ?thesis using that [of SL l] one by (simp add: mk_def)
  qed
  obtain h' where "rb_transplant h root x (ptr child) = Some h'" "rep h' root child k" "step root S h h'" "\<forall>b. fld h' rb_min_vruntime b = fld h rb_min_vruntime b"
    using transplant_rep [of h root s c child x k S] r S m(1) by auto
  moreover have "erase_unlink h root x = map_option (\<lambda>h. (h, ptr child, par k, c)) (rb_transplant h root x (ptr child))"
    using n m(2) one by (cases "rb_transplant h root x (ptr child)") (auto simp: erase_unlink_def)
  ultimately show ?thesis using m(1) by (auto simp: unlinked_def)
qed

definition take_successor :: "rb_heap \<Rightarrow> nat \<Rightarrow> nat \<Rightarrow> nat \<Rightarrow> nat option \<Rightarrow> nat option \<Rightarrow> (rb_heap \<times> nat option) option" where
  "take_successor h root x s p child =
     (if p = Some x then do { h \<leftarrow> set_parent h child (Some s); Some (h, Some s) }
      else do { h \<leftarrow> rb_transplant h root s child; nr \<leftarrow> fld h rb_right x; h \<leftarrow> upd h s (\<lambda>n. n\<lparr>rb_right := nr\<rparr>);
        b \<leftarrow> nr; h \<leftarrow> set_parent h (Some b) (Some s); Some (h, p) })"

lemma take_successor_tree:
  assumes r: "rep h root (Nd c l x r) k" and S: "set (adr (plug (Nd c l x r) k)) \<subseteq> S"
    and m: "r = plug (Nd cs Lf s child) kk" "lft kk = []"
  shows "\<exists>h1 p. take_successor h root x s (par (kk @ (SR, c, x, l) # k)) (ptr child) = Some (h1, par (kk @ (SR, c, s, l) # k))
    \<and> cells h1 x = Some (par k, ptr l, p, c) \<and> (\<exists>q sl. cells h1 s = Some (q, sl, ptr (plug child kk), cs))
    \<and> cshape (cells h1) (rootptr h1 root) (Some x) k \<and> shape (cells h1) (Some x) l \<and> shape (cells h1) (Some s) (plug child kk)
    \<and> step root S h h1 \<and> (\<forall>b. fld h1 rb_min_vruntime b = fld h rb_min_vruntime b)"
proof (cases "kk = []")
  case True
  have C: "cells h x = Some (par k, ptr l, Some s, c)" "cells h s = Some (Some x, None, ptr child, cs)" "shape (cells h) (Some s) child"
      "shape (cells h) (Some x) l" "cshape (cells h) (rootptr h root) (Some x) k"
    using r m(1) True by (auto simp: rep_def)
  obtain h1 where h1: "set_parent h (ptr child) (Some s) = Some h1" "links h root S (cells h) (rootptr h root) h1"
    using set_parent_links [OF C(3), of S "Some s" root] reparent_id [OF C(3)] S m(1) True by auto
  then show ?thesis using True C by (intro exI [of _ h1] exI [of _ "Some s"]) (auto simp: links_def take_successor_def)
next
  case False
  obtain h1 where h1: "do { h \<leftarrow> rb_transplant h root s (ptr child); nr \<leftarrow> fld h rb_right x; h \<leftarrow> upd h s (\<lambda>n. n\<lparr>rb_right := nr\<rparr>);
      b \<leftarrow> nr; set_parent h (Some b) (Some s) } = Some h1"
    "cells h1 x = Some (par k, ptr l, ptr (plug child kk), c)" "\<exists>q. cells h1 s = Some (q, None, ptr (plug child kk), cs)"
    "cshape (cells h1) (rootptr h1 root) (Some x) k" "shape (cells h1) (Some x) l" "shape (cells h1) (Some s) (plug child kk)"
    "step root S h h1" "\<forall>b. fld h1 rb_min_vruntime b = fld h rb_min_vruntime b"
    using detach_successor [of h root c l x cs s child kk k S] r m(1,2) False S by auto
  have "par (kk @ (SR, c, x, l) # k) = par kk" "par (kk @ (SR, c, s, l) # k) = par kk" using False by (cases kk rule: par.cases; simp)+
  moreover have "par kk \<noteq> Some x"
  proof
    assume "par kk = Some x"
    then have "x \<in> cadr kk" by (rule par_cadr)
    then show False using r m(1) by (auto simp: rep_def distinct_plug)
  qed
  ultimately show ?thesis using h1 by (intro exI [of _ h1] exI [of _ "ptr (plug child kk)"]) (auto simp: bind_eq_Some_conv take_successor_def)
qed

lemma unlink_two:
  assumes r: "rep h root (Nd c l x r) k" and S: "set (adr (plug (Nd c l x r) k)) \<subseteq> S" and two: "l \<noteq> Lf" "r \<noteq> Lf"
  shows "\<exists>h' child K cs. erase_unlink h root x = Some (h', ptr child, par K, cs) \<and> rep h' root child K \<and> step root S h h'
    \<and> (\<forall>b. fld h' rb_min_vruntime b = fld h rb_min_vruntime b) \<and> unlinked c l x r k child K cs"
proof -
  obtain n where n: "rb_nodes h x = Some n" "rb_parent n = par k" "rb_left n = ptr l" "rb_right n = ptr r" "rb_col n = c" using r by (auto simp: rep_def cells_def)
  obtain b where b: "ptr r = Some b" using two(2) by (cases r) auto
  have rr: "rep h root r ((SR, c, x, l) # k)" using r by (simp add: rep_move mk_def)
  obtain cs s child kk where m: "r = plug (Nd cs Lf s child) kk" "lft kk = []" "rb_subtree_min h b = Some s" "kk = [] \<longleftrightarrow> s = b"
    using subtree_min_tree [OF rr b] by blast
  let ?r = "plug child kk" and ?J = "kk @ (SR, c, x, l) # k" and ?K = "kk @ (SR, c, s, l) # k"
  have "rep h root (mk SL cs Lf s child) ?J" using rr m(1) rep_append [of h root _ kk] by (simp add: mk_def)
  from rep_cell [OF this] obtain ns where ns: "rb_nodes h s = Some ns" "rb_parent ns = par ?J" "rb_right ns = ptr child" "rb_col ns = cs"
    by (auto simp: cells_def mkc_def)
  have dist: "distinct (adr (plug (Nd c l s ?r) k))" "x \<notin> set (adr (plug (Nd c l s ?r) k))" "insert x (set (adr (plug (Nd c l s ?r) k))) \<subseteq> S"
    using r S m(1) by (auto simp: rep_def distinct_plug)
  obtain h1 p where h1: "take_successor h root x s (par ?J) (ptr child) = Some (h1, par ?K)"
    and C1: "cells h1 x = Some (par k, ptr l, p, c)" "\<exists>q sl. cells h1 s = Some (q, sl, ptr ?r, cs)"
      "cshape (cells h1) (rootptr h1 root) (Some x) k" "shape (cells h1) (Some x) l" "shape (cells h1) (Some s) ?r"
    and st: "step root S h h1" "\<forall>b. fld h1 rb_min_vruntime b = fld h rb_min_vruntime b"
    using take_successor_tree [OF r S m(1,2)] by blast
  obtain h2 where h2: "replace_node h1 root x s = Some h2" "rep h2 root (Nd c l s ?r) k" "step root S h1 h2" "\<forall>b. fld h2 rb_min_vruntime b = fld h1 rb_min_vruntime b"
    using replace_rep [of h1 x k l p c s _ _ ?r cs root S] C1 two(1) dist by blast
  have "erase_unlink h root x = Some (h2, ptr child, par ?K, cs)"
  proof -
    obtain lb where "rb_left n = Some lb" "rb_right n = Some b" using n two(1) b by (cases l) auto
    then have "erase_unlink h root x = do { (h, parent) \<leftarrow> take_successor h root x s (rb_parent ns) (ptr child);
       h \<leftarrow> replace_node h root x s; Some (h, ptr child, parent, cs) }"
      using n(1) m(3) ns by (simp add: erase_unlink_def take_successor_def replace_node_def Option.bind_assoc Let_def)
    then show ?thesis using h1 ns(2) h2(1) by simp
  qed
  moreover have "rep h2 root child ?K" using h2(2) replaced_position by blast
  moreover have "unlinked c l x r k child ?K cs" using m(1,2) by (auto simp: unlinked_def)
  moreover have "step root S h h2" by (rule step_trans [OF st(1) h2(3)])
  moreover have "\<forall>b. fld h2 rb_min_vruntime b = fld h rb_min_vruntime b" using st(2) h2(4) by simp
  ultimately show ?thesis by blast
qed

section \<open>What is left\<close>

lemma lft_append: "lft (kk @ k) = lft k @ lft kk" "rgt (kk @ k) = rgt kk @ rgt k"
  by (induction kk rule: lft.induct) (auto split: side.splits)

lemma unlinked_adr: "unlinked c l x r k child K cs \<Longrightarrow> adr (plug child K) = lft k @ adr l @ adr r @ rgt k"
proof (unfold unlinked_def, elim disjE exE conjE)
  fix s
  assume m: "Nd c l x r = mk s c child x Lf" and K: "K = k"
  then show ?thesis by (cases s) (auto simp: adr_plug mk_def)
next
  fix s kk
  assume "r = plug (Nd cs Lf s child) kk" "lft kk = []" "K = kk @ (SR, c, s, l) # k"
  then show ?thesis by (simp add: adr_plug lft_append)
qed

lemma rbk_rename: "rbk n (kk @ (s, c, a, y) # k) \<Longrightarrow> rbk n (kk @ (s, c, b, y) # k)"
proof (induction kk arbitrary: n)
  case (Cons f kk)
  obtain s' c' a' y' where f: "f = (s', c', a', y')" by (cases f)
  have "kcol (kk @ (s, c, b, y) # k) = kcol (kk @ (s, c, a, y) # k)" by (cases kk rule: par.cases) auto
  then show ?case using Cons f by (cases c') auto
qed simp

lemma unlinked_colors:
  assumes u: "unlinked c l x r k child K cs" and T: "rb m (plug (Nd c l x r) k)" "col (plug (Nd c l x r) k) = RB_BLACK"
  shows "if cs = RB_RED then (\<exists>m. rb m (plug child K)) \<and> col (plug child K) = RB_BLACK else \<exists>n. rb n child \<and> rbk (Suc n) K"
proof -
  have "\<exists>s a n. rb n (mk s cs child a Lf) \<and> rbk n K \<and> (cs = RB_RED \<longrightarrow> K \<noteq> [] \<and> kcol K = RB_BLACK)"
    using u unfolding unlinked_def
  proof (elim disjE exE conjE)
    fix s
    assume m: "Nd c l x r = mk s c child x Lf" and "K = k" "cs = c"
    then show ?thesis using rb_unplug [OF T] by auto
  next
    fix s kk
    assume m: "r = plug (Nd cs Lf s child) kk" and K: "K = kk @ (SR, c, s, l) # k"
    have "plug (Nd c l x r) k = plug (Nd cs Lf s child) (kk @ (SR, c, x, l) # k)" using m by (simp add: plug_append mk_def)
    then obtain n where "rb n (Nd cs Lf s child)" "rbk n (kk @ (SR, c, x, l) # k)" "cs = RB_RED \<longrightarrow> kk @ (SR, c, x, l) # k \<noteq> [] \<and> kcol (kk @ (SR, c, x, l) # k) = RB_BLACK"
      using rb_unplug [of m "Nd cs Lf s child" "kk @ (SR, c, x, l) # k"] T by auto
    moreover have "kcol (kk @ (SR, c, x, l) # k) = kcol K" unfolding K by (cases kk rule: par.cases) auto
    moreover have "Nd cs Lf s child = mk SR cs child s Lf" by (simp add: mk_def)
    ultimately show ?thesis using rbk_rename K by (metis (no_types, lifting) append_is_Nil_conv list.distinct(1))
  qed
  then obtain s a n where n: "rb n (mk s cs child a Lf)" "rbk n K" "cs = RB_RED \<longrightarrow> K \<noteq> [] \<and> kcol K = RB_BLACK" by blast
  show ?thesis
  proof (cases cs)
    case RB_RED
    then show ?thesis using n rb_plug [of n child K] by auto
  next
    case RB_BLACK
    then show ?thesis using n by auto
  qed
qed

lemma unlinked_values:
  assumes u: "unlinked c l x r k child K cs" and v: "aok g {} m (plug (Nd c l x r) k)"
  shows "aok g {} m child" "(s', c', a', y) \<in> set K \<Longrightarrow> aok g {} m y"
proof -
  have sub: "aok g {} m l" "aok g {} m r" using aok_plug_sub [OF v] by auto
  have sib: "aok g {} m y" if "(s', c', a', y) \<in> set k" for s' c' a' y using aok_sibling [OF v that] .
  have "aok g {} m child \<and> (\<forall>s' c' a' y. (s', c', a', y) \<in> set K \<longrightarrow> aok g {} m y)"
    using u unfolding unlinked_def
  proof (elim disjE exE conjE)
    fix s
    assume "Nd c l x r = mk s c child x Lf" "K = k"
    then show ?thesis using sub sib by (cases s) (auto simp: mk_def)
  next
    fix s kk
    assume m: "r = plug (Nd cs Lf s child) kk" "K = kk @ (SR, c, s, l) # k"
    then have "aok g {} m child" using aok_plug_sub [of g "{}" m "Nd cs Lf s child" kk] sub by simp
    then show ?thesis using m(2) sub sib aok_sibling [of g "{}" m "Nd cs Lf s child" kk] m(1) by auto
  qed
  then show "aok g {} m child" "(s', c', a', y) \<in> set K \<Longrightarrow> aok g {} m y" by blast+
qed

end
