(* ===== verification/Rbtree_Correct.thy ===== *)
theory Rbtree_Correct
  imports Rbtree_Remove
begin

text \<open>
  Erasing a node from a tree, and the sequence the whole tree stands for.
\<close>

section \<open>Erasing a node\<close>

lemma unlink_tree:
  assumes r: "rep h root (Nd c l x r) k" and S: "set (adr (plug (Nd c l x r) k)) \<subseteq> S"
  shows "\<exists>h' child K cs. erase_unlink h root x = Some (h', ptr child, par K, cs) \<and> rep h' root child K \<and> step root S h h'
    \<and> (\<forall>b. fld h' rb_min_vruntime b = fld h rb_min_vruntime b) \<and> unlinked c l x r k child K cs"
  using unlink_one [OF r S] unlink_two [OF r S] by blast

lemma tree_at_cong:
  assumes "\<And>a. a \<in> set (adr T) \<Longrightarrow> rb_nodes h' a = rb_nodes h a" "rootptr h' root = rootptr h root"
  shows "tree_at gv S root X h' T [] \<longleftrightarrow> tree_at gv S root X h T []"
proof -
  have "shape (cells h') None T = shape (cells h) None T" using assms(1) by (intro shape_cong) (simp add: cells_def)
  moreover have "vok gv X h' T = vok gv X h T" using assms(1) by (intro vok_mv) (simp add: fld_def)
  ultimately show ?thesis using assms(2) by (simp add: tree_at_def rep_def)
qed

lemma drop_leftmost:
  assumes r: "rep h root (Nd c l x r) k" and lm: "leftmost h root = Some (hd_opt (adr (plug (Nd c l x r) k)))" and q: "rb_roots h root = Some q"
    and own: "owners h x \<noteq> Some None"
  shows "\<exists>h'. (if rt_leftmost q = Some x then do { m \<leftarrow> rb_next h (Some x); upd_root h root (\<lambda>r. r\<lparr>rt_leftmost := m\<rparr>) } else Some h) = Some h'
    \<and> leftmost h' root = Some (hd_opt (lft k @ adr l @ adr r @ rgt k)) \<and> rb_nodes h' = rb_nodes h \<and> rootptr h' root = rootptr h root
    \<and> (\<forall>r. r \<noteq> root \<longrightarrow> rb_roots h' r = rb_roots h r)"
proof (cases "lft k @ adr l = []")
  case True
  then have "rt_leftmost q = Some x" using lm q by (simp add: leftmost_def adr_plug)
  moreover have "rb_next h (Some x) = Some (hd_opt (adr r @ rgt k))" by (rule rb_next_tree [OF r own])
  ultimately show ?thesis using True set_leftmost [of h root "hd_opt (adr r @ rgt k)"] lm by simp
next
  case False
  then obtain a as where a: "lft k @ adr l = a # as" by (cases "lft k @ adr l") auto
  then have "adr (plug (Nd c l x r) k) = a # as @ x # adr r @ rgt k" by (simp add: adr_plug flip: append_assoc)
  moreover from this have "a \<noteq> x" using r by (auto simp: rep_def)
  ultimately show ?thesis using a lm q by (simp add: leftmost_def flip: append_assoc)
qed

lemma reset_node:
  assumes "rb_nodes h x \<noteq> None"
  shows "\<exists>h'. rb_init_node h (Some x) = Some h' \<and> owners h' = (owners h)(x \<mapsto> None) \<and> rb_roots h' = rb_roots h \<and> (\<forall>b. b \<noteq> x \<longrightarrow> rb_nodes h' b = rb_nodes h b)"
  using assms by (auto simp: rb_init_node_def upd_def owners_def fun_eq_iff)

lemma clear_leftmost:
  assumes "leftmost h root = Some (hd_opt (adr T))" "rootptr h root = Some (ptr T)"
  shows "\<exists>h' q. rb_roots h root = Some q \<and> (if rt_root q = None then upd_root h root (\<lambda>r. r\<lparr>rt_leftmost := None\<rparr>) else Some h) = Some h'
    \<and> leftmost h' root = Some (hd_opt (adr T)) \<and> rb_nodes h' = rb_nodes h \<and> rootptr h' root = rootptr h root
    \<and> (\<forall>r. r \<noteq> root \<longrightarrow> rb_roots h' r = rb_roots h r)"
proof -
  obtain q where q: "rb_roots h root = Some q" "rt_root q = ptr T" using assms(2) by (auto simp: rootptr_def)
  show ?thesis
  proof (cases T)
    case Lf
    then show ?thesis using assms q set_leftmost [of h root None] by auto
  next
    case (Nd c l a r)
    then show ?thesis using assms q by auto
  qed
qed

lemma rootptr_at: "tree_at gv S root X h T [] \<Longrightarrow> rootptr h root = Some (ptr T)"
  by (auto simp: tree_at_def rep_def)

context rb_callback
begin

lemma propagate_place:
  assumes "rep h root t k" "set (adr (plug t k)) \<subseteq> S" "vok gv {} h t" "\<And>s c a y. (s, c, a, y) \<in> set k \<Longrightarrow> vok gv {} h y"
  shows "\<exists>h'. (if aug \<noteq> None then augment_propagate h (par k) aug else Some h) = Some h' \<and> tree_at gv S root {} h' t k \<and> step root S h h'"
proof (cases "aug = None")
  case True
  then show ?thesis using assms no_callback by (auto simp: tree_at_def vok_def)
next
  case False
  then show ?thesis using propagate_tree [OF assms] by simp
qed

lemma erase_rest:
  assumes t: "tree_at gv S root {} h (Nd c l x r) k" and T: "rb m (plug (Nd c l x r) k)" "col (plug (Nd c l x r) k) = RB_BLACK"
  shows "settled gv S root {} h (lft k @ adr l @ adr r @ rgt k)
    (do { (h, child, parent, removed) \<leftarrow> erase_unlink h root x;
          h \<leftarrow> (if aug \<noteq> None then augment_propagate h parent aug else Some h);
          if removed = RB_BLACK then rb_erase_rebalance h root child parent aug else Some h })"
proof -
  have r: "rep h root (Nd c l x r) k" and S: "set (adr (plug (Nd c l x r) k)) \<subseteq> S" and v: "vok gv {} h (plug (Nd c l x r) k)"
    using t by (auto simp: tree_at_def)
  obtain h1 child K cs where h1: "erase_unlink h root x = Some (h1, ptr child, par K, cs)" "rep h1 root child K" "step root S h h1"
      "\<forall>b. fld h1 rb_min_vruntime b = fld h rb_min_vruntime b" and u: "unlinked c l x r k child K cs"
    using unlink_tree [OF r S] by blast
  have adr: "adr (plug child K) = lft k @ adr l @ adr r @ rgt k" by (rule unlinked_adr [OF u])
  then have S1: "set (adr (plug child K)) \<subseteq> S" using S by (auto simp: adr_plug)
  have "fld h1 rb_min_vruntime = fld h rb_min_vruntime" using h1(4) by blast
  then have v1: "vok gv {} h1 child" "\<And>s c a y. (s, c, a, y) \<in> set K \<Longrightarrow> vok gv {} h1 y"
    using unlinked_values [OF u] v unfolding vok_def by metis+
  obtain h2 where h2: "(if aug \<noteq> None then augment_propagate h1 (par K) aug else Some h1) = Some h2" "tree_at gv S root {} h2 child K" "step root S h1 h2"
    using propagate_place [OF h1(2) S1 v1(1)] v1(2) by blast
  have "settled gv S root {} h2 (adr (plug child K)) (if cs = RB_BLACK then rb_erase_rebalance h2 root (ptr child) (par K) aug else Some h2)"
  proof (cases cs)
    case RB_BLACK
    then obtain n where "rb n child" "rbk (Suc n) K" using unlinked_colors [OF u T] by auto
    then show ?thesis using erase_rebalance_tree [OF h2(2)] RB_BLACK by simp
  next
    case RB_RED
    then obtain n where "rb n (plug child K)" "col (plug child K) = RB_BLACK" using unlinked_colors [OF u T] by auto
    moreover have "tree_at gv S root {} h2 (plug child K) []" using h2(2) tree_at_plug by blast
    moreover have "step root S h2 h2" by (simp add: step_def)
    ultimately show ?thesis using RB_RED unfolding settled_def by auto
  qed
  then have "settled gv S root {} h (lft k @ adr l @ adr r @ rgt k) (if cs = RB_BLACK then rb_erase_rebalance h2 root (ptr child) (par K) aug else Some h2)"
    using step_trans [OF h1(3) h2(3)] settled_step adr by metis
  then show ?thesis using h1(1) h2(1) by simp
qed

lemma erase_tree:
  assumes T: "rb_tree gv h root T" and x: "x \<in> set (adr T)"
  shows "\<exists>h' T'. rb_erase_augmented h (Some root) (Some x) aug = Some (h', 0) \<and> rb_tree gv h' root T'
    \<and> adr T' = remove1 x (adr T) \<and> owners h' = (owners h)(x \<mapsto> None)
    \<and> (\<forall>b. b \<notin> set (adr T) \<longrightarrow> rb_nodes h' b = rb_nodes h b) \<and> (\<forall>r. r \<noteq> root \<longrightarrow> rb_roots h' r = rb_roots h r)"
proof -
  obtain c l r k where p: "T = plug (Nd c l x r) k" using plug_at [OF x] by blast
  obtain m where m: "rb m T" "col T = RB_BLACK" and lm: "leftmost h root = Some (hd_opt (adr T))" and own: "\<And>a. a \<in> set (adr T) \<Longrightarrow> owners h a = Some (Some root)"
    and t: "tree_at gv (set (adr T)) root {} h T []" using T by (auto simp: rb_tree_def)
  have tk: "tree_at gv (set (adr T)) root {} h (Nd c l x r) k" using t p tree_at_plug by simp
  then have rk: "rep h root (Nd c l x r) k" by (simp add: tree_at_def)
  let ?xs = "lft k @ adr l @ adr r @ rgt k"
  have "distinct (adr T)" using t by (simp add: tree_at_def rep_def)
  then have xs: "remove1 x (adr T) = ?xs" "set ?xs = set (adr T) - {x}" using p by (auto simp: adr_plug remove1_append)
  obtain q where q: "rb_roots h root = Some q" "rt_root q = ptr T" using rootptr_tree [OF t] by blast
  obtain h0 where h0: "(if rt_leftmost q = Some x then do { m \<leftarrow> rb_next h (Some x); upd_root h root (\<lambda>r. r\<lparr>rt_leftmost := m\<rparr>) } else Some h) = Some h0"
      "leftmost h0 root = Some (hd_opt ?xs)" "rb_nodes h0 = rb_nodes h" "rootptr h0 root = rootptr h root" "\<And>r. r \<noteq> root \<Longrightarrow> rb_roots h0 r = rb_roots h r"
    using drop_leftmost [OF rk _ q(1)] lm p own [OF x] by auto
  have "tree_at gv (set (adr T)) root {} h0 (Nd c l x r) k" using tk tree_at_cong [of T h0 h] h0(3,4) p tree_at_plug by metis
  from erase_rest [OF this m [unfolded p]] obtain h1 T' m' where h1: "do { (h, child, parent, removed) \<leftarrow> erase_unlink h0 root x;
        h \<leftarrow> (if aug \<noteq> None then augment_propagate h parent aug else Some h);
        if removed = RB_BLACK then rb_erase_rebalance h root child parent aug else Some h } = Some h1"
      "tree_at gv (set (adr T)) root {} h1 T' []" "rb m' T'" "col T' = RB_BLACK" "adr T' = ?xs" "step root (set (adr T)) h0 h1"
    unfolding settled_def by blast
  note st = step_views [OF h1(6)]
  have o0: "owners h0 = owners h" using h0(3) by (simp add: owners_def fun_eq_iff)
  then have "owners h1 x = Some (Some root)" using own [OF x] st(1) by simp
  then have "rb_nodes h1 x \<noteq> None" by (auto simp: owners_def)
  then obtain h2 where h2: "rb_init_node h1 (Some x) = Some h2" "owners h2 = (owners h1)(x \<mapsto> None)" "rb_roots h2 = rb_roots h1" "\<And>b. b \<noteq> x \<Longrightarrow> rb_nodes h2 b = rb_nodes h1 b"
    using reset_node by blast
  have x': "x \<notin> set (adr T')" using xs h1(5) by simp
  have r2: "rootptr h2 root = rootptr h1 root" "leftmost h2 root = Some (hd_opt (adr T'))" using h2(3) st(2) h0(2) h1(5) by (simp_all add: rootptr_def leftmost_def)
  then obtain h3 q' where h3: "rb_roots h2 root = Some q'" "(if rt_root q' = None then upd_root h2 root (\<lambda>r. r\<lparr>rt_leftmost := None\<rparr>) else Some h2) = Some h3"
      "leftmost h3 root = Some (hd_opt (adr T'))" "rb_nodes h3 = rb_nodes h2" "rootptr h3 root = rootptr h2 root" "\<And>r. r \<noteq> root \<Longrightarrow> rb_roots h3 r = rb_roots h2 r"
    using clear_leftmost [of h2 root T'] rootptr_at [OF h1(2)] by auto
  have o3: "owners h3 = (owners h)(x \<mapsto> None)" using h3(4) h2(2) st(1) o0 by (simp add: owners_def fun_eq_iff)
  have "rb_nodes h3 a = rb_nodes h1 a" if "a \<in> set (adr T')" for a using h3(4) h2(4) [of a] that x' by auto
  then have "tree_at gv (set (adr T)) root {} h3 T' []" using h1(2) tree_at_cong [of T' h3 h1] h3(5) r2(1) by simp
  then have "rb_tree gv h3 root T'" using h1(3,4) h3(3) o3 own xs h1(5) unfolding rb_tree_def by (auto simp: tree_at_def)
  moreover have "rb_erase_augmented h (Some root) (Some x) aug = Some (h3, 0)"
  proof -
    have "fld h rb_owner x = Some (Some root)" using own [OF x] by (simp add: owners_def fld_def)
    moreover have "rt_root q \<noteq> None" using q(2) x by (cases T) auto
    moreover obtain ha child p cs hb where "erase_unlink h0 root x = Some (ha, child, p, cs)"
        "(if aug \<noteq> None then augment_propagate ha p aug else Some ha) = Some hb"
        "(if cs = RB_BLACK then rb_erase_rebalance hb root child p aug else Some hb) = Some h1"
      using h1(1) by (fastforce simp only: bind_eq_Some_conv split_paired_Ex prod.case)
    ultimately show ?thesis using q(1) h0(1) h2(1) h3(1,2) by (simp add: rb_erase_augmented_def)
  qed
  moreover have "rb_nodes h3 b = rb_nodes h b" if "b \<notin> set (adr T)" for b using st(4) [of b] h0(3) h2(4) [of b] h3(4) that x by auto
  moreover have "rb_roots h3 r = rb_roots h r" if "r \<noteq> root" for r using st(3) h0(5) h2(3) h3(6) that by auto
  ultimately show ?thesis using o3 xs(1) h1(5) by auto
qed

end

end
