(* ===== verification/Eevdf.thy ===== *)
theory Eevdf
  imports Rbtree "HOL-Library.Signed_Division"
begin

text \<open>
  \<^verbatim>\<open>src/kernel/sched/sched.c\<close>: the virtual times of tasks and the timeline of a run queue. The node
  \<^verbatim>\<open>run_node\<close> of the task at an address has that address, so \<^verbatim>\<open>rb_entry\<close> is the identity, and the
  timeline of run queue \<open>c\<close> is the root \<open>c\<close>. Virtual times are 64-bit words; signed values are words
  read with \<open>sint\<close>, whose sums and products wrap as on the target. \<open>None\<close> is a processor fault (a null
  pointer, a division by zero or one whose quotient does not fit) and \<open>Inl PANIC\<close> a call of \<^verbatim>\<open>panic\<close>.
\<close>

section \<open>Tasks and run queues\<close>

datatype task_state =
  TASK_READY | TASK_RUNNING | TASK_BLOCKED | TASK_SLEEPING | TASK_STOPPED | TASK_ZOMBIE | TASK_IDLE

record sched_task =
  tk_pid :: uint64_t
  tk_state :: task_state
  tk_on_cpu :: uint64_t
  tk_on_rq :: bool
  tk_rq_cpu :: uint32_t
  tk_rsp :: uint64_t
  tk_time_slice :: uint64_t
  tk_wake_tick :: uint64_t
  tk_cpu_id :: uint32_t
  tk_last_cpu :: uint32_t
  tk_last_migrate_tick :: uint64_t
  tk_migration_count :: uint32_t
  tk_user_ticks :: uint64_t
  tk_system_ticks :: uint64_t
  tk_voluntary_switches :: uint64_t
  tk_involuntary_switches :: uint64_t
  tk_vruntime :: uint64_t
  tk_deadline :: uint64_t
  tk_vlag :: int64_t
  tk_weight :: uint32_t

record eevdf_rq =
  rq_nr_running :: uint64_t
  rq_min_vruntime :: uint64_t
  rq_avg_vruntime :: int64_t
  rq_avg_load :: uint64_t
  rq_curr :: "nat option"
  rq_idle :: "nat option"
  rq_nr_migrations :: uint64_t
  rq_nr_steals :: uint64_t
  rq_user_ticks :: uint64_t
  rq_system_ticks :: uint64_t
  rq_idle_ticks :: uint64_t
  rq_context_switches :: uint64_t
  rq_need_resched :: bool
  rq_online :: bool

text \<open>
  The state of the scheduler: \<open>sc_rqs\<close> is the array \<^verbatim>\<open>cpu_rqs\<close> with its \<^verbatim>\<open>cpu_scheduler_count\<close> entries,
  \<open>sc_ticks\<close> the tick counter, and \<open>sc_print\<close> the answer \<^verbatim>\<open>ratelimit_allow\<close> gives when a refusal is to
  be reported.
\<close>

type_synonym tasks = "nat \<Rightarrow> sched_task"

record sched =
  sc_tasks :: tasks
  sc_heap :: rb_heap
  sc_rqs :: "eevdf_rq list"
  sc_ticks :: uint64_t
  sc_print :: bool

record sched_config =
  cf_base_slice :: uint64_t
  cf_latency :: uint64_t
  cf_min_granularity :: uint64_t
  cf_wakeup_granularity :: uint64_t
  cf_migration_cooldown :: uint64_t

definition default_config :: sched_config where
  "default_config = \<lparr>cf_base_slice = 2, cf_latency = 8, cf_min_granularity = 1, cf_wakeup_granularity = 0,
     cf_migration_cooldown = 4\<rparr>"

datatype panic = PANIC

type_synonym 'a outcome = "(panic + 'a) option"

definition rq_at :: "sched \<Rightarrow> nat \<Rightarrow> eevdf_rq option" where
  "rq_at s c = (if c < length (sc_rqs s) then Some (sc_rqs s ! c) else None)"

definition put_rq :: "sched \<Rightarrow> nat \<Rightarrow> eevdf_rq \<Rightarrow> sched" where
  "put_rq s c rq = s\<lparr>sc_rqs := (sc_rqs s)[c := rq]\<rparr>"

definition set_task :: "sched \<Rightarrow> nat \<Rightarrow> (sched_task \<Rightarrow> sched_task) \<Rightarrow> sched" where
  "set_task s a f = s\<lparr>sc_tasks := (sc_tasks s)(a := f (sc_tasks s a))\<rparr>"

section \<open>Virtual time\<close>

definition SCHED_NICE_0_LOAD :: uint64_t where
  "SCHED_NICE_0_LOAD = 1024"

definition calc_delta_fair :: "uint64_t \<Rightarrow> sched_task \<Rightarrow> uint64_t option" where
  "calc_delta_fair delta t =
     (if ucast (tk_weight t) = SCHED_NICE_0_LOAD then Some delta
      else if tk_weight t = 0 then None
      else Some (delta * SCHED_NICE_0_LOAD div ucast (tk_weight t)))"

definition add_signed_vruntime :: "uint64_t \<Rightarrow> int64_t \<Rightarrow> uint64_t" where
  "add_signed_vruntime base offset =
     (if 0 \<le> sint offset then base + offset
      else let magnitude = - (offset + 1) + 1 in if magnitude > base then 0 else base - magnitude)"

text \<open>The signed division instruction: it faults on zero and on the one quotient that does not fit.\<close>

definition sdiv64 :: "int64_t \<Rightarrow> int64_t \<Rightarrow> int64_t option" where
  "sdiv64 a b =
     (if b = 0 \<or> sint a = - (2 ^ 63) \<and> sint b = - 1 then None
      else Some (word_of_int (sint a sdiv sint b)))"

text \<open>The running entity, which is not in the timeline.\<close>

definition running_curr :: "tasks \<Rightarrow> eevdf_rq \<Rightarrow> nat option" where
  "running_curr ts rq =
     (case rq_curr rq of
        None \<Rightarrow> None
      | Some a \<Rightarrow> if tk_state (ts a) = TASK_RUNNING \<and> rq_curr rq \<noteq> rq_idle rq then Some a else None)"

definition avg_vruntime :: "tasks \<Rightarrow> eevdf_rq \<Rightarrow> uint64_t option" where
  "avg_vruntime ts rq =
     (let (average, load) =
        (case running_curr ts rq of
           None \<Rightarrow> (rq_avg_vruntime rq, rq_avg_load rq)
         | Some a \<Rightarrow> (rq_avg_vruntime rq + (tk_vruntime (ts a) - rq_min_vruntime rq) * ucast (tk_weight (ts a)),
                      rq_avg_load rq + ucast (tk_weight (ts a))))
      in if load = 0 then Some (rq_min_vruntime rq)
         else do {
           let average = (if sint average < 0 then average - (load - 1) else average);
           q \<leftarrow> sdiv64 average load;
           Some (add_signed_vruntime (rq_min_vruntime rq) q) })"

definition calc_effective_slice :: "sched_config \<Rightarrow> tasks \<Rightarrow> eevdf_rq \<Rightarrow> uint64_t" where
  "calc_effective_slice cf ts rq =
     (let nr = (if running_curr ts rq \<noteq> None then rq_nr_running rq + 1 else rq_nr_running rq)
      in if nr \<le> 1 then cf_base_slice cf
         else let slice = cf_latency cf div nr;
                  slice = (if slice < cf_min_granularity cf then cf_min_granularity cf else slice)
              in if slice > cf_base_slice cf then cf_base_slice cf else slice)"

section \<open>Eligibility and order\<close>

text \<open>The products are computed in 128 bits, which is wide enough for all of them.\<close>

definition entity_eligible_vruntime :: "tasks \<Rightarrow> eevdf_rq \<Rightarrow> uint64_t \<Rightarrow> bool" where
  "entity_eligible_vruntime ts rq vruntime =
     (let (avg, load) =
        (case rq_curr rq of
           None \<Rightarrow> (sint (rq_avg_vruntime rq), rq_avg_load rq)
         | Some a \<Rightarrow>
             if tk_state (ts a) = TASK_RUNNING
             then (sint (rq_avg_vruntime rq) + sint (tk_vruntime (ts a) - rq_min_vruntime rq) * uint (tk_weight (ts a)),
                   rq_avg_load rq + ucast (tk_weight (ts a)))
             else (sint (rq_avg_vruntime rq), rq_avg_load rq))
      in avg \<ge> sint (vruntime - rq_min_vruntime rq) * uint load)"

definition entity_eligible :: "tasks \<Rightarrow> eevdf_rq \<Rightarrow> nat \<Rightarrow> bool" where
  "entity_eligible ts rq a = entity_eligible_vruntime ts rq (tk_vruntime (ts a))"

definition entity_less :: "tasks \<Rightarrow> rb_less" where
  "entity_less ts a b =
     (if tk_deadline (ts a) \<noteq> tk_deadline (ts b) then sint (tk_deadline (ts a) - tk_deadline (ts b)) < 0
      else if tk_vruntime (ts a) \<noteq> tk_vruntime (ts b) then sint (tk_vruntime (ts a) - tk_vruntime (ts b)) < 0
      else tk_pid (ts a) < tk_pid (ts b))"

definition entity_before :: "sched_config \<Rightarrow> tasks \<Rightarrow> nat \<Rightarrow> nat \<Rightarrow> bool option" where
  "entity_before cf ts cand cur =
     (if entity_less ts cand cur then do {
        gran \<leftarrow> calc_delta_fair (cf_wakeup_granularity cf) (ts cand);
        Some (sint (tk_deadline (ts cand) + gran) < sint (tk_deadline (ts cur))) }
      else Some False)"

definition update_min_vruntime :: "tasks \<Rightarrow> rb_heap \<Rightarrow> nat \<Rightarrow> rb_heap option" where
  "update_min_vruntime ts h node = do {
     n \<leftarrow> rb_nodes h node;
     let min_vr = tk_vruntime (ts node);
     min_vr \<leftarrow> (case rb_left n of
                 None \<Rightarrow> Some min_vr
               | Some l \<Rightarrow> do { v \<leftarrow> fld h rb_min_vruntime l; Some (if v < min_vr then v else min_vr) });
     min_vr \<leftarrow> (case rb_right n of
                 None \<Rightarrow> Some min_vr
               | Some r \<Rightarrow> do { v \<leftarrow> fld h rb_min_vruntime r; Some (if v < min_vr then v else min_vr) });
     upd h node (\<lambda>n. n\<lparr>rb_min_vruntime := min_vr\<rparr>) }"

section \<open>The weighted sum\<close>

definition advance_min_vruntime :: "sched \<Rightarrow> nat \<Rightarrow> sched option" where
  "advance_min_vruntime s c = do {
     rq \<leftarrow> rq_at s c;
     timeline \<leftarrow> rb_roots (sc_heap s) c;
     let candidate = (case running_curr (sc_tasks s) rq of None \<Rightarrow> - 1 | Some a \<Rightarrow> tk_vruntime (sc_tasks s a));
     candidate \<leftarrow> (case rt_root timeline of
                    None \<Rightarrow> Some candidate
                  | Some r \<Rightarrow> do {
                      queued \<leftarrow> fld (sc_heap s) rb_min_vruntime r;
                      Some (if candidate = - 1 \<or> sint (queued - candidate) < 0 then queued else candidate) });
     if candidate = - 1 \<or> sint (candidate - rq_min_vruntime rq) \<le> 0 then Some s
     else do {
       let delta = candidate - rq_min_vruntime rq;
       Some (put_rq s c (rq\<lparr>rq_avg_vruntime := rq_avg_vruntime rq - delta * rq_avg_load rq,
                             rq_min_vruntime := candidate\<rparr>)) } }"

definition avg_vruntime_add :: "eevdf_rq \<Rightarrow> sched_task \<Rightarrow> eevdf_rq" where
  "avg_vruntime_add rq t =
     (let delta = (tk_vruntime t - rq_min_vruntime rq) * ucast (tk_weight t)
      in rq\<lparr>rq_avg_vruntime := rq_avg_vruntime rq + delta, rq_avg_load := rq_avg_load rq + ucast (tk_weight t)\<rparr>)"

definition avg_vruntime_sub :: "eevdf_rq \<Rightarrow> sched_task \<Rightarrow> eevdf_rq" where
  "avg_vruntime_sub rq t =
     (let delta = (tk_vruntime t - rq_min_vruntime rq) * ucast (tk_weight t)
      in rq\<lparr>rq_avg_vruntime := rq_avg_vruntime rq - delta, rq_avg_load := rq_avg_load rq - ucast (tk_weight t)\<rparr>)"

definition update_curr :: "sched \<Rightarrow> nat \<Rightarrow> uint64_t \<Rightarrow> sched option" where
  "update_curr s c delta_ticks = do {
     rq \<leftarrow> rq_at s c;
     case rq_curr rq of
       None \<Rightarrow> Some s
     | Some cur \<Rightarrow>
         if rq_curr rq = rq_idle rq then Some s
         else do {
           d \<leftarrow> calc_delta_fair delta_ticks (sc_tasks s cur);
           advance_min_vruntime (set_task s cur (\<lambda>t. t\<lparr>tk_vruntime := tk_vruntime t + d\<rparr>)) c } }"

definition update_deadline :: "sched_config \<Rightarrow> sched \<Rightarrow> nat \<Rightarrow> nat \<Rightarrow> sched option" where
  "update_deadline cf s c a = do {
     rq \<leftarrow> rq_at s c;
     let t = sc_tasks s a;
     if sint (tk_vruntime t - tk_deadline t) < 0 then Some s
     else do {
       let slice = calc_effective_slice cf (sc_tasks s) rq;
       d \<leftarrow> calc_delta_fair slice t;
       let s = set_task s a (\<lambda>t. t\<lparr>tk_deadline := tk_vruntime t + d\<rparr>);
       v \<leftarrow> avg_vruntime (sc_tasks s) rq;
       Some (set_task s a (\<lambda>t. t\<lparr>tk_vlag := v - tk_vruntime t\<rparr>)) } }"

definition place_entity :: "sched_config \<Rightarrow> sched \<Rightarrow> nat \<Rightarrow> nat \<Rightarrow> bool \<Rightarrow> sched option" where
  "place_entity cf s c a initial = do {
     rq \<leftarrow> rq_at s c;
     let t = sc_tasks s a;
     vruntime \<leftarrow> avg_vruntime (sc_tasks s) rq;
     vslice \<leftarrow> calc_delta_fair (calc_effective_slice cf (sc_tasks s) rq) t;
     let load = (case running_curr (sc_tasks s) rq of
                   None \<Rightarrow> rq_avg_load rq
                 | Some b \<Rightarrow> rq_avg_load rq + ucast (tk_weight (sc_tasks s b)));
     lag \<leftarrow> (if load = 0 then Some 0
             else do {
               let new_load = load + ucast (tk_weight t);
               lag \<leftarrow> (if new_load > load then sdiv64 (tk_vlag t * new_load) load else Some (tk_vlag t));
               let lag_limit = vslice * 2;
               let lag = (if sint lag > sint lag_limit then lag_limit else lag);
               Some (if sint lag < sint (- lag_limit) then - lag_limit else lag) });
     let vslice = (if initial then vslice div 2 else vslice);
     Some (set_task s a (\<lambda>t. let v = add_signed_vruntime vruntime (- lag)
                               in t\<lparr>tk_vruntime := v, tk_deadline := v + vslice\<rparr>)) }"

section \<open>The timeline\<close>

definition enqueue_entity :: "sched \<Rightarrow> nat \<Rightarrow> nat option \<Rightarrow> (sched \<times> bool) outcome" where
  "enqueue_entity s c task =
     (case task of
        None \<Rightarrow> if sc_print s then None else Some (Inr (s, False))
      | Some a \<Rightarrow>
          let ts = sc_tasks s; t = ts a in
          if tk_state t \<noteq> TASK_READY then Some (Inr (s, False))
          else if tk_on_rq t then Some (Inr (s, False))
          else do {
            (h, r) \<leftarrow> rb_insert_augmented (sc_heap s) (Some c) (Some a) (Some (entity_less ts)) (Some (update_min_vruntime ts));
            if r \<noteq> 0 then Some (Inl PANIC)
            else do {
              rq \<leftarrow> rq_at s c;
              let rq = avg_vruntime_add rq t;
              let s = set_task (s\<lparr>sc_heap := h\<rparr>) a (\<lambda>t. t\<lparr>tk_on_rq := True, tk_rq_cpu := of_nat c\<rparr>);
              Some (Inr (put_rq s c (rq\<lparr>rq_nr_running := rq_nr_running rq + 1\<rparr>), True)) } })"

definition dequeue_entity :: "sched \<Rightarrow> nat \<Rightarrow> nat option \<Rightarrow> (sched \<times> bool) outcome" where
  "dequeue_entity s c task =
     (case task of
        None \<Rightarrow> Some (Inr (s, False))
      | Some a \<Rightarrow>
          let ts = sc_tasks s; t = ts a in
          if \<not> tk_on_rq t then Some (Inr (s, False))
          else if tk_rq_cpu t \<noteq> of_nat c then Some (Inr (s, False))
          else do {
            (h, r) \<leftarrow> rb_erase_augmented (sc_heap s) (Some c) (Some a) (Some (update_min_vruntime ts));
            if r \<noteq> 0 then Some (Inl PANIC)
            else do {
              rq \<leftarrow> rq_at s c;
              let s = set_task (s\<lparr>sc_heap := h\<rparr>) a (\<lambda>t. t\<lparr>tk_on_rq := False, tk_rq_cpu := - 1\<rparr>);
              let rq = avg_vruntime_sub rq t;
              let rq = (if rq_nr_running rq \<noteq> 0 then rq\<lparr>rq_nr_running := rq_nr_running rq - 1\<rparr> else rq);
              Some (Inr (put_rq s c rq, True)) } })"

text \<open>The loop of the search: the first node it finds eligible, or a null pointer.\<close>

partial_function (option) heap_search :: "tasks \<Rightarrow> rb_heap \<Rightarrow> nat option \<Rightarrow> eevdf_rq \<Rightarrow> nat option option" where
  "heap_search ts h node rq =
     (case node of
        None \<Rightarrow> Some None
      | Some a \<Rightarrow> do {
          left \<leftarrow> fld h rb_left a;
          go_left \<leftarrow> (case left of
                       None \<Rightarrow> Some False
                     | Some l \<Rightarrow> map_option (entity_eligible_vruntime ts rq) (fld h rb_min_vruntime l));
          if go_left then heap_search ts h left rq
          else if entity_eligible ts rq a then Some (Some a)
          else do { right \<leftarrow> fld h rb_right a; heap_search ts h right rq } })"

text \<open>An eligible entity replaces the current task when that may not go on or the entity goes before it.\<close>

definition prefer_entity :: "sched_config \<Rightarrow> tasks \<Rightarrow> nat \<Rightarrow> nat option \<Rightarrow> nat option option" where
  "prefer_entity cf ts se cur =
     (case cur of
        None \<Rightarrow> Some (Some se)
      | Some c \<Rightarrow> do { b \<leftarrow> entity_before cf ts se c; Some (if b then Some se else cur) })"

definition pick_eevdf :: "sched_config \<Rightarrow> sched \<Rightarrow> nat \<Rightarrow> nat option option" where
  "pick_eevdf cf s c = do {
     rq \<leftarrow> rq_at s c;
     timeline \<leftarrow> rb_roots (sc_heap s) c;
     let ts = sc_tasks s;
     if rq_nr_running rq = 0 then Some (rq_idle rq)
     else do {
       let cur = (case rq_curr rq of
                     None \<Rightarrow> None
                   | Some a \<Rightarrow> if tk_state (ts a) \<noteq> TASK_RUNNING \<or> \<not> entity_eligible ts rq a then None else Some a);
       if (case rt_leftmost timeline of None \<Rightarrow> False | Some l \<Rightarrow> entity_eligible ts rq l)
       then do { l \<leftarrow> rt_leftmost timeline; prefer_entity cf ts l cur }
       else do {
         found \<leftarrow> heap_search ts (sc_heap s) (rt_root timeline) rq;
         case found of
           Some se \<Rightarrow> prefer_entity cf ts se cur
         | None \<Rightarrow>
             if cur \<noteq> None then Some cur
             else if rt_leftmost timeline \<noteq> None then Some (rt_leftmost timeline)
             else Some (rq_idle rq) } } }"

end
