(* ===== verification/Timeline.thy ===== *)
theory Timeline
  imports Rbtree_Correct Eevdf
begin

text \<open>
  The timelines of the scheduler as instances of the red-black tree: the callback that keeps the least
  virtual runtime of every subtree, the order of the entities, and the sequence a timeline stands for.
\<close>

section \<open>The least virtual runtime\<close>

definition least_vruntime :: "tasks \<Rightarrow> aggregate" where
  "least_vruntime ts a l r =
     (let m = tk_vruntime (ts a); m = (case l of None \<Rightarrow> m | Some v \<Rightarrow> min v m) in case r of None \<Rightarrow> m | Some v \<Rightarrow> min v m)"

lemma update_min_vruntime_call:
  assumes n: "rb_nodes h a = Some n" and ch: "\<And>b. b \<in> set_option (rb_left n) \<union> set_option (rb_right n) \<Longrightarrow> rb_nodes h b \<noteq> None"
  shows "update_min_vruntime ts h a
    = Some (set_mv h a (least_vruntime ts a (Option.bind (rb_left n) (fld h rb_min_vruntime)) (Option.bind (rb_right n) (fld h rb_min_vruntime))))"
proof -
  define m where "m b = the (fld h rb_min_vruntime b)" for b
  have mv: "fld h rb_min_vruntime b = Some (m b)" if "rb_left n = Some b \<or> rb_right n = Some b" for b
    using ch [of b] that by (auto simp: fld_def m_def)
  have "(if v < m then v else m) = min v m" for v m :: uint64_t by (auto simp: min_def)
  then show ?thesis using n mv
    by (cases "rb_left n"; cases "rb_right n") (auto simp: update_min_vruntime_def least_vruntime_def upd_def set_mv_def Let_def)
qed

lemma least_vruntime_assoc: "least_vruntime ts b (Some (least_vruntime ts a x y)) z = least_vruntime ts a x (Some (least_vruntime ts b y z))"
  by (cases x; cases y; cases z) (simp_all add: least_vruntime_def Let_def ac_simps)

interpretation vtree: rb_callback "Some (update_min_vruntime ts)" "Some (least_vruntime ts)" for ts
proof
  show "\<exists>v. call_augment (Some (update_min_vruntime ts)) h a = Some (set_mv h a v)
      \<and> (\<forall>g. Some (least_vruntime ts) = Some g \<longrightarrow> v = g a (Option.bind (rb_left n) (fld h rb_min_vruntime)) (Option.bind (rb_right n) (fld h rb_min_vruntime)))"
    if "rb_nodes h a = Some n" "\<And>b. b \<in> set_option (rb_left n) \<union> set_option (rb_right n) \<Longrightarrow> rb_nodes h b \<noteq> None" for h a n
    using update_min_vruntime_call [OF that] by (simp add: call_augment_def)
qed (auto simp: least_vruntime_assoc)

section \<open>Height\<close>

fun rbheight :: "rbt \<Rightarrow> nat" where
  "rbheight Lf = 0"
| "rbheight (Nd c l a r) = Suc (max (rbheight l) (rbheight r))"

lemma rb_size: "rb n t \<Longrightarrow> 2 ^ n \<le> length (adr t) + 1"
proof (induction t arbitrary: n)
  case (Nd c l a r)
  show ?case
  proof (cases c)
    case RB_RED
    then show ?thesis using Nd.IH(1) [of n] Nd.prems by simp
  next
    case RB_BLACK
    then obtain m where "n = Suc m" "rb m l" "rb m r" using Nd.prems by (cases n) auto
    then show ?thesis using Nd.IH(1) [of m] Nd.IH(2) [of m] by simp
  qed
qed (auto split: nat.splits)

lemma rb_height: "rb n t \<Longrightarrow> rbheight t \<le> 2 * n + (if col t = RB_RED then 1 else 0)"
proof (induction t arbitrary: n)
  case (Nd c l a r)
  show ?case
  proof (cases c)
    case RB_RED
    then show ?thesis using Nd.IH(1) [of n] Nd.IH(2) [of n] Nd.prems by auto
  next
    case RB_BLACK
    then obtain m where "n = Suc m" "rb m l" "rb m r" using Nd.prems by (cases n) auto
    then show ?thesis using Nd.IH(1) [of m] Nd.IH(2) [of m] RB_BLACK by (auto split: if_splits)
  qed
qed simp

lemma rb_tree_height: "rb_tree gv h root T \<Longrightarrow> 2 ^ rbheight T \<le> (length (adr T) + 1) ^ 2"
proof -
  assume "rb_tree gv h root T"
  then obtain n where n: "rb n T" "col T = RB_BLACK" by (auto simp: rb_tree_def)
  then have "(2::nat) ^ rbheight T \<le> 2 ^ (2 * n)" using rb_height [OF n(1)] by (intro power_increasing) auto
  also have "\<dots> = (2 ^ n) ^ 2" by (simp add: power_mult [symmetric] mult.commute)
  also have "\<dots> \<le> (length (adr T) + 1) ^ 2" using rb_size [OF n(1)] by (rule power_mono) simp
  finally show ?thesis .
qed

section \<open>The sequence of a timeline\<close>

lemma rb_next_in_sequence:
  assumes T: "rb_tree gv h root T" and x: "adr T = ys @ x # zs"
  shows "rb_next h (Some x) = Some (hd_opt zs)"
proof -
  have in_T: "x \<in> set (adr T)" using x by simp
  then obtain c l r k where p: "T = plug (Nd c l x r) k" using plug_at by blast
  have t: "rep h root T []" and own: "owners h x \<noteq> Some None" using T in_T by (auto simp: rb_tree_def tree_at_def)
  then have "distinct (adr T)" by (simp add: rep_def)
  moreover have "adr T = (lft k @ adr l) @ x # (adr r @ rgt k)" using p by (simp add: adr_plug)
  ultimately have "zs = adr r @ rgt k" using x append_Cons_eq_iff [of x ys zs "lft k @ adr l" "adr r @ rgt k"] by (simp add: x)
  moreover have "rep h root (Nd c l x r) k" using t p rep_plug by simp
  ultimately show ?thesis using rb_next_tree own by blast
qed

lemma rb_first_of_tree: "rb_tree gv h root T \<Longrightarrow> rb_first h (Some root) = Some (hd_opt (adr T))"
  by (auto simp: rb_tree_def rb_first_def leftmost_def)

lemma rb_insert_refused: "owners h x = Some (Some r) \<Longrightarrow> rb_insert_augmented h (Some root) (Some x) (Some lt) aug = Some (h, 1)"
  by (auto simp: rb_insert_augmented_def owners_def fld_def)

lemma rb_erase_refused: "owners h x \<noteq> None \<Longrightarrow> owners h x \<noteq> Some (Some root) \<Longrightarrow> rb_erase_augmented h (Some root) (Some x) aug = Some (h, 1)"
  by (auto simp: rb_erase_augmented_def owners_def fld_def)

text \<open>
  C18: A timeline is a red-black tree over a sequence of tasks, and every operation on its pointers is
  the operation on that sequence. Inserting a task that is in no tree succeeds and puts it into the
  sequence, behind every entity it does not precede when the order of the entities is a strict weak
  order and the sequence respects it; erasing a task of the timeline removes exactly it. Both keep
  the tree red-black with a black root, every node's augmented value the least virtual runtime of its
  subtree, the cached leftmost node first in the sequence, and touch no node of another tree. A task
  that is already in a tree is not inserted and one that is not in this timeline is not erased, both
  without a change. The first node and the successor of a node are those of the sequence, and no path
  is longer than twice the logarithm of the number of tasks.
\<close>

theorem timeline_refines_sequence:
  assumes T: "rb_tree (Some (least_vruntime ts)) h root T"
  shows "(\<forall>x. owners h x = Some None \<longrightarrow>
      (\<exists>h' T'. rb_insert_augmented h (Some root) (Some x) (Some (entity_less ts)) (Some (update_min_vruntime ts)) = Some (h', 0)
        \<and> rb_tree (Some (least_vruntime ts)) h' root T' \<and> (\<exists>ys zs. adr T = ys @ zs \<and> adr T' = ys @ x # zs)
        \<and> (in_order (entity_less ts) (adr T) \<and> swo (entity_less ts) (insert x (set (adr T)))
             \<longrightarrow> adr T' = insert_at (entity_less ts) x (adr T) \<and> in_order (entity_less ts) (adr T'))
        \<and> owners h' = (owners h)(x \<mapsto> Some root) \<and> (\<forall>b. b \<notin> insert x (set (adr T)) \<longrightarrow> rb_nodes h' b = rb_nodes h b)
        \<and> (\<forall>r. r \<noteq> root \<longrightarrow> rb_roots h' r = rb_roots h r)))
    \<and> (\<forall>x \<in> set (adr T).
        \<exists>h' T'. rb_erase_augmented h (Some root) (Some x) (Some (update_min_vruntime ts)) = Some (h', 0)
        \<and> rb_tree (Some (least_vruntime ts)) h' root T' \<and> adr T' = remove1 x (adr T) \<and> owners h' = (owners h)(x \<mapsto> None)
        \<and> (\<forall>b. b \<notin> set (adr T) \<longrightarrow> rb_nodes h' b = rb_nodes h b) \<and> (\<forall>r. r \<noteq> root \<longrightarrow> rb_roots h' r = rb_roots h r))
    \<and> (\<forall>x r. owners h x = Some (Some r) \<longrightarrow>
        rb_insert_augmented h (Some root) (Some x) (Some (entity_less ts)) (Some (update_min_vruntime ts)) = Some (h, 1))
    \<and> (\<forall>x. owners h x \<noteq> None \<and> owners h x \<noteq> Some (Some root) \<longrightarrow>
        rb_erase_augmented h (Some root) (Some x) (Some (update_min_vruntime ts)) = Some (h, 1))
    \<and> rb_first h (Some root) = Some (hd_opt (adr T))
    \<and> (\<forall>ys x zs. adr T = ys @ x # zs \<longrightarrow> rb_next h (Some x) = Some (hd_opt zs))
    \<and> 2 ^ rbheight T \<le> (length (adr T) + 1) ^ 2"
  by (intro conjI allI ballI impI; (elim conjE)?)
    (fact vtree.insert_tree [OF T] vtree.erase_tree [OF T] rb_insert_refused rb_erase_refused rb_first_of_tree [OF T]
      rb_tree_height [OF T] | rule rb_next_in_sequence [OF T], assumption)+

definition blank_task :: sched_task where
  "blank_task = \<lparr>tk_pid = 1, tk_state = TASK_READY, tk_on_cpu = 0, tk_on_rq = False, tk_rq_cpu = - 1, tk_rsp = 1, tk_time_slice = 0,
     tk_wake_tick = 0, tk_cpu_id = 0, tk_last_cpu = 0, tk_last_migrate_tick = 0, tk_migration_count = 0, tk_user_ticks = 0,
     tk_system_ticks = 0, tk_voluntary_switches = 0, tk_involuntary_switches = 0, tk_vruntime = 0, tk_deadline = 9, tk_vlag = 0,
     tk_weight = 1024\<rparr>"

definition two_tasks :: tasks where
  "two_tasks a = (if a = 2 then blank_task\<lparr>tk_pid := 2, tk_vruntime := 3, tk_deadline := 5\<rparr> else blank_task)"

definition one_queued :: rb_heap where
  "one_queued =
     \<lparr>rb_nodes = [1 \<mapsto> \<lparr>rb_parent = None, rb_left = None, rb_right = None, rb_owner = Some 0, rb_min_vruntime = 0, rb_col = RB_BLACK\<rparr>,
                  2 \<mapsto> \<lparr>rb_parent = None, rb_left = None, rb_right = None, rb_owner = None, rb_min_vruntime = 0, rb_col = RB_BLACK\<rparr>],
      rb_roots = [0 \<mapsto> \<lparr>rt_root = Some 1, rt_leftmost = Some 1\<rparr>]\<rparr>"

lemma one_queued_tree: "rb_tree (Some (least_vruntime two_tasks)) one_queued 0 (Nd RB_BLACK Lf 1 Lf)"
  by (auto simp: rb_tree_def tree_at_def rep_def vok_def one_queued_def cells_def rootptr_def leftmost_def owners_def fld_def
      least_vruntime_def two_tasks_def blank_task_def)

theorem timeline_refines_sequence_witness:
  "(\<exists>h T. rb_insert_augmented one_queued (Some 0) (Some 2) (Some (entity_less two_tasks)) (Some (update_min_vruntime two_tasks)) = Some (h, 0)
      \<and> rb_tree (Some (least_vruntime two_tasks)) h 0 T \<and> adr T = [2, 1])
   \<and> (\<exists>h T. rb_erase_augmented one_queued (Some 0) (Some 1) (Some (update_min_vruntime two_tasks)) = Some (h, 0)
      \<and> rb_tree (Some (least_vruntime two_tasks)) h 0 T \<and> adr T = [])
   \<and> rb_first one_queued (Some 0) = Some (Some 1) \<and> rb_next one_queued (Some 1) = Some None"
proof -
  note facts = timeline_refines_sequence [OF one_queued_tree]
  have own: "owners one_queued 2 = Some None" by (simp add: owners_def one_queued_def)
  have less: "entity_less two_tasks 2 1" "\<not> entity_less two_tasks 1 2" "\<not> entity_less two_tasks 1 1" "\<not> entity_less two_tasks 2 2"
    by (simp_all add: entity_less_def two_tasks_def blank_task_def)
  then have ord: "in_order (entity_less two_tasks) [1]" "swo (entity_less two_tasks) {2, 1}" "insert_at (entity_less two_tasks) 2 [1] = [2, 1]"
    by (simp_all add: in_order_def swo_def insert_at_def)
  have "\<exists>h T. rb_insert_augmented one_queued (Some 0) (Some 2) (Some (entity_less two_tasks)) (Some (update_min_vruntime two_tasks)) = Some (h, 0)
      \<and> rb_tree (Some (least_vruntime two_tasks)) h 0 T \<and> adr T = [2, 1]"
    using facts [THEN conjunct1, rule_format, OF own] ord by auto
  moreover have "rb_next one_queued (Some 1) = Some None"
    using facts [THEN conjunct2, THEN conjunct2, THEN conjunct2, THEN conjunct2, THEN conjunct2, THEN conjunct1, rule_format, of "[]" 1 "[]"] by simp
  ultimately show ?thesis using facts by auto
qed

end
