(* ===== verification/Eevdf_Inv.thy ===== *)
theory Eevdf_Inv
  imports Timeline
begin

text \<open>
  The invariant of the run queues: every timeline is a tree over the ready tasks of its processor, and
  the counters are the sums over that tree. Enqueueing and dequeueing keep it and do not panic.
\<close>

section \<open>The invariant\<close>

definition weight_sum :: "tasks \<Rightarrow> nat list \<Rightarrow> uint64_t" where
  "weight_sum ts xs = (\<Sum>a\<leftarrow>xs. ucast (tk_weight (ts a)))"

definition key_sum :: "tasks \<Rightarrow> uint64_t \<Rightarrow> nat list \<Rightarrow> uint64_t" where
  "key_sum ts m xs = (\<Sum>a\<leftarrow>xs. (tk_vruntime (ts a) - m) * ucast (tk_weight (ts a)))"

definition queue_ok :: "tasks \<Rightarrow> rb_heap \<Rightarrow> nat \<Rightarrow> eevdf_rq \<Rightarrow> rbt \<Rightarrow> bool" where
  "queue_ok ts h c rq T \<longleftrightarrow> rb_tree (Some (least_vruntime ts)) h c T
     \<and> (\<forall>a \<in> set (adr T). tk_on_rq (ts a) \<and> tk_rq_cpu (ts a) = of_nat c \<and> tk_state (ts a) = TASK_READY)
     \<and> rq_nr_running rq = of_nat (length (adr T))
     \<and> rq_avg_load rq = weight_sum ts (adr T)
     \<and> rq_avg_vruntime rq = key_sum ts (rq_min_vruntime rq) (adr T)"

text \<open>
  A task exists when its node does. There are fewer than \<open>2 ^ 31\<close> of them, each of which takes more than
  a kilobyte of memory, and their weights are not zero. Every processor has a current and an idle task.
\<close>

definition live :: "sched \<Rightarrow> nat set" where
  "live s = dom (rb_nodes (sc_heap s))"

definition crewed :: "nat set \<Rightarrow> eevdf_rq \<Rightarrow> bool" where
  "crewed A rq \<longleftrightarrow> (\<exists>a \<in> A. rq_curr rq = Some a) \<and> (\<exists>b \<in> A. rq_idle rq = Some b)"

definition sched_inv :: "sched \<Rightarrow> (nat \<Rightarrow> rbt) \<Rightarrow> bool" where
  "sched_inv s Q \<longleftrightarrow> length (sc_rqs s) < 2 ^ 32 \<and> finite (live s) \<and> card (live s) < 2 ^ 31
     \<and> (\<forall>a. tk_weight (sc_tasks s a) \<noteq> 0)
     \<and> (\<forall>c < length (sc_rqs s). queue_ok (sc_tasks s) (sc_heap s) c (sc_rqs s ! c) (Q c))
     \<and> (\<forall>a. tk_on_rq (sc_tasks s a) \<longrightarrow> (\<exists>c < length (sc_rqs s). a \<in> set (adr (Q c))))
     \<and> (\<forall>a \<in> live s. \<not> tk_on_rq (sc_tasks s a) \<longrightarrow> owners (sc_heap s) a = Some None)
     \<and> (\<forall>c < length (sc_rqs s). crewed (live s) (sc_rqs s ! c))"

lemma sched_invD:
  assumes "sched_inv s Q"
  shows "finite (live s)" "card (live s) < 2 ^ 31" "length (sc_rqs s) < 2 ^ 32"
    and "tk_weight (sc_tasks s a) \<noteq> 0"
    and "c < length (sc_rqs s) \<Longrightarrow> queue_ok (sc_tasks s) (sc_heap s) c (sc_rqs s ! c) (Q c)"
    and "tk_on_rq (sc_tasks s a) \<Longrightarrow> \<exists>c < length (sc_rqs s). a \<in> set (adr (Q c))"
    and "a \<in> live s \<Longrightarrow> \<not> tk_on_rq (sc_tasks s a) \<Longrightarrow> owners (sc_heap s) a = Some None"
    and "c < length (sc_rqs s) \<Longrightarrow> crewed (live s) (sc_rqs s ! c)"
  using assms by (auto simp: sched_inv_def)

lemma of_nat_cpu: "c < 2 ^ 32 \<Longrightarrow> d < 2 ^ 32 \<Longrightarrow> (of_nat c :: uint32_t) = of_nat d \<longleftrightarrow> c = d"
  by (simp add: word_of_nat_eq_iff take_bit_nat_eq_self_iff [THEN iffD2])

lemma live_owners: "a \<in> live s \<longleftrightarrow> owners (sc_heap s) a \<noteq> None"
  by (auto simp: live_def owners_def)

lemma queued_tree:
  assumes "sched_inv s Q" "c < length (sc_rqs s)"
  shows "rb_tree (Some (least_vruntime (sc_tasks s))) (sc_heap s) c (Q c)" "distinct (adr (Q c))" "set (adr (Q c)) \<subseteq> live s"
proof -
  show t: "rb_tree (Some (least_vruntime (sc_tasks s))) (sc_heap s) c (Q c)" using sched_invD(5) [OF assms] by (simp add: queue_ok_def)
  then show "distinct (adr (Q c))" by (simp add: rb_tree_def tree_at_def rep_def)
  show "set (adr (Q c)) \<subseteq> live s" using t by (auto simp: rb_tree_def live_owners)
qed

lemma queued_on:
  assumes I: "sched_inv s Q" and a: "tk_on_rq (sc_tasks s a)" and c: "tk_rq_cpu (sc_tasks s a) = of_nat c" "c < length (sc_rqs s)"
  shows "a \<in> set (adr (Q c))"
proof -
  obtain d where d: "d < length (sc_rqs s)" "a \<in> set (adr (Q d))" using sched_invD(6) [OF I a] by blast
  then have "tk_rq_cpu (sc_tasks s a) = of_nat d" using sched_invD(5) [OF I d(1)] by (simp add: queue_ok_def)
  then have "d = c" using of_nat_cpu [of c d] c d(1) sched_invD(3) [OF I] by simp
  then show ?thesis using d by simp
qed

lemma queue_bound: "sched_inv s Q \<Longrightarrow> c < length (sc_rqs s) \<Longrightarrow> length (adr (Q c)) < 2 ^ 31"
  using queued_tree [of s Q c] sched_invD(1,2) [of s Q] card_mono [of "live s" "set (adr (Q c))"] distinct_card [of "adr (Q c)"] by fastforce

section \<open>What does not touch the queues\<close>

lemma aok_tasks:
  assumes "\<And>a. a \<in> set (adr t) \<Longrightarrow> tk_vruntime (ts' a) = tk_vruntime (ts a)"
  shows "agg (least_vruntime ts') t = agg (least_vruntime ts) t" "aok (least_vruntime ts') X m t = aok (least_vruntime ts) X m t"
  using assms by (induction t) (simp_all add: least_vruntime_def)

lemma rb_tree_tasks:
  assumes "\<And>a. a \<in> set (adr T) \<Longrightarrow> tk_vruntime (ts' a) = tk_vruntime (ts a)"
  shows "rb_tree (Some (least_vruntime ts')) h c T = rb_tree (Some (least_vruntime ts)) h c T"
  using aok_tasks(2) [OF assms] by (simp add: rb_tree_def tree_at_def vok_def)

lemma sums_tasks:
  assumes "\<And>a. a \<in> set xs \<Longrightarrow> tk_vruntime (ts' a) = tk_vruntime (ts a) \<and> tk_weight (ts' a) = tk_weight (ts a)"
  shows "weight_sum ts' xs = weight_sum ts xs" "key_sum ts' m xs = key_sum ts m xs"
  using assms by (simp_all add: weight_sum_def key_sum_def cong: map_cong)

lemma queue_ok_tasks:
  assumes "\<And>a. a \<in> set (adr T) \<Longrightarrow> tk_vruntime (ts' a) = tk_vruntime (ts a) \<and> tk_weight (ts' a) = tk_weight (ts a)
      \<and> tk_on_rq (ts' a) = tk_on_rq (ts a) \<and> tk_rq_cpu (ts' a) = tk_rq_cpu (ts a) \<and> tk_state (ts' a) = tk_state (ts a)"
  shows "queue_ok ts' h c rq T = queue_ok ts h c rq T"
  using assms rb_tree_tasks [of T ts' ts h c] sums_tasks [of "adr T" ts' ts] by (simp add: queue_ok_def)

lemma inv_set_task:
  assumes I: "sched_inv s Q" and a: "\<not> tk_on_rq (sc_tasks s a)"
    and f: "\<not> tk_on_rq (f (sc_tasks s a))" "tk_weight (f (sc_tasks s a)) \<noteq> 0"
  shows "sched_inv (set_task s a f) Q"
proof -
  have nin: "a \<notin> set (adr (Q c))" if "c < length (sc_rqs s)" for c
    using sched_invD(5) [OF I that] a by (auto simp: queue_ok_def)
  have "queue_ok ((sc_tasks s)(a := f (sc_tasks s a))) (sc_heap s) c (sc_rqs s ! c) (Q c)" if "c < length (sc_rqs s)" for c
  proof -
    have "queue_ok ((sc_tasks s)(a := f (sc_tasks s a))) (sc_heap s) c (sc_rqs s ! c) (Q c) = queue_ok (sc_tasks s) (sc_heap s) c (sc_rqs s ! c) (Q c)"
      by (rule queue_ok_tasks) (use nin [OF that] in auto)
    then show ?thesis using sched_invD(5) [OF I that] by simp
  qed
  then show ?thesis using I f a by (auto simp: sched_inv_def set_task_def live_def)
qed

lemma inv_put_rq:
  assumes I: "sched_inv s Q"
    and rq: "c < length (sc_rqs s) \<Longrightarrow> queue_ok (sc_tasks s) (sc_heap s) c rq (Q c)" "c < length (sc_rqs s) \<Longrightarrow> crewed (live s) rq"
  shows "sched_inv (put_rq s c rq) Q"
proof (cases "c < length (sc_rqs s)")
  case True
  then show ?thesis using assms by (auto simp: sched_inv_def put_rq_def live_def nth_list_update)
next
  case False
  then show ?thesis using I by (simp add: put_rq_def list_update_beyond)
qed

section \<open>Enqueueing and dequeueing\<close>

lemma rb_tree_frame:
  assumes T: "rb_tree gv h c T" and same: "\<And>a. a \<in> set (adr T) \<Longrightarrow> rb_nodes h' a = rb_nodes h a" and root: "rb_roots h' c = rb_roots h c"
  shows "rb_tree gv h' c T"
  using T tree_at_cong [of T h' h c gv "set (adr T)" "{}"] same root by (simp add: rb_tree_def rootptr_def leftmost_def owners_def)

lemma sums_insert: "weight_sum ts (ys @ a # zs) = weight_sum ts (ys @ zs) + ucast (tk_weight (ts a))"
  "key_sum ts m (ys @ a # zs) = key_sum ts m (ys @ zs) + (tk_vruntime (ts a) - m) * ucast (tk_weight (ts a))"
  by (simp_all add: weight_sum_def key_sum_def)

lemma sums_remove1:
  assumes "a \<in> set xs"
  shows "weight_sum ts (remove1 a xs) = weight_sum ts xs - ucast (tk_weight (ts a))"
    "key_sum ts m (remove1 a xs) = key_sum ts m xs - (tk_vruntime (ts a) - m) * ucast (tk_weight (ts a))"
proof -
  obtain ys zs where "xs = ys @ a # zs" "remove1 a xs = ys @ zs" using assms by (metis remove1_split)
  then show "weight_sum ts (remove1 a xs) = weight_sum ts xs - ucast (tk_weight (ts a))"
    "key_sum ts m (remove1 a xs) = key_sum ts m xs - (tk_vruntime (ts a) - m) * ucast (tk_weight (ts a))"
    using sums_insert by simp_all
qed

text \<open>The queues behind an operation that changed one timeline and the task it is about.\<close>

lemma inv_one_queue:
  assumes I: "sched_inv s Q" and c: "c < length (sc_rqs s)"
    and T: "queue_ok (sc_tasks s') (sc_heap s') c (sc_rqs s' ! c) T"
    and nodes: "\<And>b. b \<notin> insert a (set (adr (Q c))) \<Longrightarrow> rb_nodes (sc_heap s') b = rb_nodes (sc_heap s) b"
    and roots: "\<And>d. d \<noteq> c \<Longrightarrow> rb_roots (sc_heap s') d = rb_roots (sc_heap s) d"
    and tasks: "\<And>b. b \<noteq> a \<Longrightarrow> sc_tasks s' b = sc_tasks s b" and w: "tk_weight (sc_tasks s' a) \<noteq> 0"
    and crew: "rq_curr (sc_rqs s' ! c) = rq_curr (sc_rqs s ! c)" "rq_idle (sc_rqs s' ! c) = rq_idle (sc_rqs s ! c)"
    and len: "length (sc_rqs s') = length (sc_rqs s)" and rqs: "\<And>d. d \<noteq> c \<Longrightarrow> sc_rqs s' ! d = sc_rqs s ! d"
    and own: "owners (sc_heap s') = (owners (sc_heap s))(a := Some q)" "a \<in> live s"
    and mem: "set (adr T) - {a} = set (adr (Q c)) - {a}" "tk_on_rq (sc_tasks s' a) \<longleftrightarrow> a \<in> set (adr T)" "a \<notin> set (adr T) \<Longrightarrow> q = None"
    and a: "\<And>d. d < length (sc_rqs s) \<Longrightarrow> d \<noteq> c \<Longrightarrow> a \<notin> set (adr (Q d))"
  shows "sched_inv s' (Q(c := T))"
proof -
  have live: "live s' = live s" using own by (auto simp: live_owners split: if_splits)
  have "queue_ok (sc_tasks s') (sc_heap s') d (sc_rqs s' ! d) (Q d)" if d: "d < length (sc_rqs s)" "d \<noteq> c" for d
  proof -
    have q: "queue_ok (sc_tasks s) (sc_heap s) d (sc_rqs s ! d) (Q d)" using sched_invD(5) [OF I d(1)] .
    have "b \<noteq> a \<and> b \<notin> set (adr (Q c))" if b: "b \<in> set (adr (Q d))" for b
    proof -
      have "owners (sc_heap s) b = Some (Some d)" using queued_tree(1) [OF I d(1)] b by (simp add: rb_tree_def)
      moreover have "owners (sc_heap s) b = Some (Some c)" if "b \<in> set (adr (Q c))" using queued_tree(1) [OF I c] that by (simp add: rb_tree_def)
      ultimately show ?thesis using a [OF d] b d(2) by auto
    qed
    then have same: "rb_nodes (sc_heap s') b = rb_nodes (sc_heap s) b \<and> sc_tasks s' b = sc_tasks s b" if "b \<in> set (adr (Q d))" for b
      using nodes tasks that by blast
    then have "rb_tree (Some (least_vruntime (sc_tasks s))) (sc_heap s') d (Q d)"
      using rb_tree_frame [OF queued_tree(1) [OF I d(1)]] roots [OF d(2)] by blast
    then have "queue_ok (sc_tasks s) (sc_heap s') d (sc_rqs s ! d) (Q d)" using q by (simp add: queue_ok_def)
    moreover have "queue_ok (sc_tasks s') (sc_heap s') d (sc_rqs s ! d) (Q d) = queue_ok (sc_tasks s) (sc_heap s') d (sc_rqs s ! d) (Q d)"
      by (rule queue_ok_tasks) (use same in simp)
    ultimately show ?thesis using rqs [OF d(2)] by simp
  qed
  moreover have "\<exists>d < length (sc_rqs s). b \<in> set (adr ((Q(c := T)) d))" if on: "tk_on_rq (sc_tasks s' b)" for b
  proof (cases "b = a")
    case True
    then show ?thesis using on mem(2) c by auto
  next
    case False
    then obtain d where "d < length (sc_rqs s)" "b \<in> set (adr (Q d))" using sched_invD(6) [OF I, of b] on tasks by auto
    then show ?thesis using False mem(1) by (intro exI [of _ d]) auto
  qed
  moreover have "owners (sc_heap s') b = Some None" if "b \<in> live s" "\<not> tk_on_rq (sc_tasks s' b)" for b
    using sched_invD(7) [OF I, of b] that tasks [of b] own mem(2,3) by (cases "b = a") auto
  moreover have "tk_weight (sc_tasks s' b) \<noteq> 0" for b using w tasks [of b] sched_invD(4) [OF I] by (cases "b = a") auto
  moreover have "crewed (live s') (sc_rqs s' ! d)" if "d < length (sc_rqs s)" for d
    using sched_invD(8) [OF I that] crew rqs [of d] live by (cases "d = c") (auto simp: crewed_def)
  ultimately show ?thesis using I T live len unfolding sched_inv_def by auto
qed

lemma enqueue_entity_ok:
  assumes I: "sched_inv s Q" and c: "c < length (sc_rqs s)" and a: "a \<in> live s" "tk_state (sc_tasks s a) = TASK_READY" "\<not> tk_on_rq (sc_tasks s a)"
  shows "\<exists>s' T. enqueue_entity s c (Some a) = Some (Inr (s', True)) \<and> sched_inv s' (Q(c := T))
    \<and> (\<exists>ys zs. adr (Q c) = ys @ zs \<and> adr T = ys @ a # zs)
    \<and> (in_order (entity_less (sc_tasks s)) (adr (Q c)) \<and> swo (entity_less (sc_tasks s)) (insert a (set (adr (Q c))))
         \<longrightarrow> in_order (entity_less (sc_tasks s)) (adr T))
    \<and> sc_tasks s' = (sc_tasks s)(a := (sc_tasks s a)\<lparr>tk_on_rq := True, tk_rq_cpu := of_nat c\<rparr>)
    \<and> sc_rqs s' = (sc_rqs s)[c := (avg_vruntime_add (sc_rqs s ! c) (sc_tasks s a))\<lparr>rq_nr_running := rq_nr_running (sc_rqs s ! c) + 1\<rparr>]
    \<and> live s' = live s"
proof -
  let ?ts = "sc_tasks s" and ?rq = "sc_rqs s ! c"
  have own: "owners (sc_heap s) a = Some None" using sched_invD(7) [OF I a(1,3)] .
  obtain h T ys zs where h: "rb_insert_augmented (sc_heap s) (Some c) (Some a) (Some (entity_less ?ts)) (Some (update_min_vruntime ?ts)) = Some (h, 0)"
      "rb_tree (Some (least_vruntime ?ts)) h c T" "adr (Q c) = ys @ zs" "adr T = ys @ a # zs"
      "in_order (entity_less ?ts) (adr (Q c)) \<and> swo (entity_less ?ts) (insert a (set (adr (Q c)))) \<longrightarrow> in_order (entity_less ?ts) (adr T)"
      "owners h = (owners (sc_heap s))(a \<mapsto> Some c)" "\<And>b. b \<notin> insert a (set (adr (Q c))) \<Longrightarrow> rb_nodes h b = rb_nodes (sc_heap s) b"
      "\<And>r. r \<noteq> c \<Longrightarrow> rb_roots h r = rb_roots (sc_heap s) r"
    using vtree.insert_tree [OF queued_tree(1) [OF I c] own, of "entity_less ?ts"] by blast
  let ?ts' = "?ts(a := (?ts a)\<lparr>tk_on_rq := True, tk_rq_cpu := of_nat c\<rparr>)"
  let ?rq' = "(avg_vruntime_add ?rq (?ts a))\<lparr>rq_nr_running := rq_nr_running ?rq + 1\<rparr>"
  let ?s = "s\<lparr>sc_heap := h, sc_tasks := ?ts', sc_rqs := (sc_rqs s)[c := ?rq']\<rparr>"
  have run: "enqueue_entity s c (Some a) = Some (Inr (?s, True))"
    using a h(1) c by (simp add: enqueue_entity_def rq_at_def set_task_def put_rq_def Let_def avg_vruntime_add_def)
  have q: "queue_ok ?ts (sc_heap s) c ?rq (Q c)" using sched_invD(5) [OF I c] .
  have nin: "a \<notin> set (adr (Q d))" if "d < length (sc_rqs s)" for d using sched_invD(5) [OF I that] a(3) by (auto simp: queue_ok_def)
  have tree: "rb_tree (Some (least_vruntime ?ts')) h c T" using h(2) rb_tree_tasks [of T ?ts' ?ts h c] by simp
  have sums: "weight_sum ?ts' (adr T) = weight_sum ?ts (adr T)" "key_sum ?ts' m (adr T) = key_sum ?ts m (adr T)" for m by (rule sums_tasks; simp)+
  have ok: "queue_ok ?ts' h c ?rq' T"
    using q tree h(3,4) a(2) sums sums_insert by (auto simp: queue_ok_def avg_vruntime_add_def Let_def)
  have "sched_inv ?s (Q(c := T))"
    by (rule inv_one_queue [OF I c, of ?s T a "Some c"]) (use ok h(3,4,6-8) c a(1) nin sched_invD(4) [OF I] in \<open>auto simp: avg_vruntime_add_def Let_def\<close>)
  moreover have "live ?s = live s" using h(6) a(1) by (auto simp: live_owners split: if_splits)
  ultimately show ?thesis using run h(3-5) by (intro exI [of _ ?s] exI [of _ T]) auto
qed

lemma dequeue_entity_ok:
  assumes I: "sched_inv s Q" and c: "c < length (sc_rqs s)" and a: "a \<in> set (adr (Q c))"
  shows "\<exists>s' T. dequeue_entity s c (Some a) = Some (Inr (s', True)) \<and> sched_inv s' (Q(c := T)) \<and> adr T = remove1 a (adr (Q c))
    \<and> sc_tasks s' = (sc_tasks s)(a := (sc_tasks s a)\<lparr>tk_on_rq := False, tk_rq_cpu := - 1\<rparr>)
    \<and> sc_rqs s' = (sc_rqs s)[c := (avg_vruntime_sub (sc_rqs s ! c) (sc_tasks s a))\<lparr>rq_nr_running := rq_nr_running (sc_rqs s ! c) - 1\<rparr>]
    \<and> live s' = live s"
proof -
  let ?ts = "sc_tasks s" and ?rq = "sc_rqs s ! c"
  have q: "queue_ok ?ts (sc_heap s) c ?rq (Q c)" using sched_invD(5) [OF I c] .
  then have on: "tk_on_rq (?ts a)" "tk_rq_cpu (?ts a) = of_nat c" and nr: "rq_nr_running ?rq = of_nat (length (adr (Q c)))"
    using a by (auto simp: queue_ok_def)
  obtain h T where h: "rb_erase_augmented (sc_heap s) (Some c) (Some a) (Some (update_min_vruntime ?ts)) = Some (h, 0)"
      "rb_tree (Some (least_vruntime ?ts)) h c T" "adr T = remove1 a (adr (Q c))" "owners h = (owners (sc_heap s))(a \<mapsto> None)"
      "\<And>b. b \<notin> set (adr (Q c)) \<Longrightarrow> rb_nodes h b = rb_nodes (sc_heap s) b" "\<And>r. r \<noteq> c \<Longrightarrow> rb_roots h r = rb_roots (sc_heap s) r"
    using vtree.erase_tree [OF queued_tree(1) [OF I c] a] by blast
  have len: "length (adr (Q c)) \<noteq> 0" "length (adr (Q c)) < 2 ^ 31" using a queue_bound [OF I c] by auto
  then have nz: "rq_nr_running ?rq \<noteq> 0" using nr by (simp add: word_of_nat_eq_0_iff nat_dvd_not_less)
  let ?ts' = "?ts(a := (?ts a)\<lparr>tk_on_rq := False, tk_rq_cpu := - 1\<rparr>)"
  let ?rq' = "(avg_vruntime_sub ?rq (?ts a))\<lparr>rq_nr_running := rq_nr_running ?rq - 1\<rparr>"
  let ?s = "s\<lparr>sc_heap := h, sc_tasks := ?ts', sc_rqs := (sc_rqs s)[c := ?rq']\<rparr>"
  have run: "dequeue_entity s c (Some a) = Some (Inr (?s, True))"
    using on h(1) c nz by (simp add: dequeue_entity_def rq_at_def set_task_def put_rq_def Let_def avg_vruntime_sub_def)
  have d: "distinct (adr (Q c))" by (rule queued_tree(2) [OF I c])
  have tree: "rb_tree (Some (least_vruntime ?ts')) h c T" using h(2) rb_tree_tasks [of T ?ts' ?ts h c] by simp
  have sums: "weight_sum ?ts' (adr T) = weight_sum ?ts (adr T)" "key_sum ?ts' m (adr T) = key_sum ?ts m (adr T)" for m by (rule sums_tasks; simp)+
  have "(of_nat (length (adr (Q c))) :: uint64_t) - 1 = of_nat (length (adr T))" 
    using h(3) a len(1) of_nat_Suc [of "length (adr T)", where 'a = uint64_t] by (simp add: length_remove1 del: of_nat_Suc)
  then have ok: "queue_ok ?ts' h c ?rq' T"
    using q tree h(3) d sums sums_remove1 [OF a] nr by (auto simp: queue_ok_def avg_vruntime_sub_def Let_def)
  have other: "a \<notin> set (adr (Q d))" if "d < length (sc_rqs s)" "d \<noteq> c" for d
    using queued_tree(1) [OF I that(1)] queued_tree(1) [OF I c] a that(2) by (auto simp: rb_tree_def)
  have "sched_inv ?s (Q(c := T))"
    by (rule inv_one_queue [OF I c, of ?s T a None])
      (use ok h(3-6) c d a other sched_invD(4) [OF I] queued_tree(3) [OF I c] in \<open>auto simp: set_remove1_eq avg_vruntime_sub_def Let_def\<close>)
  moreover have "live ?s = live s" using h(4) a queued_tree(3) [OF I c] by (auto simp: live_owners split: if_splits)
  ultimately show ?thesis using run h(3) by (intro exI [of _ ?s] exI [of _ T]) auto
qed

text \<open>Moving the origin of the weighted sum rebases it.\<close>

lemma key_sum_rebase: "key_sum ts (m + d) xs = key_sum ts m xs - d * weight_sum ts xs"
  by (induction xs) (simp_all add: key_sum_def weight_sum_def algebra_simps)

lemma advance_min_vruntime_ok:
  assumes I: "sched_inv s Q" and c: "c < length (sc_rqs s)"
  shows "\<exists>s' rq. advance_min_vruntime s c = Some s' \<and> sched_inv s' Q \<and> s' = put_rq s c rq
    \<and> (rq = sc_rqs s ! c \<or> (\<exists>m. rq = (sc_rqs s ! c)\<lparr>rq_avg_vruntime := rq_avg_vruntime rq, rq_min_vruntime := m\<rparr>
        \<and> sint (m - rq_min_vruntime (sc_rqs s ! c)) > 0))"
proof -
  let ?ts = "sc_tasks s" and ?rq = "sc_rqs s ! c"
  have q: "queue_ok ?ts (sc_heap s) c ?rq (Q c)" using sched_invD(5) [OF I c] .
  then have t: "tree_at (Some (least_vruntime ?ts)) (set (adr (Q c))) c {} (sc_heap s) (Q c) []" by (simp add: queue_ok_def rb_tree_def)
  obtain r where r: "rb_roots (sc_heap s) c = Some r" "rt_root r = ptr (Q c)" using rootptr_tree [OF t] by blast
  define cand :: uint64_t where "cand = (case running_curr ?ts ?rq of None \<Rightarrow> - 1 | Some a \<Rightarrow> tk_vruntime (?ts a))"
  have "\<exists>v. (case rt_root r of None \<Rightarrow> Some cand
      | Some a \<Rightarrow> do { queued \<leftarrow> fld (sc_heap s) rb_min_vruntime a; Some (if cand = - 1 \<or> sint (queued - cand) < 0 then queued else cand) }) = Some v"
  proof (cases "Q c")
    case (Nd cc l a rr)
    then have "a \<in> live s" using queued_tree(3) [OF I c] by simp
    then show ?thesis using r(2) Nd by (auto simp: live_def fld_def)
  qed (use r in simp)
  then obtain v where v: "(case rt_root r of None \<Rightarrow> Some cand
      | Some a \<Rightarrow> do { queued \<leftarrow> fld (sc_heap s) rb_min_vruntime a; Some (if cand = - 1 \<or> sint (queued - cand) < 0 then queued else cand) }) = Some v" by blast
  define rq' where "rq' = ?rq\<lparr>rq_avg_vruntime := rq_avg_vruntime ?rq - (v - rq_min_vruntime ?rq) * rq_avg_load ?rq, rq_min_vruntime := v\<rparr>"
  have run: "advance_min_vruntime s c = Some (if v = - 1 \<or> sint (v - rq_min_vruntime ?rq) \<le> 0 then s else put_rq s c rq')"
    using c r(1) v unfolding advance_min_vruntime_def rq_at_def cand_def rq'_def by (simp add: Let_def)
  show ?thesis
  proof (cases "v = - 1 \<or> sint (v - rq_min_vruntime ?rq) \<le> 0")
    case True
    have "put_rq s c ?rq = s" by (simp add: put_rq_def)
    then show ?thesis using run True I by (intro exI [of _ s] exI [of _ ?rq]) simp
  next
    case False
    have "key_sum ?ts v xs = key_sum ?ts (rq_min_vruntime ?rq) xs - (v - rq_min_vruntime ?rq) * weight_sum ?ts xs" for xs
      using key_sum_rebase [of ?ts "rq_min_vruntime ?rq" "v - rq_min_vruntime ?rq" xs] by simp
    then have "queue_ok ?ts (sc_heap s) c rq' (Q c)" using q by (simp add: queue_ok_def rq'_def)
    moreover have "crewed (live s) rq'" using sched_invD(8) [OF I c] by (simp add: crewed_def rq'_def)
    ultimately have "sched_inv (put_rq s c rq') Q" by (intro inv_put_rq [OF I])
    then show ?thesis using run False by (intro exI [of _ "put_rq s c rq'"] exI [of _ rq']) (auto simp: rq'_def)
  qed
qed

end
