(* ===== verification/Eevdf_Pick.thy ===== *)
theory Eevdf_Pick
  imports Eevdf_Inv
begin

text \<open>
  The choice of the next task: the search with the least virtual runtimes finds the first eligible
  task of the timeline, and with exact sums there is always an eligible one.
\<close>

section \<open>Eligibility\<close>

text \<open>Virtual times that have not reached the sign bit; only then the two ways in which the code compares them agree.\<close>

definition calm :: "tasks \<Rightarrow> eevdf_rq \<Rightarrow> nat list \<Rightarrow> bool" where
  "calm ts rq xs \<longleftrightarrow> rq_min_vruntime rq < 2 ^ 63 \<and> (\<forall>a \<in> set xs. tk_vruntime (ts a) < 2 ^ 63)"

lemma sint_diff:
  fixes v m :: uint64_t
  assumes "v < 2 ^ 63" "m < 2 ^ 63"
  shows "sint (v - m) = uint v - uint m"
proof -
  have "uint v < 2 ^ 63" "uint m < 2 ^ 63" using assms by (simp_all add: word_less_def)
  moreover have "0 \<le> uint v" "0 \<le> uint m" by simp_all
  ultimately have "- (2 ^ 63) \<le> uint v - uint m \<and> uint v - uint m < 2 ^ 63" by linarith
  then have "sint (word_of_int (uint v - uint m) :: uint64_t) = uint v - uint m"
    using sint_word_of_int_range [where 'a = 64, THEN iffD2, of "uint v - uint m"] by (simp del: of_int_diff)
  then show ?thesis by simp
qed

lemma eligible_le:
  assumes "entity_eligible_vruntime ts rq w" "v \<le> w" "w < 2 ^ 63" "rq_min_vruntime rq < 2 ^ 63"
  shows "entity_eligible_vruntime ts rq v"
proof -
  have "v < 2 ^ 63" using assms(2,3) by (rule order.strict_trans1)
  then have "sint (v - rq_min_vruntime rq) \<le> sint (w - rq_min_vruntime rq)"
    using assms sint_diff [of v] sint_diff [of w] by (simp add: word_le_def)
  then have "sint (v - rq_min_vruntime rq) * uint load \<le> sint (w - rq_min_vruntime rq) * uint load" for load :: uint64_t
    by (intro mult_right_mono) simp_all
  then show ?thesis using assms(1) order.trans unfolding entity_eligible_vruntime_def by (fastforce simp: Let_def split: option.splits if_splits)
qed

lemma least_of_tree:
  "agg (least_vruntime ts) t = Some v \<Longrightarrow> (\<exists>a \<in> set (adr t). v = tk_vruntime (ts a)) \<and> (\<forall>a \<in> set (adr t). v \<le> tk_vruntime (ts a))"
proof (induction t arbitrary: v)
  case (Nd c l a r)
  let ?g = "least_vruntime ts"
  have v: "v = ?g a (agg ?g l) (agg ?g r)" using Nd.prems by simp
  have leaf: "adr t = []" if "agg ?g t = None" for t using that by (cases t) auto
  show ?case
  proof (cases "agg ?g l"; cases "agg ?g r")
    assume "agg ?g l = None" "agg ?g r = None"
    then show ?thesis using v leaf by (simp add: least_vruntime_def)
  next
    fix w
    assume l: "agg ?g l = None" and w: "agg ?g r = Some w"
    then have "v = min w (tk_vruntime (ts a))" using v by (simp add: least_vruntime_def)
    then show ?thesis using Nd.IH(2) [OF w] leaf [OF l] by (auto simp: min_def)
  next
    fix u
    assume u: "agg ?g l = Some u" and r: "agg ?g r = None"
    then have "v = min u (tk_vruntime (ts a))" using v by (simp add: least_vruntime_def)
    then show ?thesis using Nd.IH(1) [OF u] leaf [OF r] by (auto simp: min_def)
  next
    fix u w
    assume u: "agg ?g l = Some u" and w: "agg ?g r = Some w"
    have "v = min w (min u (tk_vruntime (ts a)))" using v u w by (simp add: least_vruntime_def)
    then show ?thesis using Nd.IH(1) [OF u] Nd.IH(2) [OF w] by (auto simp: min_def)
  qed
qed simp

section \<open>The search\<close>

lemma find_append: "find P (xs @ ys) = (case find P xs of None \<Rightarrow> find P ys | Some x \<Rightarrow> Some x)"
  by (induction xs) auto

lemma heap_search_tree:
  assumes "tree_at (Some (least_vruntime ts)) S root {} h t k" "calm ts rq (adr t)"
  shows "heap_search ts h (ptr t) rq = Some (find (entity_eligible ts rq) (adr t))"
  using assms
proof (induction t arbitrary: k)
  case Lf
  then show ?case by (subst heap_search.simps) simp
next
  case (Nd c l a r)
  have l: "tree_at (Some (least_vruntime ts)) S root {} h l ((SL, c, a, r) # k)" and r: "tree_at (Some (least_vruntime ts)) S root {} h r ((SR, c, a, l) # k)"
    using Nd.prems(1) tree_at_move [of _ S root "{}" h l SL c a r k] tree_at_move [of _ S root "{}" h r SR c a l k] by (simp_all add: mk_def)
  have f: "fld h rb_left a = Some (ptr l)" "fld h rb_right a = Some (ptr r)" using Nd.prems(1) by (auto simp: tree_at_def rep_def cells_def fld_def)
  have calm: "calm ts rq (adr l)" "calm ts rq (adr r)" using Nd.prems(2) by (auto simp: calm_def)
  have aok: "aok (least_vruntime ts) {} (fld h rb_min_vruntime) l" using l aok_plug_sub unfolding tree_at_def vok_def by blast
  have left: "(case ptr l of None \<Rightarrow> Some False | Some b \<Rightarrow> map_option (entity_eligible_vruntime ts rq) (fld h rb_min_vruntime b))
      = Some (\<exists>b \<in> set (adr l). entity_eligible ts rq b)"
  proof (cases l)
    case (Nd c' l' b r')
    then obtain v where v: "agg (least_vruntime ts) l = Some v" by simp
    then have "fld h rb_min_vruntime b = Some v" using aok_root [OF aok] Nd by simp
    moreover have "entity_eligible_vruntime ts rq v \<longleftrightarrow> (\<exists>b \<in> set (adr l). entity_eligible ts rq b)"
      using least_of_tree [OF v] eligible_le [of ts rq _ v] calm(1) unfolding entity_eligible_def calm_def by blast
    ultimately show ?thesis using Nd by simp
  qed simp
  have "heap_search ts h (Some a) rq = (if \<exists>b \<in> set (adr l). entity_eligible ts rq b then heap_search ts h (ptr l) rq
      else if entity_eligible ts rq a then Some (Some a) else heap_search ts h (ptr r) rq)"
    using f left by (subst heap_search.simps) simp
  moreover have "(\<exists>b \<in> set (adr l). entity_eligible ts rq b) \<longleftrightarrow> find (entity_eligible ts rq) (adr l) \<noteq> None"
    by (metis find_None_iff)
  ultimately show ?case using Nd.IH(1) [OF l calm(1)] Nd.IH(2) [OF r calm(2)] by (auto simp: find_append split: option.splits)
qed

section \<open>The choice\<close>

text \<open>
  The task that is to run next, given the tasks of the timeline in their order: the first eligible
  one, unless the current task is eligible and the first one does not go before it; without an
  eligible one the current task if it may go on, and else the first task.
\<close>

definition current_eligible :: "tasks \<Rightarrow> eevdf_rq \<Rightarrow> nat option" where
  "current_eligible ts rq =
     (case rq_curr rq of
        None \<Rightarrow> None
      | Some a \<Rightarrow> if tk_state (ts a) = TASK_RUNNING \<and> entity_eligible ts rq a then Some a else None)"

definition next_entity :: "sched_config \<Rightarrow> tasks \<Rightarrow> eevdf_rq \<Rightarrow> nat list \<Rightarrow> nat option" where
  "next_entity cf ts rq xs =
     (if xs = [] then rq_idle rq
      else case (find (entity_eligible ts rq) xs, current_eligible ts rq) of
        (Some e, Some a) \<Rightarrow> if entity_before cf ts e a = Some True then Some e else Some a
      | (Some e, None) \<Rightarrow> Some e
      | (None, Some a) \<Rightarrow> Some a
      | (None, None) \<Rightarrow> Some (hd xs))"

lemma entity_before_returns: "tk_weight (ts a) \<noteq> 0 \<Longrightarrow> \<exists>b. entity_before cf ts a c = Some b"
  by (auto simp: entity_before_def calc_delta_fair_def)

lemma prefer_entity_eq:
  assumes "tk_weight (ts e) \<noteq> 0"
  shows "prefer_entity cf ts e cur = Some (case cur of None \<Rightarrow> Some e | Some a \<Rightarrow> if entity_before cf ts e a = Some True then Some e else Some a)"
proof (cases cur)
  case (Some a)
  obtain b where "entity_before cf ts e a = Some b" using entity_before_returns [of ts e cf a] assms by blast
  then show ?thesis using Some by (simp add: prefer_entity_def)
qed (simp add: prefer_entity_def)

lemma pick_eevdf_eq:
  assumes I: "sched_inv s Q" and c: "c < length (sc_rqs s)" and calm: "calm (sc_tasks s) (sc_rqs s ! c) (adr (Q c))"
  shows "pick_eevdf cf s c = Some (next_entity cf (sc_tasks s) (sc_rqs s ! c) (adr (Q c)))"
proof -
  let ?ts = "sc_tasks s" and ?rq = "sc_rqs s ! c" and ?xs = "adr (Q c)"
  have q: "queue_ok ?ts (sc_heap s) c ?rq (Q c)" using sched_invD(5) [OF I c] .
  then have t: "tree_at (Some (least_vruntime ?ts)) (set ?xs) c {} (sc_heap s) (Q c) []" and lm: "leftmost (sc_heap s) c = Some (hd_opt ?xs)"
    and nr: "rq_nr_running ?rq = of_nat (length ?xs)" by (simp_all add: queue_ok_def rb_tree_def)
  obtain r where r: "rb_roots (sc_heap s) c = Some r" "rt_root r = ptr (Q c)" using rootptr_tree [OF t] by blast
  have r': "rt_leftmost r = hd_opt ?xs" using lm r(1) by (simp add: leftmost_def)
  have search: "heap_search ?ts (sc_heap s) (rt_root r) ?rq = Some (find (entity_eligible ?ts ?rq) ?xs)"
    using heap_search_tree [OF t calm] r(2) by simp
  have empty: "rq_nr_running ?rq = 0 \<longleftrightarrow> ?xs = []" using nr queue_bound [OF I c] by (auto simp: word_of_nat_eq_0_iff nat_dvd_not_less)
  have cur: "(case rq_curr ?rq of None \<Rightarrow> None | Some a \<Rightarrow> if tk_state (?ts a) \<noteq> TASK_RUNNING \<or> \<not> entity_eligible ?ts ?rq a then None else Some a)
      = current_eligible ?ts ?rq" by (auto simp: current_eligible_def split: option.splits)
  have w: "tk_weight (?ts a) \<noteq> 0" for a by (rule sched_invD(4) [OF I])
  show ?thesis
  proof (cases ?xs)
    case Nil
    then show ?thesis using c r(1) empty by (simp add: pick_eevdf_def rq_at_def next_entity_def)
  next
    case (Cons x xs)
    then show ?thesis using c r(1) empty search cur r' prefer_entity_eq [of ?ts _ cf, OF w]
      by (auto simp: pick_eevdf_def rq_at_def next_entity_def Let_def split: option.splits)
  qed
qed

lemma find_first_in_order:
  assumes "in_order lt xs" "find P xs = Some e" "b \<in> set xs" "P b" "\<not> lt e e"
  shows "\<not> lt b e"
proof -
  obtain ys zs where x: "xs = ys @ e # zs" "\<forall>y \<in> set ys. \<not> P y"
    using assms(2) by (auto simp: find_Some_iff in_set_conv_nth) (metis Cons_nth_drop_Suc append_take_drop_id in_set_conv_nth length_take min.absorb2 min_less_iff_conj nth_take order_less_imp_le)
  then show ?thesis using assms(1,3-5) by (auto simp: in_order_def sorted_wrt_append)
qed

section \<open>There is an eligible task\<close>

text \<open>The entities the eligibility test counts, and their weighted sum without wrapping.\<close>

definition runnable :: "tasks \<Rightarrow> eevdf_rq \<Rightarrow> nat list \<Rightarrow> nat list" where
  "runnable ts rq xs = xs @ (case rq_curr rq of None \<Rightarrow> [] | Some a \<Rightarrow> if tk_state (ts a) = TASK_RUNNING then [a] else [])"

definition exact_key_sum :: "tasks \<Rightarrow> uint64_t \<Rightarrow> nat list \<Rightarrow> int" where
  "exact_key_sum ts m xs = (\<Sum>a\<leftarrow>xs. sint (tk_vruntime (ts a) - m) * uint (tk_weight (ts a)))"

lemma key_sum_exact: "key_sum ts m xs = word_of_int (exact_key_sum ts m xs)"
  by (induction xs) (simp_all add: key_sum_def exact_key_sum_def)

lemma weight_sum_exact:
  assumes "length xs < 2 ^ 31"
  shows "uint (weight_sum ts xs) = (\<Sum>a\<leftarrow>xs. uint (tk_weight (ts a)))" "uint (weight_sum ts xs) \<le> int (length xs) * (2 ^ 32 - 1)"
proof -
  have w: "(\<Sum>a\<leftarrow>xs. uint (tk_weight (ts a))) \<le> int (length xs) * (2 ^ 32 - 1)" "0 \<le> (\<Sum>a\<leftarrow>xs. uint (tk_weight (ts a)))"
    by (induction xs) (use uint_lt2p [where 'a = 32] in \<open>auto simp: algebra_simps\<close>, smt (verit))
  moreover have "weight_sum ts xs = word_of_int (\<Sum>a\<leftarrow>xs. uint (tk_weight (ts a)))"
    by (induction xs) (simp_all add: weight_sum_def)
  moreover have "int (length xs) * (2 ^ 32 - 1) < 2 ^ 64" using assms by simp
  ultimately show u: "uint (weight_sum ts xs) = (\<Sum>a\<leftarrow>xs. uint (tk_weight (ts a)))"
    using uint_word_of_int_range [where 'a = 64, THEN iffD2, of "\<Sum>a\<leftarrow>xs. uint (tk_weight (ts a))"] by simp
  show "uint (weight_sum ts xs) \<le> int (length xs) * (2 ^ 32 - 1)" using u w by simp
qed

lemma weighted_least:
  fixes key w :: "'a \<Rightarrow> int"
  assumes "xs \<noteq> []" "\<And>a. 0 \<le> w a"
  shows "\<exists>a \<in> set xs. key a * (\<Sum>b\<leftarrow>xs. w b) \<le> (\<Sum>b\<leftarrow>xs. key b * w b)"
proof -
  have "Min (key ` set xs) \<in> key ` set xs" using assms(1) by (intro Min_in) auto
  then obtain a where a: "a \<in> set xs" "key a = Min (key ` set xs)" by auto
  then have "key a * w b \<le> key b * w b" if "b \<in> set xs" for b using that assms(2) by (intro mult_right_mono) auto
  then have "(\<Sum>b\<leftarrow>xs. key a * w b) \<le> (\<Sum>b\<leftarrow>xs. key b * w b)" by (intro sum_list_mono)
  then show ?thesis using a(1) by (auto simp: sum_list_const_mult)
qed

lemma some_eligible:
  assumes I: "sched_inv s Q" and c: "c < length (sc_rqs s)" and ne: "adr (Q c) \<noteq> []"
    and exact: "- (2 ^ 63) \<le> exact_key_sum (sc_tasks s) (rq_min_vruntime (sc_rqs s ! c)) (adr (Q c))"
      "exact_key_sum (sc_tasks s) (rq_min_vruntime (sc_rqs s ! c)) (adr (Q c)) < 2 ^ 63"
  shows "\<exists>a \<in> set (runnable (sc_tasks s) (sc_rqs s ! c) (adr (Q c))). entity_eligible (sc_tasks s) (sc_rqs s ! c) a"
proof -
  let ?ts = "sc_tasks s" and ?rq = "sc_rqs s ! c" and ?xs = "adr (Q c)"
  let ?R = "runnable ?ts ?rq ?xs" and ?key = "\<lambda>a. sint (tk_vruntime (sc_tasks s a) - rq_min_vruntime (sc_rqs s ! c))" and ?w = "\<lambda>a. uint (tk_weight (sc_tasks s a))"
  have q: "queue_ok ?ts (sc_heap s) c ?rq (Q c)" by (rule sched_invD(5) [OF I c])
  have avg: "sint (rq_avg_vruntime ?rq) = exact_key_sum ?ts (rq_min_vruntime ?rq) ?xs"
    using q key_sum_exact [of ?ts "rq_min_vruntime ?rq" ?xs] exact sint_word_of_int_range [where 'a = 64, THEN iffD2] by (simp add: queue_ok_def)
  have len: "length ?xs < 2 ^ 31" by (rule queue_bound [OF I c])
  have load: "uint (rq_avg_load ?rq) = (\<Sum>a\<leftarrow>?xs. ?w a)" "uint (rq_avg_load ?rq) \<le> 2 ^ 63"
    using q weight_sum_exact [OF len, of ?ts] len by (auto simp: queue_ok_def)
  have add: "uint (rq_avg_load ?rq + ucast (tk_weight (?ts a))) = uint (rq_avg_load ?rq) + ?w a" for a
  proof -
    have u: "uint (ucast (tk_weight (?ts a)) :: uint64_t) = ?w a" by (simp add: unsigned_ucast_eq take_bit_int_eq_self_iff uint_lt2p [THEN order.strict_trans])
    then have "uint (rq_avg_load ?rq) + uint (ucast (tk_weight (?ts a)) :: uint64_t) < 2 ^ LENGTH(64)" using load(2) uint_lt2p [of "tk_weight (?ts a)"] by simp
    then show ?thesis using u uint_add_lem by metis
  qed
  have elig: "entity_eligible ?ts ?rq a \<longleftrightarrow> ?key a * (\<Sum>b\<leftarrow>?R. ?w b) \<le> (\<Sum>b\<leftarrow>?R. ?key b * ?w b)" for a
    using avg load(1) add by (auto simp: entity_eligible_def entity_eligible_vruntime_def runnable_def exact_key_sum_def Let_def split: option.splits if_splits)
  have "?R \<noteq> []" using ne by (simp add: runnable_def)
  then show ?thesis using weighted_least [of ?R ?w ?key] elig by auto
qed

end
