(* ===== verification/Sched.thy ===== *)
theory Sched
  imports Eevdf
begin

text \<open>
  \<^verbatim>\<open>src/kernel/sched/sched.c\<close>: what the scheduler does with the run queues. Every operation runs under
  the lock of the run queue it changes, or under the scheduler lock, and is one step here. Page
  tables, stacks and inter-processor interrupts are not part of the state. The heuristics that look
  for a processor to pull a task from are an argument: the processors they propose, in their order.
\<close>

definition proceed :: "'a outcome \<Rightarrow> ('a \<Rightarrow> 'b outcome) \<Rightarrow> 'b outcome" where
  "proceed m f = (case m of None \<Rightarrow> None | Some (Inl p) \<Rightarrow> Some (Inl p) | Some (Inr x) \<Rightarrow> f x)"

section \<open>Waking up\<close>

definition enqueue_task_on_cpu :: "sched_config \<Rightarrow> sched \<Rightarrow> nat option \<Rightarrow> uint32_t \<Rightarrow> bool \<Rightarrow> sched outcome" where
  "enqueue_task_on_cpu cf s task cpu_id initial =
     (case task of
        None \<Rightarrow> Some (Inr s)
      | Some a \<Rightarrow>
          let t = sc_tasks s a; n = length (sc_rqs s) in
          if tk_state t = TASK_ZOMBIE \<or> tk_state t = TASK_IDLE then Some (Inr s)
          else let cpu_id = (if unat cpu_id \<ge> n then 0 else cpu_id); c = unat cpu_id in
          if tk_rsp t = 0 then Some (Inr s)
          else if tk_on_rq t then
            Some (Inr (if unat (tk_rq_cpu t) < n then set_task s a (\<lambda>t. t\<lparr>tk_cpu_id := tk_rq_cpu t\<rparr>) else s))
          else do {
            s \<leftarrow> place_entity cf s c a initial;
            let s = set_task s a (\<lambda>t. t\<lparr>tk_state := TASK_READY, tk_wake_tick := 0, tk_cpu_id := cpu_id\<rparr>);
            proceed (enqueue_entity s c (Some a)) (\<lambda>(s, queued). do {
              rq \<leftarrow> rq_at s c;
              resched \<leftarrow> (if \<not> queued then Some False
                          else if rq_curr rq = rq_idle rq then Some True
                          else case rq_curr rq of
                            None \<Rightarrow> Some False
                          | Some b \<Rightarrow> if tk_state (sc_tasks s b) = TASK_RUNNING \<and> entity_eligible (sc_tasks s) rq a
                                       then entity_before cf (sc_tasks s) a b else Some False);
              Some (Inr (if resched then put_rq s c (rq\<lparr>rq_need_resched := True\<rparr>) else s)) }) })"

section \<open>Migration\<close>

text \<open>The last node of a subtree and the loops of the in-order predecessor.\<close>

partial_function (option) subtree_max :: "rb_heap \<Rightarrow> nat \<Rightarrow> nat option" where
  "subtree_max h node = do {
     r \<leftarrow> fld h rb_right node;
     case r of None \<Rightarrow> Some node | Some b \<Rightarrow> subtree_max h b }"

partial_function (option) prev_up :: "rb_heap \<Rightarrow> nat \<Rightarrow> nat option \<Rightarrow> nat option option" where
  "prev_up h node parent =
     (case parent of
        None \<Rightarrow> Some None
      | Some p \<Rightarrow> do {
          l \<leftarrow> fld h rb_left p;
          if Some node = l then do { q \<leftarrow> fld h rb_parent p; x \<leftarrow> prev_up h p q; Some x }
          else Some (Some p) })"

definition rb_prev_local :: "rb_heap \<Rightarrow> nat option \<Rightarrow> nat option option" where
  "rb_prev_local h node =
     (case node of
        None \<Rightarrow> Some None
      | Some a \<Rightarrow> do {
          l \<leftarrow> fld h rb_left a;
          case l of
            Some b \<Rightarrow> map_option Some (subtree_max h b)
          | None \<Rightarrow> do { p \<leftarrow> fld h rb_parent a; prev_up h a p } })"

text \<open>The loop over at most as many candidates as \<open>n\<close>.\<close>

fun steal_scan :: "sched_config \<Rightarrow> sched \<Rightarrow> eevdf_rq \<Rightarrow> bool \<Rightarrow> nat \<Rightarrow> nat option \<Rightarrow> nat option option" where
  "steal_scan cf s src newly_idle 0 node = Some None"
| "steal_scan cf s src newly_idle (Suc n) node =
     (case node of
        None \<Rightarrow> Some None
      | Some a \<Rightarrow>
          let hot = sc_ticks s - tk_last_migrate_tick (sc_tasks s a) < cf_migration_cooldown cf in
          if \<not> hot \<or> newly_idle \<or> rq_nr_running src > 2 then Some (Some a)
          else do { p \<leftarrow> rb_prev_local (sc_heap s) node; steal_scan cf s src newly_idle n p })"

definition pick_steal_candidate_locked :: "sched_config \<Rightarrow> sched \<Rightarrow> nat \<Rightarrow> bool \<Rightarrow> nat option option" where
  "pick_steal_candidate_locked cf s c newly_idle = do {
     src \<leftarrow> rq_at s c;
     timeline \<leftarrow> rb_roots (sc_heap s) c;
     case rt_root timeline of
       None \<Rightarrow> Some None
     | Some r \<Rightarrow> do { node \<leftarrow> subtree_max (sc_heap s) r; steal_scan cf s src newly_idle 8 (Some node) } }"

definition migrate_one_locked :: "sched_config \<Rightarrow> sched \<Rightarrow> nat \<Rightarrow> nat \<Rightarrow> bool \<Rightarrow> (sched \<times> nat option) outcome" where
  "migrate_one_locked cf s src_cpu dst_cpu newly_idle =
     (if src_cpu \<ge> length (sc_rqs s) \<or> dst_cpu \<ge> length (sc_rqs s) \<or> src_cpu = dst_cpu then Some (Inr (s, None))
      else do {
        src \<leftarrow> rq_at s src_cpu;
        dst \<leftarrow> rq_at s dst_cpu;
        if rq_nr_running src = 0 \<or> \<not> rq_online dst then Some (Inr (s, None))
        else do {
          task \<leftarrow> pick_steal_candidate_locked cf s src_cpu newly_idle;
          case task of
            None \<Rightarrow> Some (Inr (s, None))
          | Some a \<Rightarrow>
              if tk_state (sc_tasks s a) \<noteq> TASK_READY \<or> tk_on_cpu (sc_tasks s a) \<noteq> 0 then Some (Inr (s, None))
              else do {
                v \<leftarrow> avg_vruntime (sc_tasks s) src;
                let s = set_task s a (\<lambda>t. t\<lparr>tk_vlag := v - tk_vruntime t\<rparr>);
                proceed (dequeue_entity s src_cpu (Some a)) (\<lambda>(s, _). do {
                  let s = set_task s a (\<lambda>t. t\<lparr>tk_last_cpu := of_nat src_cpu, tk_last_migrate_tick := sc_ticks s,
                                              tk_migration_count := tk_migration_count t + 1\<rparr>);
                  src \<leftarrow> rq_at s src_cpu;
                  let s = put_rq s src_cpu (src\<lparr>rq_nr_migrations := rq_nr_migrations src + 1\<rparr>);
                  dst \<leftarrow> rq_at s dst_cpu;
                  let s = put_rq s dst_cpu (dst\<lparr>rq_nr_migrations := rq_nr_migrations dst + 1,
                                                rq_nr_steals := (if newly_idle then rq_nr_steals dst + 1 else rq_nr_steals dst)\<rparr>);
                  proceed (enqueue_task_on_cpu cf s (Some a) (of_nat dst_cpu) False) (\<lambda>s. Some (Inr (s, Some a))) }) } } })"

text \<open>\<^verbatim>\<open>newidle_balance_locked\<close> stops at the first processor of \<open>srcs\<close> that gives up a task.\<close>

fun newidle_pull :: "sched_config \<Rightarrow> sched \<Rightarrow> nat \<Rightarrow> nat list \<Rightarrow> (sched \<times> nat option) outcome" where
  "newidle_pull cf s dst_cpu [] = Some (Inr (s, None))"
| "newidle_pull cf s dst_cpu (src # srcs) =
     proceed (migrate_one_locked cf s src dst_cpu True) (\<lambda>(s, moved).
       if moved \<noteq> None then Some (Inr (s, moved)) else newidle_pull cf s dst_cpu srcs)"

section \<open>Switching\<close>

text \<open>The running task goes back into the timeline.\<close>

definition switch_out :: "sched_config \<Rightarrow> sched \<Rightarrow> nat \<Rightarrow> bool \<Rightarrow> sched outcome" where
  "switch_out cf s c voluntary = do {
     rq \<leftarrow> rq_at s c;
     let s = put_rq s c (rq\<lparr>rq_need_resched := False\<rparr>);
     case running_curr (sc_tasks s) rq of
       None \<Rightarrow> Some (Inr s)
     | Some a \<Rightarrow> do {
         let t = sc_tasks s a;
         let s = (if voluntary \<and> rq_nr_running rq \<noteq> 0 \<and> entity_eligible (sc_tasks s) rq a \<and> sint (tk_vruntime t - tk_deadline t) < 0
                  then set_task s a (\<lambda>t. t\<lparr>tk_vruntime := tk_deadline t\<rparr>) else s);
         s \<leftarrow> update_deadline cf s c a;
         rq \<leftarrow> rq_at s c;
         v \<leftarrow> avg_vruntime (sc_tasks s) rq;
         let s = set_task s a (\<lambda>t. t\<lparr>tk_vlag := v - tk_vruntime t, tk_state := TASK_READY\<rparr>);
         proceed (enqueue_entity s c (Some a)) (\<lambda>(s, _). Some (Inr s)) } }"

text \<open>The chosen task, taken out of the timeline when it is ready, becomes the current one.\<close>

definition take_ready :: "sched \<Rightarrow> nat \<Rightarrow> nat \<Rightarrow> sched outcome" where
  "take_ready s c n =
     proceed (dequeue_entity s c (Some n)) (\<lambda>(s, taken).
       if taken then Some (Inr (set_task s n (\<lambda>t. t\<lparr>tk_state := TASK_RUNNING, tk_time_slice := 0\<rparr>))) else Some (Inl PANIC))"

definition run_next :: "sched \<Rightarrow> nat \<Rightarrow> bool \<Rightarrow> nat option \<Rightarrow> nat \<Rightarrow> sched outcome" where
  "run_next s c voluntary prev n =
     (if tk_rsp (sc_tasks s n) = 0 then Some (Inl PANIC)
      else do {
        let s = set_task s n (\<lambda>t. t\<lparr>tk_on_cpu := 1\<rparr>);
        rq \<leftarrow> rq_at s c;
        s \<leftarrow> advance_min_vruntime (put_rq s c (rq\<lparr>rq_curr := Some n\<rparr>)) c;
        rq \<leftarrow> rq_at s c;
        let s = put_rq s c (rq\<lparr>rq_context_switches := rq_context_switches rq + 1\<rparr>);
        p \<leftarrow> prev;
        let s = (if prev = rq_idle rq then s
                 else set_task s p (\<lambda>t. if voluntary then t\<lparr>tk_voluntary_switches := tk_voluntary_switches t + 1\<rparr>
                                         else t\<lparr>tk_involuntary_switches := tk_involuntary_switches t + 1\<rparr>));
        Some (Inr (set_task s p (\<lambda>t. t\<lparr>tk_on_cpu := 0\<rparr>))) })"

definition switch_in :: "sched \<Rightarrow> nat \<Rightarrow> bool \<Rightarrow> nat option \<Rightarrow> nat option \<Rightarrow> sched outcome" where
  "switch_in s c voluntary prev nxt = do {
     rq \<leftarrow> rq_at s c;
     if prev = nxt then
       (case nxt of
          None \<Rightarrow> Some (Inr s)
        | Some n \<Rightarrow>
            if nxt \<noteq> rq_idle rq \<and> tk_state (sc_tasks s n) = TASK_READY
            then proceed (take_ready s c n) (\<lambda>s. map_option Inr (advance_min_vruntime s c))
            else Some (Inr s))
     else do {
       s \<leftarrow> (if nxt = rq_idle rq \<and> rq_nr_running rq = 0 then do {
               avg \<leftarrow> avg_vruntime (sc_tasks s) rq;
               Some (if sint (avg - rq_min_vruntime rq) > 0 then put_rq s c (rq\<lparr>rq_min_vruntime := avg\<rparr>) else s) }
             else Some s);
       n \<leftarrow> nxt;
       proceed (if tk_state (sc_tasks s n) = TASK_READY then take_ready s c n else Some (Inr s)) (\<lambda>s.
         run_next s c voluntary prev n) } }"

definition sched_switch :: "sched_config \<Rightarrow> sched \<Rightarrow> nat \<Rightarrow> bool \<Rightarrow> nat list \<Rightarrow> sched outcome" where
  "sched_switch cf s c voluntary srcs = do {
     rq \<leftarrow> rq_at s c;
     let prev = rq_curr rq;
     proceed (switch_out cf s c voluntary) (\<lambda>s. do {
       rq \<leftarrow> rq_at s c;
       nxt \<leftarrow> pick_eevdf cf s c;
       if nxt = rq_idle rq \<and> rq_nr_running rq = 0 then
         proceed (newidle_pull cf s c srcs) (\<lambda>(s, stolen).
           if stolen \<noteq> None then switch_in s c voluntary prev stolen
           else do { nxt \<leftarrow> pick_eevdf cf s c; switch_in s c voluntary prev nxt })
       else switch_in s c voluntary prev nxt }) }"

section \<open>Ticks, stopping and continuing\<close>

text \<open>The part of \<^verbatim>\<open>sched_tick\<close> under the lock of the run queue; the second result is whether to preempt.\<close>

definition tick_account :: "sched_config \<Rightarrow> sched \<Rightarrow> nat \<Rightarrow> bool \<Rightarrow> (sched \<times> bool) option" where
  "tick_account cf s c user_mode = do {
     rq \<leftarrow> rq_at s c;
     let requested = rq_need_resched rq;
     let rq = rq\<lparr>rq_need_resched := False\<rparr>;
     if rq_curr rq = rq_idle rq then Some (put_rq s c (rq\<lparr>rq_idle_ticks := rq_idle_ticks rq + 1\<rparr>), rq_nr_running rq > 0)
     else do {
       a \<leftarrow> rq_curr rq;
       if tk_state (sc_tasks s a) \<noteq> TASK_RUNNING then Some (put_rq s c rq, False)
       else do {
         let s = (if user_mode
                  then put_rq (set_task s a (\<lambda>t. t\<lparr>tk_user_ticks := tk_user_ticks t + 1\<rparr>)) c (rq\<lparr>rq_user_ticks := rq_user_ticks rq + 1\<rparr>)
                  else put_rq (set_task s a (\<lambda>t. t\<lparr>tk_system_ticks := tk_system_ticks t + 1\<rparr>)) c (rq\<lparr>rq_system_ticks := rq_system_ticks rq + 1\<rparr>));
         let s = set_task s a (\<lambda>t. t\<lparr>tk_time_slice := tk_time_slice t + 1\<rparr>);
         s \<leftarrow> update_curr s c 1;
         s \<leftarrow> update_deadline cf s c a;
         rq \<leftarrow> rq_at s c;
         if (requested \<or> tk_time_slice (sc_tasks s a) \<ge> cf_min_granularity cf) \<and> rq_nr_running rq > 0
         then do { nxt \<leftarrow> pick_eevdf cf s c; Some (s, nxt \<noteq> Some a) }
         else Some (s, False) } } }"

text \<open>The section of \<^verbatim>\<open>task_block\<close> that blocks the current task; the wakeup it may consume before is not part of the state.\<close>

definition block_current :: "sched \<Rightarrow> nat \<Rightarrow> sched option" where
  "block_current s c = do {
     rq \<leftarrow> rq_at s c;
     a \<leftarrow> rq_curr rq;
     v \<leftarrow> avg_vruntime (sc_tasks s) rq;
     Some (set_task s a (\<lambda>t. t\<lparr>tk_vlag := v - tk_vruntime t, tk_state := TASK_BLOCKED\<rparr>)) }"

definition task_stop :: "sched \<Rightarrow> nat option \<Rightarrow> (sched \<times> (errno + nat)) outcome" where
  "task_stop s task =
     (case task of
        None \<Rightarrow> Some (Inr (s, Inl EINVAL))
      | Some a \<Rightarrow>
          let t = sc_tasks s a in
          if tk_state t = TASK_READY \<or> tk_state t = TASK_RUNNING then do {
            let c = (if unat (tk_cpu_id t) < length (sc_rqs s) then unat (tk_cpu_id t) else 0);
            proceed (if tk_state t = TASK_READY \<and> tk_on_rq t then dequeue_entity s c (Some a) else Some (Inr (s, False))) (\<lambda>(s, _).
              Some (Inr (set_task s a (\<lambda>t. t\<lparr>tk_state := TASK_STOPPED\<rparr>), Inr 0))) }
          else Some (Inr (s, Inr 1)))"

definition task_continue :: "sched_config \<Rightarrow> sched \<Rightarrow> nat option \<Rightarrow> (sched \<times> nat) outcome" where
  "task_continue cf s task =
     (case task of
        None \<Rightarrow> Some (Inr (s, 1))
      | Some a \<Rightarrow>
          let t = sc_tasks s a in
          if tk_state t \<noteq> TASK_STOPPED then Some (Inr (s, 1))
          else do {
            let c = (if unat (tk_cpu_id t) < length (sc_rqs s) then unat (tk_cpu_id t) else 0);
            rq \<leftarrow> rq_at s c;
            if rq_curr rq = Some a \<and> tk_on_cpu t \<noteq> 0 then Some (Inr (set_task s a (\<lambda>t. t\<lparr>tk_state := TASK_RUNNING\<rparr>), 0))
            else if \<not> tk_on_rq t \<and> tk_rsp t \<noteq> 0 then do {
              s \<leftarrow> place_entity cf s c a False;
              let s = set_task s a (\<lambda>t. t\<lparr>tk_state := TASK_READY, tk_wake_tick := 0, tk_cpu_id := of_nat c\<rparr>);
              proceed (enqueue_entity s c (Some a)) (\<lambda>(s, queued). do {
                rq \<leftarrow> rq_at s c;
                Some (Inr (if queued then put_rq s c (rq\<lparr>rq_need_resched := True\<rparr>) else s, 0)) }) }
            else if tk_on_rq t then Some (Inr (set_task s a (\<lambda>t. t\<lparr>tk_state := TASK_READY\<rparr>), 0))
            else Some (Inr (s, 1)) })"

end
