(* ===== verification/Sched_Ops.thy ===== *)
theory Sched_Ops
  imports Eevdf_Pick Sched
begin

text \<open>
  Every operation of the scheduler returns and keeps the invariant of the run queues. A panic is an
  outcome of a switch to a task that cannot run, and of nothing else.
\<close>

section \<open>Outcomes\<close>

definition kept :: "sched \<Rightarrow> sched \<Rightarrow> bool" where
  "kept s s' \<longleftrightarrow> length (sc_rqs s') = length (sc_rqs s) \<and> live s' = live s"

lemma kept_refl [simp]: "kept s s" by (simp add: kept_def)

lemma kept_trans: "kept s s' \<Longrightarrow> kept s' s'' \<Longrightarrow> kept s s''" by (simp add: kept_def)

lemma kept_simps [simp]: "kept s (set_task t a f) = kept s t" "kept s (put_rq t c rq) = kept s t"
  "length (sc_rqs (set_task s a f)) = length (sc_rqs s)" "length (sc_rqs (put_rq s c rq)) = length (sc_rqs s)"
  "live (set_task s a f) = live s" "live (put_rq s c rq) = live s"
  "sc_tasks (set_task s a f) = (sc_tasks s)(a := f (sc_tasks s a))" "sc_tasks (put_rq s c rq) = sc_tasks s"
  "sc_rqs (set_task s a f) = sc_rqs s" "sc_heap (set_task s a f) = sc_heap s" "sc_heap (put_rq s c rq) = sc_heap s"
  "rq_at (set_task s a f) c = rq_at s c"
  by (simp_all add: kept_def set_task_def put_rq_def live_def rq_at_def)

lemma rq_at_put [simp]: "c < length (sc_rqs s) \<Longrightarrow> rq_at (put_rq s c rq) c = Some rq"
  by (simp add: rq_at_def put_rq_def)

lemma rq_at_in [simp]: "c < length (sc_rqs s) \<Longrightarrow> rq_at s c = Some (sc_rqs s ! c)"
  by (simp add: rq_at_def)

text \<open>A good outcome is a state with the invariant; a safe one may also be a panic.\<close>

definition good :: "sched \<Rightarrow> sched \<Rightarrow> bool" where
  "good s s' \<longleftrightarrow> (\<exists>Q. sched_inv s' Q) \<and> kept s s'"

definition safe :: "('a \<Rightarrow> bool) \<Rightarrow> 'a outcome \<Rightarrow> bool" where
  "safe P r \<longleftrightarrow> (\<exists>x. r = Some x \<and> (\<forall>y. x = Inr y \<longrightarrow> P y))"

lemma safe_simps [simp]: "safe P (Some (Inr x)) \<longleftrightarrow> P x" "safe P (Some (Inl p))" "\<not> safe P None"
  by (auto simp: safe_def)

lemma safe_proceed: "safe P m \<Longrightarrow> (\<And>x. P x \<Longrightarrow> safe R (f x)) \<Longrightarrow> safe R (proceed m f)"
  by (auto simp: safe_def proceed_def split: sum.splits)

lemma safe_mono: "safe P m \<Longrightarrow> (\<And>x. P x \<Longrightarrow> R x) \<Longrightarrow> safe R m" by (auto simp: safe_def)

lemma goodI: "sched_inv s' Q \<Longrightarrow> kept s s' \<Longrightarrow> good s s'" by (auto simp: good_def)

lemma good_trans: "good s s' \<Longrightarrow> good s' s'' \<Longrightarrow> good s s''" by (auto simp: good_def kept_def)

section \<open>Fields the queues do not depend on\<close>

lemma inv_touch:
  assumes I: "sched_inv s Q"
    and f: "\<And>t. tk_vruntime (f t) = tk_vruntime t" "\<And>t. tk_weight (f t) = tk_weight t" "\<And>t. tk_on_rq (f t) = tk_on_rq t"
      "\<And>t. tk_rq_cpu (f t) = tk_rq_cpu t" "\<And>t. tk_state (f t) = tk_state t"
  shows "sched_inv (set_task s a f) Q"
proof -
  have "queue_ok ((sc_tasks s)(a := f (sc_tasks s a))) (sc_heap s) c (sc_rqs s ! c) (Q c) = queue_ok (sc_tasks s) (sc_heap s) c (sc_rqs s ! c) (Q c)" for c
    by (rule queue_ok_tasks) (simp add: f)
  then show ?thesis using I f by (auto simp: sched_inv_def)
qed

lemma inv_touch_rq:
  assumes I: "sched_inv s Q" and c: "c < length (sc_rqs s)"
    and rq: "rq_nr_running rq = rq_nr_running (sc_rqs s ! c)" "rq_avg_load rq = rq_avg_load (sc_rqs s ! c)"
      "rq_avg_vruntime rq = rq_avg_vruntime (sc_rqs s ! c)" "rq_min_vruntime rq = rq_min_vruntime (sc_rqs s ! c)" "crewed (live s) rq"
  shows "sched_inv (put_rq s c rq) Q"
  using sched_invD(5) [OF I c] rq by (intro inv_put_rq [OF I]) (simp_all add: queue_ok_def)

lemma not_queued: "sched_inv s Q \<Longrightarrow> tk_state (sc_tasks s a) \<noteq> TASK_READY \<Longrightarrow> \<not> tk_on_rq (sc_tasks s a)"
  using sched_invD(5,6) [of s Q] by (fastforce simp: queue_ok_def)

lemma running_not_queued: "sched_inv s Q \<Longrightarrow> running_curr (sc_tasks s) rq = Some a \<Longrightarrow> \<not> tk_on_rq (sc_tasks s a) \<and> rq_curr rq = Some a \<and> tk_state (sc_tasks s a) = TASK_RUNNING"
  using not_queued [of s Q a] by (auto simp: running_curr_def split: option.splits if_splits)

section \<open>Virtual time returns\<close>

lemma load_positive:
  assumes I: "sched_inv s Q" and c: "c < length (sc_rqs s)"
  shows "sint (rq_avg_load (sc_rqs s ! c)) \<ge> 0" "sint (rq_avg_load (sc_rqs s ! c) + ucast (w :: uint32_t)) \<ge> 0"
proof -
  let ?l = "rq_avg_load (sc_rqs s ! c)"
  have len: "int (length (adr (Q c))) \<le> 2 ^ 31 - 1" using queue_bound [OF I c] by simp
  then have "int (length (adr (Q c))) * (2 ^ 32 - 1) \<le> (2 ^ 31 - 1) * (2 ^ 32 - 1)" by (intro mult_right_mono) simp_all
  then have l: "uint ?l \<le> (2 ^ 31 - 1) * (2 ^ 32 - 1)"
    using weight_sum_exact(2) [OF queue_bound [OF I c], of "sc_tasks s"] sched_invD(5) [OF I c] by (simp add: queue_ok_def)
  have w: "uint (ucast w :: uint64_t) = uint w" "uint w < 2 ^ 32"
    using uint_lt2p [of w] by (simp_all add: unsigned_ucast_eq take_bit_int_eq_self_iff)
  have pos: "sint v \<ge> 0" if "uint v < 2 ^ 63" for v :: uint64_t
  proof -
    have "- (2 ^ 63) \<le> uint v" by (rule order.trans [OF _ uint_ge_0]) simp
    then have "sint v = uint v" using that sint_word_of_int_range [where 'a = 64, THEN iffD2, of "uint v"] by simp
    then show ?thesis by simp
  qed
  show "sint ?l \<ge> 0" by (rule pos) (use l in simp)
  have "uint (?l + ucast w) = uint ?l + uint w" using l w uint_add_lem [of ?l "ucast w"] by simp
  then show "sint (?l + ucast w) \<ge> 0" by (intro pos) (use l w in simp)
qed

lemma sdiv64_returns: "b \<noteq> 0 \<Longrightarrow> sint b \<ge> 0 \<Longrightarrow> sdiv64 a b = Some (word_of_int (sint a sdiv sint b))"
  by (auto simp: sdiv64_def)

lemma avg_vruntime_returns:
  assumes I: "sched_inv s Q" and c: "c < length (sc_rqs s)" and rq: "rq_avg_load rq = rq_avg_load (sc_rqs s ! c)"
  shows "\<exists>v. avg_vruntime ts rq = Some v"
proof -
  note pos = load_positive [OF I c]
  show ?thesis
  proof (cases "running_curr ts rq")
    case None
    then show ?thesis using sdiv64_returns [OF _ pos(1)] by (simp add: avg_vruntime_def Let_def rq)
  next
    case (Some a)
    then show ?thesis using sdiv64_returns [OF _ pos(2)] by (simp add: avg_vruntime_def Let_def rq)
  qed
qed

lemma calc_delta_fair_returns: "tk_weight t \<noteq> 0 \<Longrightarrow> \<exists>d. calc_delta_fair x t = Some d"
  by (simp add: calc_delta_fair_def)

lemma place_entity_ok:
  assumes I: "sched_inv s Q" and c: "c < length (sc_rqs s)" and a: "\<not> tk_on_rq (sc_tasks s a)"
  shows "\<exists>v d. place_entity cf s c a initial = Some (set_task s a (\<lambda>t. t\<lparr>tk_vruntime := v, tk_deadline := d\<rparr>))"
proof -
  let ?rq = "sc_rqs s ! c"
  define load where "load = (case running_curr (sc_tasks s) ?rq of None \<Rightarrow> rq_avg_load ?rq | Some b \<Rightarrow> rq_avg_load ?rq + ucast (tk_weight (sc_tasks s b)))"
  have load: "sint load \<ge> 0" using load_positive [OF I c] by (auto simp: load_def split: option.splits)
  obtain v where v: "avg_vruntime (sc_tasks s) ?rq = Some v" using avg_vruntime_returns [OF I c refl] by blast
  obtain d where d: "calc_delta_fair (calc_effective_slice cf (sc_tasks s) ?rq) (sc_tasks s a) = Some d"
    using calc_delta_fair_returns sched_invD(4) [OF I] by blast
  let ?lag = "(if load = 0 then Some 0 else do {
      let new_load = load + ucast (tk_weight (sc_tasks s a));
      lag \<leftarrow> (if new_load > load then sdiv64 (tk_vlag (sc_tasks s a) * new_load) load else Some (tk_vlag (sc_tasks s a)));
      let lag_limit = d * 2;
      let lag = (if sint lag > sint lag_limit then lag_limit else lag);
      Some (if sint lag < sint (- lag_limit) then - lag_limit else lag) })"
  have "\<exists>lag. ?lag = Some lag" using sdiv64_returns [OF _ load] by (cases "load + ucast (tk_weight (sc_tasks s a)) > load") (simp_all add: Let_def)
  then obtain lag where lag: "?lag = Some lag" by blast
  let ?v = "add_signed_vruntime v (- lag)" and ?d = "if initial then d div 2 else d"
  have "place_entity cf s c a initial = Some (set_task s a (\<lambda>t. let v = ?v in t\<lparr>tk_vruntime := v, tk_deadline := v + ?d\<rparr>))"
    using lag unfolding place_entity_def rq_at_in [OF c] load_def by (simp add: v d Let_def)
  then show ?thesis by (intro exI [of _ ?v] exI [of _ "?v + ?d"]) (simp add: Let_def)
qed

lemma update_deadline_ok:
  assumes I: "sched_inv s Q" and c: "c < length (sc_rqs s)"
  shows "\<exists>d l. update_deadline cf s c a = Some (set_task s a (\<lambda>t. t\<lparr>tk_deadline := d, tk_vlag := l\<rparr>))"
proof (cases "sint (tk_vruntime (sc_tasks s a) - tk_deadline (sc_tasks s a)) < 0")
  case True
  have "set_task s a (\<lambda>t. t\<lparr>tk_deadline := tk_deadline (sc_tasks s a), tk_vlag := tk_vlag (sc_tasks s a)\<rparr>) = s"
    by (simp add: set_task_def)
  then show ?thesis using True c by (intro exI [of _ "tk_deadline (sc_tasks s a)"] exI [of _ "tk_vlag (sc_tasks s a)"]) (simp add: update_deadline_def)
next
  case False
  obtain d where d: "calc_delta_fair (calc_effective_slice cf (sc_tasks s) (sc_rqs s ! c)) (sc_tasks s a) = Some d"
    using calc_delta_fair_returns sched_invD(4) [OF I] by blast
  let ?s = "set_task s a (\<lambda>t. t\<lparr>tk_deadline := tk_vruntime t + d\<rparr>)"
  obtain v where "avg_vruntime (sc_tasks ?s) (sc_rqs s ! c) = Some v" using avg_vruntime_returns [OF I c refl] by blast
  then show ?thesis using False c d
    by (intro exI [of _ "tk_vruntime (sc_tasks s a) + d"] exI [of _ "v - tk_vruntime (sc_tasks s a)"]) (simp add: update_deadline_def Let_def set_task_def)
qed

lemma update_curr_ok:
  assumes I: "sched_inv s Q" and c: "c < length (sc_rqs s)" and a: "rq_curr (sc_rqs s ! c) = Some a" "\<not> tk_on_rq (sc_tasks s a)"
  shows "\<exists>s'. update_curr s c x = Some s' \<and> sched_inv s' Q \<and> kept s s' \<and> (\<forall>b. tk_on_rq (sc_tasks s' b) = tk_on_rq (sc_tasks s b))"
proof (cases "rq_curr (sc_rqs s ! c) = rq_idle (sc_rqs s ! c)")
  case True
  then have "update_curr s c x = Some s" using c a by (auto simp: update_curr_def split: option.splits)
  then show ?thesis using I by simp
next
  case False
  obtain d where d: "calc_delta_fair x (sc_tasks s a) = Some d" using calc_delta_fair_returns sched_invD(4) [OF I] by blast
  let ?s = "set_task s a (\<lambda>t. t\<lparr>tk_vruntime := tk_vruntime t + d\<rparr>)"
  have "sched_inv ?s Q" using a(2) sched_invD(4) [OF I] by (intro inv_set_task [OF I]) simp_all
  then obtain s' rq where "advance_min_vruntime ?s c = Some s'" "sched_inv s' Q" "s' = put_rq ?s c rq" using advance_min_vruntime_ok [of ?s Q c] c by auto
  then show ?thesis using False c a d by (auto simp: update_curr_def)
qed

section \<open>Single tasks\<close>

lemma enqueue_any:
  assumes I: "sched_inv s Q" and c: "c < length (sc_rqs s)" and a: "a \<in> live s"
  shows "\<exists>s' b. enqueue_entity s c (Some a) = Some (Inr (s', b)) \<and> good s s'"
proof (cases "tk_state (sc_tasks s a) = TASK_READY \<and> \<not> tk_on_rq (sc_tasks s a)")
  case True
  then obtain s' T where "enqueue_entity s c (Some a) = Some (Inr (s', True))" "sched_inv s' (Q(c := T))" "live s' = live s"
      "length (sc_rqs s') = length (sc_rqs s)"
    using enqueue_entity_ok [OF I c a] by fastforce
  then show ?thesis by (auto simp: good_def kept_def)
next
  case False
  then show ?thesis using goodI [OF I kept_refl] by (auto simp: enqueue_entity_def Let_def)
qed

lemma dequeue_any:
  assumes I: "sched_inv s Q" and c: "c < length (sc_rqs s)"
  shows "\<exists>s' b. dequeue_entity s c (Some a) = Some (Inr (s', b)) \<and> good s s' \<and> (b \<longrightarrow> \<not> tk_on_rq (sc_tasks s' a)) \<and> (\<not> b \<longrightarrow> s' = s)
    \<and> (\<forall>x. x \<noteq> a \<longrightarrow> sc_tasks s' x = sc_tasks s x)
    \<and> (tk_on_rq (sc_tasks s a) \<and> tk_rq_cpu (sc_tasks s a) = of_nat c \<longrightarrow> b)"
proof (cases "tk_on_rq (sc_tasks s a) \<and> tk_rq_cpu (sc_tasks s a) = of_nat c")
  case True
  then have "a \<in> set (adr (Q c))" using queued_on [OF I] c by simp
  from dequeue_entity_ok [OF I c this] obtain s' T where "dequeue_entity s c (Some a) = Some (Inr (s', True))" "sched_inv s' (Q(c := T))" "live s' = live s"
      "length (sc_rqs s') = length (sc_rqs s)" "sc_tasks s' = (sc_tasks s)(a := (sc_tasks s a)\<lparr>tk_on_rq := False, tk_rq_cpu := - 1\<rparr>)"
    by fastforce
  then show ?thesis by (auto simp: good_def kept_def)
next
  case False
  then show ?thesis using goodI [OF I kept_refl] by (auto simp: dequeue_entity_def Let_def)
qed

lemma cpu_range: "0 < length (sc_rqs s) \<Longrightarrow> unat (if unat cpu \<ge> length (sc_rqs s) then 0 else cpu) < length (sc_rqs s)"
  by simp

lemma enqueue_task_on_cpu_ok:
  assumes I: "sched_inv s Q" and n: "0 < length (sc_rqs s)" and a: "a \<in> live s"
  shows "\<exists>s'. enqueue_task_on_cpu cf s (Some a) cpu_id initial = Some (Inr s') \<and> good s s'"
proof -
  let ?t = "sc_tasks s a"
  define cpu where "cpu = (if unat cpu_id \<ge> length (sc_rqs s) then 0 else cpu_id)"
  have c: "unat cpu < length (sc_rqs s)" using n by (simp add: cpu_def)
  consider "tk_state ?t = TASK_ZOMBIE \<or> tk_state ?t = TASK_IDLE \<or> tk_rsp ?t = 0" | "\<not> (tk_state ?t = TASK_ZOMBIE \<or> tk_state ?t = TASK_IDLE \<or> tk_rsp ?t = 0)" "tk_on_rq ?t"
    | "\<not> (tk_state ?t = TASK_ZOMBIE \<or> tk_state ?t = TASK_IDLE \<or> tk_rsp ?t = 0)" "\<not> tk_on_rq ?t" by blast
  then show ?thesis
  proof cases
    case 1
    then show ?thesis using goodI [OF I kept_refl] by (auto simp: enqueue_task_on_cpu_def Let_def)
  next
    case 2
    have "good s (set_task s a (\<lambda>t. t\<lparr>tk_cpu_id := tk_rq_cpu t\<rparr>))" by (intro goodI [OF inv_touch [OF I]]) simp_all
    then show ?thesis using 2 goodI [OF I kept_refl] by (auto simp: enqueue_task_on_cpu_def Let_def)
  next
    case 3
    obtain v d where p: "place_entity cf s (unat cpu) a initial = Some (set_task s a (\<lambda>t. t\<lparr>tk_vruntime := v, tk_deadline := d\<rparr>))"
      using place_entity_ok [OF I c 3(2)] by blast
    let ?s1 = "set_task s a (\<lambda>t. t\<lparr>tk_vruntime := v, tk_deadline := d\<rparr>)"
    let ?s2 = "set_task ?s1 a (\<lambda>t. t\<lparr>tk_state := TASK_READY, tk_wake_tick := 0, tk_cpu_id := cpu\<rparr>)"
    have I1: "sched_inv ?s1 Q" using 3(2) sched_invD(4) [OF I] by (intro inv_set_task [OF I]) simp_all
    have I2: "sched_inv ?s2 Q" using 3(2) sched_invD(4) [OF I] by (intro inv_set_task [OF I1]) simp_all
    obtain s3 b where s3: "enqueue_entity ?s2 (unat cpu) (Some a) = Some (Inr (s3, b))" "good ?s2 s3"
      using enqueue_any [OF I2, of "unat cpu" a] c a by auto
    then obtain Q3 where I3: "sched_inv s3 Q3" and k3: "kept s s3" by (auto simp: good_def kept_def)
    have c3: "unat cpu < length (sc_rqs s3)" using c k3 by (simp add: kept_def)
    let ?rq = "sc_rqs s3 ! unat cpu"
    have "\<exists>r. (if \<not> b then Some False else if rq_curr ?rq = rq_idle ?rq then Some True
        else case rq_curr ?rq of None \<Rightarrow> Some False
        | Some y \<Rightarrow> if tk_state (sc_tasks s3 y) = TASK_RUNNING \<and> entity_eligible (sc_tasks s3) ?rq a then entity_before cf (sc_tasks s3) a y else Some False) = Some r"
      using entity_before_returns [of "sc_tasks s3" a cf] sched_invD(4) [OF I3] by (auto split: option.splits)
    then obtain r where r: "(if \<not> b then Some False else if rq_curr ?rq = rq_idle ?rq then Some True
        else case rq_curr ?rq of None \<Rightarrow> Some False
        | Some y \<Rightarrow> if tk_state (sc_tasks s3 y) = TASK_RUNNING \<and> entity_eligible (sc_tasks s3) ?rq a then entity_before cf (sc_tasks s3) a y else Some False) = Some r" by blast
    have "sched_inv (put_rq s3 (unat cpu) (?rq\<lparr>rq_need_resched := True\<rparr>)) Q3"
      using sched_invD(8) [OF I3 c3] by (intro inv_touch_rq [OF I3 c3]) (simp_all add: crewed_def)
    then have "good s (if r then put_rq s3 (unat cpu) (?rq\<lparr>rq_need_resched := True\<rparr>) else s3)" using I3 k3 by (auto simp: good_def)
    then show ?thesis using 3 p s3(1) r c3 unfolding enqueue_task_on_cpu_def by (simp add: proceed_def Let_def cpu_def [symmetric])
  qed
qed

end
