(* ===== verification/Sched_Switch.thy ===== *)
theory Sched_Switch
  imports Sched_Ops
begin

text \<open>
  Choosing, stealing and switching: the searches return a task of the timeline they look at, and a
  switch keeps the invariant of the run queues.
\<close>

section \<open>Searches return\<close>

lemma heap_search_returns:
  assumes "tree_at gv S root {} h t k"
  shows "\<exists>r. heap_search ts h (ptr t) rq = Some r \<and> set_option r \<subseteq> set (adr t)"
  using assms
proof (induction t arbitrary: k)
  case Lf
  then show ?case by (subst heap_search.simps) simp
next
  case (Nd c l a r)
  have l: "tree_at gv S root {} h l ((SL, c, a, r) # k)" and r: "tree_at gv S root {} h r ((SR, c, a, l) # k)"
    using Nd.prems tree_at_move [of _ S root "{}" h l SL c a r k] tree_at_move [of _ S root "{}" h r SR c a l k] by (simp_all add: mk_def)
  have f: "fld h rb_left a = Some (ptr l)" "fld h rb_right a = Some (ptr r)" using Nd.prems by (auto simp: tree_at_def rep_def cells_def fld_def)
  have "\<exists>b. (case ptr l of None \<Rightarrow> Some False | Some b \<Rightarrow> map_option (entity_eligible_vruntime ts rq) (fld h rb_min_vruntime b)) = Some b"
  proof (cases l)
    case (Nd c' l' b r')
    then have "cells h b \<noteq> None" using l by (auto simp: tree_at_def rep_def)
    then show ?thesis using Nd by (auto simp: cells_def fld_def)
  qed auto
  then obtain b where b: "(case ptr l of None \<Rightarrow> Some False | Some b \<Rightarrow> map_option (entity_eligible_vruntime ts rq) (fld h rb_min_vruntime b)) = Some b" by blast
  have "heap_search ts h (Some a) rq = (if b then heap_search ts h (ptr l) rq
      else if entity_eligible ts rq a then Some (Some a) else heap_search ts h (ptr r) rq)"
    using f b by (subst heap_search.simps) simp
  then show ?case using Nd.IH(1) [OF l] Nd.IH(2) [OF r] by auto
qed

lemma timeline_root:
  assumes I: "sched_inv s Q" and c: "c < length (sc_rqs s)"
  shows "\<exists>r. rb_roots (sc_heap s) c = Some r \<and> rt_root r = ptr (Q c) \<and> rt_leftmost r = hd_opt (adr (Q c))
    \<and> tree_at (Some (least_vruntime (sc_tasks s))) (set (adr (Q c))) c {} (sc_heap s) (Q c) []"
proof -
  have t: "tree_at (Some (least_vruntime (sc_tasks s))) (set (adr (Q c))) c {} (sc_heap s) (Q c) []" and lm: "leftmost (sc_heap s) c = Some (hd_opt (adr (Q c)))"
    using queued_tree(1) [OF I c] by (simp_all add: rb_tree_def)
  obtain r where "rb_roots (sc_heap s) c = Some r" "rt_root r = ptr (Q c)" using rootptr_tree [OF t] by blast
  then show ?thesis using t lm by (simp add: leftmost_def)
qed

lemma prefer_entity_returns: "tk_weight (ts e) \<noteq> 0 \<Longrightarrow> \<exists>r. prefer_entity cf ts e cur = Some (Some r) \<and> (r = e \<or> cur = Some r)"
  using prefer_entity_eq [of ts e cf cur] by (auto split: option.splits)

lemma pick_eevdf_returns:
  assumes I: "sched_inv s Q" and c: "c < length (sc_rqs s)"
  shows "\<exists>a \<in> live s. pick_eevdf cf s c = Some (Some a)"
proof -
  let ?ts = "sc_tasks s" and ?rq = "sc_rqs s ! c"
  obtain r where r: "rb_roots (sc_heap s) c = Some r" "rt_root r = ptr (Q c)" "rt_leftmost r = hd_opt (adr (Q c))"
      "tree_at (Some (least_vruntime ?ts)) (set (adr (Q c))) c {} (sc_heap s) (Q c) []" using timeline_root [OF I c] by blast
  obtain f where f: "heap_search ?ts (sc_heap s) (rt_root r) ?rq = Some f" "set_option f \<subseteq> live s"
    using heap_search_returns [OF r(4), of ?ts ?rq] r(2) queued_tree(3) [OF I c] by auto
  obtain i where i: "rq_idle ?rq = Some i" "i \<in> live s" using sched_invD(8) [OF I c] by (auto simp: crewed_def)
  define cur where "cur = (case rq_curr ?rq of None \<Rightarrow> None | Some a \<Rightarrow> if tk_state (?ts a) \<noteq> TASK_RUNNING \<or> \<not> entity_eligible ?ts ?rq a then None else Some a)"
  have cur: "set_option cur \<subseteq> live s" using sched_invD(8) [OF I c] by (auto simp: cur_def crewed_def split: option.splits if_splits)
  have lm: "set_option (rt_leftmost r) \<subseteq> live s" using r(3) queued_tree(3) [OF I c] by (cases "adr (Q c)") auto
  have pref: "\<exists>a \<in> live s. prefer_entity cf ?ts e cur = Some (Some a)" if "e \<in> live s" for e
    using prefer_entity_returns [of ?ts e cf cur] sched_invD(4) [OF I] that cur by auto
  have eq: "pick_eevdf cf s c = (if rq_nr_running ?rq = 0 then Some (rq_idle ?rq)
      else if (case rt_leftmost r of None \<Rightarrow> False | Some l \<Rightarrow> entity_eligible ?ts ?rq l) then do { l \<leftarrow> rt_leftmost r; prefer_entity cf ?ts l cur }
      else case f of Some se \<Rightarrow> prefer_entity cf ?ts se cur
        | None \<Rightarrow> if cur \<noteq> None then Some cur else if rt_leftmost r \<noteq> None then Some (rt_leftmost r) else Some (rq_idle ?rq))"
    unfolding cur_def using c r(1) f(1) by (cases f) (simp_all add: pick_eevdf_def Let_def)
  show ?thesis unfolding eq using i cur lm f(2) pref by (auto split: option.splits)
qed

lemma subtree_max_tree:
  assumes "rep h root t k" "ptr t = Some a"
  shows "\<exists>x \<in> set (adr t). subtree_max h a = Some x"
  using assms
proof (induction t arbitrary: k a)
  case (Nd c l b r)
  have r: "rep h root r ((SR, c, b, l) # k)" using Nd.prems(1) by (simp add: rep_move mk_def)
  have f: "fld h rb_right a = Some (ptr r)" using Nd.prems by (auto simp: rep_def cells_def fld_def)
  show ?case
  proof (cases r)
    case Lf
    then show ?thesis using f Nd.prems(2) by (subst subtree_max.simps) simp
  next
    case (Nd c' l' b' r')
    then obtain x where "x \<in> set (adr r)" "subtree_max h b' = Some x" using Nd.IH(2) [OF r, of b'] by auto
    then show ?thesis using f Nd by (subst subtree_max.simps) auto
  qed
qed simp

lemma prev_up_tree:
  assumes "rep h root t k" "ptr t = Some a"
  shows "\<exists>x. prev_up h a (par k) = Some x \<and> set_option x \<subseteq> cadr k"
  using assms
proof (induction k arbitrary: t a)
  case Nil
  then show ?case by (subst prev_up.simps) simp
next
  case (Cons f k)
  obtain s c p y where f: "f = (s, c, p, y)" by (cases f)
  have m: "rep h root (mk s c t p y) k" using Cons.prems(1) f by (simp add: rep_move)
  have q: "fld h rb_parent p = Some (par k)" "fld h rb_left p \<noteq> None" using m by (auto simp: rep_def mk_def cells_def fld_def split: side.splits)
  then obtain l where l: "fld h rb_left p = Some l" by blast
  have "ptr (mk s c t p y) = Some p" by (cases s) (simp_all add: mk_def)
  from Cons.IH [OF m this] obtain x where x: "prev_up h p (par k) = Some x" "set_option x \<subseteq> cadr k" by blast
  have "prev_up h a (Some p) = (if Some a = l then Some x else Some (Some p))" using l q(1) x(1) by (subst prev_up.simps) simp
  then show ?case using f x(2) by (auto split: if_splits)
qed

lemma rb_prev_local_tree:
  assumes t: "rep h root T []" and a: "a \<in> set (adr T)"
  shows "\<exists>x. rb_prev_local h (Some a) = Some x \<and> set_option x \<subseteq> set (adr T)"
proof -
  obtain c l r k where p: "T = plug (Nd c l a r) k" using plug_at [OF a] by blast
  have m: "rep h root (Nd c l a r) k" using t p rep_plug by simp
  have f: "fld h rb_left a = Some (ptr l)" "fld h rb_parent a = Some (par k)" using m by (auto simp: rep_def cells_def fld_def)
  show ?thesis
  proof (cases l)
    case Lf
    then show ?thesis using prev_up_tree [OF m, of a] f p by (auto simp: rb_prev_local_def set_adr_plug)
  next
    case (Nd c' l' b r')
    have "rep h root l ((SL, c, a, r) # k)" using m by (simp add: rep_move mk_def)
    then obtain x where "x \<in> set (adr l)" "subtree_max h b = Some x" using subtree_max_tree [of h root l _ b] Nd by auto
    then show ?thesis using f Nd p by (auto simp: rb_prev_local_def set_adr_plug)
  qed
qed

lemma steal_scan_tree:
  assumes "rep (sc_heap s) root T []" "set_option node \<subseteq> set (adr T)"
  shows "\<exists>x. steal_scan cf s src newly_idle n node = Some x \<and> set_option x \<subseteq> set (adr T)"
  using assms(2)
proof (induction n arbitrary: node)
  case (Suc n)
  show ?case
  proof (cases node)
    case (Some a)
    then obtain p where "rb_prev_local (sc_heap s) node = Some p" "set_option p \<subseteq> set (adr T)" using rb_prev_local_tree [OF assms(1), of a] Suc.prems by auto
    then show ?thesis using Suc.IH [of p] Suc.prems Some by (auto simp: Let_def)
  qed simp
qed simp

lemma pick_steal_candidate_ok:
  assumes I: "sched_inv s Q" and c: "c < length (sc_rqs s)"
  shows "\<exists>x. pick_steal_candidate_locked cf s c newly_idle = Some x \<and> set_option x \<subseteq> set (adr (Q c))"
proof -
  obtain r where r: "rb_roots (sc_heap s) c = Some r" "rt_root r = ptr (Q c)" using timeline_root [OF I c] by blast
  have t: "rep (sc_heap s) c (Q c) []" using queued_tree(1) [OF I c] by (simp add: rb_tree_def tree_at_def)
  show ?thesis
  proof (cases "Q c")
    case Lf
    then show ?thesis using c r by (simp add: pick_steal_candidate_locked_def)
  next
    case (Nd cc l a rr)
    then obtain x where x: "x \<in> set (adr (Q c))" "subtree_max (sc_heap s) a = Some x" using subtree_max_tree [OF t, of a] by auto
    then show ?thesis using steal_scan_tree [OF t, of "Some x"] c r Nd by (simp add: pick_steal_candidate_locked_def)
  qed
qed

section \<open>Migration\<close>

lemma touch_stats:
  assumes I: "sched_inv s Q" and c: "c < length (sc_rqs s)"
  shows "sched_inv (put_rq s c ((sc_rqs s ! c)\<lparr>rq_nr_migrations := m, rq_nr_steals := k\<rparr>)) Q"
    "sched_inv (put_rq s c ((sc_rqs s ! c)\<lparr>rq_nr_migrations := m\<rparr>)) Q"
    "sched_inv (put_rq s c ((sc_rqs s ! c)\<lparr>rq_need_resched := b\<rparr>)) Q"
    "sched_inv (put_rq s c ((sc_rqs s ! c)\<lparr>rq_context_switches := m\<rparr>)) Q"
  by (rule inv_touch_rq [OF I c]; use sched_invD(8) [OF I c] in \<open>simp add: crewed_def\<close>)+

lemma migrate_one_ok:
  assumes I: "sched_inv s Q"
  shows "\<exists>s' m. migrate_one_locked cf s src dst newly_idle = Some (Inr (s', m)) \<and> good s s' \<and> set_option m \<subseteq> live s"
proof -
  have stay: ?thesis if "migrate_one_locked cf s src dst newly_idle = Some (Inr (s, None))" using that goodI [OF I kept_refl] by auto
  show ?thesis
  proof (cases "src < length (sc_rqs s) \<and> dst < length (sc_rqs s) \<and> src \<noteq> dst \<and> rq_nr_running (sc_rqs s ! src) \<noteq> 0 \<and> rq_online (sc_rqs s ! dst)")
    case False
    then show ?thesis by (intro stay) (auto simp: migrate_one_locked_def)
  next
    case True
    then have c: "src < length (sc_rqs s)" "dst < length (sc_rqs s)" by simp_all
    obtain x where x: "pick_steal_candidate_locked cf s src newly_idle = Some x" "set_option x \<subseteq> set (adr (Q src))"
      using pick_steal_candidate_ok [OF I c(1)] by blast
    show ?thesis
    proof (cases "\<exists>a. x = Some a \<and> tk_state (sc_tasks s a) = TASK_READY \<and> tk_on_cpu (sc_tasks s a) = 0")
      case False
      then show ?thesis using True x(1) by (intro stay) (auto simp: migrate_one_locked_def split: option.splits)
    next
      case a: True
      then obtain a where a: "x = Some a" "tk_state (sc_tasks s a) = TASK_READY" "tk_on_cpu (sc_tasks s a) = 0" by blast
      have live: "a \<in> live s" using x(2) a(1) queued_tree(3) [OF I c(1)] by auto
      obtain v where v: "avg_vruntime (sc_tasks s) (sc_rqs s ! src) = Some v" using avg_vruntime_returns [OF I c(1) refl] by blast
      let ?s1 = "set_task s a (\<lambda>t. t\<lparr>tk_vlag := v - tk_vruntime t\<rparr>)"
      have I1: "sched_inv ?s1 Q" by (rule inv_touch [OF I]) simp_all
      obtain s2 b where s2: "dequeue_entity ?s1 src (Some a) = Some (Inr (s2, b))" "good ?s1 s2" using dequeue_any [OF I1, of src a] c by auto
      then obtain Q2 where I2: "sched_inv s2 Q2" and k2: "kept s s2" by (auto simp: good_def kept_def)
      let ?s3 = "set_task s2 a (\<lambda>t. t\<lparr>tk_last_cpu := of_nat src, tk_last_migrate_tick := sc_ticks s2, tk_migration_count := tk_migration_count t + 1\<rparr>)"
      have I3: "sched_inv ?s3 Q2" by (rule inv_touch [OF I2]) simp_all
      have c3: "src < length (sc_rqs ?s3)" "dst < length (sc_rqs ?s3)" using c k2 by (simp_all add: kept_def)
      let ?s4 = "put_rq ?s3 src ((sc_rqs ?s3 ! src)\<lparr>rq_nr_migrations := rq_nr_migrations (sc_rqs ?s3 ! src) + 1\<rparr>)"
      have I4: "sched_inv ?s4 Q2" by (rule touch_stats(2) [OF I3 c3(1)])
      have c4: "dst < length (sc_rqs ?s4)" using c3 by simp
      let ?d = "sc_rqs ?s4 ! dst"
      let ?s5 = "put_rq ?s4 dst (?d\<lparr>rq_nr_migrations := rq_nr_migrations ?d + 1, rq_nr_steals := (if newly_idle then rq_nr_steals ?d + 1 else rq_nr_steals ?d)\<rparr>)"
      have I5: "sched_inv ?s5 Q2" by (rule touch_stats(1) [OF I4 c4])
      have "0 < length (sc_rqs ?s5)" "a \<in> live ?s5" using c3 live k2 by (auto simp: kept_def)
      then obtain s6 where s6: "enqueue_task_on_cpu cf ?s5 (Some a) (of_nat dst) False = Some (Inr s6)" "good ?s5 s6"
        using enqueue_task_on_cpu_ok [OF I5] by blast
      have "migrate_one_locked cf s src dst newly_idle = Some (Inr (s6, Some a))"
        using True x(1) a v s2(1) s6(1) c3 c4 by (cases newly_idle) (simp_all add: migrate_one_locked_def proceed_def Let_def)
      moreover have "good s s6" using s6(2) k2 by (auto simp: good_def kept_def)
      ultimately show ?thesis using live by auto
    qed
  qed
qed

lemma newidle_pull_ok:
  "sched_inv s Q \<Longrightarrow> \<exists>s' m. newidle_pull cf s dst srcs = Some (Inr (s', m)) \<and> good s s' \<and> set_option m \<subseteq> live s"
proof (induction srcs arbitrary: s Q)
  case Nil
  then show ?case using goodI [OF Nil kept_refl] by auto
next
  case (Cons src srcs)
  obtain s1 m where s1: "migrate_one_locked cf s src dst True = Some (Inr (s1, m))" "good s s1" "set_option m \<subseteq> live s" using migrate_one_ok [OF Cons.prems] by blast
  show ?case
  proof (cases "m = None")
    case True
    obtain Q1 where "sched_inv s1 Q1" using s1(2) by (auto simp: good_def)
    from Cons.IH [OF this] obtain s2 m2 where "newidle_pull cf s1 dst srcs = Some (Inr (s2, m2))" "good s1 s2" "set_option m2 \<subseteq> live s1" by blast
    moreover have "live s1 = live s" using s1(2) by (simp add: good_def kept_def)
    ultimately show ?thesis using s1(1) True good_trans [OF s1(2)] by (auto simp: proceed_def)
  next
    case False
    then show ?thesis using s1 by (auto simp: proceed_def)
  qed
qed

section \<open>Switching\<close>

lemma requeue_ok:
  assumes I: "sched_inv s Q" and c: "c < length (sc_rqs s)" and a: "\<not> tk_on_rq (sc_tasks s a)" "a \<in> live s"
  shows "\<exists>s'. do { s \<leftarrow> update_deadline cf s c a; rq \<leftarrow> rq_at s c; v \<leftarrow> avg_vruntime (sc_tasks s) rq;
        let s = set_task s a (\<lambda>t. t\<lparr>tk_vlag := v - tk_vruntime t, tk_state := TASK_READY\<rparr>);
        proceed (enqueue_entity s c (Some a)) (\<lambda>(s, _). Some (Inr s)) } = Some (Inr s') \<and> good s s'"
proof -
  obtain d l where u: "update_deadline cf s c a = Some (set_task s a (\<lambda>t. t\<lparr>tk_deadline := d, tk_vlag := l\<rparr>))" using update_deadline_ok [OF I c] by blast
  let ?s3 = "set_task s a (\<lambda>t. t\<lparr>tk_deadline := d, tk_vlag := l\<rparr>)"
  have I3: "sched_inv ?s3 Q" by (rule inv_touch [OF I]) simp_all
  obtain v where v: "avg_vruntime (sc_tasks ?s3) (sc_rqs s ! c) = Some v" using avg_vruntime_returns [OF I c refl] by blast
  let ?s4 = "set_task ?s3 a (\<lambda>t. t\<lparr>tk_vlag := v - tk_vruntime t, tk_state := TASK_READY\<rparr>)"
  have I4: "sched_inv ?s4 Q" using a(1) sched_invD(4) [OF I] by (intro inv_set_task [OF I3]) simp_all
  obtain s5 b where s5: "enqueue_entity ?s4 c (Some a) = Some (Inr (s5, b))" "good ?s4 s5" using enqueue_any [OF I4, of c a] c a(2) by auto
  then have "good s s5" by (auto simp: good_def kept_def)
  then show ?thesis using u c v s5(1) by (simp add: proceed_def Let_def)
qed

lemma switch_out_ok:
  assumes I: "sched_inv s Q" and c: "c < length (sc_rqs s)"
  shows "\<exists>s'. switch_out cf s c voluntary = Some (Inr s') \<and> good s s'"
proof -
  let ?rq = "sc_rqs s ! c"
  let ?s1 = "put_rq s c (?rq\<lparr>rq_need_resched := False\<rparr>)"
  have I1: "sched_inv ?s1 Q" by (rule touch_stats(3) [OF I c])
  show ?thesis
  proof (cases "running_curr (sc_tasks s) ?rq")
    case None
    then show ?thesis using c goodI [OF I1, of s] by (simp add: switch_out_def)
  next
    case (Some a)
    then have a: "\<not> tk_on_rq (sc_tasks s a)" "a \<in> live s"
      using running_not_queued [OF I Some] sched_invD(8) [OF I c] by (auto simp: crewed_def)
    let ?b = "voluntary \<and> rq_nr_running ?rq \<noteq> 0 \<and> entity_eligible (sc_tasks s) ?rq a \<and> sint (tk_vruntime (sc_tasks s a) - tk_deadline (sc_tasks s a)) < 0"
    define s2 where "s2 = (if ?b then set_task ?s1 a (\<lambda>t. t\<lparr>tk_vruntime := tk_deadline t\<rparr>) else ?s1)"
    have I2: "sched_inv s2 Q" using inv_set_task [OF I1, of a "\<lambda>t. t\<lparr>tk_vruntime := tk_deadline t\<rparr>"] I1 a(1) sched_invD(4) [OF I] by (simp add: s2_def)
    have k2: "\<not> tk_on_rq (sc_tasks s2 a)" "c < length (sc_rqs s2)" "kept s s2" using a(1) c by (simp_all add: s2_def)
    then have "a \<in> live s2" using a(2) by (simp add: kept_def)
    from requeue_ok [OF I2 k2(2,1) this] obtain s' where s': "do { s \<leftarrow> update_deadline cf s2 c a; rq \<leftarrow> rq_at s c; v \<leftarrow> avg_vruntime (sc_tasks s) rq;
        let s = set_task s a (\<lambda>t. t\<lparr>tk_vlag := v - tk_vruntime t, tk_state := TASK_READY\<rparr>);
        proceed (enqueue_entity s c (Some a)) (\<lambda>(s, _). Some (Inr s)) } = Some (Inr s')" "good s2 s'" by blast
    have "switch_out cf s c voluntary = Some (Inr s')" using Some c s'(1) unfolding s2_def by (simp add: switch_out_def Let_def)
    moreover have "good s s'" using s'(2) k2(3) by (auto simp: good_def kept_def)
    ultimately show ?thesis by blast
  qed
qed

lemma take_ready_safe:
  assumes I: "sched_inv s Q" and c: "c < length (sc_rqs s)"
  shows "safe (good s) (take_ready s c n)"
proof -
  obtain s' b where s': "dequeue_entity s c (Some n) = Some (Inr (s', b))" "good s s'" "b \<longrightarrow> \<not> tk_on_rq (sc_tasks s' n)" using dequeue_any [OF I c, of n] by blast
  then obtain Q' where I': "sched_inv s' Q'" and k: "kept s s'" by (auto simp: good_def)
  have "good s (set_task s' n (\<lambda>t. t\<lparr>tk_state := TASK_RUNNING, tk_time_slice := 0\<rparr>))" if b
    using s'(3) that k sched_invD(4) [OF I'] by (intro goodI [OF inv_set_task [OF I']]) simp_all
  then show ?thesis using s'(1) by (simp add: take_ready_def proceed_def)
qed

lemma advance_good:
  assumes I: "sched_inv s Q" and c: "c < length (sc_rqs s)"
  shows "\<exists>s'. advance_min_vruntime s c = Some s' \<and> good s s' \<and> sc_tasks s' = sc_tasks s"
  using advance_min_vruntime_ok [OF I c] by (auto simp: good_def)

lemma run_next_safe:
  assumes I: "sched_inv s Q" and c: "c < length (sc_rqs s)" and n: "n \<in> live s"
  shows "safe (good s) (run_next s c voluntary (Some prev) n)"
proof -
  let ?s1 = "set_task s n (\<lambda>t. t\<lparr>tk_on_cpu := 1\<rparr>)"
  have I1: "sched_inv ?s1 Q" by (rule inv_touch [OF I]) simp_all
  let ?s2 = "put_rq ?s1 c ((sc_rqs s ! c)\<lparr>rq_curr := Some n\<rparr>)"
  have I2: "sched_inv ?s2 Q" using sched_invD(8) [OF I c] n c by (intro inv_touch_rq [OF I1]) (auto simp: crewed_def)
  obtain s3 where s3: "advance_min_vruntime ?s2 c = Some s3" "good ?s2 s3" using advance_good [OF I2] c by auto
  then obtain Q3 where I3: "sched_inv s3 Q3" and k3: "kept s s3" by (auto simp: good_def kept_def)
  have c3: "c < length (sc_rqs s3)" using c k3 by (simp add: kept_def)
  let ?s4 = "put_rq s3 c ((sc_rqs s3 ! c)\<lparr>rq_context_switches := rq_context_switches (sc_rqs s3 ! c) + 1\<rparr>)"
  have I4: "sched_inv ?s4 Q3" by (rule touch_stats(4) [OF I3 c3])
  let ?f = "\<lambda>t. if voluntary then t\<lparr>tk_voluntary_switches := tk_voluntary_switches t + 1\<rparr> else t\<lparr>tk_involuntary_switches := tk_involuntary_switches t + 1\<rparr>"
  have I5: "sched_inv (set_task ?s4 prev ?f) Q3" by (rule inv_touch [OF I4]) simp_all
  have "sched_inv (set_task ?s4 prev (\<lambda>t. t\<lparr>tk_on_cpu := 0\<rparr>)) Q3" by (rule inv_touch [OF I4]) simp_all
  then have "good s (set_task ?s4 prev (\<lambda>t. t\<lparr>tk_on_cpu := 0\<rparr>))" by (rule goodI) (simp add: k3)
  moreover have "sched_inv (set_task (set_task ?s4 prev ?f) prev (\<lambda>t. t\<lparr>tk_on_cpu := 0\<rparr>)) Q3" by (rule inv_touch [OF I5]) simp_all
  then have "good s (set_task (set_task ?s4 prev ?f) prev (\<lambda>t. t\<lparr>tk_on_cpu := 0\<rparr>))" by (rule goodI) (simp add: k3)
  ultimately show ?thesis using c s3(1) c3 by (simp add: run_next_def Let_def)
qed

lemma switch_in_safe:
  assumes I: "sched_inv s Q" and c: "c < length (sc_rqs s)" and n: "n \<in> live s"
  shows "safe (good s) (switch_in s c voluntary (Some prev) (Some n))"
proof (cases "prev = n")
  case True
  have "safe (good s) (proceed (take_ready s c n) (\<lambda>s. map_option Inr (advance_min_vruntime s c)))"
  proof (rule safe_proceed [OF take_ready_safe [OF I c]])
    fix s1
    assume g: "good s s1"
    then obtain Q1 where "sched_inv s1 Q1" "c < length (sc_rqs s1)" using c by (auto simp: good_def kept_def)
    from advance_good [OF this] obtain s2 where "advance_min_vruntime s1 c = Some s2" "good s1 s2" by blast
    then show "safe (good s) (map_option Inr (advance_min_vruntime s1 c))" using good_trans [OF g] by simp
  qed
  then show ?thesis using True c goodI [OF I kept_refl] by (simp add: switch_in_def)
next
  case False
  let ?rq = "sc_rqs s ! c"
  obtain v where v: "avg_vruntime (sc_tasks s) ?rq = Some v" using avg_vruntime_returns [OF I c refl] by blast
  define s1 where "s1 = (if Some n = rq_idle ?rq \<and> rq_nr_running ?rq = 0 then
      (if sint (v - rq_min_vruntime ?rq) > 0 then put_rq s c (?rq\<lparr>rq_min_vruntime := v\<rparr>) else s) else s)"
  have q: "queue_ok (sc_tasks s) (sc_heap s) c ?rq (Q c)" by (rule sched_invD(5) [OF I c])
  have "sched_inv (put_rq s c (?rq\<lparr>rq_min_vruntime := v\<rparr>)) Q" if "rq_nr_running ?rq = 0"
  proof -
    have "adr (Q c) = []" using q that queue_bound [OF I c] by (auto simp: queue_ok_def word_of_nat_eq_0_iff nat_dvd_not_less)
    then show ?thesis using q sched_invD(8) [OF I c] by (intro inv_put_rq [OF I]) (simp_all add: queue_ok_def key_sum_def crewed_def)
  qed
  then have I1: "sched_inv s1 Q" using I by (simp add: s1_def)
  have k1: "kept s s1" "c < length (sc_rqs s1)" "n \<in> live s1" using c n by (simp_all add: s1_def)
  have "safe (good s1) (if tk_state (sc_tasks s1 n) = TASK_READY then take_ready s1 c n else Some (Inr s1))"
    using take_ready_safe [OF I1 k1(2)] goodI [OF I1 kept_refl] by simp
  moreover have "safe (good s) (run_next s2 c voluntary (Some prev) n)" if g: "good s1 s2" for s2
  proof -
    obtain Q2 where "sched_inv s2 Q2" "c < length (sc_rqs s2)" "n \<in> live s2" using g k1 by (auto simp: good_def kept_def)
    from run_next_safe [OF this] show ?thesis
    proof (rule safe_mono)
      fix x
      assume "good s2 x"
      then show "good s x" using g k1(1) by (auto simp: good_def kept_def)
    qed
  qed
  ultimately have "safe (good s) (proceed (if tk_state (sc_tasks s1 n) = TASK_READY then take_ready s1 c n else Some (Inr s1)) (\<lambda>s. run_next s c voluntary (Some prev) n))"
    by (rule safe_proceed)
  moreover have "switch_in s c voluntary (Some prev) (Some n)
      = proceed (if tk_state (sc_tasks s1 n) = TASK_READY then take_ready s1 c n else Some (Inr s1)) (\<lambda>s. run_next s c voluntary (Some prev) n)"
    using False c v by (simp add: switch_in_def s1_def)
  ultimately show ?thesis by simp
qed

lemma sched_switch_safe:
  assumes I: "sched_inv s Q" and c: "c < length (sc_rqs s)"
  shows "safe (good s) (sched_switch cf s c voluntary srcs)"
proof -
  obtain prev where prev: "rq_curr (sc_rqs s ! c) = Some prev" using sched_invD(8) [OF I c] by (auto simp: crewed_def)
  have sw: "safe (good s) (switch_in s' c voluntary (Some prev) (Some n))" if g: "good s s'" and n: "n \<in> live s" for s' n
  proof -
    obtain Q' where "sched_inv s' Q'" "c < length (sc_rqs s')" "n \<in> live s'" using g c n by (auto simp: good_def kept_def)
    from switch_in_safe [OF this] show ?thesis by (rule safe_mono) (rule good_trans [OF g])
  qed
  obtain s1 where s1: "switch_out cf s c voluntary = Some (Inr s1)" "good s s1" using switch_out_ok [OF I c] by blast
  then obtain Q1 where I1: "sched_inv s1 Q1" and k1: "live s1 = live s" "c < length (sc_rqs s1)" using c by (auto simp: good_def kept_def)
  obtain a where a: "a \<in> live s" "pick_eevdf cf s1 c = Some (Some a)" using pick_eevdf_returns [OF I1 k1(2)] k1(1) by auto
  obtain s2 m where s2: "newidle_pull cf s1 c srcs = Some (Inr (s2, m))" "good s1 s2" "set_option m \<subseteq> live s" using newidle_pull_ok [OF I1] k1(1) by blast
  have g2: "good s s2" by (rule good_trans [OF s1(2) s2(2)])
  then obtain Q2 where I2: "sched_inv s2 Q2" and k2: "live s2 = live s" "c < length (sc_rqs s2)" using c by (auto simp: good_def kept_def)
  obtain b where b: "b \<in> live s" "pick_eevdf cf s2 c = Some (Some b)" using pick_eevdf_returns [OF I2 k2(2)] k2(1) by auto
  have "sched_switch cf s c voluntary srcs =
      (if Some a = rq_idle (sc_rqs s1 ! c) \<and> rq_nr_running (sc_rqs s1 ! c) = 0
       then if m \<noteq> None then switch_in s2 c voluntary (Some prev) m else switch_in s2 c voluntary (Some prev) (Some b)
       else switch_in s1 c voluntary (Some prev) (Some a))"
    using c prev s1(1) k1(2) a(2) s2(1) b(2) by (simp add: sched_switch_def proceed_def Let_def)
  then show ?thesis using sw [OF s1(2) a(1)] sw [OF g2 b(1)] sw [OF g2] s2(3) by (cases m) auto
qed

section \<open>Ticks and states\<close>

lemma tick_account_ok:
  assumes I: "sched_inv s Q" and c: "c < length (sc_rqs s)"
  shows "\<exists>s' p. tick_account cf s c user_mode = Some (s', p) \<and> good s s'"
proof -
  let ?rq = "(sc_rqs s ! c)\<lparr>rq_need_resched := False\<rparr>"
  have crew: "crewed (live s) (sc_rqs s ! c)" by (rule sched_invD(8) [OF I c])
  then obtain a where a: "rq_curr (sc_rqs s ! c) = Some a" "a \<in> live s" by (auto simp: crewed_def)
  have touch: "good s (put_rq s c rq)" if "rq_nr_running rq = rq_nr_running (sc_rqs s ! c)" "rq_avg_load rq = rq_avg_load (sc_rqs s ! c)"
      "rq_avg_vruntime rq = rq_avg_vruntime (sc_rqs s ! c)" "rq_min_vruntime rq = rq_min_vruntime (sc_rqs s ! c)"
      "rq_curr rq = rq_curr (sc_rqs s ! c)" "rq_idle rq = rq_idle (sc_rqs s ! c)" for rq
    using crew that by (intro goodI [OF inv_touch_rq [OF I c]]) (auto simp: crewed_def)
  consider "rq_curr (sc_rqs s ! c) = rq_idle (sc_rqs s ! c)" | "rq_curr (sc_rqs s ! c) \<noteq> rq_idle (sc_rqs s ! c)" "tk_state (sc_tasks s a) \<noteq> TASK_RUNNING"
    | "rq_curr (sc_rqs s ! c) \<noteq> rq_idle (sc_rqs s ! c)" "tk_state (sc_tasks s a) = TASK_RUNNING" by blast
  then show ?thesis
  proof cases
    case 1
    then show ?thesis using c touch [of "?rq\<lparr>rq_idle_ticks := rq_idle_ticks ?rq + 1\<rparr>"] by (simp add: tick_account_def)
  next
    case 2
    then show ?thesis using c a touch [of ?rq] by (auto simp: tick_account_def)
  next
    case 3
    define s1 where "s1 = (if user_mode
        then put_rq (set_task s a (\<lambda>t. t\<lparr>tk_user_ticks := tk_user_ticks t + 1\<rparr>)) c (?rq\<lparr>rq_user_ticks := rq_user_ticks ?rq + 1\<rparr>)
        else put_rq (set_task s a (\<lambda>t. t\<lparr>tk_system_ticks := tk_system_ticks t + 1\<rparr>)) c (?rq\<lparr>rq_system_ticks := rq_system_ticks ?rq + 1\<rparr>))"
    have "sched_inv (set_task s a (\<lambda>t. t\<lparr>tk_user_ticks := tk_user_ticks t + 1\<rparr>)) Q" "sched_inv (set_task s a (\<lambda>t. t\<lparr>tk_system_ticks := tk_system_ticks t + 1\<rparr>)) Q"
      by (rule inv_touch [OF I]; simp)+
    then have "sched_inv (put_rq (set_task s a (\<lambda>t. t\<lparr>tk_user_ticks := tk_user_ticks t + 1\<rparr>)) c (?rq\<lparr>rq_user_ticks := rq_user_ticks ?rq + 1\<rparr>)) Q"
      "sched_inv (put_rq (set_task s a (\<lambda>t. t\<lparr>tk_system_ticks := tk_system_ticks t + 1\<rparr>)) c (?rq\<lparr>rq_system_ticks := rq_system_ticks ?rq + 1\<rparr>)) Q"
      using crew c by (auto intro!: inv_touch_rq simp: crewed_def)
    then have I1: "sched_inv s1 Q" by (simp add: s1_def)
    let ?s2 = "set_task s1 a (\<lambda>t. t\<lparr>tk_time_slice := tk_time_slice t + 1\<rparr>)"
    have I2: "sched_inv ?s2 Q" by (rule inv_touch [OF I1]) simp_all
    have k2: "kept s ?s2" "c < length (sc_rqs ?s2)" using c by (simp_all add: s1_def)
    have cur: "rq_curr (sc_rqs ?s2 ! c) = Some a" using c a(1) by (simp add: s1_def put_rq_def)
    have "\<not> tk_on_rq (sc_tasks s a)" using not_queued [OF I] 3(2) by simp
    then have "\<not> tk_on_rq (sc_tasks ?s2 a)" by (simp add: s1_def)
    from update_curr_ok [OF I2 k2(2) cur this] obtain s3 where s3: "update_curr ?s2 c 1 = Some s3" "sched_inv s3 Q" "kept ?s2 s3" by blast
    have c3: "c < length (sc_rqs s3)" using s3(3) k2(2) by (simp add: kept_def)
    obtain d l where u: "update_deadline cf s3 c a = Some (set_task s3 a (\<lambda>t. t\<lparr>tk_deadline := d, tk_vlag := l\<rparr>))" using update_deadline_ok [OF s3(2) c3] by blast
    let ?s4 = "set_task s3 a (\<lambda>t. t\<lparr>tk_deadline := d, tk_vlag := l\<rparr>)"
    have I4: "sched_inv ?s4 Q" by (rule inv_touch [OF s3(2)]) simp_all
    have c4: "c < length (sc_rqs ?s4)" using c3 by simp
    obtain n where n: "pick_eevdf cf ?s4 c = Some (Some n)" using pick_eevdf_returns [OF I4 c4] by blast
    have "good s ?s4" using I4 s3(3) k2(1) by (auto simp: good_def kept_def)
    moreover have "\<exists>p. tick_account cf s c user_mode = Some (?s4, p)"
      using 3 c a(1) s3(1) u n c4 unfolding s1_def by (auto simp: tick_account_def Let_def)
    ultimately show ?thesis by blast
  qed
qed

lemma set_state_good:
  assumes I: "sched_inv s Q" and a: "\<not> tk_on_rq (sc_tasks s a)"
  shows "good s (set_task s a (\<lambda>t. t\<lparr>tk_state := st\<rparr>))"
  using a sched_invD(4) [OF I] by (intro goodI [OF inv_set_task [OF I]]) simp_all

lemma block_current_ok:
  assumes I: "sched_inv s Q" and c: "c < length (sc_rqs s)" and a: "rq_curr (sc_rqs s ! c) = Some a" "tk_state (sc_tasks s a) = TASK_RUNNING"
  shows "\<exists>s'. block_current s c = Some s' \<and> good s s'"
proof -
  obtain v where v: "avg_vruntime (sc_tasks s) (sc_rqs s ! c) = Some v" using avg_vruntime_returns [OF I c refl] by blast
  have "\<not> tk_on_rq (sc_tasks s a)" using not_queued [OF I] a(2) by simp
  then have "good s (set_task s a (\<lambda>t. t\<lparr>tk_vlag := v - tk_vruntime t, tk_state := TASK_BLOCKED\<rparr>))"
    using sched_invD(4) [OF I] by (intro goodI [OF inv_set_task [OF I]]) simp_all
  then show ?thesis using c a v by (simp add: block_current_def)
qed

lemma task_stop_ok:
  assumes I: "sched_inv s Q" and n: "0 < length (sc_rqs s)" and a: "tk_on_rq (sc_tasks s a) \<Longrightarrow> tk_cpu_id (sc_tasks s a) = tk_rq_cpu (sc_tasks s a)"
  shows "\<exists>s' r. task_stop s (Some a) = Some (Inr (s', r)) \<and> good s s'"
proof (cases "tk_state (sc_tasks s a) = TASK_READY \<and> tk_on_rq (sc_tasks s a)")
  case True
  obtain d where d: "d < length (sc_rqs s)" "a \<in> set (adr (Q d))" using sched_invD(6) [OF I] True by blast
  have "tk_rq_cpu (sc_tasks s a) = of_nat d" using sched_invD(5) [OF I d(1)] d(2) by (simp add: queue_ok_def)
  moreover have "unat (of_nat d :: uint32_t) = d" using d(1) sched_invD(3) [OF I] by (simp add: unsigned_of_nat take_bit_nat_eq_self_iff [THEN iffD2])
  ultimately have c: "(if unat (tk_cpu_id (sc_tasks s a)) < length (sc_rqs s) then unat (tk_cpu_id (sc_tasks s a)) else 0) = d" "tk_rq_cpu (sc_tasks s a) = of_nat d"
    using a True d(1) by simp_all
  obtain s' where s': "dequeue_entity s d (Some a) = Some (Inr (s', True))" "good s s'" "\<not> tk_on_rq (sc_tasks s' a)"
    using dequeue_any [OF I d(1), of a] True c(2) by auto
  then obtain Q' where "sched_inv s' Q'" by (auto simp: good_def)
  from good_trans [OF s'(2) set_state_good [OF this s'(3)]] show ?thesis using True c(1) s'(1) by (simp add: task_stop_def proceed_def Let_def)
next
  case False
  then have "\<not> tk_on_rq (sc_tasks s a)" using not_queued [OF I, of a] by blast
  then show ?thesis using False set_state_good [OF I] goodI [OF I kept_refl] by (auto simp: task_stop_def proceed_def Let_def)
qed

lemma task_continue_ok:
  assumes I: "sched_inv s Q" and n: "0 < length (sc_rqs s)" and a: "a \<in> live s"
  shows "\<exists>s' r. task_continue cf s (Some a) = Some (Inr (s', r)) \<and> good s s'"
proof (cases "tk_state (sc_tasks s a) = TASK_STOPPED")
  case False
  then show ?thesis using goodI [OF I kept_refl] by (auto simp: task_continue_def Let_def)
next
  case st: True
  then have off: "\<not> tk_on_rq (sc_tasks s a)" using not_queued [OF I] by simp
  define c where "c = (if unat (tk_cpu_id (sc_tasks s a)) < length (sc_rqs s) then unat (tk_cpu_id (sc_tasks s a)) else 0)"
  have c: "c < length (sc_rqs s)" using n by (simp add: c_def)
  show ?thesis
  proof (cases "rq_curr (sc_rqs s ! c) = Some a \<and> tk_on_cpu (sc_tasks s a) \<noteq> 0 \<or> tk_rsp (sc_tasks s a) = 0")
    case True
    then show ?thesis using st off c set_state_good [OF I off] goodI [OF I kept_refl] by (auto simp: task_continue_def c_def [symmetric] Let_def)
  next
    case False
    obtain v d where p: "place_entity cf s c a False = Some (set_task s a (\<lambda>t. t\<lparr>tk_vruntime := v, tk_deadline := d\<rparr>))" using place_entity_ok [OF I c off] by blast
    let ?s1 = "set_task s a (\<lambda>t. t\<lparr>tk_vruntime := v, tk_deadline := d\<rparr>)"
    let ?s2 = "set_task ?s1 a (\<lambda>t. t\<lparr>tk_state := TASK_READY, tk_wake_tick := 0, tk_cpu_id := of_nat c\<rparr>)"
    have I1: "sched_inv ?s1 Q" using off sched_invD(4) [OF I] by (intro inv_set_task [OF I]) simp_all
    have I2: "sched_inv ?s2 Q" using off sched_invD(4) [OF I] by (intro inv_set_task [OF I1]) simp_all
    obtain s3 b where s3: "enqueue_entity ?s2 c (Some a) = Some (Inr (s3, b))" "good ?s2 s3" using enqueue_any [OF I2, of c a] c a by auto
    then obtain Q3 where I3: "sched_inv s3 Q3" and k3: "kept s s3" by (auto simp: good_def kept_def)
    have c3: "c < length (sc_rqs s3)" using c k3 by (simp add: kept_def)
    have "good s (if b then put_rq s3 c ((sc_rqs s3 ! c)\<lparr>rq_need_resched := True\<rparr>) else s3)"
      using touch_stats(3) [OF I3 c3] I3 k3 by (auto simp: good_def)
    then show ?thesis using st off False c p s3(1) c3 unfolding task_continue_def by (auto simp: c_def [symmetric] proceed_def Let_def)
  qed
qed

end
