(* ===== verification/Sched_Correct.thy ===== *)
theory Sched_Correct
  imports Sched_Switch
begin

text \<open>
  The states the scheduler reaches, and what the run queues guarantee in them.
\<close>

section \<open>Reachable states\<close>

text \<open>
  At the start all timelines are empty. Tasks that are created later exist from the start and are
  not woken before. A task leaves the processor by a change of its own state while it runs; a queued
  task is stopped through the processor it is queued on.
\<close>

definition sched_start :: "sched \<Rightarrow> bool" where
  "sched_start s \<longleftrightarrow> length (sc_rqs s) < 2 ^ 32 \<and> finite (live s) \<and> card (live s) < 2 ^ 31
     \<and> (\<forall>a. tk_weight (sc_tasks s a) \<noteq> 0 \<and> \<not> tk_on_rq (sc_tasks s a))
     \<and> (\<forall>a \<in> live s. owners (sc_heap s) a = Some None)
     \<and> (\<forall>c < length (sc_rqs s). rb_roots (sc_heap s) c = Some \<lparr>rt_root = None, rt_leftmost = None\<rparr>
          \<and> rq_nr_running (sc_rqs s ! c) = 0 \<and> rq_avg_load (sc_rqs s ! c) = 0 \<and> rq_avg_vruntime (sc_rqs s ! c) = 0
          \<and> crewed (live s) (sc_rqs s ! c))"

inductive sched_reach :: "sched_config \<Rightarrow> sched \<Rightarrow> bool" for cf where
  start: "sched_start s \<Longrightarrow> sched_reach cf s"
| wake: "sched_reach cf s \<Longrightarrow> a \<in> live s \<Longrightarrow> sc_rqs s \<noteq> [] \<Longrightarrow> enqueue_task_on_cpu cf s (Some a) cpu_id initial = Some (Inr s')
    \<Longrightarrow> sched_reach cf s'"
| switch: "sched_reach cf s \<Longrightarrow> c < length (sc_rqs s) \<Longrightarrow> sched_switch cf s c voluntary srcs = Some (Inr s') \<Longrightarrow> sched_reach cf s'"
| tick: "sched_reach cf s \<Longrightarrow> c < length (sc_rqs s) \<Longrightarrow> tick_account cf s c user_mode = Some (s', p) \<Longrightarrow> sched_reach cf s'"
| block: "sched_reach cf s \<Longrightarrow> c < length (sc_rqs s) \<Longrightarrow> rq_curr (sc_rqs s ! c) = Some a \<Longrightarrow> tk_state (sc_tasks s a) = TASK_RUNNING
    \<Longrightarrow> block_current s c = Some s' \<Longrightarrow> sched_reach cf s'"
| leave: "sched_reach cf s \<Longrightarrow> tk_state (sc_tasks s a) = TASK_RUNNING \<Longrightarrow> st \<in> {TASK_SLEEPING, TASK_ZOMBIE, TASK_IDLE}
    \<Longrightarrow> sched_reach cf (set_task s a (\<lambda>t. t\<lparr>tk_state := st\<rparr>))"
| stop: "sched_reach cf s \<Longrightarrow> sc_rqs s \<noteq> [] \<Longrightarrow> (tk_on_rq (sc_tasks s a) \<Longrightarrow> tk_cpu_id (sc_tasks s a) = tk_rq_cpu (sc_tasks s a))
    \<Longrightarrow> task_stop s (Some a) = Some (Inr (s', r)) \<Longrightarrow> sched_reach cf s'"
| continue: "sched_reach cf s \<Longrightarrow> sc_rqs s \<noteq> [] \<Longrightarrow> a \<in> live s \<Longrightarrow> task_continue cf s (Some a) = Some (Inr (s', r)) \<Longrightarrow> sched_reach cf s'"
| migrate: "sched_reach cf s \<Longrightarrow> migrate_one_locked cf s src dst newly_idle = Some (Inr (s', m)) \<Longrightarrow> sched_reach cf s'"
| clock: "sched_reach cf s \<Longrightarrow> sched_reach cf (s\<lparr>sc_ticks := n\<rparr>)"

lemma start_inv: "sched_start s \<Longrightarrow> sched_inv s (\<lambda>_. Lf)"
  by (auto simp: sched_start_def sched_inv_def queue_ok_def rb_tree_def tree_at_def rep_def rootptr_def leftmost_def vok_def weight_sum_def key_sum_def)

lemma sched_reach_inv: "sched_reach cf s \<Longrightarrow> \<exists>Q. sched_inv s Q"
proof (induction rule: sched_reach.induct)
  case (start s)
  then show ?case using start_inv by blast
next
  case (wake s a cpu_id initial s')
  then show ?case using enqueue_task_on_cpu_ok [of s _ a cf cpu_id initial] by (auto simp: good_def)
next
  case (switch s c voluntary srcs s')
  then obtain Q where "sched_inv s Q" by blast
  from sched_switch_safe [OF this switch(2), of cf voluntary srcs] show ?case using switch(3) by (simp add: good_def)
next
  case (tick s c user_mode s' p)
  then show ?case using tick_account_ok [of s _ c cf user_mode] by (auto simp: good_def)
next
  case (block s c a s')
  then show ?case using block_current_ok [of s _ c a] by (auto simp: good_def)
next
  case (leave s a st)
  then obtain Q where Q: "sched_inv s Q" by blast
  then have "\<not> tk_on_rq (sc_tasks s a)" using not_queued [OF Q] leave(2) by simp
  from set_state_good [OF Q this] show ?case by (simp add: good_def)
next
  case (stop s a s' r)
  then show ?case using task_stop_ok [of s _ a] by (auto simp: good_def)
next
  case (continue s a s' r)
  then show ?case using task_continue_ok [of s _ a cf] by (auto simp: good_def)
next
  case (migrate s src dst newly_idle s' m)
  then show ?case using migrate_one_ok [of s _ cf src dst newly_idle] by (auto simp: good_def)
next
  case (clock s n)
  then obtain Q where "sched_inv s Q" by blast
  then have "sched_inv (s\<lparr>sc_ticks := n\<rparr>) Q" by (simp add: sched_inv_def live_def)
  then show ?case by blast
qed

text \<open>
  C19: In every state the scheduler reaches, each processor's timeline is a red-black tree over exactly
  the tasks that are marked as queued on it, so no task is in two timelines; all of them are ready.
  The run queue counts them, its load is the sum of their weights and its average the sum of their
  virtual runtimes relative to the minimum, each times the weight. In such a state waking any task
  succeeds without a panic, a context switch and a tick do not fault, and fewer than \<open>2 ^ 31\<close> tasks are
  queued.
\<close>

theorem sched_reachable_consistent:
  assumes "sched_reach cf s" "c < length (sc_rqs s)"
  shows "(\<exists>T. rb_tree (Some (least_vruntime (sc_tasks s))) (sc_heap s) c T
      \<and> set (adr T) = {a. tk_on_rq (sc_tasks s a) \<and> tk_rq_cpu (sc_tasks s a) = of_nat c}
      \<and> (\<forall>a \<in> set (adr T). tk_state (sc_tasks s a) = TASK_READY) \<and> length (adr T) < 2 ^ 31
      \<and> rq_nr_running (sc_rqs s ! c) = of_nat (length (adr T))
      \<and> rq_avg_load (sc_rqs s ! c) = (\<Sum>a\<leftarrow>adr T. ucast (tk_weight (sc_tasks s a)))
      \<and> rq_avg_vruntime (sc_rqs s ! c)
          = (\<Sum>a\<leftarrow>adr T. (tk_vruntime (sc_tasks s a) - rq_min_vruntime (sc_rqs s ! c)) * ucast (tk_weight (sc_tasks s a))))
    \<and> (\<forall>a \<in> live s. \<forall>cpu_id initial. \<exists>s'. enqueue_task_on_cpu cf s (Some a) cpu_id initial = Some (Inr s'))
    \<and> (\<forall>voluntary srcs. sched_switch cf s c voluntary srcs \<noteq> None)
    \<and> (\<forall>user_mode. tick_account cf s c user_mode \<noteq> None)"
proof -
  obtain Q where I: "sched_inv s Q" using sched_reach_inv [OF assms(1)] by blast
  have q: "queue_ok (sc_tasks s) (sc_heap s) c (sc_rqs s ! c) (Q c)" by (rule sched_invD(5) [OF I assms(2)])
  have "set (adr (Q c)) = {a. tk_on_rq (sc_tasks s a) \<and> tk_rq_cpu (sc_tasks s a) = of_nat c}"
    using q queued_on [OF I _ _ assms(2)] by (auto simp: queue_ok_def)
  moreover have "\<forall>a \<in> live s. \<forall>cpu_id initial. \<exists>s'. enqueue_task_on_cpu cf s (Some a) cpu_id initial = Some (Inr s')"
    using enqueue_task_on_cpu_ok [OF I] assms(2) by fastforce
  moreover have "sched_switch cf s c voluntary srcs \<noteq> None" for voluntary srcs using sched_switch_safe [OF I assms(2)] by (metis safe_simps(3))
  moreover have "tick_account cf s c user_mode \<noteq> None" for user_mode using tick_account_ok [OF I assms(2)] by (metis option.distinct(1))
  ultimately show ?thesis using q queue_bound [OF I assms(2)] by (auto simp: queue_ok_def weight_sum_def key_sum_def)
qed

definition demo_rq :: eevdf_rq where
  "demo_rq = \<lparr>rq_nr_running = 0, rq_min_vruntime = 0, rq_avg_vruntime = 0, rq_avg_load = 0, rq_curr = Some 2, rq_idle = Some 2,
     rq_nr_migrations = 0, rq_nr_steals = 0, rq_user_ticks = 0, rq_system_ticks = 0, rq_idle_ticks = 0, rq_context_switches = 0,
     rq_need_resched = False, rq_online = True\<rparr>"

definition spare_node :: rb_node where
  "spare_node = \<lparr>rb_parent = None, rb_left = None, rb_right = None, rb_owner = None, rb_min_vruntime = 0, rb_col = RB_BLACK\<rparr>"

definition demo_start :: sched where
  "demo_start = \<lparr>sc_tasks = (\<lambda>a. blank_task\<lparr>tk_state := (if a = 2 then TASK_IDLE else TASK_BLOCKED)\<rparr>),
     sc_heap = \<lparr>rb_nodes = [1 \<mapsto> spare_node, 2 \<mapsto> spare_node], rb_roots = [0 \<mapsto> \<lparr>rt_root = None, rt_leftmost = None\<rparr>]\<rparr>,
     sc_rqs = [demo_rq], sc_ticks = 0, sc_print = True\<rparr>"

lemma demo_started: "sched_start demo_start" "live demo_start = {1, 2}"
  by (auto simp: sched_start_def demo_start_def live_def blank_task_def demo_rq_def spare_node_def owners_def crewed_def)

theorem sched_reachable_consistent_witness:
  "\<exists>s. enqueue_task_on_cpu default_config demo_start (Some 1) 0 True = Some (Inr s)
     \<and> (\<exists>T. rb_tree (Some (least_vruntime (sc_tasks s))) (sc_heap s) 0 T
          \<and> set (adr T) = {a. tk_on_rq (sc_tasks s a) \<and> tk_rq_cpu (sc_tasks s a) = 0})
     \<and> sched_switch default_config s 0 False [] \<noteq> None"
proof -
  have r: "sched_reach default_config demo_start" by (rule sched_reach.start [OF demo_started(1)])
  have "\<exists>s. enqueue_task_on_cpu default_config demo_start (Some 1) 0 True = Some (Inr s)"
    using sched_reachable_consistent [OF r, of 0] demo_started(2) by (simp add: demo_start_def)
  then obtain s where s: "enqueue_task_on_cpu default_config demo_start (Some 1) 0 True = Some (Inr s)" by blast
  have "good demo_start s" using enqueue_task_on_cpu_ok [OF start_inv [OF demo_started(1)], of 1 default_config 0 True] s demo_started(2)
    by (auto simp: demo_start_def)
  then have n: "0 < length (sc_rqs s)" by (simp add: good_def kept_def demo_start_def)
  have "sched_reach default_config s" using sched_reach.wake [OF r _ _ s] demo_started(2) by (simp add: demo_start_def)
  from sched_reachable_consistent [OF this n] show ?thesis using s by auto
qed

section \<open>The choice of the next task\<close>

lemma entity_less_swo:
  assumes "\<And>a. a \<in> A \<Longrightarrow> tk_deadline (ts a) < 2 ^ 63" "\<And>a. a \<in> A \<Longrightarrow> tk_vruntime (ts a) < 2 ^ 63"
  shows "swo (entity_less ts) A"
proof -
  have "entity_less ts a b \<longleftrightarrow> (if tk_deadline (ts a) \<noteq> tk_deadline (ts b) then uint (tk_deadline (ts a)) < uint (tk_deadline (ts b))
      else if tk_vruntime (ts a) \<noteq> tk_vruntime (ts b) then uint (tk_vruntime (ts a)) < uint (tk_vruntime (ts b))
      else uint (tk_pid (ts a)) < uint (tk_pid (ts b)))" if "a \<in> A" "b \<in> A" for a b
    using sint_diff [OF assms(1) [OF that(1)] assms(1) [OF that(2)]] sint_diff [OF assms(2) [OF that(1)] assms(2) [OF that(2)]]
    by (simp add: entity_less_def word_less_def)
  then show ?thesis unfolding swo_def by (auto simp: word_uint_eq_iff split: if_splits)
qed

text \<open>
  C20: On a consistent run queue whose virtual times have not reached the sign bit, \<^verbatim>\<open>pick_eevdf\<close> returns,
  and its shortcut over the cached first node and its search by subtree minima choose the same task
  as a scan of the whole timeline: the first eligible task, unless the current one is eligible and
  that task does not go before it; without an eligible task the current one or else the first, and
  the idle task only when the timeline is empty. While the timeline is in order no eligible task
  precedes the first eligible one, and the comparison is a strict weak order as long as the
  deadlines have not reached the sign bit either.
\<close>

theorem pick_eevdf_is_scan:
  assumes "sched_inv s Q" "c < length (sc_rqs s)" "calm (sc_tasks s) (sc_rqs s ! c) (adr (Q c))"
  shows "pick_eevdf cf s c = Some (next_entity cf (sc_tasks s) (sc_rqs s ! c) (adr (Q c)))
    \<and> ((\<forall>a \<in> set (adr (Q c)). tk_deadline (sc_tasks s a) < 2 ^ 63) \<longrightarrow> swo (entity_less (sc_tasks s)) (set (adr (Q c))))
    \<and> (\<forall>e. in_order (entity_less (sc_tasks s)) (adr (Q c)) \<and> find (entity_eligible (sc_tasks s) (sc_rqs s ! c)) (adr (Q c)) = Some e
        \<longrightarrow> (\<forall>b \<in> set (adr (Q c)). entity_eligible (sc_tasks s) (sc_rqs s ! c) b \<longrightarrow> \<not> entity_less (sc_tasks s) b e))"
proof (intro conjI impI allI ballI)
  show "pick_eevdf cf s c = Some (next_entity cf (sc_tasks s) (sc_rqs s ! c) (adr (Q c)))" by (rule pick_eevdf_eq [OF assms])
  show "swo (entity_less (sc_tasks s)) (set (adr (Q c)))" if "\<forall>a \<in> set (adr (Q c)). tk_deadline (sc_tasks s a) < 2 ^ 63"
    using that assms(3) by (intro entity_less_swo) (auto simp: calm_def)
  show "\<not> entity_less (sc_tasks s) b e" if "in_order (entity_less (sc_tasks s)) (adr (Q c)) \<and> find (entity_eligible (sc_tasks s) (sc_rqs s ! c)) (adr (Q c)) = Some e"
    "b \<in> set (adr (Q c))" "entity_eligible (sc_tasks s) (sc_rqs s ! c) b" for e b
  proof -
    have "\<not> entity_less (sc_tasks s) e e" by (simp add: entity_less_def)
    then show ?thesis using find_first_in_order [of "entity_less (sc_tasks s)" "adr (Q c)" "entity_eligible (sc_tasks s) (sc_rqs s ! c)" e b] that by simp
  qed
qed

text \<open>One queued task beside the idle one.\<close>

definition demo_queued :: sched where
  "demo_queued = \<lparr>sc_tasks = (\<lambda>a. blank_task\<lparr>tk_state := (if a = 2 then TASK_IDLE else TASK_READY), tk_on_rq := (a = 1), tk_rq_cpu := 0\<rparr>),
     sc_heap = one_queued, sc_rqs = [demo_rq\<lparr>rq_nr_running := 1, rq_avg_load := 1024\<rparr>], sc_ticks = 0, sc_print = True\<rparr>"

definition demo_tree :: "nat \<Rightarrow> rbt" where
  "demo_tree c = Nd RB_BLACK Lf 1 Lf"

lemma demo_queued_inv: "sched_inv demo_queued demo_tree"
proof -
  have "live demo_queued = {1, 2}" by (auto simp: demo_queued_def live_def one_queued_def)
  moreover have "rb_tree (Some (least_vruntime (sc_tasks demo_queued))) one_queued 0 (Nd RB_BLACK Lf 1 Lf)"
    using one_queued_tree rb_tree_tasks [of "Nd RB_BLACK Lf 1 Lf" "sc_tasks demo_queued" two_tasks one_queued 0]
    by (simp add: demo_queued_def two_tasks_def blank_task_def)
  ultimately show ?thesis
    by (simp add: sched_inv_def demo_tree_def queue_ok_def) (auto simp: demo_queued_def demo_rq_def blank_task_def weight_sum_def key_sum_def crewed_def owners_def one_queued_def)
qed

lemma demo_queued_calm: "0 < length (sc_rqs demo_queued)" "calm (sc_tasks demo_queued) (sc_rqs demo_queued ! 0) (adr (demo_tree 0))"
  by (simp_all add: demo_queued_def calm_def demo_rq_def demo_tree_def blank_task_def)

theorem pick_eevdf_is_scan_witness:
  "pick_eevdf default_config demo_queued 0 = Some (Some 1)"
proof -
  have "find (entity_eligible (sc_tasks demo_queued) (sc_rqs demo_queued ! 0)) (adr (demo_tree 0)) = Some 1"
    "current_eligible (sc_tasks demo_queued) (sc_rqs demo_queued ! 0) = None"
    by (simp_all add: demo_queued_def demo_tree_def demo_rq_def blank_task_def entity_eligible_def entity_eligible_vruntime_def current_eligible_def)
  then have "next_entity default_config (sc_tasks demo_queued) (sc_rqs demo_queued ! 0) (adr (demo_tree 0)) = Some 1"
    by (simp add: next_entity_def demo_tree_def)
  then show ?thesis using pick_eevdf_is_scan [OF demo_queued_inv demo_queued_calm, of default_config] by simp
qed

text \<open>
  C21: As long as the weighted sum of a run queue fits into 64 bits there is always an eligible task:
  with a task in the timeline \<^verbatim>\<open>pick_eevdf\<close> returns an eligible one, which is queued or is the running
  task, so neither the idle task nor the fallback to an ineligible task is taken.
\<close>

theorem pick_eevdf_eligible:
  assumes I: "sched_inv s Q" and c: "c < length (sc_rqs s)" and calm: "calm (sc_tasks s) (sc_rqs s ! c) (adr (Q c))" and ne: "adr (Q c) \<noteq> []"
    and exact: "- (2 ^ 63) \<le> exact_key_sum (sc_tasks s) (rq_min_vruntime (sc_rqs s ! c)) (adr (Q c))"
      "exact_key_sum (sc_tasks s) (rq_min_vruntime (sc_rqs s ! c)) (adr (Q c)) < 2 ^ 63"
  shows "\<exists>a. pick_eevdf cf s c = Some (Some a) \<and> entity_eligible (sc_tasks s) (sc_rqs s ! c) a
    \<and> (a \<in> set (adr (Q c)) \<or> rq_curr (sc_rqs s ! c) = Some a \<and> tk_state (sc_tasks s a) = TASK_RUNNING)"
proof -
  let ?ts = "sc_tasks s" and ?rq = "sc_rqs s ! c" and ?xs = "adr (Q c)"
  obtain a where a: "a \<in> set (runnable ?ts ?rq ?xs)" "entity_eligible ?ts ?rq a" using some_eligible [OF I c ne exact] by blast
  have cur: "rq_curr ?rq = Some b \<and> tk_state (?ts b) = TASK_RUNNING \<and> entity_eligible ?ts ?rq b" if "current_eligible ?ts ?rq = Some b" for b
    using that by (auto simp: current_eligible_def split: option.splits if_splits)
  show ?thesis
  proof (cases "find (entity_eligible ?ts ?rq) ?xs")
    case None
    then have "a \<notin> set ?xs" using a(2) by (auto simp: find_None_iff)
    then have "current_eligible ?ts ?rq = Some a" using a by (auto simp: runnable_def current_eligible_def split: option.splits if_splits)
    then show ?thesis using pick_eevdf_eq [OF I c calm] None cur ne by (simp add: next_entity_def)
  next
    case (Some e)
    then have "e \<in> set ?xs" "entity_eligible ?ts ?rq e" by (auto simp: find_Some_iff)
    then show ?thesis using pick_eevdf_eq [OF I c calm, of cf] Some cur ne by (auto simp: next_entity_def split: option.splits)
  qed
qed

theorem pick_eevdf_eligible_witness:
  "\<exists>a. pick_eevdf default_config demo_queued 0 = Some (Some a) \<and> entity_eligible (sc_tasks demo_queued) (sc_rqs demo_queued ! 0) a"
proof -
  have "exact_key_sum (sc_tasks demo_queued) (rq_min_vruntime (sc_rqs demo_queued ! 0)) (adr (demo_tree 0)) = 0"
    by (simp add: exact_key_sum_def demo_queued_def demo_tree_def demo_rq_def blank_task_def)
  then show ?thesis using pick_eevdf_eligible [OF demo_queued_inv demo_queued_calm, of default_config] by (auto simp: demo_tree_def)
qed

end
