(* ===== verification/Rtmutex.thy ===== *)
theory Rtmutex
  imports Eevdf_Inv
begin

text \<open>
  \<^verbatim>\<open>src/ipc/rt_mutex.c\<close>: the waiters of a mutex with priority inheritance. The node \<^verbatim>\<open>pi_node\<close> of the task at
  an address has that address, and the tree of waiters of the mutex at an address is the root there.
\<close>

section \<open>Waiters\<close>

record pi_task =
  pt_pid :: uint64_t
  pt_weight :: uint32_t
  pt_base_weight :: uint32_t
  pt_pi_weight :: uint32_t
  pt_blocked_on :: "nat option"

record pi_state =
  pi_tasks :: "nat \<Rightarrow> pi_task"
  pi_owner :: "nat \<Rightarrow> nat option option"
  pi_heap :: rb_heap

definition pi_waiter_less :: "(nat \<Rightarrow> pi_task) \<Rightarrow> rb_less" where
  "pi_waiter_less ts a b =
     (if pt_pi_weight (ts a) \<noteq> pt_pi_weight (ts b) then pt_pi_weight (ts a) > pt_pi_weight (ts b)
      else pt_pid (ts a) > pt_pid (ts b))"

definition pi_waiter_augment :: "rb_heap \<Rightarrow> nat \<Rightarrow> rb_heap option" where
  "pi_waiter_augment h node = Some h"

definition pi_effective_weight :: "pi_state \<Rightarrow> nat \<Rightarrow> uint32_t option" where
  "pi_effective_weight st owner =
     (let base = pt_base_weight (pi_tasks st owner) in
      case pt_blocked_on (pi_tasks st owner) of
        None \<Rightarrow> Some base
      | Some mutex \<Rightarrow> do {
          leftmost \<leftarrow> rb_first (pi_heap st) (Some mutex);
          case leftmost of
            None \<Rightarrow> Some base
          | Some top_waiter \<Rightarrow> do {
              let donated = pt_pi_weight (pi_tasks st top_waiter);
              Some (if donated > base then donated else base) } })"

definition set_weight :: "pi_state \<Rightarrow> nat \<Rightarrow> uint32_t \<Rightarrow> pi_state" where
  "set_weight st a w = st\<lparr>pi_tasks := (pi_tasks st)(a := (pi_tasks st a)\<lparr>pt_weight := w\<rparr>)\<rparr>"

partial_function (option) pi_propagate_chain :: "nat option \<Rightarrow> pi_state \<Rightarrow> pi_state option" where
  "pi_propagate_chain owner st =
     (case owner of
        None \<Rightarrow> Some st
      | Some a \<Rightarrow>
          (case pt_blocked_on (pi_tasks st a) of
             None \<Rightarrow> Some (set_weight st a (pt_base_weight (pi_tasks st a)))
           | Some mutex \<Rightarrow> do {
               w \<leftarrow> pi_effective_weight st a;
               q \<leftarrow> pi_owner st mutex;
               pi_propagate_chain q (set_weight st a w) }))"

definition set_blocked_on :: "pi_state \<Rightarrow> nat \<Rightarrow> nat option \<Rightarrow> pi_state" where
  "set_blocked_on st a m = st\<lparr>pi_tasks := (pi_tasks st)(a := (pi_tasks st a)\<lparr>pt_blocked_on := m\<rparr>)\<rparr>"

definition pi_waiter_add :: "pi_state \<Rightarrow> nat \<Rightarrow> nat \<Rightarrow> pi_state outcome" where
  "pi_waiter_add st waiter mutex = do {
     let st = set_blocked_on st waiter (Some mutex);
     (h, r) \<leftarrow> rb_insert_augmented (pi_heap st) (Some mutex) (Some waiter) (Some (pi_waiter_less (pi_tasks st))) (Some pi_waiter_augment);
     if r \<noteq> 0 then Some (Inl PANIC)
     else do {
       q \<leftarrow> pi_owner st mutex;
       map_option Inr (pi_propagate_chain q (st\<lparr>pi_heap := h\<rparr>)) } }"

definition pi_waiter_remove :: "pi_state \<Rightarrow> nat \<Rightarrow> pi_state outcome" where
  "pi_waiter_remove st waiter =
     (case pt_blocked_on (pi_tasks st waiter) of
        None \<Rightarrow> Some (Inr st)
      | Some mutex \<Rightarrow> do {
          (h, r) \<leftarrow> rb_erase_augmented (pi_heap st) (Some mutex) (Some waiter) (Some pi_waiter_augment);
          if r \<noteq> 0 then Some (Inl PANIC)
          else do {
            let st = set_blocked_on (st\<lparr>pi_heap := h\<rparr>) waiter None;
            q \<leftarrow> pi_owner st mutex;
            map_option Inr (pi_propagate_chain q st) } })"

definition rt_mutex_wake_top_waiter :: "pi_state \<Rightarrow> nat option \<Rightarrow> (pi_state \<times> nat option) outcome" where
  "rt_mutex_wake_top_waiter st mutex =
     (case mutex of
        None \<Rightarrow> Some (Inr (st, None))
      | Some m \<Rightarrow> do {
          leftmost \<leftarrow> rb_first (pi_heap st) mutex;
          case leftmost of
            None \<Rightarrow> Some (Inr (st, None))
          | Some top_waiter \<Rightarrow> do {
              (h, r) \<leftarrow> rb_erase_augmented (pi_heap st) mutex leftmost (Some pi_waiter_augment);
              if r \<noteq> 0 then Some (Inl PANIC)
              else Some (Inr (set_blocked_on (st\<lparr>pi_heap := h\<rparr>) top_waiter None, leftmost)) } })"

text \<open>
  What \<^verbatim>\<open>rt_mutex_lock\<close> does under the lock of a mutex that another task owns: the weight of the task
  becomes its weight as a waiter, and the task is added unless it is queued already.
\<close>

definition pi_prepare :: "pi_state \<Rightarrow> nat \<Rightarrow> pi_state" where
  "pi_prepare st a = st\<lparr>pi_tasks := (pi_tasks st)(a := (pi_tasks st a)\<lparr>pt_base_weight := pt_weight (pi_tasks st a),
     pt_pi_weight := pt_weight (pi_tasks st a)\<rparr>)\<rparr>"

definition pi_contend :: "pi_state \<Rightarrow> nat \<Rightarrow> nat \<Rightarrow> pi_state outcome" where
  "pi_contend st self mutex = do {
     let st = pi_prepare st self;
     if pt_blocked_on (pi_tasks st self) \<noteq> Some mutex then pi_waiter_add st self mutex else Some (Inr st) }"

section \<open>The tree of waiters\<close>

interpretation ptree: rb_callback "Some pi_waiter_augment" None
proof
  show "\<exists>v. call_augment (Some pi_waiter_augment) h a = Some (set_mv h a v)
      \<and> (\<forall>g. None = Some g \<longrightarrow> v = g a (Option.bind (rb_left n) (fld h rb_min_vruntime)) (Option.bind (rb_right n) (fld h rb_min_vruntime)))"
    if "rb_nodes h a = Some n" for h a n
  proof (intro exI conjI)
    have "set_mv h a (rb_min_vruntime n) = h" using that by (simp add: set_mv_def fun_upd_idem)
    then show "call_augment (Some pi_waiter_augment) h a = Some (set_mv h a (rb_min_vruntime n))" by (simp add: call_augment_def pi_waiter_augment_def)
  qed simp
qed simp

lemma pi_waiter_less_swo: "swo (pi_waiter_less ts) A"
  by (auto simp: swo_def pi_waiter_less_def split: if_splits)

text \<open>The waiters of a mutex, from the highest weight down.\<close>

definition waiters :: "pi_state \<Rightarrow> nat \<Rightarrow> nat list \<Rightarrow> bool" where
  "waiters st m xs \<longleftrightarrow> (\<exists>T. rb_tree None (pi_heap st) m T \<and> adr T = xs) \<and> in_order (pi_waiter_less (pi_tasks st)) xs"

lemma waiters_tasks:
  assumes "waiters st m xs" "pi_heap st' = pi_heap st" "\<And>a. pt_pi_weight (pi_tasks st' a) = pt_pi_weight (pi_tasks st a) \<and> pt_pid (pi_tasks st' a) = pt_pid (pi_tasks st a)"
  shows "waiters st' m xs"
proof -
  have "pi_waiter_less (pi_tasks st') = pi_waiter_less (pi_tasks st)" using assms(3) by (simp add: pi_waiter_less_def fun_eq_iff)
  then show ?thesis using assms(1,2) by (simp add: waiters_def)
qed

lemma first_is_heaviest: "in_order (pi_waiter_less ts) (x # xs) \<Longrightarrow> y \<in> set xs \<Longrightarrow> pt_pi_weight (ts y) \<le> pt_pi_weight (ts x)"
  by (auto simp: in_order_def pi_waiter_less_def split: if_splits)

lemma chain_unblocked: "pt_blocked_on (pi_tasks st a) = None \<Longrightarrow> pi_propagate_chain (Some a) st = Some (set_weight st a (pt_base_weight (pi_tasks st a)))"
  by (subst pi_propagate_chain.simps) simp

section \<open>States\<close>

text \<open>Two states that differ in weights only.\<close>

definition same_links :: "pi_state \<Rightarrow> pi_state \<Rightarrow> bool" where
  "same_links st st' \<longleftrightarrow> pi_heap st' = pi_heap st \<and> pi_owner st' = pi_owner st
     \<and> (\<forall>a. (pi_tasks st' a)\<lparr>pt_weight := 0\<rparr> = (pi_tasks st a)\<lparr>pt_weight := 0\<rparr>)"

lemma same_linksD:
  assumes "same_links st st'"
  shows "pi_heap st' = pi_heap st" "pi_owner st' = pi_owner st" "pt_blocked_on (pi_tasks st' a) = pt_blocked_on (pi_tasks st a)"
    "pt_pi_weight (pi_tasks st' a) = pt_pi_weight (pi_tasks st a)" "pt_pid (pi_tasks st' a) = pt_pid (pi_tasks st a)"
    "pt_base_weight (pi_tasks st' a) = pt_base_weight (pi_tasks st a)"
proof -
  have fields: "x\<lparr>pt_weight := 0\<rparr> = y\<lparr>pt_weight := 0\<rparr> \<Longrightarrow> pt_blocked_on x = pt_blocked_on y \<and> pt_pi_weight x = pt_pi_weight y \<and> pt_pid x = pt_pid y
      \<and> pt_base_weight x = pt_base_weight y" for x y :: pi_task by (cases x; cases y) simp
  show "pi_heap st' = pi_heap st" "pi_owner st' = pi_owner st" using assms by (simp_all add: same_links_def)
  show "pt_blocked_on (pi_tasks st' a) = pt_blocked_on (pi_tasks st a)" "pt_pi_weight (pi_tasks st' a) = pt_pi_weight (pi_tasks st a)"
    "pt_pid (pi_tasks st' a) = pt_pid (pi_tasks st a)" "pt_base_weight (pi_tasks st' a) = pt_base_weight (pi_tasks st a)"
    using assms fields unfolding same_links_def by blast+
qed

lemma same_links_refl [simp]: "same_links st st"
  by (simp add: same_links_def)

lemma same_links_weight: "same_links st st' \<Longrightarrow> same_links st (set_weight st' a w)"
  by (simp add: same_links_def set_weight_def)

text \<open>Every task that exists either waits nowhere or is in the queue of the mutex it waits for.\<close>

definition pi_live :: "pi_state \<Rightarrow> nat \<Rightarrow> bool" where
  "pi_live st a \<longleftrightarrow> rb_nodes (pi_heap st) a \<noteq> None"

definition pi_inv :: "pi_state \<Rightarrow> (nat \<Rightarrow> nat list) \<Rightarrow> bool" where
  "pi_inv st W \<longleftrightarrow> (\<forall>m. pi_owner st m \<noteq> None \<longrightarrow> waiters st m (W m))
     \<and> (\<forall>a. pi_live st a \<longrightarrow> (pt_blocked_on (pi_tasks st a) = None \<longrightarrow> owners (pi_heap st) a = Some None)
         \<and> (\<forall>m. pt_blocked_on (pi_tasks st a) = Some m \<longrightarrow> pi_owner st m \<noteq> None \<and> a \<in> set (W m)))"

lemma pi_invD:
  assumes "pi_inv st W"
  shows "pi_owner st m \<noteq> None \<Longrightarrow> waiters st m (W m)"
    "pi_live st a \<Longrightarrow> pt_blocked_on (pi_tasks st a) = None \<Longrightarrow> owners (pi_heap st) a = Some None"
    "pi_live st a \<Longrightarrow> pt_blocked_on (pi_tasks st a) = Some m \<Longrightarrow> pi_owner st m \<noteq> None \<and> a \<in> set (W m)"
  using assms unfolding pi_inv_def by blast+

lemma waiters_owner: "waiters st m xs \<Longrightarrow> a \<in> set xs \<Longrightarrow> owners (pi_heap st) a = Some (Some m)"
  by (auto simp: waiters_def rb_tree_def)

lemma owners_live: "owners (pi_heap st) a \<noteq> None \<longleftrightarrow> pi_live st a"
  by (simp add: owners_def pi_live_def)

lemma pi_inv_set:
  assumes I: "pi_inv st W" and m: "pi_owner st m \<noteq> None"
  shows "set (W m) = {a. pi_live st a \<and> pt_blocked_on (pi_tasks st a) = Some m}"
proof (intro set_eqI iffI)
  fix a assume a: "a \<in> set (W m)"
  then have o: "owners (pi_heap st) a = Some (Some m)" using waiters_owner pi_invD(1) [OF I m] by blast
  then have live: "pi_live st a" using owners_live [of st a] by simp
  then obtain k where k: "pt_blocked_on (pi_tasks st a) = Some k" using pi_invD(2) [OF I live] o by (cases "pt_blocked_on (pi_tasks st a)") auto
  then have "owners (pi_heap st) a = Some (Some k)" using pi_invD(3) [OF I live k] pi_invD(1) [OF I] waiters_owner by blast
  then show "a \<in> {a. pi_live st a \<and> pt_blocked_on (pi_tasks st a) = Some m}" using o live k by simp
qed (use pi_invD(3) [OF I] in blast)

lemma pi_inv_same:
  assumes "same_links st st'" "pi_inv st W"
  shows "pi_inv st' W"
proof -
  note l = same_linksD [OF assms(1)]
  have "waiters st' m xs" if "waiters st m xs" for m xs by (rule waiters_tasks [OF that l(1)]) (simp add: l)
  then show ?thesis using assms(2) by (simp add: pi_inv_def pi_live_def l)
qed

lemma waiters_frame:
  assumes "waiters st n xs" "rb_roots h n = rb_roots (pi_heap st) n" "\<And>a. a \<in> set xs \<Longrightarrow> rb_nodes h a = rb_nodes (pi_heap st) a"
  shows "waiters (st\<lparr>pi_heap := h\<rparr>) n xs"
  using assms rb_tree_frame [of None "pi_heap st" n _ h] by (auto simp: waiters_def)

text \<open>A change of the tree of one mutex and of the task that enters or leaves it.\<close>

lemma pi_inv_step:
  assumes I: "pi_inv st W" and m: "pi_owner st m \<noteq> None" and t: "rb_tree None h m T" "in_order (pi_waiter_less (pi_tasks st)) (adr T)"
    and roots: "\<And>r. r \<noteq> m \<Longrightarrow> rb_roots h r = rb_roots (pi_heap st) r"
    and nodes: "\<And>b. b \<notin> insert a (set (W m)) \<Longrightarrow> rb_nodes h b = rb_nodes (pi_heap st) b"
    and own: "owners h = (owners (pi_heap st))(a \<mapsto> x)" and a: "\<And>n. pi_owner st n \<noteq> None \<Longrightarrow> n \<noteq> m \<Longrightarrow> a \<notin> set (W n)"
    and set: "insert a (set (adr T)) = insert a (set (W m))" "a \<in> set (adr T) \<longleftrightarrow> x = Some m" "x = Some m \<or> x = None"
  shows "pi_inv (set_blocked_on (st\<lparr>pi_heap := h\<rparr>) a x) (W(m := adr T))"
proof -
  let ?st = "set_blocked_on (st\<lparr>pi_heap := h\<rparr>) a x"
  have keep: "waiters ?st n xs" if "waiters (st\<lparr>pi_heap := h\<rparr>) n xs" for n xs
    by (rule waiters_tasks [OF that]) (simp_all add: set_blocked_on_def)
  have here: "waiters ?st m (adr T)" by (rule keep) (use t in \<open>auto simp: waiters_def\<close>)
  have there: "waiters ?st n (W n)" if n: "pi_owner st n \<noteq> None" "n \<noteq> m" for n
  proof (rule keep, rule waiters_frame [OF pi_invD(1) [OF I n(1)] roots [OF n(2)]])
    fix b assume b: "b \<in> set (W n)"
    then have "owners (pi_heap st) b = Some (Some n)" using waiters_owner [OF pi_invD(1) [OF I n(1)]] by blast
    then have "b \<notin> set (W m)" using waiters_owner [OF pi_invD(1) [OF I m]] n(2) by fastforce
    then show "rb_nodes h b = rb_nodes (pi_heap st) b" using nodes [of b] a [OF n] b by blast
  qed
  have live: "pi_live ?st b \<longleftrightarrow> b = a \<or> pi_live st b" for b
    using own owners_live [of ?st b] owners_live [of st b] by (auto simp: set_blocked_on_def split: if_splits)
  have tasks: "pt_blocked_on (pi_tasks ?st b) = (if b = a then x else pt_blocked_on (pi_tasks st b))" for b by (simp add: set_blocked_on_def)
  have "(pt_blocked_on (pi_tasks ?st b) = None \<longrightarrow> owners (pi_heap ?st) b = Some None)
      \<and> (\<forall>n. pt_blocked_on (pi_tasks ?st b) = Some n \<longrightarrow> pi_owner ?st n \<noteq> None \<and> b \<in> set ((W(m := adr T)) n))" if "pi_live ?st b" for b
  proof (cases "b = a")
    case True
    then show ?thesis using set(2,3) m own by (auto simp: tasks set_blocked_on_def)
  next
    case False
    then have "pi_live st b" using live that by simp
    then show ?thesis using pi_invD(2,3) [OF I, of b] False own set(1)
      by (auto simp: tasks, auto simp: set_blocked_on_def)
  qed
  moreover have "waiters ?st n ((W(m := adr T)) n)" if "pi_owner ?st n \<noteq> None" for n
    using here there [of n] that by (cases "n = m") (simp_all add: set_blocked_on_def)
  ultimately show ?thesis unfolding pi_inv_def by blast
qed

section \<open>The chain of owners\<close>

inductive chain_ends :: "pi_state \<Rightarrow> nat option \<Rightarrow> bool" for st where
  free: "chain_ends st None"
| first: "pt_blocked_on (pi_tasks st a) = None \<Longrightarrow> chain_ends st (Some a)"
| further: "pt_blocked_on (pi_tasks st a) = Some m \<Longrightarrow> pi_owner st m = Some q \<Longrightarrow> chain_ends st q \<Longrightarrow> chain_ends st (Some a)"

lemma chain_ends_links:
  assumes "chain_ends st q" "\<And>a. pt_blocked_on (pi_tasks st' a) = pt_blocked_on (pi_tasks st a)" "pi_owner st' = pi_owner st"
  shows "chain_ends st' q"
  using assms by induction (auto intro: chain_ends.intros)

lemma chain_blocked:
  "pt_blocked_on (pi_tasks st a) = Some n \<Longrightarrow> pi_effective_weight st a = Some w \<Longrightarrow> pi_owner st n = Some q
     \<Longrightarrow> pi_propagate_chain (Some a) st = pi_propagate_chain q (set_weight st a w)"
  by (subst pi_propagate_chain.simps) simp

lemma effective_weight_returns: "pt_blocked_on (pi_tasks st a) = Some n \<Longrightarrow> rb_roots (pi_heap st) n \<noteq> None \<Longrightarrow> \<exists>w. pi_effective_weight st a = Some w"
  by (auto simp: rb_first_def pi_effective_weight_def Let_def split: option.splits)

lemma waiters_root: "waiters st m xs \<Longrightarrow> rb_roots (pi_heap st) m \<noteq> None"
  by (auto simp: waiters_def rb_tree_def leftmost_def)

lemma chain_returns:
  assumes "chain_ends st q" "same_links st st'" "\<And>m. pi_owner st m \<noteq> None \<Longrightarrow> rb_roots (pi_heap st) m \<noteq> None"
  shows "\<exists>r. pi_propagate_chain q st' = Some r \<and> same_links st r"
  using assms
proof (induction arbitrary: st')
  case free
  then show ?case by (subst pi_propagate_chain.simps) simp
next
  case (first a)
  then show ?case using chain_unblocked [of st' a] same_links_weight same_linksD(3) [of st st' a] by auto
next
  case (further a m q)
  then have l: "pt_blocked_on (pi_tasks st' a) = Some m" "pi_owner st' m = Some q" "rb_roots (pi_heap st') m \<noteq> None" using same_linksD by auto
  then obtain w where "pi_effective_weight st' a = Some w" using effective_weight_returns by blast
  then show ?case using chain_blocked [OF l(1) _ l(2)] further.IH [OF same_links_weight [OF further.prems(1)] further.prems(2)] by auto
qed

lemma chain_ends_weight: "chain_ends (set_weight st a w) q = chain_ends st q"
  by (auto elim!: chain_ends_links simp: set_weight_def)

lemma returns_ends:
  assumes "pi_propagate_chain q st = Some r"
  shows "chain_ends st q"
proof (rule pi_propagate_chain.raw_induct [where P = "\<lambda>q st r. chain_ends st q", OF _ assms])
  fix chain q st r
  assume IH: "\<And>q st r. chain q st = Some r \<Longrightarrow> chain_ends st q"
    and r: "(case q of None \<Rightarrow> Some st | Some a \<Rightarrow> (case pt_blocked_on (pi_tasks st a) of
        None \<Rightarrow> Some (set_weight st a (pt_base_weight (pi_tasks st a)))
      | Some mutex \<Rightarrow> do { w \<leftarrow> pi_effective_weight st a; q \<leftarrow> pi_owner st mutex; chain q (set_weight st a w) })) = Some r"
  have up: "chain p (set_weight st a w) = Some r \<Longrightarrow> chain_ends st p" for p a w using IH chain_ends_weight by blast
  show "chain_ends st q"
    using r by (auto simp: bind_eq_Some_conv split: option.splits intro: chain_ends.intros up)
qed

text \<open>The walk returns exactly when the chain ends.\<close>

lemma propagate_iff:
  assumes "pi_inv st W"
  shows "if chain_ends st q then \<exists>r. pi_propagate_chain q st = Some r \<and> same_links st r \<and> pi_inv r W else pi_propagate_chain q st = None"
proof -
  have "rb_roots (pi_heap st) m \<noteq> None" if "pi_owner st m \<noteq> None" for m using waiters_root pi_invD(1) [OF assms that] by blast
  then show ?thesis using chain_returns [of st q st] returns_ends [of q st] pi_inv_same [OF _ assms] by (cases "pi_propagate_chain q st") auto
qed

lemma propagate_keeps: "pi_inv st W \<Longrightarrow> map_option Inr (pi_propagate_chain q st) = Some (Inr r) \<Longrightarrow> pi_inv r W"
  using propagate_iff [of st W q] by (auto split: if_splits)

section \<open>Operations\<close>

lemma block_simps [simp]:
  "(set_blocked_on st a x)\<lparr>pi_heap := h\<rparr> = set_blocked_on (st\<lparr>pi_heap := h\<rparr>) a x" "pi_owner (set_blocked_on st a x) = pi_owner st"
  "pi_heap (set_blocked_on st a x) = pi_heap st" "pi_waiter_less (pi_tasks (set_blocked_on st a x)) = pi_waiter_less (pi_tasks st)"
  by (simp_all add: set_blocked_on_def pi_waiter_less_def fun_eq_iff)

lemma in_order_remove1: "in_order lt xs \<Longrightarrow> in_order lt (remove1 x xs)"
  by (induction xs) (auto simp: in_order_def dest: notin_set_remove1)

lemma in_order_cong: "(\<And>x y. x \<in> set xs \<Longrightarrow> y \<in> set xs \<Longrightarrow> lt' x y = lt x y) \<Longrightarrow> in_order lt' xs = in_order lt xs"
  by (induction xs) (auto simp: in_order_def)

lemma add_links:
  assumes I: "pi_inv st W" and m: "pi_owner st m = Some q" and a: "pi_live st a" "pt_blocked_on (pi_tasks st a) = None"
  shows "\<exists>st1. pi_waiter_add st a m = map_option Inr (pi_propagate_chain q st1) \<and> pi_owner st1 = pi_owner st
    \<and> pi_tasks st1 = pi_tasks (set_blocked_on st a (Some m)) \<and> pi_inv st1 (W(m := insert_at (pi_waiter_less (pi_tasks st)) a (W m)))"
proof -
  let ?lt = "pi_waiter_less (pi_tasks st)"
  have m': "pi_owner st m \<noteq> None" using m by simp
  obtain T where T: "rb_tree None (pi_heap st) m T" "adr T = W m" and ord: "in_order ?lt (W m)" using pi_invD(1) [OF I m'] by (auto simp: waiters_def)
  have o: "owners (pi_heap st) a = Some None" by (rule pi_invD(2) [OF I a])
  have out: "a \<notin> set (W n)" if "pi_owner st n \<noteq> None" for n using waiters_owner [OF pi_invD(1) [OF I that]] o by fastforce
  obtain h T' where h: "rb_insert_augmented (pi_heap st) (Some m) (Some a) (Some ?lt) (Some pi_waiter_augment) = Some (h, 0)"
      "rb_tree None h m T'" "adr T' = insert_at ?lt a (W m)" "in_order ?lt (adr T')" "owners h = (owners (pi_heap st))(a \<mapsto> Some m)"
      "\<And>b. b \<notin> insert a (set (W m)) \<Longrightarrow> rb_nodes h b = rb_nodes (pi_heap st) b" "\<And>r. r \<noteq> m \<Longrightarrow> rb_roots h r = rb_roots (pi_heap st) r"
      "set (adr T') = insert a (set (W m))"
    using ptree.insert_tree [OF T(1) o, of ?lt] T(2) ord pi_waiter_less_swo [of "pi_tasks st"] by (metis (no_types, lifting) Un_insert_right list.simps(15) set_append)
  let ?st = "set_blocked_on (st\<lparr>pi_heap := h\<rparr>) a (Some m)"
  have inv: "pi_inv ?st (W(m := adr T'))"
    by (rule pi_inv_step [OF I m' h(2,4,7,6,5)]) (use out h(8) in auto)
  have "pi_waiter_add st a m = map_option Inr (pi_propagate_chain q ?st)" using h(1) m by (simp add: pi_waiter_add_def)
  then show ?thesis using inv h(3) by (intro exI [of _ ?st]) (simp add: set_blocked_on_def)
qed

lemma erase_links:
  assumes I: "pi_inv st W" and m: "pi_owner st m \<noteq> None" and a: "a \<in> set (W m)"
  shows "\<exists>h. rb_erase_augmented (pi_heap st) (Some m) (Some a) (Some pi_waiter_augment) = Some (h, 0)
    \<and> pi_inv (set_blocked_on (st\<lparr>pi_heap := h\<rparr>) a None) (W(m := remove1 a (W m)))"
proof -
  let ?lt = "pi_waiter_less (pi_tasks st)"
  obtain T where T: "rb_tree None (pi_heap st) m T" "adr T = W m" and ord: "in_order ?lt (W m)" using pi_invD(1) [OF I m] by (auto simp: waiters_def)
  have d: "distinct (W m)" using T by (auto simp: rb_tree_def tree_at_def rep_def)
  obtain h T' where h: "rb_erase_augmented (pi_heap st) (Some m) (Some a) (Some pi_waiter_augment) = Some (h, 0)"
      "rb_tree None h m T'" "adr T' = remove1 a (W m)" "owners h = (owners (pi_heap st))(a \<mapsto> None)"
      "\<And>b. b \<notin> insert a (set (W m)) \<Longrightarrow> rb_nodes h b = rb_nodes (pi_heap st) b" "\<And>r. r \<noteq> m \<Longrightarrow> rb_roots h r = rb_roots (pi_heap st) r"
    using ptree.erase_tree [OF T(1), of a] T(2) a by auto
  have s: "set (adr T') = set (W m) - {a}" using h(3) d by simp
  have out: "a \<notin> set (W n)" if "pi_owner st n \<noteq> None" "n \<noteq> m" for n
    using waiters_owner [OF pi_invD(1) [OF I that(1)]] waiters_owner [OF pi_invD(1) [OF I m] a] that(2) by fastforce
  have "in_order ?lt (adr T')" using ord h(3) by (simp add: in_order_remove1)
  then have "pi_inv (set_blocked_on (st\<lparr>pi_heap := h\<rparr>) a None) (W(m := adr T'))"
    by (rule pi_inv_step [OF I m h(2) _ h(6,5,4)]) (use out s a in auto)
  then show ?thesis using h(1,3) by auto
qed

lemma remove_links:
  assumes I: "pi_inv st W" and m: "pi_owner st m = Some q" and a: "a \<in> set (W m)"
  shows "\<exists>st1. pi_waiter_remove st a = map_option Inr (pi_propagate_chain q st1) \<and> pi_owner st1 = pi_owner st
    \<and> pi_tasks st1 = pi_tasks (set_blocked_on st a None) \<and> pi_inv st1 (W(m := remove1 a (W m)))"
proof -
  have m': "pi_owner st m \<noteq> None" using m by simp
  obtain h where h: "rb_erase_augmented (pi_heap st) (Some m) (Some a) (Some pi_waiter_augment) = Some (h, 0)"
    "pi_inv (set_blocked_on (st\<lparr>pi_heap := h\<rparr>) a None) (W(m := remove1 a (W m)))" using erase_links [OF I m' a] by blast
  have "pt_blocked_on (pi_tasks st a) = Some m" using pi_inv_set [OF I m'] a by blast
  then show ?thesis using h m by (intro exI [of _ "set_blocked_on (st\<lparr>pi_heap := h\<rparr>) a None"]) (simp add: pi_waiter_remove_def set_blocked_on_def)
qed

lemma wake_links:
  assumes I: "pi_inv st W" and m: "pi_owner st m \<noteq> None"
  shows "case W m of
      [] \<Rightarrow> rt_mutex_wake_top_waiter st (Some m) = Some (Inr (st, None))
    | x # ys \<Rightarrow> \<exists>st'. rt_mutex_wake_top_waiter st (Some m) = Some (Inr (st', Some x)) \<and> pi_inv st' (W(m := ys))
        \<and> pt_blocked_on (pi_tasks st' x) = None"
proof -
  obtain T where T: "rb_tree None (pi_heap st) m T" "adr T = W m" using pi_invD(1) [OF I m] by (auto simp: waiters_def)
  have first: "rb_first (pi_heap st) (Some m) = Some (hd_opt (W m))" using rb_first_of_tree [OF T(1)] T(2) by simp
  show ?thesis
  proof (cases "W m")
    case Nil
    then show ?thesis using first by (simp add: rt_mutex_wake_top_waiter_def)
  next
    case (Cons x ys)
    then have "x \<in> set (W m)" by simp
    from erase_links [OF I m this] show ?thesis using first Cons by (auto simp: rt_mutex_wake_top_waiter_def set_blocked_on_def)
  qed
qed

section \<open>Reachable states\<close>

text \<open>
  At the start no task waits. The operations on the queues run in any order; ownership and the weights of
  tasks change at any time, but the weight of a task as a waiter (\<^verbatim>\<open>pi_weight\<close>) only while the task
  waits nowhere.
\<close>

definition pi_start :: "pi_state \<Rightarrow> bool" where
  "pi_start st \<longleftrightarrow> (\<forall>m. pi_owner st m \<noteq> None \<longrightarrow> rb_roots (pi_heap st) m = Some \<lparr>rt_root = None, rt_leftmost = None\<rparr>)
     \<and> (\<forall>a. pi_live st a \<longrightarrow> owners (pi_heap st) a = Some None \<and> pt_blocked_on (pi_tasks st a) = None)"

inductive pi_reach :: "pi_state \<Rightarrow> bool" where
  start: "pi_start st \<Longrightarrow> pi_reach st"
| add: "pi_reach st \<Longrightarrow> pi_live st a \<Longrightarrow> pi_owner st m \<noteq> None \<Longrightarrow> pi_waiter_add st a m = Some (Inr st') \<Longrightarrow> pi_reach st'"
| remove: "pi_reach st \<Longrightarrow> pi_live st a \<Longrightarrow> pi_waiter_remove st a = Some (Inr st') \<Longrightarrow> pi_reach st'"
| wake: "pi_reach st \<Longrightarrow> pi_owner st m \<noteq> None \<Longrightarrow> rt_mutex_wake_top_waiter st (Some m) = Some (Inr (st', r)) \<Longrightarrow> pi_reach st'"
| prepare: "pi_reach st \<Longrightarrow> pt_blocked_on (pi_tasks st a) = None \<Longrightarrow> pi_reach (pi_prepare st a)"
| weigh: "pi_reach st \<Longrightarrow> pi_reach (set_weight st a w)"
| own: "pi_reach st \<Longrightarrow> pi_owner st m \<noteq> None \<Longrightarrow> pi_reach (st\<lparr>pi_owner := (pi_owner st)(m \<mapsto> q)\<rparr>)"

lemma start_ordered: "pi_start st \<Longrightarrow> pi_inv st (\<lambda>_. [])"
proof -
  assume s: "pi_start st"
  have "waiters st m []" if "pi_owner st m \<noteq> None" for m
  proof -
    have "rb_roots (pi_heap st) m = Some \<lparr>rt_root = None, rt_leftmost = None\<rparr>" using s that by (simp add: pi_start_def)
    then have "rb_tree None (pi_heap st) m Lf" by (simp add: rb_tree_def tree_at_def rep_def rootptr_def leftmost_def vok_def)
    then show ?thesis by (auto simp: waiters_def in_order_def intro!: exI [of _ Lf])
  qed
  then show ?thesis using s by (simp add: pi_inv_def pi_start_def)
qed

lemma prepare_ordered:
  assumes I: "pi_inv st W" and a: "pt_blocked_on (pi_tasks st a) = None"
  shows "pi_inv (pi_prepare st a) W"
proof -
  have "waiters (pi_prepare st a) m (W m)" if m: "pi_owner st m \<noteq> None" for m
  proof -
    have out: "a \<notin> set (W m)" using pi_inv_set [OF I m] a by auto
    have "pi_waiter_less (pi_tasks (pi_prepare st a)) x y = pi_waiter_less (pi_tasks st) x y" if "x \<in> set (W m)" "y \<in> set (W m)" for x y
      using out that by (auto simp: pi_waiter_less_def pi_prepare_def)
    then have "in_order (pi_waiter_less (pi_tasks (pi_prepare st a))) (W m) = in_order (pi_waiter_less (pi_tasks st)) (W m)" by (rule in_order_cong)
    moreover have "pi_heap (pi_prepare st a) = pi_heap st" by (simp add: pi_prepare_def)
    ultimately show ?thesis using pi_invD(1) [OF I m] by (simp add: waiters_def)
  qed
  then show ?thesis using I by (auto simp: pi_inv_def pi_prepare_def pi_live_def)
qed

lemma reach_ordered: "pi_reach st \<Longrightarrow> \<exists>W. pi_inv st W"
proof (induction rule: pi_reach.induct)
  case (start st)
  then show ?case using start_ordered by blast
next
  case (add st a m st')
  then obtain W q where I: "pi_inv st W" and q: "pi_owner st m = Some q" by auto
  show ?case
  proof (cases "pt_blocked_on (pi_tasks st a)")
    case None
    from add_links [OF I q add(2) None] obtain st1 where "pi_waiter_add st a m = map_option Inr (pi_propagate_chain q st1)" "\<exists>W. pi_inv st1 W" by blast
    then show ?thesis using add(4) propagate_keeps [of st1 _ q st'] by metis
  next
    case (Some k)
    then have "owners (pi_heap st) a = Some (Some k)" using pi_invD(3) [OF I add(2) Some] waiters_owner pi_invD(1) [OF I] by blast
    then show ?thesis using add(4) rb_insert_refused by (simp add: pi_waiter_add_def set_blocked_on_def)
  qed
next
  case (remove st a st')
  then obtain W where I: "pi_inv st W" by blast
  show ?case
  proof (cases "pt_blocked_on (pi_tasks st a)")
    case None
    then show ?thesis using I remove(3) by (auto simp: pi_waiter_remove_def)
  next
    case (Some m)
    then obtain q where q: "pi_owner st m = Some q" "a \<in> set (W m)" using pi_invD(3) [OF I remove(2) Some] by auto
    from remove_links [OF I q] obtain st1 where "pi_waiter_remove st a = map_option Inr (pi_propagate_chain q st1)" "\<exists>W. pi_inv st1 W" by blast
    then show ?thesis using remove(3) propagate_keeps [of st1 _ q st'] by metis
  qed
next
  case (wake st m st' r)
  then obtain W where "pi_inv st W" by blast
  then show ?case using wake_links [OF _ wake(2), of W] wake(3) by (cases "W m") auto
next
  case (prepare st a)
  then show ?case using prepare_ordered by blast
next
  case (weigh st a w)
  then show ?case using pi_inv_same [OF same_links_weight [OF same_links_refl]] by blast
next
  case (own st m q)
  then obtain W where I: "pi_inv st W" by blast
  have "waiters (st\<lparr>pi_owner := X\<rparr>) k xs = waiters st k xs" for X k xs by (simp add: waiters_def)
  then have "pi_inv (st\<lparr>pi_owner := (pi_owner st)(m \<mapsto> q)\<rparr>) W" using I own(2) by (auto simp: pi_inv_def pi_live_def)
  then show ?case by blast
qed

lemma wake_owner: "rt_mutex_wake_top_waiter st (Some m) = Some (Inr (st', r)) \<Longrightarrow> pi_owner st' = pi_owner st"
  by (auto simp: rt_mutex_wake_top_waiter_def bind_eq_Some_conv split: option.splits if_splits prod.splits)

lemma ends_tasks: "pi_tasks st = pi_tasks st' \<Longrightarrow> pi_owner st = pi_owner st' \<Longrightarrow> chain_ends st q = chain_ends st' q"
  by (auto elim!: chain_ends_links)

lemma add_returns:
  assumes I: "pi_inv st W" and m: "pi_owner st m = Some q" and a: "pi_live st a" "pt_blocked_on (pi_tasks st a) = None"
  shows "if chain_ends (set_blocked_on st a (Some m)) q
    then \<exists>st'. pi_waiter_add st a m = Some (Inr st') \<and> waiters st' m (insert_at (pi_waiter_less (pi_tasks st)) a (W m))
      \<and> (\<forall>p. q = Some p \<and> p \<noteq> a \<and> pt_blocked_on (pi_tasks st p) = None \<longrightarrow> pt_weight (pi_tasks st' p) = pt_base_weight (pi_tasks st p))
    else pi_waiter_add st a m = None"
proof -
  let ?ys = "insert_at (pi_waiter_less (pi_tasks st)) a (W m)"
  obtain st1 where st1: "pi_waiter_add st a m = map_option Inr (pi_propagate_chain q st1)" "pi_owner st1 = pi_owner st"
    "pi_tasks st1 = pi_tasks (set_blocked_on st a (Some m))" "pi_inv st1 (W(m := ?ys))" using add_links [OF I m a] by blast
  have ends: "chain_ends st1 q = chain_ends (set_blocked_on st a (Some m)) q" using st1(2,3) by (intro ends_tasks) simp_all
  note p = propagate_iff [OF st1(4), of q]
  show ?thesis
  proof (cases "chain_ends st1 q")
    case True
    then obtain st' where st': "pi_propagate_chain q st1 = Some st'" "same_links st1 st'" "pi_inv st' (W(m := ?ys))" using p by auto
    have "waiters st' m ?ys" using pi_invD(1) [OF st'(3), of m] m st1(2) same_linksD(2) [OF st'(2)] by simp
    moreover have "pt_weight (pi_tasks st' b) = pt_base_weight (pi_tasks st b)" if b: "q = Some b" "b \<noteq> a" "pt_blocked_on (pi_tasks st b) = None" for b
    proof -
      have "pi_tasks st1 b = pi_tasks st b" using b(2) st1(3) by (simp add: set_blocked_on_def)
      then have "st' = set_weight st1 b (pt_base_weight (pi_tasks st b))" using chain_unblocked [of st1 b] st'(1) b by simp
      then show ?thesis by (simp add: set_weight_def)
    qed
    ultimately show ?thesis using True ends st1(1) st'(1) by auto
  next
    case False
    then show ?thesis using ends p st1(1) by simp
  qed
qed

lemma remove_returns:
  assumes I: "pi_inv st W" and m: "pi_owner st m = Some q" and a: "a \<in> set (W m)"
  shows "if chain_ends (set_blocked_on st a None) q
    then \<exists>st'. pi_waiter_remove st a = Some (Inr st') \<and> waiters st' m (remove1 a (W m)) \<and> pt_blocked_on (pi_tasks st' a) = None
    else pi_waiter_remove st a = None"
proof -
  obtain st1 where st1: "pi_waiter_remove st a = map_option Inr (pi_propagate_chain q st1)" "pi_owner st1 = pi_owner st"
    "pi_tasks st1 = pi_tasks (set_blocked_on st a None)" "pi_inv st1 (W(m := remove1 a (W m)))" using remove_links [OF I m a] by blast
  have ends: "chain_ends st1 q = chain_ends (set_blocked_on st a None) q" using st1(2,3) by (intro ends_tasks) simp_all
  note p = propagate_iff [OF st1(4), of q]
  show ?thesis
  proof (cases "chain_ends st1 q")
    case True
    then obtain st' where st': "pi_propagate_chain q st1 = Some st'" "same_links st1 st'" "pi_inv st' (W(m := remove1 a (W m)))" using p by auto
    have "waiters st' m (remove1 a (W m))" using pi_invD(1) [OF st'(3), of m] m st1(2) same_linksD(2) [OF st'(2)] by simp
    moreover have "pt_blocked_on (pi_tasks st' a) = None" using same_linksD(3) [OF st'(2), of a] st1(3) by (simp add: set_blocked_on_def)
    ultimately show ?thesis using True ends st1(1) st'(1) by auto
  next
    case False
    then show ?thesis using ends p st1(1) by simp
  qed
qed

text \<open>
  C22: In every state that adding, removing and waking waiters reach from empty queues, with changes of
  owners and weights in between, where the weight of a task as a waiter changes only while it waits
  nowhere: the queue of a mutex holds exactly the tasks that wait for it, in the order of their
  weights, and waking takes the first, which no other waiter outweighs. Adding a task that waits
  nowhere returns exactly when the chain of owners from the mutex ends, and then the task stands in
  the queue in front of the lighter waiters; removing a waiter returns under the same condition and
  takes it out. When the chain does not end, neither call returns. The owner is not boosted: if it waits
  for nothing, adding a waiter of any weight leaves it with its base weight.
\<close>

theorem pi_waiters_correct:
  assumes r: "pi_reach st" and m: "pi_owner st m = Some q"
  shows "\<exists>xs. waiters st m xs \<and> set xs = {a. pi_live st a \<and> pt_blocked_on (pi_tasks st a) = Some m}
    \<and> (\<forall>a. pi_live st a \<and> pt_blocked_on (pi_tasks st a) = None \<longrightarrow>
        (if chain_ends (set_blocked_on st a (Some m)) q
         then \<exists>st'. pi_waiter_add st a m = Some (Inr st') \<and> waiters st' m (insert_at (pi_waiter_less (pi_tasks st)) a xs)
           \<and> (\<forall>p. q = Some p \<and> p \<noteq> a \<and> pt_blocked_on (pi_tasks st p) = None \<longrightarrow> pt_weight (pi_tasks st' p) = pt_base_weight (pi_tasks st p))
         else pi_waiter_add st a m = None))
    \<and> (\<forall>a \<in> set xs. if chain_ends (set_blocked_on st a None) q
         then \<exists>st'. pi_waiter_remove st a = Some (Inr st') \<and> waiters st' m (remove1 a xs) \<and> pt_blocked_on (pi_tasks st' a) = None
         else pi_waiter_remove st a = None)
    \<and> (case xs of
         [] \<Rightarrow> rt_mutex_wake_top_waiter st (Some m) = Some (Inr (st, None))
       | x # ys \<Rightarrow> (\<forall>y \<in> set ys. pt_pi_weight (pi_tasks st y) \<le> pt_pi_weight (pi_tasks st x))
           \<and> (\<exists>st'. rt_mutex_wake_top_waiter st (Some m) = Some (Inr (st', Some x)) \<and> waiters st' m ys \<and> pt_blocked_on (pi_tasks st' x) = None))"
proof -
  obtain W where I: "pi_inv st W" using reach_ordered [OF r] by blast
  have m': "pi_owner st m \<noteq> None" using m by simp
  note w = pi_invD(1) [OF I m']
  have "case W m of
      [] \<Rightarrow> rt_mutex_wake_top_waiter st (Some m) = Some (Inr (st, None))
    | x # ys \<Rightarrow> (\<forall>y \<in> set ys. pt_pi_weight (pi_tasks st y) \<le> pt_pi_weight (pi_tasks st x))
        \<and> (\<exists>st'. rt_mutex_wake_top_waiter st (Some m) = Some (Inr (st', Some x)) \<and> waiters st' m ys \<and> pt_blocked_on (pi_tasks st' x) = None)"
  proof (cases "W m")
    case Nil
    then show ?thesis using wake_links [OF I m'] by simp
  next
    case (Cons x ys)
    then obtain st' where st': "rt_mutex_wake_top_waiter st (Some m) = Some (Inr (st', Some x))" "pi_inv st' (W(m := ys))" "pt_blocked_on (pi_tasks st' x) = None"
      using wake_links [OF I m'] by auto
    have "pi_owner st' = pi_owner st" using wake_owner [OF st'(1)] .
    then have "waiters st' m ys" using pi_invD(1) [OF st'(2), of m] m' by simp
    then show ?thesis using Cons st' w first_is_heaviest [of "pi_tasks st" x ys] by (auto simp: waiters_def)
  qed
  then show ?thesis using w pi_inv_set [OF I m'] add_returns [OF I m] remove_returns [OF I m] by (intro exI [of _ "W m"]) blast
qed

text \<open>A heavy waiter for a mutex whose owner has the default weight.\<close>

definition demo_pi :: pi_state where
  "demo_pi = \<lparr>pi_tasks = (\<lambda>a. \<lparr>pt_pid = 1, pt_weight = 1024, pt_base_weight = 1024, pt_pi_weight = (if a = 2 then 8192 else 1024), pt_blocked_on = None\<rparr>),
     pi_owner = [0 \<mapsto> Some 1],
     pi_heap = \<lparr>rb_nodes = [2 \<mapsto> \<lparr>rb_parent = None, rb_left = None, rb_right = None, rb_owner = None, rb_min_vruntime = 0, rb_col = RB_BLACK\<rparr>],
                rb_roots = [0 \<mapsto> \<lparr>rt_root = None, rt_leftmost = None\<rparr>]\<rparr>\<rparr>"

theorem pi_waiters_correct_witness:
  "\<exists>st. pi_waiter_add demo_pi 2 0 = Some (Inr st) \<and> waiters st 0 [2] \<and> pt_weight (pi_tasks st 1) = 1024"
proof -
  have r: "pi_reach demo_pi" by (rule pi_reach.start) (auto simp: pi_start_def demo_pi_def pi_live_def owners_def split: if_splits)
  have o: "pi_owner demo_pi 0 = Some (Some 1)" by (simp add: demo_pi_def)
  obtain xs where xs: "set xs = {a. pi_live demo_pi a \<and> pt_blocked_on (pi_tasks demo_pi a) = Some 0}"
    "\<forall>a. pi_live demo_pi a \<and> pt_blocked_on (pi_tasks demo_pi a) = None \<longrightarrow>
        (if chain_ends (set_blocked_on demo_pi a (Some 0)) (Some 1)
         then \<exists>st'. pi_waiter_add demo_pi a 0 = Some (Inr st') \<and> waiters st' 0 (insert_at (pi_waiter_less (pi_tasks demo_pi)) a xs)
           \<and> (\<forall>p. Some 1 = Some p \<and> p \<noteq> a \<and> pt_blocked_on (pi_tasks demo_pi p) = None \<longrightarrow> pt_weight (pi_tasks st' p) = pt_base_weight (pi_tasks demo_pi p))
         else pi_waiter_add demo_pi a 0 = None)"
    using pi_waiters_correct [OF r o] by blast
  have "xs = []" using xs(1) by (auto simp: demo_pi_def)
  moreover have "pi_live demo_pi 2" "\<And>a. pt_blocked_on (pi_tasks demo_pi a) = None" "pt_base_weight (pi_tasks demo_pi 1) = 1024" by (simp_all add: demo_pi_def pi_live_def)
  moreover have "chain_ends (set_blocked_on demo_pi 2 (Some 0)) (Some 1)" by (rule chain_ends.first) (simp add: demo_pi_def set_blocked_on_def)
  ultimately show ?thesis using xs(2) [rule_format, of 2] by (auto simp: insert_at_def)
qed

text \<open>
  The condition on the weights is needed. \<^verbatim>\<open>rt_mutex_lock\<close> stores the weight of a task as a waiter before it
  tests whether the task is queued: when a queued task tries again with a new weight it is not
  moved, and a lighter waiter is woken first.
\<close>

lemma contend_out_of_order:
  assumes w: "waiters st m (x # ys)" and y: "y \<in> set ys" "pt_blocked_on (pi_tasks st y) = Some m" "pt_weight (pi_tasks st y) > pt_pi_weight (pi_tasks st x)"
  shows "\<exists>st' st''. pi_contend st y m = Some (Inr st') \<and> pi_heap st' = pi_heap st
    \<and> rt_mutex_wake_top_waiter st' (Some m) = Some (Inr (st'', Some x)) \<and> pt_pi_weight (pi_tasks st' x) < pt_pi_weight (pi_tasks st' y)"
proof -
  obtain T where T: "rb_tree None (pi_heap st) m T" "adr T = x # ys" using w by (auto simp: waiters_def)
  then have "distinct (x # ys)" by (auto simp: rb_tree_def tree_at_def rep_def)
  then have ne: "x \<noteq> y" using y(1) by auto
  let ?st = "pi_prepare st y"
  have heap: "pi_heap ?st = pi_heap st" by (simp add: pi_prepare_def)
  obtain h where "rb_erase_augmented (pi_heap st) (Some m) (Some x) (Some pi_waiter_augment) = Some (h, 0)" using ptree.erase_tree [OF T(1), of x] T(2) by auto
  then have "\<exists>st''. rt_mutex_wake_top_waiter ?st (Some m) = Some (Inr (st'', Some x))"
    using rb_first_of_tree [OF T(1)] T(2) heap by (simp add: rt_mutex_wake_top_waiter_def)
  moreover have "pi_contend st y m = Some (Inr ?st)" using y(2) by (simp add: pi_contend_def pi_prepare_def)
  moreover have "pt_pi_weight (pi_tasks ?st x) < pt_pi_weight (pi_tasks ?st y)" using y(3) ne by (simp add: pi_prepare_def)
  ultimately show ?thesis using heap by blast
qed

section \<open>Cycles of waiting\<close>

text \<open>The owner of either of two mutexes waits for the other one.\<close>

definition crossed :: "nat \<Rightarrow> nat \<Rightarrow> nat \<Rightarrow> nat \<Rightarrow> pi_state \<Rightarrow> bool" where
  "crossed a b m n st \<longleftrightarrow> pt_blocked_on (pi_tasks st a) = Some n \<and> pi_owner st n = Some (Some b)
     \<and> pt_blocked_on (pi_tasks st b) = Some m \<and> pi_owner st m = Some (Some a)"

lemma crossed_weight: "crossed a b m n (set_weight st c w) = crossed a b m n st"
  by (simp add: crossed_def set_weight_def)

lemma crossed_no_result:
  assumes "pi_propagate_chain q st = Some r"
  shows "crossed a b m n st \<longrightarrow> q \<noteq> Some a \<and> q \<noteq> Some b"
proof (rule pi_propagate_chain.raw_induct [where P = "\<lambda>q st r. crossed a b m n st \<longrightarrow> q \<noteq> Some a \<and> q \<noteq> Some b", OF _ assms], rule impI)
  fix chain q st r
  assume IH: "\<And>q st r. chain q st = Some r \<Longrightarrow> crossed a b m n st \<longrightarrow> q \<noteq> Some a \<and> q \<noteq> Some b" and c: "crossed a b m n st"
    and r: "(case q of None \<Rightarrow> Some st | Some a \<Rightarrow> (case pt_blocked_on (pi_tasks st a) of
        None \<Rightarrow> Some (set_weight st a (pt_base_weight (pi_tasks st a)))
      | Some mutex \<Rightarrow> do { w \<leftarrow> pi_effective_weight st a; q \<leftarrow> pi_owner st mutex; chain q (set_weight st a w) })) = Some r"
  have next_owner: False if "chain p (set_weight st x w) = Some r" "p = Some a \<or> p = Some b" for p x w
    using IH [OF that(1)] c that(2) by (auto simp: crossed_weight)
  show "q \<noteq> Some a \<and> q \<noteq> Some b" using r c by (auto simp: crossed_def Option.bind_eq_Some_conv intro: next_owner)
qed

text \<open>
  C23: When the owner of a mutex waits for a second mutex and the owner of that one comes to wait for
  the first, the walk along the chain of owners never ends. No access on the way fails: the insertion
  succeeds, the weights of both owners are found, and after these two steps the walk is at the owner
  where it began, in a state that differs in the weights only and has the same cycle. So
  adding the second waiter, which walks the chain with the lock of the mutex held, does not return.
\<close>

theorem pi_deadlock_never_returns:
  assumes m: "waiters st m xs" and n: "waiters st n ys" and fresh: "owners (pi_heap st) b = Some None" and "a \<noteq> b"
    and a: "pi_owner st m = Some (Some a)" "pt_blocked_on (pi_tasks st a) = Some n" and b: "pi_owner st n = Some (Some b)"
    and st1: "st1 = set_blocked_on st b (Some m)"
  shows "\<exists>h. rb_insert_augmented (pi_heap st) (Some m) (Some b) (Some (pi_waiter_less (pi_tasks st1))) (Some pi_waiter_augment) = Some (h, 0)
      \<and> (\<exists>v w. pi_effective_weight (st1\<lparr>pi_heap := h\<rparr>) a = Some v
            \<and> pi_effective_weight (set_weight (st1\<lparr>pi_heap := h\<rparr>) a v) b = Some w
            \<and> crossed a b m n (set_weight (set_weight (st1\<lparr>pi_heap := h\<rparr>) a v) b w)
            \<and> pi_propagate_chain (Some a) (st1\<lparr>pi_heap := h\<rparr>) = pi_propagate_chain (Some a) (set_weight (set_weight (st1\<lparr>pi_heap := h\<rparr>) a v) b w))
      \<and> pi_waiter_add st b m = None"
proof -
  have "m \<noteq> n" using a(1) b \<open>a \<noteq> b\<close> by auto
  obtain T where T: "rb_tree None (pi_heap st) m T" using m by (auto simp: waiters_def)
  obtain h T' where h: "rb_insert_augmented (pi_heap st) (Some m) (Some b) (Some (pi_waiter_less (pi_tasks st1))) (Some pi_waiter_augment) = Some (h, 0)"
      "rb_tree None h m T'" "\<And>r. r \<noteq> m \<Longrightarrow> rb_roots h r = rb_roots (pi_heap st) r"
    using ptree.insert_tree [OF T fresh] by blast
  let ?st = "st1\<lparr>pi_heap := h\<rparr>"
  have c: "crossed a b m n ?st" using a b \<open>a \<noteq> b\<close> st1 by (simp add: crossed_def set_blocked_on_def)
  have "rb_roots h n \<noteq> None" using h(3) [of n] waiters_root [OF n] \<open>m \<noteq> n\<close> by simp
  then obtain v where v: "pi_effective_weight ?st a = Some v" using effective_weight_returns [of ?st a n] c by (auto simp: crossed_def)
  have "rb_roots h m \<noteq> None" using h(2) by (auto simp: rb_tree_def leftmost_def)
  then obtain w where w: "pi_effective_weight (set_weight ?st a v) b = Some w"
    using effective_weight_returns [of "set_weight ?st a v" b m] c \<open>a \<noteq> b\<close> by (auto simp: crossed_def set_weight_def)
  have "pi_propagate_chain (Some a) ?st = pi_propagate_chain (Some b) (set_weight ?st a v)" using chain_blocked [OF _ v] c by (simp add: crossed_def)
  also have "\<dots> = pi_propagate_chain (Some a) (set_weight (set_weight ?st a v) b w)"
    using chain_blocked [OF _ w] c crossed_weight [of a b m n ?st a v] by (simp add: crossed_def)
  finally have twice: "pi_propagate_chain (Some a) ?st = pi_propagate_chain (Some a) (set_weight (set_weight ?st a v) b w)" .
  have "pi_propagate_chain (Some a) ?st = None" using crossed_no_result [of "Some a" ?st _ a b m n] c by (cases "pi_propagate_chain (Some a) ?st") auto
  moreover have "pi_heap st1 = pi_heap st" "pi_owner st1 = pi_owner st" using st1 by (simp_all add: set_blocked_on_def)
  ultimately have "pi_waiter_add st b m = None" using h(1) a(1) st1 by (simp add: pi_waiter_add_def Let_def)
  moreover have "crossed a b m n (set_weight (set_weight ?st a v) b w)" using c by (simp add: crossed_weight)
  ultimately show ?thesis using h(1) v w twice by blast
qed

text \<open>Task 1 owns mutex 0 and waits for mutex 3, which task 2 owns; task 2 now asks for mutex 0.\<close>

definition demo_crossed :: pi_state where
  "demo_crossed = demo_pi\<lparr>pi_tasks := (pi_tasks demo_pi)(1 := (pi_tasks demo_pi 1)\<lparr>pt_blocked_on := Some 3\<rparr>),
     pi_owner := [0 \<mapsto> Some 1, 3 \<mapsto> Some 2],
     pi_heap := \<lparr>rb_nodes = (rb_nodes (pi_heap demo_pi))(1 \<mapsto> \<lparr>rb_parent = None, rb_left = None, rb_right = None, rb_owner = Some 3, rb_min_vruntime = 0, rb_col = RB_BLACK\<rparr>),
                 rb_roots = [0 \<mapsto> \<lparr>rt_root = None, rt_leftmost = None\<rparr>, 3 \<mapsto> \<lparr>rt_root = Some 1, rt_leftmost = Some 1\<rparr>]\<rparr>\<rparr>"

theorem pi_deadlock_never_returns_witness: "pi_waiter_add demo_crossed 2 0 = None \<and> waiters demo_crossed 0 [] \<and> waiters demo_crossed 3 [1]"
proof -
  have "rb_tree None (pi_heap demo_crossed) 0 Lf"
    by (simp add: demo_crossed_def demo_pi_def rb_tree_def tree_at_def rep_def rootptr_def leftmost_def vok_def)
  then have m: "waiters demo_crossed 0 []" by (auto simp: waiters_def in_order_def intro!: exI [of _ Lf])
  have "rb_tree None (pi_heap demo_crossed) 3 (Nd RB_BLACK Lf 1 Lf)"
    by (auto simp: demo_crossed_def demo_pi_def rb_tree_def tree_at_def rep_def rootptr_def leftmost_def vok_def owners_def hd_opt_def cells_def)
  then have n: "waiters demo_crossed 3 [1]" by (auto simp: waiters_def in_order_def intro!: exI [of _ "Nd RB_BLACK Lf 1 Lf"])
  have "owners (pi_heap demo_crossed) 2 = Some None" "(1::nat) \<noteq> 2" "pi_owner demo_crossed 0 = Some (Some 1)"
      "pt_blocked_on (pi_tasks demo_crossed 1) = Some 3" "pi_owner demo_crossed 3 = Some (Some 2)"
    by (simp_all add: demo_crossed_def demo_pi_def owners_def)
  then show ?thesis using pi_deadlock_never_returns [OF m n _ _ _ _ _ refl, of 2 1] m n by blast
qed

end
