(* ===== verification/Spec2Isabelle.thy ===== *)
theory Spec2Isabelle
  imports Overflow Bpf_Safety Frame_Correct Path_Correct Number_Correct Crc32c Bitmap Evdev_Correct Ilist Slist Clist Cgroup_Correct Sched_Correct Rtmutex
begin

text \<open>
  Uinxed-Kernel is a monolithic x86-64 kernel in C. This development verifies those of its parts
  that are algorithms on data: the two layers of physical memory allocation, the seccomp filter
  verifier and interpreter, control groups, the scheduler, the waiters of mutexes with priority
  inheritance, the input event queue,
  and the library below them (lists, red-black trees, strings, paths, number conversion, bitmaps, bit operations, checksums, byte order and
  checked arithmetic). The parts that program devices, page tables or the processor are not
  modelled; the last section says why.

  \<^bold>\<open>The program and its parts.\<close> \<^verbatim>\<open>mem/buddy.c\<close> manages page ranges in an array of page metadata and
  \<^verbatim>\<open>mem/frame.c\<close> puts reference counts and per-processor caches on top of it. \<^verbatim>\<open>security/seccomp_bpf.c\<close>
  checks a filter program once and runs it on every system call. \<^verbatim>\<open>kernel/cgroup/cgroup.c\<close> keeps the
  tree of control groups, charges tasks to it and enforces \<^verbatim>\<open>pids.max\<close>; it uses the intrusive list
  for its tasks, the linked list of \<^verbatim>\<open>circular_list.c\<close> for its children, and the string functions for
  what user space writes. \<^verbatim>\<open>kernel/sched/sched.c\<close> keeps the ready tasks of a processor in a timeline,
  a red-black tree of \<^verbatim>\<open>libs/util/rbtree.c\<close>, and chooses the next one from it. \<^verbatim>\<open>ipc/rt_mutex.c\<close> keeps the waiters of a mutex in
  another such tree. \<^verbatim>\<open>drivers/input/evdev/evdev_queue.c\<close> buffers events between a driver and a
  reader. \<^verbatim>\<open>libs/std\<close>, \<^verbatim>\<open>libs/list\<close> and \<^verbatim>\<open>libs/util\<close> serve all of them.

  \<^bold>\<open>Conventions.\<close> Machine integers are words of their width, so that additions wrap as in the
  source; indices and sizes are natural numbers with \<open>size_add\<close> and \<open>size_sub\<close> where the source
  can wrap. Status codes are \<open>EOK\<close> or \<open>ERR e\<close>. A null pointer is \<open>None\<close>. The outer option of an
  operation is \<open>None\<close> exactly when the code would access memory outside its object, follow a null
  or dangling pointer, or loop forever; a property that states \<open>= Some ...\<close> therefore also states
  memory safety and termination. Loops are structural recursion, \<open>function\<close>s with a measure, or
  \<open>partial_function (option)\<close> where ending depends on the shape of the heap; the only step
  counter is the one the source itself has, in the list walk of \<^verbatim>\<open>buddy_validate\<close>. What
  \<^verbatim>\<open>malloc\<close> returns is an argument of the operations that allocate, and both outcomes are covered. An
  operation that holds one spin lock from its first to its last access is one step.

  \<^bold>\<open>The theories\<close>, in the order of the imports, with the files under \<^verbatim>\<open>src/\<close>:

  \<^item> \<^verbatim>\<open>Prelude\<close>: integer types, error numbers, status values, sizes and the shared lemmas.
  \<^item> \<^verbatim>\<open>Overflow\<close> (\<^verbatim>\<open>libs/util/overflow.c\<close>): the checked operations of all widths report an overflow
    exactly when the mathematical result does not fit, and store the wrapped result.
  \<^item> \<^verbatim>\<open>Byteorder\<close> (\<^verbatim>\<open>libs/util/byteorder.c\<close>): loads give back what stores wrote.
  \<^item> \<^verbatim>\<open>Bpf\<close>, \<^verbatim>\<open>Bpf_Safety\<close> (\<^verbatim>\<open>security/seccomp_bpf.c\<close>): the verifier terminates; a filter it accepts
    runs to a return without leaving the program, its data or its scratch memory, and its result
    does not depend on uninitialised scratch memory.
  \<^item> \<^verbatim>\<open>Buddy\<close>, \<^verbatim>\<open>Buddy_Inv\<close>, \<^verbatim>\<open>Buddy_Ops\<close>, \<^verbatim>\<open>Buddy_Validate\<close>, \<^verbatim>\<open>Buddy_Correct\<close> (\<^verbatim>\<open>mem/buddy.c\<close>): the
    definitions; the invariant on the free lists inside the page array; that every operation keeps
    it; that \<^verbatim>\<open>buddy_validate\<close> decides it; and the refinement of an abstract pool of free pages and
    allocated blocks, with the inductive set of reachable allocators.
  \<^item> \<^verbatim>\<open>Frame\<close>, \<^verbatim>\<open>Frame_Inv\<close>, \<^verbatim>\<open>Frame_Ops\<close>, \<^verbatim>\<open>Frame_Correct\<close> (\<^verbatim>\<open>mem/frame.c\<close>): allocation, reference
    counts, caches and start-up. The locale \<open>block_pool\<close> is what this layer relies on; it is
    interpreted on the buddy allocator.
  \<^item> \<^verbatim>\<open>Membytes\<close>, \<^verbatim>\<open>Cstring\<close>, \<^verbatim>\<open>Cstring_Correct\<close> (\<^verbatim>\<open>libs/std/string.c\<close>): block copies, string order,
    search and tokens.
  \<^item> \<^verbatim>\<open>Stdlib\<close>, \<^verbatim>\<open>Path_Correct\<close>, \<^verbatim>\<open>Number_Correct\<close> (\<^verbatim>\<open>libs/std/stdlib.c\<close>): path normalisation is
    canonical and idempotent; number formatting and \<^verbatim>\<open>strtol\<close> are inverse; the two formatters agree, byte by
    byte and in the returned count; \<^verbatim>\<open>strtol\<close> skips digits that overflow.
  \<^item> \<^verbatim>\<open>Bitops\<close>, \<^verbatim>\<open>Bitops_Correct\<close> (\<^verbatim>\<open>libs/util/bitops.c\<close>), \<^verbatim>\<open>Crc32c\<close> (\<^verbatim>\<open>libs/util/crc32c.c\<close>): the
    portable and the builtin bodies agree, counts are counts, and the word-wise checksum is the
    bit-wise one.
  \<^item> \<^verbatim>\<open>Bitmap\<close> (\<^verbatim>\<open>mem/bitmap.c\<close>): what range updates and searches really do.
  \<^item> \<^verbatim>\<open>Evdev\<close>, \<^verbatim>\<open>Evdev_Correct\<close> (\<^verbatim>\<open>drivers/input/evdev/evdev_queue.c\<close>): the ring buffer refines a
    pair of sequences, stays well formed and delivers complete frames.
  \<^item> \<^verbatim>\<open>Ilist\<close>, \<^verbatim>\<open>List_Spec\<close>, \<^verbatim>\<open>Slist\<close>, \<^verbatim>\<open>Clist\<close> (\<^verbatim>\<open>libs/list\<close>): the pointer structures implement
    sequences. The locale \<open>append_list\<close> is the contract of the two allocated lists and is
    interpreted on both.
  \<^item> \<^verbatim>\<open>Cgroup\<close> (\<^verbatim>\<open>kernel/cgroup/cgroup.c\<close>): the definitions on a heap of groups and tasks. The list of
    children and the ring of tasks are sequences here, which is what \<^verbatim>\<open>Clist\<close> and \<^verbatim>\<open>Ilist\<close> justify.
    \<^verbatim>\<open>Cgroup_Tree\<close> has the invariant, stated on views of the state (links, task lists, counters,
    controllers, texts) so that an operation that does not touch a view keeps its part; \<^verbatim>\<open>Cgroup_Tasks\<close>,
    \<^verbatim>\<open>Cgroup_Text\<close>, \<^verbatim>\<open>Cgroup_Groups\<close> and \<^verbatim>\<open>Cgroup_Ops\<close> show that each operation returns and keeps it;
    \<^verbatim>\<open>Cgroup_Correct\<close> has the reachable states and the limit on tasks. The steps on a target group are
    restricted to groups that have not been destroyed, which the code leaves to its callers.
  \<^item> \<^verbatim>\<open>Rbtree\<close> (\<^verbatim>\<open>libs/util/rbtree.c\<close>): the definitions on a heap of nodes and roots. \<^verbatim>\<open>Rbtree_Shape\<close> relates
    the pointers to a tree and a position in it, with the two sides treated alike; \<^verbatim>\<open>Rbtree_Rotate\<close>
    has the augmented values and the locale \<open>rb_callback\<close>, the contract of the callback that
    recomputes them; \<^verbatim>\<open>Rbtree_Insert\<close>, \<^verbatim>\<open>Rbtree_Order\<close>, \<^verbatim>\<open>Rbtree_Erase\<close>, \<^verbatim>\<open>Rbtree_Remove\<close> and
    \<^verbatim>\<open>Rbtree_Correct\<close> show that insertion and removal end and keep colours, values and order.
  \<^item> \<^verbatim>\<open>Eevdf\<close> (\<^verbatim>\<open>kernel/sched/sched.c\<close>): virtual time, eligibility, the weighted sum, placement, the
    timeline and the choice of the next task. \<^verbatim>\<open>Timeline\<close> interprets \<open>rb_callback\<close> on the callback of
    the scheduler and shows that a timeline implements a sequence of tasks. \<^verbatim>\<open>Eevdf_Inv\<close> has the
    invariant of the run queues and that enqueueing and dequeueing keep it; \<^verbatim>\<open>Eevdf_Pick\<close> shows that
    the search in the augmented tree is a scan of the timeline.
  \<^item> \<^verbatim>\<open>Sched\<close> (\<^verbatim>\<open>kernel/sched/sched.c\<close>): waking, migration, switching, ticks, stopping and continuing.
    \<^verbatim>\<open>Sched_Ops\<close> and \<^verbatim>\<open>Sched_Switch\<close> show that each operation keeps the invariant; \<^verbatim>\<open>Sched_Correct\<close> has
    the reachable states, their consistency, and that the chosen task is an eligible one.
  \<^item> \<^verbatim>\<open>Rtmutex\<close> (\<^verbatim>\<open>ipc/rt_mutex.c\<close>): the second interpretation of \<open>rb_callback\<close>, on a callback that does
    nothing. In the reachable states, where \<^verbatim>\<open>pi_weight\<close> changes only while a task waits nowhere, the
    queues are ordered and the top waiter is a heaviest one; adding and removing return exactly when
    the chain of owners ends; an owner that waits for nothing is not boosted; the walk along a
    cycle of owners does not end.

  \<^bold>\<open>Bounds.\<close> The allocators work on the metadata array they are initialised with, whose length is
  part of the state. The number of tasks in a state of the control groups is below \<open>2 ^ 64\<close>, so that the 64-bit counters of
  the groups never wrap. The scheduler has fewer than \<open>2 ^ 31\<close> tasks and \<open>2 ^ 32\<close> processors; the choice
  of the next task is characterised for virtual times below \<open>2 ^ 63\<close> (\<open>calm\<close>), because the augmented
  minimum is compared without regard to wrapping. Field widths and precisions of the number formatters are
  integers; they agree with the source unless a signed operation overflows there. Texts are byte lists at least as long as the length passed with them.

  \<^bold>\<open>Not modelled.\<close> Device drivers, interrupt and system call entry, the stacks and registers of a context switch, page tables,
  signal delivery and the boot sequence change processor or device state through inline assembly
  or memory-mapped registers, whose behaviour is not in the sources. The disk and pseudo file
  systems, the network stack and the blocking primitives depend on the scheduler, the virtual file
  system and those drivers; a model of them would replace most of what they call by assumptions.
  Of the scheduler, wait and sleep queues, the wakeup that \<^verbatim>\<open>task_block\<close> consumes, the selection of a
  processor and periodic balancing are left out; the processors that new-idle balancing tries are an
  argument. A task is stopped while its processor field names the queue it is on. Of the mutexes,
  locking, unlocking and reference counts are left out.
  The kernel heap finds its headers by pointer arithmetic inside the memory it hands out. Printing
  with variable arguments (\<^verbatim>\<open>snprintf\<close>) and the formatters of control files that only call it are left
  out; the number conversion below it is modelled. Concurrency inside a locked section and weak
  memory are out of scope: the lock words themselves are not part of the states.
\<close>

end
